(* ===== verification/Nanopb_Prelude.thy ===== *)
theory Nanopb_Prelude
  imports Main "HOL-Library.Word"
begin

unbundle bit_operations_syntax

text \<open>
  Shared vocabulary of the development: bytes, addresses and the flat byte-addressed memory in which
  the C structures of the program live, little-endian loads and stores of machine words, the
  named collections of the development's rewrite rules, and the generic lemmas on words and byte
  lists that the component theories use.

  Addresses are integers: pointer arithmetic on valid objects does not wrap in C, and a pointer
  that is itself stored in memory is its unsigned 64-bit value. The target is 64-bit and
  little-endian (arm64 and x86-64), as the iOS builds of the program are.
\<close>

section \<open>Collections of rewrite rules\<close>

named_theorems mem_simps \<open>loads after stores\<close>
named_theorems type_defs \<open>field type masks and codes\<close>
named_theorems stream_defs \<open>stream constructors and the error macro\<close>
named_theorems enc_defs \<open>definitions of the scalar encoders\<close>
named_theorems dec_defs \<open>definitions of the scalar decoders\<close>

section \<open>Bytes, addresses and memory\<close>

type_synonym byte = "8 word"
type_synonym addr = int
type_synonym memory = "addr \<Rightarrow> byte"

abbreviation (input) NULL :: addr where "NULL \<equiv> 0"

definition load_bytes :: "memory \<Rightarrow> addr \<Rightarrow> nat \<Rightarrow> byte list" where
  "load_bytes m a n = map (\<lambda>i. m (a + int i)) [0..<n]"

definition store_bytes :: "memory \<Rightarrow> addr \<Rightarrow> byte list \<Rightarrow> memory" where
  "store_bytes m a bs =
     (\<lambda>x. if a \<le> x \<and> x < a + int (length bs) then bs ! nat (x - a) else m x)"

fun word_of_le :: "byte list \<Rightarrow> 'a::len word" where
  "word_of_le [] = 0"
| "word_of_le (b # bs) = ucast b + 256 * word_of_le bs"

fun le_of_word :: "nat \<Rightarrow> 'a::len word \<Rightarrow> byte list" where
  "le_of_word 0 w = []"
| "le_of_word (Suc n) w = ucast w # le_of_word n (drop_bit 8 w)"

definition load_u8 :: "memory \<Rightarrow> addr \<Rightarrow> 8 word" where
  "load_u8 m a = m a"

definition load_u16 :: "memory \<Rightarrow> addr \<Rightarrow> 16 word" where
  "load_u16 m a = word_of_le (load_bytes m a 2)"

definition load_u32 :: "memory \<Rightarrow> addr \<Rightarrow> 32 word" where
  "load_u32 m a = word_of_le (load_bytes m a 4)"

definition load_u64 :: "memory \<Rightarrow> addr \<Rightarrow> 64 word" where
  "load_u64 m a = word_of_le (load_bytes m a 8)"

definition store_u8 :: "memory \<Rightarrow> addr \<Rightarrow> 8 word \<Rightarrow> memory" where
  "store_u8 m a w = store_bytes m a [w]"

definition store_u16 :: "memory \<Rightarrow> addr \<Rightarrow> 16 word \<Rightarrow> memory" where
  "store_u16 m a w = store_bytes m a (le_of_word 2 w)"

definition store_u32 :: "memory \<Rightarrow> addr \<Rightarrow> 32 word \<Rightarrow> memory" where
  "store_u32 m a w = store_bytes m a (le_of_word 4 w)"

definition store_u64 :: "memory \<Rightarrow> addr \<Rightarrow> 64 word \<Rightarrow> memory" where
  "store_u64 m a w = store_bytes m a (le_of_word 8 w)"

definition load_ptr :: "memory \<Rightarrow> addr \<Rightarrow> addr" where
  "load_ptr m a = uint (load_u64 m a)"

definition store_ptr :: "memory \<Rightarrow> addr \<Rightarrow> addr \<Rightarrow> memory" where
  "store_ptr m a p = store_u64 m a (word_of_int p)"

definition store_bool :: "memory \<Rightarrow> addr \<Rightarrow> bool \<Rightarrow> memory" where
  "store_bool m a b = store_bytes m a [if b then 1 else 0]"

definition unchanged_outside :: "addr set \<Rightarrow> memory \<Rightarrow> memory \<Rightarrow> bool" where
  "unchanged_outside A m m' \<longleftrightarrow> (\<forall>x. x \<notin> A \<longrightarrow> m' x = m x)"

section \<open>Lemmas on bytes and memory\<close>

lemma length_load_bytes [simp]: "length (load_bytes m a n) = n"
  by (simp add: load_bytes_def)

lemma length_le_of_word [simp]: "length (le_of_word n w) = n"
  by (induction n arbitrary: w) auto

lemma load_bytes_0 [simp]: "load_bytes m a 0 = []"
  by (simp add: load_bytes_def)

lemma load_bytes_Suc: "load_bytes m a (Suc n) = m a # load_bytes m (a + 1) n"
proof -
  have "[0..<Suc n] = 0 # map Suc [0..<n]"
    by (simp add: map_Suc_upt upt_conv_Cons del: upt_Suc)
  then show ?thesis by (simp add: load_bytes_def comp_def algebra_simps del: upt_Suc)
qed

lemma nth_load_bytes [simp]: "i < n \<Longrightarrow> load_bytes m a n ! i = m (a + int i)"
  by (simp add: load_bytes_def)

lemma load_store_same [mem_simps]:
  "n = length bs \<Longrightarrow> load_bytes (store_bytes m a bs) a n = bs"
  by (rule nth_equalityI) (auto simp: store_bytes_def)

lemma load_store_disjoint [mem_simps]:
  "b + int n \<le> a \<or> a + int (length bs) \<le> b \<Longrightarrow>
   load_bytes (store_bytes m a bs) b n = load_bytes m b n"
  by (rule nth_equalityI) (auto simp: store_bytes_def)

lemma load_bytes_cong:
  "(\<And>x. a \<le> x \<Longrightarrow> x < a + int n \<Longrightarrow> m x = m' x) \<Longrightarrow> load_bytes m a n = load_bytes m' a n"
  by (rule nth_equalityI) auto

lemma store_bytes_Nil [simp]: "store_bytes m a [] = m"
  by (rule ext) (auto simp: store_bytes_def)

lemma store_bytes_unchanged:
  "unchanged_outside {a ..< a + int (length bs)} m (store_bytes m a bs)"
  by (auto simp: unchanged_outside_def store_bytes_def)

lemma unchanged_outside_refl [simp]: "unchanged_outside A m m"
  by (simp add: unchanged_outside_def)

lemma unchanged_outside_trans:
  "unchanged_outside A m m1 \<Longrightarrow> unchanged_outside B m1 m2 \<Longrightarrow>
   A \<subseteq> C \<Longrightarrow> B \<subseteq> C \<Longrightarrow> unchanged_outside C m m2"
  unfolding unchanged_outside_def by (metis subsetD)

lemma unchanged_outside_mono:
  "unchanged_outside A m m' \<Longrightarrow> A \<subseteq> B \<Longrightarrow> unchanged_outside B m m'"
  unfolding unchanged_outside_def by blast

lemma unchanged_outside_load:
  "unchanged_outside A m m' \<Longrightarrow> A \<inter> {a ..< a + int n} = {} \<Longrightarrow>
   load_bytes m' a n = load_bytes m a n"
  unfolding unchanged_outside_def by (rule load_bytes_cong) (metis IntI atLeastLessThan_iff empty_iff)

lemma word_split_low_byte: "w = ucast (ucast w :: byte) + 256 * drop_bit 8 w"
  for w :: "'a::len word"
proof -
  have "take_bit 8 w + push_bit 8 (drop_bit 8 w) = w"
    using bits_ident [of 8 w] by (simp add: add.commute)
  moreover have "take_bit 8 w = ucast (ucast w :: byte)"
    by (rule bit_word_eqI) (auto simp: bit_simps)
  moreover have "push_bit 8 (drop_bit 8 w) = 256 * drop_bit 8 w"
    by (simp add: push_bit_eq_mult)
  ultimately show ?thesis by metis
qed

lemma word_of_le_of_word: "LENGTH('a) \<le> 8 * n \<Longrightarrow> word_of_le (le_of_word n w) = w"
  for w :: "'a::len word"
proof -
  have *: "\<And>n w. drop_bit (8 * n) (w :: 'a word) = 0 \<Longrightarrow> word_of_le (le_of_word n w) = w"
  proof -
    fix n and w :: "'a word"
    show "drop_bit (8 * n) w = 0 \<Longrightarrow> word_of_le (le_of_word n w) = w"
    proof (induction n arbitrary: w)
      case 0 then show ?case by simp
    next
      case (Suc n)
      have "drop_bit (8 * n) (drop_bit 8 w) = 0"
        using Suc.prems by (simp add: add.commute)
      then have "word_of_le (le_of_word n (drop_bit 8 w)) = drop_bit 8 w" by (rule Suc.IH)
      then show ?case by (simp flip: word_split_low_byte)
    qed
  qed
  assume "LENGTH('a) \<le> 8 * n"
  then have "drop_bit (8 * n) w = 0"
    by (intro bit_word_eqI) (auto simp: bit_simps dest: bit_imp_le_length)
  then show ?thesis by (rule *)
qed

lemma load_store_u16 [mem_simps]: "load_u16 (store_u16 m a w) a = w"
  by (simp add: load_u16_def store_u16_def mem_simps word_of_le_of_word)

lemma load_store_u32 [mem_simps]: "load_u32 (store_u32 m a w) a = w"
  by (simp add: load_u32_def store_u32_def mem_simps word_of_le_of_word)

lemma load_store_u64 [mem_simps]: "load_u64 (store_u64 m a w) a = w"
  by (simp add: load_u64_def store_u64_def mem_simps word_of_le_of_word)

lemma load_store_u8 [mem_simps]: "load_u8 (store_u8 m a w) a = w"
  by (simp add: load_u8_def store_u8_def store_bytes_def)

lemma load_store_ptr [mem_simps]: "0 \<le> p \<Longrightarrow> p < 2 ^ 64 \<Longrightarrow> load_ptr (store_ptr m a p) a = p"
  by (simp add: load_ptr_def store_ptr_def mem_simps uint_word_of_int)

section \<open>Lemmas on words\<close>

lemma unat_take_low7: "unat (w AND 0x7F) = unat w mod 128" for w :: "'a::len word"
proof -
  have "mask 7 = (0x7F :: 'a word)"
    by (simp add: mask_eq_exp_minus_1)
  then have "w AND 0x7F = take_bit 7 w"
    by (simp only: take_bit_eq_mask)
  moreover have "unat (take_bit 7 w) = take_bit 7 (unat w)"
    by (rule unsigned_take_bit_eq)
  ultimately show ?thesis by (simp add: take_bit_eq_mod)
qed

lemma unat_drop7: "unat (drop_bit 7 w) = unat w div 128" for w :: "'a::len word"
proof -
  have "unat (drop_bit 7 w) = drop_bit 7 (unat w)"
    by (rule unat_drop_bit_eq)
  then show ?thesis by (simp add: drop_bit_eq_div)
qed

lemma low_byte_continuation:
  "(ucast ((v AND 0x7F) OR 0x80) :: byte) = of_nat (unat v mod 128 + 128)" for v :: "64 word"
proof -
  have 1: "(ucast ((v AND 0x7F) OR 0x80) :: byte) = (ucast v AND 0x7F) OR 0x80"
    by (rule bit_word_eqI) (auto simp: bit_simps)
  have 2: "(ucast v AND 0x7F :: byte) OR 0x80 = (ucast v AND 0x7F) + 0x80"
    by (rule disjunctive_add_eq_or [symmetric]) (simp add: and.assoc)
  have 3: "(ucast v AND 0x7F :: byte) = of_nat (unat v mod 128)"
  proof -
    have "unat (ucast v AND 0x7F :: byte) = unat v mod 128"
      by (simp add: unat_take_low7 unsigned_ucast_eq take_bit_eq_mod mod_mod_cancel)
    then show ?thesis by (metis of_nat_unat ucast_id)
  qed
  show ?thesis unfolding 1 2 by (simp add: 3)
qed

lemma keep_low7_of_continuation: "n < 128 \<Longrightarrow> (of_nat (n + 128) AND 0x7F :: byte) = of_nat n"
proof -
  assume n: "n < 128"
  have "unat (of_nat (n + 128) AND 0x7F :: byte) = unat (of_nat (n + 128) :: byte) mod 128"
    by (rule unat_take_low7)
  also have "\<dots> = (n + 128) mod 256 mod 128"
    by (simp only: unat_of_nat) simp
  also have "\<dots> = unat (of_nat n :: byte)"
    using n by (simp add: unat_of_nat)
  finally show ?thesis by (simp only: word_unat_eq_iff)
qed

lemma sint_64: "sint (v :: 64 word) = (if uint v < 2 ^ 63 then uint v else uint v - 2 ^ 64)"
proof -
  have b: "0 \<le> uint v" "uint v < 2 ^ 64" using uint_lt2p [of v] by auto
  have "uint v + 2 ^ 63 = (uint v - 2 ^ 63) + 2 ^ 64" by simp
  then have "(uint v + 2 ^ 63) mod 2 ^ 64 = (uint v - 2 ^ 63) mod 2 ^ 64"
    by (metis mod_add_self2)
  then have "(uint v + 2 ^ 63) mod 2 ^ 64 = uint v - 2 ^ 63" if "\<not> uint v < 2 ^ 63"
    using b that by (simp add: mod_pos_pos_trivial)
  then show ?thesis using b
    by (auto simp: sint_uint signed_take_bit_eq_take_bit_shift take_bit_eq_mod)
qed

lemma uint_NOT: "uint (NOT (v :: 64 word)) = 2 ^ 64 - 1 - uint v"
proof -
  have b: "0 \<le> uint v" "uint v < 2 ^ 64" using uint_lt2p [of v] by auto
  have "NOT v = word_of_int (- uint v - 1)"
    by (simp add: not_eq_complement)
  then have "uint (NOT v) = (- uint v - 1) mod 2 ^ 64"
    by (simp only: uint_word_of_int) simp
  also have "\<dots> = (2 ^ 64 - 1 - uint v) mod 2 ^ 64"
  proof -
    have "(2::int) ^ 64 - 1 - uint v = (- uint v - 1) + 2 ^ 64" by simp
    then show ?thesis by (metis mod_add_self2)
  qed
  also have "\<dots> = 2 ^ 64 - 1 - uint v"
    using b by (intro mod_pos_pos_trivial; linarith)
  finally show ?thesis .
qed

lemma uint_double: "uint (push_bit 1 (v :: 64 word)) = (2 * uint v) mod 2 ^ 64"
  by (simp add: uint_word_ariths mult.commute)

lemma ucast_and_FF: "(ucast (w AND 0xFF) :: byte) = ucast w" for w :: "'a::len word"
proof -
  have "mask 8 = (0xFF :: 'a word)" by (simp add: mask_eq_exp_minus_1)
  then have "w AND 0xFF = take_bit 8 w" by (simp only: take_bit_eq_mask)
  then show ?thesis by (simp only:) (rule bit_word_eqI, auto simp: bit_simps)
qed

lemma unat_word_inject: "unat v = unat w \<Longrightarrow> v = w"
  by (simp only: word_unat_eq_iff)

lemma unat_or_push:
  fixes r :: "'a::len word"
  assumes r: "unat r < 2 ^ j" and n: "(n + 1) * 2 ^ j \<le> 2 ^ LENGTH('a)"
  shows "unat (r OR push_bit j (of_nat n)) = unat r + n * 2 ^ j"
proof -
  have "r = take_bit j r"
    using r by (intro unat_word_inject) (subst unsigned_take_bit_eq, simp add: take_bit_eq_mod)
  then have "r AND push_bit j (of_nat n) = 0"
    by (intro bit_word_eqI) (metis bit_0_eq bit_and_iff bit_push_bit_iff bit_take_bit_iff bot_apply bot_bool_def linorder_not_less)
  then have or: "r OR push_bit j (of_nat n) = r + push_bit j (of_nat n)"
    by (rule disjunctive_add_eq_or [symmetric])
  have lt: "n * 2 ^ j + 2 ^ j \<le> 2 ^ LENGTH('a)" using n by (simp add: algebra_simps)
  then have lt1: "n * 2 ^ j < 2 ^ LENGTH('a)" 
    by (metis add_lessD1 le_eq_less_or_eq less_add_same_cancel1 order.strict_trans1 zero_less_numeral zero_less_power)
  have "push_bit j (of_nat n :: 'a word) = of_nat (n * 2 ^ j)"
    by (simp add: push_bit_eq_mult)
  then have "unat (push_bit j (of_nat n :: 'a word)) = n * 2 ^ j"
    using lt1 by (simp only: unat_of_nat) simp
  with or r lt show ?thesis by (simp add: unat_word_ariths)
qed

lemma and_80_eq_0: "b AND 0x80 = 0 \<longleftrightarrow> unat b < 128" for b :: byte
proof -
  have "b AND 0x80 = 0 \<longleftrightarrow> \<not> bit b 7"
    using and_exp_eq_0_iff_not_bit [of b 7] by simp
  also have "bit b 7 \<longleftrightarrow> bit (unat b) 7"
    by (simp add: bit_unsigned_iff)
  also have "bit (unat b) 7 \<longleftrightarrow> odd (unat b div 128)"
    by (simp add: bit_iff_odd)
  also have "unat b < 256" using unsigned_less [of b] by simp
  then have "unat b div 128 = (if unat b < 128 then 0 else 1)" by (simp add: div_nat_eqI)
  then have "odd (unat b div 128) \<longleftrightarrow> \<not> unat b < 128" by simp
  finally show ?thesis by simp
qed

lemma continuation_byte:
  assumes "n < 128"
  shows "(of_nat (n + 128) :: byte) AND 0x80 \<noteq> 0" "ucast ((of_nat (n + 128) :: byte) AND 0x7F) = (of_nat n :: 'a::len word)"
proof -
  show "(of_nat (n + 128) :: byte) AND 0x80 \<noteq> 0"
    using assms by (simp only: and_80_eq_0 unat_of_nat) simp
  have "ucast (of_nat n :: byte) = (of_nat (unat (of_nat n :: byte)) :: 'a word)" by (rule of_nat_unat [symmetric])
  then show "ucast ((of_nat (n + 128) :: byte) AND 0x7F) = (of_nat n :: 'a word)"
    using assms unfolding keep_low7_of_continuation [OF assms] by (simp add: unat_of_nat)
qed

lemma final_byte:
  assumes "n < 128"
  shows "(of_nat n :: byte) AND 0x80 = 0" "(of_nat n :: byte) AND 0x7F = of_nat n" "ucast (of_nat n :: byte) = (of_nat n :: 'a::len word)"
proof -
  show "(of_nat n :: byte) AND 0x80 = 0"
    using assms by (simp only: and_80_eq_0 unat_of_nat) simp
  show "(of_nat n :: byte) AND 0x7F = of_nat n"
    using assms by (intro unat_word_inject) (simp only: unat_take_low7 unat_of_nat, simp)
  have "ucast (of_nat n :: byte) = (of_nat (unat (of_nat n :: byte)) :: 'a word)" by (rule of_nat_unat [symmetric])
  then show "ucast (of_nat n :: byte) = (of_nat n :: 'a word)"
    using assms by (simp add: unat_of_nat)
qed

lemma and_70_eq_0: "n < 16 \<Longrightarrow> (of_nat n :: byte) AND 0x70 = 0"
proof -
  assume n: "n < 16"
  have "(of_nat n :: byte) = take_bit 4 (of_nat n)"
    using n by (intro unat_word_inject)
      (subst unsigned_take_bit_eq, simp add: take_bit_eq_mod unat_of_nat)
  also have "\<dots> = of_nat n AND 0x0F"
    by (simp add: take_bit_eq_mask mask_eq_exp_minus_1)
  finally have "(of_nat n :: byte) AND 0x70 = of_nat n AND (0x0F AND 0x70)"
    by (metis and.assoc)
  then show ?thesis by simp
qed

lemma split_base_128: "r + n mod 128 * P + n div 128 * (128 * P) = r + n * P" for P :: nat
proof -
  have "n mod 128 * P + n div 128 * (128 * P) = (n mod 128 + n div 128 * 128) * P"
    by (simp only: distrib_right mult.assoc)
  then show ?thesis by (simp only: mod_div_mult_eq add.assoc)
qed

lemma unat_ucast_32_64 [simp]: "unat (ucast (n :: 32 word) :: 64 word) = unat n"
proof -
  have "unat n < 2 ^ 32" using unsigned_less [of n] by simp
  then show ?thesis by (simp add: unsigned_ucast_eq take_bit_eq_mod)
qed

end
