(* ===== verification/Pb_Types.thy ===== *)
theory Pb_Types
  imports Nanopb_Prelude
begin

text \<open>
  The data model of nanopb: the field types, descriptors and structures of \<^verbatim>\<open>pb.h\<close>, in the build
  configuration of the program (\<^verbatim>\<open>PB_FIELD_32BIT\<close>, \<^verbatim>\<open>PB_NO_PACKED_STRUCTS\<close>, \<^verbatim>\<open>PB_ENABLE_MALLOC\<close>,
  error messages on, 64-bit integers on), and the field iterator type of \<^verbatim>\<open>pb_common.h\<close>.

  A field descriptor table is a list of descriptors; the array of the C code ends with
  \<open>PB_LAST_FIELD\<close>, and reading the model's table at or past its end gives that terminator. The
  member \<open>ptr\<close> of a descriptor is an address: of a submessage's table (which a table environment
  resolves) or of a default value in memory, or null.
\<close>

section \<open>Machine types\<close>

type_synonym pb_type_t = "8 word"
type_synonym pb_size_t = "32 word"
type_synonym pb_ssize_t = "32 word"
type_synonym size_t = "64 word"

definition PB_SIZE_MAX :: pb_size_t where
  "PB_SIZE_MAX = - 1"

definition PB_MAX_REQUIRED_FIELDS :: "32 word" where
  "PB_MAX_REQUIRED_FIELDS = 64"

section \<open>Field types\<close>

definition PB_LTYPE_BOOL :: pb_type_t where [type_defs]: "PB_LTYPE_BOOL = 0x00"
definition PB_LTYPE_VARINT :: pb_type_t where [type_defs]: "PB_LTYPE_VARINT = 0x01"
definition PB_LTYPE_UVARINT :: pb_type_t where [type_defs]: "PB_LTYPE_UVARINT = 0x02"
definition PB_LTYPE_SVARINT :: pb_type_t where [type_defs]: "PB_LTYPE_SVARINT = 0x03"
definition PB_LTYPE_FIXED32 :: pb_type_t where [type_defs]: "PB_LTYPE_FIXED32 = 0x04"
definition PB_LTYPE_FIXED64 :: pb_type_t where [type_defs]: "PB_LTYPE_FIXED64 = 0x05"
definition PB_LTYPE_LAST_PACKABLE :: pb_type_t where [type_defs]: "PB_LTYPE_LAST_PACKABLE = 0x05"
definition PB_LTYPE_BYTES :: pb_type_t where [type_defs]: "PB_LTYPE_BYTES = 0x06"
definition PB_LTYPE_STRING :: pb_type_t where [type_defs]: "PB_LTYPE_STRING = 0x07"
definition PB_LTYPE_SUBMESSAGE :: pb_type_t where [type_defs]: "PB_LTYPE_SUBMESSAGE = 0x08"
definition PB_LTYPE_EXTENSION :: pb_type_t where [type_defs]: "PB_LTYPE_EXTENSION = 0x09"
definition PB_LTYPE_FIXED_LENGTH_BYTES :: pb_type_t where
  [type_defs]: "PB_LTYPE_FIXED_LENGTH_BYTES = 0x0A"

definition PB_HTYPE_REQUIRED :: pb_type_t where [type_defs]: "PB_HTYPE_REQUIRED = 0x00"
definition PB_HTYPE_OPTIONAL :: pb_type_t where [type_defs]: "PB_HTYPE_OPTIONAL = 0x10"
definition PB_HTYPE_REPEATED :: pb_type_t where [type_defs]: "PB_HTYPE_REPEATED = 0x20"
definition PB_HTYPE_ONEOF :: pb_type_t where [type_defs]: "PB_HTYPE_ONEOF = 0x30"

definition PB_ATYPE_STATIC :: pb_type_t where [type_defs]: "PB_ATYPE_STATIC = 0x00"
definition PB_ATYPE_POINTER :: pb_type_t where [type_defs]: "PB_ATYPE_POINTER = 0x80"
definition PB_ATYPE_CALLBACK :: pb_type_t where [type_defs]: "PB_ATYPE_CALLBACK = 0x40"

definition PB_ATYPE :: "pb_type_t \<Rightarrow> pb_type_t" where [type_defs]: "PB_ATYPE x = x AND 0xC0"
definition PB_HTYPE :: "pb_type_t \<Rightarrow> pb_type_t" where [type_defs]: "PB_HTYPE x = x AND 0x30"
definition PB_LTYPE :: "pb_type_t \<Rightarrow> pb_type_t" where [type_defs]: "PB_LTYPE x = x AND 0x0F"

section \<open>Descriptors\<close>

record pb_field_t =
  tag :: pb_size_t
  ftype :: pb_type_t
  data_offset :: pb_size_t
  size_offset :: pb_ssize_t
  data_size :: pb_size_t
  array_size :: pb_size_t
  ptr :: addr

definition PB_LAST_FIELD :: pb_field_t where
  "PB_LAST_FIELD = \<lparr>tag = 0, ftype = 0, data_offset = 0, size_offset = 0, data_size = 0,
     array_size = 0, ptr = NULL\<rparr>"

type_synonym pb_table = "pb_field_t list"
type_synonym pb_tables = "addr \<Rightarrow> pb_table"

definition field_at :: "pb_table \<Rightarrow> nat \<Rightarrow> pb_field_t" where
  "field_at fs i = (if i < length fs then fs ! i else PB_LAST_FIELD)"

section \<open>Wire types\<close>

definition PB_WT_VARINT :: "32 word" where [type_defs]: "PB_WT_VARINT = 0"
definition PB_WT_64BIT :: "32 word" where [type_defs]: "PB_WT_64BIT = 1"
definition PB_WT_STRING :: "32 word" where [type_defs]: "PB_WT_STRING = 2"
definition PB_WT_32BIT :: "32 word" where [type_defs]: "PB_WT_32BIT = 5"

section \<open>Byte arrays, callbacks and extensions in memory\<close>

text \<open>
  \<^verbatim>\<open>pb_bytes_array_t\<close> is a 4-byte size followed by the bytes; \<^verbatim>\<open>pb_callback_t\<close> is a function
  pointer followed by its argument; \<^verbatim>\<open>pb_extension_t\<close> is four members (type, dest, next, found) at
  offsets 0, 8, 16 and 24, and \<^verbatim>\<open>pb_extension_type_t\<close> three (decode, encode, arg) at 0, 8 and 16.
\<close>

definition PB_BYTES_ARRAY_T_ALLOCSIZE :: "size_t \<Rightarrow> size_t" where
  "PB_BYTES_ARRAY_T_ALLOCSIZE n = n + 4"

definition bytes_array_size :: "memory \<Rightarrow> addr \<Rightarrow> pb_size_t" where
  "bytes_array_size m a = load_u32 m a"

definition bytes_array_bytes :: "addr \<Rightarrow> addr" where
  "bytes_array_bytes a = a + 4"

definition cb_func :: "memory \<Rightarrow> addr \<Rightarrow> addr" where
  "cb_func m a = load_ptr m a"

definition cb_arg :: "addr \<Rightarrow> addr" where
  "cb_arg a = a + 8"

definition ext_type :: "memory \<Rightarrow> addr \<Rightarrow> addr" where
  "ext_type m a = load_ptr m a"

definition ext_dest :: "memory \<Rightarrow> addr \<Rightarrow> addr" where
  "ext_dest m a = load_ptr m (a + 8)"

definition ext_next :: "memory \<Rightarrow> addr \<Rightarrow> addr" where
  "ext_next m a = load_ptr m (a + 16)"

definition ext_found :: "addr \<Rightarrow> addr" where
  "ext_found a = a + 24"

definition ext_type_decode :: "memory \<Rightarrow> addr \<Rightarrow> addr" where
  "ext_type_decode m t = load_ptr m t"

definition ext_type_encode :: "memory \<Rightarrow> addr \<Rightarrow> addr" where
  "ext_type_encode m t = load_ptr m (t + 8)"

definition ext_type_arg :: "memory \<Rightarrow> addr \<Rightarrow> addr" where
  "ext_type_arg m t = load_ptr m (t + 16)"

section \<open>The error macro\<close>

definition PB_SET_ERROR :: "string option \<Rightarrow> string \<Rightarrow> string option" where
  "PB_SET_ERROR errmsg msg = (case errmsg of None \<Rightarrow> Some msg | Some e \<Rightarrow> Some e)"

definition PB_GET_ERROR :: "string option \<Rightarrow> string" where
  "PB_GET_ERROR errmsg = (case errmsg of None \<Rightarrow> ''(none)'' | Some e \<Rightarrow> e)"

section \<open>Lemmas\<close>

lemma PB_SET_ERROR_simps [simp]:
  "PB_SET_ERROR None msg = Some msg"
  "PB_SET_ERROR (Some e) msg = Some e"
  by (simp_all add: PB_SET_ERROR_def)

lemma PB_SET_ERROR_not_None [simp]: "PB_SET_ERROR e msg \<noteq> None"
  by (simp add: PB_SET_ERROR_def split: option.splits)

lemma tag_last [simp]: "tag PB_LAST_FIELD = 0"
  by (simp add: PB_LAST_FIELD_def)

lemma field_at_beyond [simp]: "length fs \<le> i \<Longrightarrow> field_at fs i = PB_LAST_FIELD"
  by (simp add: field_at_def)

text \<open>The three parts of a field type are independent, and together they are the type.\<close>

lemma pb_type_parts: "PB_ATYPE t OR PB_HTYPE t OR PB_LTYPE t = t"
proof -
  have "(0xC0 OR 0x30 OR 0x0F :: pb_type_t) = - 1"
    by code_simp
  then have "PB_ATYPE t OR PB_HTYPE t OR PB_LTYPE t = t AND - 1"
    by (simp only: type_defs bit.conj_disj_distrib [symmetric])
  then show ?thesis by simp
qed

lemma PB_HTYPE_distinct [simp]:
  "PB_HTYPE_REQUIRED \<noteq> PB_HTYPE_OPTIONAL"
  "PB_HTYPE_REQUIRED \<noteq> PB_HTYPE_REPEATED"
  "PB_HTYPE_REQUIRED \<noteq> PB_HTYPE_ONEOF"
  "PB_HTYPE_OPTIONAL \<noteq> PB_HTYPE_REQUIRED"
  "PB_HTYPE_OPTIONAL \<noteq> PB_HTYPE_REPEATED"
  "PB_HTYPE_OPTIONAL \<noteq> PB_HTYPE_ONEOF"
  "PB_HTYPE_REPEATED \<noteq> PB_HTYPE_REQUIRED"
  "PB_HTYPE_REPEATED \<noteq> PB_HTYPE_OPTIONAL"
  "PB_HTYPE_REPEATED \<noteq> PB_HTYPE_ONEOF"
  "PB_HTYPE_ONEOF \<noteq> PB_HTYPE_REQUIRED"
  "PB_HTYPE_ONEOF \<noteq> PB_HTYPE_OPTIONAL"
  "PB_HTYPE_ONEOF \<noteq> PB_HTYPE_REPEATED"
  by (simp_all add: PB_HTYPE_REQUIRED_def PB_HTYPE_OPTIONAL_def PB_HTYPE_REPEATED_def PB_HTYPE_ONEOF_def)

lemma PB_ATYPE_distinct [simp]:
  "PB_ATYPE_STATIC \<noteq> PB_ATYPE_POINTER"
  "PB_ATYPE_STATIC \<noteq> PB_ATYPE_CALLBACK"
  "PB_ATYPE_POINTER \<noteq> PB_ATYPE_STATIC"
  "PB_ATYPE_POINTER \<noteq> PB_ATYPE_CALLBACK"
  "PB_ATYPE_CALLBACK \<noteq> PB_ATYPE_STATIC"
  "PB_ATYPE_CALLBACK \<noteq> PB_ATYPE_POINTER"
  by (simp_all add: PB_ATYPE_STATIC_def PB_ATYPE_POINTER_def PB_ATYPE_CALLBACK_def)

lemma PB_HTYPE_cases:
  obtains "PB_HTYPE t = PB_HTYPE_REQUIRED" | "PB_HTYPE t = PB_HTYPE_OPTIONAL"
    | "PB_HTYPE t = PB_HTYPE_REPEATED" | "PB_HTYPE t = PB_HTYPE_ONEOF"
proof -
  have "t AND 2 ^ n = (if bit t n then 2 ^ n else 0)" for n
    by (rule bit_word_eqI) (auto simp: bit_simps)
  from this [of 4] this [of 5]
  have pow: "t AND 0x10 = (if bit t 4 then 0x10 else 0)" "t AND 0x20 = (if bit t 5 then 0x20 else 0)"
    by simp_all
  have or: "(0x10 OR 0x20 :: pb_type_t) = 0x30" by code_simp
  then have "PB_HTYPE t = (t AND 0x10) OR (t AND 0x20)"
    by (simp only: PB_HTYPE_def bit.conj_disj_distrib flip: or)
  then show thesis
    using that or unfolding pow by (auto simp: PB_HTYPE_REQUIRED_def PB_HTYPE_OPTIONAL_def
        PB_HTYPE_REPEATED_def PB_HTYPE_ONEOF_def split: if_splits)
qed

end
