(* ===== verification/Pb_Common.thy ===== *)
theory Pb_Common
  imports Pb_Types
begin

text \<open>
  The field iterator of \<^verbatim>\<open>pb_common.c\<close>: \<open>pb_field_iter_begin\<close>, \<open>pb_field_iter_next\<close> and
  \<open>pb_field_iter_find\<close>, over descriptor tables as lists. The position is an index into the table.
  The count pointer \<open>pSize\<close> is either an address in memory or, in the decoder, the local counter of
  a fixed count array.

  The lemmas show where the iterator points: \<open>iter_at fs dest k\<close> is the iterator at field \<open>k\<close> of the
  table, its data pointer is given by the layout of the structure (\<open>field_layout\<close>), its required
  field index counts the required fields before it, and the find operation reaches the wanted field
  or goes all the way round and comes back.
\<close>

section \<open>The iterator\<close>

datatype size_ref = At addr | FixedCount

record pb_field_iter_t =
  it_start :: pb_table
  it_pos :: nat
  required_field_index :: "32 word"
  dest_struct :: addr
  pData :: addr
  pSize :: size_ref

definition iter_field :: "pb_field_iter_t \<Rightarrow> pb_field_t" where
  "iter_field it = field_at (it_start it) (it_pos it)"

definition pb_field_iter_begin :: "pb_table \<Rightarrow> addr \<Rightarrow> bool \<times> pb_field_iter_t" where
  "pb_field_iter_begin flds dest =
     (let f = field_at flds 0;
          pd = dest + uint (data_offset f)
      in (tag f \<noteq> 0,
          \<lparr>it_start = flds, it_pos = 0, required_field_index = 0, dest_struct = dest,
           pData = pd, pSize = At (pd + sint (size_offset f))\<rparr>))"

text \<open>How far the data pointer moves past a field: the size the field occupies in the structure.\<close>

definition member_size :: "pb_field_t \<Rightarrow> int" where
  "member_size f =
     (if PB_ATYPE (ftype f) = PB_ATYPE_STATIC \<and> PB_HTYPE (ftype f) = PB_HTYPE_REPEATED
      then uint (data_size f) * uint (array_size f)
      else if PB_ATYPE (ftype f) = PB_ATYPE_POINTER then 8
      else uint (data_size f))"

definition same_union :: "pb_field_t \<Rightarrow> pb_field_t \<Rightarrow> bool" where
  "same_union prev f \<longleftrightarrow>
     PB_HTYPE (ftype prev) = PB_HTYPE_ONEOF \<and> PB_HTYPE (ftype f) = PB_HTYPE_ONEOF \<and>
     data_offset f = PB_SIZE_MAX"

definition pb_field_iter_next :: "pb_field_iter_t \<Rightarrow> bool \<times> pb_field_iter_t" where
  "pb_field_iter_next it =
     (let prev = iter_field it in
      if tag prev = 0 then (False, it)
      else
        let p = Suc (it_pos it); f = field_at (it_start it) p in
        if tag f = 0 then (False, snd (pb_field_iter_begin (it_start it) (dest_struct it)))
        else if same_union prev f then (True, it\<lparr>it_pos := p\<rparr>)
        else
          let rfi = (if PB_HTYPE (ftype prev) = PB_HTYPE_REQUIRED
                     then required_field_index it + 1 else required_field_index it);
              pd = pData it + member_size prev + uint (data_offset f)
          in (True, it\<lparr>it_pos := p, required_field_index := rfi, pData := pd,
                       pSize := At (pd + sint (size_offset f))\<rparr>))"

text \<open>
  The search loop runs at most once round the table. Its bound is the length of the table plus
  one, enough for every table (\<open>iter_find_spec\<close>): a table has at most as many fields as entries.
\<close>

fun iter_find_loop :: "nat \<Rightarrow> (pb_field_t \<Rightarrow> bool) \<Rightarrow> nat \<Rightarrow> pb_field_iter_t \<Rightarrow> bool \<times> pb_field_iter_t" where
  "iter_find_loop 0 P start it = (False, it)"
| "iter_find_loop (Suc k) P start it =
     (if P (iter_field it) then (True, it)
      else
        let it' = snd (pb_field_iter_next it) in
        if it_pos it' \<noteq> start then iter_find_loop k P start it' else (False, it'))"

definition pb_field_iter_find :: "pb_field_iter_t \<Rightarrow> 32 word \<Rightarrow> bool \<times> pb_field_iter_t" where
  "pb_field_iter_find it t =
     iter_find_loop (Suc (length (it_start it)))
       (\<lambda>f. tag f = t \<and> PB_LTYPE (ftype f) \<noteq> PB_LTYPE_EXTENSION) (it_pos it) it"

section \<open>Specification of the iterator\<close>

definition num_fields :: "pb_table \<Rightarrow> nat" where
  "num_fields fs = length (takeWhile (\<lambda>f. tag f \<noteq> 0) fs)"

fun iter_at :: "pb_table \<Rightarrow> addr \<Rightarrow> nat \<Rightarrow> pb_field_iter_t" where
  "iter_at fs dest 0 = snd (pb_field_iter_begin fs dest)"
| "iter_at fs dest (Suc k) = snd (pb_field_iter_next (iter_at fs dest k))"

fun field_layout :: "pb_table \<Rightarrow> nat \<Rightarrow> int" where
  "field_layout fs 0 = uint (data_offset (field_at fs 0))"
| "field_layout fs (Suc k) =
     (if same_union (field_at fs k) (field_at fs (Suc k)) then field_layout fs k
      else field_layout fs k + member_size (field_at fs k) + uint (data_offset (field_at fs (Suc k))))"

fun size_layout :: "pb_table \<Rightarrow> nat \<Rightarrow> int" where
  "size_layout fs 0 = field_layout fs 0 + sint (size_offset (field_at fs 0))"
| "size_layout fs (Suc k) =
     (if same_union (field_at fs k) (field_at fs (Suc k)) then size_layout fs k
      else field_layout fs (Suc k) + sint (size_offset (field_at fs (Suc k))))"

definition required_before :: "pb_table \<Rightarrow> nat \<Rightarrow> nat" where
  "required_before fs k = length (filter (\<lambda>f. PB_HTYPE (ftype f) = PB_HTYPE_REQUIRED) (take k fs))"

section \<open>Lemmas\<close>

lemma num_fields_le: "num_fields fs \<le> length fs"
  by (simp add: num_fields_def length_takeWhile_le)

lemma tag_below_num_fields: "k < num_fields fs \<Longrightarrow> tag (field_at fs k) \<noteq> 0"
proof -
  let ?P = "\<lambda>f. tag f \<noteq> 0"
  assume k: "k < num_fields fs"
  then have "takeWhile ?P fs ! k \<in> set (takeWhile ?P fs)"
    by (simp add: num_fields_def)
  then have "tag (takeWhile ?P fs ! k) \<noteq> 0"
    by (blast dest: set_takeWhileD)
  moreover have "takeWhile ?P fs ! k = fs ! k"
    using k by (simp add: num_fields_def takeWhile_nth)
  ultimately show ?thesis
    using k num_fields_le [of fs] by (simp add: field_at_def)
qed

lemma tag_num_fields: "tag (field_at fs (num_fields fs)) = 0"
  using nth_length_takeWhile [of "\<lambda>f. tag f \<noteq> 0" fs]
  by (auto simp: num_fields_def field_at_def)

lemma tag_Suc_iff: "k < num_fields fs \<Longrightarrow> tag (field_at fs (Suc k)) = 0 \<longleftrightarrow> Suc k = num_fields fs"
  by (metis Suc_lessI tag_below_num_fields tag_num_fields)

lemma num_fields_pos_iff: "0 < num_fields fs \<longleftrightarrow> tag (field_at fs 0) \<noteq> 0"
  by (metis gr0I tag_below_num_fields tag_num_fields)

lemma begin_simps [simp]:
  "it_start (snd (pb_field_iter_begin fs d)) = fs"
  "it_pos (snd (pb_field_iter_begin fs d)) = 0"
  "dest_struct (snd (pb_field_iter_begin fs d)) = d"
  by (simp_all add: pb_field_iter_begin_def Let_def)

lemma next_start_dest:
  "it_start (snd (pb_field_iter_next it)) = it_start it"
  "dest_struct (snd (pb_field_iter_next it)) = dest_struct it"
  by (simp_all add: pb_field_iter_next_def Let_def)

lemma iter_at_start_dest [simp]:
  "it_start (iter_at fs d k) = fs"
  "dest_struct (iter_at fs d k) = d"
  by (induction k) (auto simp: next_start_dest)

lemma iter_at_pos: "k < num_fields fs \<Longrightarrow> it_pos (iter_at fs d k) = k"
proof (induction k)
  case 0 then show ?case by simp
next
  case (Suc k)
  then have pos: "it_pos (iter_at fs d k) = k" and k: "k < num_fields fs"
    by auto
  have "tag (field_at fs k) \<noteq> 0" "tag (field_at fs (Suc k)) \<noteq> 0"
    using k Suc.prems tag_below_num_fields by simp_all
  then show ?case
    by (simp add: pb_field_iter_next_def iter_field_def pos Let_def)
qed

lemma iter_at_0_pos [simp]: "it_pos (iter_at fs d 0) = 0"
  by simp

lemma iter_field_at: "k < num_fields fs \<Longrightarrow> iter_field (iter_at fs d k) = field_at fs k"
  by (simp add: iter_field_def iter_at_pos)

lemma iter_next_step:
  "Suc k < num_fields fs \<Longrightarrow>
   pb_field_iter_next (iter_at fs d k) = (True, iter_at fs d (Suc k))"
proof -
  assume k: "Suc k < num_fields fs"
  then have "tag (field_at fs k) \<noteq> 0" "tag (field_at fs (Suc k)) \<noteq> 0"
    using tag_below_num_fields [of k fs] tag_below_num_fields [of "Suc k" fs] by simp_all
  then have "fst (pb_field_iter_next (iter_at fs d k))"
    using k by (simp add: pb_field_iter_next_def iter_field_at iter_at_pos Let_def)
  then show ?thesis by (metis iter_at.simps(2) prod.collapse)
qed

lemma iter_next_wrap:
  "Suc k = num_fields fs \<Longrightarrow>
   pb_field_iter_next (iter_at fs d k) = (False, iter_at fs d 0)"
proof -
  assume k: "Suc k = num_fields fs"
  then have "tag (field_at fs k) \<noteq> 0" "tag (field_at fs (Suc k)) = 0"
    using tag_below_num_fields [of k fs] tag_num_fields [of fs] by auto
  then show ?thesis
    using k by (simp add: pb_field_iter_next_def iter_field_at iter_at_pos Let_def)
qed

lemma iter_next_empty:
  "num_fields fs = 0 \<Longrightarrow> pb_field_iter_next (iter_at fs d 0) = (False, iter_at fs d 0)"
proof -
  assume "num_fields fs = 0"
  then have "tag (field_at fs 0) = 0" by (metis tag_num_fields)
  then show ?thesis
    by (simp add: pb_field_iter_next_def iter_field_def Let_def)
qed

lemma iter_begin_at: "snd (pb_field_iter_begin fs d) = iter_at fs d 0"
  by simp

lemma required_before_Suc:
  "k < length fs \<Longrightarrow>
   required_before fs (Suc k) =
     required_before fs k + (if PB_HTYPE (ftype (fs ! k)) = PB_HTYPE_REQUIRED then 1 else 0)"
  by (simp add: required_before_def take_Suc_conv_app_nth)

lemma iter_at_layout:
  "k < num_fields fs \<Longrightarrow>
   pData (iter_at fs d k) = d + field_layout fs k \<and>
   pSize (iter_at fs d k) = At (d + size_layout fs k) \<and>
   required_field_index (iter_at fs d k) = of_nat (required_before fs k)"
proof (induction k)
  case 0 then show ?case
    by (simp add: pb_field_iter_begin_def Let_def required_before_def algebra_simps)
next
  case (Suc k)
  then have k: "k < num_fields fs" and len: "k < length fs"
    using num_fields_le [of fs] by auto
  have f: "field_at fs k = fs ! k" using len by (simp add: field_at_def)
  have t: "tag (field_at fs k) \<noteq> 0" "tag (field_at fs (Suc k)) \<noteq> 0"
    using k Suc.prems tag_below_num_fields by simp_all
  have un: "PB_HTYPE (ftype (fs ! k)) \<noteq> PB_HTYPE_REQUIRED"
    if "same_union (fs ! k) (field_at fs (Suc k))"
    using that by (simp add: same_union_def PB_HTYPE_REQUIRED_def PB_HTYPE_ONEOF_def)
  from Suc.IH [OF k] t un show ?case
    by (auto simp: pb_field_iter_next_def iter_field_at [OF k] iter_at_pos [OF k] Let_def
        required_before_Suc [OF len] f algebra_simps)
qed

declare iter_at.simps [simp del]

definition search_order :: "pb_table \<Rightarrow> nat \<Rightarrow> nat list" where
  "search_order fs k = [k..<num_fields fs] @ [0..<k]"

definition find_result :: "pb_table \<Rightarrow> addr \<Rightarrow> nat \<Rightarrow> nat option \<Rightarrow> bool \<times> pb_field_iter_t" where
  "find_result fs d k r =
     (case r of None \<Rightarrow> (False, iter_at fs d k) | Some j \<Rightarrow> (True, iter_at fs d j))"

lemma find_loop_before_start:
  "k < s \<Longrightarrow> s < num_fields fs \<Longrightarrow> s - k \<le> fuel \<Longrightarrow>
   iter_find_loop fuel P s (iter_at fs d k) =
     find_result fs d s (List.find (\<lambda>j. P (field_at fs j)) [k..<s])"
proof (induction "s - k" arbitrary: k fuel)
  case 0 then show ?case by simp
next
  case (Suc x)
  then obtain fuel' where fuel: "fuel = Suc fuel'" by (cases fuel) auto
  have k: "k < num_fields fs" "Suc k < num_fields fs" using Suc.prems by auto
  have upt: "[k..<s] = k # [Suc k..<s]" using Suc.prems by (simp add: upt_conv_Cons)
  have "it_pos (iter_at fs d (Suc k)) = Suc k" by (rule iter_at_pos [OF k(2)])
  moreover have "Suc k < s \<Longrightarrow>
      iter_find_loop fuel' P s (iter_at fs d (Suc k)) =
        find_result fs d s (List.find (\<lambda>j. P (field_at fs j)) [Suc k..<s])"
    using Suc.hyps(1) [of "Suc k" fuel'] Suc.hyps(2) Suc.prems fuel by simp
  ultimately show ?case
    using Suc.prems fuel
    by (auto simp: upt iter_field_at [OF k(1)] iter_next_step [OF k(2)] Let_def find_result_def)
qed

lemma find_loop_from_start:
  "s \<le> k \<Longrightarrow> k < num_fields fs \<Longrightarrow> (num_fields fs - k) + s \<le> fuel \<Longrightarrow>
   iter_find_loop fuel P s (iter_at fs d k) =
     find_result fs d s (List.find (\<lambda>j. P (field_at fs j)) ([k..<num_fields fs] @ [0..<s]))"
proof (induction "num_fields fs - k" arbitrary: k fuel)
  case 0 then show ?case by simp
next
  case (Suc x)
  then obtain fuel' where fuel: "fuel = Suc fuel'" by (cases fuel) auto
  have upt: "[k..<num_fields fs] = k # [Suc k..<num_fields fs]"
    using Suc.prems by (simp add: upt_conv_Cons)
  show ?case
  proof (cases "Suc k < num_fields fs")
    case True
    have "it_pos (iter_at fs d (Suc k)) = Suc k" by (rule iter_at_pos [OF True])
    moreover have "iter_find_loop fuel' P s (iter_at fs d (Suc k)) =
        find_result fs d s (List.find (\<lambda>j. P (field_at fs j)) ([Suc k..<num_fields fs] @ [0..<s]))"
      using Suc.hyps(1) [of "Suc k" fuel'] Suc.hyps(2) Suc.prems True fuel by simp
    ultimately show ?thesis
      using Suc.prems fuel
      by (simp add: upt iter_field_at iter_next_step [OF True] Let_def find_result_def)
  next
    case False
    then have last: "Suc k = num_fields fs" using Suc.prems by simp
    have "it_pos (iter_at fs d 0) = 0" by simp
    moreover have "0 < s \<Longrightarrow> iter_find_loop fuel' P s (iter_at fs d 0) =
        find_result fs d s (List.find (\<lambda>j. P (field_at fs j)) [0..<s])"
      using find_loop_before_start [of 0 s fs fuel'] Suc.prems fuel last by simp
    ultimately show ?thesis
      using Suc.prems fuel last
      by (auto simp: upt iter_field_at iter_next_wrap [OF last] Let_def find_result_def)
  qed
qed

lemma iter_find_loop_spec:
  assumes "k < num_fields fs"
  shows "iter_find_loop (Suc (length fs)) P k (iter_at fs d k) =
     find_result fs d k (List.find (\<lambda>j. P (field_at fs j)) (search_order fs k))"
  using assms num_fields_le [of fs] unfolding search_order_def
  by (intro find_loop_from_start) auto

lemma iter_find_loop_empty:
  assumes "num_fields fs = 0"
  shows "iter_find_loop (Suc (length fs)) P 0 (iter_at fs d 0) =
     (P (field_at fs 0), iter_at fs d 0)"
  using assms by (auto simp: iter_next_empty iter_field_def Let_def)

lemma iter_find_spec:
  assumes "k < num_fields fs"
  shows "pb_field_iter_find (iter_at fs d k) t =
     find_result fs d k
       (List.find (\<lambda>j. tag (field_at fs j) = t \<and> PB_LTYPE (ftype (field_at fs j)) \<noteq> PB_LTYPE_EXTENSION)
         (search_order fs k))"
  unfolding pb_field_iter_find_def iter_at_pos [OF assms] iter_at_start_dest
  by (rule iter_find_loop_spec [OF assms])

lemma find_result_cases:
  assumes "pb_field_iter_find (iter_at fs d k) t = (r, it)" "k < num_fields fs"
  obtains (found) j where "r" "j < num_fields fs" "it = iter_at fs d j" "tag (field_at fs j) = t"
      "PB_LTYPE (ftype (field_at fs j)) \<noteq> PB_LTYPE_EXTENSION"
    | (missing) "\<not> r" "it = iter_at fs d k"
      "\<forall>j < num_fields fs. tag (field_at fs j) = t \<longrightarrow> PB_LTYPE (ftype (field_at fs j)) = PB_LTYPE_EXTENSION"
proof -
  let ?P = "\<lambda>j. tag (field_at fs j) = t \<and> PB_LTYPE (ftype (field_at fs j)) \<noteq> PB_LTYPE_EXTENSION"
  have set: "set (search_order fs k) = {j. j < num_fields fs}"
    using assms(2) by (auto simp: search_order_def)
  show thesis
  proof (cases "List.find ?P (search_order fs k)")
    case None
    then have "\<forall>j < num_fields fs. \<not> ?P j"
      using set unfolding find_None_iff by blast
    moreover have "(r, it) = (False, iter_at fs d k)"
      using assms(1) unfolding iter_find_spec [OF assms(2)] None find_result_def by simp
    ultimately show thesis by (intro missing) auto
  next
    case (Some j)
    then obtain i where "i < length (search_order fs k)" "j = search_order fs k ! i" and P: "?P j"
      unfolding find_Some_iff by blast
    then have "j \<in> set (search_order fs k)" by simp
    then have "j < num_fields fs" using set by simp
    moreover have "(r, it) = (True, iter_at fs d j)"
      using assms(1) unfolding iter_find_spec [OF assms(2)] Some find_result_def by simp
    ultimately show thesis using P by (intro found) auto
  qed
qed

end
