(* ===== verification/Pb_Wire.thy ===== *)
theory Pb_Wire
  imports Nanopb_Prelude
begin

text \<open>
  The protocol buffer wire format of scalars, as an abstract specification that mentions neither
  streams nor memory: base-128 varints and the zig-zag mapping of signed numbers. The encoders are
  proved to write it and the decoders to read it.
\<close>

section \<open>Specification: the wire form of scalars\<close>

text \<open>The base-128 varint of a natural number: seven bits per byte, least significant group first.\<close>

fun varint_wire :: "nat \<Rightarrow> byte list" where
  "varint_wire n = (if n < 128 then [of_nat n] else of_nat (n mod 128 + 128) # varint_wire (n div 128))"

declare varint_wire.simps [simp del]

definition zigzag :: "int \<Rightarrow> nat" where
  "zigzag i = (if i < 0 then nat (- 2 * i - 1) else nat (2 * i))"

section \<open>Lemmas\<close>

lemma length_varint_wire_pos [simp]: "0 < length (varint_wire n)"
  by (subst varint_wire.simps) simp

lemma varint_wire_not_Nil [simp]: "varint_wire n \<noteq> []"
  using length_varint_wire_pos [of n] by fastforce

lemma length_varint_wire_le: "n < 128 ^ Suc k \<Longrightarrow> length (varint_wire n) \<le> Suc k"
proof (induction k arbitrary: n)
  case 0 then show ?case by (subst varint_wire.simps) simp
next
  case (Suc k)
  then have "n div 128 < 128 ^ Suc k" by (simp add: less_mult_imp_div_less)
  then have "length (varint_wire (n div 128)) \<le> Suc k" by (rule Suc.IH)
  then show ?case by (subst varint_wire.simps) simp
qed

lemma length_varint_wire_64: "length (varint_wire (unat (v :: 64 word))) \<le> 10"
proof -
  have "unat v < 2 ^ 64" using unsigned_less [of v] by simp
  then have "unat v < 128 ^ Suc 9" by simp
  then show ?thesis using length_varint_wire_le by fastforce
qed

lemma unzigzag: "(if odd (zigzag i) then - int (zigzag i div 2) - 1 else int (zigzag i div 2)) = i"
  unfolding zigzag_def by (cases "i < 0") (auto simp: even_nat_iff nat_div_distrib)

lemma zigzag_word:
  "unat (if sint v < 0 then NOT (push_bit 1 v) else push_bit 1 v) = zigzag (sint v)"
  for v :: "64 word"
proof -
  have b: "0 \<le> uint v" "uint v < 2 ^ 64" using uint_lt2p [of v] by auto
  show ?thesis
  proof (cases "uint v < 2 ^ 63")
    case True
    then have s: "sint v = uint v" by (simp add: sint_64)
    have "uint (push_bit 1 v) = 2 * uint v" using b True unfolding uint_double by simp
    then show ?thesis
      using s b by (simp only: unat_eq_nat_uint zigzag_def if_False not_less [THEN iffD2])
  next
    case False
    then have s: "sint v = uint v - 2 ^ 64" by (simp add: sint_64)
    have "2 * uint v = (2 * uint v - 2 ^ 64) + 2 ^ 64" by simp
    then have "(2 * uint v) mod 2 ^ 64 = (2 * uint v - 2 ^ 64) mod 2 ^ 64"
      by (metis mod_add_self2)
    also have "\<dots> = 2 * uint v - 2 ^ 64"
      using b False by (intro mod_pos_pos_trivial) auto
    finally have "uint (NOT (push_bit 1 v)) = 2 ^ 65 - 1 - 2 * uint v"
      unfolding uint_NOT uint_double by simp
    then show ?thesis using s b by (simp only: unat_eq_nat_uint zigzag_def) simp
  qed
qed

lemma unzigzag_word:
  fixes v z :: "64 word"
  assumes "z = (if sint v < 0 then NOT (push_bit 1 v) else push_bit 1 v)"
  shows "(if z AND 1 \<noteq> 0 then NOT (drop_bit 1 z) else drop_bit 1 z) = v"
proof -
  define p where "p = push_bit 1 v"
  have p: "bit p n \<longleftrightarrow> 1 \<le> n \<and> n < 64 \<and> bit v (n - 1)" for n
    unfolding p_def by (simp only: bit_push_bit_iff) auto
  have msb: "sint v < 0 \<longleftrightarrow> bit v 63" using bit_last_iff [of v] by simp
  have b0: "z AND 1 \<noteq> 0 \<longleftrightarrow> bit z 0"
    using and_exp_eq_0_iff_not_bit [of z 0] by simp
  have z: "z = (if bit v 63 then NOT p else p)" using assms msb by (simp only: p_def)
  have last: "n < 64 \<Longrightarrow> \<not> n < 63 \<Longrightarrow> n = 63" for n :: nat by simp
  have "bit z 0 \<longleftrightarrow> bit v 63" using z p [of 0] by (auto simp: bit_simps)
  moreover have "NOT (drop_bit 1 z) = v" if "bit v 63"
    using z that by (intro bit_word_eqI) (auto simp: bit_simps p dest!: last)
  moreover have "drop_bit 1 z = v" if "\<not> bit v 63"
    using z that by (intro bit_word_eqI) (auto simp: bit_simps p dest!: last)
  ultimately show ?thesis using b0 by simp
qed

end
