(* ===== verification/Pb_Decode_Basic.thy ===== *)
theory Pb_Decode_Basic
  imports Pb_Common Pb_Wire
begin

text \<open>
  Input streams and the scalar decoders of \<^verbatim>\<open>pb_decode.c\<close>: \<open>buf_read\<close>, \<open>pb_read\<close>, \<open>pb_readbyte\<close>,
  the varint, tag, zig-zag and fixed-width decoders, field skipping, raw values and string
  substreams.

  The members \<open>callback\<close> and \<open>state\<close> of \<^verbatim>\<open>pb_istream_t\<close> are one value of type \<open>source\<close>: the buffer
  reader with the bytes that follow the read position, or a callback of the library's user with its
  state. Reading past the end of the buffer object is undefined behaviour; the model turns the source
  into \<open>IUndefined\<close>, and the theorems show that this does not happen. A decoder returns \<open>Some\<close> of the
  decoded value when the C function returns true and \<open>None\<close> when it returns false, with the updated
  stream.

  The lemmas describe each decoder twice: \<open>accepts f bs v\<close> says that \<open>f\<close> reads exactly \<open>bs\<close> from a
  buffer that starts with it and returns \<open>v\<close>; \<open>i_step\<close> says what any decoder may do to a stream.
\<close>

section \<open>Input streams\<close>

datatype 'u source =
    is_IBuffer: IBuffer "byte list"
  | IUser "'u \<Rightarrow> size_t \<Rightarrow> bool \<times> byte list \<times> 'u" 'u
  | IUndefined

record 'u pb_istream =
  source :: "'u source"
  bytes_left :: size_t
  i_errmsg :: "string option"

definition i_fail :: "string \<Rightarrow> 'u pb_istream \<Rightarrow> 'u pb_istream" where
  "i_fail msg s = s\<lparr>i_errmsg := PB_SET_ERROR (i_errmsg s) msg\<rparr>"

definition buf_read :: "byte list \<Rightarrow> size_t \<Rightarrow> bool \<times> byte list \<times> 'u source" where
  "buf_read bs count =
     (if unat count \<le> length bs
      then (True, take (unat count) bs, IBuffer (drop (unat count) bs))
      else (True, [], IUndefined))"

definition run_read :: "'u pb_istream \<Rightarrow> size_t \<Rightarrow> bool \<times> byte list \<times> 'u pb_istream" where
  "run_read s count =
     (case source s of
        IBuffer bs \<Rightarrow> (let (ok, xs, k) = buf_read bs count in (ok, xs, s\<lparr>source := k\<rparr>))
      | IUser f u \<Rightarrow> (let (ok, xs, u') = f u count
                      in (ok, take (unat count) xs, s\<lparr>source := IUser f u'\<rparr>))
      | IUndefined \<Rightarrow> (False, [], s))"

text \<open>The part of \<open>pb_read\<close> after the skip branch.\<close>

definition pb_read_direct :: "'u pb_istream \<Rightarrow> size_t \<Rightarrow> bool \<times> byte list \<times> 'u pb_istream" where
  "pb_read_direct s count =
     (if bytes_left s < count then (False, [], i_fail ''end-of-stream'' s)
      else
        let (ok, xs, s1) = run_read s count in
        if \<not> ok then (False, xs, i_fail ''io error'' s1)
        else (True, xs, s1\<lparr>bytes_left := bytes_left s1 - count\<rparr>))"

text \<open>Skipping on a stream that is not a buffer: sixteen bytes at a time into a scratch array.\<close>

function pb_read_skip :: "'u pb_istream \<Rightarrow> size_t \<Rightarrow> bool \<times> byte list \<times> 'u pb_istream" where
  "pb_read_skip s count =
     (if count > 16 then
        let (ok, xs, s1) = pb_read_direct s 16 in
        if \<not> ok then (False, [], s1) else pb_read_skip s1 (count - 16)
      else
        let (ok, xs, s1) = (if count = 0 then (True, [], s) else pb_read_direct s count)
        in (ok, [], s1))"
  by pat_completeness auto
termination
proof (relation "measure (unat \<circ> snd)", goal_cases)
  case (2 s count)
  then have "16 < unat count" by (simp add: word_less_nat_alt)
  then have "unat (count - 16) < unat count"
    by (simp add: unat_sub word_le_nat_alt)
  then show ?case by simp
qed simp

declare pb_read_skip.simps [simp del]

text \<open>\<open>into\<close> says whether the caller passes a destination (a non-null \<^verbatim>\<open>buf\<close>).\<close>

definition pb_read :: "'u pb_istream \<Rightarrow> bool \<Rightarrow> size_t \<Rightarrow> bool \<times> byte list \<times> 'u pb_istream" where
  "pb_read s into count =
     (if count = 0 then (True, [], s)
      else if \<not> into \<and> \<not> is_IBuffer (source s) then pb_read_skip s count
      else pb_read_direct s count)"

definition byte_at :: "byte list \<Rightarrow> nat \<Rightarrow> byte" where
  "byte_at xs i = (if i < length xs then xs ! i else 0)"

definition pb_readbyte :: "'u pb_istream \<Rightarrow> byte option \<times> 'u pb_istream" where
  "pb_readbyte s =
     (if bytes_left s = 0 then (None, i_fail ''end-of-stream'' s)
      else
        let (ok, xs, s1) = run_read s 1 in
        if \<not> ok then (None, i_fail ''io error'' s1)
        else (Some (byte_at xs 0), s1\<lparr>bytes_left := bytes_left s1 - 1\<rparr>))"

definition pb_istream_from_buffer :: "byte list \<Rightarrow> size_t \<Rightarrow> 'u pb_istream" where
  "pb_istream_from_buffer buf bufsize =
     \<lparr>source = IBuffer buf, bytes_left = bufsize, i_errmsg = None\<rparr>"

lemma run_read_bytes_left [simp]: "bytes_left (snd (snd (run_read s n))) = bytes_left s"
  by (auto simp: run_read_def Let_def split: source.splits prod.splits)

lemma pb_readbyte_decreases:
  assumes "pb_readbyte s = (Some b, s1)"
  shows "unat (bytes_left s1) < unat (bytes_left s)"
proof -
  have nz: "bytes_left s \<noteq> 0" and eq: "bytes_left s1 = bytes_left s - 1"
    using assms run_read_bytes_left [of s 1]
    by (auto simp: pb_readbyte_def Let_def split: if_splits prod.splits simp del: run_read_bytes_left)
  from nz have "0 < unat (bytes_left s)" by (simp add: unat_gt_0)
  with nz eq show ?thesis by (simp add: unat_minus_one del: unat_gt_0)
qed

section \<open>Varints and tags\<close>

text \<open>
  The loop of \<open>pb_decode_varint32_eof\<close>; \<open>bitpos\<close> is a \<^verbatim>\<open>uint_fast8_t\<close>, eight bits wide on the
  program's platforms, and wraps.
\<close>

function varint32_loop :: "'u pb_istream \<Rightarrow> 8 word \<Rightarrow> 32 word \<Rightarrow> 32 word option \<times> 'u pb_istream" where
  "varint32_loop s bitpos result =
     (case pb_readbyte s of
        (None, s1) \<Rightarrow> (None, s1)
      | (Some byte, s1) \<Rightarrow>
          (let sign_extension = (if bitpos < 63 then 0xFF else 0x01);
               overflow = (bitpos \<ge> 32 \<and> byte AND 0x7F \<noteq> 0 \<and>
                           (drop_bit 31 result = 0 \<or> byte \<noteq> sign_extension));
               result' = (if bitpos \<ge> 32 then result
                          else result OR push_bit (unat bitpos) (ucast (byte AND 0x7F)));
               bitpos' = bitpos + 7
           in if overflow then (None, i_fail ''varint overflow'' s1)
              else if byte AND 0x80 \<noteq> 0 then varint32_loop s1 bitpos' result'
              else if bitpos' = 35 \<and> byte AND 0x70 \<noteq> 0 then (None, i_fail ''varint overflow'' s1)
              else (Some result', s1)))"
  by pat_completeness auto
termination
  by (relation "measure (\<lambda>(s, b, r). unat (bytes_left s))") (auto dest: pb_readbyte_decreases [OF sym])

declare varint32_loop.simps [simp del]

text \<open>Result, whether \<^verbatim>\<open>*eof\<close> was set, and the stream.\<close>

definition pb_decode_varint32_eof :: "'u pb_istream \<Rightarrow> 32 word option \<times> bool \<times> 'u pb_istream" where
  "pb_decode_varint32_eof s =
     (case pb_readbyte s of
        (None, s1) \<Rightarrow> (None, bytes_left s1 = 0, s1)
      | (Some byte, s1) \<Rightarrow>
          if byte AND 0x80 = 0 then (Some (ucast byte), False, s1)
          else
            let (r, s2) = varint32_loop s1 7 (ucast (byte AND 0x7F)) in (r, False, s2))"

definition pb_decode_varint32 :: "'u pb_istream \<Rightarrow> 32 word option \<times> 'u pb_istream" where
  "pb_decode_varint32 s = (let (r, eof, s1) = pb_decode_varint32_eof s in (r, s1))"

function varint_loop64 :: "'u pb_istream \<Rightarrow> 8 word \<Rightarrow> 64 word \<Rightarrow> 64 word option \<times> 'u pb_istream" where
  "varint_loop64 s bitpos result =
     (if bitpos \<ge> 64 then (None, i_fail ''varint overflow'' s)
      else
        case pb_readbyte s of
          (None, s1) \<Rightarrow> (None, s1)
        | (Some byte, s1) \<Rightarrow>
            let result' = result OR push_bit (unat bitpos) (ucast (byte AND 0x7F));
                bitpos' = bitpos + 7
            in if byte AND 0x80 \<noteq> 0 then varint_loop64 s1 bitpos' result'
               else (Some result', s1))"
  by pat_completeness auto
termination
  by (relation "measure (\<lambda>(s, b, r). unat (bytes_left s))") (auto dest: pb_readbyte_decreases [OF sym])

declare varint_loop64.simps [simp del]

definition pb_decode_varint :: "'u pb_istream \<Rightarrow> 64 word option \<times> 'u pb_istream" where
  "pb_decode_varint s = varint_loop64 s 0 0"

lemma pb_read_direct_decreases:
  assumes "pb_read_direct s n = (True, xs, s1)" "n \<noteq> 0"
  shows "unat (bytes_left s1) < unat (bytes_left s)"
proof -
  have le: "n \<le> bytes_left s" and eq: "bytes_left s1 = bytes_left s - n"
    using assms run_read_bytes_left [of s n]
    by (auto simp: pb_read_direct_def Let_def not_less split: if_splits prod.splits
        simp del: run_read_bytes_left)
  have "0 < unat n" using assms(2) by (simp add: unat_gt_0)
  with le eq show ?thesis by (simp add: unat_sub word_le_nat_alt del: unat_gt_0)
qed

function pb_skip_varint :: "'u pb_istream \<Rightarrow> bool \<times> 'u pb_istream" where
  "pb_skip_varint s =
     (case pb_read s True 1 of
        (ok, xs, s1) \<Rightarrow>
          if \<not> ok then (False, s1)
          else if byte_at xs 0 AND 0x80 \<noteq> 0 then pb_skip_varint s1
          else (True, s1))"
  by pat_completeness auto
termination
  by (relation "measure (unat \<circ> bytes_left)") (auto simp: pb_read_def dest: pb_read_direct_decreases [OF sym])

declare pb_skip_varint.simps [simp del]

definition pb_skip_string :: "'u pb_istream \<Rightarrow> bool \<times> 'u pb_istream" where
  "pb_skip_string s =
     (case pb_decode_varint32 s of
        (None, s1) \<Rightarrow> (False, s1)
      | (Some len, s1) \<Rightarrow> (let (ok, xs, s2) = pb_read s1 False (ucast len) in (ok, s2)))"

text \<open>\<open>pb_decode_tag\<close>: the wire type and tag on success, whether \<^verbatim>\<open>*eof\<close> was set, and the stream.\<close>

definition pb_decode_tag :: "'u pb_istream \<Rightarrow> (32 word \<times> 32 word) option \<times> bool \<times> 'u pb_istream" where
  "pb_decode_tag s =
     (case pb_decode_varint32_eof s of
        (None, eof, s1) \<Rightarrow> (None, eof, s1)
      | (Some temp, eof, s1) \<Rightarrow>
          if temp = 0 then (None, True, s1)
          else (Some (temp AND 7, drop_bit 3 temp), False, s1))"

definition pb_skip_field :: "'u pb_istream \<Rightarrow> 32 word \<Rightarrow> bool \<times> 'u pb_istream" where
  "pb_skip_field s wire_type =
     (if wire_type = PB_WT_VARINT then pb_skip_varint s
      else if wire_type = PB_WT_64BIT then (let (ok, xs, s1) = pb_read s False 8 in (ok, s1))
      else if wire_type = PB_WT_STRING then pb_skip_string s
      else if wire_type = PB_WT_32BIT then (let (ok, xs, s1) = pb_read s False 4 in (ok, s1))
      else (False, i_fail ''invalid wire_type'' s))"

fun raw_varint_loop :: "nat \<Rightarrow> 'u pb_istream \<Rightarrow> byte list \<Rightarrow> byte list option \<times> 'u pb_istream" where
  "raw_varint_loop 0 s buf = (None, s)"
| "raw_varint_loop (Suc room) s buf =
     (case pb_read s True 1 of
        (ok, xs, s1) \<Rightarrow>
          if \<not> ok then (None, s1)
          else if byte_at xs 0 AND 0x80 \<noteq> 0 then raw_varint_loop room s1 (buf @ [byte_at xs 0])
          else (Some (buf @ [byte_at xs 0]), s1))"

text \<open>
  \<open>read_raw_value\<close>, with the contents of \<^verbatim>\<open>buf\<close> up to the returned size as its result; \<open>max_size\<close> is
  the size of \<^verbatim>\<open>buf\<close> on entry.
\<close>

definition read_raw_value :: "'u pb_istream \<Rightarrow> 32 word \<Rightarrow> nat \<Rightarrow> byte list option \<times> 'u pb_istream" where
  "read_raw_value s wire_type buf_size =
     (if wire_type = PB_WT_VARINT then raw_varint_loop buf_size s []
      else if wire_type = PB_WT_64BIT
      then (let (ok, xs, s1) = pb_read s True 8 in (if ok then Some xs else None, s1))
      else if wire_type = PB_WT_32BIT
      then (let (ok, xs, s1) = pb_read s True 4 in (if ok then Some xs else None, s1))
      else (None, i_fail ''invalid wire_type'' s))"

section \<open>Substreams\<close>

text \<open>The substream on success, and the parent stream.\<close>

definition pb_make_string_substream ::
    "'u pb_istream \<Rightarrow> 'u pb_istream option \<times> 'u pb_istream" where
  "pb_make_string_substream s =
     (case pb_decode_varint32 s of
        (None, s1) \<Rightarrow> (None, s1)
      | (Some sz, s1) \<Rightarrow>
          if bytes_left s1 < ucast sz then (None, i_fail ''parent stream too short'' s1)
          else (Some (s1\<lparr>bytes_left := ucast sz\<rparr>), s1\<lparr>bytes_left := bytes_left s1 - ucast sz\<rparr>))"

definition pb_close_string_substream ::
    "'u pb_istream \<Rightarrow> 'u pb_istream \<Rightarrow> bool \<times> 'u pb_istream" where
  "pb_close_string_substream s substream =
     (let (ok, xs, sub) =
        (if bytes_left substream \<noteq> 0 then pb_read substream False (bytes_left substream)
         else (True, [], substream))
      in if \<not> ok then (False, s)
         else (True, s\<lparr>source := source sub, i_errmsg := i_errmsg sub\<rparr>))"

section \<open>Scalar decoders\<close>

definition pb_decode_svarint :: "'u pb_istream \<Rightarrow> 64 word option \<times> 'u pb_istream" where
  "pb_decode_svarint s =
     (case pb_decode_varint s of
        (None, s1) \<Rightarrow> (None, s1)
      | (Some value, s1) \<Rightarrow>
          (Some (if value AND 1 \<noteq> 0 then NOT (drop_bit 1 value) else drop_bit 1 value), s1))"

definition pb_decode_fixed32 :: "'u pb_istream \<Rightarrow> 32 word option \<times> 'u pb_istream" where
  "pb_decode_fixed32 s =
     (case pb_read s True 4 of
        (ok, bytes, s1) \<Rightarrow>
          if \<not> ok then (None, s1)
          else (Some (push_bit 0 (ucast (byte_at bytes 0)) OR push_bit 8 (ucast (byte_at bytes 1)) OR
                      push_bit 16 (ucast (byte_at bytes 2)) OR push_bit 24 (ucast (byte_at bytes 3))), s1))"

definition pb_decode_fixed64 :: "'u pb_istream \<Rightarrow> 64 word option \<times> 'u pb_istream" where
  "pb_decode_fixed64 s =
     (case pb_read s True 8 of
        (ok, bytes, s1) \<Rightarrow>
          if \<not> ok then (None, s1)
          else (Some (push_bit 0 (ucast (byte_at bytes 0)) OR push_bit 8 (ucast (byte_at bytes 1)) OR
                      push_bit 16 (ucast (byte_at bytes 2)) OR push_bit 24 (ucast (byte_at bytes 3)) OR
                      push_bit 32 (ucast (byte_at bytes 4)) OR push_bit 40 (ucast (byte_at bytes 5)) OR
                      push_bit 48 (ucast (byte_at bytes 6)) OR push_bit 56 (ucast (byte_at bytes 7))), s1))"

section \<open>Specification: what a decoder reads\<close>

definition consume :: "nat \<Rightarrow> 'u pb_istream \<Rightarrow> 'u pb_istream" where
  "consume n s = s\<lparr>source := (case source s of IBuffer bs \<Rightarrow> IBuffer (drop n bs) | k \<Rightarrow> k),
                   bytes_left := bytes_left s - of_nat n\<rparr>"

definition accepts :: "('u pb_istream \<Rightarrow> 'a option \<times> 'u pb_istream) \<Rightarrow> byte list \<Rightarrow> 'a \<Rightarrow> bool" where
  "accepts f bs v \<longleftrightarrow>
     (\<forall>s rest. source s = IBuffer (bs @ rest) \<longrightarrow> length bs \<le> unat (bytes_left s) \<longrightarrow>
        f s = (Some v, consume (length bs) s))"

lemma source_consume: "source s = IBuffer (bs @ rest) \<Longrightarrow> source (consume (length bs) s) = IBuffer rest"
  by (simp add: consume_def)

lemma consume_consume: "consume n (consume m s) = consume (m + n) s"
  by (auto simp: consume_def add.commute split: source.splits)

lemma consume_0 [simp]: "consume 0 s = s"
  by (cases s) (auto simp: consume_def split: source.splits)

lemma unat_bytes_left_consume:
  "n \<le> unat (bytes_left s) \<Longrightarrow> unat (bytes_left (consume n s)) = unat (bytes_left s) - n"
proof -
  assume n: "n \<le> unat (bytes_left s)"
  have "unat (bytes_left s) < 2 ^ 64" using unsigned_less [of "bytes_left s"] by simp
  then have u: "unat (of_nat n :: size_t) = n" using n by (simp add: unat_of_nat)
  then have "of_nat n \<le> bytes_left s" using n by (simp add: word_le_nat_alt)
  then show ?thesis using u by (simp add: consume_def unat_sub)
qed

lemma pb_readbyte_buffer:
  assumes "source s = IBuffer (b # rest)" "1 \<le> unat (bytes_left s)"
  shows "pb_readbyte s = (Some b, consume 1 s)"
  using assms
  by (auto simp: pb_readbyte_def run_read_def buf_read_def consume_def byte_at_def Let_def)

lemma varint_loop64_wire:
  assumes "source s = IBuffer (varint_wire n @ rest)" "length (varint_wire n) \<le> unat (bytes_left s)"
    "7 * k \<le> 63" "unat r < 2 ^ (7 * k)" "n < 2 ^ (64 - 7 * k)"
  shows "varint_loop64 s (of_nat (7 * k)) r =
     (Some (of_nat (unat r + n * 2 ^ (7 * k))), consume (length (varint_wire n)) s)"
  using assms
proof (induction n arbitrary: s k r rule: varint_wire.induct)
  case (1 n)
  have bp: "unat (of_nat (7 * k) :: 8 word) = 7 * k" "\<not> 64 \<le> (of_nat (7 * k) :: 8 word)"
    using "1.prems"(3) by (simp_all only: unat_of_nat word_le_nat_alt) simp_all
  have pw: "2 ^ (64 - 7 * k) * 2 ^ (7 * k) = (2 :: nat) ^ 64"
    using "1.prems"(3) by (simp flip: power_add)
  have "(n + 1) * 2 ^ (7 * k) \<le> 2 ^ (64 - 7 * k) * 2 ^ (7 * k)"
    using "1.prems"(5) by (intro mult_right_mono) auto
  then have fit: "(n + 1) * 2 ^ (7 * k) \<le> 2 ^ LENGTH(64)" using pw by simp
  have le: "1 \<le> unat (bytes_left s)"
    using "1.prems"(2) length_varint_wire_pos [of n] by linarith
  show ?case
  proof (cases "n < 128")
    case True
    then have w: "varint_wire n = [of_nat n]" by (simp add: varint_wire.simps)
    have rb: "pb_readbyte s = (Some (of_nat n), consume 1 s)"
      using "1.prems"(1) le w by (intro pb_readbyte_buffer) auto
    have v: "r OR push_bit (7 * k) (of_nat n) = of_nat (unat r + n * 2 ^ (7 * k))"
      using unat_or_push [OF "1.prems"(4) fit] by (metis of_nat_unat ucast_id)
    show ?thesis
      using bp v by (subst varint_loop64.simps)
        (simp add: rb w final_byte [OF True] Let_def)
  next
    case False
    have m: "n mod 128 < 128" by simp
    have w: "varint_wire n = of_nat (n mod 128 + 128) # varint_wire (n div 128)"
      using False by (subst varint_wire.simps) simp
    have rb: "pb_readbyte s = (Some (of_nat (n mod 128 + 128)), consume 1 s)"
      using "1.prems"(1) le unfolding w by (intro pb_readbyte_buffer) auto
    have "(n mod 128 + 1) * 2 ^ (7 * k) \<le> (n + 1) * 2 ^ (7 * k)"
      by (intro mult_right_mono) auto
    then have fit': "(n mod 128 + 1) * 2 ^ (7 * k) \<le> 2 ^ LENGTH(64)" using fit by linarith
    let ?r = "r OR push_bit (7 * k) (of_nat (n mod 128))"
    have ur: "unat ?r = unat r + n mod 128 * 2 ^ (7 * k)" 
      by (rule unat_or_push [OF "1.prems"(4) fit'])
    have "128 < (2 :: nat) ^ (64 - 7 * k)" using False "1.prems"(5) by linarith
    then have "(2 :: nat) ^ 7 < 2 ^ (64 - 7 * k)" by simp
    then have k7: "7 < 64 - 7 * k" by (simp only: power_strict_increasing_iff)
    have ur': "unat ?r < 2 ^ (7 * Suc k)"
    proof -
      have "unat ?r < 2 ^ (7 * k) + 127 * 2 ^ (7 * k)"
        unfolding ur using "1.prems"(4) by (intro add_less_le_mono mult_right_mono) auto
      also have "\<dots> = 2 ^ (7 * Suc k)" by (simp add: power_add)
      finally show ?thesis .
    qed
    have nd: "n div 128 < 2 ^ (64 - 7 * Suc k)"
    proof -
      have "64 - 7 * k = (64 - 7 * Suc k) + 7" using k7 by simp
      then have "(2 :: nat) ^ (64 - 7 * k) = 2 ^ (64 - 7 * Suc k) * 2 ^ 7" by (metis power_add)
      then have "n < 2 ^ (64 - 7 * Suc k) * 128" using "1.prems"(5) by simp
      then show ?thesis by (rule less_mult_imp_div_less)
    qed
    have src: "source (consume 1 s) = IBuffer (varint_wire (n div 128) @ rest)"
      using "1.prems"(1) w by (simp add: consume_def)
    have bl: "length (varint_wire (n div 128)) \<le> unat (bytes_left (consume 1 s))"
      using "1.prems"(2) le w by (simp add: unat_bytes_left_consume)
    have IH: "varint_loop64 (consume 1 s) (of_nat (7 * Suc k)) ?r =
       (Some (of_nat (unat ?r + n div 128 * 2 ^ (7 * Suc k))), consume (length (varint_wire (n div 128))) (consume 1 s))"
      using k7 by (intro "1.IH" [OF False src bl _ ur' nd]) simp
    have "2 ^ (7 * Suc k) = 128 * (2 :: nat) ^ (7 * k)" by (simp add: power_add)
    then have sum: "unat ?r + n div 128 * 2 ^ (7 * Suc k) = unat r + n * 2 ^ (7 * k)"
      unfolding ur by (simp only: split_base_128)
    have bp': "(of_nat (7 * k) :: 8 word) + 7 = of_nat (7 * Suc k)" by simp
    show ?thesis
      using IH unfolding sum
      by (subst varint_loop64.simps)
        (simp only: rb w bp if_False Let_def prod.case option.case continuation_byte [OF m] bp' consume_consume simp_thms if_True, simp)
  qed
qed
lemma accepts_varint: "accepts pb_decode_varint (varint_wire (unat v)) v"
  unfolding accepts_def pb_decode_varint_def
proof (intro allI impI)
  fix s :: "'a pb_istream" and rest
  assume "source s = IBuffer (varint_wire (unat v) @ rest)"
    "length (varint_wire (unat v)) \<le> unat (bytes_left s)"
  moreover have "unat v < 2 ^ 64" using unsigned_less [of v] by simp
  ultimately show "varint_loop64 s 0 0 = (Some v, consume (length (varint_wire (unat v))) s)"
    using varint_loop64_wire [of s "unat v" rest 0 0] by simp
qed

lemma varint32_loop_wire:
  assumes "source s = IBuffer (varint_wire n @ rest)" "length (varint_wire n) \<le> unat (bytes_left s)"
    "1 \<le> k" "k \<le> 4" "unat r < 2 ^ (7 * k)" "n < 2 ^ (32 - 7 * k)"
  shows "varint32_loop s (of_nat (7 * k)) r =
     (Some (of_nat (unat r + n * 2 ^ (7 * k))), consume (length (varint_wire n)) s)"
  using assms
proof (induction n arbitrary: s k r rule: varint_wire.induct)
  case (1 n)
  have bp: "unat (of_nat (7 * k) :: 8 word) = 7 * k" "\<not> 32 \<le> (of_nat (7 * k) :: 8 word)"
    using "1.prems"(4) by (simp_all only: unat_of_nat word_le_nat_alt) simp_all
  have bp': "(of_nat (7 * k) :: 8 word) + 7 = of_nat (7 * Suc k)" by simp
  have pw: "2 ^ (32 - 7 * k) * 2 ^ (7 * k) = (2 :: nat) ^ 32"
    using "1.prems"(4) by (simp flip: power_add)
  have "(n + 1) * 2 ^ (7 * k) \<le> 2 ^ (32 - 7 * k) * 2 ^ (7 * k)"
    using "1.prems"(6) by (intro mult_right_mono) auto
  then have fit: "(n + 1) * 2 ^ (7 * k) \<le> 2 ^ LENGTH(32)" using pw by simp
  have le: "1 \<le> unat (bytes_left s)"
    using "1.prems"(2) length_varint_wire_pos [of n] by linarith
  show ?case
  proof (cases "n < 128")
    case True
    then have w: "varint_wire n = [of_nat n]" by (simp add: varint_wire.simps)
    have rb: "pb_readbyte s = (Some (of_nat n), consume 1 s)"
      using "1.prems"(1) le w by (intro pb_readbyte_buffer) auto
    have v: "r OR push_bit (7 * k) (of_nat n) = of_nat (unat r + n * 2 ^ (7 * k))"
      using unat_or_push [OF "1.prems"(5) fit] by (metis of_nat_unat ucast_id)
    have last: "\<not> ((of_nat (7 * Suc k) :: 8 word) = 35 \<and> (of_nat n :: byte) AND 0x70 \<noteq> 0)"
    proof (cases "k = 4")
      case True
      then have "n < 16" using "1.prems"(6) by simp
      then have "(of_nat n :: byte) AND 0x70 = 0" by (rule and_70_eq_0)
      then show ?thesis by simp
    next
      case False
      then have "unat (of_nat (7 * Suc k) :: 8 word) \<noteq> 35"
        using "1.prems"(4) by (simp only: unat_of_nat) simp
      then show ?thesis by auto
    qed
    show ?thesis
      using v last by (subst varint32_loop.simps)
        (simp only: rb w final_byte [OF True] Let_def prod.case option.case bp bp' if_False simp_thms
          if_cancel list.size, simp)
  next
    case False
    have m: "n mod 128 < 128" by simp
    have w: "varint_wire n = of_nat (n mod 128 + 128) # varint_wire (n div 128)"
      using False by (subst varint_wire.simps) simp
    have rb: "pb_readbyte s = (Some (of_nat (n mod 128 + 128)), consume 1 s)"
      using "1.prems"(1) le unfolding w by (intro pb_readbyte_buffer) auto
    have "(n mod 128 + 1) * 2 ^ (7 * k) \<le> (n + 1) * 2 ^ (7 * k)"
      by (intro mult_right_mono) auto
    then have fit': "(n mod 128 + 1) * 2 ^ (7 * k) \<le> 2 ^ LENGTH(32)" using fit by linarith
    let ?r = "r OR push_bit (7 * k) (of_nat (n mod 128))"
    have ur: "unat ?r = unat r + n mod 128 * 2 ^ (7 * k)"
      by (rule unat_or_push [OF "1.prems"(5) fit'])
    have "128 < (2 :: nat) ^ (32 - 7 * k)" using False "1.prems"(6) by linarith
    then have "(2 :: nat) ^ 7 < 2 ^ (32 - 7 * k)" by simp
    then have k7: "7 < 32 - 7 * k" by (simp only: power_strict_increasing_iff)
    have ur': "unat ?r < 2 ^ (7 * Suc k)"
    proof -
      have "unat ?r < 2 ^ (7 * k) + 127 * 2 ^ (7 * k)"
        unfolding ur using "1.prems"(5) by (intro add_less_le_mono mult_right_mono) auto
      also have "\<dots> = 2 ^ (7 * Suc k)" by (simp add: power_add)
      finally show ?thesis .
    qed
    have nd: "n div 128 < 2 ^ (32 - 7 * Suc k)"
    proof -
      have "32 - 7 * k = (32 - 7 * Suc k) + 7" using k7 by simp
      then have "(2 :: nat) ^ (32 - 7 * k) = 2 ^ (32 - 7 * Suc k) * 2 ^ 7" by (metis power_add)
      then have "n < 2 ^ (32 - 7 * Suc k) * 128" using "1.prems"(6) by simp
      then show ?thesis by (rule less_mult_imp_div_less)
    qed
    have src: "source (consume 1 s) = IBuffer (varint_wire (n div 128) @ rest)"
      using "1.prems"(1) w by (simp add: consume_def)
    have bl: "length (varint_wire (n div 128)) \<le> unat (bytes_left (consume 1 s))"
      using "1.prems"(2) le w by (simp add: unat_bytes_left_consume)
    have IH: "varint32_loop (consume 1 s) (of_nat (7 * Suc k)) ?r =
       (Some (of_nat (unat ?r + n div 128 * 2 ^ (7 * Suc k))),
        consume (length (varint_wire (n div 128))) (consume 1 s))"
      using k7 by (intro "1.IH" [OF False src bl _ _ ur' nd]) simp_all
    have "2 ^ (7 * Suc k) = 128 * (2 :: nat) ^ (7 * k)" by (simp add: power_add)
    then have sum: "unat ?r + n div 128 * 2 ^ (7 * Suc k) = unat r + n * 2 ^ (7 * k)"
      unfolding ur by (simp only: split_base_128)
    show ?thesis
      using IH unfolding sum
      by (subst varint32_loop.simps)
        (simp only: rb w bp if_False Let_def prod.case option.case continuation_byte [OF m] bp'
          consume_consume simp_thms if_True, simp)
  qed
qed

lemma accepts_varint32_eof:
  assumes "source s = IBuffer (varint_wire (unat v) @ rest)"
    "length (varint_wire (unat v)) \<le> unat (bytes_left s)"
  shows "pb_decode_varint32_eof s = (Some v, False, consume (length (varint_wire (unat v))) s)"
proof -
  let ?n = "unat v"
  have le: "1 \<le> unat (bytes_left s)"
    using assms(2) length_varint_wire_pos [of ?n] by linarith
  have lt: "?n < 2 ^ 32" using unsigned_less [of v] by simp
  show ?thesis
  proof (cases "?n < 128")
    case True
    then have w: "varint_wire ?n = [of_nat ?n]" by (simp add: varint_wire.simps)
    have rb: "pb_readbyte s = (Some (of_nat ?n), consume 1 s)"
      using assms(1) le w by (intro pb_readbyte_buffer) auto
    have "ucast (of_nat ?n :: byte) = (of_nat ?n :: 32 word)" by (rule final_byte(3) [OF True])
    moreover have "(of_nat ?n :: 32 word) = v" by simp
    ultimately show ?thesis
      by (simp only: pb_decode_varint32_eof_def rb w final_byte [OF True] prod.case option.case
          if_True simp_thms list.size, simp)
  next
    case False
    have m: "?n mod 128 < 128" by simp
    have w: "varint_wire ?n = of_nat (?n mod 128 + 128) # varint_wire (?n div 128)"
      using False by (subst varint_wire.simps) simp
    have rb: "pb_readbyte s = (Some (of_nat (?n mod 128 + 128)), consume 1 s)"
      using assms(1) le unfolding w by (intro pb_readbyte_buffer) auto
    have src: "source (consume 1 s) = IBuffer (varint_wire (?n div 128) @ rest)"
      using assms(1) w by (simp add: consume_def)
    have bl: "length (varint_wire (?n div 128)) \<le> unat (bytes_left (consume 1 s))"
      using assms(2) le w by (simp add: unat_bytes_left_consume)
    have r: "unat (of_nat (?n mod 128) :: 32 word) = ?n mod 128" by (simp add: unat_of_nat)
    have "varint32_loop (consume 1 s) (of_nat (7 * 1)) (of_nat (?n mod 128)) =
        (Some (of_nat (?n mod 128 + ?n div 128 * 2 ^ (7 * 1))),
         consume (length (varint_wire (?n div 128))) (consume 1 s))"
      using varint32_loop_wire [OF src bl, of 1 "of_nat (?n mod 128)"] lt unfolding r
      by (simp add: less_mult_imp_div_less)
    moreover have "?n mod 128 + ?n div 128 * 2 ^ (7 * 1) = ?n" by simp
    ultimately have loop: "varint32_loop (consume 1 s) 7 (of_nat (?n mod 128)) =
        (Some v, consume (length (varint_wire (?n div 128))) (consume 1 s))" by simp
    show ?thesis
      by (simp only: pb_decode_varint32_eof_def rb w prod.case option.case continuation_byte [OF m]
          simp_thms if_False loop Let_def consume_consume, simp)
  qed
qed

lemma accepts_varint32: "accepts pb_decode_varint32 (varint_wire (unat v)) v"
  unfolding accepts_def pb_decode_varint32_def by (auto simp: accepts_varint32_eof)

lemma accepts_svarint: "accepts pb_decode_svarint (varint_wire (zigzag (sint v))) v"
proof -
  define z where "z = (if sint v < 0 then NOT (push_bit 1 v) else push_bit 1 v)"
  have "accepts pb_decode_varint (varint_wire (unat z)) z" by (rule accepts_varint)
  then have "accepts pb_decode_varint (varint_wire (zigzag (sint v))) z"
    unfolding z_def zigzag_word .
  then show ?thesis
    using unzigzag_word [OF z_def] by (auto simp: accepts_def pb_decode_svarint_def)
qed

lemma pb_read_buffer:
  assumes "source s = IBuffer (bs @ rest)" "length bs \<le> unat (bytes_left s)" "unat n = length bs"
  shows "pb_read s into n = (True, if n = 0 then [] else bs, consume (length bs) s)"
proof -
  have "\<not> bytes_left s < n" using assms by (simp add: word_less_nat_alt)
  moreover have "n = of_nat (length bs)" using assms(3) by (metis of_nat_unat ucast_id)
  ultimately show ?thesis
    using assms
    by (auto simp: pb_read_def pb_read_direct_def run_read_def buf_read_def consume_def Let_def)
qed

lemma byte_at_Cons:
  "byte_at (a # xs) 0 = a"
  "byte_at (a # b # xs) 1 = b"
  "byte_at (a # b # c # xs) 2 = c"
  "byte_at (a # b # c # d # xs) 3 = d"
  "byte_at (a # b # c # d # e # xs) 4 = e"
  "byte_at (a # b # c # d # e # f # xs) 5 = f"
  "byte_at (a # b # c # d # e # f # g # xs) 6 = g"
  "byte_at (a # b # c # d # e # f # g # h # xs) 7 = h"
  by (simp_all add: byte_at_def)

lemma le_bytes_horner:
  "ucast b OR push_bit 8 w = ucast b + 256 * w" for b :: byte and w :: "'a::len word"
proof -
  have "ucast b AND push_bit 8 w = (0 :: 'a word)"
    by (rule bit_word_eqI) (auto simp: bit_simps dest: bit_imp_le_length)
  then have "ucast b OR push_bit 8 w = ucast b + push_bit 8 w"
    by (rule disjunctive_add_eq_or [symmetric])
  then show ?thesis by (simp add: push_bit_eq_mult)
qed

lemma fixed32_of_bytes:
  "push_bit 0 (ucast a) OR push_bit 8 (ucast b) OR push_bit 16 (ucast c) OR push_bit 24 (ucast d)
   = (word_of_le [a, b, c, d] :: 32 word)" for a b c d :: byte
proof -
  have "push_bit 0 (ucast a) OR push_bit 8 (ucast b) OR push_bit 16 (ucast c) OR push_bit 24 (ucast d)
      = ucast a OR push_bit 8 (ucast b OR push_bit 8 (ucast c OR push_bit 8 (ucast d OR push_bit 8 (0 :: 32 word))))"
    by (simp add: push_bit_or or.assoc)
  then show ?thesis by (simp only: le_bytes_horner word_of_le.simps)
qed

lemma fixed64_of_bytes:
  "push_bit 0 (ucast a) OR push_bit 8 (ucast b) OR push_bit 16 (ucast c) OR push_bit 24 (ucast d) OR
   push_bit 32 (ucast e) OR push_bit 40 (ucast f) OR push_bit 48 (ucast g) OR push_bit 56 (ucast h)
   = (word_of_le [a, b, c, d, e, f, g, h] :: 64 word)" for a b c d e f g h :: byte
proof -
  have "push_bit 0 (ucast a) OR push_bit 8 (ucast b) OR push_bit 16 (ucast c) OR push_bit 24 (ucast d) OR
      push_bit 32 (ucast e) OR push_bit 40 (ucast f) OR push_bit 48 (ucast g) OR push_bit 56 (ucast h)
      = ucast a OR push_bit 8 (ucast b OR push_bit 8 (ucast c OR push_bit 8 (ucast d OR push_bit 8
         (ucast e OR push_bit 8 (ucast f OR push_bit 8 (ucast g OR push_bit 8 (ucast h OR push_bit 8 (0 :: 64 word))))))))"
    by (simp add: push_bit_or or.assoc)
  then show ?thesis by (simp only: le_bytes_horner word_of_le.simps)
qed

lemma accepts_fixed32: "accepts pb_decode_fixed32 (le_of_word 4 v) v"
  unfolding accepts_def
proof (intro allI impI)
  fix s :: "'a pb_istream" and rest
  assume "source s = IBuffer (le_of_word 4 v @ rest)" "length (le_of_word 4 v) \<le> unat (bytes_left s)"
  then have rd: "pb_read s True 4 = (True, le_of_word 4 v, consume 4 s)"
    using pb_read_buffer [of s "le_of_word 4 v" rest 4 True] by simp
  have v: "word_of_le (le_of_word 4 v) = v" by (rule word_of_le_of_word) simp
  have "length (le_of_word 4 v) = 4" by simp
  then obtain a b c d where bs: "le_of_word 4 v = [a, b, c, d]"
    by (auto simp: numeral_eq_Suc length_Suc_conv simp del: length_le_of_word)
  show "pb_decode_fixed32 s = (Some v, consume (length (le_of_word 4 v)) s)"
    using v unfolding pb_decode_fixed32_def rd bs
    by (simp only: prod.case byte_at_Cons fixed32_of_bytes simp_thms if_False, simp add: eval_nat_numeral)
qed

lemma accepts_fixed64: "accepts pb_decode_fixed64 (le_of_word 8 v) v"
  unfolding accepts_def
proof (intro allI impI)
  fix s :: "'a pb_istream" and rest
  assume "source s = IBuffer (le_of_word 8 v @ rest)" "length (le_of_word 8 v) \<le> unat (bytes_left s)"
  then have rd: "pb_read s True 8 = (True, le_of_word 8 v, consume 8 s)"
    using pb_read_buffer [of s "le_of_word 8 v" rest 8 True] by simp
  have v: "word_of_le (le_of_word 8 v) = v" by (rule word_of_le_of_word) simp
  have "length (le_of_word 8 v) = 8" by simp
  then obtain a b c d e f g h where bs: "le_of_word 8 v = [a, b, c, d, e, f, g, h]"
    by (auto simp: numeral_eq_Suc length_Suc_conv simp del: length_le_of_word)
  show "pb_decode_fixed64 s = (Some v, consume (length (le_of_word 8 v)) s)"
    using v unfolding pb_decode_fixed64_def rd bs
    by (simp only: prod.case byte_at_Cons fixed64_of_bytes simp_thms if_False, simp add: eval_nat_numeral)
qed

lemma decode_tag_wire:
  assumes "source s = IBuffer (varint_wire (unat n * 8 + unat wt) @ rest)"
    "length (varint_wire (unat n * 8 + unat wt)) \<le> unat (bytes_left s)"
    "unat n < 2 ^ 29" "unat wt < 8" "n \<noteq> 0 \<or> wt \<noteq> 0"
  shows "pb_decode_tag s = (Some (wt, n), False, consume (length (varint_wire (unat n * 8 + unat wt))) s)"
proof -
  define t :: "32 word" where "t = of_nat (unat n * 8 + unat wt)"
  have t: "unat t = unat n * 8 + unat wt"
    using assms(3,4) unfolding t_def by (simp only: unat_of_nat) simp
  have "unat n \<noteq> 0 \<or> unat wt \<noteq> 0" using assms(5) by (metis unat_eq_zero)
  then have "t \<noteq> 0" using t by (metis add_is_0 mult_is_0 unat_0 zero_neq_numeral)
  moreover have "t AND 7 = wt"
  proof (rule unat_word_inject)
    have "t AND 7 = take_bit 3 t" by (simp add: take_bit_eq_mask mask_eq_exp_minus_1)
    then have "unat (t AND 7) = take_bit 3 (unat t)" by (simp only: unsigned_take_bit_eq)
    then show "unat (t AND 7) = unat wt" using assms(4) by (simp add: t take_bit_eq_mod)
  qed
  moreover have "drop_bit 3 t = n"
  proof (rule unat_word_inject)
    have "unat (drop_bit 3 t) = drop_bit 3 (unat t)" by (rule unat_drop_bit_eq)
    then show "unat (drop_bit 3 t) = unat n" using assms(4) by (simp add: t drop_bit_eq_div)
  qed
  ultimately show ?thesis
    using accepts_varint32_eof [of s t rest] assms(1,2) by (simp add: pb_decode_tag_def t)
qed

section \<open>Skipping\<close>

definition skips :: "('u pb_istream \<Rightarrow> bool \<times> 'u pb_istream) \<Rightarrow> byte list \<Rightarrow> bool" where
  "skips f bs \<longleftrightarrow>
     (\<forall>s rest. source s = IBuffer (bs @ rest) \<longrightarrow> length bs \<le> unat (bytes_left s) \<longrightarrow>
        f s = (True, consume (length bs) s))"

lemma acceptsD:
  "accepts f bs v \<Longrightarrow> source s = IBuffer (bs @ rest) \<Longrightarrow> length bs \<le> unat (bytes_left s) \<Longrightarrow>
   f s = (Some v, consume (length bs) s)"
  unfolding accepts_def by blast

lemma skipsD:
  "skips f bs \<Longrightarrow> source s = IBuffer (bs @ rest) \<Longrightarrow> length bs \<le> unat (bytes_left s) \<Longrightarrow>
   f s = (True, consume (length bs) s)"
  unfolding skips_def by blast

lemma pb_read_one:
  assumes "source s = IBuffer (b # rest)" "1 \<le> unat (bytes_left s)"
  shows "pb_read s True 1 = (True, [b], consume 1 s)"
  using pb_read_buffer [of s "[b]" rest 1 True] assms by simp

lemma skips_varint: "skips pb_skip_varint (varint_wire n)"
proof -
  have "source s = IBuffer (varint_wire n @ rest) \<Longrightarrow> length (varint_wire n) \<le> unat (bytes_left s) \<Longrightarrow>
      pb_skip_varint s = (True, consume (length (varint_wire n)) s)" for s :: "'a pb_istream" and rest
  proof (induction n arbitrary: s rule: varint_wire.induct)
    case (1 n)
    show ?case
    proof (cases "n < 128")
      case True
      then have w: "varint_wire n = [of_nat n]" by (simp add: varint_wire.simps)
      have "(of_nat n :: byte) AND 0x80 = 0" by (rule final_byte(1) [OF True])
      then show ?thesis
        using "1.prems" pb_read_one [of s "of_nat n" rest] unfolding w
        by (subst pb_skip_varint.simps) (simp add: byte_at_def)
    next
      case False
      let ?b = "of_nat (n mod 128 + 128) :: byte" and ?tl = "varint_wire (n div 128)"
      have w: "varint_wire n = ?b # ?tl" using False by (subst varint_wire.simps) simp
      have src: "source s = IBuffer (?b # ?tl @ rest)" and one: "1 \<le> unat (bytes_left s)"
        and len: "length ?tl + 1 \<le> unat (bytes_left s)" using "1.prems" unfolding w by simp_all
      have "source (consume 1 s) = IBuffer (?tl @ rest)" using src by (simp add: consume_def)
      moreover have "length ?tl \<le> unat (bytes_left (consume 1 s))"
        using len unat_bytes_left_consume [OF one] by simp
      ultimately have "pb_skip_varint (consume 1 s) = (True, consume (length ?tl) (consume 1 s))"
        by (rule "1.IH" [OF False])
      moreover have "?b AND 0x80 \<noteq> 0" by (rule continuation_byte(1)) simp
      ultimately show ?thesis
        using pb_read_one [OF src one] unfolding w
        by (subst pb_skip_varint.simps) (simp add: byte_at_def consume_consume)
    qed
  qed
  then show ?thesis by (simp add: skips_def)
qed

lemma skips_read:
  assumes "unat n = length bs" shows "skips (\<lambda>s. let (ok, xs, s1) = pb_read s False n in (ok, s1)) bs"
  using assms by (auto simp: skips_def pb_read_buffer)

lemma skips_string:
  assumes "length bs < 2 ^ 32" shows "skips pb_skip_string (varint_wire (length bs) @ bs)"
  unfolding skips_def
proof (intro allI impI)
  fix s :: "'a pb_istream" and rest
  let ?n = "of_nat (length bs) :: 32 word" and ?w = "varint_wire (length bs)"
  assume src: "source s = IBuffer ((?w @ bs) @ rest)" and len: "length (?w @ bs) \<le> unat (bytes_left s)"
  have n: "unat ?n = length bs" using assms by (simp add: unat_of_nat)
  have "pb_decode_varint32 s = (Some ?n, consume (length ?w) s)"
    using acceptsD [OF accepts_varint32 [of ?n], unfolded n, of s "bs @ rest"] src len by simp
  moreover have "source (consume (length ?w) s) = IBuffer (bs @ rest)" using src by (simp add: consume_def)
  moreover have "length bs \<le> unat (bytes_left (consume (length ?w) s))"
    using len unat_bytes_left_consume [of "length ?w" s] by simp
  ultimately show "pb_skip_string s = (True, consume (length (?w @ bs)) s)"
    using n pb_read_buffer [of "consume (length ?w) s" bs rest "ucast ?n" False]
    by (simp add: pb_skip_string_def consume_consume)
qed

text \<open>The data of a field as the four wire types have it.\<close>

definition field_data :: "32 word \<Rightarrow> byte list \<Rightarrow> bool" where
  "field_data wt bs \<longleftrightarrow>
     wt = PB_WT_VARINT \<and> (\<exists>n. bs = varint_wire n) \<or>
     wt = PB_WT_64BIT \<and> length bs = 8 \<or>
     wt = PB_WT_STRING \<and> (\<exists>d. bs = varint_wire (length d) @ d \<and> length d < 2 ^ 32) \<or>
     wt = PB_WT_32BIT \<and> length bs = 4"

lemma skips_field: "field_data wt bs \<Longrightarrow> skips (\<lambda>s. pb_skip_field s wt) bs"
  using skips_varint skips_string skips_read [of 8 bs] skips_read [of 4 bs]
  by (auto simp: field_data_def pb_skip_field_def type_defs)

end
