(* ===== verification/Pb_Decode_Safety.thy ===== *)
theory Pb_Decode_Safety
  imports Pb_Decode_Basic
begin

text \<open>
  What decoders may do to an input stream. \<open>istream_ok\<close> is the invariant of input streams: a buffer
  stream has at least \<open>bytes_left\<close> bytes behind its read position, and nothing undefined has happened.
  \<open>i_step s s'\<close> relates a stream before and after a decoder: bytes are consumed from the front, never
  more than \<open>bytes_left\<close>, and the counter goes down by at least as much. The locale
  \<open>stream_decoder\<close> is the contract of a decoder with respect to its stream; every scalar decoder is
  shown to satisfy it, and a sequence of decoders satisfies it again.
\<close>

definition istream_ok :: "'u pb_istream \<Rightarrow> bool" where
  "istream_ok s \<longleftrightarrow>
     (case source s of
        IBuffer bs \<Rightarrow> unat (bytes_left s) \<le> length bs
      | IUser f u \<Rightarrow> True
      | IUndefined \<Rightarrow> False)"

definition i_step :: "'u pb_istream \<Rightarrow> 'u pb_istream \<Rightarrow> bool" where
  "i_step s s' \<longleftrightarrow> bytes_left s' \<le> bytes_left s \<and>
     (case source s of
        IBuffer bs \<Rightarrow> (\<exists>n. n \<le> unat (bytes_left s) - unat (bytes_left s') \<and> source s' = IBuffer (drop n bs))
      | IUser f u \<Rightarrow> (\<exists>u'. source s' = IUser f u')
      | IUndefined \<Rightarrow> False)"

lemma i_step_refl: "istream_ok s \<Longrightarrow> i_step s s"
  by (auto simp: i_step_def istream_ok_def split: source.splits)

lemma i_step_ok: "istream_ok s \<Longrightarrow> i_step s s' \<Longrightarrow> istream_ok s'"
  by (auto simp: i_step_def istream_ok_def word_le_nat_alt split: source.splits)

lemma i_step_trans: "i_step s s1 \<Longrightarrow> i_step s1 s2 \<Longrightarrow> i_step s s2"
proof (cases "source s")
  case (IBuffer bs)
  assume 1: "i_step s s1" and 2: "i_step s1 s2"
  from 1 IBuffer obtain n where n: "n \<le> unat (bytes_left s) - unat (bytes_left s1)"
    "source s1 = IBuffer (drop n bs)" "bytes_left s1 \<le> bytes_left s"
    by (auto simp: i_step_def)
  from 2 n obtain k where k: "k \<le> unat (bytes_left s1) - unat (bytes_left s2)"
    "source s2 = IBuffer (drop k (drop n bs))" "bytes_left s2 \<le> bytes_left s1"
    by (auto simp: i_step_def)
  have "k + n \<le> unat (bytes_left s) - unat (bytes_left s2)"
    using n k by (auto simp: word_le_nat_alt)
  with IBuffer n k show ?thesis
    by (auto simp: i_step_def intro!: exI [of _ "k + n"])
qed (auto simp: i_step_def)

lemma i_step_fail [simp]: "i_step s (i_fail msg s') = i_step s s'"
  by (simp add: i_step_def i_fail_def split: source.splits)

lemma istream_ok_fail [simp]: "istream_ok (i_fail msg s) = istream_ok s"
  by (simp add: istream_ok_def i_fail_def split: source.splits)

section \<open>The contract of a decoder\<close>

locale stream_decoder =
  fixes dec :: "'u pb_istream \<Rightarrow> 'r \<times> 'u pb_istream"
  assumes dec_step: "istream_ok s \<Longrightarrow> i_step s (snd (dec s))"
begin

lemma dec_ok: "istream_ok s \<Longrightarrow> istream_ok (snd (dec s))"
  using dec_step i_step_ok by blast

lemma dec_bytes_left: "istream_ok s \<Longrightarrow> bytes_left (snd (dec s)) \<le> bytes_left s"
  using dec_step by (simp add: i_step_def)

text \<open>What a decoder leaves of the input is a suffix of it.\<close>

lemma dec_suffix:
  assumes "source s = IBuffer bs" "unat (bytes_left s) \<le> length bs"
  obtains n where "n \<le> unat (bytes_left s)" "source (snd (dec s)) = IBuffer (drop n bs)"
proof -
  have "i_step s (snd (dec s))" using assms by (intro dec_step) (simp add: istream_ok_def)
  then obtain n where "n \<le> unat (bytes_left s) - unat (bytes_left (snd (dec s)))"
    "source (snd (dec s)) = IBuffer (drop n bs)"
    using assms(1) by (auto simp: i_step_def)
  then show thesis by (intro that) auto
qed

lemma dec_then:
  assumes "\<And>r s. istream_ok s \<Longrightarrow> i_step s (snd (k r s))" "istream_ok s"
  shows "i_step s (snd (let (r, s1) = dec s in k r s1))"
proof -
  obtain r s1 where d: "dec s = (r, s1)" by force
  have "i_step s s1" using dec_step [OF assms(2)] d by simp
  moreover have "i_step s1 (snd (k r s1))"
    using i_step_ok [OF assms(2)] calculation assms(1) by blast
  ultimately show ?thesis using d by (simp add: i_step_trans)
qed

end

section \<open>The scalar decoders satisfy the contract\<close>

lemma run_read_buffer:
  assumes "source s = IBuffer bs" "unat (bytes_left s) \<le> length bs" "n \<le> bytes_left s"
  shows "run_read s n = (True, take (unat n) bs, s\<lparr>source := IBuffer (drop (unat n) bs)\<rparr>)"
  using assms by (simp add: run_read_def buf_read_def word_le_nat_alt)

lemma run_read_step:
  assumes "run_read s n = (ok, xs, s1)" "istream_ok s" "n \<le> bytes_left s"
  shows "i_step s (if ok then s1\<lparr>bytes_left := bytes_left s1 - n\<rparr> else s1)"
proof -
  have sub: "bytes_left s - n \<le> bytes_left s" "unat (bytes_left s - n) = unat (bytes_left s) - unat n"
    using assms(3) by (simp_all add: word_sub_le unat_sub)
  show ?thesis
  proof (cases "source s")
    case (IBuffer bs)
    with assms have r: "ok" "s1 = s\<lparr>source := IBuffer (drop (unat n) bs)\<rparr>"
      using run_read_buffer [of s bs n] by (auto simp: istream_ok_def)
    have "unat n \<le> unat (bytes_left s) - unat (bytes_left s - n)"
      using sub assms(3) by (simp add: word_le_nat_alt)
    then show ?thesis using IBuffer r sub by (auto simp: i_step_def)
  next
    case (IUser f u)
    then show ?thesis
      using assms sub by (auto simp: i_step_def run_read_def Let_def split: prod.splits)
  next
    case IUndefined
    then show ?thesis using assms by (simp add: istream_ok_def)
  qed
qed

lemma pb_read_direct_step:
  assumes "istream_ok s"
  shows "i_step s (snd (snd (pb_read_direct s n)))"
proof (cases "bytes_left s < n")
  case True
  then show ?thesis using assms by (simp add: pb_read_direct_def i_step_refl)
next
  case False
  then have le: "n \<le> bytes_left s" by simp
  obtain ok xs s1 where r: "run_read s n = (ok, xs, s1)" by (metis prod_cases3)
  show ?thesis
    using run_read_step [OF r assms le] False by (auto simp: pb_read_direct_def r)
qed

lemma pb_read_skip_step: "istream_ok s \<Longrightarrow> i_step s (snd (snd (pb_read_skip s n)))"
proof (induction s n rule: pb_read_skip.induct)
  case (1 s count)
  note step = pb_read_direct_step [OF "1.prems"]
  show ?case
  proof (cases "count > 16")
    case True
    obtain ok xs s1 where r: "pb_read_direct s 16 = (ok, xs, s1)" by (metis prod_cases3)
    have s1: "i_step s s1" using step [of 16] r by simp
    then have "ok \<Longrightarrow> i_step s1 (snd (snd (pb_read_skip s1 (count - 16))))"
      using "1.IH" [OF True r [symmetric] refl] i_step_ok [OF "1.prems"] by simp
    then show ?thesis using True s1 i_step_trans by (subst pb_read_skip.simps) (auto simp: r)
  next
    case False
    then show ?thesis
      using step [of count] "1.prems"
      by (subst pb_read_skip.simps) (auto simp: Let_def i_step_refl split: prod.splits)
  qed
qed

lemma pb_read_step: "istream_ok s \<Longrightarrow> i_step s (snd (snd (pb_read s into n)))"
  by (auto simp: pb_read_def i_step_refl pb_read_direct_step pb_read_skip_step)

lemma pb_readbyte_step: "istream_ok s \<Longrightarrow> i_step s (snd (pb_readbyte s))"
proof -
  assume ok: "istream_ok s"
  show ?thesis
  proof (cases "bytes_left s = 0")
    case True
    then show ?thesis using ok by (simp add: pb_readbyte_def i_step_refl)
  next
    case False
    then have le: "1 \<le> bytes_left s" by (simp add: word_le_nat_alt Suc_le_eq unat_gt_0)
    obtain k xs s1 where r: "run_read s 1 = (k, xs, s1)" by (metis prod_cases3)
    show ?thesis
      using run_read_step [OF r ok le] False by (auto simp: pb_readbyte_def r)
  qed
qed

lemma varint32_loop_step: "istream_ok s \<Longrightarrow> i_step s (snd (varint32_loop s b r))"
proof (induction s b r rule: varint32_loop.induct)
  case (1 s b r)
  obtain x s1 where rb: "pb_readbyte s = (x, s1)" by force
  have s1: "i_step s s1" "istream_ok s1"
    using pb_readbyte_step [OF "1.prems"] i_step_ok [OF "1.prems"] rb by auto
  show ?case
  proof (cases x)
    case None
    then show ?thesis using rb s1 by (subst varint32_loop.simps) simp
  next
    case (Some byte)
    show ?thesis
      using s1 "1.IH" [OF rb [symmetric] Some refl refl refl refl] i_step_trans [OF s1(1)]
      by (subst varint32_loop.simps) (simp add: rb Some Let_def)
  qed
qed

lemma varint_loop64_step: "istream_ok s \<Longrightarrow> i_step s (snd (varint_loop64 s b r))"
proof (induction s b r rule: varint_loop64.induct)
  case (1 s b r)
  obtain x s1 where rb: "pb_readbyte s = (x, s1)" by force
  have s1: "i_step s s1" "istream_ok s1"
    using pb_readbyte_step [OF "1.prems"] i_step_ok [OF "1.prems"] rb by auto
  show ?case
  proof (cases "64 \<le> b \<or> x = None")
    case True
    then show ?thesis using rb s1 i_step_refl [OF "1.prems"] by (subst varint_loop64.simps) auto
  next
    case False
    then obtain byte where Some: "x = Some byte" by auto
    show ?thesis
      using False s1 "1.IH" [OF _ rb [symmetric] Some refl refl] i_step_trans [OF s1(1)]
      by (subst varint_loop64.simps) (simp add: rb Some Let_def)
  qed
qed

lemma varint32_eof_step: "istream_ok s \<Longrightarrow> i_step s (snd (snd (pb_decode_varint32_eof s)))"
proof -
  assume ok: "istream_ok s"
  obtain x s1 where rb: "pb_readbyte s = (x, s1)" by force
  have s1: "i_step s s1" "istream_ok s1"
    using pb_readbyte_step [OF ok] i_step_ok [OF ok] rb by auto
  show ?thesis
    using s1 i_step_trans [OF s1(1) varint32_loop_step [OF s1(2)]]
    by (simp add: pb_decode_varint32_eof_def rb Let_def case_prod_beta split: option.splits)
qed

text \<open>A varint that is read is at least one byte long.\<close>

lemma varint32_eof_progress:
  assumes "pb_decode_varint32_eof s = (Some v, eof, s1)" "istream_ok s"
  shows "bytes_left s1 < bytes_left s"
proof -
  obtain x s0 where rb: "pb_readbyte s = (x, s0)" by force
  then obtain byte where x: "x = Some byte"
    using assms(1) by (auto simp: pb_decode_varint32_eof_def split: option.splits)
  have lt: "bytes_left s0 < bytes_left s"
    using pb_readbyte_decreases rb x by (simp add: word_less_nat_alt)
  have "istream_ok s0" using pb_readbyte_step [OF assms(2)] i_step_ok [OF assms(2)] rb by simp
  from varint32_loop_step [OF this] have "bytes_left (snd (varint32_loop s0 b r)) \<le> bytes_left s0" for b r
    by (simp add: i_step_def)
  then have "bytes_left s1 \<le> bytes_left s0"
    using assms(1) by (auto simp: pb_decode_varint32_eof_def rb x Let_def case_prod_beta split: if_splits)
  then show ?thesis using lt by (rule order.strict_trans1)
qed

lemma pb_skip_varint_step: "istream_ok s \<Longrightarrow> i_step s (snd (pb_skip_varint s))"
proof (induction s rule: pb_skip_varint.induct)
  case (1 s)
  obtain k xs s1 where rd: "pb_read s True 1 = (k, xs, s1)" by (metis prod_cases3)
  have s1: "i_step s s1" "istream_ok s1"
    using pb_read_step [OF "1.prems", of True 1] i_step_ok [OF "1.prems"] rd by auto
  show ?case
    using s1 "1.IH" [OF rd [symmetric] refl] i_step_trans [OF s1(1)]
    by (subst pb_skip_varint.simps) (simp add: rd)
qed

lemma pb_decode_varint_step: "istream_ok s \<Longrightarrow> i_step s (snd (pb_decode_varint s))"
  unfolding pb_decode_varint_def by (rule varint_loop64_step)

lemma pb_decode_varint32_step: "istream_ok s \<Longrightarrow> i_step s (snd (pb_decode_varint32 s))"
  using varint32_eof_step [of s] by (simp add: pb_decode_varint32_def case_prod_beta)

interpretation readbyte: stream_decoder pb_readbyte
  by unfold_locales (rule pb_readbyte_step)

interpretation varint: stream_decoder pb_decode_varint
  by unfold_locales (rule pb_decode_varint_step)

interpretation varint32: stream_decoder pb_decode_varint32
  by unfold_locales (rule pb_decode_varint32_step)

interpretation skip_varint: stream_decoder pb_skip_varint
  by unfold_locales (rule pb_skip_varint_step)

lemma pb_decode_svarint_step: "istream_ok s \<Longrightarrow> i_step s (snd (pb_decode_svarint s))"
  using varint.dec_step [of s] by (auto simp: pb_decode_svarint_def split: prod.splits option.splits)

lemma pb_decode_fixed32_step: "istream_ok s \<Longrightarrow> i_step s (snd (pb_decode_fixed32 s))"
  using pb_read_step [of s True 4] by (auto simp: pb_decode_fixed32_def split: prod.splits)

lemma pb_decode_fixed64_step: "istream_ok s \<Longrightarrow> i_step s (snd (pb_decode_fixed64 s))"
  using pb_read_step [of s True 8] by (auto simp: pb_decode_fixed64_def split: prod.splits)

interpretation svarint: stream_decoder pb_decode_svarint
  by unfold_locales (rule pb_decode_svarint_step)

interpretation fixed32: stream_decoder pb_decode_fixed32
  by unfold_locales (rule pb_decode_fixed32_step)

interpretation fixed64: stream_decoder pb_decode_fixed64
  by unfold_locales (rule pb_decode_fixed64_step)

lemma pb_skip_string_step: "istream_ok s \<Longrightarrow> i_step s (snd (pb_skip_string s))"
proof -
  assume ok: "istream_ok s"
  have "i_step s (snd (let (r, s1) = pb_decode_varint32 s in
      case r of None \<Rightarrow> (False, s1)
      | Some len \<Rightarrow> (let (ok, xs, s2) = pb_read s1 False (ucast len) in (ok, s2))))"
    by (rule varint32.dec_then [OF _ ok])
      (simp add: i_step_refl case_prod_beta pb_read_step split: option.splits)
  moreover have "pb_skip_string s = (let (r, s1) = pb_decode_varint32 s in
      case r of None \<Rightarrow> (False, s1)
      | Some len \<Rightarrow> (let (ok, xs, s2) = pb_read s1 False (ucast len) in (ok, s2)))"
    by (simp add: pb_skip_string_def split: option.splits prod.splits)
  ultimately show ?thesis by simp
qed

lemma pb_decode_tag_step: "istream_ok s \<Longrightarrow> i_step s (snd (snd (pb_decode_tag s)))"
  using varint32_eof_step [of s] by (auto simp: pb_decode_tag_def split: prod.splits option.splits)

lemma pb_skip_field_step: "istream_ok s \<Longrightarrow> i_step s (snd (pb_skip_field s wt))"
  using pb_read_step [of s False 8] pb_read_step [of s False 4]
  by (auto simp: pb_skip_field_def pb_skip_varint_step pb_skip_string_step i_step_refl split: prod.splits)

lemma raw_varint_step: "istream_ok s \<Longrightarrow> i_step s (snd (raw_varint_loop n s buf))"
proof (induction n s buf rule: raw_varint_loop.induct)
  case (1 s buf) then show ?case by (simp add: i_step_refl)
next
  case (2 n s buf)
  obtain k xs s1 where rd: "pb_read s True 1 = (k, xs, s1)" by (metis prod_cases3)
  have s1: "i_step s s1" "istream_ok s1"
    using pb_read_step [OF "2.prems", of True 1] i_step_ok [OF "2.prems"] rd by auto
  show ?case
    using s1 "2.IH" [OF rd [symmetric] refl] i_step_trans [OF s1(1)] by (simp add: rd)
qed

lemma read_raw_value_step: "istream_ok s \<Longrightarrow> i_step s (snd (read_raw_value s wt n))"
  using pb_read_step [of s True 8] pb_read_step [of s True 4]
  by (auto simp: read_raw_value_def raw_varint_step i_step_refl split: prod.splits)

interpretation skip_string: stream_decoder pb_skip_string
  by unfold_locales (rule pb_skip_string_step)

interpretation skip_field: stream_decoder "\<lambda>s. pb_skip_field s wt" for wt
  by unfold_locales (rule pb_skip_field_step)

section \<open>Substreams\<close>

lemma make_substream_step:
  assumes "istream_ok s"
  shows "i_step s (snd (pb_make_string_substream s))"
proof -
  obtain r s1 where r: "pb_decode_varint32 s = (r, s1)" by force
  have s1: "i_step s s1" "istream_ok s1"
    using varint32.dec_step [OF assms] varint32.dec_ok [OF assms] r by auto
  have "i_step s1 (s1\<lparr>bytes_left := bytes_left s1 - n\<rparr>)" if "n \<le> bytes_left s1" for n
    using that s1(2) by (auto simp: i_step_def istream_ok_def word_sub_le intro: exI [of _ 0] split: source.splits)
  then show ?thesis
    using s1 i_step_trans [OF s1(1)]
    by (auto simp: pb_make_string_substream_def r not_less split: option.splits)
qed

lemma make_substream_ok:
  assumes "istream_ok s" "pb_make_string_substream s = (Some sub, s1)"
  shows "istream_ok sub" "bytes_left sub < bytes_left s"
proof -
  obtain sz s0 where r: "pb_decode_varint32 s = (Some sz, s0)" and le: "ucast sz \<le> bytes_left s0"
    and sub: "sub = s0\<lparr>bytes_left := ucast sz\<rparr>"
    using assms(2) by (auto simp: pb_make_string_substream_def not_less split: prod.splits option.splits if_splits)
  have s0: "istream_ok s0" "bytes_left s0 \<le> bytes_left s"
    using varint32.dec_ok [OF assms(1)] varint32.dec_bytes_left [OF assms(1)] r by auto
  then show "istream_ok sub"
    using le sub by (auto simp: istream_ok_def word_le_nat_alt split: source.splits)
  have "bytes_left s0 < bytes_left s"
    using varint32_eof_progress [OF _ assms(1)] r
    by (auto simp: pb_decode_varint32_def split: prod.splits)
  then show "bytes_left sub < bytes_left s" using le sub by simp
qed

text \<open>
  The parent stream after its substream has been used by any decoder and closed again: it has moved
  past the length prefix and no further than the end of the substream.
\<close>

lemma close_substream_step:
  assumes ok: "istream_ok s" and mk: "pb_make_string_substream s = (Some sub, s1)" and st: "i_step sub sub'"
  shows "i_step s (snd (pb_close_string_substream (s1\<lparr>i_errmsg := e\<rparr>) sub'))"
proof -
  obtain sz s0 where r: "pb_decode_varint32 s = (Some sz, s0)" and le: "ucast sz \<le> bytes_left s0"
    and sub: "sub = s0\<lparr>bytes_left := ucast sz\<rparr>" and s1: "s1 = s0\<lparr>bytes_left := bytes_left s0 - ucast sz\<rparr>"
    using mk by (auto simp: pb_make_string_substream_def not_less split: prod.splits option.splits if_splits)
  have s0: "i_step s s0" using varint32.dec_step [OF ok] r by simp
  have sub': "istream_ok sub'" using st i_step_ok make_substream_ok(1) [OF ok mk] by blast
  obtain k xs sub2 where rd: "(if bytes_left sub' \<noteq> 0 then pb_read sub' False (bytes_left sub')
      else (True, [], sub')) = (k, xs, sub2)" by (metis prod_cases3)
  have "i_step sub' sub2"
    using pb_read_step [OF sub', of False "bytes_left sub'"] i_step_refl [OF sub'] rd by (auto split: if_splits)
  then have sub2: "i_step sub sub2" using st i_step_trans by blast
  have bl: "bytes_left s0 - ucast sz \<le> bytes_left s0"
    "unat (bytes_left s0 - ucast sz) = unat (bytes_left s0) - unat (ucast sz :: size_t)"
    using le by (simp_all add: word_sub_le unat_sub)
  have le': "unat (ucast sz :: size_t) \<le> unat (bytes_left s0)" using le by (simp add: word_le_nat_alt)
  have fail: "i_step s0 (s1\<lparr>i_errmsg := e\<rparr>)"
    using bl s0 ok i_step_ok by (auto simp: i_step_def s1 istream_ok_def intro: exI [of _ 0] split: source.splits)
  have closed: "i_step s0 (s1\<lparr>source := source sub2, i_errmsg := i_errmsg sub2\<rparr>)"
    using sub2 bl le'
    by (auto simp: i_step_def s1 sub intro: exI [of "\<lambda>k. k \<le> _ \<and> drop _ _ = drop k _"]
        dest: le_trans [OF _ diff_le_self] split: source.splits)
  show ?thesis
    using fail closed rd i_step_trans [OF s0] by (auto simp: pb_close_string_substream_def Let_def)
qed

end
