(* ===== verification/Pb_Decode.thy ===== *)
theory Pb_Decode
  imports Pb_Decode_Safety
begin

text \<open>
  The message decoder of \<^verbatim>\<open>pb_decode.c\<close>: field decoders, static, pointer and callback fields,
  allocation, defaults, extensions, release, and whole messages.

  The decoder changes the structure it decodes into and the heap. Both are in a \<open>world\<close>: the memory,
  the live heap blocks with their sizes, the local counter of the fixed count array being decoded
  (\<^verbatim>\<open>fixed_count_size\<close>, a local variable of \<open>pb_decode_noinit\<close> that the iterator points to), and
  a flag that is set by what is undefined in C: freeing or reallocating what is not a live block, and
  a call through a null function pointer. The environment holds the descriptor tables, the choice of
  the allocator (\<open>heap_place\<close>: where \<^verbatim>\<open>realloc\<close> puts a block, or \<open>None\<close> when it fails), and the decode
  callbacks of the program by function address.

  As in the encoder, mutual recursion is by a nesting depth and \<open>None\<close> means that it did not suffice;
  otherwise the result is the returned flag, the stream and the world.
\<close>

section \<open>World and environment\<close>

record world =
  wmem :: memory
  blocks :: "(addr \<times> nat) list"
  fixed_count_size :: pb_size_t
  faulty :: bool

type_synonym 'u dres = "bool \<times> 'u pb_istream \<times> world"
type_synonym 'u decoder = "'u pb_istream \<Rightarrow> pb_field_t \<Rightarrow> addr \<Rightarrow> world \<Rightarrow> 'u dres option"
type_synonym 'u msg_decoder = "bool \<Rightarrow> 'u pb_istream \<Rightarrow> pb_table \<Rightarrow> addr \<Rightarrow> world \<Rightarrow> 'u dres option"

record 'u dec_env =
  d_tables :: pb_tables
  heap_place :: "(addr \<times> nat) list \<Rightarrow> nat \<Rightarrow> addr option"
  cb_decode :: "addr \<Rightarrow> 'u pb_istream \<Rightarrow> pb_field_t \<Rightarrow> addr \<Rightarrow> world \<Rightarrow> 'u dres"
  ext_decode :: "addr \<Rightarrow> 'u pb_istream \<Rightarrow> addr \<Rightarrow> 32 word \<Rightarrow> 32 word \<Rightarrow> world \<Rightarrow> 'u dres"

definition poke :: "addr \<Rightarrow> byte list \<Rightarrow> world \<Rightarrow> world" where
  "poke a bs w = w\<lparr>wmem := store_bytes (wmem w) a bs\<rparr>"

definition peek_ptr :: "world \<Rightarrow> addr \<Rightarrow> addr" where
  "peek_ptr w a = load_ptr (wmem w) a"

definition poke_ptr :: "addr \<Rightarrow> addr \<Rightarrow> world \<Rightarrow> world" where
  "poke_ptr a p w = w\<lparr>wmem := store_ptr (wmem w) a p\<rparr>"

definition memset0 :: "addr \<Rightarrow> pb_size_t \<Rightarrow> world \<Rightarrow> world" where
  "memset0 a n w = poke a (replicate (unat n) 0) w"

definition get_size :: "world \<Rightarrow> size_ref \<Rightarrow> pb_size_t" where
  "get_size w r = (case r of At a \<Rightarrow> load_u32 (wmem w) a | FixedCount \<Rightarrow> fixed_count_size w)"

definition set_size :: "size_ref \<Rightarrow> pb_size_t \<Rightarrow> world \<Rightarrow> world" where
  "set_size r n w =
     (case r of At a \<Rightarrow> w\<lparr>wmem := store_u32 (wmem w) a n\<rparr>
              | FixedCount \<Rightarrow> w\<lparr>fixed_count_size := n\<rparr>)"

definition set_flag :: "size_ref \<Rightarrow> bool \<Rightarrow> world \<Rightarrow> world" where
  "set_flag r b w =
     (case r of At a \<Rightarrow> w\<lparr>wmem := store_bool (wmem w) a b\<rparr> | FixedCount \<Rightarrow> w\<lparr>faulty := True\<rparr>)"

definition fault :: "world \<Rightarrow> world" where
  "fault w = w\<lparr>faulty := True\<rparr>"

text \<open>\<^verbatim>\<open>if (!f(stream, ...)) return false;\<close> for functions that change stream and world.\<close>

definition d_bind :: "'u dres option \<Rightarrow> ('u pb_istream \<Rightarrow> world \<Rightarrow> 'u dres option) \<Rightarrow> 'u dres option" where
  "d_bind r k =
     (case r of None \<Rightarrow> None | Some (ok, s, w) \<Rightarrow> if ok then k s w else Some (False, s, w))"

definition d_error :: "string \<Rightarrow> 'u pb_istream \<Rightarrow> world \<Rightarrow> 'u dres" where
  "d_error msg s w = (False, i_fail msg s, w)"

section \<open>The heap\<close>

definition pb_realloc :: "'u dec_env \<Rightarrow> addr \<Rightarrow> size_t \<Rightarrow> world \<Rightarrow> addr option \<times> world" where
  "pb_realloc env p n w =
     (if p = NULL then
        case heap_place env (blocks w) (unat n) of
          None \<Rightarrow> (None, w)
        | Some a \<Rightarrow> (Some a, w\<lparr>blocks := (a, unat n) # blocks w\<rparr>)
      else
        case map_of (blocks w) p of
          None \<Rightarrow> (None, fault w)
        | Some old \<Rightarrow>
            let rest = filter (\<lambda>b. fst b \<noteq> p) (blocks w) in
            case heap_place env rest (unat n) of
              None \<Rightarrow> (None, w)
            | Some a \<Rightarrow>
                (Some a, (poke a (load_bytes (wmem w) p (min old (unat n))) w)\<lparr>blocks := (a, unat n) # rest\<rparr>))"

definition pb_free :: "addr \<Rightarrow> world \<Rightarrow> world" where
  "pb_free p w =
     (if p = NULL then w
      else if map_of (blocks w) p = None then fault w
      else w\<lparr>blocks := filter (\<lambda>b. fst b \<noteq> p) (blocks w)\<rparr>)"

definition allocate_field ::
    "'u dec_env \<Rightarrow> 'u pb_istream \<Rightarrow> addr \<Rightarrow> size_t \<Rightarrow> size_t \<Rightarrow> world \<Rightarrow> 'u dres" where
  "allocate_field env s pdata dsize asize w =
     (let p = peek_ptr w pdata; check_limit = push_bit 32 1 :: size_t in
      if dsize = 0 \<or> asize = 0 then d_error ''invalid size'' s w
      else if (dsize \<ge> check_limit \<or> asize \<ge> check_limit) \<and> (- 1) div asize < dsize
      then d_error ''size too large'' s w
      else
        case pb_realloc env p (asize * dsize) w of
          (None, w1) \<Rightarrow> d_error ''realloc failed'' s w1
        | (Some a, w1) \<Rightarrow> (True, s, poke_ptr pdata a w1))"

section \<open>Field decoders\<close>

definition pb_dec_bool :: "'u pb_istream \<Rightarrow> addr \<Rightarrow> world \<Rightarrow> 'u dres" where
  "pb_dec_bool s dest w =
     (case pb_decode_varint32 s of
        (None, s1) \<Rightarrow> (False, s1, w)
      | (Some value, s1) \<Rightarrow> (True, s1, w\<lparr>wmem := store_bool (wmem w) dest (value \<noteq> 0)\<rparr>))"

definition pb_decode_bool :: "'u pb_istream \<Rightarrow> addr \<Rightarrow> world \<Rightarrow> 'u dres" where
  "pb_decode_bool s dest w = pb_dec_bool s dest w"

text \<open>
  Storing a 64-bit value in an integer of \<^verbatim>\<open>data_size\<close> bytes: the memory, and the value that was
  stored widened again (\<open>clamped\<close>), signed or unsigned.
\<close>

definition store_int :: "bool \<Rightarrow> memory \<Rightarrow> pb_size_t \<Rightarrow> addr \<Rightarrow> 64 word \<Rightarrow> (memory \<times> 64 word) option" where
  "store_int is_signed m dsize dest v =
     (if dsize = 8 then Some (store_u64 m dest v, v)
      else if dsize = 4
      then Some (store_u32 m dest (ucast v), if is_signed then scast (ucast v :: 32 word) else ucast (ucast v :: 32 word))
      else if dsize = 2
      then Some (store_u16 m dest (ucast v), if is_signed then scast (ucast v :: 16 word) else ucast (ucast v :: 16 word))
      else if dsize = 1
      then Some (store_u8 m dest (ucast v), if is_signed then scast (ucast v :: 8 word) else ucast (ucast v :: 8 word))
      else None)"

definition store_checked :: "bool \<Rightarrow> 'u pb_istream \<Rightarrow> pb_field_t \<Rightarrow> addr \<Rightarrow> 64 word \<Rightarrow> world \<Rightarrow> 'u dres" where
  "store_checked is_signed s field dest v w =
     (case store_int is_signed (wmem w) (data_size field) dest v of
        None \<Rightarrow> d_error ''invalid data_size'' s w
      | Some (m, clamped) \<Rightarrow>
          if clamped \<noteq> v then d_error ''integer too large'' s (w\<lparr>wmem := m\<rparr>) else (True, s, w\<lparr>wmem := m\<rparr>))"

definition pb_dec_varint :: "'u pb_istream \<Rightarrow> pb_field_t \<Rightarrow> addr \<Rightarrow> world \<Rightarrow> 'u dres" where
  "pb_dec_varint s field dest w =
     (case pb_decode_varint s of
        (None, s1) \<Rightarrow> (False, s1, w)
      | (Some value, s1) \<Rightarrow>
          let svalue = (if data_size field = 8 then value else scast (ucast value :: 32 word)) in
          store_checked True s1 field dest svalue w)"

definition pb_dec_uvarint :: "'u pb_istream \<Rightarrow> pb_field_t \<Rightarrow> addr \<Rightarrow> world \<Rightarrow> 'u dres" where
  "pb_dec_uvarint s field dest w =
     (case pb_decode_varint s of
        (None, s1) \<Rightarrow> (False, s1, w)
      | (Some value, s1) \<Rightarrow> store_checked False s1 field dest value w)"

definition pb_dec_svarint :: "'u pb_istream \<Rightarrow> pb_field_t \<Rightarrow> addr \<Rightarrow> world \<Rightarrow> 'u dres" where
  "pb_dec_svarint s field dest w =
     (case pb_decode_svarint s of
        (None, s1) \<Rightarrow> (False, s1, w)
      | (Some value, s1) \<Rightarrow> store_checked True s1 field dest value w)"

definition pb_dec_fixed32 :: "'u pb_istream \<Rightarrow> addr \<Rightarrow> world \<Rightarrow> 'u dres" where
  "pb_dec_fixed32 s dest w =
     (case pb_decode_fixed32 s of
        (None, s1) \<Rightarrow> (False, s1, w)
      | (Some value, s1) \<Rightarrow> (True, s1, w\<lparr>wmem := store_u32 (wmem w) dest value\<rparr>))"

definition pb_dec_fixed64 :: "'u pb_istream \<Rightarrow> addr \<Rightarrow> world \<Rightarrow> 'u dres" where
  "pb_dec_fixed64 s dest w =
     (case pb_decode_fixed64 s of
        (None, s1) \<Rightarrow> (False, s1, w)
      | (Some value, s1) \<Rightarrow> (True, s1, w\<lparr>wmem := store_u64 (wmem w) dest value\<rparr>))"

text \<open>\<open>pb_read\<close> into memory: what was read is stored, also when the read fails part way.\<close>

definition read_into :: "'u pb_istream \<Rightarrow> addr \<Rightarrow> size_t \<Rightarrow> world \<Rightarrow> 'u dres" where
  "read_into s dest n w = (let (ok, xs, s1) = pb_read s True n in (ok, s1, poke dest xs w))"

definition pb_dec_bytes :: "'u dec_env \<Rightarrow> 'u pb_istream \<Rightarrow> pb_field_t \<Rightarrow> addr \<Rightarrow> world \<Rightarrow> 'u dres" where
  "pb_dec_bytes env s field dest w =
     (case pb_decode_varint32 s of
        (None, s1) \<Rightarrow> (False, s1, w)
      | (Some sz, s1) \<Rightarrow>
          let alloc_size = PB_BYTES_ARRAY_T_ALLOCSIZE (ucast sz);
              fill = (\<lambda>s2 bdest w1. read_into s2 (bytes_array_bytes bdest) (ucast sz)
                        (w1\<lparr>wmem := store_u32 (wmem w1) bdest sz\<rparr>)) in
          if sz > PB_SIZE_MAX then d_error ''bytes overflow'' s1 w
          else if ucast sz > alloc_size then d_error ''size too large'' s1 w
          else if PB_ATYPE (ftype field) = PB_ATYPE_POINTER then
            if bytes_left s1 < ucast sz then d_error ''end-of-stream'' s1 w
            else
              let (ok, s2, w1) = allocate_field env s1 dest alloc_size 1 w in
              if \<not> ok then (False, s2, w1) else fill s2 (peek_ptr w1 dest) w1
          else if alloc_size > ucast (data_size field) then d_error ''bytes overflow'' s1 w
          else fill s1 dest w)"

definition pb_dec_string :: "'u dec_env \<Rightarrow> 'u pb_istream \<Rightarrow> pb_field_t \<Rightarrow> addr \<Rightarrow> world \<Rightarrow> 'u dres" where
  "pb_dec_string env s field dest w =
     (case pb_decode_varint32 s of
        (None, s1) \<Rightarrow> (False, s1, w)
      | (Some sz, s1) \<Rightarrow>
          let alloc_size = ucast (sz + 1) :: size_t;
              fill = (\<lambda>s2 d w1. let (status, s3, w2) = read_into s2 d (ucast sz) w1
                             in (status, s3, poke (d + uint sz) [0] w2)) in
          if alloc_size < ucast sz then d_error ''size too large'' s1 w
          else if PB_ATYPE (ftype field) = PB_ATYPE_POINTER then
            if bytes_left s1 < ucast sz then d_error ''end-of-stream'' s1 w
            else
              let (ok, s2, w1) = allocate_field env s1 dest alloc_size 1 w in
              if \<not> ok then (False, s2, w1) else fill s2 (peek_ptr w1 dest) w1
          else if alloc_size > ucast (data_size field) then d_error ''string overflow'' s1 w
          else fill s1 dest w)"

text \<open>\<open>dec\<close> is the message decoder: with default initialisation when its flag is set.\<close>

definition pb_dec_submessage :: "'u dec_env \<Rightarrow> 'u msg_decoder \<Rightarrow> 'u decoder" where
  "pb_dec_submessage env dec s field dest w =
     (case pb_make_string_substream s of
        (None, s1) \<Rightarrow> Some (False, s1, w)
      | (Some substream, s1) \<Rightarrow>
          if ptr field = NULL then Some (d_error ''invalid field descriptor'' s1 w)
          else
            case dec (PB_HTYPE (ftype field) = PB_HTYPE_REPEATED) substream (d_tables env (ptr field)) dest w of
              None \<Rightarrow> None
            | Some (status, sub, w1) \<Rightarrow>
                let (ok, s2) = pb_close_string_substream s1 sub in
                Some (ok \<and> status, s2, w1))"

definition pb_dec_fixed_length_bytes :: "'u pb_istream \<Rightarrow> pb_field_t \<Rightarrow> addr \<Rightarrow> world \<Rightarrow> 'u dres" where
  "pb_dec_fixed_length_bytes s field dest w =
     (case pb_decode_varint32 s of
        (None, s1) \<Rightarrow> (False, s1, w)
      | (Some sz, s1) \<Rightarrow>
          if sz > PB_SIZE_MAX then d_error ''bytes overflow'' s1 w
          else if sz = 0 then (True, s1, memset0 dest (data_size field) w)
          else if sz \<noteq> data_size field then d_error ''incorrect fixed length bytes size'' s1 w
          else read_into s1 dest (ucast (data_size field)) w)"

definition PB_DECODERS :: "'u dec_env \<Rightarrow> 'u msg_decoder \<Rightarrow> pb_type_t \<Rightarrow> 'u decoder" where
  "PB_DECODERS env dec lt s field dest w =
     (if lt = PB_LTYPE_BOOL then Some (pb_dec_bool s dest w)
      else if lt = PB_LTYPE_VARINT then Some (pb_dec_varint s field dest w)
      else if lt = PB_LTYPE_UVARINT then Some (pb_dec_uvarint s field dest w)
      else if lt = PB_LTYPE_SVARINT then Some (pb_dec_svarint s field dest w)
      else if lt = PB_LTYPE_FIXED32 then Some (pb_dec_fixed32 s dest w)
      else if lt = PB_LTYPE_FIXED64 then Some (pb_dec_fixed64 s dest w)
      else if lt = PB_LTYPE_BYTES then Some (pb_dec_bytes env s field dest w)
      else if lt = PB_LTYPE_STRING then Some (pb_dec_string env s field dest w)
      else if lt = PB_LTYPE_SUBMESSAGE then pb_dec_submessage env dec s field dest w
      else if lt = PB_LTYPE_FIXED_LENGTH_BYTES then Some (pb_dec_fixed_length_bytes s field dest w)
      else Some (False, s, fault w))"

section \<open>Extensions\<close>

definition iter_from_extension :: "'u dec_env \<Rightarrow> addr \<Rightarrow> world \<Rightarrow> pb_field_iter_t" where
  "iter_from_extension env extension w =
     (let m = wmem w;
          fld = d_tables env (ext_type_arg m (ext_type m extension));
          it = snd (pb_field_iter_begin fld (ext_dest m extension)) in
      it\<lparr>pData := if PB_ATYPE (ftype (field_at fld 0)) = PB_ATYPE_POINTER then extension + 8
                   else ext_dest m extension,
         pSize := At (ext_found extension)\<rparr>)"

text \<open>A walk along an extension list that changes the world at each entry, at most \<open>k\<close> entries.\<close>

fun extension_walk :: "nat \<Rightarrow> (addr \<Rightarrow> world \<Rightarrow> world option) \<Rightarrow> addr \<Rightarrow> world \<Rightarrow> world option" where
  "extension_walk 0 visit ext w = (if ext = NULL then Some w else None)"
| "extension_walk (Suc k) visit ext w =
     (if ext = NULL then Some w
      else Option.bind (visit ext w) (\<lambda>w1. extension_walk k visit (ext_next (wmem w1) ext) w1))"

section \<open>Release\<close>

text \<open>The do-while loop over the fields of a message whose body changes only the world.\<close>

fun world_loop :: "nat \<Rightarrow> (pb_field_iter_t \<Rightarrow> world \<Rightarrow> world option) \<Rightarrow> pb_field_iter_t \<Rightarrow> world \<Rightarrow> world option" where
  "world_loop 0 body it w = None"
| "world_loop (Suc k) body it w =
     Option.bind (body it w) (\<lambda>w1.
       let (more, it') = pb_field_iter_next it in if more then world_loop k body it' w1 else Some w1)"

definition release_message ::
    "(pb_field_iter_t \<Rightarrow> world \<Rightarrow> world option) \<Rightarrow> pb_table \<Rightarrow> addr \<Rightarrow> world \<Rightarrow> world option" where
  "release_message single flds dest w =
     (if dest = NULL then Some w
      else
        let (nonempty, it) = pb_field_iter_begin flds dest in
        if nonempty then world_loop (Suc (length flds)) single it w else Some w)"

text \<open>The loop over the elements of a submessage array.\<close>

fun release_items :: "nat \<Rightarrow> (addr \<Rightarrow> world \<Rightarrow> world option) \<Rightarrow> int \<Rightarrow> addr \<Rightarrow> world \<Rightarrow> world option" where
  "release_items 0 rel step item w = Some w"
| "release_items (Suc count) rel step item w =
     Option.bind (rel item w) (release_items count rel step (item + step))"

text \<open>The loop over the entries of a repeated string or bytes array.\<close>

fun free_entries :: "nat \<Rightarrow> addr \<Rightarrow> world \<Rightarrow> world" where
  "free_entries 0 item w = w"
| "free_entries (Suc count) item w =
     free_entries count (item + 8) (poke_ptr item NULL (pb_free (peek_ptr w item) w))"

definition release_count :: "pb_field_iter_t \<Rightarrow> world \<Rightarrow> pb_size_t" where
  "release_count it w =
     (let f = iter_field it in
      if PB_HTYPE (ftype f) = PB_HTYPE_REPEATED then
        let count = (if PB_ATYPE (ftype f) = PB_ATYPE_STATIC \<and> pSize it = At (pData it)
                     then array_size f else get_size w (pSize it))
        in if PB_ATYPE (ftype f) = PB_ATYPE_STATIC \<and> count > array_size f then array_size f else count
      else 1)"

definition release_pointer :: "pb_field_iter_t \<Rightarrow> world \<Rightarrow> world" where
  "release_pointer it w =
     (let f = iter_field it;
          w1 = (if PB_HTYPE (ftype f) = PB_HTYPE_REPEATED \<and>
                   (PB_LTYPE (ftype f) = PB_LTYPE_STRING \<or> PB_LTYPE (ftype f) = PB_LTYPE_BYTES)
                then free_entries (unat (get_size w (pSize it))) (peek_ptr w (pData it)) w
                else w);
          w2 = (if PB_HTYPE (ftype f) = PB_HTYPE_REPEATED then set_size (pSize it) 0 w1 else w1)
      in poke_ptr (pData it) NULL (pb_free (peek_ptr w2 (pData it)) w2))"

primrec pb_release_single_field :: "nat \<Rightarrow> 'u dec_env \<Rightarrow> pb_field_iter_t \<Rightarrow> world \<Rightarrow> world option" where
  "pb_release_single_field 0 env it w = None"
| "pb_release_single_field (Suc depth) env it w =
     (let f = iter_field it;
          finish = (\<lambda>w1. Some (if PB_ATYPE (ftype f) = PB_ATYPE_POINTER then release_pointer it w1 else w1)) in
      if PB_HTYPE (ftype f) = PB_HTYPE_ONEOF \<and> get_size w (pSize it) \<noteq> tag f then Some w
      else if PB_LTYPE (ftype f) = PB_LTYPE_EXTENSION then
        Option.bind
          (extension_walk depth
             (\<lambda>ext w1. pb_release_single_field depth env (iter_from_extension env ext w1) w1)
             (peek_ptr w (pData it)) w)
          finish
      else if PB_LTYPE (ftype f) = PB_LTYPE_SUBMESSAGE \<and> PB_ATYPE (ftype f) \<noteq> PB_ATYPE_CALLBACK then
        let item = (if PB_ATYPE (ftype f) = PB_ATYPE_POINTER then peek_ptr w (pData it) else pData it) in
        Option.bind
          (if item = NULL then Some w
           else release_items (unat (release_count it w))
                  (release_message (pb_release_single_field depth env) (d_tables env (ptr f)))
                  (uint (data_size f)) item w)
          finish
      else finish w)"

definition pb_release :: "nat \<Rightarrow> 'u dec_env \<Rightarrow> pb_table \<Rightarrow> addr \<Rightarrow> world \<Rightarrow> world option" where
  "pb_release depth env flds dest w = release_message (pb_release_single_field depth env) flds dest w"

text \<open>
  \<open>pb_release_union_field\<close>: also returns the iterator, which it moves to the old field and back.
\<close>

definition pb_release_union_field ::
    "nat \<Rightarrow> 'u dec_env \<Rightarrow> 'u pb_istream \<Rightarrow> pb_field_iter_t \<Rightarrow> world \<Rightarrow>
     (bool \<times> 'u pb_istream \<times> world \<times> pb_field_iter_t) option" where
  "pb_release_union_field depth env s it w =
     (let old_tag = get_size w (pSize it); new_tag = tag (iter_field it) in
      if old_tag = 0 \<or> old_tag = new_tag then Some (True, s, w, it)
      else
        let (found, it1) = pb_field_iter_find it old_tag in
        if \<not> found then Some (False, i_fail ''invalid union tag'' s, w, it1)
        else
          case pb_release_single_field depth env it1 w of
            None \<Rightarrow> None
          | Some w1 \<Rightarrow>
              let (found2, it2) = pb_field_iter_find it1 new_tag in
              if \<not> found2 then Some (False, i_fail ''iterator error'' s, w1, it2)
              else
                Some (True, s,
                  if PB_ATYPE (ftype (iter_field it2)) = PB_ATYPE_POINTER
                  then poke_ptr (pData it2) NULL w1 else w1, it2))"

section \<open>Default values\<close>

definition message_defaults ::
    "(pb_field_iter_t \<Rightarrow> world \<Rightarrow> world option) \<Rightarrow> pb_table \<Rightarrow> addr \<Rightarrow> world \<Rightarrow> world option" where
  "message_defaults single flds dest w =
     (let (nonempty, it) = pb_field_iter_begin flds dest in
      if nonempty then world_loop (Suc (length flds)) single it w else Some w)"

primrec pb_field_set_to_default :: "nat \<Rightarrow> 'u dec_env \<Rightarrow> pb_field_iter_t \<Rightarrow> world \<Rightarrow> world option" where
  "pb_field_set_to_default 0 env it w = None"
| "pb_field_set_to_default (Suc depth) env it w =
     (let f = iter_field it; ht = PB_HTYPE (ftype f) in
      if PB_LTYPE (ftype f) = PB_LTYPE_EXTENSION then
        extension_walk depth
          (\<lambda>ext w1. let w2 = w1\<lparr>wmem := store_bool (wmem w1) (ext_found ext) False\<rparr>
                    in pb_field_set_to_default depth env (iter_from_extension env ext w2) w2)
          (peek_ptr w (pData it)) w
      else if PB_ATYPE (ftype f) = PB_ATYPE_STATIC then
        let has = (ht = PB_HTYPE_OPTIONAL \<and> pSize it \<noteq> At (pData it));
            counted = (ht = PB_HTYPE_REPEATED \<or> ht = PB_HTYPE_ONEOF);
            w1 = (if has then set_flag (pSize it) False w
                  else if counted then set_size (pSize it) 0 w else w) in
        if \<not> has \<and> counted then Some w1
        else if PB_LTYPE (ftype f) = PB_LTYPE_SUBMESSAGE
        then message_defaults (pb_field_set_to_default depth env) (d_tables env (ptr f)) (pData it) w1
        else if ptr f \<noteq> NULL
        then Some (poke (pData it) (load_bytes (wmem w1) (ptr f) (unat (data_size f))) w1)
        else Some (memset0 (pData it) (data_size f) w1)
      else if PB_ATYPE (ftype f) = PB_ATYPE_POINTER then
        let w1 = poke_ptr (pData it) NULL w in
        Some (if ht = PB_HTYPE_REPEATED \<or> ht = PB_HTYPE_ONEOF then set_size (pSize it) 0 w1 else w1)
      else Some w)"

definition pb_message_set_to_defaults :: "nat \<Rightarrow> 'u dec_env \<Rightarrow> pb_table \<Rightarrow> addr \<Rightarrow> world \<Rightarrow> world option" where
  "pb_message_set_to_defaults depth env flds dest w =
     message_defaults (pb_field_set_to_default depth env) flds dest w"

section \<open>Fields\<close>

definition array_item :: "addr \<Rightarrow> pb_field_t \<Rightarrow> pb_size_t \<Rightarrow> addr" where
  "array_item base field n = base + uint (data_size field * n)"

text \<open>
  The loop over a packed array that has room for \<^verbatim>\<open>array_size\<close> entries. An entry takes at least one
  byte of the substream, so as many rounds as it has bytes are enough.
\<close>

fun packed_static_loop ::
    "nat \<Rightarrow> 'u decoder \<Rightarrow> pb_field_iter_t \<Rightarrow> 'u pb_istream \<Rightarrow> world \<Rightarrow> 'u dres option" where
  "packed_static_loop 0 func it sub w = None"
| "packed_static_loop (Suc k) func it sub w =
     (let n = get_size w (pSize it); f = iter_field it in
      if bytes_left sub > 0 \<and> n < array_size f then
        d_bind (func sub f (array_item (pData it) f n) w) (\<lambda>sub1 w1.
          packed_static_loop k func it sub1 (set_size (pSize it) (get_size w1 (pSize it) + 1) w1))
      else Some (True, sub, w))"

definition decode_static_field ::
    "nat \<Rightarrow> 'u dec_env \<Rightarrow> 'u msg_decoder \<Rightarrow> 'u pb_istream \<Rightarrow> 32 word \<Rightarrow> pb_field_iter_t \<Rightarrow> world \<Rightarrow> 'u dres option" where
  "decode_static_field depth env dec s wire_type it w =
     (let f = iter_field it; ht = PB_HTYPE (ftype f); lt = PB_LTYPE (ftype f);
          func = PB_DECODERS env dec lt in
      if ht = PB_HTYPE_REQUIRED then func s f (pData it) w
      else if ht = PB_HTYPE_OPTIONAL then
        func s f (pData it) (if pSize it \<noteq> At (pData it) then set_flag (pSize it) True w else w)
      else if ht = PB_HTYPE_REPEATED then
        if wire_type = PB_WT_STRING \<and> lt \<le> PB_LTYPE_LAST_PACKABLE then
          case pb_make_string_substream s of
            (None, s1) \<Rightarrow> Some (False, s1, w)
          | (Some substream, s1) \<Rightarrow>
              (case packed_static_loop (Suc (unat (bytes_left substream))) func it substream w of
                 None \<Rightarrow> None
               | Some (status, sub, w1) \<Rightarrow>
                   if bytes_left sub \<noteq> 0 then Some (d_error ''array overflow'' s1 w1)
                   else
                     let (ok, s2) = pb_close_string_substream s1 sub in Some (ok \<and> status, s2, w1))
        else
          let n = get_size w (pSize it); w1 = set_size (pSize it) (n + 1) w in
          if n \<ge> array_size f then Some (d_error ''array overflow'' s w1)
          else func s f (array_item (pData it) f n) w1
      else
        Option.bind
          (if lt = PB_LTYPE_SUBMESSAGE \<and> get_size w (pSize it) \<noteq> tag f
           then pb_message_set_to_defaults depth env (d_tables env (ptr f)) (pData it)
                  (memset0 (pData it) (data_size f) w)
           else Some w)
          (\<lambda>w1. func s f (pData it) (set_size (pSize it) (tag f) w1)))"

definition initialize_pointer_field ::
    "nat \<Rightarrow> 'u dec_env \<Rightarrow> addr \<Rightarrow> pb_field_iter_t \<Rightarrow> world \<Rightarrow> world option" where
  "initialize_pointer_field depth env item it w =
     (let f = iter_field it; lt = PB_LTYPE (ftype f) in
      if lt = PB_LTYPE_STRING \<or> lt = PB_LTYPE_BYTES then Some (poke_ptr item NULL w)
      else if lt = PB_LTYPE_SUBMESSAGE
      then pb_message_set_to_defaults depth env (d_tables env (ptr f)) item (memset0 item (data_size f) w)
      else Some w)"

text \<open>
  The loop over a packed array in allocated storage: the status, the substream, the world, and the
  error message the C code writes into the parent stream, if any.
\<close>

definition grow_size :: "pb_field_t \<Rightarrow> size_t \<Rightarrow> size_t \<Rightarrow> size_t" where
  "grow_size f left allocated =
     (let remain = (left - 1) div ucast (data_size f) + 1 in
      if remain < ucast PB_SIZE_MAX - allocated then allocated + remain else allocated + 1)"

fun packed_pointer_loop ::
    "nat \<Rightarrow> nat \<Rightarrow> 'u dec_env \<Rightarrow> 'u decoder \<Rightarrow> pb_field_iter_t \<Rightarrow> size_t \<Rightarrow> 'u pb_istream \<Rightarrow> world \<Rightarrow>
     ('u dres \<times> string option) option" where
  "packed_pointer_loop 0 depth env func it allocated sub w = None"
| "packed_pointer_loop (Suc k) depth env func it allocated sub w =
     (let f = iter_field it; n = get_size w (pSize it) in
      if bytes_left sub = 0 then Some ((True, sub, w), None)
      else if n = PB_SIZE_MAX then Some ((False, sub, w), Some ''too many array entries'')
      else
        let more = (ucast n + 1 > allocated);
            allocated1 = (if more then grow_size f (bytes_left sub) allocated else allocated);
            (ok, sub1, w1) = (if more then allocate_field env sub (pData it) (ucast (data_size f)) allocated1 w
                              else (True, sub, w)) in
        if \<not> ok then Some ((False, sub1, w1), None)
        else
          let item = array_item (peek_ptr w1 (pData it)) f (get_size w1 (pSize it)) in
          case Option.bind (initialize_pointer_field depth env item it w1) (func sub1 f item) of
            None \<Rightarrow> None
          | Some (ok2, sub2, w2) \<Rightarrow>
              if \<not> ok2 then Some ((False, sub2, w2), None)
              else packed_pointer_loop k depth env func it allocated1 sub2
                     (set_size (pSize it) (get_size w2 (pSize it) + 1) w2))"

definition decode_pointer_repeated ::
    "nat \<Rightarrow> 'u dec_env \<Rightarrow> 'u decoder \<Rightarrow> 'u pb_istream \<Rightarrow> 32 word \<Rightarrow> pb_field_iter_t \<Rightarrow> world \<Rightarrow> 'u dres option" where
  "decode_pointer_repeated depth env func s wire_type it w =
     (let f = iter_field it; n = get_size w (pSize it) in
      if wire_type = PB_WT_STRING \<and> PB_LTYPE (ftype f) \<le> PB_LTYPE_LAST_PACKABLE then
        case pb_make_string_substream s of
          (None, s1) \<Rightarrow> Some (False, s1, w)
        | (Some substream, s1) \<Rightarrow>
            (case packed_pointer_loop (Suc (unat (bytes_left substream))) depth env func it (ucast n) substream w of
               None \<Rightarrow> None
             | Some ((status, sub, w1), msg) \<Rightarrow>
                 let s2 = (case msg of None \<Rightarrow> s1 | Some e \<Rightarrow> s1\<lparr>i_errmsg := Some e\<rparr>);
                     (ok, s3) = pb_close_string_substream s2 sub in
                 Some (ok \<and> status, s3, w1))
      else if n = PB_SIZE_MAX then Some (d_error ''too many array entries'' s w)
      else
        d_bind (Some (allocate_field env s (pData it) (ucast (data_size f)) (ucast (n + 1)) w)) (\<lambda>s1 w1.
          let n1 = get_size w1 (pSize it);
              item = array_item (peek_ptr w1 (pData it)) f n1 in
          Option.bind (initialize_pointer_field depth env item it (set_size (pSize it) (n1 + 1) w1))
            (func s1 f item)))"

definition decode_pointer_field ::
    "nat \<Rightarrow> 'u dec_env \<Rightarrow> 'u msg_decoder \<Rightarrow> 'u pb_istream \<Rightarrow> 32 word \<Rightarrow> pb_field_iter_t \<Rightarrow> world \<Rightarrow> 'u dres option" where
  "decode_pointer_field depth env dec s wire_type it w =
     (let f = iter_field it; lt = PB_LTYPE (ftype f); func = PB_DECODERS env dec lt in
      if PB_HTYPE (ftype f) = PB_HTYPE_REPEATED
      then decode_pointer_repeated depth env func s wire_type it w
      else
        Option.bind
          (if lt = PB_LTYPE_SUBMESSAGE \<and> peek_ptr w (pData it) \<noteq> NULL
           then pb_release_single_field depth env it w else Some w)
          (\<lambda>w1.
            let w2 = (if PB_HTYPE (ftype f) = PB_HTYPE_ONEOF then set_size (pSize it) (tag f) w1 else w1) in
            if lt = PB_LTYPE_STRING \<or> lt = PB_LTYPE_BYTES then func s f (pData it) w2
            else
              d_bind (Some (allocate_field env s (pData it) (ucast (data_size f)) 1 w2)) (\<lambda>s1 w3.
                Option.bind (initialize_pointer_field depth env (peek_ptr w3 (pData it)) it w3)
                  (\<lambda>w4. func s1 f (peek_ptr w4 (pData it)) w4))))"

text \<open>The loop that calls a decode callback until the substream is empty, at most \<open>k\<close> rounds.\<close>

fun callback_loop ::
    "nat \<Rightarrow> ('u pb_istream \<Rightarrow> world \<Rightarrow> 'u dres) \<Rightarrow> 'u pb_istream \<Rightarrow> world \<Rightarrow> 'u dres option" where
  "callback_loop 0 cb sub w = None"
| "callback_loop (Suc k) cb sub w =
     d_bind (Some (cb sub w)) (\<lambda>sub1 w1.
       if bytes_left sub1 \<noteq> 0 then callback_loop k cb sub1 w1 else Some (True, sub1, w1))"

definition decode_callback_field ::
    "nat \<Rightarrow> 'u dec_env \<Rightarrow> 'u pb_istream \<Rightarrow> 32 word \<Rightarrow> pb_field_iter_t \<Rightarrow> world \<Rightarrow> 'u dres option" where
  "decode_callback_field depth env s wire_type it w =
     (let f = cb_func (wmem w) (pData it);
          cb = (\<lambda>sub w1. cb_decode env f sub (iter_field it) (cb_arg (pData it)) w1) in
      if pData it = NULL \<or> f = NULL then
        let (ok, s1) = pb_skip_field s wire_type in Some (ok, s1, w)
      else if wire_type = PB_WT_STRING then
        case pb_make_string_substream s of
          (None, s1) \<Rightarrow> Some (False, s1, w)
        | (Some substream, s1) \<Rightarrow>
            (case callback_loop (depth + Suc (unat (bytes_left substream))) cb substream w of
               None \<Rightarrow> None
             | Some (False, sub, w1) \<Rightarrow> Some (d_error ''callback failed'' s1 w1)
             | Some (True, sub, w1) \<Rightarrow>
                 let (ok, s2) = pb_close_string_substream s1 sub in Some (ok, s2, w1))
      else
        case read_raw_value s wire_type 10 of
          (None, s1) \<Rightarrow> Some (False, s1, w)
        | (Some buf, s1) \<Rightarrow>
            let (ok, sub, w1) = cb (pb_istream_from_buffer buf (of_nat (length buf))) w in Some (ok, s1, w1))"

definition decode_field ::
    "nat \<Rightarrow> 'u dec_env \<Rightarrow> 'u msg_decoder \<Rightarrow> 'u pb_istream \<Rightarrow> 32 word \<Rightarrow> pb_field_iter_t \<Rightarrow> world \<Rightarrow>
     ('u dres \<times> pb_field_iter_t) option" where
  "decode_field depth env dec s wire_type it w =
     (case (if PB_HTYPE (ftype (iter_field it)) = PB_HTYPE_ONEOF
            then pb_release_union_field depth env s it w else Some (True, s, w, it)) of
        None \<Rightarrow> None
      | Some (False, s1, w1, it1) \<Rightarrow> Some ((False, s1, w1), it1)
      | Some (True, s1, w1, it1) \<Rightarrow>
          let at = PB_ATYPE (ftype (iter_field it1)) in
          map_option (\<lambda>r. (r, it1))
            (if at = PB_ATYPE_STATIC then decode_static_field depth env dec s1 wire_type it1 w1
             else if at = PB_ATYPE_POINTER then decode_pointer_field depth env dec s1 wire_type it1 w1
             else if at = PB_ATYPE_CALLBACK then decode_callback_field depth env s1 wire_type it1 w1
             else Some (d_error ''invalid field type'' s1 w1)))"

definition default_extension_decoder ::
    "nat \<Rightarrow> 'u dec_env \<Rightarrow> 'u msg_decoder \<Rightarrow> 'u pb_istream \<Rightarrow> addr \<Rightarrow> 32 word \<Rightarrow> 32 word \<Rightarrow> world \<Rightarrow> 'u dres option" where
  "default_extension_decoder depth env dec s extension t wire_type w =
     (let m = wmem w; field = field_at (d_tables env (ext_type_arg m (ext_type m extension))) 0 in
      if tag field \<noteq> t then Some (True, s, w)
      else
        let it = iter_from_extension env extension w;
            w1 = w\<lparr>wmem := store_bool (wmem w) (ext_found extension) True\<rparr> in
        map_option fst (decode_field depth env dec s wire_type it w1))"

fun decode_extension_loop ::
    "nat \<Rightarrow> nat \<Rightarrow> 'u dec_env \<Rightarrow> 'u msg_decoder \<Rightarrow> 'u pb_istream \<Rightarrow> 32 word \<Rightarrow> 32 word \<Rightarrow> size_t \<Rightarrow> addr \<Rightarrow> world \<Rightarrow>
     'u dres option" where
  "decode_extension_loop 0 depth env dec s t wire_type pos ext w =
     (if ext \<noteq> NULL \<and> pos = bytes_left s then None else Some (True, s, w))"
| "decode_extension_loop (Suc k) depth env dec s t wire_type pos ext w =
     (if ext \<noteq> NULL \<and> pos = bytes_left s then
        let f = ext_type_decode (wmem w) (ext_type (wmem w) ext) in
        d_bind (if f \<noteq> NULL then Some (ext_decode env f s ext t wire_type w)
                else default_extension_decoder depth env dec s ext t wire_type w)
          (\<lambda>s1 w1. decode_extension_loop k depth env dec s1 t wire_type pos (ext_next (wmem w1) ext) w1)
      else Some (True, s, w))"

definition decode_extension ::
    "nat \<Rightarrow> 'u dec_env \<Rightarrow> 'u msg_decoder \<Rightarrow> 'u pb_istream \<Rightarrow> 32 word \<Rightarrow> 32 word \<Rightarrow> pb_field_iter_t \<Rightarrow> world \<Rightarrow>
     'u dres option" where
  "decode_extension depth env dec s t wire_type it w =
     decode_extension_loop depth depth env dec s t wire_type (bytes_left s) (peek_ptr w (pData it)) w"

definition find_extension_field :: "pb_field_iter_t \<Rightarrow> bool \<times> pb_field_iter_t" where
  "find_extension_field it =
     iter_find_loop (Suc (length (it_start it)))
       (\<lambda>f. PB_LTYPE (ftype f) = PB_LTYPE_EXTENSION) (it_pos it) it"

section \<open>Messages\<close>

text \<open>The local variables of \<open>pb_decode_noinit\<close> other than the stream.\<close>

record dec_locals =
  fields_seen :: "32 word list"
  extension_range_start :: "32 word"
  l_iter :: pb_field_iter_t
  fixed_count_field :: "nat option"

definition fixed_count_incomplete :: "dec_locals \<Rightarrow> world \<Rightarrow> bool" where
  "fixed_count_incomplete l w =
     (case fixed_count_field l of
        None \<Rightarrow> False
      | Some p \<Rightarrow> fixed_count_size w \<noteq> array_size (field_at (it_start (l_iter l)) p))"

definition mark_seen :: "pb_field_iter_t \<Rightarrow> 32 word list \<Rightarrow> 32 word list" where
  "mark_seen it seen =
     (if PB_HTYPE (ftype (iter_field it)) = PB_HTYPE_REQUIRED \<and> required_field_index it < PB_MAX_REQUIRED_FIELDS
      then let i = unat (drop_bit 5 (required_field_index it)) in
           seen[i := seen ! i OR push_bit (unat (required_field_index it AND 31)) 1]
      else seen)"

text \<open>A tag that no field of the table has: an extension, or data to skip.\<close>

definition decode_unknown ::
    "nat \<Rightarrow> 'u dec_env \<Rightarrow> 'u msg_decoder \<Rightarrow> 'u pb_istream \<Rightarrow> 32 word \<Rightarrow> 32 word \<Rightarrow> dec_locals \<Rightarrow> world \<Rightarrow>
     ('u dres \<times> dec_locals) option" where
  "decode_unknown depth env dec s t wire_type l w =
     (let skip = (\<lambda>s1 l1 w1. let (ok, s2) = pb_skip_field s1 wire_type in Some ((ok, s2, w1), l1)) in
      if t \<ge> extension_range_start l then
        let (found, it) = find_extension_field (l_iter l);
            l1 = l\<lparr>l_iter := it,
                   extension_range_start := if found then tag (iter_field it) else - 1\<rparr> in
        if t \<ge> extension_range_start l1 then
          case decode_extension depth env dec s t wire_type it w of
            None \<Rightarrow> None
          | Some (False, s1, w1) \<Rightarrow> Some ((False, s1, w1), l1)
          | Some (True, s1, w1) \<Rightarrow>
              if bytes_left s1 \<noteq> bytes_left s then Some ((True, s1, w1), l1) else skip s1 l1 w1
        else skip s l1 w
      else skip s l w)"

text \<open>A tag that the iterator has found a field for.\<close>

definition decode_known ::
    "nat \<Rightarrow> 'u dec_env \<Rightarrow> 'u msg_decoder \<Rightarrow> 'u pb_istream \<Rightarrow> 32 word \<Rightarrow> dec_locals \<Rightarrow> world \<Rightarrow>
     ('u dres \<times> dec_locals) option" where
  "decode_known depth env dec s wire_type l w =
     (let it = l_iter l;
          fixed = (PB_HTYPE (ftype (iter_field it)) = PB_HTYPE_REPEATED \<and> pSize it = At (pData it));
          other = (fixed_count_field l \<noteq> Some (it_pos it)) in
      if fixed \<and> other \<and> fixed_count_incomplete l w
      then Some (d_error ''wrong size for fixed count field'' s w, l)
      else
        let w1 = (if fixed \<and> other then w\<lparr>fixed_count_size := 0\<rparr> else w);
            it1 = (if fixed then it\<lparr>pSize := FixedCount\<rparr> else it);
            l1 = l\<lparr>fixed_count_field := if fixed then Some (it_pos it) else fixed_count_field l,
                   l_iter := it1, fields_seen := mark_seen it1 (fields_seen l)\<rparr> in
        map_option (\<lambda>(r, it2). (r, l1\<lparr>l_iter := it2\<rparr>)) (decode_field depth env dec s wire_type it1 w1))"

definition decode_one ::
    "nat \<Rightarrow> 'u dec_env \<Rightarrow> 'u msg_decoder \<Rightarrow> 'u pb_istream \<Rightarrow> 32 word \<Rightarrow> 32 word \<Rightarrow> dec_locals \<Rightarrow> world \<Rightarrow>
     ('u dres \<times> dec_locals) option" where
  "decode_one depth env dec s t wire_type l w =
     (let (found, it) = pb_field_iter_find (l_iter l) t; l1 = l\<lparr>l_iter := it\<rparr> in
      if found then decode_known depth env dec s wire_type l1 w
      else decode_unknown depth env dec s t wire_type l1 w)"

text \<open>
  The loop over the records of a message. Every record takes at least one byte, so as many rounds
  as there are bytes left are enough.
\<close>

fun decode_loop ::
    "nat \<Rightarrow> nat \<Rightarrow> 'u dec_env \<Rightarrow> 'u msg_decoder \<Rightarrow> 'u pb_istream \<Rightarrow> dec_locals \<Rightarrow> world \<Rightarrow>
     ('u dres \<times> dec_locals) option" where
  "decode_loop 0 depth env dec s l w = None"
| "decode_loop (Suc k) depth env dec s l w =
     (if bytes_left s = 0 then Some ((True, s, w), l)
      else
        case pb_decode_tag s of
          (None, eof, s1) \<Rightarrow> Some ((eof, s1, w), l)
        | (Some (wire_type, t), eof, s1) \<Rightarrow>
            (case decode_one depth env dec s1 t wire_type l w of
               None \<Rightarrow> None
             | Some ((ok, s2, w2), l2) \<Rightarrow>
                 if ok then decode_loop k depth env dec s2 l2 w2 else Some ((False, s2, w2), l2)))"

text \<open>The number of required fields, by moving the iterator to the last field.\<close>

fun seek_end :: "nat \<Rightarrow> pb_field_iter_t \<Rightarrow> 32 word \<times> pb_type_t \<times> pb_field_iter_t" where
  "seek_end 0 it = (required_field_index it, ftype (iter_field it), it)"
| "seek_end (Suc k) it =
     (let (more, it') = pb_field_iter_next it in
      if more then seek_end k it' else (required_field_index it, ftype (iter_field it), it'))"

definition req_field_count :: "pb_field_iter_t \<Rightarrow> 32 word" where
  "req_field_count it =
     (let (n, last_type, it') = seek_end (length (it_start it)) it;
          n1 = (if PB_HTYPE last_type = PB_HTYPE_REQUIRED \<and> tag (iter_field it') \<noteq> 0 then n + 1 else n)
      in if n1 > PB_MAX_REQUIRED_FIELDS then PB_MAX_REQUIRED_FIELDS else n1)"

definition required_missing :: "32 word \<Rightarrow> 32 word list \<Rightarrow> bool" where
  "required_missing n seen =
     (n > 0 \<and>
      ((\<exists>i \<in> set [0..<unat (drop_bit 5 n)]. seen ! i \<noteq> - 1) \<or>
       (n AND 31 \<noteq> 0 \<and> seen ! unat (drop_bit 5 n) \<noteq> drop_bit (unat (32 - (n AND 31))) (- 1))))"

definition decode_finish :: "'u pb_istream \<Rightarrow> dec_locals \<Rightarrow> world \<Rightarrow> 'u dres" where
  "decode_finish s l w =
     (if fixed_count_incomplete l w then d_error ''wrong size for fixed count field'' s w
      else if required_missing (req_field_count (l_iter l)) (fields_seen l)
      then d_error ''missing required field'' s w
      else (True, s, w))"

definition decode_message ::
    "nat \<Rightarrow> 'u dec_env \<Rightarrow> 'u msg_decoder \<Rightarrow> 'u pb_istream \<Rightarrow> pb_table \<Rightarrow> addr \<Rightarrow> world \<Rightarrow> 'u dres option" where
  "decode_message depth env dec s flds dest w =
     (let l = \<lparr>fields_seen = [0, 0], extension_range_start = 0,
               l_iter = snd (pb_field_iter_begin flds dest), fixed_count_field = None\<rparr> in
      map_option (\<lambda>((ok, s1, w1), l1).
          let (ok2, s2, w2) = (if ok then decode_finish s1 l1 w1 else (False, s1, w1))
          in (ok2, s2, w2\<lparr>fixed_count_size := fixed_count_size w\<rparr>))
        (decode_loop (Suc (unat (bytes_left s))) depth env dec s l (w\<lparr>fixed_count_size := 0\<rparr>)))"

primrec decode_msg :: "nat \<Rightarrow> 'u dec_env \<Rightarrow> 'u msg_decoder" where
  "decode_msg 0 env init s flds dest w = None"
| "decode_msg (Suc depth) env init s flds dest w =
     (if init then
        case Option.bind (pb_message_set_to_defaults (Suc depth) env flds dest w)
               (decode_message (Suc depth) env (decode_msg depth env) s flds dest) of
          None \<Rightarrow> None
        | Some (status, s1, w1) \<Rightarrow>
            if status then Some (True, s1, w1)
            else map_option (\<lambda>w2. (False, s1, w2)) (pb_release (Suc depth) env flds dest w1)
      else decode_message (Suc depth) env (decode_msg depth env) s flds dest w)"

definition pb_decode_noinit :: "nat \<Rightarrow> 'u dec_env \<Rightarrow> 'u pb_istream \<Rightarrow> pb_table \<Rightarrow> addr \<Rightarrow> world \<Rightarrow> 'u dres option" where
  "pb_decode_noinit depth env s flds dest w = decode_msg depth env False s flds dest w"

definition pb_decode :: "nat \<Rightarrow> 'u dec_env \<Rightarrow> 'u pb_istream \<Rightarrow> pb_table \<Rightarrow> addr \<Rightarrow> world \<Rightarrow> 'u dres option" where
  "pb_decode depth env s flds dest w = decode_msg depth env True s flds dest w"

text \<open>The two delimited variants; \<open>init\<close> tells them apart.\<close>

definition decode_delimited ::
    "bool \<Rightarrow> nat \<Rightarrow> 'u dec_env \<Rightarrow> 'u pb_istream \<Rightarrow> pb_table \<Rightarrow> addr \<Rightarrow> world \<Rightarrow> 'u dres option" where
  "decode_delimited init depth env s flds dest w =
     (case pb_make_string_substream s of
        (None, s1) \<Rightarrow> Some (False, s1, w)
      | (Some substream, s1) \<Rightarrow>
          map_option (\<lambda>(status, sub, w1).
              let (ok, s2) = pb_close_string_substream s1 sub in (ok \<and> status, s2, w1))
            (decode_msg depth env init substream flds dest w))"

definition pb_decode_delimited_noinit ::
    "nat \<Rightarrow> 'u dec_env \<Rightarrow> 'u pb_istream \<Rightarrow> pb_table \<Rightarrow> addr \<Rightarrow> world \<Rightarrow> 'u dres option" where
  "pb_decode_delimited_noinit depth env s flds dest w = decode_delimited False depth env s flds dest w"

definition pb_decode_delimited ::
    "nat \<Rightarrow> 'u dec_env \<Rightarrow> 'u pb_istream \<Rightarrow> pb_table \<Rightarrow> addr \<Rightarrow> world \<Rightarrow> 'u dres option" where
  "pb_decode_delimited depth env s flds dest w = decode_delimited True depth env s flds dest w"

definition pb_decode_nullterminated ::
    "nat \<Rightarrow> 'u dec_env \<Rightarrow> 'u pb_istream \<Rightarrow> pb_table \<Rightarrow> addr \<Rightarrow> world \<Rightarrow> 'u dres option" where
  "pb_decode_nullterminated depth env s flds dest w = pb_decode depth env s flds dest w"

end
