(* ===== verification/Pb_Decode_Stream.thy ===== *)
theory Pb_Decode_Stream
  imports Pb_Decode
begin

text \<open>
  The message decoder and its input stream: for every descriptor table, every structure and every
  input, decoding a message moves forward in the input and never past its end (\<open>decode_msg_step\<close>),
  provided the decode callbacks of the program do the same with the stream they are given.

  \<open>d_safe s r\<close> says that the result \<open>r\<close> of a decoder run on \<open>s\<close> leaves a stream that \<open>s\<close> can step to. The
  locale \<open>field_decoder\<close> is the contract of a decoder of field values; the ten entries of
  \<^verbatim>\<open>PB_DECODERS\<close> satisfy it, and the loops over packed arrays are safe for all of them at once.
\<close>

definition d_safe :: "'u pb_istream \<Rightarrow> 'u dres option \<Rightarrow> bool" where
  "d_safe s r \<longleftrightarrow> (case r of None \<Rightarrow> True | Some (ok, s', w') \<Rightarrow> i_step s s')"

definition callbacks_safe :: "'u dec_env \<Rightarrow> bool" where
  "callbacks_safe env \<longleftrightarrow>
     (\<forall>f s fld a w. istream_ok s \<longrightarrow> i_step s (fst (snd (cb_decode env f s fld a w)))) \<and>
     (\<forall>f s ext t wt w. istream_ok s \<longrightarrow> i_step s (fst (snd (ext_decode env f s ext t wt w))))"

lemma d_safe_None [simp]: "d_safe s None"
  by (simp add: d_safe_def)

lemma d_safe_Some: "d_safe s (Some r) \<longleftrightarrow> i_step s (fst (snd r))"
  by (simp add: d_safe_def case_prod_beta)

lemma if_d_safe: "d_safe s a \<Longrightarrow> d_safe s b \<Longrightarrow> d_safe s (if c then a else b)"
  by simp

lemma d_safe_trans: "i_step s s1 \<Longrightarrow> d_safe s1 r \<Longrightarrow> d_safe s r"
  by (auto simp: d_safe_def intro: i_step_trans split: option.splits)

lemma d_safe_bind:
  assumes "d_safe s r" "istream_ok s" "\<And>s' w'. istream_ok s' \<Longrightarrow> d_safe s' (k s' w')"
  shows "d_safe s (d_bind r k)"
proof (cases r)
  case None then show ?thesis by (simp add: d_bind_def)
next
  case (Some q)
  obtain ok s' w' where q: "q = (ok, s', w')" by (metis prod_cases3)
  have st: "i_step s s'" using assms(1) Some q by (simp add: d_safe_def)
  have "d_safe s' (k s' w')" using i_step_ok [OF assms(2) st] by (rule assms(3))
  then show ?thesis using Some q st d_safe_trans [OF st] by (simp add: d_bind_def d_safe_def)
qed

lemma d_safe_bind_world: "(\<And>w. d_safe s (k w)) \<Longrightarrow> d_safe s (Option.bind ow k)"
  by (cases ow) auto

lemma d_safe_map_world: "i_step s s1 \<Longrightarrow> d_safe s (map_option (\<lambda>w. (k, s1, w)) ow)"
  by (cases ow) (auto simp: d_safe_Some)

lemma i_step_d_error [simp]: "i_step s (fst (snd (d_error msg s1 w))) = i_step s s1"
  by (simp add: d_error_def)

lemma allocate_field_stream:
  "istream_ok s \<Longrightarrow> i_step s (fst (snd (allocate_field env s a n k w)))"
  by (auto simp: allocate_field_def Let_def i_step_refl split: option.splits prod.splits)

lemma read_into_step: "istream_ok s \<Longrightarrow> i_step s (fst (snd (read_into s a n w)))"
  using pb_read_step [of s True n] by (simp add: read_into_def case_prod_beta)

lemma read_into_then:
  "istream_ok s \<Longrightarrow> i_step s (fst (snd (case read_into s a n w of (status, s3, w2) \<Rightarrow> (status, s3, g w2))))"
  using read_into_step [of s a n w] by (simp add: case_prod_beta)

section \<open>The contract of field decoders\<close>

locale field_decoder =
  fixes dec :: "'u pb_istream \<Rightarrow> pb_field_t \<Rightarrow> addr \<Rightarrow> world \<Rightarrow> 'u dres"
  assumes dec_stream: "istream_ok s \<Longrightarrow> i_step s (fst (snd (dec s f a w)))"
begin

lemma dec_safe: "istream_ok s \<Longrightarrow> d_safe s (Some (dec s f a w))"
  by (simp add: d_safe_Some dec_stream)

lemma dec_bytes: "istream_ok s \<Longrightarrow> bytes_left (fst (snd (dec s f a w))) \<le> bytes_left s"
  using dec_stream by (simp add: i_step_def)

end

lemma store_checked_stream [simp]: "i_step s (fst (snd (store_checked sg s1 f a v w))) = i_step s s1"
  by (auto simp: store_checked_def split: option.splits)

lemma after_varint32:
  assumes "istream_ok s" "\<And>v s1. istream_ok s1 \<Longrightarrow> i_step s1 (fst (snd (k v s1)))"
  shows "i_step s (fst (snd (case pb_decode_varint32 s of (None, s1) \<Rightarrow> (False, s1, w) | (Some v, s1) \<Rightarrow> k v s1)))"
proof -
  obtain r s1 where r: "pb_decode_varint32 s = (r, s1)" by force
  have s1: "i_step s s1" "istream_ok s1" using varint32.dec_step [OF assms(1)] varint32.dec_ok [OF assms(1)] r by auto
  show ?thesis using s1 assms(2) i_step_trans [OF s1(1)] by (simp add: r split: option.splits)
qed

interpretation dec_bool: field_decoder "\<lambda>s f a w. pb_dec_bool s a w"
  by unfold_locales (unfold pb_dec_bool_def, rule after_varint32, auto simp: i_step_refl)

interpretation dec_varint: field_decoder pb_dec_varint
proof
  fix s :: "'a pb_istream" and f a w
  assume "istream_ok s"
  then have "i_step s (snd (pb_decode_varint s))" by (rule varint.dec_step)
  then show "i_step s (fst (snd (pb_dec_varint s f a w)))"
    by (auto simp: pb_dec_varint_def Let_def split: prod.splits option.splits)
qed

interpretation dec_uvarint: field_decoder pb_dec_uvarint
proof
  fix s :: "'a pb_istream" and f a w
  assume "istream_ok s"
  then have "i_step s (snd (pb_decode_varint s))" by (rule varint.dec_step)
  then show "i_step s (fst (snd (pb_dec_uvarint s f a w)))"
    by (auto simp: pb_dec_uvarint_def split: prod.splits option.splits)
qed

interpretation dec_svarint: field_decoder pb_dec_svarint
proof
  fix s :: "'a pb_istream" and f a w
  assume "istream_ok s"
  then have "i_step s (snd (pb_decode_svarint s))" by (rule svarint.dec_step)
  then show "i_step s (fst (snd (pb_dec_svarint s f a w)))"
    by (auto simp: pb_dec_svarint_def split: prod.splits option.splits)
qed

interpretation dec_fixed32: field_decoder "\<lambda>s f a w. pb_dec_fixed32 s a w"
proof
  fix s :: "'a pb_istream" and f a w
  assume "istream_ok s"
  then have "i_step s (snd (pb_decode_fixed32 s))" by (rule fixed32.dec_step)
  then show "i_step s (fst (snd (pb_dec_fixed32 s a w)))"
    by (auto simp: pb_dec_fixed32_def split: prod.splits option.splits)
qed

interpretation dec_fixed64: field_decoder "\<lambda>s f a w. pb_dec_fixed64 s a w"
proof
  fix s :: "'a pb_istream" and f a w
  assume "istream_ok s"
  then have "i_step s (snd (pb_decode_fixed64 s))" by (rule fixed64.dec_step)
  then show "i_step s (fst (snd (pb_dec_fixed64 s a w)))"
    by (auto simp: pb_dec_fixed64_def split: prod.splits option.splits)
qed

text \<open>Allocating and then filling a buffer.\<close>

lemma allocate_then:
  assumes "istream_ok s" "\<And>s2 w1. istream_ok s2 \<Longrightarrow> i_step s2 (fst (snd (k s2 w1)))"
  shows "i_step s (fst (snd (case allocate_field env s a n c w of
      (ok, s2, w1) \<Rightarrow> if \<not> ok then (False, s2, w1) else k s2 w1)))"
proof -
  obtain ok s2 w1 where al: "allocate_field env s a n c w = (ok, s2, w1)" by (metis prod_cases3)
  have s2: "i_step s s2" using allocate_field_stream [OF assms(1), of env a n c w] al by simp
  then show ?thesis
    using i_step_trans [OF s2 assms(2)] i_step_ok [OF assms(1) s2] by (simp add: al)
qed

interpretation dec_bytes: field_decoder "pb_dec_bytes env" for env
proof
  fix s :: "'a pb_istream" and f a w
  assume "istream_ok s"
  then show "i_step s (fst (snd (pb_dec_bytes env s f a w)))"
    unfolding pb_dec_bytes_def Let_def
    by (rule after_varint32) (auto simp: i_step_refl read_into_step intro!: allocate_then)
qed

interpretation dec_string: field_decoder "pb_dec_string env" for env
proof
  fix s :: "'a pb_istream" and f a w
  assume "istream_ok s"
  then show "i_step s (fst (snd (pb_dec_string env s f a w)))"
    unfolding pb_dec_string_def Let_def
    by (rule after_varint32)
      (auto simp: i_step_refl read_into_step read_into_then intro!: allocate_then)
qed

interpretation dec_fixed_length_bytes: field_decoder pb_dec_fixed_length_bytes
proof
  fix s :: "'a pb_istream" and f a w
  assume "istream_ok s"
  then show "i_step s (fst (snd (pb_dec_fixed_length_bytes s f a w)))"
    unfolding pb_dec_fixed_length_bytes_def
    by (rule after_varint32) (auto simp: i_step_refl read_into_step)
qed

text \<open>What the field decoders need from the message decoder.\<close>

definition msg_safe :: "'u msg_decoder \<Rightarrow> bool" where
  "msg_safe dec \<longleftrightarrow> (\<forall>init s fs a w. istream_ok s \<longrightarrow> d_safe s (dec init s fs a w))"

lemma close_substream_safe:
  assumes "istream_ok s" "pb_make_string_substream s = (Some sub, s1)" "i_step sub sub'"
  shows "i_step s (snd (pb_close_string_substream s1 sub'))"
  using close_substream_step [OF assms, of "i_errmsg s1"] by simp

lemma dec_submessage_safe:
  assumes "msg_safe dec" "istream_ok s"
  shows "d_safe s (pb_dec_submessage env dec s f a w)"
proof -
  obtain r s1 where mk: "pb_make_string_substream s = (r, s1)" by force
  have s1: "i_step s s1" using make_substream_step [OF assms(2)] mk by simp
  show ?thesis
  proof (cases r)
    case None
    then show ?thesis using mk s1 by (simp add: pb_dec_submessage_def d_safe_Some)
  next
    case (Some sub)
    have "d_safe sub (dec (PB_HTYPE (ftype f) = PB_HTYPE_REPEATED) sub (d_tables env (ptr f)) a w)"
      using assms make_substream_ok(1) [OF assms(2)] mk Some by (simp add: msg_safe_def)
    then show ?thesis
      using mk s1 Some close_substream_safe [OF assms(2)]
      by (auto simp: pb_dec_submessage_def d_safe_def Let_def case_prod_beta d_error_def split: option.splits)
  qed
qed

lemma PB_DECODERS_safe:
  assumes "msg_safe dec" "istream_ok s"
  shows "d_safe s (PB_DECODERS env dec lt s f a w)"
proof -
  have null: "d_safe s (Some (False, s, fault w))" using assms(2) by (simp add: d_safe_Some i_step_refl)
  show ?thesis
    unfolding PB_DECODERS_def
    by (intro if_d_safe null dec_submessage_safe dec_bool.dec_safe dec_varint.dec_safe dec_uvarint.dec_safe
        dec_svarint.dec_safe dec_fixed32.dec_safe dec_fixed64.dec_safe dec_bytes.dec_safe
        dec_string.dec_safe dec_fixed_length_bytes.dec_safe assms)
qed

section \<open>Fields\<close>

lemma packed_static_safe:
  assumes "\<And>s a w. istream_ok s \<Longrightarrow> d_safe s (func s (iter_field it) a w)"
  shows "istream_ok s \<Longrightarrow> d_safe s (packed_static_loop k func it s w)"
proof (induction k arbitrary: s w)
  case 0 then show ?case by simp
next
  case (Suc k)
  then show ?case
    using assms by (auto simp: Let_def d_safe_Some i_step_refl intro!: d_safe_bind)
qed

lemma substream_then_close:
  assumes ok: "istream_ok s" and mk: "pb_make_string_substream s = (Some sub, s1)"
    and safe: "d_safe sub r"
  shows "d_safe s (map_option (\<lambda>(status, sub', w1). let (k, s2) = pb_close_string_substream s1 sub'
      in (k \<and> status, s2, w1)) r)"
  using safe close_substream_safe [OF ok mk]
  by (auto simp: d_safe_def Let_def case_prod_beta split: option.splits)

lemma decode_static_safe:
  assumes dec: "msg_safe dec" and ok: "istream_ok s"
  shows "d_safe s (decode_static_field depth env dec s wt it w)"
proof -
  let ?f = "iter_field it" and ?func = "PB_DECODERS env dec (PB_LTYPE (ftype (iter_field it)))"
  have func: "istream_ok s' \<Longrightarrow> d_safe s' (?func s' ?f a w')" for s' a w'
    by (rule PB_DECODERS_safe [OF dec])
  have packed: "d_safe s (case pb_make_string_substream s of (None, s1) \<Rightarrow> Some (False, s1, w)
      | (Some substream, s1) \<Rightarrow>
          (case packed_static_loop (Suc (unat (bytes_left substream))) ?func it substream w of
             None \<Rightarrow> None
           | Some (status, sub, w1) \<Rightarrow>
               if bytes_left sub \<noteq> 0 then Some (d_error ''array overflow'' s1 w1)
               else let (k, s2) = pb_close_string_substream s1 sub in Some (k \<and> status, s2, w1)))"
  proof -
    obtain r s1 where mk: "pb_make_string_substream s = (r, s1)" by force
    have s1: "i_step s s1" using make_substream_step [OF ok] mk by simp
    show ?thesis
    proof (cases r)
      case None then show ?thesis using mk s1 by (simp add: d_safe_Some)
    next
      case (Some sub)
      have "d_safe sub (packed_static_loop (Suc (unat (bytes_left sub))) ?func it sub w)"
        using make_substream_ok(1) [OF ok] mk Some by (intro packed_static_safe func) auto
      then show ?thesis
        using mk s1 Some close_substream_safe [OF ok]
        by (auto simp: d_safe_def Let_def case_prod_beta d_error_def simp del: packed_static_loop.simps
            split: option.splits)
    qed
  qed
  show ?thesis
    using packed func [OF ok] ok unfolding decode_static_field_def Let_def
    by (auto simp: d_safe_Some i_step_refl intro!: d_safe_bind_world)
qed

lemma packed_pointer_safe:
  assumes func: "\<And>s a w. istream_ok s \<Longrightarrow> d_safe s (func s (iter_field it) a w)"
  shows "istream_ok s \<Longrightarrow> d_safe s (map_option fst (packed_pointer_loop k depth env func it al s w))"
proof (induction k arbitrary: al s w)
  case 0 then show ?case by simp
next
  case (Suc k)
  let ?f = "iter_field it"
  let ?more = "ucast (get_size w (pSize it)) + 1 > al"
  let ?al = "if ?more then grow_size ?f (bytes_left s) al else al"
  obtain ok s1 w1 where a: "(if ?more then allocate_field env s (pData it) (ucast (data_size ?f)) ?al w
      else (True, s, w)) = (ok, s1, w1)" by (metis prod_cases3)
  have s1: "i_step s s1"
    using allocate_field_stream [OF Suc.prems] i_step_refl [OF Suc.prems] a by (metis (no_types, lifting) fst_conv snd_conv)
  have s1ok: "istream_ok s1" by (rule i_step_ok [OF Suc.prems s1])
  let ?item = "array_item (peek_ptr w1 (pData it)) ?f (get_size w1 (pSize it))"
  have "d_safe s1 (Option.bind (initialize_pointer_field depth env ?item it w1) (func s1 ?f ?item))"
    by (intro d_safe_bind_world func s1ok)
  then have step: "i_step s s2 \<and> istream_ok s2"
    if "Option.bind (initialize_pointer_field depth env ?item it w1) (func s1 ?f ?item) = Some (ok2, s2, w2)" for ok2 s2 w2
    using that i_step_trans [OF s1] i_step_ok [OF Suc.prems] by (auto simp: d_safe_def)
  show ?case
    using Suc.prems s1 step Suc.IH a d_safe_trans
    by (fastforce simp: Let_def d_safe_Some i_step_refl split: option.splits)
qed

lemma allocate_safe: "istream_ok s \<Longrightarrow> d_safe s (Some (allocate_field env s a n c w))"
  by (simp add: d_safe_Some allocate_field_stream)

lemma decode_pointer_repeated_safe:
  assumes func: "\<And>s a w. istream_ok s \<Longrightarrow> d_safe s (func s (iter_field it) a w)" and ok: "istream_ok s"
  shows "d_safe s (decode_pointer_repeated depth env func s wt it w)"
proof -
  let ?f = "iter_field it" and ?n = "get_size w (pSize it)"
  obtain r s1 where mk: "pb_make_string_substream s = (r, s1)" by force
  have s1: "i_step s s1" using make_substream_step [OF ok] mk by simp
  have packed: "d_safe s (decode_pointer_repeated depth env func s wt it w)"
    if c: "wt = PB_WT_STRING \<and> PB_LTYPE (ftype ?f) \<le> PB_LTYPE_LAST_PACKABLE"
  proof (cases r)
    case None
    then show ?thesis using c mk s1 by (simp add: decode_pointer_repeated_def Let_def d_safe_Some)
  next
    case (Some sub)
    let ?loop = "packed_pointer_loop (Suc (unat (bytes_left sub))) depth env func it (ucast ?n) sub w"
    have "d_safe sub (map_option fst ?loop)"
      using make_substream_ok(1) [OF ok] mk Some by (intro packed_pointer_safe func) auto
    then have sub: "i_step sub sub'" if "?loop = Some ((st, sub', w1), msg)" for st sub' w1 msg
      using that by (simp add: d_safe_def)
    have closed: "i_step sub sub' \<Longrightarrow> i_step s (snd (pb_close_string_substream
        (case msg of None \<Rightarrow> s1 | Some e \<Rightarrow> s1\<lparr>i_errmsg := Some e\<rparr>) sub'))" for sub' msg
      using close_substream_step [OF ok, of sub s1 sub'] close_substream_safe [OF ok, of sub s1 sub'] mk Some
      by (simp split: option.splits)
    show ?thesis
      using c mk Some sub closed
      by (auto simp: decode_pointer_repeated_def Let_def d_safe_def case_prod_beta
          simp del: packed_pointer_loop.simps split: option.splits)
  qed
  have "d_safe s (d_bind (Some (allocate_field env s (pData it) (ucast (data_size ?f)) (ucast (?n + 1)) w)) (\<lambda>s1 w1.
      let n1 = get_size w1 (pSize it); item = array_item (peek_ptr w1 (pData it)) ?f n1 in
      Option.bind (initialize_pointer_field depth env item it (set_size (pSize it) (n1 + 1) w1)) (func s1 ?f item)))"
    unfolding Let_def by (intro d_safe_bind allocate_safe d_safe_bind_world func ok)
  then show ?thesis
    using packed ok unfolding decode_pointer_repeated_def Let_def
    by (auto simp: d_safe_Some i_step_refl)
qed

lemma decode_pointer_safe:
  assumes dec: "msg_safe dec" and ok: "istream_ok s"
  shows "d_safe s (decode_pointer_field depth env dec s wt it w)"
  unfolding decode_pointer_field_def Let_def
  by (intro if_d_safe decode_pointer_repeated_safe PB_DECODERS_safe dec ok d_safe_bind_world d_safe_bind allocate_safe)

lemma callback_loop_safe:
  assumes "\<And>s w. istream_ok s \<Longrightarrow> i_step s (fst (snd (cb s w)))"
  shows "istream_ok s \<Longrightarrow> d_safe s (callback_loop k cb s w)"
proof (induction k arbitrary: s w)
  case 0 then show ?case by simp
next
  case (Suc k)
  show ?case
    unfolding callback_loop.simps
    using Suc assms by (intro d_safe_bind) (auto simp: d_safe_Some i_step_refl)
qed

lemma decode_callback_safe:
  assumes cb: "callbacks_safe env" and ok: "istream_ok s"
  shows "d_safe s (decode_callback_field depth env s wt it w)"
proof -
  let ?cb = "\<lambda>sub w1. cb_decode env (cb_func (wmem w) (pData it)) sub (iter_field it) (cb_arg (pData it)) w1"
  have cb': "istream_ok s' \<Longrightarrow> i_step s' (fst (snd (?cb s' w')))" for s' w'
    using cb by (simp add: callbacks_safe_def)
  obtain r s1 where mk: "pb_make_string_substream s = (r, s1)" by force
  have s1: "i_step s s1" using make_substream_step [OF ok] mk by simp
  have str: "d_safe s (case pb_make_string_substream s of
          (None, s1) \<Rightarrow> Some (False, s1, w)
        | (Some substream, s1) \<Rightarrow>
            (case callback_loop (depth + Suc (unat (bytes_left substream))) ?cb substream w of
               None \<Rightarrow> None
             | Some (False, sub, w1) \<Rightarrow> Some (d_error ''callback failed'' s1 w1)
             | Some (True, sub, w1) \<Rightarrow>
                 let (ok, s2) = pb_close_string_substream s1 sub in Some (ok, s2, w1)))"
  proof (cases r)
    case None then show ?thesis using mk s1 by (simp add: d_safe_Some)
  next
    case (Some sub)
    have "d_safe sub (callback_loop (depth + Suc (unat (bytes_left sub))) ?cb sub w)"
      using make_substream_ok(1) [OF ok] mk Some by (intro callback_loop_safe cb') auto
    then show ?thesis
      using mk s1 Some close_substream_safe [OF ok, of sub s1]
      by (auto simp: d_safe_def Let_def case_prod_beta d_error_def simp del: callback_loop.simps add_Suc_right
          split: option.splits bool.splits)
  qed
  have raw: "i_step s (snd (read_raw_value s wt 10))" by (rule read_raw_value_step [OF ok])
  show ?thesis
    using str raw pb_skip_field_step [OF ok, of wt] unfolding decode_callback_field_def Let_def
    by (auto simp: d_safe_Some case_prod_beta split: option.splits prod.splits)
qed

lemma release_union_stream:
  assumes "istream_ok s" "pb_release_union_field depth env s it w = Some (k, s1, w1, it1)"
  shows "i_step s s1"
  using assms by (auto simp: pb_release_union_field_def Let_def i_step_refl split: if_splits prod.splits option.splits)

lemma decode_field_safe:
  assumes dec: "msg_safe dec" and cb: "callbacks_safe env" and ok: "istream_ok s"
  shows "d_safe s (map_option fst (decode_field depth env dec s wt it w))"
proof -
  let ?rel = "if PB_HTYPE (ftype (iter_field it)) = PB_HTYPE_ONEOF
            then pb_release_union_field depth env s it w else Some (True, s, w, it)"
  show ?thesis
  proof (cases ?rel)
    case None then show ?thesis by (simp add: decode_field_def)
  next
    case (Some q)
    obtain k s1 w1 it1 where q: "q = (k, s1, w1, it1)" by (metis prod_cases4)
    have s1: "i_step s s1"
      using Some q release_union_stream [OF ok] i_step_refl [OF ok] by (auto split: if_splits)
    note ok1 = i_step_ok [OF ok s1]
    have "d_safe s1 (if PB_ATYPE (ftype (iter_field it1)) = PB_ATYPE_STATIC then decode_static_field depth env dec s1 wt it1 w1
             else if PB_ATYPE (ftype (iter_field it1)) = PB_ATYPE_POINTER then decode_pointer_field depth env dec s1 wt it1 w1
             else if PB_ATYPE (ftype (iter_field it1)) = PB_ATYPE_CALLBACK then decode_callback_field depth env s1 wt it1 w1
             else Some (d_error ''invalid field type'' s1 w1))"
      by (intro if_d_safe decode_static_safe decode_pointer_safe decode_callback_safe dec cb ok1)
        (simp add: d_safe_Some i_step_refl ok1)
    from d_safe_trans [OF s1 this] show ?thesis
      unfolding decode_field_def Some q using s1
      by (cases k) (simp_all add: Let_def option.map_comp comp_def d_safe_Some option.map_ident)
  qed
qed

section \<open>Extensions and messages\<close>

lemma default_extension_safe:
  assumes "msg_safe dec" "callbacks_safe env" "istream_ok s"
  shows "d_safe s (default_extension_decoder depth env dec s ext t wt w)"
  using assms decode_field_safe [OF assms]
  by (simp add: default_extension_decoder_def Let_def d_safe_Some i_step_refl)

lemma extension_loop_safe:
  assumes "msg_safe dec" "callbacks_safe env"
  shows "istream_ok s \<Longrightarrow> d_safe s (decode_extension_loop k depth env dec s t wt pos ext w)"
proof (induction k arbitrary: s ext w)
  case 0 then show ?case by (simp add: d_safe_Some i_step_refl)
next
  case (Suc k)
  have ext: "d_safe s (Some (ext_decode env f s ext t wt w))" for f
    using assms(2) Suc.prems by (simp add: d_safe_Some callbacks_safe_def)
  have last: "d_safe s (Some (True, s, w))" using Suc.prems by (simp add: d_safe_Some i_step_refl)
  show ?case
    unfolding decode_extension_loop.simps Let_def
    by (intro if_d_safe d_safe_bind ext last default_extension_safe Suc assms)
qed

lemma decode_unknown_safe:
  assumes "msg_safe dec" "callbacks_safe env" "istream_ok s"
  shows "d_safe s (map_option fst (decode_unknown depth env dec s t wt l w))"
proof -
  have skip: "i_step s' (snd (pb_skip_field s' wt))" if "istream_ok s'" for s' :: "'a pb_istream"
    by (rule pb_skip_field_step [OF that])
  have "d_safe s (decode_extension depth env dec s t wt it w)" for it
    unfolding decode_extension_def by (rule extension_loop_safe [OF assms])
  then have ext: "i_step s s1" if "decode_extension depth env dec s t wt it w = Some (k, s1, w1)" for it k s1 w1
    using that by (metis d_safe_Some fst_conv snd_conv)
  have "i_step s s1 \<Longrightarrow> i_step s (snd (pb_skip_field s1 wt))" for s1
    using skip i_step_ok [OF assms(3)] i_step_trans by blast
  then show ?thesis
    using ext skip [OF assms(3)]
    by (auto simp: decode_unknown_def Let_def d_safe_def case_prod_beta split: option.splits bool.splits)
qed

lemma decode_known_safe:
  assumes "msg_safe dec" "callbacks_safe env" "istream_ok s"
  shows "d_safe s (map_option fst (decode_known depth env dec s wt l w))"
proof -
  have "map_option fst (map_option (\<lambda>(r, it2). (r, g it2)) x) = map_option fst x"
    for g :: "pb_field_iter_t \<Rightarrow> dec_locals" and x :: "('a dres \<times> pb_field_iter_t) option"
    by (cases x) auto
  then show ?thesis
    using assms decode_field_safe [OF assms]
    by (simp add: decode_known_def Let_def d_safe_Some i_step_refl)
qed

lemma decode_one_safe:
  assumes "msg_safe dec" "callbacks_safe env" "istream_ok s"
  shows "d_safe s (map_option fst (decode_one depth env dec s t wt l w))"
  using decode_known_safe [OF assms] decode_unknown_safe [OF assms]
  by (simp add: decode_one_def Let_def case_prod_beta)

lemma decode_loop_safe:
  assumes "msg_safe dec" "callbacks_safe env"
  shows "istream_ok s \<Longrightarrow> d_safe s (map_option fst (decode_loop k depth env dec s l w))"
proof (induction k arbitrary: s l w)
  case 0 then show ?case by simp
next
  case (Suc k)
  obtain r eof s1 where t: "pb_decode_tag s = (r, eof, s1)" by (metis prod_cases3)
  have s1: "i_step s s1" using pb_decode_tag_step [OF Suc.prems] t by simp
  note ok1 = i_step_ok [OF Suc.prems s1]
  have one: "i_step s s2 \<and> istream_ok s2"
    if "decode_one depth env dec s1 tg wt l w = Some ((k', s2, w2), l2)" for tg wt k' s2 w2 l2
    using decode_one_safe [OF assms ok1, of depth tg wt l w] that i_step_trans [OF s1] i_step_ok [OF Suc.prems]
    by (auto simp: d_safe_def)
  have rest: "d_safe s (map_option fst (decode_loop k depth env dec s2 l2 w2))"
    if "decode_one depth env dec s1 tg wt l w = Some ((k', s2, w2), l2)" for tg wt k' s2 w2 l2
    using one [OF that] Suc.IH d_safe_trans by blast
  show ?case
    using rest s1 one t i_step_refl [OF Suc.prems]
    by (auto simp: d_safe_Some split: option.splits)
qed

lemma decode_message_safe:
  assumes "msg_safe dec" "callbacks_safe env" "istream_ok s"
  shows "d_safe s (decode_message depth env dec s fs a w)"
proof -
  let ?l = "\<lparr>fields_seen = [0, 0], extension_range_start = 0,
      l_iter = snd (pb_field_iter_begin fs a), fixed_count_field = None\<rparr>"
  have "d_safe s (map_option fst (decode_loop (Suc (unat (bytes_left s))) depth env dec s ?l (w\<lparr>fixed_count_size := 0\<rparr>)))"
    by (rule decode_loop_safe [OF assms])
  moreover have "i_step s (fst (snd (decode_finish s1 l w))) = i_step s s1" for s1 l w
    by (simp add: decode_finish_def d_error_def)
  ultimately show ?thesis
    unfolding decode_message_def Let_def
    by (auto simp: d_safe_def case_prod_beta simp del: decode_loop.simps split: option.splits)
qed

lemma decode_msg_step:
  assumes "callbacks_safe env"
  shows "istream_ok s \<Longrightarrow> d_safe s (decode_msg depth env init s fs a w)"
proof (induction depth arbitrary: init s fs a w)
  case 0 then show ?case by simp
next
  case (Suc depth)
  have "msg_safe (decode_msg depth env)" using Suc.IH by (simp add: msg_safe_def)
  note m = decode_message_safe [OF this assms Suc.prems]
  have "d_safe s (Option.bind ow (decode_message (Suc depth) env (decode_msg depth env) s fs a))" for ow
    by (intro d_safe_bind_world m)
  then have "i_step s s1" if "Option.bind ow (decode_message (Suc depth) env (decode_msg depth env) s fs a)
      = Some (k, s1, w1)" for ow k s1 w1
    using that by (metis d_safe_Some fst_conv snd_conv)
  then show ?case
    using m by (auto simp: d_safe_Some d_safe_map_world split: option.splits)
qed

lemma decode_delimited_step:
  assumes "callbacks_safe env" "istream_ok s"
  shows "d_safe s (decode_delimited init depth env s fs a w)"
proof -
  obtain r s1 where mk: "pb_make_string_substream s = (r, s1)" by force
  have s1: "i_step s s1" using make_substream_step [OF assms(2)] mk by simp
  show ?thesis
  proof (cases r)
    case None then show ?thesis using mk s1 by (simp add: decode_delimited_def d_safe_Some)
  next
    case (Some sub)
    have "d_safe sub (decode_msg depth env init sub fs a w)"
      using make_substream_ok(1) [OF assms(2)] mk Some by (intro decode_msg_step assms) auto
    then show ?thesis
      using substream_then_close [OF assms(2)] mk Some by (simp add: decode_delimited_def)
  qed
qed

end
