(* ===== verification/Pb_Encode_Basic.thy ===== *)
theory Pb_Encode_Basic
  imports Pb_Common Pb_Wire "HOL-Library.Sublist"
begin

text \<open>
  Output streams and the scalar encoders of \<^verbatim>\<open>pb_encode.c\<close>: \<open>buf_write\<close>, \<open>pb_ostream_from_buffer\<close>,
  \<open>pb_write\<close>, the varint, zig-zag, fixed-width, tag and string encoders.

  The pair of members \<open>callback\<close> and \<open>state\<close> of \<^verbatim>\<open>pb_ostream_t\<close> is one value of type \<open>sink\<close>: no
  callback (a sizing stream), the buffer writer with the destination buffer and the write position,
  or a callback of the library's user with its own state. A write that would leave the destination
  buffer is undefined behaviour in C; the model turns the sink into \<open>Undefined\<close>, and the theorems show
  that this does not happen. Every encoder returns the C function's result and the updated stream.

  The lemmas give each encoder's output: \<open>emits f bs\<close> says that on every sizing or buffer stream with
  enough room \<open>f\<close> succeeds and writes exactly the bytes \<open>bs\<close>; \<open>keeps_ostream f\<close> says that on
  every stream \<open>f\<close> stays inside the buffer and never writes past \<open>max_size\<close>.
\<close>

section \<open>Output streams\<close>

datatype 'u sink =
    is_Sizing: Sizing
  | Buffer "byte list" nat
  | User "'u \<Rightarrow> byte list \<Rightarrow> bool \<times> 'u" 'u
  | Undefined

record 'u pb_ostream =
  sink :: "'u sink"
  max_size :: size_t
  bytes_written :: size_t
  o_errmsg :: "string option"

definition PB_OSTREAM_SIZING :: "'u pb_ostream" where
  "PB_OSTREAM_SIZING = \<lparr>sink = Sizing, max_size = 0, bytes_written = 0, o_errmsg = None\<rparr>"

definition o_error :: "string \<Rightarrow> 'u pb_ostream \<Rightarrow> bool \<times> 'u pb_ostream" where
  "o_error msg s = (False, s\<lparr>o_errmsg := PB_SET_ERROR (o_errmsg s) msg\<rparr>)"

text \<open>The idiom \<^verbatim>\<open>if (!f(stream, ...)) return false;\<close> followed by the rest of the function.\<close>

definition o_then :: "bool \<times> 's \<Rightarrow> ('s \<Rightarrow> bool \<times> 's) \<Rightarrow> bool \<times> 's" where
  "o_then r k = (if fst r then k (snd r) else (False, snd r))"

fun copy_loop :: "byte list \<Rightarrow> nat \<Rightarrow> byte list \<Rightarrow> byte list" where
  "copy_loop dest i [] = dest"
| "copy_loop dest i (b # bs) = copy_loop (dest[i := b]) (Suc i) bs"

definition buf_write :: "byte list \<Rightarrow> nat \<Rightarrow> byte list \<Rightarrow> bool \<times> 'u sink" where
  "buf_write dest pos bs =
     (if pos + length bs \<le> length dest
      then (True, Buffer (copy_loop dest pos bs) (pos + length bs))
      else (True, Undefined))"

definition pb_ostream_from_buffer :: "byte list \<Rightarrow> size_t \<Rightarrow> 'u pb_ostream" where
  "pb_ostream_from_buffer buf bufsize =
     \<lparr>sink = Buffer buf 0, max_size = bufsize, bytes_written = 0, o_errmsg = None\<rparr>"

definition run_callback :: "'u pb_ostream \<Rightarrow> byte list \<Rightarrow> bool \<times> 'u pb_ostream" where
  "run_callback s bs =
     (case sink s of
        Sizing \<Rightarrow> (False, s\<lparr>sink := Undefined\<rparr>)
      | Buffer dest pos \<Rightarrow> map_prod id (\<lambda>k. s\<lparr>sink := k\<rparr>) (buf_write dest pos bs)
      | User f u \<Rightarrow> map_prod id (\<lambda>u'. s\<lparr>sink := User f u'\<rparr>) (f u bs)
      | Undefined \<Rightarrow> (False, s))"

definition pb_write :: "'u pb_ostream \<Rightarrow> byte list \<Rightarrow> size_t \<Rightarrow> bool \<times> 'u pb_ostream" where
  "pb_write s buf count =
     (if count > 0 \<and> \<not> is_Sizing (sink s) then
        if bytes_written s + count < bytes_written s \<or> bytes_written s + count > max_size s
        then o_error ''stream full'' s
        else
          let (ok, s1) = run_callback s (take (unat count) buf) in
          if \<not> ok then o_error ''io error'' s1
          else (True, s1\<lparr>bytes_written := bytes_written s1 + count\<rparr>)
      else (True, s\<lparr>bytes_written := bytes_written s + count\<rparr>))"

section \<open>Scalar encoders\<close>

function varint_loop :: "64 word \<Rightarrow> byte list" where
  "varint_loop v = (if v = 0 then [] else ucast ((v AND 0x7F) OR 0x80) # varint_loop (drop_bit 7 v))"
  by pat_completeness auto
termination
proof (relation "measure unat")
  fix v :: "64 word"
  assume "v \<noteq> 0"
  then have "0 < unat v" by (simp add: unat_gt_0)
  then show "(drop_bit 7 v, v) \<in> measure unat"
    by (simp add: unat_drop7 del: unat_gt_0)
qed simp

declare varint_loop.simps [simp del]

definition pb_encode_varint :: "'u pb_ostream \<Rightarrow> 64 word \<Rightarrow> bool \<times> 'u pb_ostream" where
  "pb_encode_varint s value =
     (if value \<le> 0x7F then pb_write s [ucast value] 1
      else
        let buffer = varint_loop value; i = length buffer in
        pb_write s (buffer[i - 1 := buffer ! (i - 1) AND 0x7F]) (of_nat i))"

definition pb_encode_svarint :: "'u pb_ostream \<Rightarrow> 64 word \<Rightarrow> bool \<times> 'u pb_ostream" where
  "pb_encode_svarint s value =
     (let zigzagged = (if sint value < 0 then NOT (push_bit 1 value) else push_bit 1 value)
      in pb_encode_varint s zigzagged)"

definition fixed32_bytes :: "32 word \<Rightarrow> byte list" where
  "fixed32_bytes val =
     [ucast (val AND 0xFF), ucast (drop_bit 8 val AND 0xFF),
      ucast (drop_bit 16 val AND 0xFF), ucast (drop_bit 24 val AND 0xFF)]"

definition pb_encode_fixed32 :: "memory \<Rightarrow> 'u pb_ostream \<Rightarrow> addr \<Rightarrow> bool \<times> 'u pb_ostream" where
  "pb_encode_fixed32 m s value = pb_write s (fixed32_bytes (load_u32 m value)) 4"

definition fixed64_bytes :: "64 word \<Rightarrow> byte list" where
  "fixed64_bytes val =
     [ucast (val AND 0xFF), ucast (drop_bit 8 val AND 0xFF),
      ucast (drop_bit 16 val AND 0xFF), ucast (drop_bit 24 val AND 0xFF),
      ucast (drop_bit 32 val AND 0xFF), ucast (drop_bit 40 val AND 0xFF),
      ucast (drop_bit 48 val AND 0xFF), ucast (drop_bit 56 val AND 0xFF)]"

definition pb_encode_fixed64 :: "memory \<Rightarrow> 'u pb_ostream \<Rightarrow> addr \<Rightarrow> bool \<times> 'u pb_ostream" where
  "pb_encode_fixed64 m s value = pb_write s (fixed64_bytes (load_u64 m value)) 8"

definition pb_encode_tag :: "'u pb_ostream \<Rightarrow> 32 word \<Rightarrow> 32 word \<Rightarrow> bool \<times> 'u pb_ostream" where
  "pb_encode_tag s wiretype field_number =
     pb_encode_varint s (push_bit 3 (ucast field_number) OR ucast wiretype)"

definition wiretype_of :: "pb_type_t \<Rightarrow> 32 word option" where
  "wiretype_of lt =
     (if lt = PB_LTYPE_BOOL \<or> lt = PB_LTYPE_VARINT \<or> lt = PB_LTYPE_UVARINT \<or> lt = PB_LTYPE_SVARINT
      then Some PB_WT_VARINT
      else if lt = PB_LTYPE_FIXED32 then Some PB_WT_32BIT
      else if lt = PB_LTYPE_FIXED64 then Some PB_WT_64BIT
      else if lt = PB_LTYPE_BYTES \<or> lt = PB_LTYPE_STRING \<or> lt = PB_LTYPE_SUBMESSAGE \<or>
              lt = PB_LTYPE_FIXED_LENGTH_BYTES then Some PB_WT_STRING
      else None)"

definition pb_encode_tag_for_field :: "'u pb_ostream \<Rightarrow> pb_field_t \<Rightarrow> bool \<times> 'u pb_ostream" where
  "pb_encode_tag_for_field s field =
     (case wiretype_of (PB_LTYPE (ftype field)) of
        None \<Rightarrow> o_error ''invalid field type'' s
      | Some wiretype \<Rightarrow> pb_encode_tag s wiretype (tag field))"

definition pb_encode_string :: "'u pb_ostream \<Rightarrow> byte list \<Rightarrow> size_t \<Rightarrow> bool \<times> 'u pb_ostream" where
  "pb_encode_string s buffer sz =
     o_then (pb_encode_varint s sz) (\<lambda>s1. pb_write s1 buffer sz)"

section \<open>Specification: what an encoder writes\<close>

text \<open>
  A stream is clean when no error has been recorded and it is a sizing stream, or a buffer stream
  whose buffer has at least as much room left as \<open>max_size\<close> still allows.
\<close>

definition clean :: "'u pb_ostream \<Rightarrow> bool" where
  "clean s \<longleftrightarrow> o_errmsg s = None \<and>
     (case sink s of
        Sizing \<Rightarrow> True
      | Buffer dest pos \<Rightarrow> bytes_written s \<le> max_size s \<and>
          pos + (unat (max_size s) - unat (bytes_written s)) \<le> length dest
      | _ \<Rightarrow> False)"

definition fits :: "'u pb_ostream \<Rightarrow> nat \<Rightarrow> bool" where
  "fits s n \<longleftrightarrow> is_Sizing (sink s) \<or> unat (bytes_written s) + n \<le> unat (max_size s)"

definition put_bytes :: "byte list \<Rightarrow> 'u pb_ostream \<Rightarrow> 'u pb_ostream" where
  "put_bytes bs s =
     s\<lparr>bytes_written := bytes_written s + of_nat (length bs),
       sink := (case sink s of Buffer dest pos \<Rightarrow> Buffer (copy_loop dest pos bs) (pos + length bs)
                             | k \<Rightarrow> k)\<rparr>"

text \<open>
  \<open>produces f bs ok\<close>: on every clean stream that has room for \<open>bs\<close>, the encoder \<open>f\<close> writes exactly
  the bytes \<open>bs\<close> and returns \<open>ok\<close>; on a buffer stream that has not, \<open>f\<close> returns false and what it wrote
  is a prefix of \<open>bs\<close> that does fit. The byte counter of the stream must not wrap on the way.
\<close>

definition produces :: "('u pb_ostream \<Rightarrow> bool \<times> 'u pb_ostream) \<Rightarrow> byte list \<Rightarrow> bool \<Rightarrow> bool" where
  "produces f bs ok \<longleftrightarrow>
     (\<forall>s. clean s \<longrightarrow> unat (bytes_written s) + length bs < 2 ^ 64 \<longrightarrow>
       (if fits s (length bs)
        then \<exists>e. f s = (ok, (put_bytes bs s)\<lparr>o_errmsg := e\<rparr>) \<and> (ok \<longrightarrow> e = None)
        else \<exists>bs' e. prefix bs' bs \<and> fits s (length bs') \<and>
               f s = (False, (put_bytes bs' s)\<lparr>o_errmsg := e\<rparr>)))"

abbreviation emits :: "('u pb_ostream \<Rightarrow> bool \<times> 'u pb_ostream) \<Rightarrow> byte list \<Rightarrow> bool" where
  "emits f bs \<equiv> produces f bs True"

section \<open>Lemmas on streams\<close>

lemma o_then_True [simp]: "o_then (True, s) k = k s"
  by (simp add: o_then_def)

lemma o_then_False [simp]: "o_then (False, s) k = (False, s)"
  by (simp add: o_then_def)

lemma length_copy_loop [simp]: "length (copy_loop dest i bs) = length dest"
  by (induction bs arbitrary: dest i) auto

lemma copy_loop_eq:
  "i + length bs \<le> length dest \<Longrightarrow>
   copy_loop dest i bs = take i dest @ bs @ drop (i + length bs) dest"
proof (induction bs arbitrary: dest i)
  case Nil then show ?case by simp
next
  case (Cons b bs)
  have "copy_loop (dest[i := b]) (Suc i) bs =
      take (Suc i) (dest[i := b]) @ bs @ drop (Suc i + length bs) (dest[i := b])"
    using Cons.prems by (intro Cons.IH) simp
  with Cons.prems show ?case
    by (simp add: take_Suc_conv_app_nth take_update_cancel)
qed

lemma copy_loop_append: "copy_loop (copy_loop dest i as) (i + length as) bs = copy_loop dest i (as @ bs)"
  by (induction as arbitrary: dest i) (simp_all add: add_Suc [symmetric] del: add_Suc)

lemma put_bytes_append: "put_bytes bs (put_bytes as s) = put_bytes (as @ bs) s"
  by (auto simp: put_bytes_def copy_loop_append add.assoc split: sink.splits)

lemma put_bytes_Nil [simp]: "put_bytes [] s = s"
  by (cases s) (auto simp: put_bytes_def split: sink.splits)

lemma put_bytes_simps [simp]:
  "o_errmsg (put_bytes bs s) = o_errmsg s"
  "max_size (put_bytes bs s) = max_size s"
  "is_Sizing (sink (put_bytes bs s)) = is_Sizing (sink s)"
  by (auto simp: put_bytes_def split: sink.splits)

lemma unat_bytes_written_put:
  "unat (bytes_written s) + length bs < 2 ^ 64 \<Longrightarrow>
   unat (bytes_written (put_bytes bs s)) = unat (bytes_written s) + length bs"
  by (auto simp: put_bytes_def unat_word_ariths unat_of_nat)

lemma fits_put:
  "unat (bytes_written s) + length as < 2 ^ 64 \<Longrightarrow>
   fits (put_bytes as s) n = fits s (length as + n)"
  by (auto simp: fits_def unat_bytes_written_put)

lemma fits_mono: "fits s n \<Longrightarrow> k \<le> n \<Longrightarrow> fits s k"
  by (auto simp: fits_def)

lemma fits_0: "clean s \<Longrightarrow> fits s 0"
  by (auto simp: fits_def clean_def word_le_nat_alt split: sink.splits)

lemma clean_put:
  "clean s \<Longrightarrow> unat (bytes_written s) + length as < 2 ^ 64 \<Longrightarrow> fits s (length as) \<Longrightarrow>
   clean (put_bytes as s)"
  using unat_bytes_written_put [of s as]
  by (auto simp: clean_def fits_def word_le_nat_alt put_bytes_def split: sink.splits)

lemma errmsg_same [simp]: "o_errmsg s = e \<Longrightarrow> s\<lparr>o_errmsg := e\<rparr> = s"
  by (cases s) simp

lemma cleanD: "clean s \<Longrightarrow> o_errmsg s = None"
  by (simp add: clean_def)

section \<open>The calculus of outputs\<close>

lemma producesI:
  assumes "\<And>s. clean s \<Longrightarrow> unat (bytes_written s) + length bs < 2 ^ 64 \<Longrightarrow> fits s (length bs) \<Longrightarrow>
      \<exists>e. f s = (ok, (put_bytes bs s)\<lparr>o_errmsg := e\<rparr>) \<and> (ok \<longrightarrow> e = None)"
    and "\<And>s. clean s \<Longrightarrow> unat (bytes_written s) + length bs < 2 ^ 64 \<Longrightarrow> \<not> fits s (length bs) \<Longrightarrow>
      \<exists>bs' e. prefix bs' bs \<and> fits s (length bs') \<and> f s = (False, (put_bytes bs' s)\<lparr>o_errmsg := e\<rparr>)"
  shows "produces f bs ok"
  using assms by (simp add: produces_def)

lemma producesD:
  assumes "produces f bs ok" "clean s" "unat (bytes_written s) + length bs < 2 ^ 64"
  shows "if fits s (length bs)
     then \<exists>e. f s = (ok, (put_bytes bs s)\<lparr>o_errmsg := e\<rparr>) \<and> (ok \<longrightarrow> e = None)
     else \<exists>bs' e. prefix bs' bs \<and> fits s (length bs') \<and>
            f s = (False, (put_bytes bs' s)\<lparr>o_errmsg := e\<rparr>)"
  using assms unfolding produces_def by blast

lemma emitsD:
  assumes "emits f bs" "clean s" "unat (bytes_written s) + length bs < 2 ^ 64" "fits s (length bs)"
  shows "f s = (True, put_bytes bs s)"
proof -
  have "f s = (True, (put_bytes bs s)\<lparr>o_errmsg := None\<rparr>)"
    using producesD [OF assms(1-3)] assms(4) by simp
  then show ?thesis using cleanD [OF assms(2)] by simp
qed

lemma produces_fitsD:
  assumes "produces f bs ok" "clean s" "unat (bytes_written s) + length bs < 2 ^ 64" "fits s (length bs)"
  shows "\<exists>e. f s = (ok, (put_bytes bs s)\<lparr>o_errmsg := e\<rparr>)"
  using producesD [OF assms(1-3)] assms(4) by auto

lemma produces_fullD:
  assumes "produces f bs ok" "clean s" "unat (bytes_written s) + length bs < 2 ^ 64"
    "\<not> fits s (length bs)"
  obtains bs' e where "prefix bs' bs" "fits s (length bs')"
    "f s = (False, (put_bytes bs' s)\<lparr>o_errmsg := e\<rparr>)"
proof -
  have "\<exists>bs' e. prefix bs' bs \<and> fits s (length bs') \<and> f s = (False, (put_bytes bs' s)\<lparr>o_errmsg := e\<rparr>)"
    using producesD [OF assms(1-3)] assms(4) by simp
  then show thesis using that by blast
qed

lemma produces_return [intro, simp]: "emits (\<lambda>s. (True, s)) []"
  by (rule producesI) (auto simp: cleanD dest: fits_0)

lemma produces_error [intro, simp]: "produces (o_error msg) [] False"
  by (rule producesI) (auto simp: o_error_def dest: fits_0)

lemma produces_then:
  assumes f: "emits f as" and g: "produces g bs ok"
  shows "produces (\<lambda>s. o_then (f s) g) (as @ bs) ok"
proof (rule producesI)
  fix s :: "'a pb_ostream"
  assume c: "clean s" and b: "unat (bytes_written s) + length (as @ bs) < 2 ^ 64"
    and h: "fits s (length (as @ bs))"
  from h have fa: "fits s (length as)" by (rule fits_mono) simp
  then have "f s = (True, put_bytes as s)" using b by (intro emitsD [OF f c]) simp
  moreover have "clean (put_bytes as s)" using b fa by (intro clean_put c) auto
  moreover have "fits (put_bytes as s) (length bs)" using h b by (simp add: fits_put)
  moreover have "unat (bytes_written (put_bytes as s)) + length bs < 2 ^ 64"
    using b by (simp add: unat_bytes_written_put)
  ultimately show "\<exists>e. o_then (f s) g = (ok, (put_bytes (as @ bs) s)\<lparr>o_errmsg := e\<rparr>) \<and> (ok \<longrightarrow> e = None)"
    using producesD [OF g, of "put_bytes as s"] by (simp add: put_bytes_append)
next
  fix s :: "'a pb_ostream"
  assume c: "clean s" and b: "unat (bytes_written s) + length (as @ bs) < 2 ^ 64"
    and h: "\<not> fits s (length (as @ bs))"
  show "\<exists>bs' e. prefix bs' (as @ bs) \<and> fits s (length bs') \<and>
      o_then (f s) g = (False, (put_bytes bs' s)\<lparr>o_errmsg := e\<rparr>)"
  proof (cases "fits s (length as)")
    case True
    then have "f s = (True, put_bytes as s)" using b by (intro emitsD [OF f c]) simp_all
    moreover have "clean (put_bytes as s)" using b True by (intro clean_put c) auto
    moreover have nf: "\<not> fits (put_bytes as s) (length bs)" using h b by (simp add: fits_put)
    moreover have "unat (bytes_written (put_bytes as s)) + length bs < 2 ^ 64"
      using b by (simp add: unat_bytes_written_put)
    ultimately obtain bs' e where "prefix bs' bs" "fits (put_bytes as s) (length bs')"
      "o_then (f s) g = (False, (put_bytes bs' (put_bytes as s))\<lparr>o_errmsg := e\<rparr>)"
      using produces_fullD [OF g] by (metis o_then_True)
    then show ?thesis
      using b by (intro exI [of _ "as @ bs'"] exI [of _ e]) (auto simp: put_bytes_append fits_put)
  next
    case False
    have b': "unat (bytes_written s) + length as < 2 ^ 64" using b by simp
    obtain bs' e where "prefix bs' as" "fits s (length bs')"
        "f s = (False, (put_bytes bs' s)\<lparr>o_errmsg := e\<rparr>)"
      by (rule produces_fullD [OF f c b' False])
    then show ?thesis by (auto intro: prefix_prefix)
  qed
qed

lemma produces_then_fail:
  assumes f: "produces f as False"
  shows "produces (\<lambda>s. o_then (f s) g) as False"
proof (rule producesI)
  fix s :: "'a pb_ostream"
  assume "clean s" "unat (bytes_written s) + length as < 2 ^ 64" "fits s (length as)"
  from produces_fitsD [OF f this] show
    "\<exists>e. o_then (f s) g = (False, (put_bytes as s)\<lparr>o_errmsg := e\<rparr>) \<and> (False \<longrightarrow> e = None)"
    by auto
next
  fix s :: "'a pb_ostream"
  assume "clean s" "unat (bytes_written s) + length as < 2 ^ 64" "\<not> fits s (length as)"
  from produces_fullD [OF f this] show
    "\<exists>bs' e. prefix bs' as \<and> fits s (length bs') \<and> o_then (f s) g = (False, (put_bytes bs' s)\<lparr>o_errmsg := e\<rparr>)"
    by (metis o_then_False)
qed

lemma emits_pb_write:
  assumes "length buf = unat count"
  shows "emits (\<lambda>s. pb_write s buf count) buf"
proof -
  have cnt: "of_nat (length buf) = count" using assms by simp
  have sum: "unat (bytes_written s + count) = unat (bytes_written s) + length buf"
    if "unat (bytes_written s) + length buf < 2 ^ 64" for s :: "'a pb_ostream"
    using that assms by (auto simp: unat_word_ariths)
  show ?thesis
  proof (rule producesI, goal_cases)
    case (1 s)
    show ?case
    proof (cases "count > 0 \<and> \<not> is_Sizing (sink s)")
      case False
      then consider "count = 0" "buf = []" | "is_Sizing (sink s)"
        using assms by (auto simp: word_neq_0_conv [symmetric])
      then have "put_bytes buf s = s\<lparr>bytes_written := bytes_written s + count\<rparr>"
      proof cases
        case 1 then show ?thesis by simp
      next
        case 2 then show ?thesis by (auto simp: put_bytes_def cnt is_Sizing_def)
      qed
      with False 1 show ?thesis by (auto simp: pb_write_def cleanD)
    next
      case True
      with 1 obtain dest p where k: "sink s = Buffer dest p"
        by (auto simp: clean_def split: sink.splits)
      with 1 have "\<not> bytes_written s + count < bytes_written s" "\<not> bytes_written s + count > max_size s"
        "p + length buf \<le> length dest"
        using sum [of s] by (auto simp: clean_def fits_def word_less_nat_alt word_le_nat_alt)
      with True k 1 assms show ?thesis
        by (auto simp: pb_write_def run_callback_def buf_write_def put_bytes_def cnt cleanD)
    qed
  next
    case (2 s)
    then have "\<not> is_Sizing (sink s)" "bytes_written s + count > max_size s" "0 < length buf"
      using sum [of s] fits_0 [of s] by (auto simp: fits_def word_less_nat_alt intro: gr0I)
    moreover from this have "count > 0" using assms by (simp add: word_less_nat_alt)
    ultimately have "pb_write s buf count = (False, (put_bytes [] s)\<lparr>o_errmsg := Some ''stream full''\<rparr>)"
      using 2 by (simp add: pb_write_def o_error_def cleanD)
    with 2 show ?case using fits_0 [of s]
      by (intro exI [of _ "[]"] exI [of _ "Some ''stream full''"]) auto
  qed
qed

section \<open>What the scalar encoders write\<close>

lemma varint_loop_nonempty: "v \<noteq> 0 \<Longrightarrow> varint_loop v \<noteq> []"
  by (subst varint_loop.simps) simp

lemma varint_loop_wire:
  "v \<noteq> 0 \<Longrightarrow>
   (varint_loop v)[length (varint_loop v) - 1 := varint_loop v ! (length (varint_loop v) - 1) AND 0x7F]
   = varint_wire (unat v)"
proof (induction v rule: varint_loop.induct)
  case (1 v)
  let ?w = "drop_bit 7 v"
  have unf: "varint_loop v = of_nat (unat v mod 128 + 128) # varint_loop ?w"
    using "1.prems" by (subst varint_loop.simps) (simp only: low_byte_continuation if_False)
  show ?case
  proof (cases "?w = 0")
    case True
    then have small: "unat v < 128"
      by (metis div_eq_0_iff unat_0 unat_drop7 zero_neq_numeral)
    have "varint_loop ?w = []" using True by (simp add: varint_loop.simps)
    with unf small show ?thesis
      using keep_low7_of_continuation [OF small] by (simp add: varint_wire.simps)
  next
    case False
    then have big: "\<not> unat v < 128"
      using unat_drop7 [of v] by (metis div_less unat_eq_zero)
    from False have ne: "varint_loop ?w \<noteq> []" by (rule varint_loop_nonempty)
    then obtain k where k: "length (varint_loop ?w) = Suc k" by (cases "varint_loop ?w") auto
    have IH: "(varint_loop ?w)[length (varint_loop ?w) - 1 := varint_loop ?w ! (length (varint_loop ?w) - 1) AND 0x7F]
        = varint_wire (unat ?w)"
      using "1.IH" "1.prems" False by blast
    show ?thesis
      using IH big by (subst varint_wire.simps) (simp add: unf k unat_drop7)
  qed
qed

lemma pb_encode_varint_eq:
  "pb_encode_varint s v = pb_write s (varint_wire (unat v)) (of_nat (length (varint_wire (unat v))))"
proof (cases "v \<le> 0x7F")
  case True
  then have "unat v < 128" by (simp add: word_le_nat_alt)
  then have "varint_wire (unat v) = [ucast v]"
    by (subst varint_wire.simps) (simp only: if_True of_nat_unat)
  with True show ?thesis by (simp add: pb_encode_varint_def)
next
  case False
  then have "v \<noteq> 0" by auto
  from varint_loop_wire [OF this] False show ?thesis
    unfolding pb_encode_varint_def Let_def by (metis length_list_update)
qed

lemma emits_varint: "emits (\<lambda>s. pb_encode_varint s v) (varint_wire (unat v))"
proof -
  have "length (varint_wire (unat v)) = unat (of_nat (length (varint_wire (unat v))) :: 64 word)"
    using length_varint_wire_64 [of v] by (simp add: unat_of_nat)
  from emits_pb_write [OF this] show ?thesis by (simp add: pb_encode_varint_eq)
qed

lemma emits_svarint: "emits (\<lambda>s. pb_encode_svarint s v) (varint_wire (zigzag (sint v)))"
  unfolding pb_encode_svarint_def Let_def zigzag_word [symmetric] by (rule emits_varint)

lemma fixed32_bytes_eq: "fixed32_bytes v = le_of_word 4 v"
  by (simp add: fixed32_bytes_def numeral_eq_Suc ucast_and_FF)

lemma fixed64_bytes_eq: "fixed64_bytes v = le_of_word 8 v"
  by (simp add: fixed64_bytes_def numeral_eq_Suc ucast_and_FF)

lemma emits_fixed32: "emits (\<lambda>s. pb_encode_fixed32 m s a) (le_of_word 4 (load_u32 m a))"
  unfolding pb_encode_fixed32_def fixed32_bytes_eq by (rule emits_pb_write) simp

lemma emits_fixed64: "emits (\<lambda>s. pb_encode_fixed64 m s a) (le_of_word 8 (load_u64 m a))"
  unfolding pb_encode_fixed64_def fixed64_bytes_eq by (rule emits_pb_write) simp

lemma unat_tag_word:
  "unat wt < 8 \<Longrightarrow> unat (push_bit 3 (ucast n) OR ucast wt :: 64 word) = unat n * 8 + unat wt"
  for n wt :: "32 word"
proof -
  assume wt: "unat wt < 8"
  have n: "unat n < 2 ^ 32" using unsigned_less [of n] by simp
  have "push_bit 3 (ucast n) AND ucast wt = (0 :: 64 word)"
  proof (rule bit_word_eqI)
    fix i assume "i < LENGTH(64)"
    show "bit (push_bit 3 (ucast n) AND ucast wt :: 64 word) i = bit (0 :: 64 word) i"
    proof (cases "i < 3")
      case True then show ?thesis by (simp add: bit_simps)
    next
      case False
      have "wt = take_bit 3 wt"
        using wt by (intro unat_word_inject) (subst unsigned_take_bit_eq, simp add: take_bit_eq_mod)
      then have "\<not> bit wt i" using False by (metis bit_take_bit_iff)
      then show ?thesis by (simp add: bit_simps)
    qed
  qed
  then have "push_bit 3 (ucast n) OR ucast wt = push_bit 3 (ucast n) + (ucast wt :: 64 word)"
    by (rule disjunctive_add_eq_or [symmetric])
  moreover have "unat (push_bit 3 (ucast n) :: 64 word) = unat n * 8"
    using n by (simp add: push_bit_eq_mult unat_word_ariths unsigned_ucast_eq take_bit_eq_mod mult.commute)
  ultimately show ?thesis
    using n wt by (simp add: unat_word_ariths unsigned_ucast_eq take_bit_eq_mod)
qed

lemma emits_tag: "unat wt < 8 \<Longrightarrow> emits (\<lambda>s. pb_encode_tag s wt n) (varint_wire (unat n * 8 + unat wt))"
  unfolding pb_encode_tag_def using emits_varint by (metis unat_tag_word)

lemma emits_string:
  assumes "length buf = unat sz"
  shows "emits (\<lambda>s. pb_encode_string s buf sz) (varint_wire (length buf) @ buf)"
  unfolding pb_encode_string_def assms
  by (intro produces_then emits_varint emits_pb_write assms)

end
