(* ===== verification/Pb_Encode.thy ===== *)
theory Pb_Encode
  imports Pb_Encode_Basic
begin

text \<open>
  The message encoder of \<^verbatim>\<open>pb_encode.c\<close>: arrays, fields, extensions, submessages and whole messages,
  read from the structures in memory as the descriptor tables describe them.

  What the C code reaches through pointers that are not data is an environment: the memory, the
  descriptor tables by address, the encode callbacks of the program and the encode functions of
  extension types by function address. The encoder only reads memory. The mutual recursion of the C
  functions goes through \<open>pb_encode\<close>; the other functions take it as the argument \<open>enc\<close>, and
  \<open>pb_encode\<close> itself has a nesting depth. The result is \<open>None\<close> when the depth does not
  suffice, otherwise the returned flag and the stream. A call through a null function pointer and the
  read of a \<^verbatim>\<open>pb_size_t\<close> from a \<^verbatim>\<open>bool\<close> turn the sink into \<open>Undefined\<close>.
\<close>

section \<open>Environment and sequencing\<close>

record 'u enc_env =
  mem :: memory
  tables :: pb_tables
  cb_encode :: "addr \<Rightarrow> 'u pb_ostream \<Rightarrow> pb_field_t \<Rightarrow> addr \<Rightarrow> bool \<times> 'u pb_ostream"
  ext_encode :: "addr \<Rightarrow> 'u pb_ostream \<Rightarrow> addr \<Rightarrow> bool \<times> 'u pb_ostream"

type_synonym 'u oresult = "(bool \<times> 'u pb_ostream) option"
type_synonym 'u encoder = "'u pb_ostream \<Rightarrow> pb_field_t \<Rightarrow> addr \<Rightarrow> 'u oresult"
type_synonym 'u msg_encoder = "'u pb_ostream \<Rightarrow> pb_table \<Rightarrow> addr \<Rightarrow> 'u oresult"

text \<open>\<^verbatim>\<open>if (!f(stream, ...)) return false;\<close> where \<open>f\<close> may run out of depth.\<close>

definition o_bind :: "'u oresult \<Rightarrow> ('u pb_ostream \<Rightarrow> 'u oresult) \<Rightarrow> 'u oresult" where
  "o_bind r k = (case r of None \<Rightarrow> None | Some (ok, s) \<Rightarrow> if ok then k s else Some (False, s))"

definition o_undefined :: "'u pb_ostream \<Rightarrow> bool \<times> 'u pb_ostream" where
  "o_undefined s = (False, s\<lparr>sink := Undefined\<rparr>)"

section \<open>Field encoders\<close>

definition safe_read_bool :: "memory \<Rightarrow> addr \<Rightarrow> bool" where
  "safe_read_bool m p = (load_u8 m p \<noteq> 0)"

definition pb_enc_bool :: "memory \<Rightarrow> 'u pb_ostream \<Rightarrow> addr \<Rightarrow> bool \<times> 'u pb_ostream" where
  "pb_enc_bool m s src = pb_encode_varint s (if safe_read_bool m src then 1 else 0)"

text \<open>The signed and the unsigned integer of \<^verbatim>\<open>data_size\<close> bytes at \<open>src\<close>, widened to 64 bits.\<close>

definition read_signed :: "memory \<Rightarrow> pb_size_t \<Rightarrow> addr \<Rightarrow> 64 word option" where
  "read_signed m dsize src =
     (if dsize = 1 then Some (scast (load_u8 m src))
      else if dsize = 2 then Some (scast (load_u16 m src))
      else if dsize = 4 then Some (scast (load_u32 m src))
      else if dsize = 8 then Some (load_u64 m src)
      else None)"

definition read_unsigned :: "memory \<Rightarrow> pb_size_t \<Rightarrow> addr \<Rightarrow> 64 word option" where
  "read_unsigned m dsize src =
     (if dsize = 1 then Some (ucast (load_u8 m src))
      else if dsize = 2 then Some (ucast (load_u16 m src))
      else if dsize = 4 then Some (ucast (load_u32 m src))
      else if dsize = 8 then Some (load_u64 m src)
      else None)"

definition pb_enc_varint :: "memory \<Rightarrow> 'u pb_ostream \<Rightarrow> pb_field_t \<Rightarrow> addr \<Rightarrow> bool \<times> 'u pb_ostream" where
  "pb_enc_varint m s field src =
     (case read_signed m (data_size field) src of
        None \<Rightarrow> o_error ''invalid data_size'' s
      | Some value \<Rightarrow> pb_encode_varint s value)"

definition pb_enc_uvarint :: "memory \<Rightarrow> 'u pb_ostream \<Rightarrow> pb_field_t \<Rightarrow> addr \<Rightarrow> bool \<times> 'u pb_ostream" where
  "pb_enc_uvarint m s field src =
     (case read_unsigned m (data_size field) src of
        None \<Rightarrow> o_error ''invalid data_size'' s
      | Some value \<Rightarrow> pb_encode_varint s value)"

definition pb_enc_svarint :: "memory \<Rightarrow> 'u pb_ostream \<Rightarrow> pb_field_t \<Rightarrow> addr \<Rightarrow> bool \<times> 'u pb_ostream" where
  "pb_enc_svarint m s field src =
     (case read_signed m (data_size field) src of
        None \<Rightarrow> o_error ''invalid data_size'' s
      | Some value \<Rightarrow> pb_encode_svarint s value)"

definition pb_enc_fixed64 :: "memory \<Rightarrow> 'u pb_ostream \<Rightarrow> addr \<Rightarrow> bool \<times> 'u pb_ostream" where
  "pb_enc_fixed64 m s src = pb_encode_fixed64 m s src"

definition pb_enc_fixed32 :: "memory \<Rightarrow> 'u pb_ostream \<Rightarrow> addr \<Rightarrow> bool \<times> 'u pb_ostream" where
  "pb_enc_fixed32 m s src = pb_encode_fixed32 m s src"

definition pb_enc_bytes :: "memory \<Rightarrow> 'u pb_ostream \<Rightarrow> pb_field_t \<Rightarrow> addr \<Rightarrow> bool \<times> 'u pb_ostream" where
  "pb_enc_bytes m s field src =
     (if src = NULL then pb_encode_string s [] 0
      else
        let sz = ucast (bytes_array_size m src) :: size_t;
            allocsize = PB_BYTES_ARRAY_T_ALLOCSIZE sz in
        if allocsize < sz \<or>
           (PB_ATYPE (ftype field) = PB_ATYPE_STATIC \<and> allocsize > ucast (data_size field))
        then o_error ''bytes size exceeded'' s
        else pb_encode_string s (load_bytes m (bytes_array_bytes src) (unat sz)) sz)"

text \<open>The loop that measures a C string, at most \<open>limit\<close> characters.\<close>

function strnlen_loop :: "memory \<Rightarrow> addr \<Rightarrow> size_t \<Rightarrow> size_t \<Rightarrow> size_t" where
  "strnlen_loop m p sz limit =
     (if sz < limit \<and> m p \<noteq> 0 then strnlen_loop m (p + 1) (sz + 1) limit else sz)"
  by pat_completeness auto
termination
proof (relation "measure (\<lambda>(m, p, sz, limit). unat limit - unat sz)", goal_cases)
  case (2 m p sz limit)
  then have lt: "unat sz < unat limit" by (simp add: word_less_nat_alt)
  moreover have "unat limit < 2 ^ 64" using unsigned_less [of limit] by simp
  with lt have "unat (sz + 1) = unat sz + 1"
    by (simp add: unat_word_ariths)
  ultimately show ?case by simp
qed simp

declare strnlen_loop.simps [simp del]

definition pb_enc_string :: "memory \<Rightarrow> 'u pb_ostream \<Rightarrow> pb_field_t \<Rightarrow> addr \<Rightarrow> bool \<times> 'u pb_ostream" where
  "pb_enc_string m s field src =
     (let limit = (if PB_ATYPE (ftype field) = PB_ATYPE_POINTER then - 1 else ucast (data_size field));
          sz = (if src = NULL then 0 else strnlen_loop m src 0 limit)
      in pb_encode_string s (load_bytes m src (unat sz)) sz)"

definition pb_enc_fixed_length_bytes ::
    "memory \<Rightarrow> 'u pb_ostream \<Rightarrow> pb_field_t \<Rightarrow> addr \<Rightarrow> bool \<times> 'u pb_ostream" where
  "pb_enc_fixed_length_bytes m s field src =
     pb_encode_string s (load_bytes m src (unat (data_size field))) (ucast (data_size field))"

section \<open>Submessages\<close>

definition pb_encode_submessage ::
    "'u msg_encoder \<Rightarrow> 'u pb_ostream \<Rightarrow> pb_table \<Rightarrow> addr \<Rightarrow> 'u oresult" where
  "pb_encode_submessage enc s flds src_struct =
     (case enc PB_OSTREAM_SIZING flds src_struct of
        None \<Rightarrow> None
      | Some (False, substream) \<Rightarrow> Some (False, s\<lparr>o_errmsg := o_errmsg substream\<rparr>)
      | Some (True, substream) \<Rightarrow>
          let sz = bytes_written substream in
          o_bind (Some (pb_encode_varint s sz)) (\<lambda>s1.
            if is_Sizing (sink s1) then Some (pb_write s1 [] sz)
            else if bytes_written s1 + sz > max_size s1 then Some (o_error ''stream full'' s1)
            else
              case enc \<lparr>sink = sink s1, max_size = sz, bytes_written = 0, o_errmsg = None\<rparr> flds src_struct of
                None \<Rightarrow> None
              | Some (status, sub) \<Rightarrow>
                  let s2 = s1\<lparr>bytes_written := bytes_written s1 + bytes_written sub,
                              sink := sink sub, o_errmsg := o_errmsg sub\<rparr> in
                  if bytes_written sub \<noteq> sz then Some (o_error ''submsg size changed'' s2)
                  else Some (status, s2)))"

definition pb_enc_submessage :: "'u enc_env \<Rightarrow> 'u msg_encoder \<Rightarrow> 'u encoder" where
  "pb_enc_submessage env enc s field src =
     (if ptr field = NULL then Some (o_error ''invalid field descriptor'' s)
      else pb_encode_submessage enc s (tables env (ptr field)) src)"

definition PB_ENCODERS :: "'u enc_env \<Rightarrow> 'u msg_encoder \<Rightarrow> pb_type_t \<Rightarrow> 'u encoder" where
  "PB_ENCODERS env enc lt s field src =
     (if lt = PB_LTYPE_BOOL then Some (pb_enc_bool (mem env) s src)
      else if lt = PB_LTYPE_VARINT then Some (pb_enc_varint (mem env) s field src)
      else if lt = PB_LTYPE_UVARINT then Some (pb_enc_uvarint (mem env) s field src)
      else if lt = PB_LTYPE_SVARINT then Some (pb_enc_svarint (mem env) s field src)
      else if lt = PB_LTYPE_FIXED32 then Some (pb_enc_fixed32 (mem env) s src)
      else if lt = PB_LTYPE_FIXED64 then Some (pb_enc_fixed64 (mem env) s src)
      else if lt = PB_LTYPE_BYTES then Some (pb_enc_bytes (mem env) s field src)
      else if lt = PB_LTYPE_STRING then Some (pb_enc_string (mem env) s field src)
      else if lt = PB_LTYPE_SUBMESSAGE then pb_enc_submessage env enc s field src
      else if lt = PB_LTYPE_FIXED_LENGTH_BYTES then Some (pb_enc_fixed_length_bytes (mem env) s field src)
      else Some (o_undefined s))"

section \<open>Arrays and fields\<close>

text \<open>The loops of \<open>encode_array\<close>: \<open>item\<close> encodes the element at an address.\<close>

fun array_loop :: "nat \<Rightarrow> ('u pb_ostream \<Rightarrow> addr \<Rightarrow> 'u oresult) \<Rightarrow> int \<Rightarrow> addr \<Rightarrow> 'u pb_ostream \<Rightarrow> 'u oresult" where
  "array_loop 0 item step p s = Some (True, s)"
| "array_loop (Suc k) item step p s = o_bind (item s p) (array_loop k item step (p + step))"

text \<open>
  The total size of a packed array, \<open>Some None\<close> when an element cannot be encoded.
\<close>

definition packed_array_size :: "'u encoder \<Rightarrow> pb_field_t \<Rightarrow> addr \<Rightarrow> size_t \<Rightarrow> size_t option option" where
  "packed_array_size func field data count =
     (if PB_LTYPE (ftype field) = PB_LTYPE_FIXED32 then Some (Some (4 * count))
      else if PB_LTYPE (ftype field) = PB_LTYPE_FIXED64 then Some (Some (8 * count))
      else map_option (\<lambda>(ok, z). if ok then Some (bytes_written z) else None)
             (array_loop (unat count) (\<lambda>z p. func z field p) (uint (data_size field)) data PB_OSTREAM_SIZING))"

definition encode_array ::
    "'u enc_env \<Rightarrow> 'u encoder \<Rightarrow> 'u pb_ostream \<Rightarrow> pb_field_t \<Rightarrow> addr \<Rightarrow> size_t \<Rightarrow> 'u oresult" where
  "encode_array env func s field data count =
     (let lt = PB_LTYPE (ftype field); step = uint (data_size field); n = unat count in
      if count = 0 then Some (True, s)
      else if PB_ATYPE (ftype field) \<noteq> PB_ATYPE_POINTER \<and> count > ucast (array_size field)
      then Some (o_error ''array max size exceeded'' s)
      else if lt \<le> PB_LTYPE_LAST_PACKABLE then
        o_bind (Some (pb_encode_tag s PB_WT_STRING (tag field))) (\<lambda>s1.
          case packed_array_size func field data count of
            None \<Rightarrow> None
          | Some None \<Rightarrow> Some (False, s1)
          | Some (Some sz) \<Rightarrow>
              o_bind (Some (pb_encode_varint s1 sz)) (\<lambda>s2.
                if is_Sizing (sink s2) then Some (pb_write s2 [] sz)
                else array_loop n (\<lambda>z p. func z field p) step data s2))
      else
        array_loop n (\<lambda>z p. o_bind (Some (pb_encode_tag_for_field z field)) (\<lambda>z1.
            if PB_ATYPE (ftype field) = PB_ATYPE_POINTER \<and> (lt = PB_LTYPE_STRING \<or> lt = PB_LTYPE_BYTES)
            then func z1 field (load_ptr (mem env) p)
            else func z1 field p)) step data s)"

text \<open>The do-while loops over the fields of a message.\<close>

fun check_loop :: "nat \<Rightarrow> (pb_field_t \<Rightarrow> addr \<Rightarrow> bool option) \<Rightarrow> pb_field_iter_t \<Rightarrow> bool option" where
  "check_loop 0 chk it = None"
| "check_loop (Suc k) chk it =
     (case chk (iter_field it) (pData it) of
        None \<Rightarrow> None
      | Some False \<Rightarrow> Some False
      | Some True \<Rightarrow> (let (more, it') = pb_field_iter_next it in
                      if more then check_loop k chk it' else Some True))"

text \<open>
  \<open>pb_check_proto3_default_value\<close>, with a nesting depth for the submessages. The count of a oneof
  field whose \<^verbatim>\<open>size_offset\<close> is 0 is read at the data itself, as the C code does.
\<close>

definition proto3_singular_default ::
    "(pb_table \<Rightarrow> addr \<Rightarrow> bool option) \<Rightarrow> memory \<Rightarrow> pb_tables \<Rightarrow> pb_field_t \<Rightarrow> addr \<Rightarrow> bool option" where
  "proto3_singular_default sub m tbls field data =
     (let ty = ftype field; zeros = (\<forall>b \<in> set (load_bytes m data (unat (data_size field))). b = 0) in
      if PB_ATYPE ty = PB_ATYPE_STATIC \<and> PB_LTYPE ty = PB_LTYPE_BYTES
      then Some (bytes_array_size m data = 0)
      else if PB_ATYPE ty = PB_ATYPE_STATIC \<and> PB_LTYPE ty = PB_LTYPE_STRING
      then Some (m data = 0)
      else if PB_ATYPE ty = PB_ATYPE_STATIC \<and> PB_LTYPE ty = PB_LTYPE_FIXED_LENGTH_BYTES
      then Some (data_size field = 0)
      else if PB_ATYPE ty = PB_ATYPE_STATIC \<and> PB_LTYPE ty = PB_LTYPE_SUBMESSAGE
      then sub (tbls (ptr field)) data
      else if PB_ATYPE ty = PB_ATYPE_POINTER \<and> PB_LTYPE ty > PB_LTYPE_LAST_PACKABLE
      then Some (load_ptr m data = NULL)
      else Some zeros)"

primrec pb_check_proto3_default_value ::
    "nat \<Rightarrow> memory \<Rightarrow> pb_tables \<Rightarrow> pb_field_t \<Rightarrow> addr \<Rightarrow> bool option" where
  "pb_check_proto3_default_value 0 m tbls field data = None"
| "pb_check_proto3_default_value (Suc depth) m tbls field data =
     (let ty = ftype field;
          psize = data + sint (size_offset field);
          singular = proto3_singular_default
            (\<lambda>fs d. let (nonempty, it) = pb_field_iter_begin fs d in
                    if nonempty
                    then check_loop (Suc (length fs)) (pb_check_proto3_default_value depth m tbls) it
                    else Some True)
            m tbls field data in
      if PB_HTYPE ty = PB_HTYPE_REQUIRED then Some False
      else if PB_HTYPE ty = PB_HTYPE_REPEATED then
        if size_offset field \<noteq> 0 then Some (load_u32 m psize = 0)
        else if PB_ATYPE ty = PB_ATYPE_STATIC then Some False
        else singular
      else if PB_HTYPE ty = PB_HTYPE_ONEOF then Some (load_u32 m psize = 0)
      else if PB_HTYPE ty = PB_HTYPE_OPTIONAL \<and> size_offset field \<noteq> 0
      then Some (\<not> safe_read_bool m psize)
      else singular)"

definition encode_basic_field ::
    "'u enc_env \<Rightarrow> (pb_field_t \<Rightarrow> addr \<Rightarrow> bool option) \<Rightarrow> 'u msg_encoder \<Rightarrow> 'u encoder" where
  "encode_basic_field env chk enc s field data0 =
     (let m = mem env;
          func = PB_ENCODERS env enc (PB_LTYPE (ftype field));
          psize = data0 + sint (size_offset field);
          has_size = (size_offset field \<noteq> 0);
          pointer = (PB_ATYPE (ftype field) = PB_ATYPE_POINTER);
          data = (if pointer then load_ptr m data0 else data0);
          put = (\<lambda>s. o_bind (Some (pb_encode_tag_for_field s field)) (\<lambda>s1. func s1 field data)) in
      case (if has_size then Some True
            else if PB_HTYPE (ftype field) = PB_HTYPE_OPTIONAL then map_option Not (chk field data0)
            else Some True) of
        None \<Rightarrow> None
      | Some implicit0 \<Rightarrow>
          let implicit_has = (if pointer then data \<noteq> NULL else implicit0) in
          if PB_HTYPE (ftype field) = PB_HTYPE_REQUIRED then
            if data = NULL then Some (o_error ''missing required field'' s) else put s
          else if PB_HTYPE (ftype field) = PB_HTYPE_OPTIONAL then
            if (if has_size then safe_read_bool m psize else implicit_has) then put s else Some (True, s)
          else if PB_HTYPE (ftype field) = PB_HTYPE_REPEATED then
            let count = (if has_size then load_u32 m psize else array_size field) in
            encode_array env func s field data (ucast count)
          else if has_size then
            if load_u32 m psize = tag field then put s else Some (True, s)
          else Some (o_undefined s))"

definition encode_callback_field :: "'u enc_env \<Rightarrow> 'u pb_ostream \<Rightarrow> pb_field_t \<Rightarrow> addr \<Rightarrow> bool \<times> 'u pb_ostream" where
  "encode_callback_field env s field data =
     (let f = cb_func (mem env) data in
      if f \<noteq> NULL then
        let (ok, s1) = cb_encode env f s field (cb_arg data) in
        if \<not> ok then o_error ''callback error'' s1 else (True, s1)
      else (True, s))"

definition encode_field ::
    "'u enc_env \<Rightarrow> (pb_field_t \<Rightarrow> addr \<Rightarrow> bool option) \<Rightarrow> 'u msg_encoder \<Rightarrow> 'u encoder" where
  "encode_field env chk enc s field data =
     (if PB_ATYPE (ftype field) = PB_ATYPE_STATIC \<or> PB_ATYPE (ftype field) = PB_ATYPE_POINTER
      then encode_basic_field env chk enc s field data
      else if PB_ATYPE (ftype field) = PB_ATYPE_CALLBACK
      then Some (encode_callback_field env s field data)
      else Some (o_error ''invalid field type'' s))"

section \<open>Extensions\<close>

definition default_extension_encoder ::
    "'u enc_env \<Rightarrow> (pb_field_t \<Rightarrow> addr \<Rightarrow> bool option) \<Rightarrow> 'u msg_encoder \<Rightarrow> 'u pb_ostream \<Rightarrow> addr \<Rightarrow> 'u oresult" where
  "default_extension_encoder env chk enc s extension =
     (let m = mem env; field = field_at (tables env (ext_type_arg m (ext_type m extension))) 0 in
      if PB_ATYPE (ftype field) = PB_ATYPE_POINTER
      then encode_field env chk enc s field (extension + 8)
      else encode_field env chk enc s field (ext_dest m extension))"

text \<open>The walk along the extension list, at most \<open>k\<close> entries.\<close>

fun extension_loop ::
    "nat \<Rightarrow> 'u enc_env \<Rightarrow> ('u pb_ostream \<Rightarrow> addr \<Rightarrow> 'u oresult) \<Rightarrow> 'u pb_ostream \<Rightarrow> addr \<Rightarrow> 'u oresult" where
  "extension_loop 0 env dflt s extension = (if extension = NULL then Some (True, s) else None)"
| "extension_loop (Suc k) env dflt s extension =
     (if extension = NULL then Some (True, s)
      else
        let f = ext_type_encode (mem env) (ext_type (mem env) extension) in
        o_bind (if f \<noteq> NULL then Some (ext_encode env f s extension) else dflt s extension)
          (\<lambda>s1. extension_loop k env dflt s1 (ext_next (mem env) extension)))"

definition encode_extension_field ::
    "nat \<Rightarrow> 'u enc_env \<Rightarrow> (pb_field_t \<Rightarrow> addr \<Rightarrow> bool option) \<Rightarrow> 'u msg_encoder \<Rightarrow>
     'u pb_ostream \<Rightarrow> addr \<Rightarrow> 'u oresult" where
  "encode_extension_field depth env chk enc s data =
     extension_loop depth env (default_extension_encoder env chk enc) s (load_ptr (mem env) data)"

section \<open>Messages\<close>

fun fields_loop :: "nat \<Rightarrow> ('u pb_ostream \<Rightarrow> pb_field_t \<Rightarrow> addr \<Rightarrow> 'u oresult) \<Rightarrow> pb_field_iter_t \<Rightarrow>
    'u pb_ostream \<Rightarrow> 'u oresult" where
  "fields_loop 0 body it s = None"
| "fields_loop (Suc k) body it s =
     o_bind (body s (iter_field it) (pData it)) (\<lambda>s1.
       let (more, it') = pb_field_iter_next it in
       if more then fields_loop k body it' s1 else Some (True, s1))"

definition encode_any_field ::
    "nat \<Rightarrow> 'u enc_env \<Rightarrow> (pb_field_t \<Rightarrow> addr \<Rightarrow> bool option) \<Rightarrow> 'u msg_encoder \<Rightarrow> 'u encoder" where
  "encode_any_field depth env chk enc s field data =
     (if PB_LTYPE (ftype field) = PB_LTYPE_EXTENSION
      then encode_extension_field depth env chk enc s data
      else encode_field env chk enc s field data)"

primrec pb_encode :: "nat \<Rightarrow> 'u enc_env \<Rightarrow> 'u pb_ostream \<Rightarrow> pb_table \<Rightarrow> addr \<Rightarrow> 'u oresult" where
  "pb_encode 0 env s flds src_struct = None"
| "pb_encode (Suc depth) env s flds src_struct =
     (let (nonempty, it) = pb_field_iter_begin flds src_struct in
      if nonempty then
        fields_loop (Suc (length flds))
          (encode_any_field depth env
             (pb_check_proto3_default_value (Suc depth) (mem env) (tables env)) (pb_encode depth env))
          it s
      else Some (True, s))"

definition pb_encode_delimited :: "nat \<Rightarrow> 'u enc_env \<Rightarrow> 'u pb_ostream \<Rightarrow> pb_table \<Rightarrow> addr \<Rightarrow> 'u oresult" where
  "pb_encode_delimited depth env s flds src_struct =
     pb_encode_submessage (pb_encode depth env) s flds src_struct"

definition pb_encode_nullterminated :: "nat \<Rightarrow> 'u enc_env \<Rightarrow> 'u pb_ostream \<Rightarrow> pb_table \<Rightarrow> addr \<Rightarrow> 'u oresult" where
  "pb_encode_nullterminated depth env s flds src_struct =
     o_bind (pb_encode depth env s flds src_struct) (\<lambda>s1. Some (pb_write s1 [0] 1))"

definition pb_get_encoded_size :: "nat \<Rightarrow> 'u enc_env \<Rightarrow> pb_table \<Rightarrow> addr \<Rightarrow> (bool \<times> size_t option) option" where
  "pb_get_encoded_size depth env flds src_struct =
     (case pb_encode depth env PB_OSTREAM_SIZING flds src_struct of
        None \<Rightarrow> None
      | Some (False, s) \<Rightarrow> Some (False, None)
      | Some (True, s) \<Rightarrow> Some (True, Some (bytes_written s)))"

end
