(* ===== verification/Pb_Encode_Spec.thy ===== *)
theory Pb_Encode_Spec
  imports Pb_Encode
begin

text \<open>
  The abstract specification of the message encoder and its refinement proof. \<open>message_wire\<close> is the
  protocol buffer wire form of a structure in memory: the concatenation of the wire forms of its
  fields, each a tag and a payload, length-delimited payloads preceded by their length. It knows
  nothing of streams, of their capacity, or of the separate sizing passes of the C code. \<open>None\<close>
  means that the structure has no wire form (a descriptor or a value the encoder must reject).

  \<open>renders f w\<close> is the refinement relation: \<open>f\<close> always returns; if \<open>w\<close> is \<open>None\<close> then \<open>f\<close>
  returns false on every stream whatsoever; if \<open>w\<close> is \<open>Some bs\<close> then \<open>f\<close> emits exactly \<open>bs\<close>.
\<close>

section \<open>Specification\<close>

definition w_append :: "byte list option \<Rightarrow> byte list option \<Rightarrow> byte list option" where
  "w_append a b = (case a of None \<Rightarrow> None | Some x \<Rightarrow> map_option (\<lambda>y. x @ y) b)"

primrec w_concat :: "byte list option list \<Rightarrow> byte list option" where
  "w_concat [] = Some []"
| "w_concat (w # ws) = w_append w (w_concat ws)"

definition delimited :: "byte list \<Rightarrow> byte list" where
  "delimited bs = varint_wire (length bs) @ bs"

definition tag_wire :: "pb_size_t \<Rightarrow> 32 word \<Rightarrow> byte list" where
  "tag_wire n wt = varint_wire (unat n * 8 + unat wt)"

definition field_tag_wire :: "pb_field_t \<Rightarrow> byte list option" where
  "field_tag_wire field = map_option (tag_wire (tag field)) (wiretype_of (PB_LTYPE (ftype field)))"

definition bytes_wire :: "memory \<Rightarrow> pb_field_t \<Rightarrow> addr \<Rightarrow> byte list option" where
  "bytes_wire m field src =
     (if src = NULL then Some (delimited [])
      else
        let n = unat (bytes_array_size m src) in
        if PB_ATYPE (ftype field) = PB_ATYPE_STATIC \<and> n + 4 > unat (data_size field) then None
        else Some (delimited (load_bytes m (src + 4) n)))"

definition string_limit :: "pb_field_t \<Rightarrow> size_t" where
  "string_limit field =
     (if PB_ATYPE (ftype field) = PB_ATYPE_POINTER then - 1 else ucast (data_size field))"

definition string_wire :: "memory \<Rightarrow> pb_field_t \<Rightarrow> addr \<Rightarrow> byte list option" where
  "string_wire m field src =
     Some (delimited (if src = NULL then []
       else load_bytes m src (unat (strnlen_loop m src 0 (string_limit field)))))"

definition value_wire ::
    "memory \<Rightarrow> pb_tables \<Rightarrow> (pb_table \<Rightarrow> addr \<Rightarrow> byte list option) \<Rightarrow> pb_field_t \<Rightarrow> addr \<Rightarrow> byte list option" where
  "value_wire m tbls sub field src =
     (let lt = PB_LTYPE (ftype field); n = data_size field in
      if lt = PB_LTYPE_BOOL then Some [if m src \<noteq> 0 then 1 else 0]
      else if lt = PB_LTYPE_VARINT then map_option (\<lambda>v. varint_wire (unat v)) (read_signed m n src)
      else if lt = PB_LTYPE_UVARINT then map_option (\<lambda>v. varint_wire (unat v)) (read_unsigned m n src)
      else if lt = PB_LTYPE_SVARINT then map_option (\<lambda>v. varint_wire (zigzag (sint v))) (read_signed m n src)
      else if lt = PB_LTYPE_FIXED32 then Some (le_of_word 4 (load_u32 m src))
      else if lt = PB_LTYPE_FIXED64 then Some (le_of_word 8 (load_u64 m src))
      else if lt = PB_LTYPE_BYTES then bytes_wire m field src
      else if lt = PB_LTYPE_STRING then string_wire m field src
      else if lt = PB_LTYPE_SUBMESSAGE then
        if ptr field = NULL then None else map_option delimited (sub (tbls (ptr field)) src)
      else if lt = PB_LTYPE_FIXED_LENGTH_BYTES then Some (delimited (load_bytes m src (unat n)))
      else None)"

text \<open>The elements of an array, packed into one payload or each with its own tag.\<close>

definition array_wire ::
    "memory \<Rightarrow> (pb_field_t \<Rightarrow> addr \<Rightarrow> byte list option) \<Rightarrow> pb_field_t \<Rightarrow> addr \<Rightarrow> nat \<Rightarrow> byte list option" where
  "array_wire m val field data count =
     (let lt = PB_LTYPE (ftype field); at = (\<lambda>i. data + int i * uint (data_size field)) in
      if count = 0 then Some []
      else if PB_ATYPE (ftype field) \<noteq> PB_ATYPE_POINTER \<and> count > unat (array_size field) then None
      else if lt \<le> PB_LTYPE_LAST_PACKABLE then
        map_option (\<lambda>bs. tag_wire (tag field) PB_WT_STRING @ delimited bs)
          (w_concat (map (\<lambda>i. val field (at i)) [0..<count]))
      else
        w_concat (map (\<lambda>i. w_append (field_tag_wire field)
          (val field (if PB_ATYPE (ftype field) = PB_ATYPE_POINTER \<and> (lt = PB_LTYPE_STRING \<or> lt = PB_LTYPE_BYTES)
                      then load_ptr m (at i) else at i))) [0..<count]))"

text \<open>\<open>dflt field a\<close> says whether the value at \<open>a\<close> is the default of a field without presence flag.\<close>

definition basic_field_wire ::
    "memory \<Rightarrow> (pb_field_t \<Rightarrow> addr \<Rightarrow> bool) \<Rightarrow> (pb_field_t \<Rightarrow> addr \<Rightarrow> byte list option) \<Rightarrow>
     pb_field_t \<Rightarrow> addr \<Rightarrow> byte list option" where
  "basic_field_wire m dflt val field data0 =
     (let ht = PB_HTYPE (ftype field);
          has_size = (size_offset field \<noteq> 0);
          psize = data0 + sint (size_offset field);
          pointer = (PB_ATYPE (ftype field) = PB_ATYPE_POINTER);
          data = (if pointer then load_ptr m data0 else data0);
          whole = w_append (field_tag_wire field) (val field data) in
      if ht = PB_HTYPE_REQUIRED then (if data = NULL then None else whole)
      else if ht = PB_HTYPE_OPTIONAL then
        if (if has_size then m psize \<noteq> 0 else if pointer then data \<noteq> NULL else \<not> dflt field data0)
        then whole else Some []
      else if ht = PB_HTYPE_REPEATED then
        array_wire m val field data (unat (if has_size then load_u32 m psize else array_size field))
      else if load_u32 m psize = tag field then whole else Some [])"

definition field_wire ::
    "memory \<Rightarrow> (addr \<Rightarrow> pb_field_t \<Rightarrow> addr \<Rightarrow> byte list option) \<Rightarrow> (pb_field_t \<Rightarrow> addr \<Rightarrow> bool) \<Rightarrow>
     (pb_field_t \<Rightarrow> addr \<Rightarrow> byte list option) \<Rightarrow> pb_field_t \<Rightarrow> addr \<Rightarrow> byte list option" where
  "field_wire m cbw dflt val field data =
     (if PB_ATYPE (ftype field) = PB_ATYPE_STATIC \<or> PB_ATYPE (ftype field) = PB_ATYPE_POINTER
      then basic_field_wire m dflt val field data
      else if PB_ATYPE (ftype field) = PB_ATYPE_CALLBACK
      then (if cb_func m data \<noteq> NULL then cbw (cb_func m data) field (cb_arg data) else Some [])
      else None)"

text \<open>
  The wire form of a message: that of its fields in order of the descriptor table, each at its place in
  the structure. \<open>depth\<close> bounds the nesting of tables; \<open>tables_ok\<close> says that it is enough.
\<close>

primrec message_wire ::
    "nat \<Rightarrow> memory \<Rightarrow> pb_tables \<Rightarrow> (addr \<Rightarrow> pb_field_t \<Rightarrow> addr \<Rightarrow> byte list option) \<Rightarrow>
     pb_table \<Rightarrow> addr \<Rightarrow> byte list option" where
  "message_wire 0 m tbls cbw fs src = None"
| "message_wire (Suc depth) m tbls cbw fs src =
     w_concat (map (\<lambda>k. field_wire m cbw
           (\<lambda>f a. pb_check_proto3_default_value (Suc depth) m tbls f a = Some True)
           (value_wire m tbls (message_wire depth m tbls cbw))
           (field_at fs k) (src + field_layout fs k)) [0..<num_fields fs])"

text \<open>
  Descriptor tables without extension placeholders, in which a oneof has a member that says which field
  is set and the submessages nest less than \<open>depth\<close> deep.
\<close>

definition field_ok :: "pb_field_t \<Rightarrow> bool" where
  "field_ok f \<longleftrightarrow> PB_LTYPE (ftype f) \<noteq> PB_LTYPE_EXTENSION \<and>
     (PB_HTYPE (ftype f) = PB_HTYPE_ONEOF \<longrightarrow> size_offset f \<noteq> 0)"

definition has_submessage :: "pb_field_t \<Rightarrow> bool" where
  "has_submessage f \<longleftrightarrow>
     PB_LTYPE (ftype f) = PB_LTYPE_SUBMESSAGE \<and> PB_ATYPE (ftype f) \<noteq> PB_ATYPE_CALLBACK"

primrec tables_ok :: "nat \<Rightarrow> pb_tables \<Rightarrow> pb_table \<Rightarrow> bool" where
  "tables_ok 0 tbls fs = False"
| "tables_ok (Suc depth) tbls fs =
     (\<forall>f \<in> set (takeWhile (\<lambda>f. tag f \<noteq> 0) fs).
        field_ok f \<and> (has_submessage f \<longrightarrow> tables_ok depth tbls (tbls (ptr f))))"

definition renders :: "('u pb_ostream \<Rightarrow> 'u oresult) \<Rightarrow> byte list option \<Rightarrow> bool" where
  "renders f w \<longleftrightarrow> (\<forall>s. f s \<noteq> None) \<and>
     (case w of None \<Rightarrow> (\<forall>s. \<not> fst (the (f s))) | Some bs \<Rightarrow> emits (\<lambda>s. the (f s)) bs)"

definition callbacks_render ::
    "'u enc_env \<Rightarrow> (addr \<Rightarrow> pb_field_t \<Rightarrow> addr \<Rightarrow> byte list option) \<Rightarrow> bool" where
  "callbacks_render env cbw \<longleftrightarrow> (\<forall>f field a. renders (\<lambda>s. Some (cb_encode env f s field a)) (cbw f field a))"

section \<open>The calculus of renderings\<close>

lemma o_bind_simps [simp]:
  "o_bind None g = None"
  "o_bind (Some (True, s)) g = g s"
  by (simp_all add: o_bind_def)

lemma o_bind_False [simp]: "o_bind (Some (False, s)) g = Some (False, s)"
  by (simp add: o_bind_def)

lemma rendersI:
  assumes "\<And>s. f s \<noteq> None" "w = None \<Longrightarrow> (\<And>s. \<not> fst (the (f s)))" "\<And>bs. w = Some bs \<Longrightarrow> emits (\<lambda>s. the (f s)) bs"
  shows "renders f w"
  using assms by (auto simp: renders_def split: option.splits)

lemma renders_total: "renders f w \<Longrightarrow> f s \<noteq> None"
  by (simp add: renders_def)

lemma renders_fail: "renders f None \<Longrightarrow> \<not> fst (the (f s))"
  by (simp add: renders_def)

lemma renders_emits: "renders f (Some bs) \<Longrightarrow> emits (\<lambda>s. the (f s)) bs"
  by (simp add: renders_def)

lemma renders_Some: "emits g bs \<Longrightarrow> renders (\<lambda>s. Some (g s)) (Some bs)"
  by (simp add: renders_def)

lemma renders_error: "renders (\<lambda>s. Some (o_error msg s)) None"
  by (simp add: renders_def o_error_def)

lemma renders_skip: "renders (\<lambda>s. Some (True, s)) (Some [])"
  by (auto simp: renders_def produces_def fits_0 cleanD)

lemma renders_bind:
  assumes f: "renders f a" and g: "renders g b"
  shows "renders (\<lambda>s. o_bind (f s) g) (w_append a b)"
proof (rule rendersI)
  fix s show "o_bind (f s) g \<noteq> None"
    using renders_total [OF f] renders_total [OF g] by (auto simp: o_bind_def split: option.splits)
next
  fix s assume w: "w_append a b = None"
  show "\<not> fst (the (o_bind (f s) g))"
  proof (cases a)
    case None
    then show ?thesis
      using f renders_fail [of f s] renders_total [OF f, of s]
      by (auto simp: o_bind_def split: option.splits)
  next
    case (Some x)
    then have "b = None" using w by (auto simp: w_append_def)
    then show ?thesis
      using g renders_fail [of g] renders_total [OF f, of s]
      by (auto simp: o_bind_def split: option.splits)
  qed
next
  fix bs assume "w_append a b = Some bs"
  then obtain x y where xy: "a = Some x" "b = Some y" "bs = x @ y"
    by (auto simp: w_append_def split: option.splits)
  have "the (o_bind (f s) g) = o_then (the (f s)) (\<lambda>s. the (g s))" for s
    using renders_total [OF f, of s] by (auto simp: o_bind_def o_then_def)
  then show "emits (\<lambda>s. the (o_bind (f s) g)) bs"
    using produces_then [OF renders_emits renders_emits] f g unfolding xy by simp
qed

lemma w_append_simps [simp]:
  "w_append (Some x) (Some y) = Some (x @ y)"
  "w_append None b = None"
  "w_append a None = None"
  by (simp_all add: w_append_def split: option.splits)

lemma renders_if:
  "(c \<Longrightarrow> renders f a) \<Longrightarrow> (\<not> c \<Longrightarrow> renders g b) \<Longrightarrow>
   renders (\<lambda>s. if c then f s else g s) (if c then a else b)"
  by auto


section \<open>Field encoders\<close>

lemma emits_enc_bool: "emits (\<lambda>s. pb_enc_bool m s src) [if m src \<noteq> 0 then 1 else 0]"
proof -
  have "varint_wire (unat (if m src \<noteq> 0 then 1 else 0 :: 64 word)) = [if m src \<noteq> 0 then 1 else 0]"
    by (simp add: varint_wire.simps)
  then show ?thesis
    using emits_varint unfolding pb_enc_bool_def safe_read_bool_def load_u8_def by metis
qed

lemma renders_string:
  "length buf = unat sz \<Longrightarrow> renders (\<lambda>s. Some (pb_encode_string s buf sz)) (Some (delimited buf))"
  unfolding delimited_def by (intro renders_Some emits_string)

lemma renders_bytes: "renders (\<lambda>s :: 'u pb_ostream. Some (pb_enc_bytes m s field src)) (bytes_wire m field src)"
proof (cases "src = NULL")
  case True
  then show ?thesis by (simp add: pb_enc_bytes_def bytes_wire_def renders_string)
next
  case False
  define sz :: size_t where "sz = ucast (bytes_array_size m src)"
  have lt: "unat (bytes_array_size m src) < 2 ^ 32"
    using unsigned_less [of "bytes_array_size m src"] by simp
  have alloc: "unat (PB_BYTES_ARRAY_T_ALLOCSIZE sz) = unat (bytes_array_size m src) + 4"
    using lt by (simp add: PB_BYTES_ARRAY_T_ALLOCSIZE_def sz_def unat_word_ariths)
  then have "\<not> PB_BYTES_ARRAY_T_ALLOCSIZE sz < sz"
    by (simp add: word_less_nat_alt sz_def)
  moreover have "PB_BYTES_ARRAY_T_ALLOCSIZE sz > ucast (data_size field) \<longleftrightarrow>
      unat (bytes_array_size m src) + 4 > unat (data_size field)"
    using alloc by (simp add: word_less_nat_alt)
  ultimately have "pb_enc_bytes m s field src =
      (if PB_ATYPE (ftype field) = PB_ATYPE_STATIC \<and> unat (bytes_array_size m src) + 4 > unat (data_size field)
       then o_error ''bytes size exceeded'' s
       else pb_encode_string s (load_bytes m (src + 4) (unat sz)) sz)" for s :: "'u pb_ostream"
    using False by (simp add: pb_enc_bytes_def Let_def bytes_array_bytes_def flip: sz_def)
  moreover have "unat sz = unat (bytes_array_size m src)" by (simp add: sz_def)
  ultimately show ?thesis
    using False by (auto simp: bytes_wire_def Let_def renders_string renders_error)
qed

lemma renders_cstring: "renders (\<lambda>s. Some (pb_enc_string m s field src)) (string_wire m field src)"
  by (simp add: pb_enc_string_def string_wire_def Let_def string_limit_def renders_string)

text \<open>On a sizing stream a payload of known length may be counted instead of written.\<close>

lemma sizing_write:
  "is_Sizing (sink s) \<Longrightarrow> pb_write s [] (of_nat (length bs)) = (True, put_bytes bs s)"
  by (auto simp: pb_write_def put_bytes_def is_Sizing_def)

lemma clean_sizing [simp]: "clean PB_OSTREAM_SIZING"
  by (simp add: clean_def PB_OSTREAM_SIZING_def)

lemma sizing_pass:
  assumes "emits f bs" "length bs < 2 ^ 64"
  shows "f PB_OSTREAM_SIZING = (True, put_bytes bs PB_OSTREAM_SIZING)"
    and "bytes_written (snd (f PB_OSTREAM_SIZING)) = of_nat (length bs)"
proof -
  show eq: "f PB_OSTREAM_SIZING = (True, put_bytes bs PB_OSTREAM_SIZING)"
    using assms(2) by (intro emitsD [OF assms(1) clean_sizing]) (simp_all add: fits_def PB_OSTREAM_SIZING_def)
  show "bytes_written (snd (f PB_OSTREAM_SIZING)) = of_nat (length bs)"
    unfolding eq by (simp add: put_bytes_def PB_OSTREAM_SIZING_def)
qed

text \<open>An encoder whose output is too long for the byte counter emits anything: nothing is claimed.\<close>

lemma emits_too_long: "2 ^ 64 \<le> length bs \<Longrightarrow> emits f bs"
  by (simp add: produces_def)

lemma emits_counted:
  assumes "emits f bs" "sz = of_nat (length bs)"
  shows "emits (\<lambda>s. if is_Sizing (sink s) then pb_write s [] sz else f s) bs"
proof (rule producesI, goal_cases)
  case (1 s)
  then show ?case
    using emitsD [OF assms(1), of s] sizing_write [of s bs] assms(2) by (auto simp: cleanD)
next
  case (2 s)
  then have "\<not> is_Sizing (sink s)" by (auto simp: fits_def)
  moreover obtain bs' e where "prefix bs' bs" "fits s (length bs')"
    "f s = (False, (put_bytes bs' s)\<lparr>o_errmsg := e\<rparr>)"
    by (rule produces_fullD [OF assms(1) 2])
  ultimately show ?case by auto
qed

text \<open>The second pass of \<open>pb_encode_submessage\<close>, into a substream limited to the size of the first.\<close>

definition substream_of :: "size_t \<Rightarrow> 'u pb_ostream \<Rightarrow> 'u pb_ostream" where
  "substream_of sz s = \<lparr>sink = sink s, max_size = sz, bytes_written = 0, o_errmsg = None\<rparr>"

definition submessage_pass :: "('u pb_ostream \<Rightarrow> bool \<times> 'u pb_ostream) \<Rightarrow> size_t \<Rightarrow> 'u pb_ostream \<Rightarrow> bool \<times> 'u pb_ostream" where
  "submessage_pass f sz s =
     (if bytes_written s + sz > max_size s then o_error ''stream full'' s
      else
        let (status, sub) = f (substream_of sz s);
            s2 = s\<lparr>bytes_written := bytes_written s + bytes_written sub, sink := sink sub, o_errmsg := o_errmsg sub\<rparr>
        in if bytes_written sub \<noteq> sz then o_error ''submsg size changed'' s2 else (status, s2))"

lemma submessage_pass_fits:
  assumes f: "emits f bs" and c: "clean s" "\<not> is_Sizing (sink s)"
    and b: "unat (bytes_written s) + length bs < 2 ^ 64" "fits s (length bs)"
  shows "submessage_pass f (of_nat (length bs)) s = (True, put_bytes bs s)"
proof -
  let ?sz = "of_nat (length bs) :: size_t"
  have sz: "unat ?sz = length bs" using b(1) by (simp add: unat_of_nat)
  have le: "unat (bytes_written s) + length bs \<le> unat (max_size s)"
    using b(2) c(2) by (simp add: fits_def)
  have room: "\<not> bytes_written s + ?sz > max_size s"
    using le b(1) sz by (simp add: word_less_nat_alt unat_word_ariths)
  obtain dest p where k: "sink s = Buffer dest p"
    using c by (auto simp: clean_def split: sink.splits)
  have "clean (substream_of ?sz s)"
    using c(1) le k sz by (auto simp: clean_def substream_of_def word_le_nat_alt)
  then have "f (substream_of ?sz s) = (True, put_bytes bs (substream_of ?sz s))"
    using b(1) sz by (intro emitsD [OF f]) (auto simp: fits_def substream_of_def)
  then show ?thesis
    using room k cleanD [OF c(1)]
    by (auto simp: submessage_pass_def substream_of_def put_bytes_def)
qed

lemma emits_submessage_pass:
  assumes "emits f bs" "sz = of_nat (length bs)"
  shows "emits (\<lambda>s. if is_Sizing (sink s) then pb_write s [] sz else submessage_pass f sz s) bs"
proof (rule producesI, goal_cases)
  case (1 s)
  then show ?case
    using submessage_pass_fits [OF assms(1), of s] sizing_write [of s bs] assms(2)
    by (cases "is_Sizing (sink s)") (auto simp: cleanD)
next
  case (2 s)
  have sz: "unat sz = length bs" using 2(2) assms(2) by (simp add: unat_of_nat)
  have ns: "\<not> is_Sizing (sink s)" using 2(3) by (auto simp: fits_def)
  have "bytes_written s + sz > max_size s"
    using 2(2,3) ns sz by (simp add: fits_def word_less_nat_alt unat_word_ariths)
  then have "submessage_pass f sz s = (False, (put_bytes [] s)\<lparr>o_errmsg := Some ''stream full''\<rparr>)"
    using cleanD [OF 2(1)] by (simp add: submessage_pass_def o_error_def)
  then show ?case using ns fits_0 [OF 2(1)]
    by (intro exI [of _ "[]"] exI [of _ "Some ''stream full''"]) simp
qed

lemma submessage_as_pass:
  assumes "\<And>s. enc s fs src \<noteq> None"
  shows "pb_encode_submessage enc s fs src =
     (let (ok, z) = the (enc PB_OSTREAM_SIZING fs src); sz = bytes_written z in
      if \<not> ok then Some (False, s\<lparr>o_errmsg := o_errmsg z\<rparr>)
      else o_bind (Some (pb_encode_varint s sz)) (\<lambda>s1. Some
        (if is_Sizing (sink s1) then pb_write s1 [] sz
         else submessage_pass (\<lambda>s. the (enc s fs src)) sz s1)))"
proof -
  have "\<forall>s. \<exists>r. enc s fs src = Some r" using assms by auto
  then obtain g where g: "\<And>s. enc s fs src = Some (g s)" by metis
  obtain ok z where z: "g PB_OSTREAM_SIZING = (ok, z)" by force
  show ?thesis
    by (simp add: pb_encode_submessage_def g z submessage_pass_def substream_of_def Let_def o_bind_def
        case_prod_beta if_distrib [of Some] split: bool.splits)
qed

lemma renders_submessage:
  assumes "renders (\<lambda>s. enc s fs src) w"
  shows "renders (\<lambda>s. pb_encode_submessage enc s fs src) (map_option delimited w)"
proof (cases w)
  case None
  obtain ok z where z: "enc PB_OSTREAM_SIZING fs src = Some (ok, z)"
    using renders_total [OF assms, of PB_OSTREAM_SIZING] by auto
  moreover from this have "\<not> ok" using assms renders_fail [of _ PB_OSTREAM_SIZING] None by fastforce
  ultimately show ?thesis
    using None by (simp add: renders_def pb_encode_submessage_def)
next
  case (Some bs)
  let ?f = "\<lambda>s. the (enc s fs src)" and ?sz = "of_nat (length bs) :: size_t"
  have em: "emits ?f bs" using assms Some renders_emits by blast
  have tot: "\<And>s. enc s fs src \<noteq> None" using renders_total [OF assms] .
  show ?thesis
  proof (cases "length bs < 2 ^ 64")
    case True
    then have u: "unat ?sz = length bs" by (simp add: unat_of_nat)
    have "renders (\<lambda>s. o_bind (Some (pb_encode_varint s ?sz)) (\<lambda>s1. Some
        (if is_Sizing (sink s1) then pb_write s1 [] ?sz else submessage_pass ?f ?sz s1)))
        (w_append (Some (varint_wire (unat ?sz))) (Some bs))"
      by (intro renders_bind renders_Some emits_varint emits_submessage_pass em refl)
    moreover have "pb_encode_submessage enc s fs src =
        o_bind (Some (pb_encode_varint s ?sz)) (\<lambda>s1. Some
        (if is_Sizing (sink s1) then pb_write s1 [] ?sz else submessage_pass ?f ?sz s1))" for s
      unfolding submessage_as_pass [where enc = enc and fs = fs and src = src, OF tot] using sizing_pass [OF em True] by (simp add: Let_def cong: if_cong)
    ultimately show ?thesis by (simp add: Some delimited_def u)
  next
    case False
    have "pb_encode_submessage enc s fs src \<noteq> None" for s
      unfolding submessage_as_pass [where enc = enc and fs = fs and src = src, OF tot]
      by (auto simp: o_bind_def Let_def split: prod.splits option.splits)
    then show ?thesis
      using False by (intro rendersI) (auto simp: Some delimited_def intro!: emits_too_long)
  qed
qed

section \<open>Arrays\<close>

lemma renders_varint_option:
  "renders (\<lambda>s. Some (case v of None \<Rightarrow> o_error msg s | Some x \<Rightarrow> pb_encode_varint s x))
     (map_option (\<lambda>x. varint_wire (unat x)) v)"
  by (cases v) (auto intro: renders_error renders_Some emits_varint)

lemma renders_svarint_option:
  "renders (\<lambda>s. Some (case v of None \<Rightarrow> o_error msg s | Some x \<Rightarrow> pb_encode_svarint s x))
     (map_option (\<lambda>x. varint_wire (zigzag (sint x))) v)"
  by (cases v) (auto intro: renders_error renders_Some emits_svarint)

lemma renders_PB_ENCODERS:
  assumes "PB_LTYPE (ftype field) = PB_LTYPE_SUBMESSAGE \<Longrightarrow>
      renders (\<lambda>s. enc s (tables env (ptr field)) src) (sub (tables env (ptr field)) src)"
    and "wiretype_of (PB_LTYPE (ftype field)) \<noteq> None"
  shows "renders (\<lambda>s. PB_ENCODERS env enc (PB_LTYPE (ftype field)) s field src)
           (value_wire (mem env) (tables env) sub field src)"
proof -
  let ?m = "mem env" and ?n = "data_size field"
  have varint: "renders (\<lambda>s. Some (pb_enc_varint ?m s field src)) (map_option (\<lambda>x. varint_wire (unat x)) (read_signed ?m ?n src))"
    unfolding pb_enc_varint_def by (rule renders_varint_option)
  have uvarint: "renders (\<lambda>s. Some (pb_enc_uvarint ?m s field src)) (map_option (\<lambda>x. varint_wire (unat x)) (read_unsigned ?m ?n src))"
    unfolding pb_enc_uvarint_def by (rule renders_varint_option)
  have svarint: "renders (\<lambda>s. Some (pb_enc_svarint ?m s field src)) (map_option (\<lambda>x. varint_wire (zigzag (sint x))) (read_signed ?m ?n src))"
    unfolding pb_enc_svarint_def by (rule renders_svarint_option)
  have fixed: "renders (\<lambda>s. Some (pb_enc_fixed32 ?m s src)) (Some (le_of_word 4 (load_u32 ?m src)))"
      "renders (\<lambda>s. Some (pb_enc_fixed64 ?m s src)) (Some (le_of_word 8 (load_u64 ?m src)))"
    unfolding pb_enc_fixed32_def pb_enc_fixed64_def by (intro renders_Some emits_fixed32 emits_fixed64)+
  have submsg: "renders (\<lambda>s. pb_enc_submessage env enc s field src)
      (if ptr field = NULL then None else map_option delimited (sub (tables env (ptr field)) src))"
    if "PB_LTYPE (ftype field) = PB_LTYPE_SUBMESSAGE"
    unfolding pb_enc_submessage_def
    by (intro renders_if renders_error renders_submessage assms that)
  have flb: "renders (\<lambda>s. Some (pb_enc_fixed_length_bytes ?m s field src)) (Some (delimited (load_bytes ?m src (unat ?n))))"
    unfolding pb_enc_fixed_length_bytes_def by (rule renders_string) simp
  show ?thesis
    unfolding PB_ENCODERS_def value_wire_def Let_def
  proof (intro renders_if)
    show "renders (\<lambda>s. Some (pb_enc_bool ?m s src)) (Some [if ?m src \<noteq> 0 then 1 else 0])"
      by (intro renders_Some emits_enc_bool)
  next
    assume "PB_LTYPE (ftype field) \<noteq> PB_LTYPE_BOOL" "PB_LTYPE (ftype field) \<noteq> PB_LTYPE_VARINT"
      "PB_LTYPE (ftype field) \<noteq> PB_LTYPE_UVARINT" "PB_LTYPE (ftype field) \<noteq> PB_LTYPE_SVARINT"
      "PB_LTYPE (ftype field) \<noteq> PB_LTYPE_FIXED32" "PB_LTYPE (ftype field) \<noteq> PB_LTYPE_FIXED64"
      "PB_LTYPE (ftype field) \<noteq> PB_LTYPE_BYTES" "PB_LTYPE (ftype field) \<noteq> PB_LTYPE_STRING"
      "PB_LTYPE (ftype field) \<noteq> PB_LTYPE_SUBMESSAGE" "PB_LTYPE (ftype field) \<noteq> PB_LTYPE_FIXED_LENGTH_BYTES"
    with assms(2) show "renders (\<lambda>s. Some (o_undefined s)) None" by (simp add: wiretype_of_def)
  qed (rule varint uvarint svarint fixed renders_bytes renders_cstring flb submsg, assumption?)+
qed

lemma renders_array_loop:
  assumes "\<And>i. i < n \<Longrightarrow> renders (\<lambda>s. item s (p + int i * step)) (w i)"
  shows "renders (array_loop n item step p) (w_concat (map w [0..<n]))"
  using assms
proof (induction n arbitrary: p w)
  case 0 show ?case by (simp add: renders_skip)
next
  case (Suc n)
  have "renders (\<lambda>s. item s (p + step + int i * step)) (w (Suc i))" if "i < n" for i
    using Suc.prems [of "Suc i"] that by (simp add: algebra_simps)
  then have "renders (array_loop n item step (p + step)) (w_concat (map (w \<circ> Suc) [0..<n]))"
    by (intro Suc.IH) simp
  moreover have "renders (\<lambda>s. item s p) (w 0)" using Suc.prems [of 0] by simp
  ultimately have "renders (\<lambda>s. o_bind (item s p) (array_loop n item step (p + step)))
      (w_append (w 0) (w_concat (map (w \<circ> Suc) [0..<n])))" by (intro renders_bind)
  moreover have "[0..<Suc n] = 0 # map Suc [0..<n]"
    by (simp add: map_Suc_upt upt_conv_Cons del: upt_Suc)
  ultimately show ?case by (simp del: upt_Suc)
qed

lemma packable_wiretype: "lt \<le> PB_LTYPE_LAST_PACKABLE \<Longrightarrow> wiretype_of lt \<noteq> None"
proof -
  assume "lt \<le> PB_LTYPE_LAST_PACKABLE"
  then have "unat lt \<le> 5" by (simp add: word_le_nat_alt type_defs)
  then consider "unat lt = 0" | "unat lt = 1" | "unat lt = 2" | "unat lt = 3" | "unat lt = 4" | "unat lt = 5"
    by linarith
  then have "lt = 0 \<or> lt = 1 \<or> lt = 2 \<or> lt = 3 \<or> lt = 4 \<or> lt = 5"
    by cases (simp_all add: word_unat_eq_iff)
  then show ?thesis by (auto simp: wiretype_of_def type_defs)
qed

lemma length_w_concat_fixed:
  "(\<And>i. i \<in> set is \<Longrightarrow> \<exists>bs. w i = Some bs \<and> length bs = k) \<Longrightarrow>
   \<exists>bs. w_concat (map w is) = Some bs \<and> length bs = k * length is"
proof (induction "is")
  case Nil then show ?case by simp
next
  case (Cons i js)
  obtain as where as: "w i = Some as" "length as = k" using Cons.prems [of i] by auto
  obtain bs where bs: "w_concat (map w js) = Some bs" "length bs = k * length js"
    using Cons.IH Cons.prems by auto
  show ?case using as bs by simp
qed

text \<open>
  The packed branch of \<open>encode_array\<close>, once the elements are known to encode to \<open>bs\<close> and the size to
  be their length.
\<close>

lemma renders_packed:
  assumes "renders loop (Some bs)" "sz = of_nat (length bs)" "length bs < 2 ^ 64"
  shows "renders (\<lambda>s. o_bind (Some (pb_encode_varint s sz))
      (\<lambda>s2. if is_Sizing (sink s2) then Some (pb_write s2 [] sz) else loop s2)) (Some (delimited bs))"
proof -
  have u: "unat sz = length bs" using assms(2,3) by (simp add: unat_of_nat)
  have "loop s = Some (the (loop s))" for s using renders_total [OF assms(1), of s] by simp
  then have "(\<lambda>s2. if is_Sizing (sink s2) then Some (pb_write s2 [] sz) else loop s2) =
      (\<lambda>s2. Some (if is_Sizing (sink s2) then pb_write s2 [] sz else the (loop s2)))" by auto
  then show ?thesis
    using renders_bind [OF renders_Some [OF emits_varint [of sz]]
        renders_Some [OF emits_counted [OF renders_emits [OF assms(1)] assms(2)]]]
    by (simp add: delimited_def u)
qed

text \<open>The elements of an array encode as \<open>val\<close> says; fixed width elements have their width.\<close>

definition elements_ok ::
    "'u encoder \<Rightarrow> (pb_field_t \<Rightarrow> addr \<Rightarrow> byte list option) \<Rightarrow> pb_field_t \<Rightarrow> bool" where
  "elements_ok func val field \<longleftrightarrow>
     (wiretype_of (PB_LTYPE (ftype field)) \<noteq> None \<longrightarrow>
        (\<forall>a. renders (\<lambda>s. func s field a) (val field a))) \<and>
     (PB_LTYPE (ftype field) = PB_LTYPE_FIXED32 \<longrightarrow> (\<forall>a. \<exists>bs. val field a = Some bs \<and> length bs = 4)) \<and>
     (PB_LTYPE (ftype field) = PB_LTYPE_FIXED64 \<longrightarrow> (\<forall>a. \<exists>bs. val field a = Some bs \<and> length bs = 8))"

definition elements_wire :: "(pb_field_t \<Rightarrow> addr \<Rightarrow> byte list option) \<Rightarrow> pb_field_t \<Rightarrow> addr \<Rightarrow> nat \<Rightarrow> byte list option" where
  "elements_wire val field data n =
     w_concat (map (\<lambda>i. val field (data + int i * uint (data_size field))) [0..<n])"

lemma renders_elements:
  assumes "elements_ok func val field" "wiretype_of (PB_LTYPE (ftype field)) \<noteq> None"
  shows "renders (array_loop n (\<lambda>z p. func z field p) (uint (data_size field)) data) (elements_wire val field data n)"
  using assms unfolding elements_wire_def elements_ok_def by (intro renders_array_loop) blast

lemma elements_fixed:
  assumes "elements_ok func val field"
  shows "PB_LTYPE (ftype field) = PB_LTYPE_FIXED32 \<Longrightarrow> \<exists>bs. elements_wire val field data n = Some bs \<and> length bs = 4 * n"
    and "PB_LTYPE (ftype field) = PB_LTYPE_FIXED64 \<Longrightarrow> \<exists>bs. elements_wire val field data n = Some bs \<and> length bs = 8 * n"
  using assms length_w_concat_fixed [of "[0..<n]" "\<lambda>i. val field (data + int i * uint (data_size field))"]
  by (simp_all add: elements_ok_def elements_wire_def)

lemma packed_size_spec:
  assumes "elements_ok func val field" "wiretype_of (PB_LTYPE (ftype field)) \<noteq> None"
  shows "packed_array_size func field data count \<noteq> None"
    and "elements_wire val field data (unat count) = None \<Longrightarrow> packed_array_size func field data count = Some None"
    and "elements_wire val field data (unat count) = Some bs \<Longrightarrow> length bs < 2 ^ 64 \<Longrightarrow>
         packed_array_size func field data count = Some (Some (of_nat (length bs)))"
proof -
  let ?loop = "array_loop (unat count) (\<lambda>z p. func z field p) (uint (data_size field)) data"
  have loop: "renders ?loop (elements_wire val field data (unat count))" by (rule renders_elements [OF assms])
  obtain ok z where z: "?loop PB_OSTREAM_SIZING = Some (ok, z)"
    using renders_total [OF loop, of PB_OSTREAM_SIZING] by auto
  note fixed = elements_fixed [OF assms(1), of data "unat count"]
  show "packed_array_size func field data count \<noteq> None"
    using z by (simp add: packed_array_size_def)
  show "packed_array_size func field data count = Some None" if "elements_wire val field data (unat count) = None"
    using that fixed loop renders_fail [of ?loop PB_OSTREAM_SIZING] z by (auto simp: packed_array_size_def)
  show "packed_array_size func field data count = Some (Some (of_nat (length bs)))"
    if "elements_wire val field data (unat count) = Some bs" "length bs < 2 ^ 64"
    using that fixed loop sizing_pass [OF renders_emits, of ?loop bs] z by (auto simp: packed_array_size_def)
qed

lemma renders_packed_array:
  assumes "elements_ok func val field" "wiretype_of (PB_LTYPE (ftype field)) \<noteq> None"
  shows "renders (\<lambda>s1. case packed_array_size func field data count of
       None \<Rightarrow> None
     | Some None \<Rightarrow> Some (False, s1)
     | Some (Some sz) \<Rightarrow> o_bind (Some (pb_encode_varint s1 sz)) (\<lambda>s2.
         if is_Sizing (sink s2) then Some (pb_write s2 [] sz)
         else array_loop (unat count) (\<lambda>z p. func z field p) (uint (data_size field)) data s2))
     (map_option delimited (elements_wire val field data (unat count)))"
proof (cases "elements_wire val field data (unat count)")
  case None
  then show ?thesis using packed_size_spec(2) [OF assms None] by (simp add: renders_def)
next
  case (Some bs)
  note loop = renders_elements [OF assms, of "unat count" data]
  show ?thesis
  proof (cases "length bs < 2 ^ 64")
    case True
    show ?thesis
      unfolding packed_size_spec(3) [OF assms Some True] Some
      using renders_packed [OF loop [unfolded Some] refl True] by simp
  next
    case False
    have tot: "o_bind (Some r) (\<lambda>s2. if is_Sizing (sink s2) then Some (pb_write s2 [] sz)
         else array_loop (unat count) (\<lambda>z p. func z field p) (uint (data_size field)) data s2) \<noteq> None" for r sz
      using renders_total [OF loop] by (auto simp: o_bind_def split: prod.splits)
    have "emits f (delimited bs)" for f :: "'a pb_ostream \<Rightarrow> bool \<times> 'a pb_ostream"
      using False by (intro emits_too_long) (simp add: delimited_def)
    then show ?thesis
      using packed_size_spec(1) [OF assms] tot by (intro rendersI) (auto simp: Some split: option.splits)
  qed
qed

lemma renders_tag_for_field: "renders (\<lambda>s. Some (pb_encode_tag_for_field s field)) (field_tag_wire field)"
proof (cases "wiretype_of (PB_LTYPE (ftype field))")
  case None
  then show ?thesis by (simp add: pb_encode_tag_for_field_def field_tag_wire_def renders_error)
next
  case (Some wt)
  then have "unat wt < 8" by (auto simp: wiretype_of_def type_defs split: if_splits)
  then show ?thesis
    using Some by (auto simp: pb_encode_tag_for_field_def field_tag_wire_def tag_wire_def
        intro: renders_Some emits_tag)
qed

lemma renders_bind_ok:
  assumes "renders f a" "a \<noteq> None \<Longrightarrow> renders g b" "\<And>s. g s \<noteq> None"
  shows "renders (\<lambda>s. o_bind (f s) g) (w_append a b)"
proof (cases "a = None")
  case True
  have "\<exists>s'. f s = Some (False, s')" for s
    using assms(1) renders_total [OF assms(1), of s] renders_fail [of f s] True by (cases "f s") auto
  then have "\<exists>s'. o_bind (f s) g = Some (False, s')" for s by (metis o_bind_False)
  then have "o_bind (f s) g \<noteq> None \<and> \<not> fst (the (o_bind (f s) g))" for s
    by (metis fst_conv option.distinct(1) option.sel)
  then show ?thesis using True by (simp add: renders_def)
next
  case False
  then show ?thesis using assms by (intro renders_bind)
qed

lemma o_bind_total: "f \<noteq> None \<Longrightarrow> (\<And>s. g s \<noteq> None) \<Longrightarrow> o_bind f g \<noteq> None"
  by (auto simp: o_bind_def split: option.splits)

lemma renders_encode_array:
  assumes el: "elements_ok func val field" and tot: "\<And>s a. func s field a \<noteq> None"
  shows "renders (\<lambda>s. encode_array env func s field data count) (array_wire (mem env) val field data (unat count))"
proof -
  let ?n = "unat count" and ?step = "uint (data_size field)"
  let ?deref = "PB_ATYPE (ftype field) = PB_ATYPE_POINTER \<and>
     (PB_LTYPE (ftype field) = PB_LTYPE_STRING \<or> PB_LTYPE (ftype field) = PB_LTYPE_BYTES)"
  let ?at = "\<lambda>p. if ?deref then load_ptr (mem env) p else p"
  have nz: "?n = 0 \<longleftrightarrow> count = 0" by (simp add: unat_eq_zero)
  have big: "count > ucast (array_size field) \<longleftrightarrow> ?n > unat (array_size field)" by (simp add: word_less_nat_alt)
  have tagw: "renders (\<lambda>s. Some (pb_encode_tag s PB_WT_STRING (tag field))) (Some (tag_wire (tag field) PB_WT_STRING))"
    unfolding tag_wire_def by (intro renders_Some emits_tag) (simp add: PB_WT_STRING_def)
  have packed: "renders (\<lambda>s. o_bind (Some (pb_encode_tag s PB_WT_STRING (tag field))) (\<lambda>s1.
      case packed_array_size func field data count of
         None \<Rightarrow> None
       | Some None \<Rightarrow> Some (False, s1)
       | Some (Some sz) \<Rightarrow> o_bind (Some (pb_encode_varint s1 sz)) (\<lambda>s2.
           if is_Sizing (sink s2) then Some (pb_write s2 [] sz)
           else array_loop ?n (\<lambda>z p. func z field p) ?step data s2)))
      (map_option (\<lambda>bs. tag_wire (tag field) PB_WT_STRING @ delimited bs) (elements_wire val field data ?n))"
    if "PB_LTYPE (ftype field) \<le> PB_LTYPE_LAST_PACKABLE"
    using renders_bind [OF tagw renders_packed_array [OF el packable_wiretype [OF that], of count data]]
    by (cases "elements_wire val field data ?n") simp_all
  have item: "renders (\<lambda>s. o_bind (Some (pb_encode_tag_for_field s field)) (\<lambda>z1.
      if ?deref then func z1 field (load_ptr (mem env) p) else func z1 field p))
      (w_append (field_tag_wire field) (val field (?at p)))" for p
    using el tot by (intro renders_bind_ok renders_tag_for_field)
      (auto simp: elements_ok_def field_tag_wire_def split: if_splits)
  have unpacked: "renders (array_loop ?n (\<lambda>z p. o_bind (Some (pb_encode_tag_for_field z field)) (\<lambda>z1.
      if ?deref then func z1 field (load_ptr (mem env) p) else func z1 field p)) ?step data)
      (w_concat (map (\<lambda>i. w_append (field_tag_wire field) (val field (?at (data + int i * ?step)))) [0..<?n]))"
    by (intro renders_array_loop item)
  show ?thesis
    unfolding encode_array_def array_wire_def Let_def nz big elements_wire_def [symmetric]
    by (intro renders_if renders_skip renders_error packed unpacked)
qed

section \<open>Fields\<close>

text \<open>What the field encoders need to know about the encoder of submessages.\<close>

definition submessages_render ::
    "'u enc_env \<Rightarrow> 'u msg_encoder \<Rightarrow> (pb_table \<Rightarrow> addr \<Rightarrow> byte list option) \<Rightarrow> pb_field_t \<Rightarrow> bool" where
  "submessages_render env enc sub field \<longleftrightarrow>
     (has_submessage field \<longrightarrow>
        (\<forall>a. renders (\<lambda>s. enc s (tables env (ptr field)) a) (sub (tables env (ptr field)) a)))"

lemma submessage_total:
  assumes "\<And>s. enc s fs src \<noteq> None"
  shows "pb_encode_submessage enc s fs src \<noteq> None"
  unfolding submessage_as_pass [where enc = enc and fs = fs and src = src, OF assms]
  by (auto simp: Let_def o_bind_def split: prod.splits)

lemma elements_of_field:
  assumes "submessages_render env enc sub field" "PB_ATYPE (ftype field) \<noteq> PB_ATYPE_CALLBACK"
  shows "elements_ok (PB_ENCODERS env enc (PB_LTYPE (ftype field))) (value_wire (mem env) (tables env) sub) field"
    and "PB_ENCODERS env enc (PB_LTYPE (ftype field)) s field a \<noteq> None"
proof -
  have sub: "PB_LTYPE (ftype field) = PB_LTYPE_SUBMESSAGE \<Longrightarrow>
      renders (\<lambda>s. enc s (tables env (ptr field)) a) (sub (tables env (ptr field)) a)" for a
    using assms by (auto simp: submessages_render_def has_submessage_def)
  show "elements_ok (PB_ENCODERS env enc (PB_LTYPE (ftype field))) (value_wire (mem env) (tables env) sub) field"
    unfolding elements_ok_def
    by (intro conjI impI allI renders_PB_ENCODERS sub) (simp_all add: value_wire_def type_defs Let_def)
  show "PB_ENCODERS env enc (PB_LTYPE (ftype field)) s field a \<noteq> None"
    using submessage_total [of enc "tables env (ptr field)" a s] renders_total [OF sub]
    by (simp add: PB_ENCODERS_def pb_enc_submessage_def)
qed

lemma renders_basic_field:
  assumes sub: "submessages_render env enc sub field"
    and chk: "chk field data \<noteq> None"
    and ok: "field_ok field" "PB_ATYPE (ftype field) \<noteq> PB_ATYPE_CALLBACK"
  shows "renders (\<lambda>s. encode_basic_field env chk enc s field data)
     (basic_field_wire (mem env) (\<lambda>f a. chk f a = Some True) (value_wire (mem env) (tables env) sub) field data)"
proof -
  let ?val = "value_wire (mem env) (tables env) sub"
  let ?func = "PB_ENCODERS env enc (PB_LTYPE (ftype field))"
  note el = elements_of_field [OF sub ok(2)]
  have put: "renders (\<lambda>s. o_bind (Some (pb_encode_tag_for_field s field)) (\<lambda>s1. ?func s1 field a))
      (w_append (field_tag_wire field) (?val field a))" for a
    using el by (intro renders_bind_ok renders_tag_for_field)
      (auto simp: elements_ok_def field_tag_wire_def)
  have arr: "renders (\<lambda>s. encode_array env ?func s field a (ucast c)) (array_wire (mem env) ?val field a (unat c))"
    for a and c :: "32 word"
    using renders_encode_array [OF el(1) el(2), of env a "ucast c"] by simp
  obtain d where d: "chk field data = Some d" using chk by auto
  show ?thesis
  proof (rule PB_HTYPE_cases [of "ftype field"])
    assume "PB_HTYPE (ftype field) = PB_HTYPE_REQUIRED"
    then show ?thesis
      unfolding encode_basic_field_def basic_field_wire_def Let_def
      by (simp add: renders_error put)
  next
    assume "PB_HTYPE (ftype field) = PB_HTYPE_OPTIONAL"
    then show ?thesis
      unfolding encode_basic_field_def basic_field_wire_def Let_def
      by (simp add: d safe_read_bool_def load_u8_def renders_skip put)
  next
    assume "PB_HTYPE (ftype field) = PB_HTYPE_REPEATED"
    then show ?thesis
      unfolding encode_basic_field_def basic_field_wire_def Let_def
      by (simp add: arr)
  next
    assume "PB_HTYPE (ftype field) = PB_HTYPE_ONEOF"
    then show ?thesis
      using ok(1) unfolding encode_basic_field_def basic_field_wire_def Let_def field_ok_def
      by (simp add: renders_skip put)
  qed
qed

lemma renders_callback_field:
  assumes "callbacks_render env cbw"
  shows "renders (\<lambda>s. Some (encode_callback_field env s field data))
     (if cb_func (mem env) data \<noteq> NULL then cbw (cb_func (mem env) data) field (cb_arg data) else Some [])"
proof (cases "cb_func (mem env) data = NULL")
  case True
  then show ?thesis by (simp add: encode_callback_field_def renders_skip)
next
  case False
  let ?f = "\<lambda>s. cb_encode env (cb_func (mem env) data) s field (cb_arg data)"
  have eq: "encode_callback_field env s field data =
      (if fst (?f s) then ?f s else o_error ''callback error'' (snd (?f s)))" for s
    using False by (auto simp: encode_callback_field_def Let_def split: prod.splits)
  have r: "renders (\<lambda>s. Some (?f s)) (cbw (cb_func (mem env) data) field (cb_arg data))"
    using assms by (simp add: callbacks_render_def)
  show ?thesis
  proof (cases "cbw (cb_func (mem env) data) field (cb_arg data)")
    case None
    then show ?thesis
      using r False renders_fail [of "\<lambda>s. Some (?f s)"] by (simp add: renders_def eq o_error_def)
  next
    case (Some bs)
    have em: "emits ?f bs" using r Some renders_emits by force
    have "emits (\<lambda>s. encode_callback_field env s field data) bs"
    proof (rule producesI, goal_cases)
      case (1 s)
      then show ?case using emitsD [OF em 1] by (simp add: eq cleanD)
    next
      case (2 s)
      obtain bs' e where "prefix bs' bs" "fits s (length bs')" "?f s = (False, (put_bytes bs' s)\<lparr>o_errmsg := e\<rparr>)"
        by (rule produces_fullD [OF em 2])
      then show ?case by (auto simp: eq o_error_def)
    qed
    then show ?thesis using False Some by (simp add: renders_Some)
  qed
qed

lemma renders_encode_field:
  assumes sub: "submessages_render env enc sub field" and cb: "callbacks_render env cbw"
    and chk: "chk field data \<noteq> None" and ok: "field_ok field"
  shows "renders (\<lambda>s. encode_field env chk enc s field data)
     (field_wire (mem env) cbw (\<lambda>f a. chk f a = Some True) (value_wire (mem env) (tables env) sub) field data)"
  unfolding encode_field_def field_wire_def
  using assms by (intro renders_if renders_error renders_basic_field renders_callback_field) auto

section \<open>Messages\<close>

lemma renders_fields_loop:
  assumes "\<And>j. i \<le> j \<Longrightarrow> j < num_fields fs \<Longrightarrow>
      renders (\<lambda>s. body s (field_at fs j) (d + field_layout fs j)) (w j)"
    and "i < num_fields fs" "num_fields fs - i \<le> k"
  shows "renders (fields_loop k body (iter_at fs d i)) (w_concat (map w [i..<num_fields fs]))"
  using assms
proof (induction k arbitrary: i)
  case 0 then show ?case by simp
next
  case (Suc k)
  have here: "renders (\<lambda>s. body s (iter_field (iter_at fs d i)) (pData (iter_at fs d i))) (w i)"
    using Suc.prems(1) [of i] Suc.prems(2) by (simp add: iter_field_at iter_at_layout)
  have upt: "[i..<num_fields fs] = i # [Suc i..<num_fields fs]"
    using Suc.prems(2) by (simp add: upt_conv_Cons)
  have rest: "renders (\<lambda>s. let (more, it') = pb_field_iter_next (iter_at fs d i)
      in if more then fields_loop k body it' s else Some (True, s)) (w_concat (map w [Suc i..<num_fields fs]))"
  proof (cases "Suc i < num_fields fs")
    case True
    then show ?thesis
      using Suc.IH [of "Suc i"] Suc.prems by (simp add: iter_next_step)
  next
    case False
    then have "Suc i = num_fields fs" using Suc.prems(2) by simp
    then show ?thesis by (simp add: iter_next_wrap renders_skip)
  qed
  show ?case using renders_bind [OF here rest] by (simp add: upt)
qed

lemma check_loop_total:
  assumes "\<And>j a. j < num_fields fs \<Longrightarrow> chk (field_at fs j) a \<noteq> None"
    and "i < num_fields fs" "num_fields fs - i \<le> k"
  shows "check_loop k chk (iter_at fs d i) \<noteq> None"
  using assms(2,3)
proof (induction k arbitrary: i)
  case 0 then show ?case by simp
next
  case (Suc k)
  have here: "chk (iter_field (iter_at fs d i)) (pData (iter_at fs d i)) \<noteq> None"
    using assms(1) Suc.prems(1) by (simp add: iter_field_at)
  show ?case
  proof (cases "Suc i < num_fields fs")
    case True
    then show ?thesis
      using here Suc.IH [of "Suc i"] Suc.prems by (auto simp: iter_next_step split: option.splits bool.splits)
  next
    case False
    then have "Suc i = num_fields fs" using Suc.prems(1) by simp
    then show ?thesis using here by (auto simp: iter_next_wrap split: option.splits bool.splits)
  qed
qed

lemma field_at_mem:
  "k < num_fields fs \<Longrightarrow> field_at fs k \<in> set (takeWhile (\<lambda>f. tag f \<noteq> 0) fs)"
proof -
  assume k: "k < num_fields fs"
  then have "takeWhile (\<lambda>f. tag f \<noteq> 0) fs ! k = fs ! k"
    by (simp add: num_fields_def takeWhile_nth)
  moreover have "field_at fs k = fs ! k" using k num_fields_le [of fs] by (simp add: field_at_def)
  ultimately show ?thesis using k by (metis nth_mem num_fields_def)
qed

lemma check_total:
  "tables_ok depth tbls fs \<Longrightarrow> k < num_fields fs \<Longrightarrow>
   pb_check_proto3_default_value depth m tbls (field_at fs k) a \<noteq> None"
proof (induction depth arbitrary: fs k a)
  case 0 then show ?case by simp
next
  case (Suc depth)
  let ?f = "field_at fs k"
  let ?sub = "\<lambda>fs d. let (nonempty, it) = pb_field_iter_begin fs d in
      if nonempty then check_loop (Suc (length fs)) (pb_check_proto3_default_value depth m tbls) it else Some True"
  have nested: "tables_ok depth tbls (tbls (ptr ?f))" if "has_submessage ?f"
    using Suc.prems that field_at_mem by auto
  have "?sub ts b \<noteq> None" if "tables_ok depth tbls ts" for ts b
  proof (cases "num_fields ts = 0")
    case True
    then show ?thesis
      using num_fields_pos_iff [of ts] by (simp add: pb_field_iter_begin_def Let_def)
  next
    case False
    then have "fst (pb_field_iter_begin ts b)"
      using num_fields_pos_iff [of ts] by (simp add: pb_field_iter_begin_def Let_def)
    moreover have "check_loop (Suc (length ts)) (pb_check_proto3_default_value depth m tbls) (iter_at ts b 0) \<noteq> None"
      using False num_fields_le [of ts] Suc.IH [OF that] by (intro check_loop_total) auto
    ultimately show ?thesis by (simp add: iter_begin_at case_prod_beta)
  qed
  then have "proto3_singular_default ?sub m tbls ?f a \<noteq> None"
    using nested by (simp add: proto3_singular_default_def has_submessage_def Let_def)
  then show ?case by (auto simp: Let_def)
qed

lemma renders_pb_encode:
  assumes "tables_ok depth (tables env) fs" "callbacks_render env cbw"
  shows "renders (\<lambda>s. pb_encode depth env s fs src) (message_wire depth (mem env) (tables env) cbw fs src)"
  using assms(1)
proof (induction depth arbitrary: fs src)
  case 0 then show ?case by simp
next
  case (Suc depth)
  let ?chk = "pb_check_proto3_default_value (Suc depth) (mem env) (tables env)"
  let ?body = "encode_any_field depth env ?chk (pb_encode depth env)"
  let ?w = "\<lambda>k. field_wire (mem env) cbw (\<lambda>f a. ?chk f a = Some True)
     (value_wire (mem env) (tables env) (message_wire depth (mem env) (tables env) cbw))
     (field_at fs k) (src + field_layout fs k)"
  have field: "renders (\<lambda>s. ?body s (field_at fs k) (src + field_layout fs k)) (?w k)" if "k < num_fields fs" for k
  proof -
    have ok: "field_ok (field_at fs k)"
      and nested: "has_submessage (field_at fs k) \<longrightarrow> tables_ok depth (tables env) (tables env (ptr (field_at fs k)))"
      using Suc.prems field_at_mem [OF that] by auto
    from nested have "submessages_render env (pb_encode depth env) (message_wire depth (mem env) (tables env) cbw) (field_at fs k)"
      using Suc.IH by (simp add: submessages_render_def)
    then have "renders (\<lambda>s. encode_field env ?chk (pb_encode depth env) s (field_at fs k) (src + field_layout fs k)) (?w k)"
      using check_total [OF Suc.prems that] assms(2) ok by (intro renders_encode_field)
    then show ?thesis using ok by (simp add: encode_any_field_def field_ok_def)
  qed
  show ?case
  proof (cases "num_fields fs = 0")
    case True
    then show ?thesis
      using num_fields_pos_iff [of fs] by (simp add: pb_field_iter_begin_def Let_def renders_skip)
  next
    case False
    then have "fst (pb_field_iter_begin fs src)"
      using num_fields_pos_iff [of fs] by (simp add: pb_field_iter_begin_def Let_def)
    moreover have "renders (fields_loop (Suc (length fs)) ?body (iter_at fs src 0)) (w_concat (map ?w [0..<num_fields fs]))"
      using False num_fields_le [of fs] field by (intro renders_fields_loop) auto
    ultimately show ?thesis
      by (simp add: iter_begin_at case_prod_beta del: fields_loop.simps pb_check_proto3_default_value.simps)
  qed
qed

text \<open>The size that \<open>pb_get_encoded_size\<close> returns is the length of the wire form.\<close>

lemma get_encoded_size_wire:
  assumes "tables_ok depth (tables env) fs" "callbacks_render env cbw"
    and "message_wire depth (mem env) (tables env) cbw fs src = Some bs" "length bs < 2 ^ 64"
  shows "pb_get_encoded_size depth env fs src = Some (True, Some (of_nat (length bs)))"
proof -
  have r: "renders (\<lambda>s. Pb_Encode.pb_encode depth env s fs src) (Some bs)"
    using renders_pb_encode [OF assms(1,2), of src] assms(3) by simp
  obtain q where q: "Pb_Encode.pb_encode depth env PB_OSTREAM_SIZING fs src = Some q"
    using renders_total [OF r, of PB_OSTREAM_SIZING] by auto
  show ?thesis
    using sizing_pass [OF renders_emits [OF r] assms(4)] q
    by (simp add: pb_get_encoded_size_def split: prod.splits)
qed

end
