(* ===== verification/Pb_Decode_Total.thy ===== *)
theory Pb_Decode_Total
  imports Pb_Decode_Stream Pb_Encode_Spec
begin

text \<open>
  The decoder returns. \<open>decodable depth\<close> says of a descriptor table that its submessages are nested at
  most \<open>depth\<close> deep and that it has no extension fields; on such a table every loop of the decoder ends
  within the bound the model gives it: the loop over the records of a message and the loops over
  packed arrays, because every round consumes at least one byte (the locale
  \<open>packable_decoder\<close>), the loops over fields, because the iterator comes round, and the loop over a
  callback's data, provided that the callback consumes something whenever it succeeds.
\<close>

section \<open>Progress of the scalar decoders\<close>

locale packable_decoder = field_decoder +
  assumes dec_progress: "istream_ok s \<Longrightarrow> dec s f a w = (True, s', w') \<Longrightarrow> bytes_left s' < bytes_left s"
begin

lemma packed_static_total:
  "istream_ok s \<Longrightarrow> unat (bytes_left s) < k \<Longrightarrow> packed_static_loop k (\<lambda>s f a w. Some (dec s f a w)) it s w \<noteq> None"
proof (induction k arbitrary: s w)
  case 0 then show ?case by simp
next
  case (Suc k)
  let ?a = "array_item (pData it) (iter_field it) (get_size w (pSize it))"
  obtain ok s1 w1 where d: "dec s (iter_field it) ?a w = (ok, s1, w1)" by (metis prod_cases3)
  have "istream_ok s1" using dec_stream [OF Suc.prems(1)] i_step_ok [OF Suc.prems(1)] d by (metis fst_conv snd_conv)
  moreover have "ok \<Longrightarrow> unat (bytes_left s1) < k"
    using dec_progress [OF Suc.prems(1)] d Suc.prems(2) by (fastforce simp: word_less_nat_alt)
  ultimately show ?case
    using Suc.IH d by (auto simp: Let_def d_bind_def)
qed

lemma packed_pointer_total:
  assumes "\<And>item w. initialize_pointer_field depth env item it w \<noteq> None"
  shows "istream_ok s \<Longrightarrow> unat (bytes_left s) < k \<Longrightarrow>
    packed_pointer_loop k depth env (\<lambda>s f a w. Some (dec s f a w)) it al s w \<noteq> None"
proof (induction k arbitrary: al s w)
  case 0 then show ?case by simp
next
  case (Suc k)
  let ?f = "iter_field it" and ?more = "ucast (get_size w (pSize it)) + 1 > al"
  let ?al = "if ?more then grow_size ?f (bytes_left s) al else al"
  obtain ok s1 w1 where a: "(if ?more then allocate_field env s (pData it) (ucast (data_size ?f)) ?al w
      else (True, s, w)) = (ok, s1, w1)" by (metis prod_cases3)
  have s1: "i_step s s1"
    using a allocate_field_stream [OF Suc.prems(1)] i_step_refl [OF Suc.prems(1)]
    by (metis fst_conv snd_conv)
  note ok1 = i_step_ok [OF Suc.prems(1) s1]
  let ?item = "array_item (peek_ptr w1 (pData it)) ?f (get_size w1 (pSize it))"
  obtain w2 where i: "initialize_pointer_field depth env ?item it w1 = Some w2" using assms by blast
  obtain ok2 s2 w3 where d: "dec s1 ?f ?item w2 = (ok2, s2, w3)" by (metis prod_cases3)
  have s2: "istream_ok s2" using dec_stream [OF ok1] i_step_ok [OF ok1] d by (metis fst_conv snd_conv)
  have "ok2 \<Longrightarrow> unat (bytes_left s2) < k"
    using dec_progress [OF ok1] d s1 Suc.prems(2) by (fastforce simp: word_less_nat_alt word_le_nat_alt i_step_def)
  then show ?case
    using Suc.IH [OF s2] a i d by (auto simp: Let_def)
qed

end

lemma pb_read_progress:
  assumes "pb_read s True n = (True, xs, s1)" "n \<noteq> 0"
  shows "bytes_left s1 < bytes_left s"
  using assms pb_read_direct_decreases [of s n xs s1] by (simp add: pb_read_def word_less_nat_alt)

lemma varint32_progress:
  "pb_decode_varint32 s = (Some v, s1) \<Longrightarrow> istream_ok s \<Longrightarrow> bytes_left s1 < bytes_left s"
  using varint32_eof_progress [of s v] by (auto simp: pb_decode_varint32_def split: prod.splits)

lemma varint_progress:
  assumes "pb_decode_varint s = (Some v, s1)" "istream_ok s"
  shows "bytes_left s1 < bytes_left s"
proof -
  obtain x s0 where rb: "pb_readbyte s = (x, s0)" by force
  have s0: "istream_ok s0" using readbyte.dec_ok [OF assms(2)] rb by simp
  have "bytes_left s1 \<le> bytes_left s0" and x: "x \<noteq> None"
    using assms(1) varint_loop64_step [OF s0, of 7] rb unfolding pb_decode_varint_def
    by (auto simp: varint_loop64.simps [of s] i_step_def Let_def split: option.splits if_splits)
       (metis snd_conv)
  moreover have "bytes_left s0 < bytes_left s"
    using x rb pb_readbyte_decreases by (auto simp: word_less_nat_alt)
  ultimately show ?thesis by simp
qed

lemma store_checked_left:
  "store_checked sg s f a v w = (ok, s', w') \<Longrightarrow> bytes_left s' = bytes_left s"
  by (auto simp: store_checked_def d_error_def i_fail_def split: option.splits if_splits)

interpretation dec_bool: packable_decoder "\<lambda>s f a w. pb_dec_bool s a w"
  by unfold_locales (auto simp: pb_dec_bool_def dest: varint32_progress split: prod.splits option.splits)

interpretation dec_varint: packable_decoder pb_dec_varint
  by unfold_locales
    (force simp: pb_dec_varint_def Let_def dest: varint_progress store_checked_left split: prod.splits option.splits)

interpretation dec_uvarint: packable_decoder pb_dec_uvarint
  by unfold_locales
    (force simp: pb_dec_uvarint_def dest: varint_progress store_checked_left split: prod.splits option.splits)

interpretation dec_svarint: packable_decoder pb_dec_svarint
  by unfold_locales
    (force simp: pb_dec_svarint_def pb_decode_svarint_def dest: varint_progress store_checked_left split: prod.splits option.splits)

interpretation dec_fixed32: packable_decoder "\<lambda>s f a w. pb_dec_fixed32 s a w"
  by unfold_locales
    (auto simp: pb_dec_fixed32_def pb_decode_fixed32_def dest: pb_read_progress split: prod.splits option.splits if_splits)

interpretation dec_fixed64: packable_decoder "\<lambda>s f a w. pb_dec_fixed64 s a w"
  by unfold_locales
    (auto simp: pb_dec_fixed64_def pb_decode_fixed64_def dest: pb_read_progress split: prod.splits option.splits if_splits)

section \<open>Tables and iterators\<close>

primrec decodable :: "nat \<Rightarrow> pb_tables \<Rightarrow> pb_table \<Rightarrow> bool" where
  "decodable 0 tbls fs = False"
| "decodable (Suc depth) tbls fs =
     (\<forall>f \<in> set (field_at fs 0 # takeWhile (\<lambda>f. tag f \<noteq> 0) fs).
        PB_LTYPE (ftype f) \<noteq> PB_LTYPE_EXTENSION \<and> (has_submessage f \<longrightarrow> decodable depth tbls (tbls (ptr f))))"

lemma decodable_Suc: "decodable depth tbls fs \<Longrightarrow> decodable (Suc depth) tbls fs"
proof (induction depth arbitrary: fs)
  case 0 then show ?case by simp
next
  case (Suc depth)
  from Suc.prems Suc.IH show ?case unfolding decodable.simps(2) [of "Suc depth"] by (auto simp: decodable.simps(2))
qed

definition iter_in :: "pb_table \<Rightarrow> pb_field_iter_t \<Rightarrow> bool" where
  "iter_in fs it \<longleftrightarrow> it_start it = fs \<and> (it_pos it < num_fields fs \<or> it_pos it = 0)"

lemma iter_in_field:
  assumes "iter_in fs it"
  shows "iter_field it \<in> set (field_at fs 0 # takeWhile (\<lambda>f. tag f \<noteq> 0) fs)"
proof (cases "it_pos it < num_fields fs")
  case True
  then have "fs ! it_pos it = takeWhile (\<lambda>f. tag f \<noteq> 0) fs ! it_pos it" "it_pos it < length fs"
    using num_fields_le [of fs] by (simp_all add: num_fields_def takeWhile_nth)
  then have "iter_field it \<in> set (takeWhile (\<lambda>f. tag f \<noteq> 0) fs)"
    using True assms by (simp add: iter_field_def field_at_def iter_in_def num_fields_def)
  then show ?thesis by simp
next
  case False then show ?thesis using assms by (simp add: iter_in_def iter_field_def)
qed

lemma decodable_field:
  assumes "decodable (Suc depth) tbls fs" "iter_in fs it"
  shows "PB_LTYPE (ftype (iter_field it)) \<noteq> PB_LTYPE_EXTENSION"
    and "has_submessage (iter_field it) \<Longrightarrow> decodable depth tbls (tbls (ptr (iter_field it)))"
  using assms(1) iter_in_field [OF assms(2)] by auto

lemma iter_in_begin: "iter_in fs (snd (pb_field_iter_begin fs a))"
  by (simp add: iter_in_def)

lemma iter_in_at: "k < num_fields fs \<Longrightarrow> iter_in fs (iter_at fs a k)"
  by (simp add: iter_in_def iter_at_pos)

lemma iter_in_next:
  assumes "iter_in fs it" shows "iter_in fs (snd (pb_field_iter_next it))"
proof (cases "tag (iter_field it) = 0 \<or> tag (field_at fs (Suc (it_pos it))) = 0")
  case True then show ?thesis using assms by (auto simp: pb_field_iter_next_def Let_def iter_in_def)
next
  case False
  then have "it_pos it < num_fields fs"
    using assms by (auto simp: iter_in_def iter_field_def num_fields_pos_iff)
  then have "Suc (it_pos it) < num_fields fs" using False tag_Suc_iff [of "it_pos it" fs] by auto
  then show ?thesis using assms False by (auto simp: pb_field_iter_next_def Let_def iter_in_def)
qed

lemma iter_in_find_loop: "iter_in fs it \<Longrightarrow> iter_in fs (snd (iter_find_loop k P start it))"
  by (induction k arbitrary: it) (auto simp: Let_def iter_in_next)

lemma iter_in_find: "iter_in fs it \<Longrightarrow> iter_in fs (snd (pb_field_iter_find it t))"
  by (simp add: pb_field_iter_find_def iter_in_find_loop del: iter_find_loop.simps)

lemma iter_in_pSize [simp]: "iter_in fs (it\<lparr>pSize := r\<rparr>) = iter_in fs it"
  by (simp add: iter_in_def)

lemma iter_field_pSize [simp]: "iter_field (it\<lparr>pSize := r\<rparr>) = iter_field it"
  by (simp add: iter_field_def)

section \<open>Defaults and release\<close>

lemma world_loop_total:
  assumes body: "\<And>it w. iter_in fs it \<Longrightarrow> body it w \<noteq> None"
  shows "k < num_fields fs \<Longrightarrow> num_fields fs - k \<le> n \<Longrightarrow> world_loop n body (iter_at fs a k) w \<noteq> None"
proof (induction n arbitrary: k w)
  case 0 then show ?case by simp
next
  case (Suc n)
  obtain w1 where w1: "body (iter_at fs a k) w = Some w1" using body [OF iter_in_at [OF Suc.prems(1)]] by blast
  show ?case
  proof (cases "Suc k < num_fields fs")
    case True
    then show ?thesis using Suc.IH [of "Suc k"] Suc.prems w1 by (simp add: iter_next_step [OF True])
  next
    case False
    then show ?thesis using Suc.prems w1 by (simp add: iter_next_wrap)
  qed
qed

lemma message_loop_total:
  assumes "\<And>it w. iter_in fs it \<Longrightarrow> body it w \<noteq> None"
  shows "message_defaults body fs a w \<noteq> None" "release_message body fs a w \<noteq> None"
proof -
  have "world_loop (Suc (length fs)) body (iter_at fs a 0) w \<noteq> None" if "0 < num_fields fs"
    using that num_fields_le [of fs] by (intro world_loop_total assms) auto
  moreover have "pb_field_iter_begin fs a = (0 < num_fields fs, iter_at fs a 0)"
    by (simp add: num_fields_pos_iff iter_begin_at [symmetric] prod_eq_iff pb_field_iter_begin_def Let_def)
  ultimately show "message_defaults body fs a w \<noteq> None" "release_message body fs a w \<noteq> None"
    by (simp_all add: message_defaults_def release_message_def del: world_loop.simps)
qed

lemma release_items_total:
  "(\<And>a w. rel a w \<noteq> None) \<Longrightarrow> release_items n rel step a w \<noteq> None"
proof (induction n arbitrary: a w)
  case 0 then show ?case by simp
next
  case (Suc n)
  obtain w1 where "rel a w = Some w1" using Suc.prems by blast
  then show ?case using Suc by simp
qed

lemma set_to_default_total:
  "decodable depth (d_tables env) fs \<Longrightarrow> iter_in fs it \<Longrightarrow> pb_field_set_to_default depth env it w \<noteq> None"
proof (induction depth arbitrary: fs it w)
  case 0 then show ?case by simp
next
  case (Suc depth)
  let ?f = "iter_field it"
  have "message_defaults (pb_field_set_to_default depth env) (d_tables env (ptr ?f)) a w' \<noteq> None"
    if "has_submessage ?f" for a w'
    using Suc.IH [OF decodable_field(2) [OF Suc.prems that]] by (intro message_loop_total)
  then show ?case
    using decodable_field(1) [OF Suc.prems]
    by (auto simp: Let_def has_submessage_def)
qed

lemma bind_map [simp]: "Option.bind x (\<lambda>y. Some (g y)) = map_option g x"
  by (cases x) auto

lemma bind_total: "x \<noteq> None \<Longrightarrow> (\<And>y. k y \<noteq> None) \<Longrightarrow> Option.bind x k \<noteq> None"
  by (cases x) auto

lemma if_total: "(c \<Longrightarrow> x \<noteq> None) \<Longrightarrow> (\<not> c \<Longrightarrow> y \<noteq> None) \<Longrightarrow> (if c then x else y) \<noteq> None"
  by simp

lemma case_total: "x \<noteq> None \<Longrightarrow> (\<And>y. k y \<noteq> None) \<Longrightarrow> (case x of None \<Rightarrow> None | Some y \<Rightarrow> k y) \<noteq> None"
  by (cases x) auto

lemma d_bind_total: "r \<noteq> None \<Longrightarrow> (\<And>s w. r = Some (True, s, w) \<Longrightarrow> k s w \<noteq> None) \<Longrightarrow> d_bind r k \<noteq> None"
  by (auto simp: d_bind_def split: option.splits)

lemma substream_total:
  assumes "\<And>s1. k0 s1 \<noteq> None" "\<And>sub s1. pb_make_string_substream s = (Some sub, s1) \<Longrightarrow> k sub s1 \<noteq> None"
  shows "(case pb_make_string_substream s of (None, s1) \<Rightarrow> k0 s1 | (Some sub, s1) \<Rightarrow> k sub s1) \<noteq> None"
  using assms by (cases "pb_make_string_substream s") (auto split: option.splits)

lemmas total_intros = if_total case_total bind_total d_bind_total substream_total

lemma release_single_total:
  "decodable depth (d_tables env) fs \<Longrightarrow> iter_in fs it \<Longrightarrow> pb_release_single_field depth env it w \<noteq> None"
proof (induction depth arbitrary: fs it w)
  case 0 then show ?case by simp
next
  case (Suc depth)
  let ?f = "iter_field it"
  have "release_items n (release_message (pb_release_single_field depth env) (d_tables env (ptr ?f))) z a w' \<noteq> None"
    if "has_submessage ?f" for n z a w'
    using Suc.IH [OF decodable_field(2) [OF Suc.prems that]] by (intro release_items_total message_loop_total)
  then show ?case
    using decodable_field(1) [OF Suc.prems]
    by (auto simp: Let_def has_submessage_def)
qed

lemma message_defaults_total:
  "decodable depth (d_tables env) fs \<Longrightarrow> pb_message_set_to_defaults depth env fs a w \<noteq> None"
  unfolding pb_message_set_to_defaults_def by (intro message_loop_total set_to_default_total)

lemma pb_release_total: "decodable depth (d_tables env) fs \<Longrightarrow> pb_release depth env fs a w \<noteq> None"
  unfolding pb_release_def by (intro message_loop_total release_single_total)

section \<open>Fields\<close>

definition nested_total :: "'u dec_env \<Rightarrow> 'u msg_decoder \<Rightarrow> pb_field_t \<Rightarrow> bool" where
  "nested_total env dec f \<longleftrightarrow>
     (has_submessage f \<longrightarrow> (\<forall>init s a w. istream_ok s \<longrightarrow> dec init s (d_tables env (ptr f)) a w \<noteq> None))"

definition callbacks_progress :: "'u dec_env \<Rightarrow> bool" where
  "callbacks_progress env \<longleftrightarrow> callbacks_safe env \<and>
     (\<forall>fn s fld a w s' w'. istream_ok s \<longrightarrow> 0 < bytes_left s \<longrightarrow> cb_decode env fn s fld a w = (True, s', w') \<longrightarrow>
        bytes_left s' < bytes_left s)"

lemma PB_DECODERS_total:
  assumes "nested_total env dec f" "PB_ATYPE (ftype f) \<noteq> PB_ATYPE_CALLBACK" "istream_ok s"
  shows "PB_DECODERS env dec (PB_LTYPE (ftype f)) s f a w \<noteq> None"
proof -
  have "pb_dec_submessage env dec s f a w \<noteq> None" if lt: "PB_LTYPE (ftype f) = PB_LTYPE_SUBMESSAGE"
    unfolding pb_dec_submessage_def
    by (intro total_intros)
      (use assms lt make_substream_ok(1) [OF assms(3)] in \<open>auto simp: nested_total_def has_submessage_def case_prod_beta Let_def simp del: not_None_eq\<close>)
  then show ?thesis by (simp add: PB_DECODERS_def del: not_None_eq)
qed

lemma packable_cases:
  assumes "lt \<le> PB_LTYPE_LAST_PACKABLE"
  shows "lt = PB_LTYPE_BOOL \<or> lt = PB_LTYPE_VARINT \<or> lt = PB_LTYPE_UVARINT \<or> lt = PB_LTYPE_SVARINT \<or>
    lt = PB_LTYPE_FIXED32 \<or> lt = PB_LTYPE_FIXED64"
proof -
  have "unat lt \<le> 5" using assms by (simp add: PB_LTYPE_LAST_PACKABLE_def word_le_nat_alt)
  then have "unat lt \<in> {0, 1, 2, 3, 4, 5}" by auto
  then show ?thesis by (auto simp: type_defs word_unat_eq_iff)
qed

lemma PB_DECODERS_packable:
  "PB_DECODERS env dec PB_LTYPE_BOOL = (\<lambda>s f a w. Some (pb_dec_bool s a w))"
  "PB_DECODERS env dec PB_LTYPE_VARINT = (\<lambda>s f a w. Some (pb_dec_varint s f a w))"
  "PB_DECODERS env dec PB_LTYPE_UVARINT = (\<lambda>s f a w. Some (pb_dec_uvarint s f a w))"
  "PB_DECODERS env dec PB_LTYPE_SVARINT = (\<lambda>s f a w. Some (pb_dec_svarint s f a w))"
  "PB_DECODERS env dec PB_LTYPE_FIXED32 = (\<lambda>s f a w. Some (pb_dec_fixed32 s a w))"
  "PB_DECODERS env dec PB_LTYPE_FIXED64 = (\<lambda>s f a w. Some (pb_dec_fixed64 s a w))"
  by (simp_all add: fun_eq_iff PB_DECODERS_def type_defs)

lemma packed_static_returns:
  assumes "lt \<le> PB_LTYPE_LAST_PACKABLE" "istream_ok s"
  shows "packed_static_loop (Suc (unat (bytes_left s))) (PB_DECODERS env dec lt) it s w \<noteq> None"
  using packable_cases [OF assms(1)] unfolding PB_DECODERS_packable
  by (elim disjE; simp only: PB_DECODERS_packable)
    (rule dec_bool.packed_static_total dec_varint.packed_static_total dec_uvarint.packed_static_total
      dec_svarint.packed_static_total dec_fixed32.packed_static_total dec_fixed64.packed_static_total,
      rule assms(2), rule lessI)+

lemma packed_pointer_returns:
  assumes "lt \<le> PB_LTYPE_LAST_PACKABLE" "istream_ok s" "\<And>item w. initialize_pointer_field depth env item it w \<noteq> None"
  shows "packed_pointer_loop (Suc (unat (bytes_left s))) depth env (PB_DECODERS env dec lt) it al s w \<noteq> None"
  using packable_cases [OF assms(1)]
  by (elim disjE; simp only: PB_DECODERS_packable)
    (rule dec_bool.packed_pointer_total dec_varint.packed_pointer_total dec_uvarint.packed_pointer_total
      dec_svarint.packed_pointer_total dec_fixed32.packed_pointer_total dec_fixed64.packed_pointer_total,
      rule assms(3), rule assms(2), rule lessI)+

lemma decode_static_total:
  assumes nested: "nested_total env dec (iter_field it)" and at: "PB_ATYPE (ftype (iter_field it)) = PB_ATYPE_STATIC"
    and ok: "istream_ok s"
    and defs: "\<And>a w. has_submessage (iter_field it) \<Longrightarrow>
      pb_message_set_to_defaults depth env (d_tables env (ptr (iter_field it))) a w \<noteq> None"
  shows "decode_static_field depth env dec s wt it w \<noteq> None"
proof -
  let ?f = "iter_field it" and ?lt = "PB_LTYPE (ftype (iter_field it))"
  have at': "PB_ATYPE (ftype ?f) \<noteq> PB_ATYPE_CALLBACK" using at by simp
  have func: "PB_DECODERS env dec ?lt s ?f a w' \<noteq> None" for a w'
    by (rule PB_DECODERS_total [OF nested at' ok])
  have packed: "packed_static_loop (Suc (unat (bytes_left sub))) (PB_DECODERS env dec ?lt) it sub w \<noteq> None"
    if "?lt \<le> PB_LTYPE_LAST_PACKABLE" "pb_make_string_substream s = (Some sub, s1)" for sub s1
    using that make_substream_ok(1) [OF ok] by (intro packed_static_returns)
  have "pb_message_set_to_defaults depth env (d_tables env (ptr ?f)) a w' \<noteq> None"
    if "?lt = PB_LTYPE_SUBMESSAGE" for a w' using defs that at' by (simp add: has_submessage_def)
  then show ?thesis
    unfolding decode_static_field_def Let_def
    by (intro total_intros func packed) (simp_all add: case_prod_beta del: not_None_eq)
qed

lemma initialize_pointer_total:
  assumes "PB_ATYPE (ftype (iter_field it)) = PB_ATYPE_POINTER"
    and "\<And>a w. has_submessage (iter_field it) \<Longrightarrow>
      pb_message_set_to_defaults depth env (d_tables env (ptr (iter_field it))) a w \<noteq> None"
  shows "initialize_pointer_field depth env item it w \<noteq> None"
  using assms by (simp add: initialize_pointer_field_def Let_def has_submessage_def del: not_None_eq)

lemma allocate_ok:
  "istream_ok s \<Longrightarrow> Some (allocate_field env s a n c w) = Some (k, s1, w1) \<Longrightarrow> istream_ok s1"
  using allocate_field_stream [of s env a n c w] i_step_ok by fastforce

lemma decode_pointer_total:
  assumes nested: "nested_total env dec (iter_field it)" and at: "PB_ATYPE (ftype (iter_field it)) = PB_ATYPE_POINTER"
    and ok: "istream_ok s"
    and defs: "\<And>a w. has_submessage (iter_field it) \<Longrightarrow>
      pb_message_set_to_defaults depth env (d_tables env (ptr (iter_field it))) a w \<noteq> None"
    and rel: "\<And>w. pb_release_single_field depth env it w \<noteq> None"
  shows "decode_pointer_field depth env dec s wt it w \<noteq> None"
proof -
  let ?f = "iter_field it" and ?lt = "PB_LTYPE (ftype (iter_field it))"
  have at': "PB_ATYPE (ftype ?f) \<noteq> PB_ATYPE_CALLBACK" using at by simp
  have func: "PB_DECODERS env dec ?lt s' ?f a w' \<noteq> None" if "istream_ok s'" for s' a w'
    by (rule PB_DECODERS_total [OF nested at' that])
  have alloc: "PB_DECODERS env dec ?lt s1 ?f a w' \<noteq> None"
    if "Some (allocate_field env s b n c w0) = Some (True, s1, w1)" for s1 a w' b n c w0 w1
    by (rule func [OF allocate_ok [OF ok that]])
  have init: "initialize_pointer_field depth env item it w' \<noteq> None" for item w'
    by (rule initialize_pointer_total [OF at defs])
  have "decode_pointer_repeated depth env (PB_DECODERS env dec ?lt) s wt it w \<noteq> None"
    unfolding decode_pointer_repeated_def Let_def
    by (intro total_intros alloc init packed_pointer_returns)
      (auto simp: case_prod_beta make_substream_ok(1) [OF ok] simp del: not_None_eq)
  then show ?thesis
    unfolding decode_pointer_field_def Let_def
    by (intro total_intros func [OF ok] alloc init rel)
      (auto simp del: not_None_eq)
qed

lemma callback_loop_total:
  assumes "\<And>s w s' w'. istream_ok s \<Longrightarrow> cb s w = (True, s', w') \<Longrightarrow>
      istream_ok s' \<and> (bytes_left s' = 0 \<or> bytes_left s' < bytes_left s)"
  shows "istream_ok s \<Longrightarrow> unat (bytes_left s) < k \<Longrightarrow> callback_loop k cb s w \<noteq> None"
proof (induction k arbitrary: s w)
  case 0 then show ?case by simp
next
  case (Suc k)
  obtain ok s1 w1 where cb: "cb s w = (ok, s1, w1)" by (metis prod_cases3)
  have "ok \<Longrightarrow> bytes_left s1 \<noteq> 0 \<Longrightarrow> callback_loop k cb s1 w1 \<noteq> None"
    using assms [OF Suc.prems(1), of w s1 w1] cb Suc.prems(2) by (intro Suc.IH) (auto simp: word_less_nat_alt)
  then show ?case using cb by (simp add: d_bind_def del: not_None_eq)
qed

lemma callback_step:
  assumes "callbacks_progress env" "istream_ok s" "cb_decode env fn s fld a w = (True, s', w')"
  shows "istream_ok s' \<and> (bytes_left s' = 0 \<or> bytes_left s' < bytes_left s)"
proof -
  have st: "i_step s s'" using assms by (metis callbacks_progress_def callbacks_safe_def fst_conv snd_conv)
  have "bytes_left s' < bytes_left s" if "0 < bytes_left s" using assms that unfolding callbacks_progress_def by blast
  moreover have "bytes_left s' \<le> bytes_left s" using st by (simp add: i_step_def)
  ultimately show ?thesis
    using i_step_ok [OF assms(2) st] by (cases "bytes_left s = 0") (auto simp: word_gt_0)
qed

lemma decode_callback_total:
  assumes "callbacks_progress env" "istream_ok s"
  shows "decode_callback_field depth env s wt it w \<noteq> None"
proof -
  have "callback_loop (depth + Suc (unat (bytes_left sub))) (\<lambda>sub w1. cb_decode env fn sub fld a w1) sub w' \<noteq> None"
    if "pb_make_string_substream s = (Some sub, s1)" for sub s1 fn fld a w'
    using make_substream_ok(1) [OF assms(2) that] callback_step [OF assms(1)] by (intro callback_loop_total) auto
  then show ?thesis
    unfolding decode_callback_field_def Let_def
    by (intro if_total substream_total)
      (auto simp: case_prod_beta d_error_def simp del: callback_loop.simps add_Suc_right
        split: option.splits bool.splits prod.splits)
qed

lemma release_union_total:
  assumes "decodable depth (d_tables env) fs" "iter_in fs it"
  shows "pb_release_union_field depth env s it w \<noteq> None"
proof -
  have "pb_release_single_field depth env (snd (pb_field_iter_find it t)) w \<noteq> None" for t
    using assms by (intro release_single_total iter_in_find)
  then show ?thesis
    unfolding pb_release_union_field_def Let_def case_prod_beta
    by (intro if_total case_total) simp_all
qed

lemma release_union_iter:
  assumes "iter_in fs it" "pb_release_union_field depth env s it w = Some (k, s1, w1, it1)"
  shows "iter_in fs it1"
  using assms iter_in_find [OF assms(1)] iter_in_find [OF iter_in_find [OF assms(1)]]
  by (auto simp: pb_release_union_field_def Let_def case_prod_beta split: if_splits option.splits)

lemma decode_field_total:
  assumes dec: "decodable (Suc depth) (d_tables env) fs" and it: "iter_in fs it"
    and nested: "\<And>f. has_submessage f \<Longrightarrow> decodable depth (d_tables env) (d_tables env (ptr f)) \<Longrightarrow> nested_total env d f"
    and cb: "callbacks_progress env" and ok: "istream_ok s"
  shows "decode_field (Suc depth) env d s wt it w \<noteq> None"
proof -
  have defs: "pb_message_set_to_defaults (Suc depth) env (d_tables env (ptr (iter_field it1))) a w' \<noteq> None"
    if "iter_in fs it1" "has_submessage (iter_field it1)" for it1 a w'
    using decodable_field(2) [OF dec that] by (intro message_defaults_total decodable_Suc)
  have nest: "nested_total env d (iter_field it1)" if "iter_in fs it1" for it1
  proof (cases "has_submessage (iter_field it1)")
    case True then show ?thesis using nested decodable_field(2) [OF dec that] by blast
  next
    case False then show ?thesis by (simp add: nested_total_def)
  qed
  let ?rel = "if PB_HTYPE (ftype (iter_field it)) = PB_HTYPE_ONEOF
            then pb_release_union_field (Suc depth) env s it w else Some (True, s, w, it)"
  obtain k s1 w1 it1 where r: "?rel = Some (k, s1, w1, it1)"
    using release_union_total [OF dec it, of s w] by (auto simp del: not_None_eq) (metis option.exhaust prod_cases4)
  have it1: "iter_in fs it1" using r it release_union_iter [OF it] by (auto split: if_splits)
  have "istream_ok s1"
    using r ok release_union_stream [OF ok] i_step_ok [OF ok] by (auto split: if_splits)
  note st = this nest [OF it1] defs [OF it1] release_single_total [OF dec it1]
  have "decode_static_field (Suc depth) env d s1 wt it1 w1 \<noteq> None"
    if "PB_ATYPE (ftype (iter_field it1)) = PB_ATYPE_STATIC"
    by (rule decode_static_total [OF st(2) that st(1,3)])
  moreover have "decode_pointer_field (Suc depth) env d s1 wt it1 w1 \<noteq> None"
    if "PB_ATYPE (ftype (iter_field it1)) = PB_ATYPE_POINTER"
    by (rule decode_pointer_total [OF st(2) that st(1,3,4)])
  moreover have "decode_callback_field (Suc depth) env s1 wt it1 w1 \<noteq> None"
    by (rule decode_callback_total [OF cb st(1)])
  ultimately show ?thesis
    unfolding decode_field_def r by (cases k) (simp_all add: Let_def del: not_None_eq)
qed

lemma decode_field_iter:
  assumes "iter_in fs it" "decode_field depth env d s wt it w = Some (r, it1)"
  shows "iter_in fs it1"
  using assms release_union_iter [OF assms(1)]
  by (auto simp: decode_field_def Let_def split: if_splits option.splits bool.splits prod.splits)

section \<open>Messages\<close>

lemma decode_tag_bound:
  assumes "pb_decode_tag s = (Some (wt, t), eof, s1)" shows "t < - 1"
proof -
  obtain v where "t = drop_bit 3 v" using assms by (auto simp: pb_decode_tag_def split: prod.splits option.splits if_splits)
  then have "unat t = unat v div 8" by (simp add: drop_bit_eq_div unat_div)
  moreover have "unat v < 2 ^ 32" using unsigned_less [of v] by simp
  ultimately have "unat t < 2 ^ 29" by simp
  moreover have "unat (- 1 :: 32 word) = 2 ^ 32 - 1" by (simp add: unsigned_minus_1_eq_mask mask_eq_exp_minus_1)
  ultimately show ?thesis by (simp add: word_less_nat_alt)
qed

lemma find_loop_none:
  "(\<And>it. iter_in fs it \<Longrightarrow> \<not> P (iter_field it)) \<Longrightarrow> iter_in fs it \<Longrightarrow> \<not> fst (iter_find_loop k P start it)"
  by (induction k arbitrary: it) (auto simp: Let_def iter_in_next)

lemma find_extension_none:
  assumes "decodable (Suc depth) tbls fs" "iter_in fs it"
  shows "\<not> fst (find_extension_field it)"
  unfolding find_extension_field_def
  by (rule find_loop_none [OF _ assms(2)]) (rule decodable_field(1) [OF assms(1)])

lemma find_extension_iter: "iter_in fs it \<Longrightarrow> iter_in fs (snd (find_extension_field it))"
  by (simp add: find_extension_field_def iter_in_find_loop del: iter_find_loop.simps)

lemma decode_unknown_total:
  assumes dec: "decodable (Suc depth) (d_tables env) fs" and it: "iter_in fs (l_iter l)" and t: "t < - 1"
  shows "\<exists>ok s1 w1 l1. decode_unknown (Suc depth) env d s t wt l w = Some ((ok, s1, w1), l1) \<and> iter_in fs (l_iter l1)"
  using find_extension_none [OF dec it] find_extension_iter [OF it] it t
  by (auto simp: decode_unknown_def Let_def case_prod_beta)

lemma decode_known_total:
  assumes dec: "decodable (Suc depth) (d_tables env) fs" and it: "iter_in fs (l_iter l)"
    and nested: "\<And>f. has_submessage f \<Longrightarrow> decodable depth (d_tables env) (d_tables env (ptr f)) \<Longrightarrow> nested_total env d f"
    and cb: "callbacks_progress env" and ok: "istream_ok s"
  shows "\<exists>ok s1 w1 l1. decode_known (Suc depth) env d s wt l w = Some ((ok, s1, w1), l1) \<and> iter_in fs (l_iter l1)"
proof -
  have fld: "\<exists>ok s1 w1 it2. decode_field (Suc depth) env d s wt it1 w' = Some ((ok, s1, w1), it2) \<and> iter_in fs it2"
    if "iter_in fs it1" for it1 w'
    using decode_field_total [OF dec that nested cb ok] decode_field_iter [OF that] by (metis option.exhaust prod_cases3 surj_pair)
  have lift: "\<exists>ok s1 w1 l1. map_option (\<lambda>(r, it2). (r, g it2)) F = Some ((ok, s1, w1), l1) \<and> iter_in fs (l_iter l1)"
    if "\<exists>ok s1 w1 it2. F = Some ((ok, s1, w1), it2) \<and> iter_in fs it2" "\<And>it2. l_iter (g it2) = it2"
    for F :: "('a dres \<times> pb_field_iter_t) option" and g :: "pb_field_iter_t \<Rightarrow> dec_locals"
    using that by auto
  have pick: "(c \<Longrightarrow> Q x) \<Longrightarrow> (\<not> c \<Longrightarrow> Q y) \<Longrightarrow> Q (if c then x else y)"
    for c x y and Q :: "('a dres \<times> dec_locals) option \<Rightarrow> bool" by simp
  show ?thesis
    unfolding decode_known_def Let_def
  proof (rule pick, goal_cases)
    case 1 show ?case using it by (auto simp: d_error_def)
  next
    case 2 show ?case by (rule lift [OF fld]) (use it in simp_all)
  qed
qed

lemma decode_one_total:
  assumes dec: "decodable (Suc depth) (d_tables env) fs" and it: "iter_in fs (l_iter l)"
    and nested: "\<And>f. has_submessage f \<Longrightarrow> decodable depth (d_tables env) (d_tables env (ptr f)) \<Longrightarrow> nested_total env d f"
    and cb: "callbacks_progress env" and ok: "istream_ok s" and t: "t < - 1"
  shows "\<exists>ok s1 w1 l1. decode_one (Suc depth) env d s t wt l w = Some ((ok, s1, w1), l1) \<and> iter_in fs (l_iter l1)"
  using decode_known_total [OF dec _ nested cb ok, of "l\<lparr>l_iter := snd (pb_field_iter_find (l_iter l) t)\<rparr>"]
    decode_unknown_total [OF dec _ t, of "l\<lparr>l_iter := snd (pb_field_iter_find (l_iter l) t)\<rparr>"] iter_in_find [OF it]
  by (simp add: decode_one_def Let_def case_prod_beta)

lemma decode_loop_total:
  assumes dec: "decodable (Suc depth) (d_tables env) fs" and safe: "msg_safe d"
    and nested: "\<And>f. has_submessage f \<Longrightarrow> decodable depth (d_tables env) (d_tables env (ptr f)) \<Longrightarrow> nested_total env d f"
    and cb: "callbacks_progress env"
  shows "iter_in fs (l_iter l) \<Longrightarrow> istream_ok s \<Longrightarrow> unat (bytes_left s) < k \<Longrightarrow>
    decode_loop k (Suc depth) env d s l w \<noteq> None"
proof (induction k arbitrary: s l w)
  case 0 then show ?case by simp
next
  case (Suc k)
  obtain r eof s1 where t: "pb_decode_tag s = (r, eof, s1)" by (metis prod_cases3)
  show ?case
  proof (cases r)
    case None then show ?thesis using t by (simp del: not_None_eq)
  next
    case (Some q)
    obtain wt tg where q: "q = (wt, tg)" by force
    have s1: "istream_ok s1" using pb_decode_tag_step [OF Suc.prems(2)] i_step_ok [OF Suc.prems(2)] t by simp
    have lt: "bytes_left s1 < bytes_left s"
      using t Some q varint32_eof_progress [OF _ Suc.prems(2)]
      by (auto simp: pb_decode_tag_def split: prod.splits option.splits if_splits)
    obtain k' s2 w2 l2 where one: "decode_one (Suc depth) env d s1 tg wt l w = Some ((k', s2, w2), l2)"
      "iter_in fs (l_iter l2)"
      using decode_one_total [OF dec Suc.prems(1) nested cb s1 decode_tag_bound] t Some q by blast
    have cs: "callbacks_safe env" using cb by (simp add: callbacks_progress_def)
    have s2: "i_step s1 s2" using decode_one_safe [OF safe cs s1, of "Suc depth" tg wt l w] one by (simp add: d_safe_def)
    have "decode_loop k (Suc depth) env d s2 l2 w2 \<noteq> None"
      using one(2) i_step_ok [OF s1 s2] lt s2 Suc.prems(3)
      by (intro Suc.IH) (auto simp: word_less_nat_alt i_step_def word_le_nat_alt)
    then show ?thesis using t Some q one by (simp del: not_None_eq)
  qed
qed

lemma decode_message_total:
  assumes "decodable (Suc depth) (d_tables env) fs" "msg_safe d"
    and "\<And>f. has_submessage f \<Longrightarrow> decodable depth (d_tables env) (d_tables env (ptr f)) \<Longrightarrow> nested_total env d f"
    and "callbacks_progress env" "istream_ok s"
  shows "decode_message (Suc depth) env d s fs a w \<noteq> None"
  unfolding decode_message_def Let_def
  using decode_loop_total [OF assms(1-4)] assms(5) iter_in_begin [of fs a]
  by (simp del: not_None_eq decode_loop.simps)

lemma decode_msg_total:
  assumes "callbacks_progress env"
  shows "decodable depth (d_tables env) fs \<Longrightarrow> istream_ok s \<Longrightarrow> decode_msg depth env init s fs a w \<noteq> None"
proof (induction depth arbitrary: init s fs a w)
  case 0 then show ?case by simp
next
  case (Suc depth)
  have safe: "msg_safe (decode_msg depth env)"
    using assms decode_msg_step by (auto simp: msg_safe_def callbacks_progress_def)
  have "nested_total env (decode_msg depth env) f" if "decodable depth (d_tables env) (d_tables env (ptr f))" for f
    using Suc.IH [OF that] by (simp add: nested_total_def del: not_None_eq)
  note m = decode_message_total [OF Suc.prems(1) safe this assms Suc.prems(2)]
  show ?case
    unfolding decode_msg.simps
    by (intro if_total case_total bind_total message_defaults_total Suc.prems m)
       (auto simp: pb_release_total [OF Suc.prems(1)] case_prod_beta simp del: not_None_eq)
qed

lemma decode_delimited_total:
  assumes "callbacks_progress env" "decodable depth (d_tables env) fs" "istream_ok s"
  shows "decode_delimited init depth env s fs a w \<noteq> None"
  unfolding decode_delimited_def
  by (intro substream_total)
    (use decode_msg_total [OF assms(1,2)] make_substream_ok(1) [OF assms(3)] in \<open>simp_all del: not_None_eq\<close>)

end
