(* ===== verification/Pb_Decode_Frame.thy ===== *)
theory Pb_Decode_Frame
  imports Pb_Decode_Total
begin

text \<open>
  Memory safety of decoding into structures without pointer fields: whatever the input is, the decoder
  changes memory only inside the structure it decodes into (and where the callbacks write), and
  neither touches the heap nor does anything undefined. The condition on the descriptor table is
  \<open>static_ok\<close>: every member and every count, flag or oneof selector lies inside the structure, an entry is
  large enough for its type, and tables of submessages fit the member they describe.
\<close>

section \<open>Changes within a region\<close>

abbreviation span :: "addr \<Rightarrow> int \<Rightarrow> addr set" where
  "span a n \<equiv> {a ..< a + n}"

definition within :: "addr set \<Rightarrow> world \<Rightarrow> world \<Rightarrow> bool" where
  "within R w w' \<longleftrightarrow> unchanged_outside R (wmem w) (wmem w') \<and> blocks w' = blocks w \<and> (faulty w' \<longrightarrow> faulty w)"

lemma within_refl [simp]: "within R w w"
  by (simp add: within_def)

lemma within_trans: "within R w w1 \<Longrightarrow> within R w1 w2 \<Longrightarrow> within R w w2"
  unfolding within_def by (auto intro: unchanged_outside_trans)

lemma within_mono: "within A w w' \<Longrightarrow> A \<subseteq> B \<Longrightarrow> within B w w'"
  by (auto simp: within_def intro: unchanged_outside_mono)

lemma within_bytes:
  "span a (int (length bs)) \<subseteq> R \<Longrightarrow> within R w (w\<lparr>wmem := store_bytes (wmem w) a bs\<rparr>)"
  using store_bytes_unchanged [of a bs "wmem w"] by (auto simp: within_def intro: unchanged_outside_mono)

lemma within_poke: "span a (int (length bs)) \<subseteq> R \<Longrightarrow> within R w (poke a bs w)"
  by (simp add: poke_def within_bytes)

lemma within_memset: "span a (uint n) \<subseteq> R \<Longrightarrow> within R w (memset0 a n w)"
  by (simp add: memset0_def within_poke)

lemma within_fixed_count [simp]: "within R w (w1\<lparr>fixed_count_size := n\<rparr>) = within R w w1"
  "within R (w\<lparr>fixed_count_size := n\<rparr>) w1 = within R w w1"
  by (simp_all add: within_def)

lemma within_set_size: "(\<And>a. r = At a \<Longrightarrow> span a 4 \<subseteq> R) \<Longrightarrow> within R w (set_size r n w)"
  by (cases r) (simp_all add: set_size_def store_u32_def within_bytes)

lemma within_set_flag: "r = At a \<Longrightarrow> span a 1 \<subseteq> R \<Longrightarrow> within R w (set_flag r b w)"
  by (auto simp: set_flag_def store_bool_def intro!: within_bytes)

lemma within_error [simp]: "snd (snd (d_error msg s w)) = w"
  by (simp add: d_error_def)

section \<open>Field decoders write one entry\<close>

locale bounded_decoder =
  fixes dec :: "'u pb_istream \<Rightarrow> pb_field_t \<Rightarrow> addr \<Rightarrow> world \<Rightarrow> 'u dres" and room :: "pb_field_t \<Rightarrow> bool"
  assumes dec_within: "room f \<Longrightarrow> within (span a (uint (data_size f))) w (snd (snd (dec s f a w)))"

lemma run_read_length: "run_read s n = (ok, xs, s1) \<Longrightarrow> length xs \<le> unat n"
  by (auto simp: run_read_def buf_read_def Let_def split: source.splits prod.splits if_splits)

lemma pb_read_length:
  assumes "pb_read s True n = (ok, xs, s1)" shows "length xs \<le> unat n"
  using assms run_read_length [of s n]
  by (auto simp: pb_read_def pb_read_direct_def Let_def split: if_splits prod.splits)

lemma within_read_into: "span a (int (unat n)) \<subseteq> R \<Longrightarrow> within R w (snd (snd (read_into s a n w)))"
proof -
  assume R: "span a (int (unat n)) \<subseteq> R"
  obtain ok xs s1 where r: "pb_read s True n = (ok, xs, s1)" by (metis prod_cases3)
  have "int (length xs) \<le> int (unat n)" using pb_read_length [OF r] by (simp only: of_nat_le_iff)
  then have "span a (int (length xs)) \<subseteq> span a (int (unat n))" by auto
  with R have "within R w (poke a xs w)" by (intro within_poke) blast
  then show ?thesis using r by (simp add: read_into_def)
qed

lemma within_store_checked: "within (span a (uint (data_size f))) w (snd (snd (store_checked sg s f a v w)))"
  by (auto simp: store_checked_def store_int_def store_u64_def store_u32_def store_u16_def store_u8_def
      intro!: within_bytes split: option.splits)

interpretation bounded_bool: bounded_decoder "\<lambda>s f a w. pb_dec_bool s a w" "\<lambda>f. 1 \<le> uint (data_size f)"
  by unfold_locales (auto simp: pb_dec_bool_def store_bool_def intro!: within_bytes split: prod.splits option.splits)

interpretation bounded_varint: bounded_decoder pb_dec_varint "\<lambda>f. True"
  by unfold_locales (auto simp: pb_dec_varint_def Let_def within_store_checked split: prod.splits option.splits)

interpretation bounded_uvarint: bounded_decoder pb_dec_uvarint "\<lambda>f. True"
  by unfold_locales (auto simp: pb_dec_uvarint_def within_store_checked split: prod.splits option.splits)

interpretation bounded_svarint: bounded_decoder pb_dec_svarint "\<lambda>f. True"
  by unfold_locales (auto simp: pb_dec_svarint_def within_store_checked split: prod.splits option.splits)

interpretation bounded_fixed32: bounded_decoder "\<lambda>s f a w. pb_dec_fixed32 s a w" "\<lambda>f. 4 \<le> uint (data_size f)"
  by unfold_locales (auto simp: pb_dec_fixed32_def store_u32_def intro!: within_bytes split: prod.splits option.splits)

interpretation bounded_fixed64: bounded_decoder "\<lambda>s f a w. pb_dec_fixed64 s a w" "\<lambda>f. 8 \<le> uint (data_size f)"
  by unfold_locales (auto simp: pb_dec_fixed64_def store_u64_def intro!: within_bytes split: prod.splits option.splits)

interpretation bounded_fixed_length: bounded_decoder pb_dec_fixed_length_bytes "\<lambda>f. True"
  by unfold_locales
    (auto simp: pb_dec_fixed_length_bytes_def intro!: within_memset within_read_into split: prod.splits option.splits)

interpretation bounded_string: bounded_decoder "pb_dec_string env" "\<lambda>f. PB_ATYPE (ftype f) \<noteq> PB_ATYPE_POINTER" for env
proof
  fix f :: pb_field_t and a w and s :: "'a pb_istream"
  assume at: "PB_ATYPE (ftype f) \<noteq> PB_ATYPE_POINTER"
  let ?R = "span a (uint (data_size f))"
  have fill: "within ?R w (snd (snd (let (status, s3, w2) = read_into s1 a (ucast sz) w in (status, s3, poke (a + uint sz) [0] w2))))"
    if "uint sz + 1 \<le> uint (data_size f)" for s1 :: "'a pb_istream" and sz :: "32 word"
    using that within_read_into [of a "ucast sz" ?R w s1]
    by (auto simp: case_prod_beta intro!: within_trans [OF _ within_poke])
  have le: "uint sz + 1 \<le> uint (data_size f)"
    if "\<not> (ucast (sz + 1) :: size_t) < ucast sz" "\<not> (ucast (sz + 1) :: size_t) > ucast (data_size f)" for sz :: "32 word"
  proof -
    have "unat sz < 2 ^ 32" using unsigned_less [of sz] by simp
    then have "unat sz + 1 \<le> unat (data_size f)"
      using that by (cases "unat sz + 1 = 2 ^ 32") (auto simp: word_less_nat_alt unat_word_ariths)
    then show ?thesis unfolding uint_nat by linarith
  qed
  show "within ?R w (snd (snd (pb_dec_string env s f a w)))"
    using at fill le by (auto simp: pb_dec_string_def Let_def split: prod.splits option.splits)
qed

interpretation bounded_bytes: bounded_decoder "pb_dec_bytes env" "\<lambda>f. PB_ATYPE (ftype f) \<noteq> PB_ATYPE_POINTER" for env
proof
  fix f :: pb_field_t and a w and s :: "'a pb_istream"
  assume at: "PB_ATYPE (ftype f) \<noteq> PB_ATYPE_POINTER"
  let ?R = "span a (uint (data_size f))"
  have fill: "within ?R w (snd (snd (read_into s1 (bytes_array_bytes a) (ucast sz) (w\<lparr>wmem := store_u32 (wmem w) a sz\<rparr>))))"
    if "uint sz + 4 \<le> uint (data_size f)" for s1 :: "'a pb_istream" and sz :: "32 word"
  proof (rule within_trans)
    have "4 \<le> uint (data_size f)" using that uint_ge_0 [of sz] by linarith
    then show "within ?R w (w\<lparr>wmem := store_u32 (wmem w) a sz\<rparr>)" by (auto simp: store_u32_def intro!: within_bytes)
  qed (use that in \<open>auto simp: bytes_array_bytes_def intro!: within_read_into\<close>)
  have le: "uint sz + 4 \<le> uint (data_size f)"
    if "\<not> PB_BYTES_ARRAY_T_ALLOCSIZE (ucast sz) > ucast (data_size f)" for sz :: "32 word"
  proof -
    have "unat sz < 2 ^ 32" using unsigned_less [of sz] by simp
    then have "unat sz + 4 \<le> unat (data_size f)"
      using that by (auto simp: word_less_nat_alt unat_word_ariths PB_BYTES_ARRAY_T_ALLOCSIZE_def)
    then show ?thesis unfolding uint_nat by linarith
  qed
  show "within ?R w (snd (snd (pb_dec_bytes env s f a w)))"
    using at fill le by (auto simp: pb_dec_bytes_def Let_def split: prod.splits option.splits)
qed

section \<open>Tables of structures without pointers\<close>

definition value_room :: "pb_field_t \<Rightarrow> bool" where
  "value_room f \<longleftrightarrow>
     PB_LTYPE (ftype f) \<le> PB_LTYPE_FIXED_LENGTH_BYTES \<and>
     (PB_LTYPE (ftype f) = PB_LTYPE_BOOL \<longrightarrow> 1 \<le> uint (data_size f)) \<and>
     (PB_LTYPE (ftype f) = PB_LTYPE_FIXED32 \<longrightarrow> 4 \<le> uint (data_size f)) \<and>
     (PB_LTYPE (ftype f) = PB_LTYPE_FIXED64 \<longrightarrow> 8 \<le> uint (data_size f))"

definition member_ok :: "int \<Rightarrow> pb_table \<Rightarrow> nat \<Rightarrow> bool" where
  "member_ok sz fs k \<longleftrightarrow>
     (let f = field_at fs k; off = field_layout fs k; cnt = size_layout fs k; ht = PB_HTYPE (ftype f) in
      PB_ATYPE (ftype f) = PB_ATYPE_CALLBACK \<or>
      PB_ATYPE (ftype f) = PB_ATYPE_STATIC \<and> value_room f \<and> 0 \<le> off \<and> off + member_size f \<le> sz \<and>
      (ht = PB_HTYPE_OPTIONAL \<and> cnt \<noteq> off \<longrightarrow> 0 \<le> cnt \<and> cnt + 1 \<le> sz) \<and>
      (ht = PB_HTYPE_REPEATED \<or> ht = PB_HTYPE_ONEOF \<longrightarrow> 0 \<le> cnt \<and> cnt + 4 \<le> sz) \<and>
      (ht = PB_HTYPE_REPEATED \<longrightarrow> uint (data_size f) * uint (array_size f) < 2 ^ 32))"

primrec static_ok :: "nat \<Rightarrow> pb_tables \<Rightarrow> int \<Rightarrow> pb_table \<Rightarrow> bool" where
  "static_ok 0 tbls sz fs = False"
| "static_ok (Suc depth) tbls sz fs =
     (0 < num_fields fs \<and>
      (\<forall>k \<in> set [0..<num_fields fs]. let f = field_at fs k in
         member_ok sz fs k \<and> PB_LTYPE (ftype f) \<noteq> PB_LTYPE_EXTENSION \<and>
         (has_submessage f \<longrightarrow> static_ok depth tbls (uint (data_size f)) (tbls (ptr f)))))"

lemma field_at_takeWhile:
  "f \<in> set (takeWhile (\<lambda>f. tag f \<noteq> 0) fs) \<Longrightarrow> \<exists>k < num_fields fs. f = field_at fs k"
proof -
  assume "f \<in> set (takeWhile (\<lambda>f. tag f \<noteq> 0) fs)"
  then obtain i where i: "i < num_fields fs" "f = takeWhile (\<lambda>f. tag f \<noteq> 0) fs ! i"
    by (auto simp: in_set_conv_nth num_fields_def)
  then have "f = field_at fs i" using num_fields_le [of fs] by (simp add: num_fields_def takeWhile_nth field_at_def)
  with i show ?thesis by blast
qed

lemma static_decodable: "static_ok depth tbls sz fs \<Longrightarrow> decodable depth tbls fs"
proof (induction depth arbitrary: sz fs)
  case 0 then show ?case by simp
next
  case (Suc depth)
  have "PB_LTYPE (ftype f) \<noteq> PB_LTYPE_EXTENSION \<and> (has_submessage f \<longrightarrow> decodable depth tbls (tbls (ptr f)))"
    if "k < num_fields fs" "f = field_at fs k" for f k
    using Suc.prems Suc.IH that by (auto simp: Let_def)
  then show ?case using Suc.prems field_at_takeWhile [of _ fs] by fastforce
qed

lemma static_ok_Suc: "static_ok depth tbls sz fs \<Longrightarrow> static_ok (Suc depth) tbls sz fs"
proof (induction depth arbitrary: sz fs)
  case 0 then show ?case by simp
next
  case (Suc depth)
  from Suc.prems Suc.IH show ?case
    unfolding static_ok.simps(2) [of "Suc depth"] by (auto simp: static_ok.simps(2) Let_def)
qed

section \<open>Iterators of such tables\<close>

definition iter_ok :: "pb_table \<Rightarrow> addr \<Rightarrow> pb_field_iter_t \<Rightarrow> bool" where
  "iter_ok fs a it \<longleftrightarrow> (\<exists>k < num_fields fs. it = iter_at fs a k \<or>
     it = (iter_at fs a k)\<lparr>pSize := FixedCount\<rparr> \<and> PB_HTYPE (ftype (field_at fs k)) = PB_HTYPE_REPEATED)"

lemma iter_ok_at: "k < num_fields fs \<Longrightarrow> iter_ok fs a (iter_at fs a k)"
  by (auto simp: iter_ok_def)

lemma iter_ok_in: "iter_ok fs a it \<Longrightarrow> iter_in fs it"
  by (auto simp: iter_ok_def iter_in_at)

lemma iter_ok_next:
  assumes "iter_ok fs a it" shows "iter_ok fs a (snd (pb_field_iter_next it))"
proof -
  obtain k where k: "k < num_fields fs" and it: "it = iter_at fs a k \<or>
     it = (iter_at fs a k)\<lparr>pSize := FixedCount\<rparr> \<and> PB_HTYPE (ftype (field_at fs k)) = PB_HTYPE_REPEATED"
    using assms by (auto simp: iter_ok_def)
  have eq: "pb_field_iter_next it = pb_field_iter_next (iter_at fs a k)"
    using it
  proof
    assume "it = (iter_at fs a k)\<lparr>pSize := FixedCount\<rparr> \<and> PB_HTYPE (ftype (field_at fs k)) = PB_HTYPE_REPEATED"
    then show ?thesis
      by (simp add: pb_field_iter_next_def Let_def same_union_def iter_field_at [OF k] iter_at_pos [OF k]
          tag_below_num_fields [OF k] cong: if_cong)
  qed simp
  show ?thesis
  proof (cases "Suc k < num_fields fs")
    case True then show ?thesis using iter_ok_at [OF True] by (simp add: eq iter_next_step [OF True])
  next
    case False
    then have "Suc k = num_fields fs" using k by simp
    from iter_next_wrap [OF this] show ?thesis using k iter_ok_at [of 0 fs a] by (simp add: eq)
  qed
qed

lemma iter_ok_find: "iter_ok fs a it \<Longrightarrow> iter_ok fs a (snd (pb_field_iter_find it t))"
proof -
  have "iter_ok fs a it \<Longrightarrow> iter_ok fs a (snd (iter_find_loop k P start it))" for k P start
    by (induction k arbitrary: it) (auto simp: Let_def iter_ok_next)
  then show "iter_ok fs a it \<Longrightarrow> ?thesis" by (simp only: pb_field_iter_find_def)
qed

definition it_room :: "addr set \<Rightarrow> pb_field_iter_t \<Rightarrow> bool" where
  "it_room R it \<longleftrightarrow>
     (let f = iter_field it; ht = PB_HTYPE (ftype f) in
      value_room f \<and> span (pData it) (member_size f) \<subseteq> R \<and>
      (\<forall>x. pSize it = At x \<longrightarrow>
         (ht = PB_HTYPE_OPTIONAL \<and> x \<noteq> pData it \<longrightarrow> span x 1 \<subseteq> R) \<and>
         (ht = PB_HTYPE_REPEATED \<or> ht = PB_HTYPE_ONEOF \<longrightarrow> span x 4 \<subseteq> R)) \<and>
      (pSize it = FixedCount \<longrightarrow> ht = PB_HTYPE_REPEATED) \<and>
      (ht = PB_HTYPE_REPEATED \<longrightarrow> uint (data_size f) * uint (array_size f) < 2 ^ 32))"

lemma iter_ok_room:
  assumes "static_ok (Suc depth) tbls sz fs" "iter_ok fs a it" "span a sz \<subseteq> R"
    "PB_ATYPE (ftype (iter_field it)) \<noteq> PB_ATYPE_CALLBACK"
  shows "it_room R it" "PB_ATYPE (ftype (iter_field it)) = PB_ATYPE_STATIC"
    "has_submessage (iter_field it) \<Longrightarrow>
       static_ok depth tbls (uint (data_size (iter_field it))) (tbls (ptr (iter_field it)))"
proof -
  obtain k where k: "k < num_fields fs" and it: "it = iter_at fs a k \<or>
     it = (iter_at fs a k)\<lparr>pSize := FixedCount\<rparr> \<and> PB_HTYPE (ftype (field_at fs k)) = PB_HTYPE_REPEATED"
    using assms(2) by (auto simp: iter_ok_def)
  have f: "iter_field it = field_at fs k" using it iter_field_at [OF k] by auto
  have mem: "member_ok sz fs k" and "has_submessage (field_at fs k) \<longrightarrow>
      static_ok depth tbls (uint (data_size (field_at fs k))) (tbls (ptr (field_at fs k)))"
    using assms(1) k by (auto simp: Let_def)
  then show "has_submessage (iter_field it) \<Longrightarrow>
       static_ok depth tbls (uint (data_size (iter_field it))) (tbls (ptr (iter_field it)))" by (simp add: f)
  show "PB_ATYPE (ftype (iter_field it)) = PB_ATYPE_STATIC" using mem assms(4) f by (auto simp: member_ok_def Let_def)
  show "it_room R it"
    using mem assms(3,4) it iter_at_layout [OF k, of a] f
    by (auto simp: member_ok_def it_room_def Let_def subset_eq)
qed

section \<open>Defaults and release\<close>

lemma world_loop_within:
  assumes "\<And>it w w1. iter_ok fs a it \<Longrightarrow> body it w = Some w1 \<Longrightarrow> within R w w1"
  shows "iter_ok fs a it \<Longrightarrow> world_loop n body it w = Some w' \<Longrightarrow> within R w w'"
proof (induction n arbitrary: it w)
  case 0 then show ?case by simp
next
  case (Suc n)
  obtain w1 where b: "body it w = Some w1" using Suc.prems(2) by (auto simp: Option.bind_eq_Some_conv)
  have w1: "within R w w1" by (rule assms [OF Suc.prems(1) b])
  have "(if fst (pb_field_iter_next it) then world_loop n body (snd (pb_field_iter_next it)) w1 else Some w1) = Some w'"
    using Suc.prems(2) b by (simp add: case_prod_beta)
  then show ?case
    using within_trans [OF w1 Suc.IH [OF iter_ok_next [OF Suc.prems(1)]]] w1 by (auto split: if_splits)
qed

lemma message_loop_within:
  assumes body: "\<And>it w w1. iter_ok fs a it \<Longrightarrow> body it w = Some w1 \<Longrightarrow> within R w w1"
  shows "message_defaults body fs a w = Some w' \<Longrightarrow> within R w w'"
    and "release_message body fs a w = Some w' \<Longrightarrow> within R w w'"
proof -
  obtain more it where b: "pb_field_iter_begin fs a = (more, it)" by force
  then have "more \<Longrightarrow> iter_ok fs a it"
    using iter_ok_at [of 0 fs a] iter_begin_at [of fs a] by (auto simp: num_fields_pos_iff pb_field_iter_begin_def Let_def)
  then show "message_defaults body fs a w = Some w' \<Longrightarrow> within R w w'"
    and "release_message body fs a w = Some w' \<Longrightarrow> within R w w'"
    using world_loop_within [OF body]
    by (auto simp: b message_defaults_def release_message_def simp del: world_loop.simps split: if_splits)
qed

lemma release_items_within:
  assumes "\<And>a w w1. rel a w = Some w1 \<Longrightarrow> within R w w1"
  shows "release_items n rel step a w = Some w' \<Longrightarrow> within R w w'"
proof (induction n arbitrary: a w)
  case 0 then show ?case by simp
next
  case (Suc n)
  obtain w1 where "rel a w = Some w1" "release_items n rel step (a + step) w1 = Some w'"
    using Suc.prems by (auto simp: Option.bind_eq_Some_conv)
  then show ?case using assms Suc.IH within_trans by blast
qed

lemma release_single_within:
  "static_ok depth (d_tables env) sz fs \<Longrightarrow> iter_ok fs a it \<Longrightarrow>
   pb_release_single_field depth env it w = Some w' \<Longrightarrow> within {} w w'"
proof (induction depth arbitrary: sz fs a it w w')
  case 0 then show ?case by simp
next
  case (Suc depth)
  let ?f = "iter_field it"
  have ext: "PB_LTYPE (ftype ?f) \<noteq> PB_LTYPE_EXTENSION"
    by (rule decodable_field(1) [OF static_decodable [OF Suc.prems(1)] iter_ok_in [OF Suc.prems(2)]])
  show ?case
  proof (cases "PB_ATYPE (ftype ?f) = PB_ATYPE_CALLBACK")
    case True
    then show ?thesis using Suc.prems(3) ext by (auto simp: Let_def split: if_splits)
  next
    case False
    note r = iter_ok_room [OF Suc.prems(1,2) _ False, OF subset_refl]
    have "within {} w0 w1" if "release_items n (release_message (pb_release_single_field depth env) (d_tables env (ptr ?f))) z b w0 = Some w1"
      "has_submessage ?f" for n z b w0 w1
      by (rule release_items_within [OF message_loop_within(2) that(1)]) (rule Suc.IH [OF r(3) [OF that(2)]])
    then show ?thesis
      using Suc.prems(3) ext r(2)
      by (auto simp: Let_def has_submessage_def split: if_splits)
  qed
qed

lemma set_to_default_within:
  "static_ok depth (d_tables env) sz fs \<Longrightarrow> iter_ok fs a it \<Longrightarrow> span a sz \<subseteq> R \<Longrightarrow>
   pb_field_set_to_default depth env it w = Some w' \<Longrightarrow> within R w w'"
proof (induction depth arbitrary: sz fs a it w w' R)
  case 0 then show ?case by simp
next
  case (Suc depth)
  let ?f = "iter_field it"
  have ext: "PB_LTYPE (ftype ?f) \<noteq> PB_LTYPE_EXTENSION"
    by (rule decodable_field(1) [OF static_decodable [OF Suc.prems(1)] iter_ok_in [OF Suc.prems(2)]])
  show ?case
  proof (cases "PB_ATYPE (ftype ?f) = PB_ATYPE_CALLBACK")
    case True
    then show ?thesis using Suc.prems(4) ext by (auto simp: Let_def split: if_splits)
  next
    case False
    note r = iter_ok_room [OF Suc.prems(1-3) False]
    let ?ht = "PB_HTYPE (ftype ?f)"
    have data: "span (pData it) (uint (data_size ?f)) \<subseteq> R" if "?ht \<noteq> PB_HTYPE_REPEATED"
      using r(1,2) that by (simp add: it_room_def member_size_def Let_def)
    have sub: "within R w0 w1" if "has_submessage ?f" "?ht \<noteq> PB_HTYPE_REPEATED"
      "message_defaults (pb_field_set_to_default depth env) (d_tables env (ptr ?f)) (pData it) w0 = Some w1" for w0 w1
      by (rule message_loop_within(1) [OF Suc.IH [OF r(3) [OF that(1)] _ data [OF that(2)]] that(3)])
    have flag: "within R w (set_flag (pSize it) False w)" if "?ht = PB_HTYPE_OPTIONAL" "pSize it \<noteq> At (pData it)"
      using r(1) that by (cases "pSize it") (auto simp: it_room_def Let_def intro!: within_set_flag)
    have count: "within R w (set_size (pSize it) 0 w)" if "?ht = PB_HTYPE_REPEATED \<or> ?ht = PB_HTYPE_ONEOF"
      using r(1) that by (intro within_set_size) (auto simp: it_room_def Let_def)
    have store: "within R w0 (poke (pData it) (load_bytes (wmem w0) b (unat (data_size ?f))) w0)"
        "within R w0 (memset0 (pData it) (data_size ?f) w0)" if "?ht \<noteq> PB_HTYPE_REPEATED" for w0 b
      using data [OF that] by (auto intro!: within_poke within_memset)
    show ?thesis
      using Suc.prems(4) ext r(2) sub flag count store
      by (cases rule: PB_HTYPE_cases [of "ftype ?f"])
        (auto simp: Let_def has_submessage_def intro: within_trans split: if_splits)
  qed
qed

lemma message_defaults_within:
  "static_ok depth (d_tables env) sz fs \<Longrightarrow> span a sz \<subseteq> R \<Longrightarrow>
   pb_message_set_to_defaults depth env fs a w = Some w' \<Longrightarrow> within R w w'"
  unfolding pb_message_set_to_defaults_def by (rule message_loop_within) (rule set_to_default_within)

lemma pb_release_within:
  "static_ok depth (d_tables env) sz fs \<Longrightarrow> pb_release depth env fs a w = Some w' \<Longrightarrow> within {} w w'"
  unfolding pb_release_def by (rule message_loop_within) (rule release_single_within)

section \<open>Fields\<close>

definition stays :: "addr set \<Rightarrow> world \<Rightarrow> 'u dres option \<Rightarrow> bool" where
  "stays R w r \<longleftrightarrow> (case r of None \<Rightarrow> True | Some (ok, s', w') \<Rightarrow> within R w w')"

definition callbacks_within :: "addr set \<Rightarrow> 'u dec_env \<Rightarrow> bool" where
  "callbacks_within R env \<longleftrightarrow> (\<forall>fn s fld a w. within R w (snd (snd (cb_decode env fn s fld a w))))"

definition nested_within :: "'u dec_env \<Rightarrow> addr set \<Rightarrow> 'u msg_decoder \<Rightarrow> pb_field_t \<Rightarrow> bool" where
  "nested_within env R dec f \<longleftrightarrow>
     (has_submessage f \<longrightarrow> (\<forall>init s a w. span a (uint (data_size f)) \<subseteq> R \<longrightarrow> stays R w (dec init s (d_tables env (ptr f)) a w)))"

lemma stays_None [simp]: "stays R w None"
  by (simp add: stays_def)

lemma stays_Some [simp]: "stays R w (Some r) = within R w (snd (snd r))"
  by (simp add: stays_def case_prod_beta)

lemma stays_trans: "within R w w1 \<Longrightarrow> stays R w1 r \<Longrightarrow> stays R w r"
  by (auto simp: stays_def intro: within_trans split: option.splits)

lemma if_stays: "(c \<Longrightarrow> stays R w x) \<Longrightarrow> (\<not> c \<Longrightarrow> stays R w y) \<Longrightarrow> stays R w (if c then x else y)"
  by simp

lemma bind_stays:
  "(\<And>w1. x = Some w1 \<Longrightarrow> within R w w1) \<Longrightarrow> (\<And>w1. stays R w1 (k w1)) \<Longrightarrow> stays R w (Option.bind x k)"
  by (cases x) (auto intro: stays_trans)

lemma d_bind_stays:
  assumes "stays R w r" "\<And>s1 w1. stays R w1 (k s1 w1)" shows "stays R w (d_bind r k)"
  using assms by (auto simp: d_bind_def intro: stays_trans split: option.splits)

lemma substream_stays:
  assumes "\<And>s1. stays R w (k0 s1)" "\<And>sub s1. stays R w (k sub s1)"
  shows "stays R w (case pb_make_string_substream s of (None, s1) \<Rightarrow> k0 s1 | (Some sub, s1) \<Rightarrow> k sub s1)"
  using assms by (cases "pb_make_string_substream s") (auto split: option.splits)

lemma result_stays:
  assumes "stays R w r" "\<And>ok sub w1. within R w w1 \<Longrightarrow> stays R w (k ok sub w1)"
  shows "stays R w (case r of None \<Rightarrow> None | Some (ok, sub, w1) \<Rightarrow> k ok sub w1)"
  using assms by (auto split: option.splits)

lemmas stays_intros = if_stays bind_stays d_bind_stays substream_stays result_stays

lemma submessage_stays:
  assumes "nested_within env R dec f" "has_submessage f" "span a (uint (data_size f)) \<subseteq> R"
  shows "stays R w (pb_dec_submessage env dec s f a w)"
  using assms unfolding pb_dec_submessage_def
  by (intro stays_intros) (auto simp: nested_within_def Let_def case_prod_beta)

lemma PB_DECODERS_stays:
  assumes "nested_within env R dec f" "PB_ATYPE (ftype f) = PB_ATYPE_STATIC" "value_room f"
    "PB_LTYPE (ftype f) \<noteq> PB_LTYPE_EXTENSION" "span a (uint (data_size f)) \<subseteq> R"
  shows "stays R w (PB_DECODERS env dec (PB_LTYPE (ftype f)) s f a w)"
proof -
  let ?lt = "PB_LTYPE (ftype f)"
  have "unat ?lt \<le> 10" using assms(3) by (simp add: value_room_def PB_LTYPE_FIXED_LENGTH_BYTES_def word_le_nat_alt)
  moreover have "unat ?lt \<noteq> 9" using assms(4) by (auto simp: PB_LTYPE_EXTENSION_def word_unat_eq_iff)
  ultimately have "unat ?lt \<in> {0, 1, 2, 3, 4, 5, 6, 7, 8, 10}"
    unfolding insert_iff empty_iff by presburger
  then have lt: "?lt \<in> {PB_LTYPE_BOOL, PB_LTYPE_VARINT, PB_LTYPE_UVARINT, PB_LTYPE_SVARINT, PB_LTYPE_FIXED32,
      PB_LTYPE_FIXED64, PB_LTYPE_BYTES, PB_LTYPE_STRING, PB_LTYPE_SUBMESSAGE, PB_LTYPE_FIXED_LENGTH_BYTES}"
    by (auto simp: word_unat_eq_iff PB_LTYPE_BOOL_def PB_LTYPE_VARINT_def PB_LTYPE_UVARINT_def PB_LTYPE_SVARINT_def
        PB_LTYPE_FIXED32_def PB_LTYPE_FIXED64_def PB_LTYPE_BYTES_def PB_LTYPE_STRING_def PB_LTYPE_SUBMESSAGE_def
        PB_LTYPE_FIXED_LENGTH_BYTES_def)
  note m = within_mono [OF _ assms(5)]
  show ?thesis
    using lt assms submessage_stays [OF assms(1) _ assms(5)]
    unfolding PB_DECODERS_def
    by (intro if_stays)
      (auto simp: value_room_def has_submessage_def
        intro!: m bounded_bool.dec_within bounded_varint.dec_within bounded_uvarint.dec_within bounded_svarint.dec_within
          bounded_fixed32.dec_within bounded_fixed64.dec_within bounded_bytes.dec_within bounded_string.dec_within
          bounded_fixed_length.dec_within)
qed

lemma array_item_within:
  assumes "n < array_size f" "uint (data_size f) * uint (array_size f) < 2 ^ 32"
  shows "span (array_item a f n) (uint (data_size f)) \<subseteq> span a (uint (data_size f) * uint (array_size f))"
proof -
  have le: "uint n + 1 \<le> uint (array_size f)" using assms(1) by (simp add: word_less_def)
  then have m: "uint (data_size f) * (uint n + 1) \<le> uint (data_size f) * uint (array_size f)"
    by (intro mult_left_mono) auto
  moreover have "uint (data_size f) * uint n \<le> uint (data_size f) * (uint n + 1)" by (intro mult_left_mono) auto
  ultimately have "uint (data_size f) * uint n < 2 ^ 32" using assms(2) by linarith
  then have "array_item a f n = a + uint (data_size f) * uint n"
    by (simp add: array_item_def uint_word_ariths)
  with m show ?thesis by (auto simp: algebra_simps)
qed

lemma packed_static_stays:
  assumes room: "it_room R it" "PB_HTYPE (ftype (iter_field it)) = PB_HTYPE_REPEATED"
      "PB_ATYPE (ftype (iter_field it)) = PB_ATYPE_STATIC"
    and func: "\<And>s a w. span a (uint (data_size (iter_field it))) \<subseteq> R \<Longrightarrow> stays R w (func s (iter_field it) a w)"
  shows "stays R w (packed_static_loop k func it s w)"
proof (induction k arbitrary: s w)
  case 0 then show ?case by simp
next
  case (Suc k)
  let ?f = "iter_field it" and ?n = "get_size w (pSize it)"
  have "span (array_item (pData it) ?f ?n) (uint (data_size ?f)) \<subseteq> R" if "?n < array_size ?f"
    using array_item_within [OF that, of "pData it"] room by (auto simp: it_room_def member_size_def Let_def)
  note el = func [OF this]
  have "within R w1 (set_size (pSize it) m w1)" for w1 m
    using room by (intro within_set_size) (auto simp: it_room_def Let_def)
  then have "stays R w1 (packed_static_loop k func it s1 (set_size (pSize it) m w1))" for s1 w1 m
    using stays_trans Suc.IH by blast
  then show ?case
    unfolding packed_static_loop.simps Let_def by (intro if_stays d_bind_stays) (simp_all add: el)
qed

lemma decode_static_stays:
  assumes room: "it_room R it" "PB_ATYPE (ftype (iter_field it)) = PB_ATYPE_STATIC"
    and nested: "nested_within env R dec (iter_field it)"
    and ext: "PB_LTYPE (ftype (iter_field it)) \<noteq> PB_LTYPE_EXTENSION"
    and defs: "\<And>w w'. has_submessage (iter_field it) \<Longrightarrow> PB_HTYPE (ftype (iter_field it)) = PB_HTYPE_ONEOF \<Longrightarrow>
      pb_message_set_to_defaults depth env (d_tables env (ptr (iter_field it))) (pData it) w = Some w' \<Longrightarrow> within R w w'"
  shows "stays R w (decode_static_field depth env dec s wt it w)"
proof -
  let ?f = "iter_field it" and ?ht = "PB_HTYPE (ftype (iter_field it))"
  have func: "stays R w (PB_DECODERS env dec (PB_LTYPE (ftype ?f)) s ?f a w)"
    if "span a (uint (data_size ?f)) \<subseteq> R" for s a w
    using PB_DECODERS_stays [OF nested room(2) _ ext that] room(1) by (simp add: it_room_def Let_def)
  have data: "span (pData it) (uint (data_size ?f)) \<subseteq> R" if "?ht \<noteq> PB_HTYPE_REPEATED"
    using room that by (simp add: it_room_def member_size_def Let_def)
  have count: "within R w (set_size (pSize it) n w)" if "?ht = PB_HTYPE_REPEATED \<or> ?ht = PB_HTYPE_ONEOF" for n w
    using room(1) that by (intro within_set_size) (auto simp: it_room_def Let_def)
  have flag: "within R w (set_flag (pSize it) True w)" if "?ht = PB_HTYPE_OPTIONAL" "pSize it \<noteq> At (pData it)"
    using room(1) that by (cases "pSize it") (auto simp: it_room_def Let_def intro!: within_set_flag)
  have item: "span (array_item (pData it) ?f n) (uint (data_size ?f)) \<subseteq> R"
    if "?ht = PB_HTYPE_REPEATED" "n < array_size ?f" for n
    using array_item_within [OF that(2), of "pData it"] room that by (auto simp: it_room_def member_size_def Let_def)
  show ?thesis
  proof (cases rule: PB_HTYPE_cases [of "ftype ?f"])
    case 1 then show ?thesis using func data by (simp add: decode_static_field_def Let_def)
  next
    case 2
    then show ?thesis
      using func [OF data] stays_trans [OF flag func [OF data]] by (simp add: decode_static_field_def Let_def)
  next
    case 3
    have "stays R w (packed_static_loop k (PB_DECODERS env dec (PB_LTYPE (ftype ?f))) it sub w)" for k sub
      by (rule packed_static_stays [OF room(1) 3 room(2)]) (rule func)
    note loop = this
    have arr: "stays R w (PB_DECODERS env dec (PB_LTYPE (ftype ?f)) s ?f (array_item (pData it) ?f n) (set_size (pSize it) m w))"
      if "n < array_size ?f" for n m
      using 3 by (intro stays_trans [OF count func] item that) simp_all
    have "stays R w (if wt = PB_WT_STRING \<and> PB_LTYPE (ftype ?f) \<le> PB_LTYPE_LAST_PACKABLE then
          case pb_make_string_substream s of
            (None, s1) \<Rightarrow> Some (False, s1, w)
          | (Some substream, s1) \<Rightarrow>
              (case packed_static_loop (Suc (unat (bytes_left substream))) (PB_DECODERS env dec (PB_LTYPE (ftype ?f))) it substream w of
                 None \<Rightarrow> None
               | Some (status, sub, w1) \<Rightarrow>
                   if bytes_left sub \<noteq> 0 then Some (d_error ''array overflow'' s1 w1)
                   else
                     let (ok, s2) = pb_close_string_substream s1 sub in Some (ok \<and> status, s2, w1))
        else
          let n = get_size w (pSize it); w1 = set_size (pSize it) (n + 1) w in
          if n \<ge> array_size ?f then Some (d_error ''array overflow'' s w1)
          else PB_DECODERS env dec (PB_LTYPE (ftype ?f)) s ?f (array_item (pData it) ?f n) w1)"
      unfolding Let_def
      by (intro if_stays substream_stays result_stays loop arr) (simp_all add: 3 count case_prod_beta not_le)
    then show ?thesis using 3 by (simp add: decode_static_field_def Let_def)
  next
    case 4
    have "within R w w1" if "(if PB_LTYPE (ftype ?f) = PB_LTYPE_SUBMESSAGE \<and> get_size w (pSize it) \<noteq> tag ?f
           then pb_message_set_to_defaults depth env (d_tables env (ptr ?f)) (pData it)
                  (memset0 (pData it) (data_size ?f) w)
           else Some w) = Some w1" for w1
    proof -
      have "within R w (memset0 (pData it) (data_size ?f) w)" using data 4 by (intro within_memset) simp
      then have "within R w w1" if "has_submessage ?f"
        "pb_message_set_to_defaults depth env (d_tables env (ptr ?f)) (pData it) (memset0 (pData it) (data_size ?f) w) = Some w1"
        using within_trans [OF _ defs [OF that(1) 4 that(2)]] by blast
      then show ?thesis using that room(2) by (auto simp: has_submessage_def split: if_splits)
    qed
    note defaults = this
    have "stays R w1 (PB_DECODERS env dec (PB_LTYPE (ftype ?f)) s ?f (pData it) (set_size (pSize it) n w1))" for n w1
      using 4 by (intro stays_trans [OF count func] data) simp_all
    from bind_stays [OF defaults this] show ?thesis using 4 by (simp add: decode_static_field_def Let_def)
  qed
qed

lemma callback_loop_stays:
  assumes "\<And>s w. within R w (snd (snd (cb s w)))"
  shows "stays R w (callback_loop k cb s w)"
proof (induction k arbitrary: s w)
  case 0 then show ?case by simp
next
  case (Suc k)
  show ?case
    unfolding callback_loop.simps by (intro d_bind_stays if_stays Suc.IH) (simp_all add: assms)
qed

lemma decode_callback_stays:
  assumes "callbacks_within R env"
  shows "stays R w (decode_callback_field depth env s wt it w)"
proof -
  have cb: "within R w (snd (snd (cb_decode env fn s fld a w)))" for fn fld a w and s :: "'a pb_istream"
    using assms by (simp add: callbacks_within_def)
  have "within R w w1" if "callback_loop k (\<lambda>sub w1. cb_decode env fn sub fld a w1) sub w = Some (ok, sub1, w1)"
    for k fn fld a sub ok sub1 w1
    using callback_loop_stays [of R "\<lambda>sub w1. cb_decode env fn sub fld a w1" w k sub] cb that by simp
  then show ?thesis
    using cb unfolding decode_callback_field_def Let_def
    by (intro if_stays substream_stays)
      (auto simp: stays_def d_error_def case_prod_beta simp del: callback_loop.simps add_Suc_right
        split: option.splits bool.splits prod.splits)
qed

lemma release_union_within:
  assumes "static_ok depth (d_tables env) sz fs" "iter_ok fs a it" "span a sz \<subseteq> R"
    "pb_release_union_field depth env s it w = Some (k, s1, w1, it1)"
  shows "within R w w1" "iter_ok fs a it1"
proof -
  obtain d where d: "depth = Suc d" using assms(1) by (cases depth) auto
  let ?i1 = "snd (pb_field_iter_find it (get_size w (pSize it)))"
  let ?i2 = "snd (pb_field_iter_find ?i1 (tag (iter_field it)))"
  have i: "iter_ok fs a ?i1" "iter_ok fs a ?i2" using iter_ok_find assms(2) by blast+
  have np: "PB_ATYPE (ftype (iter_field ?i2)) \<noteq> PB_ATYPE_POINTER"
    using iter_ok_room(2) [OF assms(1) [unfolded d] i(2) assms(3)] by fastforce
  have rel: "within R w w2" if "pb_release_single_field depth env ?i1 w = Some w2" for w2
    using release_single_within [OF assms(1) i(1) that] by (rule within_mono) simp
  show "within R w w1" "iter_ok fs a it1"
    using assms(2,4) i np rel
    by (auto simp: pb_release_union_field_def Let_def case_prod_beta split: if_splits option.splits)
qed

lemma decode_field_stays:
  assumes tbl: "static_ok (Suc depth) (d_tables env) sz fs" and it: "iter_ok fs a it" and R: "span a sz \<subseteq> R"
    and nested: "\<And>f. has_submessage f \<Longrightarrow> static_ok depth (d_tables env) (uint (data_size f)) (d_tables env (ptr f)) \<Longrightarrow>
      nested_within env R dec f"
    and cb: "callbacks_within R env"
  shows "stays R w (map_option fst (decode_field (Suc depth) env dec s wt it w))"
    and "decode_field (Suc depth) env dec s wt it w = Some (r, it') \<Longrightarrow> iter_ok fs a it'"
proof -
  let ?rel = "if PB_HTYPE (ftype (iter_field it)) = PB_HTYPE_ONEOF
            then pb_release_union_field (Suc depth) env s it w else Some (True, s, w, it)"
  have rel: "within R w w1" "iter_ok fs a it1" if "?rel = Some (k, s1, w1, it1)" for k s1 w1 it1
    using release_union_within [OF tbl it R] that it by (auto split: if_splits)
  have field: "stays R w1 (if PB_ATYPE (ftype (iter_field it1)) = PB_ATYPE_STATIC then decode_static_field (Suc depth) env dec s1 wt it1 w1
       else if PB_ATYPE (ftype (iter_field it1)) = PB_ATYPE_POINTER then decode_pointer_field (Suc depth) env dec s1 wt it1 w1
       else if PB_ATYPE (ftype (iter_field it1)) = PB_ATYPE_CALLBACK then decode_callback_field (Suc depth) env s1 wt it1 w1
       else Some (d_error ''invalid field type'' s1 w1))" if it1: "iter_ok fs a it1" for s1 it1 w1
  proof (cases "PB_ATYPE (ftype (iter_field it1)) = PB_ATYPE_CALLBACK")
    case True then show ?thesis using decode_callback_stays [OF cb] by simp
  next
    case False
    note room = iter_ok_room [OF tbl it1 R False]
    have ext: "PB_LTYPE (ftype (iter_field it1)) \<noteq> PB_LTYPE_EXTENSION"
      by (rule decodable_field(1) [OF static_decodable [OF tbl] iter_ok_in [OF it1]])
    have nest: "nested_within env R dec (iter_field it1)"
      using nested [OF _ room(3)] by (cases "has_submessage (iter_field it1)") (auto simp: nested_within_def)
    have data: "span (pData it1) (uint (data_size (iter_field it1))) \<subseteq> R"
      if "PB_HTYPE (ftype (iter_field it1)) = PB_HTYPE_ONEOF"
      using room(1,2) that by (simp add: it_room_def member_size_def Let_def)
    have "stays R w1 (decode_static_field (Suc depth) env dec s1 wt it1 w1)"
    proof (rule decode_static_stays [OF room(1,2) nest ext])
      fix v v'
      assume "has_submessage (iter_field it1)" and ht: "PB_HTYPE (ftype (iter_field it1)) = PB_HTYPE_ONEOF"
        and d: "pb_message_set_to_defaults (Suc depth) env (d_tables env (ptr (iter_field it1))) (pData it1) v = Some v'"
      then show "within R v v'" using message_defaults_within [OF static_ok_Suc [OF room(3)] data [OF ht] d] by blast
    qed
    then show ?thesis using room(2) by simp
  qed
  show "stays R w (map_option fst (decode_field (Suc depth) env dec s wt it w))"
  proof (cases ?rel)
    case (Some q)
    obtain k s1 w1 it1 where q: "q = (k, s1, w1, it1)" by (metis prod_cases4)
    note r = rel [OF Some [unfolded q]]
    show ?thesis
      unfolding decode_field_def Some q using r(1) stays_trans [OF r(1) field [OF r(2)]]
      by (cases k) (simp_all add: Let_def option.map_comp comp_def option.map_ident)
  qed (simp add: decode_field_def)
  show "iter_ok fs a it'" if "decode_field (Suc depth) env dec s wt it w = Some (r, it')"
    using that rel(2) unfolding decode_field_def
    by (auto simp: Let_def split: option.splits bool.splits prod.splits)
qed

section \<open>Messages\<close>

text \<open>What one record does: the world, and the iterator among the local variables.\<close>

definition record_stays :: "addr set \<Rightarrow> pb_table \<Rightarrow> addr \<Rightarrow> world \<Rightarrow> ('u dres \<times> dec_locals) option \<Rightarrow> bool" where
  "record_stays R fs a w r \<longleftrightarrow>
     (\<forall>ok s1 w1 l1. r = Some ((ok, s1, w1), l1) \<longrightarrow> within R w w1 \<and> iter_ok fs a (l_iter l1))"

lemma record_staysI:
  assumes "stays R w (map_option fst r)" "\<And>q l1. r = Some (q, l1) \<Longrightarrow> iter_ok fs a (l_iter l1)"
  shows "record_stays R fs a w r"
  using assms by (fastforce simp: record_stays_def)

lemma if_record:
  "(c \<Longrightarrow> record_stays R fs a w x) \<Longrightarrow> (\<not> c \<Longrightarrow> record_stays R fs a w y) \<Longrightarrow> record_stays R fs a w (if c then x else y)"
  by simp

lemma iter_ok_fixed:
  assumes "iter_ok fs a it" "PB_HTYPE (ftype (iter_field it)) = PB_HTYPE_REPEATED"
  shows "iter_ok fs a (it\<lparr>pSize := FixedCount\<rparr>)"
proof -
  obtain k where k: "k < num_fields fs" and it: "it = iter_at fs a k \<or>
     it = (iter_at fs a k)\<lparr>pSize := FixedCount\<rparr> \<and> PB_HTYPE (ftype (field_at fs k)) = PB_HTYPE_REPEATED"
    using assms(1) by (auto simp: iter_ok_def)
  then have "iter_field it = field_at fs k" using iter_field_at [OF k] by auto
  then show ?thesis using k it assms(2) by (auto simp: iter_ok_def)
qed

lemma decode_unknown_stays:
  assumes "static_ok (Suc depth) (d_tables env) sz fs" "iter_ok fs a (l_iter l)" "t < - 1"
  shows "record_stays R fs a w (decode_unknown (Suc depth) env d s t wt l w)"
proof -
  have "iter_ok fs a it \<Longrightarrow> iter_ok fs a (snd (iter_find_loop k P start it))" for k P start it
    by (induction k arbitrary: it) (auto simp: Let_def iter_ok_next)
  then have "iter_ok fs a (snd (find_extension_field (l_iter l)))"
    using assms(2) by (simp only: find_extension_field_def)
  then show ?thesis
    using find_extension_none [OF static_decodable [OF assms(1)] iter_ok_in [OF assms(2)]] assms(2,3)
    by (auto simp: record_stays_def decode_unknown_def Let_def case_prod_beta split: if_splits)
qed

lemma decode_known_stays:
  assumes "static_ok (Suc depth) (d_tables env) sz fs" "iter_ok fs a (l_iter l)" "span a sz \<subseteq> R"
    "\<And>f. has_submessage f \<Longrightarrow> static_ok depth (d_tables env) (uint (data_size f)) (d_tables env (ptr f)) \<Longrightarrow>
      nested_within env R d f"
    "callbacks_within R env"
  shows "record_stays R fs a w (decode_known (Suc depth) env d s wt l w)"
proof -
  have field: "record_stays R fs a w (map_option (\<lambda>(r, it2). (r, g it2)) (decode_field (Suc depth) env d s wt it1 w1))"
    if it1: "iter_ok fs a it1" and g: "\<And>it2. l_iter (g it2) = it2" and w1: "within R w w1" for it1 w1 and g :: "pb_field_iter_t \<Rightarrow> dec_locals"
  proof (rule record_staysI)
    have "map_option fst (map_option (\<lambda>(r, it2). (r, g it2)) x) = map_option fst x"
      for x :: "('a dres \<times> pb_field_iter_t) option" by (cases x) auto
    then show "stays R w (map_option fst (map_option (\<lambda>(r, it2). (r, g it2)) (decode_field (Suc depth) env d s wt it1 w1)))"
      using stays_trans [OF w1 decode_field_stays(1) [OF assms(1) it1 assms(3-5)]] by simp
  qed (use decode_field_stays(2) [OF assms(1) it1 assms(3-5)] g in \<open>auto\<close>)
  have fixed: "iter_ok fs a (if PB_HTYPE (ftype (iter_field (l_iter l))) = PB_HTYPE_REPEATED \<and>
      pSize (l_iter l) = At (pData (l_iter l)) then l_iter l\<lparr>pSize := FixedCount\<rparr> else l_iter l)"
    using assms(2) iter_ok_fixed by simp
  show ?thesis
    unfolding decode_known_def Let_def
    by (intro if_record field fixed) (simp_all add: record_stays_def d_error_def assms(2))
qed

lemma decode_one_stays:
  assumes "static_ok (Suc depth) (d_tables env) sz fs" "iter_ok fs a (l_iter l)" "span a sz \<subseteq> R"
    "\<And>f. has_submessage f \<Longrightarrow> static_ok depth (d_tables env) (uint (data_size f)) (d_tables env (ptr f)) \<Longrightarrow>
      nested_within env R d f"
    "callbacks_within R env" "t < - 1"
  shows "record_stays R fs a w (decode_one (Suc depth) env d s t wt l w)"
proof -
  let ?l = "l\<lparr>l_iter := snd (pb_field_iter_find (l_iter l) t)\<rparr>"
  have "iter_ok fs a (l_iter ?l)" using iter_ok_find [OF assms(2)] by simp
  from decode_known_stays [OF assms(1) this assms(3-5)] decode_unknown_stays [OF assms(1) this assms(6)]
  show ?thesis unfolding decode_one_def Let_def case_prod_beta by (intro if_record)
qed

lemma decode_loop_stays:
  assumes "static_ok (Suc depth) (d_tables env) sz fs" "span a sz \<subseteq> R"
    "\<And>f. has_submessage f \<Longrightarrow> static_ok depth (d_tables env) (uint (data_size f)) (d_tables env (ptr f)) \<Longrightarrow>
      nested_within env R d f"
    "callbacks_within R env"
  shows "iter_ok fs a (l_iter l) \<Longrightarrow> stays R w (map_option fst (decode_loop k (Suc depth) env d s l w))"
proof (induction k arbitrary: s l w)
  case 0 then show ?case by simp
next
  case (Suc k)
  have "within R w w2 \<and> iter_ok fs a (l_iter l2)"
    if "pb_decode_tag s = (Some (wt, t), eof, s1)" "decode_one (Suc depth) env d s1 t wt l w = Some ((ok, s2, w2), l2)"
    for wt t eof s1 ok s2 w2 l2
    using decode_one_stays [OF assms(1) Suc.prems assms(2-4) decode_tag_bound [OF that(1)], of w s1 wt] that(2)
    by (auto simp: record_stays_def)
  then show ?case
    using Suc.IH stays_trans by (fastforce split: prod.splits option.splits)
qed

lemma decode_message_stays:
  assumes "static_ok (Suc depth) (d_tables env) sz fs" "span a sz \<subseteq> R"
    "\<And>f. has_submessage f \<Longrightarrow> static_ok depth (d_tables env) (uint (data_size f)) (d_tables env (ptr f)) \<Longrightarrow>
      nested_within env R d f"
    "callbacks_within R env"
  shows "stays R w (decode_message (Suc depth) env d s fs a w)"
proof -
  let ?l = "\<lparr>fields_seen = [0, 0], extension_range_start = 0,
      l_iter = snd (pb_field_iter_begin fs a), fixed_count_field = None\<rparr>"
  have "iter_ok fs a (l_iter ?l)" using iter_ok_at [of 0 fs a] assms(1) by (simp add: iter_begin_at)
  from decode_loop_stays [OF assms this, of "w\<lparr>fixed_count_size := 0\<rparr>" "Suc (unat (bytes_left s))" s]
  show ?thesis
    unfolding decode_message_def Let_def
    by (auto simp: stays_def case_prod_beta decode_finish_def d_error_def simp del: decode_loop.simps split: option.splits if_splits)
qed

lemma decode_msg_stays:
  assumes cb: "callbacks_within C env"
  shows "static_ok depth (d_tables env) sz fs \<Longrightarrow> span a sz \<union> C \<subseteq> R \<Longrightarrow> stays R w (decode_msg depth env init s fs a w)"
proof (induction depth arbitrary: sz fs a R w init s)
  case 0 then show ?case by simp
next
  case (Suc depth)
  have R: "span a sz \<subseteq> R" and cbR: "callbacks_within R env"
    using Suc.prems(2) cb within_mono [of C _ _ R] by (auto simp: callbacks_within_def)
  have nested: "nested_within env R (decode_msg depth env) f"
    if "static_ok depth (d_tables env) (uint (data_size f)) (d_tables env (ptr f))" for f
    using Suc.IH [OF that] Suc.prems(2) by (simp add: nested_within_def)
  have m: "stays R w (decode_message (Suc depth) env (decode_msg depth env) s fs a w)" for w
    using nested by (intro decode_message_stays [OF Suc.prems(1) R _ cbR])
  have rel: "stays R w (map_option (\<lambda>w2. (False, s1, w2)) (pb_release (Suc depth) env fs a w1))"
    if "within R w w1" for w1 and s1 :: "'a pb_istream"
    using that within_trans [OF that within_mono [OF pb_release_within [OF Suc.prems(1)]]]
    by (auto simp: stays_def split: option.splits)
  have b: "stays R w (Option.bind (pb_message_set_to_defaults (Suc depth) env fs a w)
      (decode_message (Suc depth) env (decode_msg depth env) s fs a))"
    by (intro bind_stays m message_defaults_within [OF Suc.prems(1) R])
  show ?case
    unfolding decode_msg.simps by (intro if_stays result_stays b m rel) simp_all
qed

end
