(* ===== verification/Pb_Fields.thy ===== *)
theory Pb_Fields
  imports Pb_Types
begin

text \<open>
  How descriptor tables are made: the layout of C structures on the 64-bit targets and the macros of
  \<^verbatim>\<open>pb.h\<close> that fill in a \<^verbatim>\<open>pb_field_t\<close> from it (\<^verbatim>\<open>PB_FIELD\<close> and what it expands to).

  A structure is the list of its members with their types. Members are placed in order, each at
  the next multiple of its alignment, as the System V and AAPCS64 conventions prescribe.
\<close>

section \<open>Layout of structures\<close>

datatype c_type =
    C_bool
  | C_int32
  | C_int64
  | C_ptr nat
  | C_array nat nat nat
  | C_struct nat nat

text \<open>
  \<open>C_ptr n\<close> points to objects of size \<open>n\<close>; \<open>C_array n a k\<close> has \<open>k\<close> elements of size \<open>n\<close> and alignment \<open>a\<close>;
  \<open>C_struct n a\<close> is a structure of size \<open>n\<close> and alignment \<open>a\<close>. Enumerations and \<^verbatim>\<open>pb_size_t\<close> are 32 bits.
\<close>

type_synonym c_members = "(string \<times> c_type) list"

fun sizeof :: "c_type \<Rightarrow> nat" where
  "sizeof C_bool = 1"
| "sizeof C_int32 = 4"
| "sizeof C_int64 = 8"
| "sizeof (C_ptr n) = 8"
| "sizeof (C_array n a k) = n * k"
| "sizeof (C_struct n a) = n"

fun alignof :: "c_type \<Rightarrow> nat" where
  "alignof C_bool = 1"
| "alignof C_int32 = 4"
| "alignof C_int64 = 8"
| "alignof (C_ptr n) = 8"
| "alignof (C_array n a k) = a"
| "alignof (C_struct n a) = a"

definition align_up :: "nat \<Rightarrow> nat \<Rightarrow> nat" where
  "align_up n a = (n + a - 1) div a * a"

fun place :: "nat \<Rightarrow> c_members \<Rightarrow> (string \<times> nat \<times> c_type) list" where
  "place n [] = []"
| "place n ((m, t) # ms) = (m, align_up n (alignof t), t) # place (align_up n (alignof t) + sizeof t) ms"

fun struct_end :: "nat \<Rightarrow> c_members \<Rightarrow> nat" where
  "struct_end n [] = n"
| "struct_end n ((m, t) # ms) = struct_end (align_up n (alignof t) + sizeof t) ms"

definition struct_align :: "c_members \<Rightarrow> nat" where
  "struct_align ms = fold max (map (alignof \<circ> snd) ms) 1"

definition struct_size :: "c_members \<Rightarrow> nat" where
  "struct_size ms = align_up (struct_end 0 ms) (struct_align ms)"

definition as_member :: "c_members \<Rightarrow> c_type" where
  "as_member ms = C_struct (struct_size ms) (struct_align ms)"

definition offsetof :: "c_members \<Rightarrow> string \<Rightarrow> nat" where
  "offsetof st m = (case map_of (place 0 st) m of None \<Rightarrow> 0 | Some (n, t) \<Rightarrow> n)"

section \<open>The macros\<close>

definition pb_membersize :: "c_members \<Rightarrow> string \<Rightarrow> nat" where
  "pb_membersize st m = (case map_of st m of None \<Rightarrow> 0 | Some t \<Rightarrow> sizeof t)"

text \<open>\<^verbatim>\<open>pb_membersize(st, m[0])\<close>: the size of what a pointer or array member holds.\<close>

definition pb_itemsize :: "c_members \<Rightarrow> string \<Rightarrow> nat" where
  "pb_itemsize st m =
     (case map_of st m of Some (C_ptr n) \<Rightarrow> n | Some (C_array n a k) \<Rightarrow> n | _ \<Rightarrow> 0)"

definition pb_arraysize :: "c_members \<Rightarrow> string \<Rightarrow> nat" where
  "pb_arraysize st m = pb_membersize st m div pb_itemsize st m"

definition pb_delta :: "c_members \<Rightarrow> string \<Rightarrow> string \<Rightarrow> int" where
  "pb_delta st m1 m2 = int (offsetof st m1) - int (offsetof st m2)"

datatype placement = FIRST | OTHER | UNION
datatype rules = REQUIRED | OPTIONAL | SINGULAR | REPEATED
datatype allocation = STATIC | POINTER | CALLBACK

fun PB_DATAOFFSET :: "placement \<Rightarrow> c_members \<Rightarrow> string \<Rightarrow> string \<Rightarrow> pb_size_t" where
  "PB_DATAOFFSET FIRST st m1 m2 = of_nat (offsetof st m1)"
| "PB_DATAOFFSET OTHER st m1 m2 =
     word_of_int (int (offsetof st m1) - int (offsetof st m2) - int (pb_membersize st m2))"
| "PB_DATAOFFSET UNION st m1 m2 = PB_SIZE_MAX"

fun PB_HTYPE_of :: "rules \<Rightarrow> pb_type_t" where
  "PB_HTYPE_of REQUIRED = PB_HTYPE_REQUIRED"
| "PB_HTYPE_of OPTIONAL = PB_HTYPE_OPTIONAL"
| "PB_HTYPE_of SINGULAR = PB_HTYPE_OPTIONAL"
| "PB_HTYPE_of REPEATED = PB_HTYPE_REPEATED"

fun PB_ATYPE_of :: "allocation \<Rightarrow> pb_type_t" where
  "PB_ATYPE_of STATIC = PB_ATYPE_STATIC"
| "PB_ATYPE_of POINTER = PB_ATYPE_POINTER"
| "PB_ATYPE_of CALLBACK = PB_ATYPE_CALLBACK"

text \<open>\<^verbatim>\<open>PB_REQUIRED_STATIC\<close>, \<^verbatim>\<open>PB_OPTIONAL_STATIC\<close>, \dots, \<^verbatim>\<open>PB_REPEATED_CALLBACK\<close>.\<close>

definition PB_FIELD ::
    "pb_size_t \<Rightarrow> pb_type_t \<Rightarrow> rules \<Rightarrow> allocation \<Rightarrow> placement \<Rightarrow> c_members \<Rightarrow> string \<Rightarrow> string \<Rightarrow> addr \<Rightarrow> pb_field_t" where
  "PB_FIELD t ltype rule alloc placement st m prev p =
     \<lparr>tag = t,
      ftype = PB_ATYPE_of alloc OR PB_HTYPE_of rule OR ltype,
      data_offset = PB_DATAOFFSET placement st m prev,
      size_offset =
        (if alloc = CALLBACK then 0
         else if rule = REPEATED then word_of_int (pb_delta st (m @ ''_count'') m)
         else if rule = OPTIONAL \<and> alloc = STATIC then word_of_int (pb_delta st (''has_'' @ m) m)
         else 0),
      data_size =
        (if alloc = POINTER \<or> (alloc = STATIC \<and> rule = REPEATED) then of_nat (pb_itemsize st m)
         else of_nat (pb_membersize st m)),
      array_size = (if alloc = STATIC \<and> rule = REPEATED then of_nat (pb_arraysize st m) else 0),
      ptr = p\<rparr>"

definition PB_LTYPE_MAP_BOOL :: pb_type_t where "PB_LTYPE_MAP_BOOL = PB_LTYPE_BOOL"
definition PB_LTYPE_MAP_BYTES :: pb_type_t where "PB_LTYPE_MAP_BYTES = PB_LTYPE_BYTES"
definition PB_LTYPE_MAP_ENUM :: pb_type_t where "PB_LTYPE_MAP_ENUM = PB_LTYPE_VARINT"
definition PB_LTYPE_MAP_UENUM :: pb_type_t where "PB_LTYPE_MAP_UENUM = PB_LTYPE_UVARINT"
definition PB_LTYPE_MAP_INT32 :: pb_type_t where "PB_LTYPE_MAP_INT32 = PB_LTYPE_VARINT"
definition PB_LTYPE_MAP_INT64 :: pb_type_t where "PB_LTYPE_MAP_INT64 = PB_LTYPE_VARINT"
definition PB_LTYPE_MAP_MESSAGE :: pb_type_t where "PB_LTYPE_MAP_MESSAGE = PB_LTYPE_SUBMESSAGE"
definition PB_LTYPE_MAP_SINT64 :: pb_type_t where "PB_LTYPE_MAP_SINT64 = PB_LTYPE_SVARINT"

text \<open>\<^verbatim>\<open>pb_bytes_array_t\<close> is declared with one byte: four bytes of size, one byte, padding.\<close>

definition pb_bytes_array_t :: c_members where
  "pb_bytes_array_t = [(''size'', C_int32), (''bytes'', C_array 1 1 1)]"

end
