(* ===== verification/Cct.thy ===== *)
theory Cct
  imports Pb_Fields Pb_Common
begin

text \<open>
  The messages of the log uploader (\<^verbatim>\<open>cct.nanopb.h\<close>, \<^verbatim>\<open>cct.nanopb.c\<close>) and of the core diagnostics
  (\<^verbatim>\<open>firebasecore.nanopb.h\<close>, \<^verbatim>\<open>firebasecore.nanopb.c\<close>): enumerations, structures, default values and
  descriptor tables. The tables are read-only data; each is placed at an address of its own
  (\<open>cct_tables\<close>), as are the default values (\<open>cct_defaults\<close>).
\<close>

section \<open>Enumerations\<close>

text \<open>The values that the enumerations name; the enumeration types are \<^verbatim>\<open>int\<close> or \<^verbatim>\<open>unsigned int\<close>.\<close>

definition gdt_cct_NetworkConnectionInfo_NetworkType :: "int list" where
  "gdt_cct_NetworkConnectionInfo_NetworkType = [- 1..17]"

definition gdt_cct_NetworkConnectionInfo_MobileSubtype :: "int list" where
  "gdt_cct_NetworkConnectionInfo_MobileSubtype = [0..19] @ [100]"

definition gdt_cct_ClientInfo_ClientType :: "int list" where
  "gdt_cct_ClientInfo_ClientType = [0, 15]"

definition gdt_cct_QosTierConfiguration_QosTier :: "int list" where
  "gdt_cct_QosTierConfiguration_QosTier = [0..4]"

section \<open>Structures\<close>

definition gdt_cct_QosTierConfiguration :: c_members where
  "gdt_cct_QosTierConfiguration =
     [(''has_qos_tier'', C_bool), (''qos_tier'', C_int32),
      (''has_log_source'', C_bool), (''log_source'', C_int32)]"

definition gdt_cct_QosTiersOverride :: c_members where
  "gdt_cct_QosTiersOverride =
     [(''qos_tier_configuration_count'', C_int32),
      (''qos_tier_configuration'', C_ptr (struct_size gdt_cct_QosTierConfiguration)),
      (''has_qos_tier_fingerprint'', C_bool), (''qos_tier_fingerprint'', C_int64)]"

definition gdt_cct_LogResponse :: c_members where
  "gdt_cct_LogResponse =
     [(''has_next_request_wait_millis'', C_bool), (''next_request_wait_millis'', C_int64),
      (''has_qos_tier'', C_bool), (''qos_tier'', as_member gdt_cct_QosTiersOverride)]"

definition gdt_cct_NetworkConnectionInfo :: c_members where
  "gdt_cct_NetworkConnectionInfo =
     [(''has_network_type'', C_bool), (''network_type'', C_int32),
      (''has_mobile_subtype'', C_bool), (''mobile_subtype'', C_int32)]"

definition bytes_ptr :: c_type where
  "bytes_ptr = C_ptr (struct_size pb_bytes_array_t)"

definition gdt_cct_IosClientInfo :: c_members where
  "gdt_cct_IosClientInfo =
     [(''os_major_version'', bytes_ptr), (''os_full_version'', bytes_ptr),
      (''application_build'', bytes_ptr), (''country'', bytes_ptr), (''model'', bytes_ptr),
      (''language_code'', bytes_ptr), (''application_bundle_id'', bytes_ptr)]"

definition gdt_cct_ClientInfo :: c_members where
  "gdt_cct_ClientInfo =
     [(''has_client_type'', C_bool), (''client_type'', C_int32),
      (''has_ios_client_info'', C_bool), (''ios_client_info'', as_member gdt_cct_IosClientInfo)]"

definition gdt_cct_LogEvent :: c_members where
  "gdt_cct_LogEvent =
     [(''has_event_time_ms'', C_bool), (''event_time_ms'', C_int64),
      (''source_extension'', bytes_ptr),
      (''has_event_code'', C_bool), (''event_code'', C_int32),
      (''has_timezone_offset_seconds'', C_bool), (''timezone_offset_seconds'', C_int64),
      (''has_event_uptime_ms'', C_bool), (''event_uptime_ms'', C_int64),
      (''has_network_connection_info'', C_bool),
      (''network_connection_info'', as_member gdt_cct_NetworkConnectionInfo)]"

definition gdt_cct_LogRequest :: c_members where
  "gdt_cct_LogRequest =
     [(''has_client_info'', C_bool), (''client_info'', as_member gdt_cct_ClientInfo),
      (''has_log_source'', C_bool), (''log_source'', C_int32),
      (''log_event_count'', C_int32), (''log_event'', C_ptr (struct_size gdt_cct_LogEvent)),
      (''has_request_time_ms'', C_bool), (''request_time_ms'', C_int64),
      (''has_request_uptime_ms'', C_bool), (''request_uptime_ms'', C_int64),
      (''has_qos_tier'', C_bool), (''qos_tier'', C_int32)]"

definition gdt_cct_BatchedLogRequest :: c_members where
  "gdt_cct_BatchedLogRequest =
     [(''log_request_count'', C_int32), (''log_request'', C_ptr (struct_size gdt_cct_LogRequest))]"

section \<open>Read-only data\<close>

definition LogEvent_at :: addr where "LogEvent_at = 0x1000"
definition NetworkConnectionInfo_at :: addr where "NetworkConnectionInfo_at = 0x1100"
definition IosClientInfo_at :: addr where "IosClientInfo_at = 0x1200"
definition ClientInfo_at :: addr where "ClientInfo_at = 0x1300"
definition BatchedLogRequest_at :: addr where "BatchedLogRequest_at = 0x1400"
definition LogRequest_at :: addr where "LogRequest_at = 0x1500"
definition QosTierConfiguration_at :: addr where "QosTierConfiguration_at = 0x1600"
definition QosTiersOverride_at :: addr where "QosTiersOverride_at = 0x1700"
definition LogResponse_at :: addr where "LogResponse_at = 0x1800"
definition network_type_default_at :: addr where "network_type_default_at = 0x1900"
definition mobile_subtype_default_at :: addr where "mobile_subtype_default_at = 0x1904"
definition qos_tier_default_at :: addr where "qos_tier_default_at = 0x1908"
definition log_source_default_at :: addr where "log_source_default_at = 0x190C"

lemmas cct_addresses = LogEvent_at_def NetworkConnectionInfo_at_def IosClientInfo_at_def ClientInfo_at_def
  BatchedLogRequest_at_def LogRequest_at_def QosTierConfiguration_at_def QosTiersOverride_at_def
  LogResponse_at_def network_type_default_at_def mobile_subtype_default_at_def qos_tier_default_at_def
  log_source_default_at_def

text \<open>A memory holds the default values: -1 for the network type, 0 for the others.\<close>

definition cct_defaults :: "memory \<Rightarrow> bool" where
  "cct_defaults m \<longleftrightarrow>
     load_u32 m network_type_default_at = - 1 \<and> load_u32 m mobile_subtype_default_at = 0 \<and>
     load_u32 m qos_tier_default_at = 0 \<and> load_u32 m log_source_default_at = 0"

definition gdt_cct_LogEvent_fields :: pb_table where
  "gdt_cct_LogEvent_fields =
     [PB_FIELD 1 PB_LTYPE_MAP_INT64 OPTIONAL STATIC FIRST gdt_cct_LogEvent ''event_time_ms'' ''event_time_ms'' NULL,
      PB_FIELD 6 PB_LTYPE_MAP_BYTES OPTIONAL POINTER OTHER gdt_cct_LogEvent ''source_extension'' ''event_time_ms'' NULL,
      PB_FIELD 11 PB_LTYPE_MAP_INT32 OPTIONAL STATIC OTHER gdt_cct_LogEvent ''event_code'' ''source_extension'' NULL,
      PB_FIELD 15 PB_LTYPE_MAP_SINT64 OPTIONAL STATIC OTHER gdt_cct_LogEvent ''timezone_offset_seconds'' ''event_code'' NULL,
      PB_FIELD 17 PB_LTYPE_MAP_INT64 OPTIONAL STATIC OTHER gdt_cct_LogEvent ''event_uptime_ms'' ''timezone_offset_seconds'' NULL,
      PB_FIELD 23 PB_LTYPE_MAP_MESSAGE OPTIONAL STATIC OTHER gdt_cct_LogEvent ''network_connection_info'' ''event_uptime_ms'' NetworkConnectionInfo_at,
      PB_LAST_FIELD]"

definition gdt_cct_NetworkConnectionInfo_fields :: pb_table where
  "gdt_cct_NetworkConnectionInfo_fields =
     [PB_FIELD 1 PB_LTYPE_MAP_ENUM OPTIONAL STATIC FIRST gdt_cct_NetworkConnectionInfo ''network_type'' ''network_type'' network_type_default_at,
      PB_FIELD 2 PB_LTYPE_MAP_UENUM OPTIONAL STATIC OTHER gdt_cct_NetworkConnectionInfo ''mobile_subtype'' ''network_type'' mobile_subtype_default_at,
      PB_LAST_FIELD]"

definition gdt_cct_IosClientInfo_fields :: pb_table where
  "gdt_cct_IosClientInfo_fields =
     [PB_FIELD 3 PB_LTYPE_MAP_BYTES OPTIONAL POINTER FIRST gdt_cct_IosClientInfo ''os_major_version'' ''os_major_version'' NULL,
      PB_FIELD 4 PB_LTYPE_MAP_BYTES OPTIONAL POINTER OTHER gdt_cct_IosClientInfo ''os_full_version'' ''os_major_version'' NULL,
      PB_FIELD 5 PB_LTYPE_MAP_BYTES OPTIONAL POINTER OTHER gdt_cct_IosClientInfo ''application_build'' ''os_full_version'' NULL,
      PB_FIELD 6 PB_LTYPE_MAP_BYTES OPTIONAL POINTER OTHER gdt_cct_IosClientInfo ''country'' ''application_build'' NULL,
      PB_FIELD 7 PB_LTYPE_MAP_BYTES OPTIONAL POINTER OTHER gdt_cct_IosClientInfo ''model'' ''country'' NULL,
      PB_FIELD 8 PB_LTYPE_MAP_BYTES OPTIONAL POINTER OTHER gdt_cct_IosClientInfo ''language_code'' ''model'' NULL,
      PB_FIELD 11 PB_LTYPE_MAP_BYTES OPTIONAL POINTER OTHER gdt_cct_IosClientInfo ''application_bundle_id'' ''language_code'' NULL,
      PB_LAST_FIELD]"

definition gdt_cct_ClientInfo_fields :: pb_table where
  "gdt_cct_ClientInfo_fields =
     [PB_FIELD 1 PB_LTYPE_MAP_UENUM OPTIONAL STATIC FIRST gdt_cct_ClientInfo ''client_type'' ''client_type'' NULL,
      PB_FIELD 4 PB_LTYPE_MAP_MESSAGE OPTIONAL STATIC OTHER gdt_cct_ClientInfo ''ios_client_info'' ''client_type'' IosClientInfo_at,
      PB_LAST_FIELD]"

definition gdt_cct_BatchedLogRequest_fields :: pb_table where
  "gdt_cct_BatchedLogRequest_fields =
     [PB_FIELD 1 PB_LTYPE_MAP_MESSAGE REPEATED POINTER FIRST gdt_cct_BatchedLogRequest ''log_request'' ''log_request'' LogRequest_at,
      PB_LAST_FIELD]"

definition gdt_cct_LogRequest_fields :: pb_table where
  "gdt_cct_LogRequest_fields =
     [PB_FIELD 1 PB_LTYPE_MAP_MESSAGE OPTIONAL STATIC FIRST gdt_cct_LogRequest ''client_info'' ''client_info'' ClientInfo_at,
      PB_FIELD 2 PB_LTYPE_MAP_INT32 OPTIONAL STATIC OTHER gdt_cct_LogRequest ''log_source'' ''client_info'' NULL,
      PB_FIELD 3 PB_LTYPE_MAP_MESSAGE REPEATED POINTER OTHER gdt_cct_LogRequest ''log_event'' ''log_source'' LogEvent_at,
      PB_FIELD 4 PB_LTYPE_MAP_INT64 OPTIONAL STATIC OTHER gdt_cct_LogRequest ''request_time_ms'' ''log_event'' NULL,
      PB_FIELD 8 PB_LTYPE_MAP_INT64 OPTIONAL STATIC OTHER gdt_cct_LogRequest ''request_uptime_ms'' ''request_time_ms'' NULL,
      PB_FIELD 9 PB_LTYPE_MAP_UENUM OPTIONAL STATIC OTHER gdt_cct_LogRequest ''qos_tier'' ''request_uptime_ms'' qos_tier_default_at,
      PB_LAST_FIELD]"

definition gdt_cct_QosTierConfiguration_fields :: pb_table where
  "gdt_cct_QosTierConfiguration_fields =
     [PB_FIELD 2 PB_LTYPE_MAP_UENUM OPTIONAL STATIC FIRST gdt_cct_QosTierConfiguration ''qos_tier'' ''qos_tier'' NULL,
      PB_FIELD 3 PB_LTYPE_MAP_INT32 OPTIONAL STATIC OTHER gdt_cct_QosTierConfiguration ''log_source'' ''qos_tier'' log_source_default_at,
      PB_LAST_FIELD]"

definition gdt_cct_QosTiersOverride_fields :: pb_table where
  "gdt_cct_QosTiersOverride_fields =
     [PB_FIELD 1 PB_LTYPE_MAP_MESSAGE REPEATED POINTER FIRST gdt_cct_QosTiersOverride ''qos_tier_configuration'' ''qos_tier_configuration'' QosTierConfiguration_at,
      PB_FIELD 2 PB_LTYPE_MAP_INT64 OPTIONAL STATIC OTHER gdt_cct_QosTiersOverride ''qos_tier_fingerprint'' ''qos_tier_configuration'' NULL,
      PB_LAST_FIELD]"

definition gdt_cct_LogResponse_fields :: pb_table where
  "gdt_cct_LogResponse_fields =
     [PB_FIELD 1 PB_LTYPE_MAP_INT64 OPTIONAL STATIC FIRST gdt_cct_LogResponse ''next_request_wait_millis'' ''next_request_wait_millis'' NULL,
      PB_FIELD 3 PB_LTYPE_MAP_MESSAGE OPTIONAL STATIC OTHER gdt_cct_LogResponse ''qos_tier'' ''next_request_wait_millis'' QosTiersOverride_at,
      PB_LAST_FIELD]"

definition cct_tables :: pb_tables where
  "cct_tables a =
     (if a = LogEvent_at then gdt_cct_LogEvent_fields
      else if a = NetworkConnectionInfo_at then gdt_cct_NetworkConnectionInfo_fields
      else if a = IosClientInfo_at then gdt_cct_IosClientInfo_fields
      else if a = ClientInfo_at then gdt_cct_ClientInfo_fields
      else if a = BatchedLogRequest_at then gdt_cct_BatchedLogRequest_fields
      else if a = LogRequest_at then gdt_cct_LogRequest_fields
      else if a = QosTierConfiguration_at then gdt_cct_QosTierConfiguration_fields
      else if a = QosTiersOverride_at then gdt_cct_QosTiersOverride_fields
      else if a = LogResponse_at then gdt_cct_LogResponse_fields
      else [])"

section \<open>Field tags\<close>

definition gdt_cct_BatchedLogRequest_tags :: "(string \<times> nat) list" where
  "gdt_cct_BatchedLogRequest_tags =
     [(''log_request'', 1)]"

definition gdt_cct_IosClientInfo_tags :: "(string \<times> nat) list" where
  "gdt_cct_IosClientInfo_tags =
     [(''os_major_version'', 3),
      (''os_full_version'', 4),
      (''application_build'', 5),
      (''country'', 6),
      (''model'', 7),
      (''language_code'', 8),
      (''application_bundle_id'', 11)]"

definition gdt_cct_ClientInfo_tags :: "(string \<times> nat) list" where
  "gdt_cct_ClientInfo_tags =
     [(''client_type'', 1),
      (''ios_client_info'', 4)]"

definition gdt_cct_NetworkConnectionInfo_tags :: "(string \<times> nat) list" where
  "gdt_cct_NetworkConnectionInfo_tags =
     [(''network_type'', 1),
      (''mobile_subtype'', 2)]"

definition gdt_cct_QosTierConfiguration_tags :: "(string \<times> nat) list" where
  "gdt_cct_QosTierConfiguration_tags =
     [(''qos_tier'', 2),
      (''log_source'', 3)]"

definition gdt_cct_QosTiersOverride_tags :: "(string \<times> nat) list" where
  "gdt_cct_QosTiersOverride_tags =
     [(''qos_tier_configuration'', 1),
      (''qos_tier_fingerprint'', 2)]"

definition gdt_cct_LogEvent_tags :: "(string \<times> nat) list" where
  "gdt_cct_LogEvent_tags =
     [(''event_time_ms'', 1),
      (''event_code'', 11),
      (''event_uptime_ms'', 17),
      (''source_extension'', 6),
      (''timezone_offset_seconds'', 15),
      (''network_connection_info'', 23)]"

definition gdt_cct_LogRequest_tags :: "(string \<times> nat) list" where
  "gdt_cct_LogRequest_tags =
     [(''request_time_ms'', 4),
      (''request_uptime_ms'', 8),
      (''client_info'', 1),
      (''log_source'', 2),
      (''log_event'', 3),
      (''qos_tier'', 9)]"

definition gdt_cct_LogResponse_tags :: "(string \<times> nat) list" where
  "gdt_cct_LogResponse_tags =
     [(''next_request_wait_millis'', 1),
      (''qos_tier'', 3)]"

text \<open>The maximum encoded sizes that the header promises.\<close>

definition gdt_cct_NetworkConnectionInfo_size :: nat where
  "gdt_cct_NetworkConnectionInfo_size = 13"

definition gdt_cct_QosTierConfiguration_size :: nat where
  "gdt_cct_QosTierConfiguration_size = 13"

section \<open>Core diagnostics\<close>

definition logs_proto_mobilesdk_ios_ICoreConfiguration_ConfigurationType :: "int list" where
  "logs_proto_mobilesdk_ios_ICoreConfiguration_ConfigurationType =
     [0, 1, 2]"

definition logs_proto_mobilesdk_ios_ICoreConfiguration_BuildType :: "int list" where
  "logs_proto_mobilesdk_ios_ICoreConfiguration_BuildType =
     [0, 1, 2, 3]"

definition logs_proto_mobilesdk_ios_ICoreConfiguration_ServiceType :: "int list" where
  "logs_proto_mobilesdk_ios_ICoreConfiguration_ServiceType =
     [0, 1, 2, 3, 5, 6, 7, 8, 9, 10, 11, 12, 13, 14, 15, 16, 17, 18, 19, 20, 21, 22, 23, 24, 26, 27, 28, 29, 30, 31, 32, 33, 34, 35]"

definition logs_proto_mobilesdk_ios_ICoreConfiguration_PodName :: "int list" where
  "logs_proto_mobilesdk_ios_ICoreConfiguration_PodName =
     [0, 1, 2]"

definition logs_proto_mobilesdk_ios_ICoreConfiguration_DeploymentType :: "int list" where
  "logs_proto_mobilesdk_ios_ICoreConfiguration_DeploymentType =
     [0, 1, 2, 3, 4]"

definition logs_proto_mobilesdk_ios_ICoreConfiguration_tags :: "(string \<times> nat) list" where
  "logs_proto_mobilesdk_ios_ICoreConfiguration_tags =
     [(''pod_name'', 16),
      (''configuration_type'', 1),
      (''icore_version'', 18),
      (''sdk_version'', 19),
      (''sdk_service_installed'', 7),
      (''sdk_name'', 20),
      (''device_model'', 9),
      (''os_version'', 22),
      (''app_id'', 10),
      (''bundle_id'', 12),
      (''min_supported_ios_version'', 24),
      (''use_default_app'', 25),
      (''app_count'', 21),
      (''deployed_in_app_store'', 26),
      (''dynamic_framework_count'', 27),
      (''apple_framework_version'', 28),
      (''using_zip_file'', 29),
      (''deployment_type'', 30),
      (''platform_info'', 31),
      (''swizzling_enabled'', 33),
      (''using_gdt'', 36)]"


definition logs_proto_mobilesdk_ios_ICoreConfiguration :: c_members where
  "logs_proto_mobilesdk_ios_ICoreConfiguration =
     [(''has_configuration_type'', C_bool), (''configuration_type'', C_int32),
      (''sdk_service_installed_count'', C_int32), (''sdk_service_installed'', C_ptr 4),
      (''device_model'', bytes_ptr), (''app_id'', bytes_ptr), (''bundle_id'', bytes_ptr),
      (''has_pod_name'', C_bool), (''pod_name'', C_int32),
      (''icore_version'', bytes_ptr), (''sdk_version'', bytes_ptr),
      (''has_sdk_name'', C_bool), (''sdk_name'', C_int32),
      (''has_app_count'', C_bool), (''app_count'', C_int32),
      (''os_version'', bytes_ptr), (''min_supported_ios_version'', bytes_ptr),
      (''has_use_default_app'', C_bool), (''use_default_app'', C_bool),
      (''has_deployed_in_app_store'', C_bool), (''deployed_in_app_store'', C_bool),
      (''has_dynamic_framework_count'', C_bool), (''dynamic_framework_count'', C_int32),
      (''apple_framework_version'', bytes_ptr),
      (''has_using_zip_file'', C_bool), (''using_zip_file'', C_bool),
      (''has_deployment_type'', C_bool), (''deployment_type'', C_int32),
      (''platform_info'', bytes_ptr),
      (''has_swizzling_enabled'', C_bool), (''swizzling_enabled'', C_bool),
      (''has_using_gdt'', C_bool), (''using_gdt'', C_bool)]"

definition logs_proto_mobilesdk_ios_ICoreConfiguration_fields :: pb_table where
  "logs_proto_mobilesdk_ios_ICoreConfiguration_fields =
     (let st = logs_proto_mobilesdk_ios_ICoreConfiguration in
     [PB_FIELD 1 PB_LTYPE_MAP_UENUM OPTIONAL STATIC FIRST st ''configuration_type'' ''configuration_type'' NULL,
      PB_FIELD 7 PB_LTYPE_MAP_UENUM REPEATED POINTER OTHER st ''sdk_service_installed'' ''configuration_type'' NULL,
      PB_FIELD 9 PB_LTYPE_MAP_BYTES OPTIONAL POINTER OTHER st ''device_model'' ''sdk_service_installed'' NULL,
      PB_FIELD 10 PB_LTYPE_MAP_BYTES OPTIONAL POINTER OTHER st ''app_id'' ''device_model'' NULL,
      PB_FIELD 12 PB_LTYPE_MAP_BYTES OPTIONAL POINTER OTHER st ''bundle_id'' ''app_id'' NULL,
      PB_FIELD 16 PB_LTYPE_MAP_UENUM OPTIONAL STATIC OTHER st ''pod_name'' ''bundle_id'' NULL,
      PB_FIELD 18 PB_LTYPE_MAP_BYTES OPTIONAL POINTER OTHER st ''icore_version'' ''pod_name'' NULL,
      PB_FIELD 19 PB_LTYPE_MAP_BYTES OPTIONAL POINTER OTHER st ''sdk_version'' ''icore_version'' NULL,
      PB_FIELD 20 PB_LTYPE_MAP_UENUM OPTIONAL STATIC OTHER st ''sdk_name'' ''sdk_version'' NULL,
      PB_FIELD 21 PB_LTYPE_MAP_INT32 OPTIONAL STATIC OTHER st ''app_count'' ''sdk_name'' NULL,
      PB_FIELD 22 PB_LTYPE_MAP_BYTES OPTIONAL POINTER OTHER st ''os_version'' ''app_count'' NULL,
      PB_FIELD 24 PB_LTYPE_MAP_BYTES OPTIONAL POINTER OTHER st ''min_supported_ios_version'' ''os_version'' NULL,
      PB_FIELD 25 PB_LTYPE_MAP_BOOL OPTIONAL STATIC OTHER st ''use_default_app'' ''min_supported_ios_version'' NULL,
      PB_FIELD 26 PB_LTYPE_MAP_BOOL OPTIONAL STATIC OTHER st ''deployed_in_app_store'' ''use_default_app'' NULL,
      PB_FIELD 27 PB_LTYPE_MAP_INT32 OPTIONAL STATIC OTHER st ''dynamic_framework_count'' ''deployed_in_app_store'' NULL,
      PB_FIELD 28 PB_LTYPE_MAP_BYTES OPTIONAL POINTER OTHER st ''apple_framework_version'' ''dynamic_framework_count'' NULL,
      PB_FIELD 29 PB_LTYPE_MAP_BOOL OPTIONAL STATIC OTHER st ''using_zip_file'' ''apple_framework_version'' NULL,
      PB_FIELD 30 PB_LTYPE_MAP_UENUM OPTIONAL STATIC OTHER st ''deployment_type'' ''using_zip_file'' NULL,
      PB_FIELD 31 PB_LTYPE_MAP_BYTES OPTIONAL POINTER OTHER st ''platform_info'' ''deployment_type'' NULL,
      PB_FIELD 33 PB_LTYPE_MAP_BOOL OPTIONAL STATIC OTHER st ''swizzling_enabled'' ''platform_info'' NULL,
      PB_FIELD 36 PB_LTYPE_MAP_BOOL OPTIONAL STATIC OTHER st ''using_gdt'' ''swizzling_enabled'' NULL,
      PB_LAST_FIELD])"

section \<open>The tables describe the structures\<close>

text \<open>
  \<open>describes fs st ms\<close>: the iterator finds the \<open>k\<close>-th field of the table \<open>fs\<close> at the member \<open>ms ! k\<close> of the
  structure \<open>st\<close>, its size pointer at the presence flag or the count of that member if there is
  one and at the member itself otherwise, and the member lies within the structure.
\<close>

definition size_member :: "c_members \<Rightarrow> string \<Rightarrow> string" where
  "size_member st m =
     (if map_of st (''has_'' @ m) \<noteq> None then ''has_'' @ m
      else if map_of st (m @ ''_count'') \<noteq> None then m @ ''_count'' else m)"

definition describes :: "pb_table \<Rightarrow> c_members \<Rightarrow> string list \<Rightarrow> bool" where
  "describes fs st ms \<longleftrightarrow> num_fields fs = length ms \<and>
     list_all (\<lambda>k. field_layout fs k = int (offsetof st (ms ! k)) \<and>
        size_layout fs k = int (offsetof st (size_member st (ms ! k))) \<and>
        field_layout fs k + member_size (field_at fs k) \<le> int (struct_size st)) [0..<length ms]"

lemma describes_LogEvent: "describes gdt_cct_LogEvent_fields gdt_cct_LogEvent
    [''event_time_ms'', ''source_extension'', ''event_code'', ''timezone_offset_seconds'',
     ''event_uptime_ms'', ''network_connection_info'']"
  by code_simp

lemma describes_NetworkConnectionInfo: "describes gdt_cct_NetworkConnectionInfo_fields gdt_cct_NetworkConnectionInfo
    [''network_type'', ''mobile_subtype'']"
  by code_simp

lemma describes_IosClientInfo: "describes gdt_cct_IosClientInfo_fields gdt_cct_IosClientInfo
    [''os_major_version'', ''os_full_version'', ''application_build'', ''country'', ''model'', ''language_code'', ''application_bundle_id'']"
  by code_simp

lemma describes_ClientInfo: "describes gdt_cct_ClientInfo_fields gdt_cct_ClientInfo
    [''client_type'', ''ios_client_info'']"
  by code_simp

lemma describes_BatchedLogRequest: "describes gdt_cct_BatchedLogRequest_fields gdt_cct_BatchedLogRequest
    [''log_request'']"
  by code_simp

lemma describes_LogRequest: "describes gdt_cct_LogRequest_fields gdt_cct_LogRequest
    [''client_info'', ''log_source'', ''log_event'', ''request_time_ms'', ''request_uptime_ms'', ''qos_tier'']"
  by code_simp

lemma describes_QosTierConfiguration: "describes gdt_cct_QosTierConfiguration_fields gdt_cct_QosTierConfiguration
    [''qos_tier'', ''log_source'']"
  by code_simp

lemma describes_QosTiersOverride: "describes gdt_cct_QosTiersOverride_fields gdt_cct_QosTiersOverride
    [''qos_tier_configuration'', ''qos_tier_fingerprint'']"
  by code_simp

lemma describes_LogResponse: "describes gdt_cct_LogResponse_fields gdt_cct_LogResponse
    [''next_request_wait_millis'', ''qos_tier'']"
  by code_simp

end
