(* ===== verification/Pb_Decode_Parts.thy ===== *)
theory Pb_Decode_Parts
  imports Pb_Decode_Frame
begin

text \<open>
  Two parts of the decoder on their own: the overflow check of \<open>allocate_field\<close>, and the bitmap in which
  \<open>pb_decode_noinit\<close> records the required fields it has seen.
\<close>

section \<open>Allocation\<close>

text \<open>The allocator returns non-null 64-bit addresses.\<close>

definition heap_valid :: "'u dec_env \<Rightarrow> bool" where
  "heap_valid env \<longleftrightarrow> (\<forall>bs n a. heap_place env bs n = Some a \<longrightarrow> 0 < a \<and> a < 2 ^ 64)"

lemma alloc_no_overflow:
  fixes dsize asize :: size_t
  assumes "asize \<noteq> 0" "\<not> ((dsize \<ge> push_bit 32 1 \<or> asize \<ge> push_bit 32 1) \<and> (- 1) div asize < dsize)"
  shows "unat asize * unat dsize < 2 ^ 64"
proof (cases "dsize \<ge> push_bit 32 1 \<or> asize \<ge> push_bit 32 1")
  case True
  then have "dsize \<le> (- 1) div asize" using assms(2) by simp
  then have "unat dsize \<le> unat (- 1 :: size_t) div unat asize" by (simp add: word_le_nat_alt unat_div)
  then have "unat dsize * unat asize \<le> unat (- 1 :: size_t) div unat asize * unat asize" by (rule mult_right_mono) simp
  also have "\<dots> \<le> unat (- 1 :: size_t)" by (rule div_times_less_eq_dividend)
  also have "\<dots> < 2 ^ 64" using unsigned_less [of "- 1 :: size_t"] by simp
  finally show ?thesis by (simp add: mult.commute)
next
  case False
  then have "unat dsize < 2 ^ 32" "unat asize < 2 ^ 32" by (simp_all add: word_le_nat_alt not_le push_bit_eq_mult)
  then have "unat asize * unat dsize < 2 ^ 32 * 2 ^ 32" by (intro mult_strict_mono) auto
  then show ?thesis by simp
qed

lemma realloc_block:
  assumes "pb_realloc env p n w = (Some a, w1)"
  shows "map_of (blocks w1) a = Some (unat n)" "\<exists>bs. heap_place env bs (unat n) = Some a"
  using assms by (auto simp: pb_realloc_def Let_def split: if_splits option.splits)

section \<open>Required fields\<close>

definition seen_bit :: "32 word list \<Rightarrow> nat \<Rightarrow> bool" where
  "seen_bit seen i = bit (seen ! (i div 32)) (i mod 32)"

lemma mark_seen_bit:
  assumes "PB_HTYPE (ftype (iter_field it)) = PB_HTYPE_REQUIRED" "unat (required_field_index it) < 64" "length seen = 2" "i < 64"
  shows "seen_bit (mark_seen it seen) i \<longleftrightarrow> i = unat (required_field_index it) \<or> seen_bit seen i"
proof -
  let ?k = "required_field_index it"
  have k: "?k < PB_MAX_REQUIRED_FIELDS" using assms(2) by (simp add: PB_MAX_REQUIRED_FIELDS_def word_less_nat_alt)
  have q: "unat (drop_bit 5 ?k) = unat ?k div 32" by (simp add: drop_bit_eq_div unat_div)
  have "?k AND 31 = take_bit 5 ?k" by (simp add: take_bit_eq_mask mask_eq_exp_minus_1)
  then have r: "unat (?k AND 31) = unat ?k mod 32" by (simp only: unsigned_take_bit_eq) (simp add: take_bit_eq_mod)
  have bnd: "unat ?k div 32 < 2" "i div 32 < 2" using assms(2,4) by simp_all
  have eq: "i = unat ?k \<longleftrightarrow> i div 32 = unat ?k div 32 \<and> i mod 32 = unat ?k mod 32" by (metis div_mult_mod_eq)
  show ?thesis
    unfolding eq using assms(1,3) bnd k q r
    by (cases "i div 32 = unat ?k div 32") (auto simp: mark_seen_def seen_bit_def Let_def bit_simps)
qed

lemma all_bits: "w = - 1 \<longleftrightarrow> (\<forall>j < 32. bit w j)" for w :: "32 word"
  by (auto simp: bit_eq_iff dest: bit_imp_le_length)

lemma low_bits: "r < 32 \<Longrightarrow> w = drop_bit (32 - r) (- 1) \<longleftrightarrow> (\<forall>j < 32. bit w j = (j < r))" for w :: "32 word"
  by (auto simp: bit_eq_iff bit_drop_bit_eq bit_mask_iff less_diff_conv2 dest: bit_imp_le_length)

lemma required_missing_iff:
  assumes "unat n \<le> 64" "length seen = 2" "\<forall>i. unat n \<le> i \<and> i < 64 \<longrightarrow> \<not> seen_bit seen i"
  shows "required_missing n seen \<longleftrightarrow> (\<exists>i < unat n. \<not> seen_bit seen i)"
proof -
  define q r where "q = unat n div 32" and "r = unat n mod 32"
  have n: "unat n = 32 * q + r" and r: "r < 32" by (simp_all add: q_def r_def)
  have dq: "unat (drop_bit 5 n) = q" by (simp add: drop_bit_eq_div unat_div q_def)
  have "n AND 31 = take_bit 5 n" by (simp add: take_bit_eq_mask mask_eq_exp_minus_1)
  then have mr: "unat (n AND 31) = r" by (simp only: unsigned_take_bit_eq) (simp add: take_bit_eq_mod r_def)
  have sub: "unat (32 - (n AND 31)) = 32 - r" using r mr by (simp add: unat_sub word_le_nat_alt)
  have nz: "n AND 31 \<noteq> 0 \<longleftrightarrow> r \<noteq> 0" using mr by (metis unat_eq_zero)
  have full: "seen ! i = - 1 \<longleftrightarrow> (\<forall>j < 32. seen_bit seen (32 * i + j))" for i
    by (auto simp: all_bits seen_bit_def)
  have part: "seen ! q = drop_bit (32 - r) (- 1) \<longleftrightarrow> (\<forall>j < r. seen_bit seen (32 * q + j))" if "r \<noteq> 0"
  proof -
    have "q < 2" using assms(1) n that by simp
    then have "\<not> bit (seen ! q) j" if "r \<le> j" "j < 32" for j
      using assms(3) [rule_format, of "32 * q + j"] that n by (simp add: seen_bit_def)
    then show ?thesis unfolding low_bits [OF r] using r by (auto simp: seen_bit_def) (meson not_le)
  qed
  have split: "(\<exists>i < unat n. \<not> seen_bit seen i) \<longleftrightarrow>
      (\<exists>i < q. \<exists>j < 32. \<not> seen_bit seen (32 * i + j)) \<or> (\<exists>j < r. \<not> seen_bit seen (32 * q + j))"
  proof
    assume "\<exists>i < unat n. \<not> seen_bit seen i"
    then obtain i where i: "i < 32 * q + r" "\<not> seen_bit seen i" using n by auto
    have d: "i = 32 * (i div 32) + i mod 32" "i mod 32 < 32" by simp_all
    show "(\<exists>i < q. \<exists>j < 32. \<not> seen_bit seen (32 * i + j)) \<or> (\<exists>j < r. \<not> seen_bit seen (32 * q + j))"
    proof (cases "i < 32 * q")
      case True
      then have "i div 32 < q" by (simp add: less_mult_imp_div_less mult.commute)
      then show ?thesis using i(2) d by metis
    next
      case False
      then have "i - 32 * q < r" "\<not> seen_bit seen (32 * q + (i - 32 * q))" using i by auto
      then show ?thesis by blast
    qed
  next
    assume "(\<exists>i < q. \<exists>j < 32. \<not> seen_bit seen (32 * i + j)) \<or> (\<exists>j < r. \<not> seen_bit seen (32 * q + j))"
    then show "\<exists>i < unat n. \<not> seen_bit seen i"
    proof (elim disjE exE conjE)
      fix i j assume "i < q" "j < (32 :: nat)" "\<not> seen_bit seen (32 * i + j)"
      moreover from this have "32 * i + j < 32 * q" by simp
      ultimately show ?thesis using n by (metis trans_less_add1)
    next
      fix j assume "j < r" "\<not> seen_bit seen (32 * q + j)"
      then show ?thesis using n by (intro exI [of _ "32 * q + j"]) simp
    qed
  qed
  show ?thesis
  proof (cases "n = 0")
    case True then show ?thesis by (simp add: required_missing_def)
  next
    case False
    then show ?thesis
      unfolding required_missing_def split dq nz sub
      using full part by (auto simp: word_gt_0)
  qed
qed

end
