(* ===== verification/Log_Example.thy ===== *)
theory Log_Example
  imports Cct_Tables Pb_Decode_Parts
begin

text \<open>
  Concrete data on which the properties are evaluated: a log response of the upload server in
  memory, with the environments in which the program encodes and decodes it. The allocator puts
  each block behind all others.
\<close>

text \<open>A \<^verbatim>\<open>gdt_cct_LogResponse\<close> at address 0x10000 that asks to wait 300 milliseconds.\<close>

definition log_response_memory :: memory where
  "log_response_memory = store_bytes (\<lambda>a. 0) 0x10000 [1, 0, 0, 0, 0, 0, 0, 0, 0x2C, 1, 0, 0, 0, 0, 0, 0]"

definition log_response_wire :: "byte list" where
  "log_response_wire = [0x08, 0xAC, 0x02]"

text \<open>An encode callback that writes one varint.\<close>

definition varint_callback :: "addr \<Rightarrow> 'u pb_ostream \<Rightarrow> pb_field_t \<Rightarrow> addr \<Rightarrow> bool \<times> 'u pb_ostream" where
  "varint_callback f s field a = pb_encode_varint s 7"

definition varint_callback_wire :: "addr \<Rightarrow> pb_field_t \<Rightarrow> addr \<Rightarrow> byte list option" where
  "varint_callback_wire f field a = Some (varint_wire 7)"

definition log_env :: "unit enc_env" where
  "log_env = \<lparr>mem = log_response_memory, tables = cct_tables, cb_encode = varint_callback,
     ext_encode = (\<lambda>f s e. (True, s))\<rparr>"

lemma log_env_simps [simp]: "mem log_env = log_response_memory" "tables log_env = cct_tables"
  by (simp_all add: log_env_def)

lemma log_tables_ok: "tables_ok 3 cct_tables gdt_cct_LogResponse_fields"
  using ok_LogResponse [of 0] by (simp add: numeral_3_eq_3 del: tables_ok.simps)

lemma log_wire:
  "message_wire 3 log_response_memory cct_tables varint_callback_wire gdt_cct_LogResponse_fields 0x10000 =
   Some log_response_wire"
  by code_simp

lemma log_callbacks: "callbacks_render log_env varint_callback_wire"
proof -
  have "emits (\<lambda>s :: unit pb_ostream. pb_encode_varint s 7) (varint_wire (unat (7 :: 64 word)))"
    by (rule emits_varint)
  then show ?thesis
    by (simp add: callbacks_render_def log_env_def varint_callback_def varint_callback_wire_def renders_Some)
qed

text \<open>A message whose descriptor is broken: an integer of three bytes.\<close>

definition broken_fields :: pb_table where
  "broken_fields = [\<lparr>tag = 1, ftype = PB_LTYPE_VARINT, data_offset = 0, size_offset = 0, data_size = 3,
     array_size = 0, ptr = NULL\<rparr>, PB_LAST_FIELD]"

lemma broken_ok: "tables_ok 3 cct_tables broken_fields"
  by code_simp

lemma broken_wire: "message_wire 3 log_response_memory cct_tables varint_callback_wire broken_fields 0x10000 = None"
  by code_simp

text \<open>The decoder's side.\<close>

definition heap_behind :: "(addr \<times> nat) list \<Rightarrow> nat \<Rightarrow> addr option" where
  "heap_behind bs n =
     (let a = fold max (map (\<lambda>(a, k). a + int k) bs) 0x20000 in if a + int n \<le> 0x100000000 then Some a else None)"

definition log_dec_env :: "unit dec_env" where
  "log_dec_env = \<lparr>d_tables = cct_tables, heap_place = heap_behind,
     cb_decode = (\<lambda>f s fld a w. (False, s, w)),
     ext_decode = (\<lambda>f s ext t wt w. (False, s, w))\<rparr>"

definition log_world :: world where
  "log_world = \<lparr>wmem = (\<lambda>a. 0), blocks = [], fixed_count_size = 0, faulty = False\<rparr>"

lemma log_callbacks_safe: "callbacks_safe log_dec_env"
  by (simp add: callbacks_safe_def log_dec_env_def i_step_refl)

lemma log_progress: "callbacks_progress log_dec_env"
  using log_callbacks_safe by (simp add: callbacks_progress_def) (simp add: log_dec_env_def)

lemma log_dec_tables [simp]: "d_tables log_dec_env = cct_tables"
  by (simp add: log_dec_env_def)

lemma log_decodable: "decodable 3 cct_tables gdt_cct_LogResponse_fields"
  using decodable_LogResponse [of 0] by (simp add: numeral_3_eq_3 del: decodable.simps)

lemma network_static: "static_ok 2 cct_tables 16 gdt_cct_NetworkConnectionInfo_fields"
  by code_simp

lemma log_within: "callbacks_within {} log_dec_env"
  by (simp add: callbacks_within_def log_dec_env_def)

lemma log_heap_valid: "heap_valid log_dec_env"
proof -
  have "b \<le> fold max xs b" for b :: int and xs
    by (induction xs arbitrary: b) (auto intro: order_trans [OF max.cobounded2])
  then have "0 < fold max xs (0x20000 :: int)" for xs by (rule less_le_trans [rotated]) simp
  then show ?thesis by (auto simp: heap_valid_def log_dec_env_def heap_behind_def Let_def split: if_splits)
qed

end
