(* ===== verification/Base64.thy ===== *)
theory Base64
  imports Nanopb_Prelude "HOL-Library.Sublist"
begin

text \<open>
  The base-64 codec of the realtime database client's web socket (\<^verbatim>\<open>fbase64.c\<close>): \<open>f_b64_ntop\<close> writes the
  base-64 text of a byte string into a buffer, \<open>f_b64_pton\<close> reads it back.

  A buffer is a list of bytes; a store outside it is undefined behaviour in C and makes the result
  \<open>B64_undefined\<close>. Otherwise the result is the returned \<^verbatim>\<open>int\<close> and the buffer. Source text is the list
  of characters before the terminating null character. \<open>b64_text\<close> is the abstract specification: the
  base-64 text of a byte string as RFC 1521 defines it.
\<close>

section \<open>Model\<close>

type_synonym size_t = "64 word"

definition Base64 :: "byte list" where
  "Base64 = map of_char ''ABCDEFGHIJKLMNOPQRSTUVWXYZabcdefghijklmnopqrstuvwxyz0123456789+/''"

definition Pad64 :: byte where
  "Pad64 = of_char (CHR ''='')"

datatype b64_result = B64_undefined | B64_return int "byte list"

text \<open>\<^verbatim>\<open>target[i] = v\<close> in a buffer that may be too short.\<close>

definition b64_put :: "byte list \<Rightarrow> nat \<Rightarrow> byte \<Rightarrow> byte list option" where
  "b64_put target i v = (if i < length target then Some (target[i := v]) else None)"

fun b64_put_all :: "byte list \<Rightarrow> nat \<Rightarrow> byte list \<Rightarrow> byte list option" where
  "b64_put_all target i [] = Some target"
| "b64_put_all target i (v # vs) = Option.bind (b64_put target i v) (\<lambda>t. b64_put_all t (Suc i) vs)"

definition b64_out0 :: "byte \<Rightarrow> byte" where
  "b64_out0 a = drop_bit 2 a"

definition b64_out1 :: "byte \<Rightarrow> byte \<Rightarrow> byte" where
  "b64_out1 a b = push_bit 4 (a AND 0x03) + drop_bit 4 b"

definition b64_out2 :: "byte \<Rightarrow> byte \<Rightarrow> byte" where
  "b64_out2 b c = push_bit 2 (b AND 0x0F) + drop_bit 6 c"

definition b64_out3 :: "byte \<Rightarrow> byte" where
  "b64_out3 c = c AND 0x3F"

definition b64_char :: "byte \<Rightarrow> byte" where
  "b64_char v = Base64 ! unat v"

text \<open>The end of \<open>f_b64_ntop\<close>: the terminating null character and the returned length.\<close>

definition b64_finish :: "size_t \<Rightarrow> byte list \<Rightarrow> size_t \<Rightarrow> b64_result" where
  "b64_finish datalength target targsize =
     (if datalength \<ge> targsize then B64_return (- 1) target
      else case b64_put target (unat datalength) 0 of
             None \<Rightarrow> B64_undefined
           | Some t \<Rightarrow> B64_return (sint (ucast datalength :: 32 word)) t)"

definition b64_group ::
    "byte list \<Rightarrow> size_t \<Rightarrow> byte list \<Rightarrow> size_t \<Rightarrow> (size_t \<Rightarrow> byte list \<Rightarrow> b64_result) \<Rightarrow> b64_result" where
  "b64_group chars datalength target targsize k =
     (if datalength + 4 > targsize then B64_return (- 1) target
      else case b64_put_all target (unat datalength) chars of
             None \<Rightarrow> B64_undefined
           | Some t \<Rightarrow> k (datalength + 4) t)"

fun b64_ntop_loop :: "byte list \<Rightarrow> size_t \<Rightarrow> byte list \<Rightarrow> size_t \<Rightarrow> b64_result" where
  "b64_ntop_loop (a # b # c # src) datalength target targsize =
     b64_group [b64_char (b64_out0 a), b64_char (b64_out1 a b), b64_char (b64_out2 b c), b64_char (b64_out3 c)]
       datalength target targsize (\<lambda>d t. b64_ntop_loop src d t targsize)"
| "b64_ntop_loop [a, b] datalength target targsize =
     b64_group [b64_char (b64_out0 a), b64_char (b64_out1 a b), b64_char (b64_out2 b 0), Pad64]
       datalength target targsize (\<lambda>d t. b64_finish d t targsize)"
| "b64_ntop_loop [a] datalength target targsize =
     b64_group [b64_char (b64_out0 a), b64_char (b64_out1 a 0), Pad64, Pad64]
       datalength target targsize (\<lambda>d t. b64_finish d t targsize)"
| "b64_ntop_loop [] datalength target targsize = b64_finish datalength target targsize"

definition f_b64_ntop :: "byte list \<Rightarrow> byte list \<Rightarrow> size_t \<Rightarrow> b64_result" where
  "f_b64_ntop src target targsize = b64_ntop_loop src 0 target targsize"

text \<open>\<^verbatim>\<open>isspace\<close> in the C locale: the space and the control characters 9 to 13.\<close>

definition isspace :: "byte \<Rightarrow> bool" where
  "isspace ch = (ch = 0x20 \<or> (0x09 \<le> ch \<and> ch \<le> 0x0D))"

text \<open>\<^verbatim>\<open>strchr(Base64, ch) - Base64\<close>\<close>

definition b64_pos :: "byte \<Rightarrow> nat option" where
  "b64_pos ch = List.find (\<lambda>i. Base64 ! i = ch) [0..<64]"

datatype b64_step =
    Stop b64_result
  | Go nat "32 word" "byte list option"

definition b64_get :: "byte list \<Rightarrow> nat \<Rightarrow> byte" where
  "b64_get t i = (if i < length t then t ! i else 0)"

text \<open>
  One character of value \<open>pos\<close> in state \<open>state\<close>; the target may be absent (a null pointer). \<open>tarindex\<close> is a
  32-bit \<^verbatim>\<open>u_int\<close>, compared with the \<^verbatim>\<open>size_t\<close> size of the target.
\<close>

definition b64_store2 ::
    "byte list option \<Rightarrow> 32 word \<Rightarrow> size_t \<Rightarrow> byte \<Rightarrow> byte \<Rightarrow> nat \<Rightarrow> b64_step" where
  "b64_store2 target tarindex targsize hi lo state' =
     (case target of
        None \<Rightarrow> Go state' (tarindex + 1) None
      | Some t \<Rightarrow>
          if ucast (tarindex + 1) \<ge> targsize then Stop (B64_return (- 1) t)
          else
            case Option.bind (b64_put t (unat tarindex) (b64_get t (unat tarindex) OR hi))
                   (\<lambda>t1. b64_put t1 (unat (tarindex + 1)) lo) of
              None \<Rightarrow> Stop B64_undefined
            | Some t2 \<Rightarrow> Go state' (tarindex + 1) (Some t2))"

definition b64_low4 :: "byte \<Rightarrow> byte" where
  "b64_low4 v = push_bit 4 (v AND 0x0F)"

definition b64_low2 :: "byte \<Rightarrow> byte" where
  "b64_low2 v = push_bit 6 (v AND 0x03)"

definition b64_pton_char :: "nat \<Rightarrow> nat \<Rightarrow> 32 word \<Rightarrow> byte list option \<Rightarrow> size_t \<Rightarrow> b64_step" where
  "b64_pton_char state pos tarindex target targsize =
     (let v = of_nat pos :: byte in
      if state = 0 then
        case target of
          None \<Rightarrow> Go 1 tarindex None
        | Some t \<Rightarrow>
            if ucast tarindex \<ge> targsize then Stop (B64_return (- 1) t)
            else case b64_put t (unat tarindex) (push_bit 2 v) of
                   None \<Rightarrow> Stop B64_undefined
                 | Some t1 \<Rightarrow> Go 1 tarindex (Some t1)
      else if state = 1 then
        b64_store2 target tarindex targsize (drop_bit 4 v) (b64_low4 v) 2
      else if state = 2 then
        b64_store2 target tarindex targsize (drop_bit 2 v) (b64_low2 v) 3
      else
        case target of
          None \<Rightarrow> Go 0 (tarindex + 1) None
        | Some t \<Rightarrow>
            if ucast tarindex \<ge> targsize then Stop (B64_return (- 1) t)
            else case b64_put t (unat tarindex) (b64_get t (unat tarindex) OR v) of
                   None \<Rightarrow> Stop B64_undefined
                 | Some t1 \<Rightarrow> Go 0 (tarindex + 1) (Some t1))"

definition b64_return :: "int \<Rightarrow> byte list option \<Rightarrow> b64_result" where
  "b64_return n target = B64_return n (case target of None \<Rightarrow> [] | Some t \<Rightarrow> t)"

text \<open>Only white space may follow the padding, and the bits past the last byte must be zero.\<close>

definition b64_tail :: "byte list \<Rightarrow> 32 word \<Rightarrow> byte list option \<Rightarrow> b64_result" where
  "b64_tail src tarindex target =
     (if list_all isspace src then
        case target of
          None \<Rightarrow> b64_return (sint tarindex) target
        | Some t \<Rightarrow>
            if unat tarindex < length t then
              if t ! unat tarindex \<noteq> 0 then b64_return (- 1) target else b64_return (sint tarindex) target
            else B64_undefined
      else b64_return (- 1) target)"

definition b64_padding :: "byte list \<Rightarrow> nat \<Rightarrow> 32 word \<Rightarrow> byte list option \<Rightarrow> b64_result" where
  "b64_padding src state tarindex target =
     (if state = 0 \<or> state = 1 then b64_return (- 1) target
      else if state = 2 then
        case dropWhile isspace src of
          [] \<Rightarrow> b64_return (- 1) target
        | ch # rest \<Rightarrow> if ch \<noteq> Pad64 then b64_return (- 1) target else b64_tail rest tarindex target
      else b64_tail src tarindex target)"

fun b64_pton_loop :: "byte list \<Rightarrow> nat \<Rightarrow> 32 word \<Rightarrow> byte list option \<Rightarrow> size_t \<Rightarrow> b64_result" where
  "b64_pton_loop [] state tarindex target targsize =
     (if state \<noteq> 0 then b64_return (- 1) target else b64_return (sint tarindex) target)"
| "b64_pton_loop (ch # src) state tarindex target targsize =
     (if isspace ch then b64_pton_loop src state tarindex target targsize
      else if ch = Pad64 then b64_padding src state tarindex target
      else
        case b64_pos ch of
          None \<Rightarrow> b64_return (- 1) target
        | Some pos \<Rightarrow>
            (case b64_pton_char state pos tarindex target targsize of
               Stop r \<Rightarrow> r
             | Go state' tarindex' target' \<Rightarrow> b64_pton_loop src state' tarindex' target' targsize))"

definition f_b64_pton :: "byte list \<Rightarrow> byte list option \<Rightarrow> size_t \<Rightarrow> b64_result" where
  "f_b64_pton src target targsize = b64_pton_loop src 0 0 target targsize"

section \<open>Specification\<close>

text \<open>
  Three bytes are a number of 24 bits, written as four digits to the base 64; one or two bytes at the end are
  padded with zeros and \<^verbatim>\<open>=\<close> stands for the digits that hold no data.
\<close>

definition b64_digits :: "nat \<Rightarrow> byte list" where
  "b64_digits n = map (\<lambda>k. Base64 ! (n div 64 ^ k mod 64)) [3, 2, 1, 0]"

fun b64_text :: "byte list \<Rightarrow> byte list" where
  "b64_text (a # b # c # src) = b64_digits (unat a * 65536 + unat b * 256 + unat c) @ b64_text src"
| "b64_text [a, b] = take 3 (b64_digits (unat a * 65536 + unat b * 256)) @ [Pad64]"
| "b64_text [a] = take 2 (b64_digits (unat a * 65536)) @ [Pad64, Pad64]"
| "b64_text [] = []"

text \<open>The digits are what the code computes with shifts and masks.\<close>

lemma nat_and_low: "n AND 3 = n mod 4" "n AND 15 = n mod 16" "n AND 63 = n mod 64" for n :: nat
proof -
  have "n AND mask k = n mod 2 ^ k" for k by (simp add: take_bit_eq_mod flip: take_bit_eq_mask)
  from this [of 2] this [of 4] this [of 6]
  show "n AND 3 = n mod 4" "n AND 15 = n mod 16" "n AND 63 = n mod 64" by (simp_all add: mask_eq_exp_minus_1)
qed

lemma unat_b64_out:
  "unat (b64_out0 a) = unat a div 4"
  "unat (b64_out1 a b) = unat a mod 4 * 16 + unat b div 16"
  "unat (b64_out2 b c) = unat b mod 16 * 4 + unat c div 64"
  "unat (b64_out3 c) = unat c mod 64"
proof -
  have lt: "unat x < 256" for x :: byte using unsigned_less [of x] by simp
  have "unat a mod 4 * 16 < 256" "unat b mod 16 * 4 < 256" by (simp_all add: mult.commute)
  moreover have "unat a div 4 < 256" "unat b div 16 < 16" "unat c div 64 < 4" using lt [of a] lt [of b] lt [of c] by simp_all
  ultimately show "unat (b64_out0 a) = unat a div 4" "unat (b64_out1 a b) = unat a mod 4 * 16 + unat b div 16"
    "unat (b64_out2 b c) = unat b mod 16 * 4 + unat c div 64"  "unat (b64_out3 c) = unat c mod 64" 
    by (simp_all add: b64_out0_def b64_out1_def b64_out2_def b64_out3_def unat_word_ariths unat_div unsigned_and_eq nat_and_low drop_bit_eq_div
       push_bit_eq_mult)
qed

lemma b64_digits_group:
  "b64_digits (unat a * 65536 + unat b * 256 + unat c) =
   [b64_char (b64_out0 a), b64_char (b64_out1 a b), b64_char (b64_out2 b c), b64_char (b64_out3 c)]"
proof -
  have lt: "unat a < 256" "unat b < 256" "unat c < 256" using unsigned_less [of a] unsigned_less [of b] unsigned_less [of c] by simp_all
  let ?n = "unat a * 65536 + unat b * 256 + unat c"
  define p q r t where "p = unat a div 4" and "q = unat a mod 4 * 16 + unat b div 16"
    and "r = unat b mod 16 * 4 + unat c div 64" and "t = unat c mod 64"
  have n: "?n = ((p * 64 + q) * 64 + r) * 64 + t"
  proof -
    have "a' * 4 + a0 = x \<Longrightarrow> b' * 16 + b0 = y \<Longrightarrow> c' * 64 + c0 = z \<Longrightarrow>
        x * 65536 + y * 256 + z = ((a' * 64 + (a0 * 16 + b')) * 64 + (b0 * 4 + c')) * 64 + c0"
      for a' a0 b' b0 c' c0 x y z :: nat by simp
    then show ?thesis unfolding p_def q_def r_def t_def by (simp only: div_mult_mod_eq)
  qed
  have "unat a mod 4 < 4" "unat b div 16 < 16" "unat b mod 16 < 16" "unat c div 64 < 4" using lt by simp_all
  then have "p < 64" "q < 64" "r < 64" "t < 64" using lt by (simp_all add: p_def q_def r_def t_def)
  moreover have step: "(x * 64 + y) div 64 = x" "(x * 64 + y) mod 64 = y" if "y < 64" for x y :: nat using that by simp_all
  ultimately have "?n mod 64 = t" "?n div 64 mod 64 = r" "?n div 64 div 64 mod 64 = q" "?n div 64 div 64 div 64 mod 64 = p"
    unfolding n by (simp_all only: step mod_less)
  moreover have "?n div 262144 = ?n div 64 div 64 div 64" "?n div 4096 = ?n div 64 div 64"
    unfolding div_mult2_eq [symmetric] by simp_all
  ultimately have "?n div 262144 mod 64 = p" "?n div 4096 mod 64 = q" "?n div 64 mod 64 = r" "?n mod 64 = t" by presburger+
  then show ?thesis by (simp add: b64_digits_def b64_char_def unat_b64_out p_def q_def r_def t_def)
qed
lemma b64_text_codes:
  "b64_text (a # b # c # src) =
     [b64_char (b64_out0 a), b64_char (b64_out1 a b), b64_char (b64_out2 b c), b64_char (b64_out3 c)] @ b64_text src"
  "b64_text [a, b] = [b64_char (b64_out0 a), b64_char (b64_out1 a b), b64_char (b64_out2 b 0), Pad64]"
  "b64_text [a] = [b64_char (b64_out0 a), b64_char (b64_out1 a 0), Pad64, Pad64]"
  "b64_text [] = []"
  using b64_digits_group [of a b c]
  by (simp_all add: b64_digits_group [of a b 0, simplified] b64_digits_group [of a 0 0, simplified])

declare b64_text.simps [simp del] b64_text_codes [simp]

lemma length_b64_text: "length (b64_text src) = 4 * ((length src + 2) div 3)"
proof (induction src rule: b64_text.induct)
  case (1 a b c src)
  have "(length (a # b # c # src) + 2) div 3 = (length src + 2) div 3 + 1" by simp
  with 1 show ?case by simp
qed simp_all

section \<open>Encoding\<close>

lemma put_all_eq:
  "i + length vs \<le> length t \<Longrightarrow> b64_put_all t i vs = Some (take i t @ vs @ drop (i + length vs) t)"
proof (induction vs arbitrary: t i)
  case Nil then show ?case by simp
next
  case (Cons v vs)
  then have "b64_put_all (t[i := v]) (Suc i) vs =
      Some (take (Suc i) (t[i := v]) @ vs @ drop (Suc i + length vs) (t[i := v]))"
    by (intro Cons.IH) simp
  with Cons.prems show ?case by (simp add: b64_put_def take_Suc_conv_app_nth take_update_cancel)
qed

text \<open>
  \<open>b64_done d txt t ts r\<close>: with \<open>d\<close> characters already in the buffer \<open>t\<close>, of which the first \<open>ts\<close> bytes may
  be used, \<open>r\<close> is the right result for the text \<open>txt\<close> that remains to be written: all of it and the null
  character, or -1 if that does not fit, with nothing changed past \<open>ts\<close>.
\<close>

definition b64_done :: "nat \<Rightarrow> byte list \<Rightarrow> byte list \<Rightarrow> nat \<Rightarrow> b64_result \<Rightarrow> bool" where
  "b64_done d txt t ts r \<longleftrightarrow>
     (if d + length txt < ts
      then r = B64_return (sint (of_nat (d + length txt) :: 32 word))
                 (take d t @ txt @ [0] @ drop (d + length txt + 1) t)
      else \<exists>t'. r = B64_return (- 1) t' \<and> length t' = length t \<and> drop ts t' = drop ts t)"

lemma b64_finish_done:
  assumes "unat ts \<le> length t" "unat d \<le> unat ts"
  shows "b64_done (unat d) [] t (unat ts) (b64_finish d t ts)"
proof (cases "unat d < unat ts")
  case True
  moreover have "sint (ucast d :: 32 word) = sint (of_nat (unat d) :: 32 word)" by simp
  moreover have "t[unat d := 0] = take (unat d) t @ 0 # drop (Suc (unat d)) t"
    using True assms by (simp add: upd_conv_take_nth_drop)
  ultimately show ?thesis
    using assms by (auto simp: b64_done_def b64_finish_def b64_put_def word_le_nat_alt)
qed (use assms in \<open>auto simp: b64_done_def b64_finish_def word_le_nat_alt\<close>)

lemma b64_group_done:
  assumes four: "length chars = 4" and ts: "unat ts \<le> length t" "unat d \<le> unat ts" "length t < 2 ^ 63"
    and k: "\<And>t'. length t' = length t \<Longrightarrow> unat d + 4 \<le> unat ts \<Longrightarrow>
              b64_done (unat (d + 4)) txt t' (unat ts) (k (d + 4) t')"
  shows "b64_done (unat d) (chars @ txt) t (unat ts) (b64_group chars d t ts k)"
proof -
  have u: "unat (d + 4) = unat d + 4" using ts by (simp add: unat_word_ariths)
  show ?thesis
  proof (cases "unat d + 4 \<le> unat ts")
    case True
    let ?t = "take (unat d) t @ chars @ drop (unat d + 4) t"
    have "b64_put_all t (unat d) chars = Some ?t" using True four ts put_all_eq [of "unat d" chars t] by simp
    moreover have "\<not> d + 4 > ts" using True u by (simp add: word_less_nat_alt)
    ultimately have g: "b64_group chars d t ts k = k (d + 4) ?t" by (simp add: b64_group_def)
    have len: "length ?t = length t" using True four ts by simp
    have "b64_done (unat d + 4) txt ?t (unat ts) (k (d + 4) ?t)" using k [OF len True] u by simp
    moreover have "drop (unat ts) ?t = drop (unat ts) t" using True four ts by simp
    ultimately show ?thesis
      unfolding g using True four ts len by (simp add: b64_done_def algebra_simps split: if_splits)
  next
    case False
    then have "d + 4 > ts" using u by (simp add: word_less_nat_alt)
    then show ?thesis using False four by (simp add: b64_done_def b64_group_def)
  qed
qed

lemma b64_last_group_done:
  assumes "length chars = 4" "unat ts \<le> length t" "unat d \<le> unat ts" "length t < 2 ^ 63"
  shows "b64_done (unat d) chars t (unat ts) (b64_group chars d t ts (\<lambda>d t. b64_finish d t ts))"
proof -
  have "unat (d + 4) = unat d + 4" using assms by (simp add: unat_word_ariths)
  then have "b64_done (unat (d + 4)) [] t' (unat ts) (b64_finish (d + 4) t' ts)"
    if "length t' = length t" "unat d + 4 \<le> unat ts" for t'
    using that assms by (intro b64_finish_done) auto
  then have "b64_done (unat d) (chars @ []) t (unat ts) (b64_group chars d t ts (\<lambda>d t. b64_finish d t ts))"
    using assms by (intro b64_group_done) auto
  then show ?thesis by simp
qed

lemma b64_ntop_done:
  "unat ts \<le> length t \<Longrightarrow> unat d \<le> unat ts \<Longrightarrow> length t < 2 ^ 63 \<Longrightarrow>
   b64_done (unat d) (b64_text src) t (unat ts) (b64_ntop_loop src d t ts)"
proof (induction src d t ts rule: b64_ntop_loop.induct)
  case (1 a b c src d t ts)
  have u: "unat (d + 4) = unat d + 4" using 1(2-) by (simp add: unat_word_ariths)
  have "b64_done (unat (d + 4)) (b64_text src) t' (unat ts) (b64_ntop_loop src (d + 4) t' ts)"
    if "length t' = length t" "unat d + 4 \<le> unat ts" for t'
    using that u 1(2-) by (intro 1(1)) auto
  then show ?case
    unfolding b64_text_codes b64_ntop_loop.simps
    using 1(2-) by (intro b64_group_done) auto
next
  case (2 a b d t ts) then show ?case by (simp add: b64_last_group_done)
next
  case (3 a d t ts) then show ?case by (simp add: b64_last_group_done)
next
  case (4 d t ts)
  then show ?case using b64_finish_done by simp
qed

lemma b64_ntop_cases:
  assumes "unat ts \<le> length t" "length t < 2 ^ 63"
  shows "if length (b64_text src) < unat ts
     then f_b64_ntop src t ts =
       B64_return (sint (of_nat (length (b64_text src)) :: 32 word)) (b64_text src @ 0 # drop (length (b64_text src) + 1) t)
     else \<exists>t'. f_b64_ntop src t ts = B64_return (- 1) t' \<and> length t' = length t \<and> drop (unat ts) t' = drop (unat ts) t"
  using b64_ntop_done [of ts t 0 src] assms by (auto simp: b64_done_def f_b64_ntop_def)

section \<open>Decoding\<close>

lemma byte_masks: "(0x03 :: byte) = mask 2" "(0x0F :: byte) = mask 4" "(0x3F :: byte) = mask 6"
  by (simp_all add: mask_eq_exp_minus_1)

lemma b64_out1_or: "b64_out1 a b = push_bit 4 (a AND mask 2) OR drop_bit 4 b"
proof -
  have "push_bit 4 (a AND mask 2) AND drop_bit 4 b = (0 :: byte)"
    by (rule bit_word_eqI) (auto simp: bit_simps dest: bit_imp_le_length)
  then show ?thesis
    unfolding b64_out1_def byte_masks by (rule disjunctive_add_eq_or)
qed

lemma b64_out2_or: "b64_out2 b c = push_bit 2 (b AND mask 4) OR drop_bit 6 c"
proof -
  have "push_bit 2 (b AND mask 4) AND drop_bit 6 c = (0 :: byte)"
    by (rule bit_word_eqI) (auto simp: bit_simps dest: bit_imp_le_length)
  then show ?thesis
    unfolding b64_out2_def byte_masks by (rule disjunctive_add_eq_or)
qed

lemma byte_eqI: "(\<And>i. i \<in> {0, 1, 2, 3, 4, 5, 6, 7} \<Longrightarrow> bit v i = bit w i) \<Longrightarrow> v = w" for v w :: byte
proof (rule bit_word_eqI)
  fix n assume b: "\<And>i. i \<in> {0, 1, 2, 3, 4, 5, 6, 7} \<Longrightarrow> bit v i = bit w i" and "n < LENGTH(8)"
  then have "n < 8" by simp
  then have "n \<in> {0, 1, 2, 3, 4, 5, 6, 7}" by auto
  then show "bit v n = bit w n" by (rule b)
qed

text \<open>The six-bit values of a group put together again.\<close>

lemma b64_regroup:
  shows b64_regroup0: "push_bit 2 (b64_out0 a) OR drop_bit 4 (b64_out1 a b) = a"
    and b64_regroup1: "b64_low4 (b64_out1 a b) OR drop_bit 2 (b64_out2 b c) = b"
    and b64_regroup2: "b64_low2 (b64_out2 b c) OR b64_out3 c = c"
proof -
  show "push_bit 2 (b64_out0 a) OR drop_bit 4 (b64_out1 a b) = a"
    unfolding b64_out1_or b64_out0_def byte_masks
    by (rule byte_eqI) (auto simp: bit_simps, simp_all add: eval_nat_numeral)
  show "b64_low4 (b64_out1 a b) OR drop_bit 2 (b64_out2 b c) = b"
    unfolding b64_out1_or b64_out2_or b64_low4_def b64_low2_def byte_masks
    by (rule byte_eqI) (auto simp: bit_simps)
  show "b64_low2 (b64_out2 b c) OR b64_out3 c = c"
    unfolding b64_out2_or b64_out3_def b64_low2_def byte_masks
    by (rule byte_eqI) (auto simp: bit_simps)
qed

lemma b64_no_slop: "b64_low4 (b64_out1 a 0) = 0" "b64_low2 (b64_out2 b 0) = 0"
  unfolding b64_out1_or b64_out2_or b64_low4_def b64_low2_def byte_masks
  by (rule bit_word_eqI; auto simp: bit_simps)+

lemma byte_below_64: "(\<And>i. 6 \<le> i \<Longrightarrow> \<not> bit v i) \<Longrightarrow> unat v < 64" for v :: byte
proof -
  assume high: "\<And>i. 6 \<le> i \<Longrightarrow> \<not> bit v i"
  have "take_bit 6 v = v"
    by (rule bit_word_eqI) (use high in \<open>auto simp: bit_simps not_less [symmetric]\<close>)
  then have "take_bit 6 (unat v) = unat v" by (metis unsigned_take_bit_eq)
  moreover have "take_bit 6 (unat v) < 2 ^ 6" by (rule take_bit_nat_less_exp)
  ultimately show ?thesis by simp
qed

lemma b64_out_below:
  "unat (b64_out0 a) < 64" "unat (b64_out1 a b) < 64" "unat (b64_out2 b c) < 64" "unat (b64_out3 c) < 64"
  unfolding b64_out1_or b64_out2_or b64_out0_def b64_out3_def byte_masks
  by (rule byte_below_64; auto simp: bit_simps dest: bit_imp_le_length)+

lemma Base64_codes:
  "Base64 =
     [65, 66, 67, 68, 69, 70, 71, 72, 73, 74, 75, 76, 77, 78, 79, 80,
      81, 82, 83, 84, 85, 86, 87, 88, 89, 90, 97, 98, 99, 100, 101, 102,
      103, 104, 105, 106, 107, 108, 109, 110, 111, 112, 113, 114, 115, 116, 117, 118,
      119, 120, 121, 122, 48, 49, 50, 51, 52, 53, 54, 55, 56, 57, 43, 47]"
  unfolding Base64_def by simp

lemma b64_alphabet: "distinct Base64" "length Base64 = 64" "list_all (\<lambda>c. \<not> isspace c \<and> c \<noteq> Pad64) Base64"
  unfolding Base64_codes isspace_def Pad64_def by simp_all

lemma b64_pos_char:
  assumes "i < 64"
  shows "b64_pos (Base64 ! i) = Some i"
proof -
  have "List.find (\<lambda>j. Base64 ! j = Base64 ! i) [0..<64] = Some i"
    unfolding find_Some_iff using assms b64_alphabet(1,2)
    by (intro exI [of _ i]) (auto simp: nth_eq_iff_index_eq)
  then show ?thesis by (simp add: b64_pos_def)
qed

declare b64_pton_loop.simps(2) [simp del]

lemma b64_pton_known:
  assumes "unat v < 64"
  shows "b64_pton_loop (b64_char v # src) st ti tg ts =
     (case b64_pton_char st (unat v) ti tg ts of Stop r \<Rightarrow> r | Go s' i' t' \<Rightarrow> b64_pton_loop src s' i' t' ts)"
proof -
  have "b64_pos (b64_char v) = Some (unat v) \<and> \<not> isspace (b64_char v) \<and> b64_char v \<noteq> Pad64"
    using b64_alphabet(2,3) assms b64_pos_char unfolding list_all_length b64_char_def by simp
  then show ?thesis by (simp add: b64_pton_loop.simps(2))
qed

text \<open>
  The invariant of the decoder: the target has at least \<open>ts\<close> bytes, and in the middle of a group the
  byte being filled is one of them.
\<close>

definition pton_inv :: "nat \<Rightarrow> nat \<Rightarrow> 32 word \<Rightarrow> byte list \<Rightarrow> bool" where
  "pton_inv ts st ti t \<longleftrightarrow> ts \<le> length t \<and> ts < 2 ^ 31 \<and> (if st = 0 then unat ti \<le> ts else unat ti < ts)"

definition pton_good :: "nat \<Rightarrow> byte list \<Rightarrow> b64_result \<Rightarrow> bool" where
  "pton_good ts t r \<longleftrightarrow>
     (\<exists>n t'. r = B64_return n t' \<and> - 1 \<le> n \<and> n \<le> int ts \<and> length t' = length t \<and> drop ts t' = drop ts t)"

lemma sint_small: "unat ti < 2 ^ 31 \<Longrightarrow> sint ti = int (unat ti)" for ti :: "32 word"
proof -
  assume "unat ti < 2 ^ 31"
  then have lt: "int (unat ti) < 2 ^ 31" by (metis of_nat_less_iff of_nat_numeral of_nat_power)
  have "signed_take_bit 31 (int (unat ti)) = int (unat ti)"
    using lt by (intro signed_take_bit_int_eq_self) linarith+
  then show ?thesis by (simp add: sint_uint)
qed

lemma pton_good_error [simp]: "pton_good ts t (b64_return (- 1) (Some t))" "pton_good ts t (B64_return (- 1) t)"
  by (simp_all add: pton_good_def b64_return_def)

lemma pton_good_count: "unat ti \<le> ts \<Longrightarrow> ts < 2 ^ 31 \<Longrightarrow> pton_good ts t (b64_return (sint ti) (Some t))"
  for ti :: "32 word"
proof -
  assume le: "unat ti \<le> ts" and "ts < 2 ^ 31"
  then have "sint ti = int (unat ti)" by (intro sint_small) simp
  then show ?thesis using le by (auto simp: pton_good_def b64_return_def simp del: of_nat_unat)
qed

lemma pton_tail_good: "pton_inv ts st ti t \<Longrightarrow> st \<noteq> 0 \<Longrightarrow> pton_good ts t (b64_tail src ti (Some t))"
  by (auto simp: b64_tail_def pton_inv_def intro!: pton_good_count)

lemma pton_padding_good: "pton_inv ts st ti t \<Longrightarrow> pton_good ts t (b64_padding src st ti (Some t))"
  by (auto simp: b64_padding_def intro!: pton_tail_good split: list.splits)

lemma unat_Suc_index:
  fixes ti :: "32 word"
  assumes "unat ti < 2 ^ 31"
  shows "unat (ti + 1) = unat ti + 1" "unat (ucast (ti + 1) :: size_t) = unat ti + 1" "unat (ucast ti :: size_t) = unat ti"
  using assms by (simp_all add: unat_word_ariths unsigned_ucast_eq take_bit_eq_mod)

definition pton_step_good :: "nat \<Rightarrow> byte list \<Rightarrow> b64_step \<Rightarrow> bool" where
  "pton_step_good ts t step \<longleftrightarrow>
     (case step of
        Stop r \<Rightarrow> pton_good ts t r
      | Go st' ti' tg' \<Rightarrow> (\<exists>t'. tg' = Some t' \<and> pton_inv ts st' ti' t' \<and> length t' = length t \<and> drop ts t' = drop ts t))"

lemma store2_good:
  assumes "pton_inv (unat ts) st ti t" "st' \<noteq> 0"
  shows "pton_step_good (unat ts) t (b64_store2 (Some t) ti ts hi lo st')"
proof (cases "unat ti + 1 < unat ts")
  case True
  have ti: "unat ti < 2 ^ 31" using assms by (auto simp: pton_inv_def split: if_splits)
  have "\<not> ucast (ti + 1) \<ge> ts" using True unat_Suc_index [OF ti] by (simp add: word_le_nat_alt)
  then show ?thesis
    using True assms unat_Suc_index [OF ti]
    by (simp add: b64_store2_def b64_put_def pton_inv_def pton_step_good_def)
next
  case False
  have ti: "unat ti < 2 ^ 31" using assms by (auto simp: pton_inv_def split: if_splits)
  have "ucast (ti + 1) \<ge> ts" using False unat_Suc_index [OF ti] by (simp add: word_le_nat_alt)
  then show ?thesis by (simp add: b64_store2_def pton_step_good_def)
qed

lemma pton_char_good:
  assumes "pton_inv (unat ts) st ti t"
  shows "pton_step_good (unat ts) t (b64_pton_char st pos ti (Some t) ts)"
proof -
  have ti: "unat ti < 2 ^ 31" using assms by (auto simp: pton_inv_def split: if_splits)
  note ix = unat_Suc_index [OF ti]
  have lt: "ucast ti \<ge> ts \<longleftrightarrow> \<not> unat ti < unat ts" using ix by (simp add: word_le_nat_alt not_less)
  show ?thesis
    using assms ix lt store2_good [OF assms, of 2] store2_good [OF assms, of 3]
    by (auto simp: b64_pton_char_def Let_def b64_put_def pton_step_good_def pton_inv_def split: if_splits)
qed

lemma pton_loop_good: "pton_inv (unat ts) st ti t \<Longrightarrow> pton_good (unat ts) t (b64_pton_loop src st ti (Some t) ts)"
proof (induction src arbitrary: st ti t)
  case Nil
  then show ?case by (auto simp: pton_inv_def intro!: pton_good_count split: if_splits)
next
  case (Cons ch src)
  have rest: "pton_good (unat ts) t (case b64_pton_char st pos ti (Some t) ts of
      Stop r \<Rightarrow> r | Go st' ti' t' \<Rightarrow> b64_pton_loop src st' ti' t' ts)" for pos
    using pton_char_good [OF Cons.prems, of pos] Cons.IH
    by (fastforce simp: pton_step_good_def pton_good_def split: b64_step.splits)
  have "pton_good (unat ts) t (b64_padding src st ti (Some t))" by (rule pton_padding_good [OF Cons.prems])
  then show ?case
    using Cons rest by (simp add: b64_pton_loop.simps(2) split: option.splits)
qed

section \<open>Round trip\<close>

text \<open>
  Decoding the four characters of a full group stores its three bytes and goes on in state 0; the
  characters before the padding of the last group store its bytes and leave a zero byte behind them.
\<close>

lemma pton_char_state0:
  assumes "unat ti < unat ts" "unat ts \<le> length t" "unat ts < 2 ^ 31"
  shows "b64_pton_char 0 (unat v) ti (Some t) ts = Go 1 ti (Some (t[unat ti := push_bit 2 v]))"
proof -
  have "\<not> ucast ti \<ge> ts" using assms unat_Suc_index(3) [of ti] by (simp add: word_le_nat_alt)
  then show ?thesis using assms by (simp add: b64_pton_char_def b64_put_def Let_def)
qed

lemma b64_store2_eq:
  assumes "unat ti + 1 < unat ts" "unat ts \<le> length t" "unat ts < 2 ^ 31"
  shows "b64_store2 (Some t) ti ts hi lo st =
     Go st (ti + 1) (Some (t[unat ti := t ! unat ti OR hi, unat ti + 1 := lo]))"
proof -
  have ti: "unat ti < 2 ^ 31" using assms by simp
  have "\<not> ucast (ti + 1) \<ge> ts" using assms unat_Suc_index(2) [OF ti] by (simp add: word_le_nat_alt)
  then show ?thesis
    using assms unat_Suc_index(1) [OF ti] by (simp add: b64_store2_def b64_put_def b64_get_def)
qed

lemma pton_char_state12:
  assumes "unat ti + 1 < unat ts" "unat ts \<le> length t" "unat ts < 2 ^ 31"
  shows "b64_pton_char 1 (unat v) ti (Some t) ts =
      Go 2 (ti + 1) (Some (t[unat ti := t ! unat ti OR drop_bit 4 v, unat ti + 1 := b64_low4 v]))"
    and "b64_pton_char 2 (unat v) ti (Some t) ts =
      Go 3 (ti + 1) (Some (t[unat ti := t ! unat ti OR drop_bit 2 v, unat ti + 1 := b64_low2 v]))"
  using b64_store2_eq [OF assms] by (simp_all add: b64_pton_char_def Let_def)

lemma pton_char_state3:
  assumes "unat ti < unat ts" "unat ts \<le> length t" "unat ts < 2 ^ 31"
  shows "b64_pton_char 3 (unat v) ti (Some t) ts = Go 0 (ti + 1) (Some (t[unat ti := t ! unat ti OR v]))"
proof -
  have "\<not> ucast ti \<ge> ts" using assms unat_Suc_index(3) [of ti] by (simp add: word_le_nat_alt)
  then show ?thesis using assms by (simp add: b64_pton_char_def b64_put_def b64_get_def Let_def)
qed

lemma pton_two_chars:
  assumes "unat ti + 1 < unat ts" "unat ts \<le> length t" "unat ts < 2 ^ 31"
  shows "b64_pton_loop (b64_char (b64_out0 a) # b64_char (b64_out1 a b) # src) 0 ti (Some t) ts =
     b64_pton_loop src 2 (ti + 1) (Some (t[unat ti := a, unat ti + 1 := b64_low4 (b64_out1 a b)])) ts"
  using assms pton_char_state0 [of ti ts t "b64_out0 a"]
    pton_char_state12(1) [of ti ts "t[unat ti := push_bit 2 (b64_out0 a)]" "b64_out1 a b"]
  by (simp add: b64_pton_known b64_out_below b64_regroup0)

lemma pton_third_char:
  assumes "unat ti + 1 < unat ts" "unat ts \<le> length t" "unat ts < 2 ^ 31"
    and "t ! unat ti = b64_low4 (b64_out1 a b)"
  shows "b64_pton_loop (b64_char (b64_out2 b c) # src) 2 ti (Some t) ts =
     b64_pton_loop src 3 (ti + 1) (Some (t[unat ti := b, unat ti + 1 := b64_low2 (b64_out2 b c)])) ts"
  using assms(4) pton_char_state12(2) [OF assms(1-3), of "b64_out2 b c"]
  by (simp add: b64_pton_known b64_out_below b64_regroup1)

lemma pton_group:
  assumes "unat ti + 2 < unat ts" "unat ts \<le> length t" "unat ts < 2 ^ 31"
  shows "b64_pton_loop ([b64_char (b64_out0 a), b64_char (b64_out1 a b), b64_char (b64_out2 b c),
        b64_char (b64_out3 c)] @ src) 0 ti (Some t) ts =
     b64_pton_loop src 0 (ti + 3) (Some (t[unat ti := a, unat ti + 1 := b, unat ti + 2 := c])) ts"
proof -
  let ?t1 = "t[unat ti := a, unat ti + 1 := b64_low4 (b64_out1 a b)]"
  let ?t2 = "?t1[unat ti + 1 := b, unat ti + 2 := b64_low2 (b64_out2 b c)]"
  have ti: "unat ti < 2 ^ 31" "unat (ti + 1) < 2 ^ 31" "unat (ti + 1) = unat ti + 1"
    using assms unat_Suc_index(1) [of ti] by simp_all
  have ti2: "unat (ti + 2) = unat ti + 2"
    using unat_Suc_index(1) [OF ti(2)] ti(3) by (simp add: add.assoc)
  have "b64_pton_loop (b64_char (b64_out2 b c) # b64_char (b64_out3 c) # src) 2 (ti + 1) (Some ?t1) ts =
      b64_pton_loop (b64_char (b64_out3 c) # src) 3 (ti + 2) (Some ?t2) ts"
    using pton_third_char [of "ti + 1" ts ?t1 a b c] assms ti by (simp add: add.assoc)
  also have "\<dots> = b64_pton_loop src 0 (ti + 3) (Some (?t2[unat ti + 2 := c])) ts"
    using pton_char_state3 [of "ti + 2" ts ?t2 "b64_out3 c"] assms ti2
    by (simp add: b64_pton_known b64_out_below b64_regroup2 add.assoc)
  also have "?t2[unat ti + 2 := c] = t[unat ti := a, unat ti + 1 := b, unat ti + 2 := c]" by simp
  finally show ?thesis using pton_two_chars [of ti ts t] assms by simp
qed

lemma Pad64_not_space: "\<not> isspace Pad64"
  by (simp add: isspace_def Pad64_def)

lemma pton_padding_ok:
  assumes "unat ti < length t" "t ! unat ti = 0" "unat ti < 2 ^ 31"
  shows "b64_pton_loop [Pad64, Pad64] 2 ti (Some t) ts = B64_return (int (unat ti)) t"
    and "b64_pton_loop [Pad64] 3 ti (Some t) ts = B64_return (int (unat ti)) t"
  using assms sint_small [OF assms(3)]
  by (simp_all add: b64_pton_loop.simps(2) Pad64_not_space b64_padding_def b64_tail_def b64_return_def)

lemma take_three_updates:
  "n + 2 < length t \<Longrightarrow> take (n + 3) (t[n := a, n + 1 := b, n + 2 := c]) = take n t @ [a, b, c]"
  by (simp add: take_Suc_conv_app_nth numeral_eq_Suc)

lemma take_two_updates:
  "n + 2 < length t \<Longrightarrow> take (n + 2) (t[n := a, n + 1 := b, n + 2 := x]) = take n t @ [a, b]"
  "n + 1 < length t \<Longrightarrow> take (n + 1) (t[n := a, n + 1 := x]) = take n t @ [a]"
  by (simp_all add: take_Suc_conv_app_nth numeral_eq_Suc)

lemma pton_text:
  "unat ti + length src < unat ts \<Longrightarrow> unat ts \<le> length t \<Longrightarrow> unat ts < 2 ^ 31 \<Longrightarrow>
   \<exists>t'. b64_pton_loop (b64_text src) 0 ti (Some t) ts = B64_return (int (unat ti + length src)) t' \<and>
        length t' = length t \<and> take (unat ti + length src) t' = take (unat ti) t @ src"
proof (induction src arbitrary: ti t rule: b64_text.induct)
  case (1 a b c src)
  let ?t = "t[unat ti := a, unat ti + 1 := b, unat ti + 2 := c]"
  have "unat ti < 2 ^ 32" using unsigned_less [of ti] by simp
  then have ti: "unat (ti + 3) = unat ti + 3" using "1.prems" by (simp add: unat_word_ariths)
  obtain t' where t': "b64_pton_loop (b64_text src) 0 (ti + 3) (Some ?t) ts =
      B64_return (int (unat (ti + 3) + length src)) t'" "length t' = length ?t"
      "take (unat (ti + 3) + length src) t' = take (unat (ti + 3)) ?t @ src"
    using "1.IH" [of "ti + 3" ?t] "1.prems" ti by auto
  have "unat ti + 2 < length t" using "1.prems" by simp
  then have "take (unat ti + 3) ?t = take (unat ti) t @ [a, b, c]" by (rule take_three_updates)
  moreover have "b64_pton_loop (b64_text (a # b # c # src)) 0 ti (Some t) ts =
      b64_pton_loop (b64_text src) 0 (ti + 3) (Some ?t) ts"
    using "1.prems" pton_group [of ti ts t a b c "b64_text src"] by simp
  moreover have n: "unat ti + length (a # b # c # src) = unat (ti + 3) + length src" using ti by simp
  ultimately show ?case unfolding n using t' by (intro exI [of _ t']) (simp add: ti)
next
  case (2 a b)
  let ?t = "t[unat ti := a, unat ti + 1 := b, unat ti + 2 := 0]"
  have ti: "unat (ti + 1) = unat ti + 1" "unat (ti + 2) = unat ti + 2"
    using "2.prems" by (simp_all add: unat_word_ariths)
  have "b64_pton_loop (b64_text [a, b]) 0 ti (Some t) ts = b64_pton_loop [Pad64] 3 (ti + 2) (Some ?t) ts"
    using "2.prems" pton_two_chars [of ti ts t a b] ti
      pton_third_char [of "ti + 1" ts "t[unat ti := a, unat ti + 1 := b64_low4 (b64_out1 a b)]" a b 0]
    by (simp add: b64_no_slop add.assoc)
  also have "\<dots> = B64_return (int (unat ti + 2)) ?t"
    using pton_padding_ok(2) [of "ti + 2" ?t ts] "2.prems" ti by simp
  finally have "b64_pton_loop (b64_text [a, b]) 0 ti (Some t) ts = B64_return (int (unat ti + 2)) ?t" .
  moreover have "take (unat ti + 2) ?t = take (unat ti) t @ [a, b]"
    using "2.prems" by (intro take_two_updates) simp
  ultimately show ?case by (intro exI [of _ ?t]) simp
next
  case (3 a)
  let ?t = "t[unat ti := a, unat ti + 1 := 0]"
  have ti: "unat (ti + 1) = unat ti + 1" using "3.prems" by (simp add: unat_word_ariths)
  have "b64_pton_loop (b64_text [a]) 0 ti (Some t) ts = b64_pton_loop [Pad64, Pad64] 2 (ti + 1) (Some ?t) ts"
    using "3.prems" pton_two_chars [of ti ts t a 0] by (simp add: b64_no_slop)
  also have "\<dots> = B64_return (int (unat ti + 1)) ?t"
    using pton_padding_ok(1) [of "ti + 1" ?t ts] "3.prems" ti by simp
  finally have "b64_pton_loop (b64_text [a]) 0 ti (Some t) ts = B64_return (int (unat ti + 1)) ?t" .
  moreover have "take (unat ti + 1) ?t = take (unat ti) t @ [a]"
    using "3.prems" by (intro take_two_updates) simp
  ultimately show ?case by (intro exI [of _ ?t]) simp
next
  case 4
  then show ?case by (auto simp: b64_return_def sint_small)
qed

end
