(* ===== verification/Ldb_Coding.thy ===== *)
theory Ldb_Coding
  imports Pb_Wire "HOL-Library.Sublist"
begin

text \<open>
  The encodings of the key-value store (\<^verbatim>\<open>leveldb-library/util/coding.cc\<close> and \<^verbatim>\<open>coding.h\<close>): fixed width and base-128
  integers and length prefixed strings, appended to a string and parsed from the front of one.

  A \<^verbatim>\<open>std::string\<close> and a \<^verbatim>\<open>Slice\<close> are lists of bytes. A pair of pointers \<open>p\<close> and \<open>limit\<close> is the list of the bytes between
  them, so the parsers that return a pointer return the bytes behind it, and \<open>None\<close> for a null pointer; a
  parser that advances its \<^verbatim>\<open>Slice\<close> argument returns the value it found, if any, and the slice. \<^verbatim>\<open>size_t\<close> values given to a
  32-bit parameter are cut to 32 bits, as the conversion in the code does.

  The locale \<open>codec\<close> is the contract between a writer and a parser that all the formats built on this file rely on: the
  parser returns what was written, followed by the rest of the input, and always consumes something. The encodings here are
  interpretations of it.
\<close>

section \<open>Model\<close>

type_synonym slice = "byte list"

definition EncodeFixed32 :: "32 word \<Rightarrow> byte list" where
  "EncodeFixed32 value = le_of_word 4 value"

definition EncodeFixed64 :: "64 word \<Rightarrow> byte list" where
  "EncodeFixed64 value = le_of_word 8 value"

definition DecodeFixed32 :: "byte list \<Rightarrow> 32 word" where
  "DecodeFixed32 p = word_of_le (take 4 p)"

definition DecodeFixed64 :: "byte list \<Rightarrow> 64 word" where
  "DecodeFixed64 p = word_of_le (take 8 p)"

definition PutFixed32 :: "byte list \<Rightarrow> 32 word \<Rightarrow> byte list" where
  "PutFixed32 dst value = dst @ EncodeFixed32 value"

definition PutFixed64 :: "byte list \<Rightarrow> 64 word \<Rightarrow> byte list" where
  "PutFixed64 dst value = dst @ EncodeFixed64 value"

text \<open>The unrolled encoder: one branch for each length.\<close>

definition EncodeVarint32 :: "32 word \<Rightarrow> byte list" where
  "EncodeVarint32 v =
     (if v < push_bit 7 1 then [ucast v]
      else if v < push_bit 14 1 then [ucast (v OR 128), ucast (drop_bit 7 v)]
      else if v < push_bit 21 1 then [ucast (v OR 128), ucast (drop_bit 7 v OR 128), ucast (drop_bit 14 v)]
      else if v < push_bit 28 1
      then [ucast (v OR 128), ucast (drop_bit 7 v OR 128), ucast (drop_bit 14 v OR 128), ucast (drop_bit 21 v)]
      else [ucast (v OR 128), ucast (drop_bit 7 v OR 128), ucast (drop_bit 14 v OR 128),
            ucast (drop_bit 21 v OR 128), ucast (drop_bit 28 v)])"

definition PutVarint32 :: "byte list \<Rightarrow> 32 word \<Rightarrow> byte list" where
  "PutVarint32 dst v = dst @ EncodeVarint32 v"

lemma drop7_less: "\<not> v < 128 \<Longrightarrow> unat (drop_bit 7 v) < unat v" for v :: "64 word"
  by (simp add: unat_drop7 word_less_nat_alt)

function EncodeVarint64 :: "64 word \<Rightarrow> byte list" where
  "EncodeVarint64 v = (if v \<ge> 128 then ucast (v OR 128) # EncodeVarint64 (drop_bit 7 v) else [ucast v])"
  by pat_completeness auto

termination EncodeVarint64
  by (relation "measure unat") (simp_all add: drop7_less not_less)

declare EncodeVarint64.simps [simp del]

definition PutVarint64 :: "byte list \<Rightarrow> 64 word \<Rightarrow> byte list" where
  "PutVarint64 dst v = dst @ EncodeVarint64 v"

definition PutLengthPrefixedSlice :: "byte list \<Rightarrow> slice \<Rightarrow> byte list" where
  "PutLengthPrefixedSlice dst value = PutVarint32 dst (of_nat (length value)) @ value"

function VarintLength_loop :: "64 word \<Rightarrow> nat \<Rightarrow> nat" where
  "VarintLength_loop v len = (if v \<ge> 128 then VarintLength_loop (drop_bit 7 v) (len + 1) else len)"
  by pat_completeness auto

termination VarintLength_loop
  by (relation "measure (\<lambda>(v, _). unat v)") (simp_all add: drop7_less not_less)

declare VarintLength_loop.simps [simp del]

definition VarintLength :: "64 word \<Rightarrow> nat" where
  "VarintLength v = VarintLength_loop v 1"

fun GetVarint32_loop :: "nat \<Rightarrow> 32 word \<Rightarrow> byte list \<Rightarrow> (32 word \<times> byte list) option" where
  "GetVarint32_loop shift result [] = None"
| "GetVarint32_loop shift result (b # p) =
     (if shift \<le> 28 then
        if b AND 128 \<noteq> 0 then GetVarint32_loop (shift + 7) (result OR push_bit shift (ucast (b AND 127))) p
        else Some (result OR push_bit shift (ucast b), p)
      else None)"

definition GetVarint32PtrFallback :: "byte list \<Rightarrow> (32 word \<times> byte list) option" where
  "GetVarint32PtrFallback p = GetVarint32_loop 0 0 p"

definition GetVarint32Ptr :: "byte list \<Rightarrow> (32 word \<times> byte list) option" where
  "GetVarint32Ptr p =
     (case p of
        [] \<Rightarrow> GetVarint32PtrFallback p
      | b # q \<Rightarrow> if b AND 128 = 0 then Some (ucast b, q) else GetVarint32PtrFallback p)"

definition GetVarint32 :: "slice \<Rightarrow> 32 word option \<times> slice" where
  "GetVarint32 input =
     (case GetVarint32Ptr input of None \<Rightarrow> (None, input) | Some (value, q) \<Rightarrow> (Some value, q))"

fun GetVarint64_loop :: "nat \<Rightarrow> 64 word \<Rightarrow> byte list \<Rightarrow> (64 word \<times> byte list) option" where
  "GetVarint64_loop shift result [] = None"
| "GetVarint64_loop shift result (b # p) =
     (if shift \<le> 63 then
        if b AND 128 \<noteq> 0 then GetVarint64_loop (shift + 7) (result OR push_bit shift (ucast (b AND 127))) p
        else Some (result OR push_bit shift (ucast b), p)
      else None)"

definition GetVarint64Ptr :: "byte list \<Rightarrow> (64 word \<times> byte list) option" where
  "GetVarint64Ptr p = GetVarint64_loop 0 0 p"

definition GetVarint64 :: "slice \<Rightarrow> 64 word option \<times> slice" where
  "GetVarint64 input =
     (case GetVarint64Ptr input of None \<Rightarrow> (None, input) | Some (value, q) \<Rightarrow> (Some value, q))"

text \<open>The two functions of the name \<^verbatim>\<open>GetLengthPrefixedSlice\<close>: between two pointers, and from a slice.\<close>

definition GetLengthPrefixedSlicePtr :: "byte list \<Rightarrow> (slice \<times> byte list) option" where
  "GetLengthPrefixedSlicePtr p =
     (case GetVarint32Ptr p of
        None \<Rightarrow> None
      | Some (len, q) \<Rightarrow> if unat len > length q then None else Some (take (unat len) q, drop (unat len) q))"

definition GetLengthPrefixedSlice :: "slice \<Rightarrow> slice option \<times> slice" where
  "GetLengthPrefixedSlice input =
     (case GetVarint32 input of
        (None, input1) \<Rightarrow> (None, input1)
      | (Some len, input1) \<Rightarrow>
          if length input1 \<ge> unat len then (Some (take (unat len) input1), drop (unat len) input1)
          else (None, input1))"

section \<open>The contract of a writer and its parser\<close>

locale codec =
  fixes put :: "'a \<Rightarrow> byte list"
    and get :: "byte list \<Rightarrow> ('a \<times> byte list) option"
    and valid :: "'a \<Rightarrow> bool"
  assumes get_put: "valid v \<Longrightarrow> get (put v @ rest) = Some (v, rest)"
    and get_consumes: "get xs = Some (v, ys) \<Longrightarrow> suffix ys xs \<and> length ys < length xs"
begin

lemma put_nonempty: "valid v \<Longrightarrow> put v \<noteq> []"
  using get_put [of v "[]"] get_consumes [of "put v" v "[]"] by auto

lemma put_unique:
  assumes "valid v" "valid w" "put v @ xs = put w @ ys"
  shows "v = w" "xs = ys"
proof -
  have "Some (v, xs) = Some (w, ys)"
    using get_put [OF assms(1), of xs] get_put [OF assms(2), of ys] unfolding assms(3) by (rule trans [OF sym])
  then show "v = w" "xs = ys" by simp_all
qed

text \<open>The encodings of two lists agree only if the lists do: a sequence of values can be read back without separators.\<close>

lemma put_list_unique:
  assumes "list_all valid vs" "list_all valid ws" "concat (map put vs) = concat (map put ws)"
  shows "vs = ws"
  using assms
proof (induction vs arbitrary: ws)
  case Nil
  then show ?case using put_nonempty by (cases ws) auto
next
  case (Cons v vs)
  then obtain w ws' where ws: "ws = w # ws'" using put_nonempty by (cases ws) auto
  have "put v @ concat (map put vs) = put w @ concat (map put ws')" using Cons.prems ws by simp
  from put_unique [OF _ _ this] Cons.prems ws have "v = w" "concat (map put vs) = concat (map put ws')" by auto
  then show ?case using Cons ws by simp
qed

end

section \<open>Varints\<close>

lemma ucast_or_128: "(ucast (v OR 128) :: byte) = of_nat (unat v mod 128 + 128)"
  if "8 \<le> LENGTH('a)" for v :: "'a::len word"
proof -
  have "(ucast (v OR 128) :: byte) = (ucast v AND 0x7F) OR 0x80"
    using that by (intro bit_word_eqI) (auto simp: bit_simps numeral_eq_Suc less_Suc_eq)
  also have "\<dots> = (ucast v AND 0x7F) + 0x80"
    by (rule disjunctive_add_eq_or [symmetric]) (simp add: and.assoc)
  also have "unat (ucast v AND 0x7F :: byte) = unat v mod 128"
    by (simp add: unat_take_low7 unsigned_ucast_eq take_bit_eq_mod mod_mod_cancel)
  then have "(ucast v AND 0x7F :: byte) = of_nat (unat v mod 128)" by (metis of_nat_unat ucast_id)
  finally show ?thesis by simp
qed

lemma varint_wire_word:
  fixes v :: "'a::len word"
  assumes "8 \<le> LENGTH('a)"
  shows "unat v < 128 \<Longrightarrow> varint_wire (unat v) = [ucast v]"
    "\<not> unat v < 128 \<Longrightarrow> varint_wire (unat v) = ucast (v OR 128) # varint_wire (unat (drop_bit 7 v))"
  by (subst varint_wire.simps, simp add: ucast_or_128 [OF assms] unat_drop7)+

lemma EncodeVarint64_wire: "EncodeVarint64 v = varint_wire (unat v)"
proof (induction v rule: EncodeVarint64.induct)
  case (1 v)
  have "v \<ge> 128 \<longleftrightarrow> \<not> unat v < 128" by (simp add: word_le_nat_alt not_less)
  then show ?case using 1 by (subst EncodeVarint64.simps) (simp add: varint_wire_word)
qed

lemma EncodeVarint32_wire: "EncodeVarint32 v = varint_wire (unat v)"
proof -
  have d: "drop_bit 7 (drop_bit 7 v) = drop_bit 14 v" "drop_bit 7 (drop_bit 14 v) = drop_bit 21 v"
    "drop_bit 7 (drop_bit 21 v) = drop_bit 28 v" by simp_all
  have u: "unat (drop_bit k v) < 128 \<longleftrightarrow> unat v < 128 * 2 ^ k" for k
    unfolding unat_drop_bit_eq by (simp add: drop_bit_eq_div div_less_iff_less_mult)
  have "unat v < 2 ^ 32" using unsigned_less [of v] by simp
  then show ?thesis
    unfolding EncodeVarint32_def
    by (simp add: word_less_nat_alt varint_wire_word d u)
qed

lemma VarintLength_loop_wire: "VarintLength_loop v n + 1 = n + length (varint_wire (unat v))"
proof (induction v n rule: VarintLength_loop.induct)
  case (1 v n)
  have "v \<ge> 128 \<longleftrightarrow> \<not> unat v < 128" by (simp add: word_le_nat_alt not_less)
  then show ?case using 1 by (subst VarintLength_loop.simps) (simp add: varint_wire_word)
qed

lemma VarintLength_exact: "VarintLength v = length (EncodeVarint64 v)"
  using VarintLength_loop_wire [of v 1] by (simp add: VarintLength_def EncodeVarint64_wire)

text \<open>The loop that the two parsers share, at any width.\<close>

fun varint_parse :: "nat \<Rightarrow> nat \<Rightarrow> 'a::len word \<Rightarrow> byte list \<Rightarrow> ('a word \<times> byte list) option" where
  "varint_parse lim shift result [] = None"
| "varint_parse lim shift result (b # p) =
     (if shift \<le> lim then
        if b AND 128 \<noteq> 0 then varint_parse lim (shift + 7) (result OR push_bit shift (ucast (b AND 127))) p
        else Some (result OR push_bit shift (ucast b), p)
      else None)"

lemma GetVarint_loops:
  "GetVarint32_loop shift r32 p = varint_parse 28 shift r32 p"
  "GetVarint64_loop shift r64 p = varint_parse 63 shift r64 p"
  by (induction p arbitrary: shift r32 r64) auto

lemma varint_parse_consumes: "varint_parse lim shift r xs = Some (v, ys) \<Longrightarrow> suffix ys xs \<and> length ys < length xs"
proof (induction xs arbitrary: shift r)
  case Nil then show ?case by simp
next
  case (Cons b xs)
  from Cons.prems show ?case
    by (auto split: if_splits simp: suffix_Cons dest!: Cons.IH)
qed

lemma varint_parse_wire:
  fixes r :: "'a::len word"
  assumes lim: "\<And>j. 7 * j < LENGTH('a) \<Longrightarrow> 7 * j \<le> lim"
  shows "7 * k < LENGTH('a) \<Longrightarrow> unat r < 2 ^ (7 * k) \<Longrightarrow> n < 2 ^ (LENGTH('a) - 7 * k) \<Longrightarrow>
     varint_parse lim (7 * k) r (varint_wire n @ rest) = Some (of_nat (unat r + n * 2 ^ (7 * k)), rest)"
proof (induction n arbitrary: k r rule: varint_wire.induct)
  case (1 n)
  let ?L = "LENGTH('a)"
  have "2 ^ (?L - 7 * k) * 2 ^ (7 * k) = (2 :: nat) ^ ?L"
    using "1.prems"(1) by (simp flip: power_add)
  moreover have "(n + 1) * 2 ^ (7 * k) \<le> 2 ^ (?L - 7 * k) * 2 ^ (7 * k)"
    using "1.prems"(3) by (intro mult_right_mono) auto
  ultimately have fit: "(n + 1) * 2 ^ (7 * k) \<le> 2 ^ ?L" by simp
  have s: "7 * k \<le> lim" using lim "1.prems"(1) by simp
  show ?case
  proof (cases "n < 128")
    case True
    then have w: "varint_wire n = [of_nat n]" by (simp add: varint_wire.simps)
    have "r OR push_bit (7 * k) (of_nat n) = of_nat (unat r + n * 2 ^ (7 * k))"
      using unat_or_push [OF "1.prems"(2) fit] by (metis of_nat_unat ucast_id)
    then show ?thesis using s by (simp add: w final_byte [OF True])
  next
    case False
    have m: "n mod 128 < 128" by simp
    have w: "varint_wire n = of_nat (n mod 128 + 128) # varint_wire (n div 128)"
      using False by (subst varint_wire.simps) simp
    have "(n mod 128 + 1) * 2 ^ (7 * k) \<le> (n + 1) * 2 ^ (7 * k)"
      by (intro mult_right_mono) auto
    then have fit': "(n mod 128 + 1) * 2 ^ (7 * k) \<le> 2 ^ ?L" using fit by linarith
    let ?r = "r OR push_bit (7 * k) (of_nat (n mod 128))"
    have ur: "unat ?r = unat r + n mod 128 * 2 ^ (7 * k)"
      by (rule unat_or_push [OF "1.prems"(2) fit'])
    have "(2 :: nat) ^ 7 < 2 ^ (?L - 7 * k)" using False "1.prems"(3) by simp
    then have k7: "7 < ?L - 7 * k" by (simp only: power_strict_increasing_iff)
    have "unat ?r < 2 ^ (7 * k) + 127 * 2 ^ (7 * k)"
      unfolding ur using "1.prems"(2) by (intro add_less_le_mono mult_right_mono) auto
    then have ur': "unat ?r < 2 ^ (7 * Suc k)" by (simp add: power_add)
    have "?L - 7 * k = (?L - 7 * Suc k) + 7" using k7 by simp
    then have "(2 :: nat) ^ (?L - 7 * k) = 2 ^ (?L - 7 * Suc k) * 2 ^ 7" by (metis power_add)
    then have "n < 2 ^ (?L - 7 * Suc k) * 128" using "1.prems"(3) by simp
    then have nd: "n div 128 < 2 ^ (?L - 7 * Suc k)" by (rule less_mult_imp_div_less)
    have IH: "varint_parse lim (7 * Suc k) ?r (varint_wire (n div 128) @ rest) =
       Some (of_nat (unat ?r + n div 128 * 2 ^ (7 * Suc k)), rest)"
      using k7 by (intro "1.IH" [OF False _ ur' nd]) simp
    have "2 ^ (7 * Suc k) = 128 * (2 :: nat) ^ (7 * k)" by (simp add: power_add)
    then have sum: "unat ?r + n div 128 * 2 ^ (7 * Suc k) = unat r + n * 2 ^ (7 * k)"
      unfolding ur by (simp only: split_base_128)
    have step: "7 * k + 7 = 7 * Suc k" by simp
    show ?thesis
      using IH s unfolding sum
      by (simp only: w append_Cons varint_parse.simps continuation_byte [OF m] step if_True simp_thms)
  qed
qed

lemma GetVarint32Ptr_parse: "GetVarint32Ptr p = varint_parse 28 0 0 p"
  by (cases p) (simp_all add: GetVarint32Ptr_def GetVarint32PtrFallback_def GetVarint_loops)

lemma mult7_limits: "7 * j < 32 \<Longrightarrow> 7 * j \<le> 28" "7 * j < 64 \<Longrightarrow> 7 * j \<le> 63" for j :: nat
  by presburger+

lemma unat_less_2p: "unat (v :: 32 word) < 2 ^ 32" "unat (w :: 64 word) < 2 ^ 64"
  using unsigned_less [of v] unsigned_less [of w] by simp_all

lemma GetVarint32Ptr_wire: "n < 2 ^ 32 \<Longrightarrow> GetVarint32Ptr (varint_wire n @ rest) = Some (of_nat n, rest)"
  using varint_parse_wire [where k = 0 and r = "0 :: 32 word" and lim = 28 and n = n and rest = rest] mult7_limits(1)
  by (simp add: GetVarint32Ptr_parse)

lemma GetVarint64Ptr_wire: "n < 2 ^ 64 \<Longrightarrow> GetVarint64Ptr (varint_wire n @ rest) = Some (of_nat n, rest)"
  using varint_parse_wire [where k = 0 and r = "0 :: 64 word" and lim = 63 and n = n and rest = rest] mult7_limits(2)
  by (simp add: GetVarint64Ptr_def GetVarint_loops)

text \<open>A parser that advances a slice, as one that returns the rest.\<close>

definition from_slice :: "(slice \<Rightarrow> 'a option \<times> slice) \<Rightarrow> slice \<Rightarrow> ('a \<times> slice) option" where
  "from_slice f xs = (case f xs of (None, _) \<Rightarrow> None | (Some v, ys) \<Rightarrow> Some (v, ys))"

lemma from_slice_Some [simp]: "from_slice f xs = Some (v, ys) \<longleftrightarrow> f xs = (Some v, ys)"
  by (auto simp: from_slice_def split: prod.splits option.splits)

lemma GetVarint_slices:
  "GetVarint32 xs = (Some v, ys) \<longleftrightarrow> GetVarint32Ptr xs = Some (v, ys)"
  "GetVarint64 xs = (Some u, ys) \<longleftrightarrow> GetVarint64Ptr xs = Some (u, ys)"
  by (auto simp: GetVarint32_def GetVarint64_def split: option.splits)

lemma GetLengthPrefixed_slice:
  "GetLengthPrefixedSlice xs = (Some s, ys) \<longleftrightarrow> GetLengthPrefixedSlicePtr xs = Some (s, ys)"
  by (auto simp: GetLengthPrefixedSlice_def GetLengthPrefixedSlicePtr_def GetVarint32_def split: option.splits if_splits)

section \<open>The encodings meet the contract\<close>

interpretation v32: codec EncodeVarint32 GetVarint32Ptr "\<lambda>_. True"
proof
  show "GetVarint32Ptr (EncodeVarint32 v @ rest) = Some (v, rest)" for v rest
    using unat_less_2p(1) [of v] by (simp add: EncodeVarint32_wire GetVarint32Ptr_wire)
  show "suffix ys xs \<and> length ys < length xs" if "GetVarint32Ptr xs = Some (v, ys)" for xs v ys
    using that varint_parse_consumes by (simp add: GetVarint32Ptr_parse)
qed

interpretation v64: codec EncodeVarint64 GetVarint64Ptr "\<lambda>_. True"
proof
  show "GetVarint64Ptr (EncodeVarint64 v @ rest) = Some (v, rest)" for v rest
    using unat_less_2p(2) [of v] by (simp add: EncodeVarint64_wire GetVarint64Ptr_wire)
  show "suffix ys xs \<and> length ys < length xs" if "GetVarint64Ptr xs = Some (v, ys)" for xs v ys
    using that varint_parse_consumes by (simp add: GetVarint64Ptr_def GetVarint_loops)
qed

interpretation lps: codec "PutLengthPrefixedSlice []" GetLengthPrefixedSlicePtr "\<lambda>s. length s < 2 ^ 32"
proof
  show "GetLengthPrefixedSlicePtr (PutLengthPrefixedSlice [] s @ rest) = Some (s, rest)" if "length s < 2 ^ 32" for s rest
    using that by (simp add: GetLengthPrefixedSlicePtr_def PutLengthPrefixedSlice_def PutVarint32_def v32.get_put unat_of_nat)
  show "suffix ys xs \<and> length ys < length xs" if "GetLengthPrefixedSlicePtr xs = Some (s, ys)" for xs s ys
  proof -
    from that obtain len q where q: "GetVarint32Ptr xs = Some (len, q)" "ys = drop (unat len) q"
      by (auto simp: GetLengthPrefixedSlicePtr_def split: option.splits if_splits)
    then have "suffix q xs" "length q < length xs" using v32.get_consumes by blast+
    moreover have "suffix ys q" by (simp add: q(2) suffix_drop)
    ultimately show ?thesis using suffix_order.trans suffix_length_le by (metis le_less_trans)
  qed
qed

lemma DecodeFixed_Encode [simp]:
  "DecodeFixed32 (EncodeFixed32 v @ rest) = v" "DecodeFixed32 (EncodeFixed32 v) = v"
  "DecodeFixed64 (EncodeFixed64 u @ rest) = u" "DecodeFixed64 (EncodeFixed64 u) = u"
  by (simp_all add: DecodeFixed32_def EncodeFixed32_def DecodeFixed64_def EncodeFixed64_def word_of_le_of_word)

lemma length_EncodeFixed [simp]: "length (EncodeFixed32 v) = 4" "length (EncodeFixed64 u) = 8"
  by (simp_all add: EncodeFixed32_def EncodeFixed64_def)

lemma length_EncodeVarint32: "1 \<le> length (EncodeVarint32 v)" "length (EncodeVarint32 v) \<le> 5"
  by (simp_all add: EncodeVarint32_def)

lemma length_EncodeVarint64: "1 \<le> length (EncodeVarint64 v)" "length (EncodeVarint64 v) \<le> 10"
  using length_varint_wire_pos [of "unat v"] length_varint_wire_64 [of v] by (simp_all add: EncodeVarint64_wire Suc_leI)

lemma PutLengthPrefixedSlice_append: "PutLengthPrefixedSlice dst value = dst @ PutLengthPrefixedSlice [] value"
  by (simp add: PutLengthPrefixedSlice_def PutVarint32_def)

section \<open>Arrays in strings\<close>

text \<open>A part of a concatenation, by the lengths of the parts before it; an array of fixed width numbers.\<close>

lemma length_concat_take_Suc: "i < length xs \<Longrightarrow> length (concat (take (Suc i) xs)) = length (concat (take i xs)) + length (xs ! i)"
  by (simp add: take_Suc_conv_app_nth)

lemma concat_slice:
  assumes "i < length xs"
  shows "take (length (xs ! i)) (drop (length (concat (take i xs))) (concat xs @ rest)) = xs ! i"
proof -
  have "concat xs = concat (take i xs) @ xs ! i @ concat (drop (Suc i) xs)"
    using assms by (metis concat.simps(2) concat_append id_take_nth_drop)
  then show ?thesis by simp
qed

lemma fixed32_array:
  assumes "i < length ws"
  shows "DecodeFixed32 (drop (i * 4) (concat (map EncodeFixed32 ws) @ rest)) = ws ! i"
  using assms
proof (induction ws arbitrary: i)
  case Nil then show ?case by simp
next
  case (Cons w ws)
  show ?case
  proof (cases i)
    case 0 then show ?thesis by simp
  next
    case (Suc j)
    have "drop (i * 4) (concat (map EncodeFixed32 (w # ws)) @ rest) = drop (j * 4) (concat (map EncodeFixed32 ws) @ rest)"
      by (simp add: Suc)
    then show ?thesis using Cons Suc by simp
  qed
qed

lemma foldl_PutFixed32: "foldl PutFixed32 dst ws = dst @ concat (map EncodeFixed32 ws)"
  by (induction ws arbitrary: dst) (simp_all add: PutFixed32_def)

lemma length_fixed32_array [simp]: "length (concat (map EncodeFixed32 ws)) = 4 * length ws"
  by (induction ws) simp_all

end
