(* ===== verification/Ldb_Env.thy ===== *)
theory Ldb_Env
  imports Ldb_Coding
begin

text \<open>
  What the key-value store's components share besides the encodings: the status an operation returns
  (\<^verbatim>\<open>leveldb/status.h\<close>, \<^verbatim>\<open>util/status.cc\<close>) and the files it works on (\<^verbatim>\<open>leveldb/env.h\<close>).

  A status is success or a code with a message; the constructor joins two messages. The file classes are interfaces of virtual
  functions: a file is a record of functions on a state of any type, a parameter of the code that uses it. \<open>file_appends\<close> and
  \<open>file_reads\<close> say what the documentation of the interface promises of a file that does not fail: data is appended in full,
  and a read returns the next bytes, fewer than asked for only at the end of the file.
\<close>

section \<open>Status\<close>

datatype status =
    OK
  | NotFound string
  | Corruption string
  | NotSupported string
  | InvalidArgument string
  | IOError string

definition is_ok :: "status \<Rightarrow> bool" where
  "is_ok s \<longleftrightarrow> s = OK"

text \<open>The message of the constructor \<^verbatim>\<open>Status(code, msg, msg2)\<close>.\<close>

definition status_message :: "string \<Rightarrow> string \<Rightarrow> string" where
  "status_message msg msg2 = msg @ (if msg2 \<noteq> [] then '': '' @ msg2 else [])"

fun ToString :: "status \<Rightarrow> string" where
  "ToString OK = ''OK''"
| "ToString (NotFound m) = ''NotFound: '' @ m"
| "ToString (Corruption m) = ''Corruption: '' @ m"
| "ToString (NotSupported m) = ''Not implemented: '' @ m"
| "ToString (InvalidArgument m) = ''Invalid argument: '' @ m"
| "ToString (IOError m) = ''IO error: '' @ m"

lemma is_ok_simps [simp]:
  "is_ok OK" "\<not> is_ok (NotFound m)" "\<not> is_ok (Corruption m)" "\<not> is_ok (NotSupported m)" "\<not> is_ok (InvalidArgument m)"
  "\<not> is_ok (IOError m)"
  by (simp_all add: is_ok_def)

section \<open>Decimal numbers\<close>

text \<open>What \<^verbatim>\<open>snprintf\<close> prints for \<^verbatim>\<open>%u\<close> and \<^verbatim>\<open>%llu\<close>.\<close>

fun decimal :: "nat \<Rightarrow> string" where
  "decimal n = (if n < 10 then [char_of (48 + n)] else decimal (n div 10) @ [char_of (48 + n mod 10)])"

declare decimal.simps [simp del]

section \<open>Files\<close>

record 'f WritableFile =
  Append :: "'f \<Rightarrow> slice \<Rightarrow> status \<times> 'f"
  Flush :: "'f \<Rightarrow> status \<times> 'f"

record 'f SequentialFile =
  Read :: "'f \<Rightarrow> nat \<Rightarrow> status \<times> slice \<times> 'f"
  Skip :: "'f \<Rightarrow> 64 word \<Rightarrow> status \<times> 'f"

definition file_appends :: "'f WritableFile \<Rightarrow> ('f \<Rightarrow> byte list) \<Rightarrow> bool" where
  "file_appends ops contents \<longleftrightarrow>
     (\<forall>f data. fst (Append ops f data) = OK \<and> contents (snd (Append ops f data)) = contents f @ data \<and>
        fst (Flush ops f) = OK \<and> contents (snd (Flush ops f)) = contents f)"

definition file_reads :: "'f SequentialFile \<Rightarrow> ('f \<Rightarrow> byte list) \<Rightarrow> bool" where
  "file_reads ops unread \<longleftrightarrow>
     (\<forall>f n. (case Read ops f n of (s, result, f') \<Rightarrow> s = OK \<and> result = take n (unread f) \<and> unread f' = drop n (unread f))) \<and>
     (\<forall>f n. fst (Skip ops f n) = OK \<and> unread (snd (Skip ops f n)) = drop (unat n) (unread f))"

lemma file_appendsD:
  assumes "file_appends ops contents"
  obtains f' where "Append ops f data = (OK, f')" "contents f' = contents f @ data"
  using assms unfolding file_appends_def by (metis prod.collapse)

lemma file_flushD:
  assumes "file_appends ops contents"
  obtains f' where "Flush ops f = (OK, f')" "contents f' = contents f"
  using assms unfolding file_appends_def by (metis prod.collapse)

lemma file_readsD:
  assumes "file_reads ops unread"
  obtains f' where "Read ops f n = (OK, take n (unread f), f')" "unread f' = drop n (unread f)"
proof -
  obtain s result f' where r: "Read ops f n = (s, result, f')" by (metis prod_cases3)
  have "s = OK \<and> result = take n (unread f) \<and> unread f' = drop n (unread f)"
    using assms r unfolding file_reads_def by (metis (mono_tags, lifting) case_prod_conv)
  then show ?thesis using r that by blast
qed

text \<open>Files in memory: the bytes written so far, the bytes not read yet.\<close>

definition mem_writable :: "byte list WritableFile" where
  "mem_writable = \<lparr>Append = \<lambda>f data. (OK, f @ data), Flush = \<lambda>f. (OK, f)\<rparr>"

definition mem_sequential :: "byte list SequentialFile" where
  "mem_sequential = \<lparr>Read = \<lambda>f n. (OK, take n f, drop n f), Skip = \<lambda>f n. (OK, drop (unat n) f)\<rparr>"

lemma mem_files: "file_appends mem_writable (\<lambda>f. f)" "file_reads mem_sequential (\<lambda>f. f)"
  by (simp_all add: file_appends_def file_reads_def mem_writable_def mem_sequential_def)

end
