(* ===== verification/Ldb_Crc.thy ===== *)
theory Ldb_Crc
  imports Ldb_Coding
begin

text \<open>
  The checksum of the key-value store (\<^verbatim>\<open>leveldb-library/util/crc32c.cc\<close> and \<^verbatim>\<open>crc32c.h\<close>): the portable implementation of CRC-32C with
  its five tables, byte steps up to a 4-byte boundary, four interleaved strides of 32-bit words, and byte steps for the
  rest; and the masking of stored checksums. The address of the data, on which the alignment depends, is an argument. The
  library for accelerated checksums is not part of the build (\<^verbatim>\<open>HAVE_CRC32C\<close> is not defined), so \<open>AcceleratedCRC32C\<close> returns 0.

  \<open>crc32c\<close> is the specification: the remainder of the message modulo the Castagnoli polynomial, one bit at a time. The
  optimised routine is proved equal to it at every alignment and length.
\<close>

section \<open>The tables\<close>

definition kByteExtensionTable :: "32 word list" where
  "kByteExtensionTable = [
     0x00000000, 0xF26B8303, 0xE13B70F7, 0x1350F3F4, 0xC79A971F, 0x35F1141C, 0x26A1E7E8, 0xD4CA64EB,
     0x8AD958CF, 0x78B2DBCC, 0x6BE22838, 0x9989AB3B, 0x4D43CFD0, 0xBF284CD3, 0xAC78BF27, 0x5E133C24,
     0x105EC76F, 0xE235446C, 0xF165B798, 0x030E349B, 0xD7C45070, 0x25AFD373, 0x36FF2087, 0xC494A384,
     0x9A879FA0, 0x68EC1CA3, 0x7BBCEF57, 0x89D76C54, 0x5D1D08BF, 0xAF768BBC, 0xBC267848, 0x4E4DFB4B,
     0x20BD8EDE, 0xD2D60DDD, 0xC186FE29, 0x33ED7D2A, 0xE72719C1, 0x154C9AC2, 0x061C6936, 0xF477EA35,
     0xAA64D611, 0x580F5512, 0x4B5FA6E6, 0xB93425E5, 0x6DFE410E, 0x9F95C20D, 0x8CC531F9, 0x7EAEB2FA,
     0x30E349B1, 0xC288CAB2, 0xD1D83946, 0x23B3BA45, 0xF779DEAE, 0x05125DAD, 0x1642AE59, 0xE4292D5A,
     0xBA3A117E, 0x4851927D, 0x5B016189, 0xA96AE28A, 0x7DA08661, 0x8FCB0562, 0x9C9BF696, 0x6EF07595,
     0x417B1DBC, 0xB3109EBF, 0xA0406D4B, 0x522BEE48, 0x86E18AA3, 0x748A09A0, 0x67DAFA54, 0x95B17957,
     0xCBA24573, 0x39C9C670, 0x2A993584, 0xD8F2B687, 0x0C38D26C, 0xFE53516F, 0xED03A29B, 0x1F682198,
     0x5125DAD3, 0xA34E59D0, 0xB01EAA24, 0x42752927, 0x96BF4DCC, 0x64D4CECF, 0x77843D3B, 0x85EFBE38,
     0xDBFC821C, 0x2997011F, 0x3AC7F2EB, 0xC8AC71E8, 0x1C661503, 0xEE0D9600, 0xFD5D65F4, 0x0F36E6F7,
     0x61C69362, 0x93AD1061, 0x80FDE395, 0x72966096, 0xA65C047D, 0x5437877E, 0x4767748A, 0xB50CF789,
     0xEB1FCBAD, 0x197448AE, 0x0A24BB5A, 0xF84F3859, 0x2C855CB2, 0xDEEEDFB1, 0xCDBE2C45, 0x3FD5AF46,
     0x7198540D, 0x83F3D70E, 0x90A324FA, 0x62C8A7F9, 0xB602C312, 0x44694011, 0x5739B3E5, 0xA55230E6,
     0xFB410CC2, 0x092A8FC1, 0x1A7A7C35, 0xE811FF36, 0x3CDB9BDD, 0xCEB018DE, 0xDDE0EB2A, 0x2F8B6829,
     0x82F63B78, 0x709DB87B, 0x63CD4B8F, 0x91A6C88C, 0x456CAC67, 0xB7072F64, 0xA457DC90, 0x563C5F93,
     0x082F63B7, 0xFA44E0B4, 0xE9141340, 0x1B7F9043, 0xCFB5F4A8, 0x3DDE77AB, 0x2E8E845F, 0xDCE5075C,
     0x92A8FC17, 0x60C37F14, 0x73938CE0, 0x81F80FE3, 0x55326B08, 0xA759E80B, 0xB4091BFF, 0x466298FC,
     0x1871A4D8, 0xEA1A27DB, 0xF94AD42F, 0x0B21572C, 0xDFEB33C7, 0x2D80B0C4, 0x3ED04330, 0xCCBBC033,
     0xA24BB5A6, 0x502036A5, 0x4370C551, 0xB11B4652, 0x65D122B9, 0x97BAA1BA, 0x84EA524E, 0x7681D14D,
     0x2892ED69, 0xDAF96E6A, 0xC9A99D9E, 0x3BC21E9D, 0xEF087A76, 0x1D63F975, 0x0E330A81, 0xFC588982,
     0xB21572C9, 0x407EF1CA, 0x532E023E, 0xA145813D, 0x758FE5D6, 0x87E466D5, 0x94B49521, 0x66DF1622,
     0x38CC2A06, 0xCAA7A905, 0xD9F75AF1, 0x2B9CD9F2, 0xFF56BD19, 0x0D3D3E1A, 0x1E6DCDEE, 0xEC064EED,
     0xC38D26C4, 0x31E6A5C7, 0x22B65633, 0xD0DDD530, 0x0417B1DB, 0xF67C32D8, 0xE52CC12C, 0x1747422F,
     0x49547E0B, 0xBB3FFD08, 0xA86F0EFC, 0x5A048DFF, 0x8ECEE914, 0x7CA56A17, 0x6FF599E3, 0x9D9E1AE0,
     0xD3D3E1AB, 0x21B862A8, 0x32E8915C, 0xC083125F, 0x144976B4, 0xE622F5B7, 0xF5720643, 0x07198540,
     0x590AB964, 0xAB613A67, 0xB831C993, 0x4A5A4A90, 0x9E902E7B, 0x6CFBAD78, 0x7FAB5E8C, 0x8DC0DD8F,
     0xE330A81A, 0x115B2B19, 0x020BD8ED, 0xF0605BEE, 0x24AA3F05, 0xD6C1BC06, 0xC5914FF2, 0x37FACCF1,
     0x69E9F0D5, 0x9B8273D6, 0x88D28022, 0x7AB90321, 0xAE7367CA, 0x5C18E4C9, 0x4F48173D, 0xBD23943E,
     0xF36E6F75, 0x0105EC76, 0x12551F82, 0xE03E9C81, 0x34F4F86A, 0xC69F7B69, 0xD5CF889D, 0x27A40B9E,
     0x79B737BA, 0x8BDCB4B9, 0x988C474D, 0x6AE7C44E, 0xBE2DA0A5, 0x4C4623A6, 0x5F16D052, 0xAD7D5351]"

definition kStrideExtensionTable0 :: "32 word list" where
  "kStrideExtensionTable0 = [
     0x00000000, 0x30D23865, 0x61A470CA, 0x517648AF, 0xC348E194, 0xF39AD9F1, 0xA2EC915E, 0x923EA93B,
     0x837DB5D9, 0xB3AF8DBC, 0xE2D9C513, 0xD20BFD76, 0x4035544D, 0x70E76C28, 0x21912487, 0x11431CE2,
     0x03171D43, 0x33C52526, 0x62B36D89, 0x526155EC, 0xC05FFCD7, 0xF08DC4B2, 0xA1FB8C1D, 0x9129B478,
     0x806AA89A, 0xB0B890FF, 0xE1CED850, 0xD11CE035, 0x4322490E, 0x73F0716B, 0x228639C4, 0x125401A1,
     0x062E3A86, 0x36FC02E3, 0x678A4A4C, 0x57587229, 0xC566DB12, 0xF5B4E377, 0xA4C2ABD8, 0x941093BD,
     0x85538F5F, 0xB581B73A, 0xE4F7FF95, 0xD425C7F0, 0x461B6ECB, 0x76C956AE, 0x27BF1E01, 0x176D2664,
     0x053927C5, 0x35EB1FA0, 0x649D570F, 0x544F6F6A, 0xC671C651, 0xF6A3FE34, 0xA7D5B69B, 0x97078EFE,
     0x8644921C, 0xB696AA79, 0xE7E0E2D6, 0xD732DAB3, 0x450C7388, 0x75DE4BED, 0x24A80342, 0x147A3B27,
     0x0C5C750C, 0x3C8E4D69, 0x6DF805C6, 0x5D2A3DA3, 0xCF149498, 0xFFC6ACFD, 0xAEB0E452, 0x9E62DC37,
     0x8F21C0D5, 0xBFF3F8B0, 0xEE85B01F, 0xDE57887A, 0x4C692141, 0x7CBB1924, 0x2DCD518B, 0x1D1F69EE,
     0x0F4B684F, 0x3F99502A, 0x6EEF1885, 0x5E3D20E0, 0xCC0389DB, 0xFCD1B1BE, 0xADA7F911, 0x9D75C174,
     0x8C36DD96, 0xBCE4E5F3, 0xED92AD5C, 0xDD409539, 0x4F7E3C02, 0x7FAC0467, 0x2EDA4CC8, 0x1E0874AD,
     0x0A724F8A, 0x3AA077EF, 0x6BD63F40, 0x5B040725, 0xC93AAE1E, 0xF9E8967B, 0xA89EDED4, 0x984CE6B1,
     0x890FFA53, 0xB9DDC236, 0xE8AB8A99, 0xD879B2FC, 0x4A471BC7, 0x7A9523A2, 0x2BE36B0D, 0x1B315368,
     0x096552C9, 0x39B76AAC, 0x68C12203, 0x58131A66, 0xCA2DB35D, 0xFAFF8B38, 0xAB89C397, 0x9B5BFBF2,
     0x8A18E710, 0xBACADF75, 0xEBBC97DA, 0xDB6EAFBF, 0x49500684, 0x79823EE1, 0x28F4764E, 0x18264E2B,
     0x18B8EA18, 0x286AD27D, 0x791C9AD2, 0x49CEA2B7, 0xDBF00B8C, 0xEB2233E9, 0xBA547B46, 0x8A864323,
     0x9BC55FC1, 0xAB1767A4, 0xFA612F0B, 0xCAB3176E, 0x588DBE55, 0x685F8630, 0x3929CE9F, 0x09FBF6FA,
     0x1BAFF75B, 0x2B7DCF3E, 0x7A0B8791, 0x4AD9BFF4, 0xD8E716CF, 0xE8352EAA, 0xB9436605, 0x89915E60,
     0x98D24282, 0xA8007AE7, 0xF9763248, 0xC9A40A2D, 0x5B9AA316, 0x6B489B73, 0x3A3ED3DC, 0x0AECEBB9,
     0x1E96D09E, 0x2E44E8FB, 0x7F32A054, 0x4FE09831, 0xDDDE310A, 0xED0C096F, 0xBC7A41C0, 0x8CA879A5,
     0x9DEB6547, 0xAD395D22, 0xFC4F158D, 0xCC9D2DE8, 0x5EA384D3, 0x6E71BCB6, 0x3F07F419, 0x0FD5CC7C,
     0x1D81CDDD, 0x2D53F5B8, 0x7C25BD17, 0x4CF78572, 0xDEC92C49, 0xEE1B142C, 0xBF6D5C83, 0x8FBF64E6,
     0x9EFC7804, 0xAE2E4061, 0xFF5808CE, 0xCF8A30AB, 0x5DB49990, 0x6D66A1F5, 0x3C10E95A, 0x0CC2D13F,
     0x14E49F14, 0x2436A771, 0x7540EFDE, 0x4592D7BB, 0xD7AC7E80, 0xE77E46E5, 0xB6080E4A, 0x86DA362F,
     0x97992ACD, 0xA74B12A8, 0xF63D5A07, 0xC6EF6262, 0x54D1CB59, 0x6403F33C, 0x3575BB93, 0x05A783F6,
     0x17F38257, 0x2721BA32, 0x7657F29D, 0x4685CAF8, 0xD4BB63C3, 0xE4695BA6, 0xB51F1309, 0x85CD2B6C,
     0x948E378E, 0xA45C0FEB, 0xF52A4744, 0xC5F87F21, 0x57C6D61A, 0x6714EE7F, 0x3662A6D0, 0x06B09EB5,
     0x12CAA592, 0x22189DF7, 0x736ED558, 0x43BCED3D, 0xD1824406, 0xE1507C63, 0xB02634CC, 0x80F40CA9,
     0x91B7104B, 0xA165282E, 0xF0136081, 0xC0C158E4, 0x52FFF1DF, 0x622DC9BA, 0x335B8115, 0x0389B970,
     0x11DDB8D1, 0x210F80B4, 0x7079C81B, 0x40ABF07E, 0xD2955945, 0xE2476120, 0xB331298F, 0x83E311EA,
     0x92A00D08, 0xA272356D, 0xF3047DC2, 0xC3D645A7, 0x51E8EC9C, 0x613AD4F9, 0x304C9C56, 0x009EA433]"

definition kStrideExtensionTable1 :: "32 word list" where
  "kStrideExtensionTable1 = [
     0x00000000, 0x54075546, 0xA80EAA8C, 0xFC09FFCA, 0x55F123E9, 0x01F676AF, 0xFDFF8965, 0xA9F8DC23,
     0xABE247D2, 0xFFE51294, 0x03ECED5E, 0x57EBB818, 0xFE13643B, 0xAA14317D, 0x561DCEB7, 0x021A9BF1,
     0x5228F955, 0x062FAC13, 0xFA2653D9, 0xAE21069F, 0x07D9DABC, 0x53DE8FFA, 0xAFD77030, 0xFBD02576,
     0xF9CABE87, 0xADCDEBC1, 0x51C4140B, 0x05C3414D, 0xAC3B9D6E, 0xF83CC828, 0x043537E2, 0x503262A4,
     0xA451F2AA, 0xF056A7EC, 0x0C5F5826, 0x58580D60, 0xF1A0D143, 0xA5A78405, 0x59AE7BCF, 0x0DA92E89,
     0x0FB3B578, 0x5BB4E03E, 0xA7BD1FF4, 0xF3BA4AB2, 0x5A429691, 0x0E45C3D7, 0xF24C3C1D, 0xA64B695B,
     0xF6790BFF, 0xA27E5EB9, 0x5E77A173, 0x0A70F435, 0xA3882816, 0xF78F7D50, 0x0B86829A, 0x5F81D7DC,
     0x5D9B4C2D, 0x099C196B, 0xF595E6A1, 0xA192B3E7, 0x086A6FC4, 0x5C6D3A82, 0xA064C548, 0xF463900E,
     0x4D4F93A5, 0x1948C6E3, 0xE5413929, 0xB1466C6F, 0x18BEB04C, 0x4CB9E50A, 0xB0B01AC0, 0xE4B74F86,
     0xE6ADD477, 0xB2AA8131, 0x4EA37EFB, 0x1AA42BBD, 0xB35CF79E, 0xE75BA2D8, 0x1B525D12, 0x4F550854,
     0x1F676AF0, 0x4B603FB6, 0xB769C07C, 0xE36E953A, 0x4A964919, 0x1E911C5F, 0xE298E395, 0xB69FB6D3,
     0xB4852D22, 0xE0827864, 0x1C8B87AE, 0x488CD2E8, 0xE1740ECB, 0xB5735B8D, 0x497AA447, 0x1D7DF101,
     0xE91E610F, 0xBD193449, 0x4110CB83, 0x15179EC5, 0xBCEF42E6, 0xE8E817A0, 0x14E1E86A, 0x40E6BD2C,
     0x42FC26DD, 0x16FB739B, 0xEAF28C51, 0xBEF5D917, 0x170D0534, 0x430A5072, 0xBF03AFB8, 0xEB04FAFE,
     0xBB36985A, 0xEF31CD1C, 0x133832D6, 0x473F6790, 0xEEC7BBB3, 0xBAC0EEF5, 0x46C9113F, 0x12CE4479,
     0x10D4DF88, 0x44D38ACE, 0xB8DA7504, 0xECDD2042, 0x4525FC61, 0x1122A927, 0xED2B56ED, 0xB92C03AB,
     0x9A9F274A, 0xCE98720C, 0x32918DC6, 0x6696D880, 0xCF6E04A3, 0x9B6951E5, 0x6760AE2F, 0x3367FB69,
     0x317D6098, 0x657A35DE, 0x9973CA14, 0xCD749F52, 0x648C4371, 0x308B1637, 0xCC82E9FD, 0x9885BCBB,
     0xC8B7DE1F, 0x9CB08B59, 0x60B97493, 0x34BE21D5, 0x9D46FDF6, 0xC941A8B0, 0x3548577A, 0x614F023C,
     0x635599CD, 0x3752CC8B, 0xCB5B3341, 0x9F5C6607, 0x36A4BA24, 0x62A3EF62, 0x9EAA10A8, 0xCAAD45EE,
     0x3ECED5E0, 0x6AC980A6, 0x96C07F6C, 0xC2C72A2A, 0x6B3FF609, 0x3F38A34F, 0xC3315C85, 0x973609C3,
     0x952C9232, 0xC12BC774, 0x3D2238BE, 0x69256DF8, 0xC0DDB1DB, 0x94DAE49D, 0x68D31B57, 0x3CD44E11,
     0x6CE62CB5, 0x38E179F3, 0xC4E88639, 0x90EFD37F, 0x39170F5C, 0x6D105A1A, 0x9119A5D0, 0xC51EF096,
     0xC7046B67, 0x93033E21, 0x6F0AC1EB, 0x3B0D94AD, 0x92F5488E, 0xC6F21DC8, 0x3AFBE202, 0x6EFCB744,
     0xD7D0B4EF, 0x83D7E1A9, 0x7FDE1E63, 0x2BD94B25, 0x82219706, 0xD626C240, 0x2A2F3D8A, 0x7E2868CC,
     0x7C32F33D, 0x2835A67B, 0xD43C59B1, 0x803B0CF7, 0x29C3D0D4, 0x7DC48592, 0x81CD7A58, 0xD5CA2F1E,
     0x85F84DBA, 0xD1FF18FC, 0x2DF6E736, 0x79F1B270, 0xD0096E53, 0x840E3B15, 0x7807C4DF, 0x2C009199,
     0x2E1A0A68, 0x7A1D5F2E, 0x8614A0E4, 0xD213F5A2, 0x7BEB2981, 0x2FEC7CC7, 0xD3E5830D, 0x87E2D64B,
     0x73814645, 0x27861303, 0xDB8FECC9, 0x8F88B98F, 0x267065AC, 0x727730EA, 0x8E7ECF20, 0xDA799A66,
     0xD8630197, 0x8C6454D1, 0x706DAB1B, 0x246AFE5D, 0x8D92227E, 0xD9957738, 0x259C88F2, 0x719BDDB4,
     0x21A9BF10, 0x75AEEA56, 0x89A7159C, 0xDDA040DA, 0x74589CF9, 0x205FC9BF, 0xDC563675, 0x88516333,
     0x8A4BF8C2, 0xDE4CAD84, 0x2245524E, 0x76420708, 0xDFBADB2B, 0x8BBD8E6D, 0x77B471A7, 0x23B324E1]"

definition kStrideExtensionTable2 :: "32 word list" where
  "kStrideExtensionTable2 = [
     0x00000000, 0x678EFD01, 0xCF1DFA02, 0xA8930703, 0x9BD782F5, 0xFC597FF4, 0x54CA78F7, 0x334485F6,
     0x3243731B, 0x55CD8E1A, 0xFD5E8919, 0x9AD07418, 0xA994F1EE, 0xCE1A0CEF, 0x66890BEC, 0x0107F6ED,
     0x6486E636, 0x03081B37, 0xAB9B1C34, 0xCC15E135, 0xFF5164C3, 0x98DF99C2, 0x304C9EC1, 0x57C263C0,
     0x56C5952D, 0x314B682C, 0x99D86F2F, 0xFE56922E, 0xCD1217D8, 0xAA9CEAD9, 0x020FEDDA, 0x658110DB,
     0xC90DCC6C, 0xAE83316D, 0x0610366E, 0x619ECB6F, 0x52DA4E99, 0x3554B398, 0x9DC7B49B, 0xFA49499A,
     0xFB4EBF77, 0x9CC04276, 0x34534575, 0x53DDB874, 0x60993D82, 0x0717C083, 0xAF84C780, 0xC80A3A81,
     0xAD8B2A5A, 0xCA05D75B, 0x6296D058, 0x05182D59, 0x365CA8AF, 0x51D255AE, 0xF94152AD, 0x9ECFAFAC,
     0x9FC85941, 0xF846A440, 0x50D5A343, 0x375B5E42, 0x041FDBB4, 0x639126B5, 0xCB0221B6, 0xAC8CDCB7,
     0x97F7EE29, 0xF0791328, 0x58EA142B, 0x3F64E92A, 0x0C206CDC, 0x6BAE91DD, 0xC33D96DE, 0xA4B36BDF,
     0xA5B49D32, 0xC23A6033, 0x6AA96730, 0x0D279A31, 0x3E631FC7, 0x59EDE2C6, 0xF17EE5C5, 0x96F018C4,
     0xF371081F, 0x94FFF51E, 0x3C6CF21D, 0x5BE20F1C, 0x68A68AEA, 0x0F2877EB, 0xA7BB70E8, 0xC0358DE9,
     0xC1327B04, 0xA6BC8605, 0x0E2F8106, 0x69A17C07, 0x5AE5F9F1, 0x3D6B04F0, 0x95F803F3, 0xF276FEF2,
     0x5EFA2245, 0x3974DF44, 0x91E7D847, 0xF6692546, 0xC52DA0B0, 0xA2A35DB1, 0x0A305AB2, 0x6DBEA7B3,
     0x6CB9515E, 0x0B37AC5F, 0xA3A4AB5C, 0xC42A565D, 0xF76ED3AB, 0x90E02EAA, 0x387329A9, 0x5FFDD4A8,
     0x3A7CC473, 0x5DF23972, 0xF5613E71, 0x92EFC370, 0xA1AB4686, 0xC625BB87, 0x6EB6BC84, 0x09384185,
     0x083FB768, 0x6FB14A69, 0xC7224D6A, 0xA0ACB06B, 0x93E8359D, 0xF466C89C, 0x5CF5CF9F, 0x3B7B329E,
     0x2A03AAA3, 0x4D8D57A2, 0xE51E50A1, 0x8290ADA0, 0xB1D42856, 0xD65AD557, 0x7EC9D254, 0x19472F55,
     0x1840D9B8, 0x7FCE24B9, 0xD75D23BA, 0xB0D3DEBB, 0x83975B4D, 0xE419A64C, 0x4C8AA14F, 0x2B045C4E,
     0x4E854C95, 0x290BB194, 0x8198B697, 0xE6164B96, 0xD552CE60, 0xB2DC3361, 0x1A4F3462, 0x7DC1C963,
     0x7CC63F8E, 0x1B48C28F, 0xB3DBC58C, 0xD455388D, 0xE711BD7B, 0x809F407A, 0x280C4779, 0x4F82BA78,
     0xE30E66CF, 0x84809BCE, 0x2C139CCD, 0x4B9D61CC, 0x78D9E43A, 0x1F57193B, 0xB7C41E38, 0xD04AE339,
     0xD14D15D4, 0xB6C3E8D5, 0x1E50EFD6, 0x79DE12D7, 0x4A9A9721, 0x2D146A20, 0x85876D23, 0xE2099022,
     0x878880F9, 0xE0067DF8, 0x48957AFB, 0x2F1B87FA, 0x1C5F020C, 0x7BD1FF0D, 0xD342F80E, 0xB4CC050F,
     0xB5CBF3E2, 0xD2450EE3, 0x7AD609E0, 0x1D58F4E1, 0x2E1C7117, 0x49928C16, 0xE1018B15, 0x868F7614,
     0xBDF4448A, 0xDA7AB98B, 0x72E9BE88, 0x15674389, 0x2623C67F, 0x41AD3B7E, 0xE93E3C7D, 0x8EB0C17C,
     0x8FB73791, 0xE839CA90, 0x40AACD93, 0x27243092, 0x1460B564, 0x73EE4865, 0xDB7D4F66, 0xBCF3B267,
     0xD972A2BC, 0xBEFC5FBD, 0x166F58BE, 0x71E1A5BF, 0x42A52049, 0x252BDD48, 0x8DB8DA4B, 0xEA36274A,
     0xEB31D1A7, 0x8CBF2CA6, 0x242C2BA5, 0x43A2D6A4, 0x70E65352, 0x1768AE53, 0xBFFBA950, 0xD8755451,
     0x74F988E6, 0x137775E7, 0xBBE472E4, 0xDC6A8FE5, 0xEF2E0A13, 0x88A0F712, 0x2033F011, 0x47BD0D10,
     0x46BAFBFD, 0x213406FC, 0x89A701FF, 0xEE29FCFE, 0xDD6D7908, 0xBAE38409, 0x1270830A, 0x75FE7E0B,
     0x107F6ED0, 0x77F193D1, 0xDF6294D2, 0xB8EC69D3, 0x8BA8EC25, 0xEC261124, 0x44B51627, 0x233BEB26,
     0x223C1DCB, 0x45B2E0CA, 0xED21E7C9, 0x8AAF1AC8, 0xB9EB9F3E, 0xDE65623F, 0x76F6653C, 0x1178983D]"

definition kStrideExtensionTable3 :: "32 word list" where
  "kStrideExtensionTable3 = [
     0x00000000, 0xF20C0DFE, 0xE1F46D0D, 0x13F860F3, 0xC604ACEB, 0x3408A115, 0x27F0C1E6, 0xD5FCCC18,
     0x89E52F27, 0x7BE922D9, 0x6811422A, 0x9A1D4FD4, 0x4FE183CC, 0xBDED8E32, 0xAE15EEC1, 0x5C19E33F,
     0x162628BF, 0xE42A2541, 0xF7D245B2, 0x05DE484C, 0xD0228454, 0x222E89AA, 0x31D6E959, 0xC3DAE4A7,
     0x9FC30798, 0x6DCF0A66, 0x7E376A95, 0x8C3B676B, 0x59C7AB73, 0xABCBA68D, 0xB833C67E, 0x4A3FCB80,
     0x2C4C517E, 0xDE405C80, 0xCDB83C73, 0x3FB4318D, 0xEA48FD95, 0x1844F06B, 0x0BBC9098, 0xF9B09D66,
     0xA5A97E59, 0x57A573A7, 0x445D1354, 0xB6511EAA, 0x63ADD2B2, 0x91A1DF4C, 0x8259BFBF, 0x7055B241,
     0x3A6A79C1, 0xC866743F, 0xDB9E14CC, 0x29921932, 0xFC6ED52A, 0x0E62D8D4, 0x1D9AB827, 0xEF96B5D9,
     0xB38F56E6, 0x41835B18, 0x527B3BEB, 0xA0773615, 0x758BFA0D, 0x8787F7F3, 0x947F9700, 0x66739AFE,
     0x5898A2FC, 0xAA94AF02, 0xB96CCFF1, 0x4B60C20F, 0x9E9C0E17, 0x6C9003E9, 0x7F68631A, 0x8D646EE4,
     0xD17D8DDB, 0x23718025, 0x3089E0D6, 0xC285ED28, 0x17792130, 0xE5752CCE, 0xF68D4C3D, 0x048141C3,
     0x4EBE8A43, 0xBCB287BD, 0xAF4AE74E, 0x5D46EAB0, 0x88BA26A8, 0x7AB62B56, 0x694E4BA5, 0x9B42465B,
     0xC75BA564, 0x3557A89A, 0x26AFC869, 0xD4A3C597, 0x015F098F, 0xF3530471, 0xE0AB6482, 0x12A7697C,
     0x74D4F382, 0x86D8FE7C, 0x95209E8F, 0x672C9371, 0xB2D05F69, 0x40DC5297, 0x53243264, 0xA1283F9A,
     0xFD31DCA5, 0x0F3DD15B, 0x1CC5B1A8, 0xEEC9BC56, 0x3B35704E, 0xC9397DB0, 0xDAC11D43, 0x28CD10BD,
     0x62F2DB3D, 0x90FED6C3, 0x8306B630, 0x710ABBCE, 0xA4F677D6, 0x56FA7A28, 0x45021ADB, 0xB70E1725,
     0xEB17F41A, 0x191BF9E4, 0x0AE39917, 0xF8EF94E9, 0x2D1358F1, 0xDF1F550F, 0xCCE735FC, 0x3EEB3802,
     0xB13145F8, 0x433D4806, 0x50C528F5, 0xA2C9250B, 0x7735E913, 0x8539E4ED, 0x96C1841E, 0x64CD89E0,
     0x38D46ADF, 0xCAD86721, 0xD92007D2, 0x2B2C0A2C, 0xFED0C634, 0x0CDCCBCA, 0x1F24AB39, 0xED28A6C7,
     0xA7176D47, 0x551B60B9, 0x46E3004A, 0xB4EF0DB4, 0x6113C1AC, 0x931FCC52, 0x80E7ACA1, 0x72EBA15F,
     0x2EF24260, 0xDCFE4F9E, 0xCF062F6D, 0x3D0A2293, 0xE8F6EE8B, 0x1AFAE375, 0x09028386, 0xFB0E8E78,
     0x9D7D1486, 0x6F711978, 0x7C89798B, 0x8E857475, 0x5B79B86D, 0xA975B593, 0xBA8DD560, 0x4881D89E,
     0x14983BA1, 0xE694365F, 0xF56C56AC, 0x07605B52, 0xD29C974A, 0x20909AB4, 0x3368FA47, 0xC164F7B9,
     0x8B5B3C39, 0x795731C7, 0x6AAF5134, 0x98A35CCA, 0x4D5F90D2, 0xBF539D2C, 0xACABFDDF, 0x5EA7F021,
     0x02BE131E, 0xF0B21EE0, 0xE34A7E13, 0x114673ED, 0xC4BABFF5, 0x36B6B20B, 0x254ED2F8, 0xD742DF06,
     0xE9A9E704, 0x1BA5EAFA, 0x085D8A09, 0xFA5187F7, 0x2FAD4BEF, 0xDDA14611, 0xCE5926E2, 0x3C552B1C,
     0x604CC823, 0x9240C5DD, 0x81B8A52E, 0x73B4A8D0, 0xA64864C8, 0x54446936, 0x47BC09C5, 0xB5B0043B,
     0xFF8FCFBB, 0x0D83C245, 0x1E7BA2B6, 0xEC77AF48, 0x398B6350, 0xCB876EAE, 0xD87F0E5D, 0x2A7303A3,
     0x766AE09C, 0x8466ED62, 0x979E8D91, 0x6592806F, 0xB06E4C77, 0x42624189, 0x519A217A, 0xA3962C84,
     0xC5E5B67A, 0x37E9BB84, 0x2411DB77, 0xD61DD689, 0x03E11A91, 0xF1ED176F, 0xE215779C, 0x10197A62,
     0x4C00995D, 0xBE0C94A3, 0xADF4F450, 0x5FF8F9AE, 0x8A0435B6, 0x78083848, 0x6BF058BB, 0x99FC5545,
     0xD3C39EC5, 0x21CF933B, 0x3237F3C8, 0xC03BFE36, 0x15C7322E, 0xE7CB3FD0, 0xF4335F23, 0x063F52DD,
     0x5A26B1E2, 0xA82ABC1C, 0xBBD2DCEF, 0x49DED111, 0x9C221D09, 0x6E2E10F7, 0x7DD67004, 0x8FDA7DFA]"

section \<open>The checksum\<close>

definition kCRC32Xor :: "32 word" where
  "kCRC32Xor = 0xFFFFFFFF"

definition ReadUint32LE :: "byte list \<Rightarrow> 32 word" where
  "ReadUint32LE buffer = DecodeFixed32 buffer"

definition RoundUp4 :: "nat \<Rightarrow> nat" where
  "RoundUp4 pointer = (pointer + 3) div 4 * 4"

definition AcceleratedCRC32C :: "32 word \<Rightarrow> byte list \<Rightarrow> 32 word" where
  "AcceleratedCRC32C crc buf = 0"

definition CanAccelerateCRC32C :: bool where
  "CanAccelerateCRC32C \<longleftrightarrow> AcceleratedCRC32C 0 (map of_char ''TestCRCBuffer'') = 0xDCBC59FA"

definition STEP1 :: "32 word \<Rightarrow> byte \<Rightarrow> 32 word" where
  "STEP1 l b = kByteExtensionTable ! unat ((l AND 0xFF) XOR ucast b) XOR drop_bit 8 l"

definition STEP4 :: "32 word \<Rightarrow> 32 word \<Rightarrow> 32 word" where
  "STEP4 w crc =
     w XOR kStrideExtensionTable3 ! unat (crc AND 0xFF) XOR
     kStrideExtensionTable2 ! unat (drop_bit 8 crc AND 0xFF) XOR
     kStrideExtensionTable1 ! unat (drop_bit 16 crc AND 0xFF) XOR
     kStrideExtensionTable0 ! unat (drop_bit 24 crc)"

definition STEP4W_round :: "32 word \<Rightarrow> 32 word" where
  "STEP4W_round w = drop_bit 8 w XOR kByteExtensionTable ! unat (w AND 0xFF)"

definition STEP4W :: "32 word \<Rightarrow> 32 word \<Rightarrow> 32 word" where
  "STEP4W w l = STEP4W_round (STEP4W_round (STEP4W_round (STEP4W_round (w XOR l))))"

type_synonym strides = "32 word \<times> 32 word \<times> 32 word \<times> 32 word"

function STEP16_loop :: "strides \<Rightarrow> byte list \<Rightarrow> strides \<times> byte list" where
  "STEP16_loop (crc0, crc1, crc2, crc3) p =
     (if length p \<ge> 16 then
        STEP16_loop
          (STEP4 (ReadUint32LE p) crc0, STEP4 (ReadUint32LE (drop 4 p)) crc1,
           STEP4 (ReadUint32LE (drop 8 p)) crc2, STEP4 (ReadUint32LE (drop 12 p)) crc3) (drop 16 p)
      else ((crc0, crc1, crc2, crc3), p))"
  by pat_completeness auto

termination STEP16_loop
  by (relation "measure (\<lambda>(_, p). length p)") auto

declare STEP16_loop.simps [simp del]

function STEP4_loop :: "strides \<Rightarrow> byte list \<Rightarrow> strides \<times> byte list" where
  "STEP4_loop (crc0, crc1, crc2, crc3) p =
     (if length p \<ge> 4 then STEP4_loop (crc1, crc2, crc3, STEP4 (ReadUint32LE p) crc0) (drop 4 p)
      else ((crc0, crc1, crc2, crc3), p))"
  by pat_completeness auto

termination STEP4_loop
  by (relation "measure (\<lambda>(_, p). length p)") auto

declare STEP4_loop.simps [simp del]

definition combine_strides :: "strides \<Rightarrow> 32 word" where
  "combine_strides = (\<lambda>(crc0, crc1, crc2, crc3). STEP4W crc3 (STEP4W crc2 (STEP4W crc1 (STEP4W crc0 0))))"

definition crc_strides :: "32 word \<Rightarrow> byte list \<Rightarrow> 32 word \<times> byte list" where
  "crc_strides l p =
     (let first = (ReadUint32LE p XOR l, ReadUint32LE (drop 4 p), ReadUint32LE (drop 8 p), ReadUint32LE (drop 12 p));
          (crcs, p1) = STEP16_loop first (drop 16 p);
          (crcs2, p2) = STEP4_loop crcs p1
      in (combine_strides crcs2, p2))"

definition Extend :: "nat \<Rightarrow> 32 word \<Rightarrow> byte list \<Rightarrow> 32 word" where
  "Extend address crc data =
     (if CanAccelerateCRC32C then AcceleratedCRC32C crc data
      else
        let x = RoundUp4 address - address;
            l = crc XOR kCRC32Xor;
            (l1, p1) = (if x \<le> length data then (foldl STEP1 l (take x data), drop x data) else (l, data));
            (l2, p2) = (if length p1 \<ge> 16 then crc_strides l1 p1 else (l1, p1))
        in foldl STEP1 l2 p2 XOR kCRC32Xor)"

definition Value :: "nat \<Rightarrow> byte list \<Rightarrow> 32 word" where
  "Value address data = Extend address 0 data"

definition kMaskDelta :: "32 word" where
  "kMaskDelta = 0xA282EAD8"

definition Mask :: "32 word \<Rightarrow> 32 word" where
  "Mask crc = (drop_bit 15 crc OR push_bit 17 crc) + kMaskDelta"

definition Unmask :: "32 word \<Rightarrow> 32 word" where
  "Unmask masked_crc = (let rot = masked_crc - kMaskDelta in drop_bit 17 rot OR push_bit 15 rot)"

section \<open>Specification\<close>

text \<open>One bit of the division by the reflected Castagnoli polynomial, and the checksum of a byte string.\<close>

definition crc_bit :: "32 word \<Rightarrow> 32 word" where
  "crc_bit x = (if x AND 1 = 0 then drop_bit 1 x else drop_bit 1 x XOR 0x82F63B78)"

definition crc_byte :: "32 word \<Rightarrow> byte \<Rightarrow> 32 word" where
  "crc_byte l b = (crc_bit ^^ 8) (l XOR ucast b)"

definition crc32c :: "32 word \<Rightarrow> byte list \<Rightarrow> 32 word" where
  "crc32c crc data = NOT (foldl crc_byte (NOT crc) data)"

section \<open>Division is linear\<close>

lemma and_1_bit: "x AND 1 = 0 \<longleftrightarrow> \<not> bit x 0" for x :: "32 word"
  using and_exp_eq_0_iff_not_bit [of x 0] by simp

lemma crc_bit_xor: "crc_bit (a XOR b) = crc_bit a XOR crc_bit b"
proof -
  have "drop_bit 1 (a XOR b) = drop_bit 1 a XOR drop_bit 1 b" by (rule drop_bit_xor)
  then show ?thesis by (simp only: crc_bit_def and_1_bit bit_xor_iff) (auto simp: ac_simps)
qed

lemma crc_bits_xor: "(crc_bit ^^ n) (a XOR b) = (crc_bit ^^ n) a XOR (crc_bit ^^ n) b"
  by (induction n) (simp_all add: crc_bit_xor)

lemma crc_bits_0 [simp]: "(crc_bit ^^ n) 0 = 0"
  by (induction n) (simp_all add: crc_bit_def)

lemma crc_bits_shift: "take_bit k y = 0 \<Longrightarrow> (crc_bit ^^ k) y = drop_bit k y"
proof (induction k arbitrary: y)
  case 0 then show ?case by simp
next
  case (Suc k)
  have "\<not> bit (take_bit (Suc k) y) 0" using Suc.prems by simp
  then have b: "crc_bit y = drop_bit 1 y" by (simp add: crc_bit_def and_1_bit bit_take_bit_iff)
  have "take_bit k (drop_bit 1 y) = drop_bit 1 (take_bit (Suc k) y)" by (simp add: take_bit_drop_bit)
  then have "(crc_bit ^^ k) (drop_bit 1 y) = drop_bit k (drop_bit 1 y)" using Suc by simp
  then show ?case using b by (simp add: funpow_swap1)
qed

lemma crc_bits_push: "drop_bit k (push_bit k x) = x \<Longrightarrow> (crc_bit ^^ (n + k)) (push_bit k x) = (crc_bit ^^ n) x"
  using crc_bits_shift [of k "push_bit k x"] by (simp add: funpow_add take_bit_push_bit)

section \<open>The tables hold the division of each byte\<close>

text \<open>A table that is closed under exclusive or, from its entries at the powers of two (the largest first).\<close>

fun xor_table :: "32 word list \<Rightarrow> 32 word list" where
  "xor_table [] = [0]"
| "xor_table (b # bs) = xor_table bs @ map (\<lambda>x. b XOR x) (xor_table bs)"

lemma map_xor_table:
  assumes "\<And>a b. f (a XOR b) = f a XOR f b" "f 0 = 0"
  shows "map f (xor_table us) = xor_table (map f us)"
proof (induction us)
  case Nil then show ?case using assms(2) by simp
next
  case (Cons a us)
  have "map f (map (\<lambda>x. a XOR x) (xor_table us)) = map (\<lambda>x. f a XOR x) (map f (xor_table us))"
    using assms(1) by simp
  then show ?case using Cons by simp
qed

definition units :: "32 word list" where
  "units = [128, 64, 32, 16, 8, 4, 2, 1]"

lemma xor_table_units: "xor_table units = map of_nat [0..<256]"
  by (simp add: units_def upt_rec)

lemma table_from_units:
  assumes "t = xor_table (map (crc_bit ^^ n) units)" "i < 256"
  shows "t ! i = (crc_bit ^^ n) (of_nat i)"
proof -
  have "t = map (crc_bit ^^ n) (map of_nat [0..<256])"
    using assms(1) map_xor_table [of "crc_bit ^^ n" units] by (simp add: crc_bits_xor xor_table_units)
  then show ?thesis using assms(2) by simp
qed

text \<open>The entries at the powers of two, eight divisions at a time.\<close>

definition crc_8 :: "32 word \<Rightarrow> 32 word" where
  "crc_8 x = crc_bit (crc_bit (crc_bit (crc_bit (crc_bit (crc_bit (crc_bit (crc_bit x)))))))"

lemma crc_bits_8: "(crc_bit ^^ 8) x = crc_8 x"
  by (simp add: crc_8_def numeral_eq_Suc)

lemma crc_bits_add_8: "(crc_bit ^^ (n + 8)) x = crc_8 ((crc_bit ^^ n) x)"
  by (subst add.commute) (simp add: funpow_add crc_bits_8)

lemma crc_bit_eval:
  "crc_bit (numeral n) =
     (if numeral n AND 1 = (0 :: 32 word) then drop_bit 1 (numeral n) else drop_bit 1 (numeral n) XOR 0x82F63B78)"
  "crc_bit 1 = 0x82F63B78"
  by (simp_all add: crc_bit_def)

lemma crc_8_steps: "map (crc_bit ^^ n) xs = ys \<Longrightarrow> map crc_8 ys = zs \<Longrightarrow> map (crc_bit ^^ (n + 8)) xs = zs"
  by (auto simp: crc_bits_add_8)

lemma units_8: "map (crc_bit ^^ 8) units = [0x82F63B78, 0x417B1DBC, 0x20BD8EDE, 0x105EC76F, 0x8AD958CF, 0xC79A971F, 0xE13B70F7, 0xF26B8303]"
  by (simp add: units_def crc_bits_8 crc_8_def crc_bit_eval)

lemma crc_bits_104: "(crc_bit ^^ 104) x = (crc_8 ^^ 13) x"
proof -
  have "crc_bit ^^ 8 = crc_8" by (rule ext) (rule crc_bits_8)
  then show ?thesis using funpow_mult [where f = crc_bit and m = 8 and n = 13] by simp
qed

lemma funpow_13: "(f ^^ 13) x = f (f (f (f (f (f (f (f (f (f (f (f (f x))))))))))))"
  by (simp add: numeral_eq_Suc)

lemma units_104: "map (crc_bit ^^ 104) units = [0x18B8EA18, 0x0C5C750C, 0x062E3A86, 0x03171D43, 0x837DB5D9, 0xC348E194, 0x61A470CA, 0x30D23865]"
  by (simp add: units_def crc_bits_104 funpow_13 crc_8_def crc_bit_eval)

lemma units_112: "map (crc_bit ^^ 112) units = [0x9A9F274A, 0x4D4F93A5, 0xA451F2AA, 0x5228F955, 0xABE247D2, 0x55F123E9, 0xA80EAA8C, 0x54075546]"
  using crc_8_steps [OF units_104 refl] by (simp add: crc_8_def crc_bit_eval)

lemma units_120: "map (crc_bit ^^ 120) units = [0x2A03AAA3, 0x97F7EE29, 0xC90DCC6C, 0x6486E636, 0x3243731B, 0x9BD782F5, 0xCF1DFA02, 0x678EFD01]"
  using crc_8_steps [OF units_112 refl] by (simp add: crc_8_def crc_bit_eval)

lemma units_128: "map (crc_bit ^^ 128) units = [0xB13145F8, 0x5898A2FC, 0x2C4C517E, 0x162628BF, 0x89E52F27, 0xC604ACEB, 0xE1F46D0D, 0xF20C0DFE]"
  using crc_8_steps [OF units_120 refl] by (simp add: crc_8_def crc_bit_eval)

lemma kByteExtensionTable_nth: "i < 256 \<Longrightarrow> kByteExtensionTable ! i = (crc_bit ^^ 8) (of_nat i)"
  by (rule table_from_units) (simp_all add: units_8 kByteExtensionTable_def)

lemma kStrideExtensionTable0_nth: "i < 256 \<Longrightarrow> kStrideExtensionTable0 ! i = (crc_bit ^^ 104) (of_nat i)"
  by (rule table_from_units) (simp_all add: units_104 kStrideExtensionTable0_def)

lemma kStrideExtensionTable1_nth: "i < 256 \<Longrightarrow> kStrideExtensionTable1 ! i = (crc_bit ^^ 112) (of_nat i)"
  by (rule table_from_units) (simp_all add: units_112 kStrideExtensionTable1_def)

lemma kStrideExtensionTable2_nth: "i < 256 \<Longrightarrow> kStrideExtensionTable2 ! i = (crc_bit ^^ 120) (of_nat i)"
  by (rule table_from_units) (simp_all add: units_120 kStrideExtensionTable2_def)

lemma kStrideExtensionTable3_nth: "i < 256 \<Longrightarrow> kStrideExtensionTable3 ! i = (crc_bit ^^ 128) (of_nat i)"
  by (rule table_from_units) (simp_all add: units_128 kStrideExtensionTable3_def)

section \<open>The steps of the routine\<close>

lemma bit_FF [simp]: "bit (0xFF :: int) n \<longleftrightarrow> n < 8"
proof -
  have "0xFF = (mask 8 :: int)" by (simp add: mask_eq_exp_minus_1)
  then show ?thesis by (simp only: bit_mask_iff) auto
qed

lemma bit_below: "bit (l :: 32 word) n \<Longrightarrow> n < 32" "bit (b :: byte) n \<Longrightarrow> n < 8"
  using bit_imp_le_length [of l n] bit_imp_le_length [of b n] by simp_all

lemma split_low_byte: "l = (l AND 0xFF) XOR push_bit 8 (drop_bit 8 l)" for l :: "32 word"
  by (rule bit_word_eqI) (auto simp: bit_simps dest: bit_below)

lemma and_FF_less: "unat (l AND 0xFF) < 256" for l :: "32 word"
proof -
  have "l AND 0xFF = take_bit 8 l" by (simp add: take_bit_eq_mask mask_eq_exp_minus_1)
  then show ?thesis using take_bit_nat_less_exp [of 8 "unat l"] by (simp add: unsigned_take_bit_eq)
qed

lemma drop_push_8: "drop_bit 8 (push_bit 8 (drop_bit 8 l)) = drop_bit 8 l" for l :: "32 word"
  by (rule bit_word_eqI) (auto simp: bit_simps dest: bit_below)

lemma crc_bits_split: "(crc_bit ^^ (n + 8)) l = (crc_bit ^^ (n + 8)) (l AND 0xFF) XOR (crc_bit ^^ n) (drop_bit 8 l)"
proof -
  have "(crc_bit ^^ (n + 8)) l = (crc_bit ^^ (n + 8)) (l AND 0xFF) XOR (crc_bit ^^ (n + 8)) (push_bit 8 (drop_bit 8 l))"
    using split_low_byte [of l] crc_bits_xor [of "n + 8" "l AND 0xFF"] by metis
  then show ?thesis using crc_bits_push [OF drop_push_8, of n l] by simp
qed

lemmas crc_bits_8_split = crc_bits_split [of 0, simplified]

lemma STEP1_crc: "STEP1 l b = crc_byte l b"
proof -
  let ?m = "l XOR ucast b :: 32 word"
  have low: "(l AND 0xFF) XOR ucast b = ?m AND 0xFF" by (rule bit_word_eqI) (auto simp: bit_simps dest: bit_below)
  have high: "drop_bit 8 l = drop_bit 8 ?m" by (rule bit_word_eqI) (auto simp: bit_simps dest: bit_below)
  have "STEP1 l b = (crc_bit ^^ 8) (?m AND 0xFF) XOR drop_bit 8 ?m"
    unfolding STEP1_def low high by (simp add: kByteExtensionTable_nth and_FF_less)
  then show ?thesis by (simp only: crc_byte_def crc_bits_8_split [of ?m])
qed

lemma STEP4W_round_crc: "STEP4W_round w = (crc_bit ^^ 8) w"
  by (subst crc_bits_8_split) (simp add: STEP4W_round_def kByteExtensionTable_nth and_FF_less xor.commute)

lemma STEP4W_crc: "STEP4W w l = (crc_bit ^^ 32) (w XOR l)"
proof -
  have "(crc_bit ^^ 32) x = (crc_bit ^^ 8) ((crc_bit ^^ 8) ((crc_bit ^^ 8) ((crc_bit ^^ 8) x)))" for x
    by (simp add: funpow_add [symmetric, THEN fun_cong, unfolded comp_apply])
  then show ?thesis by (simp add: STEP4W_def STEP4W_round_crc)
qed

lemma STEP4_crc: "STEP4 w crc = w XOR (crc_bit ^^ 128) crc"
proof -
  have top: "unat (drop_bit 24 crc) < 256"
    using unat_less_2p(1) [of crc] unfolding unat_drop_bit_eq by (simp add: drop_bit_eq_div less_mult_imp_div_less)
  have "(crc_bit ^^ 128) crc = (crc_bit ^^ 128) (crc AND 0xFF) XOR (crc_bit ^^ 120) (drop_bit 8 crc AND 0xFF) XOR
      (crc_bit ^^ 112) (drop_bit 16 crc AND 0xFF) XOR (crc_bit ^^ 104) (drop_bit 24 crc)"
    using crc_bits_split [of 120 crc] crc_bits_split [of 112 "drop_bit 8 crc"] crc_bits_split [of 104 "drop_bit 16 crc"]
    by (simp add: xor.assoc)
  then show ?thesis
    by (simp add: STEP4_def kStrideExtensionTable0_nth kStrideExtensionTable1_nth kStrideExtensionTable2_nth
        kStrideExtensionTable3_nth and_FF_less top xor.assoc)
qed

section \<open>Words and strides\<close>

lemma word_of_le_Cons: "word_of_le (b # bs) = (ucast b XOR push_bit 8 (word_of_le bs) :: 32 word)"
proof -
  let ?w = "word_of_le bs :: 32 word"
  have 0: "ucast b AND push_bit 8 ?w = 0"
    by (rule bit_word_eqI) (auto simp: bit_simps dest: bit_below)
  have "ucast b + push_bit 8 ?w = ucast b OR push_bit 8 ?w" by (rule disjunctive_add_eq_or [OF 0])
  also have "\<dots> = ucast b XOR push_bit 8 ?w"
    using 0 by (metis disjunctive_add_eq_or disjunctive_add_eq_xor)
  finally show ?thesis by (simp add: push_bit_eq_mult mult.commute)
qed

lemma word_of_le_less: "length bs \<le> 4 \<Longrightarrow> unat (word_of_le bs :: 32 word) < 256 ^ length bs"
proof (induction bs)
  case Nil then show ?case by simp
next
  case (Cons b bs)
  have b: "unat b < 256" using unsigned_less [of b] by simp
  then have "unat (ucast b :: 32 word) < 256" by (simp add: unsigned_ucast_eq take_bit_eq_mod)
  moreover have "unat (word_of_le bs :: 32 word) + 1 \<le> 256 ^ length bs" using Cons by simp
  then have "256 * unat (word_of_le bs :: 32 word) + 256 \<le> 256 * 256 ^ length bs" by linarith
  ultimately have "unat (ucast b :: 32 word) + 256 * unat (word_of_le bs :: 32 word) < 256 ^ length (b # bs)" by simp
  moreover have "unat (word_of_le (b # bs) :: 32 word) \<le> unat (ucast b :: 32 word) + 256 * unat (word_of_le bs :: 32 word)"
    by (simp add: unat_word_ariths)
  ultimately show ?case by linarith
qed

lemma foldl_crc_byte: "length bs \<le> 4 \<Longrightarrow> foldl crc_byte l bs = (crc_bit ^^ (8 * length bs)) (l XOR word_of_le bs)"
proof (induction bs arbitrary: l)
  case Nil then show ?case by simp
next
  case (Cons b bs)
  let ?w = "word_of_le bs :: 32 word" and ?n = "8 * length bs"
  have "unat ?w < 256 ^ length bs" using Cons.prems word_of_le_less [of bs] by simp
  also have "\<dots> \<le> 256 ^ 3" using Cons.prems by (intro power_increasing) simp_all
  finally have "drop_bit 8 (push_bit 8 ?w) = ?w"
    by (intro unat_word_inject) (simp add: unat_drop_bit_eq drop_bit_eq_div push_bit_eq_mult unat_word_ariths)
  then have w: "(crc_bit ^^ (?n + 8)) (push_bit 8 ?w) = (crc_bit ^^ ?n) ?w" by (rule crc_bits_push)
  have "foldl crc_byte l (b # bs) = (crc_bit ^^ ?n) (crc_byte l b XOR ?w)" using Cons by simp
  also have "\<dots> = (crc_bit ^^ (?n + 8)) (l XOR ucast b) XOR (crc_bit ^^ (?n + 8)) (push_bit 8 ?w)"
    unfolding w by (simp add: crc_bits_xor crc_byte_def funpow_add)
  also have "\<dots> = (crc_bit ^^ (?n + 8)) (l XOR word_of_le (b # bs))"
    by (simp only: word_of_le_Cons crc_bits_xor xor.assoc)
  finally show ?case by (simp add: add.commute)
qed

lemma crc_word:
  assumes "4 \<le> length p"
  shows "foldl crc_byte l p = foldl crc_byte ((crc_bit ^^ 32) (l XOR ReadUint32LE p)) (drop 4 p)"
proof -
  have "foldl crc_byte l p = foldl crc_byte (foldl crc_byte l (take 4 p)) (drop 4 p)"
    by (metis append_take_drop_id foldl_append)
  then show ?thesis using assms by (simp add: foldl_crc_byte ReadUint32LE_def DecodeFixed32_def)
qed

text \<open>One word enters the strides: the oldest stride takes it and becomes the youngest.\<close>

fun next_stride :: "32 word \<Rightarrow> strides \<Rightarrow> strides" where
  "next_stride w (crc0, crc1, crc2, crc3) = (crc1, crc2, crc3, STEP4 w crc0)"

lemma combine_next_stride: "combine_strides (next_stride w c) = (crc_bit ^^ 32) (combine_strides c XOR w)"
proof -
  have "(crc_bit ^^ 128) x = (crc_bit ^^ 32) ((crc_bit ^^ 32) ((crc_bit ^^ 32) ((crc_bit ^^ 32) x)))" for x
    by (simp add: funpow_add [symmetric, THEN fun_cong, unfolded comp_apply])
  then show ?thesis
    by (cases c) (simp add: combine_strides_def STEP4W_crc STEP4_crc crc_bits_xor ac_simps)
qed

lemma STEP4_loop_crc:
  "STEP4_loop c p = (c', p') \<Longrightarrow> foldl crc_byte (combine_strides c') p' = foldl crc_byte (combine_strides c) p"
proof (induction c p arbitrary: c' p' rule: STEP4_loop.induct)
  case (1 crc0 crc1 crc2 crc3 p)
  let ?c = "(crc0, crc1, crc2, crc3)"
  show ?case
  proof (cases "length p \<ge> 4")
    case True
    then have "STEP4_loop (next_stride (ReadUint32LE p) ?c) (drop 4 p) = (c', p')"
      using "1.prems" by (simp add: STEP4_loop.simps [of crc0])
    then have "foldl crc_byte (combine_strides c') p' = foldl crc_byte (combine_strides (next_stride (ReadUint32LE p) ?c)) (drop 4 p)"
      using "1.IH" [OF True] by simp
    then show ?thesis using crc_word [OF True, of "combine_strides ?c"] by (simp only: combine_next_stride)
  next
    case False
    then show ?thesis using "1.prems" by (simp add: STEP4_loop.simps [of crc0])
  qed
qed

lemma STEP16_loop_crc:
  "STEP16_loop c p = (c', p') \<Longrightarrow> foldl crc_byte (combine_strides c') p' = foldl crc_byte (combine_strides c) p"
proof (induction c p arbitrary: c' p' rule: STEP16_loop.induct)
  case (1 crc0 crc1 crc2 crc3 p)
  let ?c = "(crc0, crc1, crc2, crc3)" and ?w = "\<lambda>k. ReadUint32LE (drop k p)"
  let ?c4 = "next_stride (?w 12) (next_stride (?w 8) (next_stride (?w 4) (next_stride (?w 0) ?c)))"
  show ?case
  proof (cases "length p \<ge> 16")
    case True
    then have "STEP16_loop ?c4 (drop 16 p) = (c', p')"
      using "1.prems" by (simp add: STEP16_loop.simps [of crc0])
    then have IH: "foldl crc_byte (combine_strides c') p' = foldl crc_byte (combine_strides ?c4) (drop 16 p)"
      using "1.IH" [OF True] by simp
    have step: "foldl crc_byte (combine_strides d) (drop k p) =
        foldl crc_byte (combine_strides (next_stride (?w k) d)) (drop (k + 4) p)" if "k \<le> 12" for k d
      using that True crc_word [of "drop k p" "combine_strides d"]
      by (simp only: combine_next_stride) (simp add: add.commute)
    show ?thesis
      using IH step [of 0 ?c] step [of 4] step [of 8] step [of 12] by simp
  next
    case False
    then show ?thesis using "1.prems" by (simp add: STEP16_loop.simps [of crc0])
  qed
qed

lemma crc_strides_crc:
  assumes "length p \<ge> 16" "crc_strides l p = (l', p')"
  shows "foldl crc_byte l' p' = foldl crc_byte l p"
proof -
  let ?w = "\<lambda>k. ReadUint32LE (drop k p)"
  let ?first = "(?w 0 XOR l, ?w 4, ?w 8, ?w 12)"
  obtain c1 p1 c2 where r: "STEP16_loop ?first (drop 16 p) = (c1, p1)" "STEP4_loop c1 p1 = (c2, p')" "l' = combine_strides c2"
    using assms(2) by (auto simp: crc_strides_def Let_def split: prod.splits)
  have "foldl crc_byte l' p' = foldl crc_byte (combine_strides ?first) (drop 16 p)"
    using STEP16_loop_crc [OF r(1)] STEP4_loop_crc [OF r(2)] r(3) by simp
  moreover have step: "foldl crc_byte m (drop k p) = foldl crc_byte ((crc_bit ^^ 32) (m XOR ?w k)) (drop (k + 4) p)"
    if "k \<le> 12" for k m using that assms(1) crc_word [of "drop k p" m] by (simp add: add.commute)
  then have "foldl crc_byte l p = foldl crc_byte (combine_strides ?first) (drop 16 p)"
    using step [of 0 l] step [of 4] step [of 8] step [of 12] by (simp add: combine_strides_def STEP4W_crc ac_simps)
  ultimately show ?thesis by simp
qed

lemma no_acceleration: "\<not> CanAccelerateCRC32C"
  by (simp add: CanAccelerateCRC32C_def AcceleratedCRC32C_def)

lemma Extend_crc32c: "Extend address crc data = crc32c crc data"
proof -
  define x l where "x = RoundUp4 address - address" and "l = crc XOR kCRC32Xor"
  obtain l1 p1 where 1: "(if x \<le> length data then (foldl STEP1 l (take x data), drop x data) else (l, data)) = (l1, p1)"
    by fastforce
  obtain l2 p2 where 2: "(if length p1 \<ge> 16 then crc_strides l1 p1 else (l1, p1)) = (l2, p2)" by fastforce
  have S: "STEP1 = crc_byte" by (intro ext) (rule STEP1_crc)
  have ones: "kCRC32Xor = - 1" by (simp add: kCRC32Xor_def)
  have x: "crc XOR kCRC32Xor = NOT crc" for crc
    unfolding ones by (rule bit_word_eqI) (simp add: bit_simps)
  have "foldl crc_byte l1 p1 = foldl crc_byte l data"
    using 1 by (auto simp: S foldl_append [symmetric] split: if_splits)
  moreover have "foldl crc_byte l2 p2 = foldl crc_byte l1 p1"
    using 2 crc_strides_crc [of p1 l1] by (auto split: if_splits)
  moreover have "Extend address crc data = foldl STEP1 l2 p2 XOR kCRC32Xor"
    unfolding Extend_def Let_def x_def [symmetric] l_def [symmetric] using 1 2 no_acceleration by simp
  ultimately show ?thesis by (simp add: S x crc32c_def l_def)
qed

lemma crc32c_append: "crc32c (crc32c crc a) b = crc32c crc (a @ b)"
  by (simp add: crc32c_def)

lemma Extend_append: "Extend n (Extend m crc a) b = Extend k crc (a @ b)"
  by (simp add: Extend_crc32c crc32c_append)

lemma Unmask_Mask: "Unmask (Mask crc) = crc"
proof -
  have "drop_bit 17 (drop_bit 15 crc OR push_bit 17 crc) OR push_bit 15 (drop_bit 15 crc OR push_bit 17 crc) = crc"
    (is "?l = _")
  proof (rule bit_word_eqI)
    fix n assume "n < LENGTH(32)"
    then show "bit ?l n = bit crc n"
      by (cases "n < 15") (auto simp: bit_simps dest: bit_below)
  qed
  then show ?thesis by (simp add: Unmask_def Mask_def Let_def)
qed

end
