(* ===== verification/Ldb_Log.thy ===== *)
theory Ldb_Log
  imports Ldb_Env Ldb_Crc
begin

text \<open>
  The write-ahead log of the key-value store (\<^verbatim>\<open>leveldb-library/db/log_format.h\<close>, \<^verbatim>\<open>log_writer.cc\<close>, \<^verbatim>\<open>log_reader.cc\<close>). The writer cuts records into
  fragments that do not cross the 32768 byte blocks of the file, each with a header of checksum, length and type; the
  reader joins them again, and skips what is damaged.

  A writer is a record of its file's state and its members; a reader likewise, with the corruption reports it has made.
  Offsets in the file are 64-bit words and wrap as they do in the code. The addresses of the data, on which only the
  speed of the checksum depends, are arguments.

  \<open>log_roundtrip\<close> shows that the reader returns the records that the writer was given, in order and without a report.
\<close>

section \<open>Format\<close>

definition kZeroType :: "32 word" where "kZeroType = 0"
definition kFullType :: "32 word" where "kFullType = 1"
definition kFirstType :: "32 word" where "kFirstType = 2"
definition kMiddleType :: "32 word" where "kMiddleType = 3"
definition kLastType :: "32 word" where "kLastType = 4"
definition kMaxRecordType :: "32 word" where "kMaxRecordType = kLastType"
definition kEof :: "32 word" where "kEof = kMaxRecordType + 1"
definition kBadRecord :: "32 word" where "kBadRecord = kMaxRecordType + 2"

definition kBlockSize :: int where "kBlockSize = 32768"
definition kHeaderSize :: int where "kHeaderSize = 4 + 2 + 1"

lemmas record_types = kZeroType_def kFullType_def kFirstType_def kMiddleType_def kLastType_def kMaxRecordType_def
  kEof_def kBadRecord_def

section \<open>Writer\<close>

record 'f writer =
  w_dest :: 'f
  w_block_offset :: int
  w_type_crc :: "32 word list"

definition InitTypeCrc :: "nat \<Rightarrow> 32 word list" where
  "InitTypeCrc address = map (\<lambda>i. Value address [of_nat i]) [0..<unat kMaxRecordType + 1]"

definition new_Writer :: "nat \<Rightarrow> 'f \<Rightarrow> 'f writer" where
  "new_Writer address dest = \<lparr>w_dest = dest, w_block_offset = 0, w_type_crc = InitTypeCrc address\<rparr>"

definition new_Writer_at :: "nat \<Rightarrow> 'f \<Rightarrow> 64 word \<Rightarrow> 'f writer" where
  "new_Writer_at address dest dest_length =
     \<lparr>w_dest = dest, w_block_offset = uint dest_length mod kBlockSize, w_type_crc = InitTypeCrc address\<rparr>"

definition EmitPhysicalRecord ::
    "'f WritableFile \<Rightarrow> nat \<Rightarrow> 32 word \<Rightarrow> byte list \<Rightarrow> 'f writer \<Rightarrow> status \<times> 'f writer" where
  "EmitPhysicalRecord ops address t data w =
     (let n = length data;
          crc = Mask (Extend address (w_type_crc w ! unat t) data);
          buf = EncodeFixed32 crc @ [of_nat n, ucast (drop_bit 8 (of_nat n :: 64 word)), ucast t];
          (s1, f1) = Append ops (w_dest w) buf;
          (s3, f3) =
            (if is_ok s1 then
               let (s2, f2) = Append ops f1 data in if is_ok s2 then Flush ops f2 else (s2, f2)
             else (s1, f1))
      in (s3, w\<lparr>w_dest := f3, w_block_offset := w_block_offset w + kHeaderSize + int n\<rparr>))"

text \<open>
  The loop of \<open>AddRecord\<close>. It ends: a round either takes some of the data, or has found exactly a header's room in the
  block, writes an empty fragment there and finds a whole block in the next round.
\<close>

definition block_room :: "int \<Rightarrow> nat" where
  "block_room offset = nat (kBlockSize - offset - kHeaderSize)"

definition fragment_type :: "bool \<Rightarrow> bool \<Rightarrow> 32 word" where
  "fragment_type begin end =
     (if begin \<and> end then kFullType else if begin then kFirstType else if end then kLastType else kMiddleType)"

definition switch_block :: "'f WritableFile \<Rightarrow> 'f writer \<Rightarrow> 'f writer" where
  "switch_block ops w =
     (let leftover = kBlockSize - w_block_offset w in
      if leftover < kHeaderSize then
        (if leftover > 0 then w\<lparr>w_dest := snd (Append ops (w_dest w) (replicate (nat leftover) 0))\<rparr> else w)
          \<lparr>w_block_offset := 0\<rparr>
      else w)"

definition fragment_step ::
    "'f WritableFile \<Rightarrow> bool \<Rightarrow> nat \<Rightarrow> byte list \<Rightarrow> 'f writer \<Rightarrow> status \<times> byte list \<times> 'f writer" where
  "fragment_step ops begin address data w =
     (let w1 = switch_block ops w;
          left = length data;
          avail = block_room (w_block_offset w1);
          fragment_length = (if left < avail then left else avail);
          (s, w2) = EmitPhysicalRecord ops address (fragment_type begin (left = fragment_length))
                      (take fragment_length data) w1
      in (s, drop fragment_length data, w2))"

lemma block_offset_step:
  "w_block_offset (switch_block ops w) =
     (if kBlockSize - w_block_offset w < kHeaderSize then 0 else w_block_offset w)"
  by (simp add: switch_block_def Let_def)

lemma block_offset_Emit:
  "EmitPhysicalRecord ops a t data w = (s, w') \<Longrightarrow> w_block_offset w' = w_block_offset w + kHeaderSize + int (length data)"
  by (auto simp: EmitPhysicalRecord_def Let_def split: prod.splits if_splits)

lemma fragment_step_measure:
  assumes "fragment_step ops begin a data w = (s, data', w')" "data' \<noteq> []"
  shows "2 * length data' + (if w_block_offset w' = 32761 then 1 else 0) <
    2 * length data + (if w_block_offset w = 32761 then 1 else 0 :: nat)"
proof -
  let ?o = "w_block_offset (switch_block ops w)"
  have o: "?o \<le> 32761" by (simp add: block_offset_step kBlockSize_def kHeaderSize_def)
  then have r: "int (block_room ?o) = 32761 - ?o" by (simp add: block_room_def kBlockSize_def kHeaderSize_def)
  have d: "data' = drop (block_room ?o) data" "block_room ?o < length data"
    and w': "w_block_offset w' = ?o + 7 + int (block_room ?o)"
    using assms by (auto simp: fragment_step_def Let_def kHeaderSize_def dest!: block_offset_Emit split: prod.splits if_splits)
  have "w_block_offset w' = 32768" using w' r by simp
  moreover have "block_room ?o > 0 \<or> w_block_offset w = 32761"
    using r by (auto simp: block_offset_step kBlockSize_def kHeaderSize_def split: if_splits)
  ultimately show ?thesis using d by auto
qed

function AddRecord_loop ::
    "'f WritableFile \<Rightarrow> bool \<Rightarrow> nat \<Rightarrow> byte list \<Rightarrow> 'f writer \<Rightarrow> status \<times> 'f writer" where
  "AddRecord_loop ops begin address data w =
     (case fragment_step ops begin address data w of
        (s, data', w') \<Rightarrow>
          if is_ok s \<and> data' \<noteq> [] then AddRecord_loop ops False (address + (length data - length data')) data' w'
          else (s, w'))"
  by pat_completeness auto

termination AddRecord_loop
  by (relation "measure (\<lambda>(_, _, _, data, w). 2 * length data + (if w_block_offset w = 32761 then 1 else 0))")
    (auto dest!: sym [of "(_, _, _)" "fragment_step _ _ _ _ _"] dest: fragment_step_measure)

declare AddRecord_loop.simps [simp del]

definition AddRecord :: "'f WritableFile \<Rightarrow> nat \<Rightarrow> slice \<Rightarrow> 'f writer \<Rightarrow> status \<times> 'f writer" where
  "AddRecord ops address data w = AddRecord_loop ops True address data w"

section \<open>Reader\<close>

text \<open>
  The reports made so far are the calls of the reporter, oldest first; \<open>r_reporter\<close> tells whether there is one. \<open>r_buffer_at\<close> is
  the address of the first byte of the buffer.
\<close>

record 'f reader =
  r_file :: 'f
  r_reporter :: bool
  r_reports :: "(64 word \<times> status) list"
  r_checksum :: bool
  r_backing_store :: nat
  r_buffer :: slice
  r_buffer_at :: nat
  r_eof :: bool
  r_last_record_offset :: "64 word"
  r_end_of_buffer_offset :: "64 word"
  r_initial_offset :: "64 word"
  r_resyncing :: bool

definition new_Reader :: "'f \<Rightarrow> bool \<Rightarrow> bool \<Rightarrow> nat \<Rightarrow> 64 word \<Rightarrow> 'f reader" where
  "new_Reader file reporter checksum store initial_offset =
     \<lparr>r_file = file, r_reporter = reporter, r_reports = [], r_checksum = checksum, r_backing_store = store,
      r_buffer = [], r_buffer_at = 0, r_eof = False, r_last_record_offset = 0, r_end_of_buffer_offset = 0,
      r_initial_offset = initial_offset, r_resyncing = (initial_offset > 0)\<rparr>"

definition ReportDrop :: "64 word \<Rightarrow> status \<Rightarrow> 'f reader \<Rightarrow> 'f reader" where
  "ReportDrop bytes reason r =
     (if r_reporter r \<and> r_end_of_buffer_offset r - of_nat (length (r_buffer r)) - bytes \<ge> r_initial_offset r
      then r\<lparr>r_reports := r_reports r @ [(bytes, reason)]\<rparr> else r)"

definition ReportCorruption :: "64 word \<Rightarrow> string \<Rightarrow> 'f reader \<Rightarrow> 'f reader" where
  "ReportCorruption bytes reason r = ReportDrop bytes (Corruption reason) r"

definition SkipToInitialBlock :: "'f SequentialFile \<Rightarrow> 'f reader \<Rightarrow> bool \<times> 'f reader" where
  "SkipToInitialBlock ops r =
     (let offset_in_block = r_initial_offset r mod 32768;
          start = r_initial_offset r - offset_in_block;
          block_start_location = (if offset_in_block > 32768 - 6 then start + 32768 else start);
          r1 = r\<lparr>r_end_of_buffer_offset := block_start_location\<rparr> in
      if block_start_location > 0 then
        let (skip_status, f) = Skip ops (r_file r) block_start_location; r2 = r1\<lparr>r_file := f\<rparr> in
        if \<not> is_ok skip_status then (False, ReportDrop block_start_location skip_status r2) else (True, r2)
      else (True, r1))"

text \<open>
  A physical record: its type or one of the special values, and the fragment, which keeps its old value \<open>frag\<close> where the code does not set
  it.
\<close>

definition parse_physical :: "slice \<Rightarrow> 'f reader \<Rightarrow> 32 word \<times> slice \<times> 'f reader" where
  "parse_physical frag r =
     (let header = r_buffer r;
          a = ucast (header ! 4) :: 32 word; b = ucast (header ! 5) :: 32 word;
          type = scast (header ! 6) :: 32 word;
          len = a OR push_bit 8 b; n = unat len in
      if nat kHeaderSize + n > length (r_buffer r) then
        let drop_size = of_nat (length (r_buffer r)); r1 = r\<lparr>r_buffer := []\<rparr> in
        if \<not> r_eof r then (kBadRecord, frag, ReportCorruption drop_size ''bad record length'' r1) else (kEof, frag, r1)
      else if type = kZeroType \<and> len = 0 then (kBadRecord, frag, r\<lparr>r_buffer := []\<rparr>)
      else if r_checksum r \<and>
        Value (r_buffer_at r + 6) (take (1 + n) (drop 6 header)) \<noteq> Unmask (DecodeFixed32 header)
      then
        let drop_size = of_nat (length (r_buffer r)) in
        (kBadRecord, frag, ReportCorruption drop_size ''checksum mismatch'' (r\<lparr>r_buffer := []\<rparr>))
      else
        let r1 = r\<lparr>r_buffer := drop (nat kHeaderSize + n) header, r_buffer_at := r_buffer_at r + nat kHeaderSize + n\<rparr> in
        if r_end_of_buffer_offset r1 - of_nat (length (r_buffer r1)) - of_int kHeaderSize - ucast len < r_initial_offset r1
        then (kBadRecord, [], r1)
        else (type, take n (drop (nat kHeaderSize) header), r1))"

text \<open>The loop goes round at most once more: after a read the buffer is full or the end of the file is known.\<close>

function ReadPhysicalRecord :: "'f SequentialFile \<Rightarrow> slice \<Rightarrow> 'f reader \<Rightarrow> 32 word \<times> slice \<times> 'f reader" where
  "ReadPhysicalRecord ops frag r =
     (if length (r_buffer r) < nat kHeaderSize then
        if \<not> r_eof r then
          case Read ops (r_file r) (nat kBlockSize) of
            (status, data, f) \<Rightarrow>
              let r1 = r\<lparr>r_file := f, r_buffer := data, r_buffer_at := r_backing_store r,
                         r_end_of_buffer_offset := r_end_of_buffer_offset r + of_nat (length data)\<rparr> in
              if \<not> is_ok status
              then (kEof, frag, (ReportDrop (of_int kBlockSize) status (r1\<lparr>r_buffer := []\<rparr>))\<lparr>r_eof := True\<rparr>)
              else if length data < nat kBlockSize then ReadPhysicalRecord ops frag (r1\<lparr>r_eof := True\<rparr>)
              else ReadPhysicalRecord ops frag r1
        else (kEof, frag, r\<lparr>r_buffer := []\<rparr>)
      else parse_physical frag r)"
  by pat_completeness auto

termination ReadPhysicalRecord
  by (relation "measure (\<lambda>(_, _, r). if length (r_buffer r) < nat kHeaderSize \<and> \<not> r_eof r then 1 else 0)")
    (auto simp: kHeaderSize_def kBlockSize_def)

declare ReadPhysicalRecord.simps [simp del]

text \<open>
  The local variables of \<open>ReadRecord\<close>: \<open>scratch\<close>, \<open>in_fragmented_record\<close>, \<open>prospective_record_offset\<close> and \<open>fragment\<close>.
\<close>

record read_locals =
  l_scratch :: "byte list"
  l_in_fragmented_record :: bool
  l_prospective_record_offset :: "64 word"
  l_fragment :: slice

text \<open>
  One round of the loop of \<open>ReadRecord\<close>: it returns, with the record if there is one, or goes on with changed variables.
\<close>

datatype 'f read_step = Return "slice option" "'f reader" | Continue read_locals "'f reader"

definition ReadRecord_switch :: "32 word \<Rightarrow> 64 word \<Rightarrow> read_locals \<Rightarrow> 'f reader \<Rightarrow> 'f read_step" where
  "ReadRecord_switch record_type physical_record_offset l r =
     (let fragment = l_fragment l; scratch = l_scratch l; in_frag = l_in_fragmented_record l;
          sz = \<lambda>xs. of_nat (length xs) :: 64 word;
          partial = (\<lambda>msg. if in_frag \<and> scratch \<noteq> [] then ReportCorruption (sz scratch) msg r else r) in
      if record_type = kFullType then
        Return (Some fragment)
          ((partial ''partial record without end(1)'')\<lparr>r_last_record_offset := physical_record_offset\<rparr>)
      else if record_type = kFirstType then
        Continue (l\<lparr>l_prospective_record_offset := physical_record_offset, l_scratch := fragment,
                    l_in_fragmented_record := True\<rparr>)
          (partial ''partial record without end(2)'')
      else if record_type = kMiddleType then
        if \<not> in_frag then Continue l (ReportCorruption (sz fragment) ''missing start of fragmented record(1)'' r)
        else Continue (l\<lparr>l_scratch := scratch @ fragment\<rparr>) r
      else if record_type = kLastType then
        if \<not> in_frag then Continue l (ReportCorruption (sz fragment) ''missing start of fragmented record(2)'' r)
        else Return (Some (scratch @ fragment)) (r\<lparr>r_last_record_offset := l_prospective_record_offset l\<rparr>)
      else if record_type = kEof then Return None r
      else if record_type = kBadRecord then
        if in_frag then
          Continue (l\<lparr>l_in_fragmented_record := False, l_scratch := []\<rparr>)
            (ReportCorruption (sz scratch) ''error in middle of record'' r)
        else Continue l r
      else
        Continue (l\<lparr>l_in_fragmented_record := False, l_scratch := []\<rparr>)
          (ReportCorruption (sz fragment + (if in_frag then sz scratch else 0))
             (''unknown record type '' @ decimal (unat record_type)) r))"

definition ReadRecord_step :: "'f SequentialFile \<Rightarrow> read_locals \<Rightarrow> 'f reader \<Rightarrow> 'f read_step" where
  "ReadRecord_step ops l r =
     (case ReadPhysicalRecord ops (l_fragment l) r of
        (record_type, fragment, r1) \<Rightarrow>
          let l1 = l\<lparr>l_fragment := fragment\<rparr>;
              physical_record_offset =
                r_end_of_buffer_offset r1 - of_nat (length (r_buffer r1)) - of_int kHeaderSize - of_nat (length fragment) in
          if r_resyncing r1 then
            if record_type = kMiddleType then Continue l1 r1
            else if record_type = kLastType then Continue l1 (r1\<lparr>r_resyncing := False\<rparr>)
            else ReadRecord_switch record_type physical_record_offset l1 (r1\<lparr>r_resyncing := False\<rparr>)
          else ReadRecord_switch record_type physical_record_offset l1 r1)"

text \<open>
  The loop ends only if the file does, so it has fuel; \<open>ReadRecord_returns\<close> shows how much is enough. The
  result is the record, or \<open>None\<close> at the end of the input.
\<close>

fun ReadRecord_loop :: "nat \<Rightarrow> 'f SequentialFile \<Rightarrow> read_locals \<Rightarrow> 'f reader \<Rightarrow> (slice option \<times> 'f reader) option" where
  "ReadRecord_loop 0 ops l r = None"
| "ReadRecord_loop (Suc k) ops l r =
     (case ReadRecord_step ops l r of
        Return rec r1 \<Rightarrow> Some (rec, r1)
      | Continue l1 r1 \<Rightarrow> ReadRecord_loop k ops l1 r1)"

definition ReadRecord :: "nat \<Rightarrow> 'f SequentialFile \<Rightarrow> 'f reader \<Rightarrow> (slice option \<times> 'f reader) option" where
  "ReadRecord fuel ops r =
     (let (ok, r1) = (if r_last_record_offset r < r_initial_offset r then SkipToInitialBlock ops r else (True, r)) in
      if \<not> ok then Some (None, r1)
      else ReadRecord_loop fuel ops
        \<lparr>l_scratch = [], l_in_fragmented_record = False, l_prospective_record_offset = 0, l_fragment = []\<rparr> r1)"

definition LastRecordOffset :: "'f reader \<Rightarrow> 64 word" where
  "LastRecordOffset r = r_last_record_offset r"

section \<open>Specification of the format\<close>

definition data_types :: "32 word set" where
  "data_types = {kFullType, kFirstType, kMiddleType, kLastType}"

text \<open>A physical record with its header.\<close>

definition phys :: "32 word \<Rightarrow> byte list \<Rightarrow> byte list" where
  "phys t data =
     EncodeFixed32 (Mask (crc32c 0 (ucast t # data))) @
     [of_nat (length data), ucast (drop_bit 8 (of_nat (length data) :: 64 word)), ucast t] @ data"

text \<open>The unused bytes at the end of the block of position \<open>p\<close>, and the room for data behind a header at position \<open>q\<close>.\<close>

definition padding :: "nat \<Rightarrow> nat" where
  "padding p = (if 32768 - p mod 32768 < 7 then 32768 - p mod 32768 else 0)"

definition room :: "nat \<Rightarrow> nat" where
  "room q = 32768 - q mod 32768 - 7"

text \<open>
  \<open>fragments p begin data bs p'\<close>: from position \<open>p\<close> of the file, the rest \<open>data\<close> of a record is stored as the bytes \<open>bs\<close>, up to
  position \<open>p'\<close>.
\<close>

inductive fragments :: "nat \<Rightarrow> bool \<Rightarrow> byte list \<Rightarrow> byte list \<Rightarrow> nat \<Rightarrow> bool" where
  final: "length data \<le> room (p + padding p) \<Longrightarrow>
    fragments p begin data (replicate (padding p) 0 @ phys (fragment_type begin True) data)
      (p + padding p + 7 + length data)"
| more: "n = room (p + padding p) \<Longrightarrow> n < length data \<Longrightarrow>
    fragments (p + padding p + 7 + n) False (drop n data) bs p' \<Longrightarrow>
    fragments p begin data
      (replicate (padding p) 0 @ phys (fragment_type begin False) (take n data) @ bs) p'"

lemma length_phys [simp]: "length (phys t data) = 7 + length data"
  by (simp add: phys_def)

lemma position_after_padding: "(p + padding p) mod 32768 \<le> 32761"
proof -
  have m: "p mod 32768 < 32768" by simp
  show ?thesis
  proof (cases "32768 - p mod 32768 < 7")
    case True
    then have "p mod 32768 + padding p = 32768" using m by (simp add: padding_def)
    then have "(p + padding p) mod 32768 = 0" by (metis mod_add_left_eq mod_self)
    then show ?thesis by simp
  next
    case False
    then show ?thesis by (simp add: padding_def)
  qed
qed

lemma room_le: "7 + room (p + padding p) + (p + padding p) mod 32768 = 32768"
  using position_after_padding [of p] by (simp add: room_def)

lemma fragment_type_data: "fragment_type b e \<in> data_types"
  by (simp add: fragment_type_def data_types_def)

section \<open>The writer writes the format\<close>

text \<open>The writer's block offset belongs to position \<open>p\<close> of the file.\<close>

definition offset_at :: "int \<Rightarrow> nat \<Rightarrow> bool" where
  "offset_at off p \<longleftrightarrow> 0 \<le> off \<and> off \<le> 32768 \<and> off mod 32768 = int (p mod 32768)"

lemma offset_at_cases:
  assumes "offset_at off p"
  shows "off = int (p mod 32768) \<or> (off = 32768 \<and> p mod 32768 = 0)"
proof (cases "off = 32768")
  case True
  then have "int (p mod 32768) = 0" using assms unfolding offset_at_def by presburger
  then show ?thesis using True by linarith
next
  case False
  then have "off mod 32768 = off" using assms unfolding offset_at_def by (intro mod_pos_pos_trivial) auto
  then show ?thesis using assms unfolding offset_at_def by presburger
qed

lemma type_crc_nth:
  assumes "t \<in> data_types"
  shows "Extend a (InitTypeCrc b ! unat t) data = crc32c 0 (ucast t # data)"
proof -
  have "InitTypeCrc b ! unat t = crc32c 0 [ucast t]"
    using assms by (auto simp: InitTypeCrc_def data_types_def record_types Value_def Extend_crc32c nth_append)
  then show ?thesis by (simp add: Extend_crc32c crc32c_append)
qed

lemma Emit_phys:
  assumes "file_appends ops contents" "w_type_crc w = InitTypeCrc b" "t \<in> data_types"
  obtains w' where "EmitPhysicalRecord ops a t data w = (OK, w')"
    "contents (w_dest w') = contents (w_dest w) @ phys t data" "w_type_crc w' = InitTypeCrc b"
    "w_block_offset w' = w_block_offset w + 7 + int (length data)"
proof -
  let ?n = "length data"
  let ?buf = "EncodeFixed32 (Mask (crc32c 0 (ucast t # data))) @ [of_nat ?n, ucast (drop_bit 8 (of_nat ?n :: 64 word)), ucast t]"
  obtain f1 where 1: "Append ops (w_dest w) ?buf = (OK, f1)" "contents f1 = contents (w_dest w) @ ?buf"
    using file_appendsD [OF assms(1)] by blast
  obtain f2 where 2: "Append ops f1 data = (OK, f2)" "contents f2 = contents f1 @ data"
    using file_appendsD [OF assms(1)] by blast
  obtain f3 where 3: "Flush ops f2 = (OK, f3)" "contents f3 = contents f2"
    using file_flushD [OF assms(1)] by blast
  show ?thesis
    by (rule that [of "w\<lparr>w_dest := f3, w_block_offset := w_block_offset w + kHeaderSize + int ?n\<rparr>"])
      (use 1 2 3 assms(2) in \<open>simp_all add: EmitPhysicalRecord_def Let_def type_crc_nth [OF assms(3)] kHeaderSize_def phys_def\<close>)
qed

lemma switch_block_padding:
  assumes "file_appends ops contents" "offset_at (w_block_offset w) p"
  shows "contents (w_dest (switch_block ops w)) = contents (w_dest w) @ replicate (padding p) 0"
    "w_type_crc (switch_block ops w) = w_type_crc w"
    "w_block_offset (switch_block ops w) = int ((p + padding p) mod 32768)"
proof -
  have m: "p mod 32768 < 32768" by simp
  have a: "contents (snd (Append ops (w_dest w) xs)) = contents (w_dest w) @ xs" for xs
    using assms(1) by (simp add: file_appends_def)
  show "contents (w_dest (switch_block ops w)) = contents (w_dest w) @ replicate (padding p) 0"
    "w_type_crc (switch_block ops w) = w_type_crc w"
    using offset_at_cases [OF assms(2)] m
    by (auto simp: switch_block_def Let_def kBlockSize_def kHeaderSize_def padding_def a)
  show "w_block_offset (switch_block ops w) = int ((p + padding p) mod 32768)"
  proof (cases "32768 - p mod 32768 < 7")
    case True
    then have "p mod 32768 + padding p = 32768" using m by (simp add: padding_def)
    then have "(p + padding p) mod 32768 = 0" by (metis mod_add_left_eq mod_self)
    then show ?thesis using offset_at_cases [OF assms(2)] True
      by (auto simp: block_offset_step kBlockSize_def kHeaderSize_def)
  next
    case False
    then show ?thesis using offset_at_cases [OF assms(2)] m
      by (auto simp: block_offset_step kBlockSize_def kHeaderSize_def padding_def)
  qed
qed

lemma fragment_step_writes:
  fixes data :: "byte list"
  assumes "file_appends ops contents" "w_type_crc w = InitTypeCrc b" "offset_at (w_block_offset w) p"
  defines "n \<equiv> min (length data) (room (p + padding p))"
  obtains w' where "fragment_step ops begin a data w = (OK, drop n data, w')"
    "contents (w_dest w') = contents (w_dest w) @ replicate (padding p) 0 @
       phys (fragment_type begin (length data = n)) (take n data)"
    "w_type_crc w' = InitTypeCrc b" "offset_at (w_block_offset w') (p + padding p + 7 + n)"
proof -
  let ?w1 = "switch_block ops w" and ?q = "p + padding p"
  note sw = switch_block_padding [OF assms(1,3)]
  have room: "block_room (w_block_offset ?w1) = room ?q"
    using position_after_padding [of p] by (simp add: sw(3) block_room_def room_def kBlockSize_def kHeaderSize_def)
  have n: "(if length data < room ?q then length data else room ?q) = n" by (simp add: n_def)
  obtain w' where w': "EmitPhysicalRecord ops a (fragment_type begin (length data = n)) (take n data) ?w1 = (OK, w')"
    "contents (w_dest w') = contents (w_dest ?w1) @ phys (fragment_type begin (length data = n)) (take n data)"
    "w_type_crc w' = InitTypeCrc b" "w_block_offset w' = w_block_offset ?w1 + 7 + int (length (take n data))"
    using Emit_phys [OF assms(1) _ fragment_type_data] assms(2) sw(2) by metis
  have "length (take n data) = n" by (simp add: n_def)
  then have off: "w_block_offset w' = int (?q mod 32768 + 7 + n)" using w'(4) sw(3) by simp
  have "?q mod 32768 + 7 + n \<le> 32768" using room_le [of p] by (simp add: n_def)
  moreover have "(?q mod 32768 + 7 + n) mod 32768 = (?q + 7 + n) mod 32768"
    by (simp add: mod_add_left_eq add.assoc)
  ultimately have "offset_at (w_block_offset w') (?q + 7 + n)"
    using zmod_int [of "?q mod 32768 + 7 + n" 32768] unfolding offset_at_def off by simp
  moreover have "fragment_step ops begin a data w = (OK, drop n data, w')"
    unfolding fragment_step_def Let_def room n w'(1) by simp
  ultimately show ?thesis using that w'(2,3) sw(1) by simp
qed

lemma AddRecord_loop_writes:
  "file_appends ops contents \<Longrightarrow> w_type_crc w = InitTypeCrc b \<Longrightarrow> offset_at (w_block_offset w) p \<Longrightarrow>
   \<exists>w' bs p'. AddRecord_loop ops first a data w = (OK, w') \<and> fragments p first data bs p' \<and>
     contents (w_dest w') = contents (w_dest w) @ bs \<and> w_type_crc w' = InitTypeCrc b \<and> offset_at (w_block_offset w') p'"
proof (induction ops first a data w arbitrary: p rule: AddRecord_loop.induct)
  case (1 ops first a data w)
  let ?q = "p + padding p" and ?n = "min (length data) (room (p + padding p))"
  obtain w1 where w1: "fragment_step ops first a data w = (OK, drop ?n data, w1)"
    "contents (w_dest w1) = contents (w_dest w) @ replicate (padding p) 0 @
       phys (fragment_type first (length data = ?n)) (take ?n data)"
    "w_type_crc w1 = InitTypeCrc b" "offset_at (w_block_offset w1) (?q + 7 + ?n)"
    by (rule fragment_step_writes [OF "1.prems"])
  show ?case
  proof (cases "length data \<le> room ?q")
    case True
    then have n: "?n = length data" by simp
    have "AddRecord_loop ops first a data w = (OK, w1)"
      using w1(1) n by (simp add: AddRecord_loop.simps [of _ _ _ data])
    moreover have "fragments p first data (replicate (padding p) 0 @ phys (fragment_type first True) data) (?q + 7 + length data)"
      by (rule fragments.final [OF True])
    ultimately show ?thesis using w1(2-4) unfolding n by auto
  next
    case False
    then have n: "?n = room ?q" and ne: "drop ?n data \<noteq> []" and neq: "(length data = ?n) = False" by auto
    obtain w' bs p' where r: "AddRecord_loop ops False (a + (length data - length (drop ?n data))) (drop ?n data) w1 = (OK, w')"
      "fragments (?q + 7 + ?n) False (drop ?n data) bs p'"
      "contents (w_dest w') = contents (w_dest w1) @ bs" "w_type_crc w' = InitTypeCrc b" "offset_at (w_block_offset w') p'"
      using "1.IH" [OF w1(1) [symmetric] refl _ "1.prems"(1) w1(3,4)] ne by auto
    have "AddRecord_loop ops first a data w = (OK, w')"
      using w1(1) r(1) ne by (simp add: AddRecord_loop.simps [of _ _ _ data])
    moreover have "fragments p first data (replicate (padding p) 0 @ phys (fragment_type first False) (take ?n data) @ bs) p'"
      using r(2) False n by (intro fragments.more) simp_all
    moreover have "contents (w_dest w') = contents (w_dest w) @
        replicate (padding p) 0 @ phys (fragment_type first False) (take ?n data) @ bs"
      using w1(2) r(3) unfolding neq by simp
    ultimately show ?thesis using r(4,5) by blast
  qed
qed

section \<open>The reader reads the format\<close>

text \<open>The reader stands at position \<open>p\<close> of a file whose bytes from there on are \<open>rest\<close>.\<close>

definition reader_at :: "('f \<Rightarrow> byte list) \<Rightarrow> 'f reader \<Rightarrow> byte list \<Rightarrow> nat \<Rightarrow> bool" where
  "reader_at unread r rest p \<longleftrightarrow>
     r_buffer r @ unread (r_file r) = rest \<and> r_initial_offset r = 0 \<and> \<not> r_resyncing r \<and>
     p mod 32768 + length (r_buffer r) \<le> 32768 \<and>
     (if r_eof r then unread (r_file r) = [] else (p + length (r_buffer r)) mod 32768 = 0)"

lemma decode_length:
  assumes "n < 65536"
  shows "ucast (of_nat n :: byte) OR push_bit 8 (ucast (ucast (drop_bit 8 (of_nat n :: 64 word)) :: byte)) = (of_nat n :: 32 word)"
proof -
  let ?b = "ucast (drop_bit 8 (of_nat n :: 64 word)) :: byte"
  have "unat (drop_bit 8 (of_nat n :: 64 word)) = n div 256"
    unfolding unat_drop_bit_eq using assms by (simp add: unat_of_nat drop_bit_eq_div)
  then have "unat ?b = n div 256" using assms by (simp add: unsigned_ucast_eq take_bit_eq_mod)
  then have b: "ucast ?b = (of_nat (n div 256) :: 32 word)" by (metis of_nat_unat)
  have a: "unat (ucast (of_nat n :: byte) :: 32 word) = n mod 256"
    by (simp add: unsigned_ucast_eq take_bit_eq_mod unat_of_nat)
  have "(n div 256 + 1) * 2 ^ 8 \<le> 2 ^ LENGTH(32)" using assms by simp
  then have "unat (ucast (of_nat n :: byte) OR push_bit 8 (of_nat (n div 256) :: 32 word)) = n mod 256 + n div 256 * 2 ^ 8"
    using unat_or_push [of "ucast (of_nat n :: byte) :: 32 word" 8 "n div 256"] a by simp
  then show ?thesis
    unfolding b using assms by (intro unat_word_inject) (simp add: unat_of_nat)
qed

lemma parse_phys:
  assumes "r_buffer r = phys t data @ rest" "length data < 65536" "t \<in> data_types" "r_initial_offset r = 0"
  shows "parse_physical frag r =
    (t, data, r\<lparr>r_buffer := rest, r_buffer_at := r_buffer_at r + 7 + length data\<rparr>)"
proof -
  let ?n = "length data" and ?h = "r_buffer r"
  let ?len = "ucast (?h ! 4) OR push_bit 8 (ucast (?h ! 5)) :: 32 word"
  have h: "?h ! 4 = of_nat ?n" "?h ! 5 = ucast (drop_bit 8 (of_nat ?n :: 64 word))" "?h ! 6 = ucast t"
    "drop 6 ?h = ucast t # data @ rest" "drop 7 ?h = data @ rest"
    "DecodeFixed32 ?h = Mask (crc32c 0 (ucast t # data))"
    by (simp_all add: assms(1) phys_def nth_append drop_append)
  have l: "?len = of_nat ?n" using decode_length [OF assms(2)] by (simp only: h)
  have u: "unat (of_nat ?n :: 32 word) = ?n" using assms(2) by (simp add: unat_of_nat)
  have ty: "scast (ucast t :: byte) = t" "t \<noteq> 0"
    using assms(3) by (auto simp: data_types_def record_types)
  have sz: "\<not> 7 + ?n > length ?h" by (simp add: assms(1))
  have dr: "drop (7 + ?n) ?h = rest" by (simp add: assms(1))
  show ?thesis
    unfolding parse_physical_def Let_def l u h(3-6) ty(1)
    using sz ty(2) assms(4) dr
    by (simp add: h(5) kHeaderSize_def kZeroType_def Unmask_Mask Value_def Extend_crc32c add.assoc)
qed

text \<open>The end of the file: at most an incomplete header is left.\<close>

lemma ReadPhysical_eof:
  assumes "file_reads ops unread" "length (r_buffer r) < 7" "r_eof r \<or> length (unread (r_file r)) < 7"
  obtains r1 where "ReadPhysicalRecord ops frag r = (kEof, frag, r1)" "r_reports r1 = r_reports r" "r_resyncing r1 = r_resyncing r"
proof -
  have eof: "ReadPhysicalRecord ops frag r2 = (kEof, frag, r2\<lparr>r_buffer := []\<rparr>)" if "length (r_buffer r2) < 7" "r_eof r2" for r2
    using that by (subst ReadPhysicalRecord.simps) (simp add: kHeaderSize_def)
  show ?thesis
  proof (cases "r_eof r")
    case True
    then show ?thesis using that eof assms(2) by simp
  next
    case False
    let ?u = "unread (r_file r)"
    obtain f where f: "Read ops (r_file r) 32768 = (OK, ?u, f)"
      using file_readsD [OF assms(1), of "r_file r" 32768] assms(3) False by (auto simp: take_all)
    let ?r2 = "r\<lparr>r_file := f, r_buffer := ?u, r_buffer_at := r_backing_store r,
        r_end_of_buffer_offset := r_end_of_buffer_offset r + of_nat (length ?u), r_eof := True\<rparr>"
    have "ReadPhysicalRecord ops frag r = ReadPhysicalRecord ops frag ?r2"
      using False f assms(2,3) by (subst ReadPhysicalRecord.simps) (simp add: kHeaderSize_def kBlockSize_def Let_def)
    then show ?thesis using that eof [of ?r2] assms(3) False by simp
  qed
qed

text \<open>A state from which a physical record is parsed, and what the reader does to get there.\<close>

lemma read_block:
  assumes "file_reads ops unread" "length (r_buffer r) < 7" "\<not> r_eof r" "7 \<le> length (unread (r_file r))"
  obtains r1 where "ReadPhysicalRecord ops frag r = parse_physical frag r1"
    "r_buffer r1 = take 32768 (unread (r_file r))" "unread (r_file r1) = drop 32768 (unread (r_file r))"
    "r_eof r1 \<longleftrightarrow> length (unread (r_file r)) < 32768"
    "r_initial_offset r1 = r_initial_offset r" "r_resyncing r1 = r_resyncing r" "r_reports r1 = r_reports r"
proof -
  let ?u = "unread (r_file r)"
  obtain f where f: "Read ops (r_file r) 32768 = (OK, take 32768 ?u, f)" "unread f = drop 32768 ?u"
    by (rule file_readsD [OF assms(1)])
  let ?r1 = "r\<lparr>r_file := f, r_buffer := take 32768 ?u, r_buffer_at := r_backing_store r,
      r_end_of_buffer_offset := r_end_of_buffer_offset r + of_nat (length (take 32768 ?u)), r_eof := length ?u < 32768\<rparr>"
  have parse: "ReadPhysicalRecord ops frag r2 = parse_physical frag r2" if "r_buffer r2 = take 32768 ?u" for r2
  proof -
    have "\<not> length (r_buffer r2) < nat kHeaderSize" using that assms(4) by (simp add: kHeaderSize_def)
    then show ?thesis by (simp add: ReadPhysicalRecord.simps [of _ _ r2])
  qed
  have "ReadPhysicalRecord ops frag r = ReadPhysicalRecord ops frag ?r1"
    using assms(2,3) f(1)
    by (subst ReadPhysicalRecord.simps) (cases r, cases "length ?u < 32768", simp_all add: kHeaderSize_def kBlockSize_def Let_def)
  then show ?thesis using that [of ?r1] parse [of ?r1] f(2) by simp
qed

lemma reach_record:
  assumes "file_reads ops unread" "reader_at unread r (replicate (padding p) 0 @ rest) p" "7 \<le> length rest"
  obtains r1 where "ReadPhysicalRecord ops frag r = parse_physical frag r1"
    "reader_at unread r1 rest (p + padding p)" "r_buffer r1 \<noteq> []" "r_reports r1 = r_reports r"
proof -
  let ?b = "r_buffer r" and ?u = "unread (r_file r)"
  have inv: "?b @ ?u = replicate (padding p) 0 @ rest" "p mod 32768 + length ?b \<le> 32768" "r_initial_offset r = 0" "\<not> r_resyncing r"
    "if r_eof r then ?u = [] else (p + length ?b) mod 32768 = 0"
    using assms(2) unfolding reader_at_def by simp_all
  have m: "p mod 32768 < 32768" by simp
  show ?thesis
  proof (cases "7 \<le> length ?b")
    case True
    then have "padding p = 0" using inv(2) by (simp add: padding_def)
    moreover have "ReadPhysicalRecord ops frag r = parse_physical frag r"
      using True by (subst ReadPhysicalRecord.simps) (simp add: kHeaderSize_def)
    moreover have "?b \<noteq> []" using True by auto
    ultimately show ?thesis using that [of r] assms(2) by simp
  next
    case False
    have len: "length ?b + length ?u = padding p + length rest" using arg_cong [OF inv(1), of length] by simp
    have ne: "\<not> r_eof r" using False len assms(3) inv(5) by auto
    then have pos: "(p + length ?b) mod 32768 = 0" using inv(5) by simp
    have b: "length ?b = padding p"
    proof (cases "p mod 32768 = 0")
      case True
      then have "length ?b mod 32768 = 0" using pos by (simp add: mod_add_eq [symmetric, of p])
      then show ?thesis using True False by (simp add: padding_def)
    next
      case nz: False
      have "(p mod 32768 + length ?b) mod 32768 = 0" using pos by (simp add: mod_add_left_eq)
      then have "p mod 32768 + length ?b = 32768" using nz inv(2) by (cases "p mod 32768 + length ?b < 32768") auto
      then have "length ?b = 32768 - p mod 32768" by linarith
      then show ?thesis using False by (simp add: padding_def)
    qed
    then have u: "?u = rest" using inv(1) by (simp add: append_eq_append_conv)
    obtain r1 where r1: "ReadPhysicalRecord ops frag r = parse_physical frag r1"
      "r_buffer r1 = take 32768 ?u" "unread (r_file r1) = drop 32768 ?u" "r_eof r1 \<longleftrightarrow> length ?u < 32768"
      "r_initial_offset r1 = r_initial_offset r" "r_resyncing r1 = r_resyncing r" "r_reports r1 = r_reports r"
      using read_block [OF assms(1) _ ne] False u assms(3) by (metis not_le)
    have "(p + padding p) mod 32768 = 0" using pos b by simp
    then have "reader_at unread r1 rest (p + padding p)"
      using r1(2-6) u inv(3,4) unfolding reader_at_def by (auto simp: mod_add_left_eq [symmetric, of "p + padding p"])
    moreover have "r_buffer r1 \<noteq> []" using r1(2) u assms(3) by auto
    ultimately show ?thesis using that r1(1,7) by blast
  qed
qed

lemma ReadPhysical_phys:
  assumes "file_reads ops unread" "reader_at unread r (replicate (padding p) 0 @ phys t data @ rest) p"
    and "t \<in> data_types" "length data \<le> room (p + padding p)"
  obtains r' where "ReadPhysicalRecord ops frag r = (t, data, r')"
    "reader_at unread r' rest (p + padding p + 7 + length data)" "r_reports r' = r_reports r"
proof -
  let ?q = "p + padding p" and ?n = "length data"
  obtain r1 where r1: "ReadPhysicalRecord ops frag r = parse_physical frag r1"
    "reader_at unread r1 (phys t data @ rest) ?q" "r_buffer r1 \<noteq> []" "r_reports r1 = r_reports r"
    by (rule reach_record [OF assms(1,2)]) simp_all
  let ?b = "r_buffer r1" and ?u = "unread (r_file r1)"
  have inv: "?b @ ?u = phys t data @ rest" "?q mod 32768 + length ?b \<le> 32768" "r_initial_offset r1 = 0" "\<not> r_resyncing r1"
    "if r_eof r1 then ?u = [] else (?q + length ?b) mod 32768 = 0"
    using r1(2) unfolding reader_at_def by simp_all
  have le: "7 + ?n \<le> length ?b"
  proof (cases "r_eof r1")
    case True
    then show ?thesis using inv(1,5) by simp
  next
    case False
    then have "(?q mod 32768 + length ?b) mod 32768 = 0" using inv(5) by (simp add: mod_add_left_eq)
    then have "?q mod 32768 + length ?b = 32768"
      using inv(2) r1(3) by (cases "?q mod 32768 + length ?b < 32768") auto
    then show ?thesis using room_le [of p] assms(4) by linarith
  qed
  obtain b' where b: "?b = phys t data @ b'" "b' @ ?u = rest"
    using inv(1) le by (metis append_eq_append_conv_if append_eq_conv_conj append_take_drop_id length_phys)
  let ?r' = "r1\<lparr>r_buffer := b', r_buffer_at := r_buffer_at r1 + 7 + ?n\<rparr>"
  have "?n < 65536" using assms(4) by (simp add: room_def)
  then have "ReadPhysicalRecord ops frag r = (t, data, ?r')"
    using r1(1) parse_phys [OF b(1) _ assms(3) inv(3)] by simp
  moreover have lb: "length ?b = 7 + ?n + length b'" using b(1) by simp
  have "?q mod 32768 + (7 + ?n) \<le> 32768" using room_le [of p] assms(4) by linarith
  have "(?q + 7 + ?n) mod 32768 + length b' \<le> 32768"
  proof -
    have "(?q + 7 + ?n) mod 32768 = (?q mod 32768 + (7 + ?n)) mod 32768" by (simp add: mod_add_left_eq add.assoc)
    also have "\<dots> \<le> ?q mod 32768 + (7 + ?n)" by (rule mod_less_eq_dividend)
    finally show ?thesis using inv(2) lb by linarith
  qed
  then have "reader_at unread ?r' rest (?q + 7 + ?n)"
    using inv(3-5) b(2) lb unfolding reader_at_def by (auto simp: add.assoc)
  ultimately show ?thesis using that r1(4) by simp
qed

lemma ReadRecord_step_phys:
  assumes "file_reads ops unread" "reader_at unread r (replicate (padding p) 0 @ phys t data @ rest) p"
    and "t \<in> data_types" "length data \<le> room (p + padding p)"
  obtains r' off where "ReadRecord_step ops l r = ReadRecord_switch t off (l\<lparr>l_fragment := data\<rparr>) r'"
    "reader_at unread r' rest (p + padding p + 7 + length data)" "r_reports r' = r_reports r"
proof -
  obtain r' where r': "ReadPhysicalRecord ops (l_fragment l) r = (t, data, r')"
    "reader_at unread r' rest (p + padding p + 7 + length data)" "r_reports r' = r_reports r"
    by (rule ReadPhysical_phys [OF assms])
  have "\<not> r_resyncing r'" using r'(2) by (simp add: reader_at_def)
  then show ?thesis using that r' by (simp add: ReadRecord_step_def Let_def)
qed

lemma reader_at_last_offset [simp]: "reader_at unread (r\<lparr>r_last_record_offset := x\<rparr>) rest p = reader_at unread r rest p"
  by (simp add: reader_at_def)

text \<open>
  Reading on from position \<open>p\<close>, inside a record or not, the reader returns what it has collected and the rest of the record.
\<close>

lemma ReadRecord_fragments:
  assumes "fragments p first data bs p'" "file_reads ops unread"
  shows "reader_at unread r (bs @ rest) p \<Longrightarrow> length bs \<le> k \<Longrightarrow> l_in_fragmented_record l = (\<not> first) \<Longrightarrow>
    (first \<Longrightarrow> l_scratch l = []) \<Longrightarrow>
    \<exists>r'. ReadRecord_loop k ops l r = Some (Some (l_scratch l @ data), r') \<and> reader_at unread r' rest p' \<and>
      r_reports r' = r_reports r"
  using assms(1)
proof (induction p first data bs p' arbitrary: l r k rule: fragments.induct)
  case (final data p first)
  let ?t = "fragment_type first True"
  obtain k' where k: "k = Suc k'" using final(3) by (cases k) auto
  have at: "reader_at unread r (replicate (padding p) 0 @ phys ?t data @ rest) p" using final(2) by simp
  obtain r1 off where r1: "ReadRecord_step ops l r = ReadRecord_switch ?t off (l\<lparr>l_fragment := data\<rparr>) r1"
    "reader_at unread r1 rest (p + padding p + 7 + length data)" "r_reports r1 = r_reports r"
    by (rule ReadRecord_step_phys [OF assms(2) at fragment_type_data final(1)])
  then show ?case
    using final(4,5) by (auto simp: k fragment_type_def ReadRecord_switch_def Let_def record_types)
next
  case (more n p data bs p' first)
  let ?t = "fragment_type first False"
  obtain k' where k: "k = Suc k'" using more(6) by (cases k) auto
  have n: "length (take n data) = n" using more(2) by simp
  have at: "reader_at unread r (replicate (padding p) 0 @ phys ?t (take n data) @ bs @ rest) p" using more(5) by simp
  obtain r1 off where r1: "ReadRecord_step ops l r = ReadRecord_switch ?t off (l\<lparr>l_fragment := take n data\<rparr>) r1"
    and at1: "reader_at unread r1 (bs @ rest) (p + padding p + 7 + length (take n data))" and rep: "r_reports r1 = r_reports r"
    by (rule ReadRecord_step_phys [OF assms(2) at fragment_type_data]) (use more(1) n in simp)
  obtain l1 where l1: "ReadRecord_switch ?t off (l\<lparr>l_fragment := take n data\<rparr>) r1 = Continue l1 r1"
    "l_in_fragmented_record l1" "l_scratch l1 = l_scratch l @ take n data"
    using more(7,8) by (cases first) (auto simp: fragment_type_def ReadRecord_switch_def Let_def record_types)
  have "length bs \<le> k'" using more(6) k by simp
  then obtain r' where "ReadRecord_loop k' ops l1 r1 = Some (Some (l_scratch l1 @ drop n data), r')"
    "reader_at unread r' rest p'" "r_reports r' = r_reports r1"
    using more.IH [OF at1 [unfolded n]] l1(2) by auto
  then show ?case using r1 rep l1 by (auto simp: k)
qed

text \<open>At the end of the file the reader reports the end, and nothing else.\<close>

lemma ReadRecord_end:
  assumes "file_reads ops unread" "reader_at unread r [] p" "0 < k" "\<not> l_in_fragmented_record l"
  shows "\<exists>r'. ReadRecord_loop k ops l r = Some (None, r') \<and> r_reports r' = r_reports r"
proof -
  obtain k' where k: "k = Suc k'" using assms(3) by (cases k) auto
  have inv: "r_buffer r = []" "unread (r_file r) = []" "\<not> r_resyncing r" using assms(2) by (auto simp: reader_at_def)
  obtain r1 where "ReadPhysicalRecord ops (l_fragment l) r = (kEof, l_fragment l, r1)" "r_reports r1 = r_reports r" "\<not> r_resyncing r1"
    using ReadPhysical_eof [OF assms(1), of r "l_fragment l"] inv by auto
  then show ?thesis by (simp add: k ReadRecord_step_def Let_def ReadRecord_switch_def record_types)
qed

section \<open>A log of many records\<close>

text \<open>Adding records one after the other, and reading records until there is none.\<close>

fun AddRecords :: "'f WritableFile \<Rightarrow> nat \<Rightarrow> slice list \<Rightarrow> 'f writer \<Rightarrow> status \<times> 'f writer" where
  "AddRecords ops a [] w = (OK, w)"
| "AddRecords ops a (data # recs) w =
     (let (s, w1) = AddRecord ops a data w in if is_ok s then AddRecords ops a recs w1 else (s, w1))"

fun ReadRecords :: "nat \<Rightarrow> nat \<Rightarrow> 'f SequentialFile \<Rightarrow> 'f reader \<Rightarrow> (slice list \<times> 'f reader) option" where
  "ReadRecords 0 fuel ops r = None"
| "ReadRecords (Suc n) fuel ops r =
     (case ReadRecord fuel ops r of
        None \<Rightarrow> None
      | Some (None, r1) \<Rightarrow> Some ([], r1)
      | Some (Some data, r1) \<Rightarrow> map_option (\<lambda>(recs, r2). (data # recs, r2)) (ReadRecords n fuel ops r1))"

inductive log_of :: "nat \<Rightarrow> slice list \<Rightarrow> byte list \<Rightarrow> nat \<Rightarrow> bool" where
  Nil: "log_of p [] [] p"
| Cons: "fragments p True data bs p1 \<Longrightarrow> log_of p1 recs bs' p' \<Longrightarrow> log_of p (data # recs) (bs @ bs') p'"

lemma AddRecords_writes:
  assumes "file_appends ops contents"
  shows "w_type_crc w = InitTypeCrc b \<Longrightarrow> offset_at (w_block_offset w) p \<Longrightarrow>
    \<exists>w' bs p'. AddRecords ops a recs w = (OK, w') \<and> log_of p recs bs p' \<and> contents (w_dest w') = contents (w_dest w) @ bs"
proof (induction recs arbitrary: w p)
  case Nil then show ?case by (auto intro: log_of.Nil)
next
  case (Cons data recs)
  obtain w1 bs p1 where w1: "AddRecord ops a data w = (OK, w1)" "fragments p True data bs p1"
    "contents (w_dest w1) = contents (w_dest w) @ bs" "w_type_crc w1 = InitTypeCrc b" "offset_at (w_block_offset w1) p1"
    using AddRecord_loop_writes [OF assms Cons.prems] unfolding AddRecord_def by blast
  from Cons.IH [OF w1(4,5)] obtain w' bs' p' where "AddRecords ops a recs w1 = (OK, w')" "log_of p1 recs bs' p'"
    "contents (w_dest w') = contents (w_dest w1) @ bs'" by blast
  then show ?case using w1 log_of.Cons [OF w1(2)] by auto
qed

lemma ReadRecords_log:
  assumes "log_of p recs bs p'" "file_reads ops unread"
  shows "reader_at unread r bs p \<Longrightarrow> length bs < fuel \<Longrightarrow>
    \<exists>r'. ReadRecords (Suc (length recs)) fuel ops r = Some (recs, r') \<and> r_reports r' = r_reports r"
  using assms(1)
proof (induction arbitrary: r rule: log_of.induct)
  case (Nil p)
  then show ?case
    using ReadRecord_end [OF assms(2) Nil(1), of fuel
        "\<lparr>l_scratch = [], l_in_fragmented_record = False, l_prospective_record_offset = 0, l_fragment = []\<rparr>"]
    by (auto simp: ReadRecord_def reader_at_def)
next
  case (Cons p data bs p1 recs bs' p')
  let ?l = "\<lparr>l_scratch = [], l_in_fragmented_record = False, l_prospective_record_offset = 0, l_fragment = []\<rparr>"
  obtain r1 where r1: "ReadRecord_loop fuel ops ?l r = Some (Some data, r1)" "reader_at unread r1 bs' p1" "r_reports r1 = r_reports r"
    using ReadRecord_fragments [OF Cons.hyps(1) assms(2) Cons.prems(1), of fuel ?l] Cons.prems(2) by auto
  have "r_initial_offset r = 0" using Cons.prems(1) by (simp add: reader_at_def)
  then have "ReadRecord fuel ops r = Some (Some data, r1)" using r1(1) by (simp add: ReadRecord_def)
  moreover obtain r' where "ReadRecords (Suc (length recs)) fuel ops r1 = Some (recs, r')" "r_reports r' = r_reports r1"
    using Cons.IH [OF r1(2)] Cons.prems(2) by auto
  ultimately show ?case using r1(3) by simp
qed

section \<open>The reader returns on every file\<close>

definition remaining :: "('f \<Rightarrow> byte list) \<Rightarrow> 'f reader \<Rightarrow> nat" where
  "remaining unread r = length (r_buffer r) + length (unread (r_file r))"

lemma Report_simps [simp]:
  "r_buffer (ReportDrop n st r) = r_buffer r" "r_file (ReportDrop n st r) = r_file r"
  "r_buffer (ReportCorruption n m r) = r_buffer r" "r_file (ReportCorruption n m r) = r_file r"
  by (simp_all add: ReportCorruption_def ReportDrop_def)

lemma parse_progress:
  assumes "parse_physical frag r = (t, frag', r')" "7 \<le> length (r_buffer r)"
  shows "remaining unread r' < remaining unread r"
proof -
  have "length (r_buffer r') < length (r_buffer r) \<and> r_file r' = r_file r"
    using assms by (auto simp: parse_physical_def Let_def kHeaderSize_def split: if_splits)
  then show ?thesis by (simp add: remaining_def)
qed

lemma physical_progress:
  assumes "file_reads ops unread"
  shows "ReadPhysicalRecord ops frag r = (t, frag', r') \<Longrightarrow> t \<noteq> kEof \<Longrightarrow> remaining unread r' < remaining unread r"
proof (cases "7 \<le> length (r_buffer r)")
  case True
  assume "ReadPhysicalRecord ops frag r = (t, frag', r')"
  moreover have "ReadPhysicalRecord ops frag r = parse_physical frag r"
    using True by (subst ReadPhysicalRecord.simps) (simp add: kHeaderSize_def)
  ultimately show ?thesis using parse_progress True by simp
next
  case False
  assume r: "ReadPhysicalRecord ops frag r = (t, frag', r')" "t \<noteq> kEof"
  then have more: "\<not> r_eof r" "7 \<le> length (unread (r_file r))"
    using ReadPhysical_eof [OF assms, of r frag] False by force+
  obtain r1 where r1: "ReadPhysicalRecord ops frag r = parse_physical frag r1"
    "r_buffer r1 = take 32768 (unread (r_file r))" "unread (r_file r1) = drop 32768 (unread (r_file r))"
    using read_block [OF assms _ more] False by (metis not_le)
  have "remaining unread r1 \<le> remaining unread r" using r1(2,3) by (simp add: remaining_def)
  moreover have "remaining unread r' < remaining unread r1"
    using r(1) r1(1,2) more(2) by (intro parse_progress) auto
  ultimately show ?thesis by simp
qed

lemma ReadRecord_step_progress:
  assumes "file_reads ops unread" "ReadRecord_step ops l r = Continue l' r'"
  shows "remaining unread r' < remaining unread r"
proof -
  obtain t frag r1 where p: "ReadPhysicalRecord ops (l_fragment l) r = (t, frag, r1)" by (metis prod_cases3)
  have same: "remaining unread r' = remaining unread r1" and "t \<noteq> kEof"
    using assms(2) unfolding ReadRecord_step_def p
    by (auto simp: Let_def ReadRecord_switch_def remaining_def record_types split: if_splits)
  then show ?thesis using physical_progress [OF assms(1) p] by simp
qed

lemma ReadRecord_loop_returns:
  assumes "file_reads ops unread"
  shows "remaining unread r < k \<Longrightarrow> \<exists>rec r'. ReadRecord_loop k ops l r = Some (rec, r')"
proof (induction k arbitrary: l r)
  case 0 then show ?case by simp
next
  case (Suc k)
  show ?case
  proof (cases "ReadRecord_step ops l r")
    case (Return rec r') then show ?thesis by simp
  next
    case (Continue l' r')
    then have "remaining unread r' < k" using ReadRecord_step_progress [OF assms Continue] Suc.prems by simp
    then show ?thesis using Suc.IH Continue by simp
  qed
qed

lemma Skip_remaining:
  assumes "file_reads ops unread" "SkipToInitialBlock ops r = (ok, r')"
  shows "ok \<and> remaining unread r' \<le> remaining unread r"
proof -
  have "fst (Skip ops f n) = OK" "length (unread (snd (Skip ops f n))) \<le> length (unread f)" for f n
    using assms(1) by (simp_all add: file_reads_def)
  then show ?thesis
    using assms(2) by (auto simp: SkipToInitialBlock_def Let_def remaining_def split: prod.splits if_splits)
      (metis fst_conv snd_conv is_ok_simps(1))+
qed

lemma ReadRecord_returns_within:
  assumes "file_reads ops unread" "remaining unread r < fuel"
  shows "\<exists>rec r'. ReadRecord fuel ops r = Some (rec, r')"
proof -
  obtain ok r1 where r1: "(if r_last_record_offset r < r_initial_offset r then SkipToInitialBlock ops r else (True, r)) = (ok, r1)"
    by fastforce
  then have "remaining unread r1 < fuel"
    using Skip_remaining [OF assms(1), of r ok r1] assms(2) by (auto split: if_splits)
  then show ?thesis
    using ReadRecord_loop_returns [OF assms(1)] r1 by (auto simp: ReadRecord_def)
qed

lemma new_Reader_at: "unread f = bs \<Longrightarrow> reader_at unread (new_Reader f rep chk store 0) bs 0"
  by (simp add: reader_at_def new_Reader_def)

lemma new_Writer_at_0: "w_type_crc (new_Writer a f) = InitTypeCrc a" "offset_at (w_block_offset (new_Writer a f)) 0"
  by (simp_all add: new_Writer_def offset_at_def)

end
