(* ===== verification/Ldb_Filter.thy ===== *)
theory Ldb_Filter
  imports Ldb_Env
begin

text \<open>
  The filters of the key-value store: the hash function (\<^verbatim>\<open>leveldb-library/util/hash.cc\<close>), the Bloom filter policy (\<^verbatim>\<open>util/bloom.cc\<close>) and the
  filter block of a table (\<^verbatim>\<open>table/filter_block.cc\<close>), which holds one filter for every 2048 bytes of data.

  A policy is an interface of virtual functions, here a record; the locale \<open>filter_policy\<close> is its contract: a filter is
  appended to the destination, and it matches every key it was made from. The Bloom policy meets it, and the filter block
  built with any policy that meets it never denies a key that was added (\<open>filter_block_matches\<close>).

  The number of probes is computed in the code as \<^verbatim>\<open>bits_per_key * 0.69\<close> rounded down. In integers this is
  \<open>69 * bits_per_key div 100\<close>: the product is at least 0.01 away from an integer unless the number is a multiple of
  100, and for those the result is cut to 30 anyway. The number is an \<^verbatim>\<open>int\<close> in the code; a negative one, whose conversion to
  \<^verbatim>\<open>size_t\<close> is undefined, is outside the model.
\<close>

section \<open>Hash\<close>

definition hash_m :: "32 word" where
  "hash_m = 0xC6A4A793"

fun hash_rest :: "32 word \<Rightarrow> byte list \<Rightarrow> 32 word" where
  "hash_rest h (a # b # c # d # data) =
     (let h1 = (h + DecodeFixed32 [a, b, c, d]) * hash_m in hash_rest (h1 XOR drop_bit 16 h1) data)"
| "hash_rest h [a, b, c] =
     (let h1 = (h + push_bit 16 (ucast c) + push_bit 8 (ucast b) + ucast a) * hash_m in h1 XOR drop_bit 24 h1)"
| "hash_rest h [a, b] = (let h1 = (h + push_bit 8 (ucast b) + ucast a) * hash_m in h1 XOR drop_bit 24 h1)"
| "hash_rest h [a] = (let h1 = (h + ucast a) * hash_m in h1 XOR drop_bit 24 h1)"
| "hash_rest h [] = h"

definition Hash :: "byte list \<Rightarrow> 32 word \<Rightarrow> 32 word" where
  "Hash data seed = hash_rest (seed XOR ucast (of_nat (length data) * (ucast hash_m :: 64 word))) data"

section \<open>Bloom filters\<close>

record FilterPolicy =
  CreateFilter :: "slice list \<Rightarrow> byte list \<Rightarrow> byte list"
  KeyMayMatch :: "slice \<Rightarrow> slice \<Rightarrow> bool"

definition BloomHash :: "slice \<Rightarrow> 32 word" where
  "BloomHash key = Hash key 0xBC9F1D34"

definition bloom_k :: "32 word \<Rightarrow> 64 word" where
  "bloom_k bits_per_key =
     (let k = of_nat (69 * unat bits_per_key div 100) :: 64 word;
          k1 = (if k < 1 then 1 else k)
      in if k1 > 30 then 30 else k1)"

definition bloom_delta :: "32 word \<Rightarrow> 32 word" where
  "bloom_delta h = drop_bit 17 h OR push_bit 15 h"

definition bloom_bitpos :: "32 word \<Rightarrow> 64 word \<Rightarrow> nat" where
  "bloom_bitpos h bits = unat (ucast h mod bits)"

fun bloom_set :: "nat \<Rightarrow> 32 word \<Rightarrow> 32 word \<Rightarrow> 64 word \<Rightarrow> byte list \<Rightarrow> byte list" where
  "bloom_set 0 h delta bits array = array"
| "bloom_set (Suc j) h delta bits array =
     (let bitpos = bloom_bitpos h bits
      in bloom_set j (h + delta) delta bits
           (array[bitpos div 8 := array ! (bitpos div 8) OR push_bit (bitpos mod 8) 1]))"

definition bloom_add :: "64 word \<Rightarrow> 64 word \<Rightarrow> slice \<Rightarrow> byte list \<Rightarrow> byte list" where
  "bloom_add k bits key array =
     (let h = BloomHash key in bloom_set (unat k) h (bloom_delta h) bits array)"

definition bloom_bytes :: "32 word \<Rightarrow> nat \<Rightarrow> 64 word" where
  "bloom_bytes bits_per_key n =
     (let bits = of_nat n * ucast bits_per_key :: 64 word;
          bits1 = (if bits < 64 then 64 else bits)
      in (bits1 + 7) div 8)"

definition bloom_CreateFilter :: "32 word \<Rightarrow> slice list \<Rightarrow> byte list \<Rightarrow> byte list" where
  "bloom_CreateFilter bits_per_key keys dst =
     (let bytes = bloom_bytes bits_per_key (length keys); bits = bytes * 8; k = bloom_k bits_per_key in
      dst @ fold (bloom_add k bits) keys (replicate (unat bytes) 0) @ [ucast k])"

fun bloom_probe :: "nat \<Rightarrow> 32 word \<Rightarrow> 32 word \<Rightarrow> 64 word \<Rightarrow> byte list \<Rightarrow> bool" where
  "bloom_probe 0 h delta bits array = True"
| "bloom_probe (Suc j) h delta bits array =
     (let bitpos = bloom_bitpos h bits in
      if array ! (bitpos div 8) AND push_bit (bitpos mod 8) 1 = 0 then False
      else bloom_probe j (h + delta) delta bits array)"

definition bloom_KeyMayMatch :: "slice \<Rightarrow> slice \<Rightarrow> bool" where
  "bloom_KeyMayMatch key bloom_filter =
     (let len = length bloom_filter in
      if len < 2 then False
      else
        let bits = (of_nat len - 1) * 8 :: 64 word; k = scast (bloom_filter ! (len - 1)) :: 64 word in
        if k > 30 then True
        else let h = BloomHash key in bloom_probe (unat k) h (bloom_delta h) bits bloom_filter)"

definition NewBloomFilterPolicy :: "32 word \<Rightarrow> FilterPolicy" where
  "NewBloomFilterPolicy bits_per_key =
     \<lparr>CreateFilter = bloom_CreateFilter bits_per_key, KeyMayMatch = bloom_KeyMayMatch\<rparr>"

section \<open>The contract of a filter policy\<close>

locale filter_policy =
  fixes policy :: FilterPolicy
    and capacity :: nat
  assumes creates: "CreateFilter policy keys dst = dst @ CreateFilter policy keys []"
    and matches: "key \<in> set keys \<Longrightarrow> length keys < capacity \<Longrightarrow> KeyMayMatch policy key (CreateFilter policy keys [])"

section \<open>Bloom filters meet the contract\<close>

text \<open>The probes of a hash value, and an array in which all of them are set.\<close>

definition bloom_bit :: "byte list \<Rightarrow> nat \<Rightarrow> bool" where
  "bloom_bit array pos \<longleftrightarrow> bit (array ! (pos div 8)) (pos mod 8)"

fun probes :: "nat \<Rightarrow> 32 word \<Rightarrow> 32 word \<Rightarrow> 64 word \<Rightarrow> nat list" where
  "probes 0 h delta bits = []"
| "probes (Suc j) h delta bits = bloom_bitpos h bits # probes j (h + delta) delta bits"

lemma probe_iff: "bloom_probe j h d bits array \<longleftrightarrow> (\<forall>pos \<in> set (probes j h d bits). bloom_bit array pos)"
  by (induction j arbitrary: h) (simp_all add: Let_def bloom_bit_def push_bit_of_1 and_exp_eq_0_iff_not_bit)

lemma bloom_bit_update:
  assumes "q div 8 < length array"
  shows "bloom_bit (array[q div 8 := array ! (q div 8) OR 2 ^ (q mod 8)]) pos \<longleftrightarrow> bloom_bit array pos \<or> pos = q"
proof (cases "pos div 8 = q div 8")
  case True
  have "pos = q \<longleftrightarrow> pos mod 8 = q mod 8" using True by (metis div_mult_mod_eq)
  moreover have "pos mod 8 < 8" by simp
  ultimately show ?thesis using True assms by (auto simp: bloom_bit_def bit_simps bit_exp_iff)
next
  case False
  then show ?thesis by (auto simp: bloom_bit_def)
qed

lemma bitpos_less: "0 < bits \<Longrightarrow> bits = of_nat (8 * n) \<Longrightarrow> 8 * n < 2 ^ 64 \<Longrightarrow> bloom_bitpos h bits div 8 < n"
proof -
  assume b: "0 < bits" "bits = of_nat (8 * n)" "8 * n < 2 ^ 64"
  have "unat bits = 8 * n" using b(3) unfolding b(2) by (simp add: unat_of_nat del: of_nat_mult)
  moreover have "bloom_bitpos h bits < unat bits"
    using b(1) by (simp add: bloom_bitpos_def unat_mod unat_gt_0)
  ultimately show ?thesis by (simp add: less_mult_imp_div_less mult.commute)
qed

lemma bloom_set_bits:
  assumes "\<And>h. bloom_bitpos h bits div 8 < n"
  shows "length array = n \<Longrightarrow> length (bloom_set j h d bits array) = n \<and>
    (bloom_bit (bloom_set j h d bits array) pos \<longleftrightarrow> bloom_bit array pos \<or> pos \<in> set (probes j h d bits))"
  using assms by (induction j arbitrary: h array) (auto simp: Let_def bloom_bit_update)

lemma bloom_fold_bits:
  assumes "\<And>h. bloom_bitpos h bits div 8 < n"
  shows "length array = n \<Longrightarrow> length (fold (bloom_add k bits) keys array) = n \<and>
    (bloom_bit array pos \<longrightarrow> bloom_bit (fold (bloom_add k bits) keys array) pos) \<and>
    (\<forall>key \<in> set keys. pos \<in> set (probes (unat k) (BloomHash key) (bloom_delta (BloomHash key)) bits) \<longrightarrow>
       bloom_bit (fold (bloom_add k bits) keys array) pos)"
proof (induction keys arbitrary: array)
  case Nil then show ?case by simp
next
  case (Cons key keys)
  let ?a = "bloom_add k bits key array"
  have "length ?a = n" "bloom_bit ?a pos \<longleftrightarrow>
      bloom_bit array pos \<or> pos \<in> set (probes (unat k) (BloomHash key) (bloom_delta (BloomHash key)) bits)"
    using bloom_set_bits [OF assms Cons.prems] by (simp_all add: bloom_add_def Let_def)
  then show ?case using Cons.IH [of ?a] by auto
qed

lemma bloom_bytes_bounds:
  assumes "n < 2 ^ 31"
  shows "8 \<le> unat (bloom_bytes b n)" "8 * unat (bloom_bytes b n) < 2 ^ 64"
proof -
  have b: "unat (ucast b :: 64 word) < 2 ^ 32" using unat_less_2p(1) [of b] by simp
  have "n * unat (ucast b :: 64 word) \<le> 2 ^ 31 * 2 ^ 32"
    using assms b by (intro mult_le_mono) simp_all
  then have le: "n * unat (ucast b :: 64 word) \<le> 2 ^ 63" by simp
  define bits where "bits = of_nat n * (ucast b :: 64 word)"
  have "unat bits = n * unat (ucast b :: 64 word)"
    using le assms by (simp add: bits_def unat_word_ariths unat_of_nat)
  then have bits: "unat bits \<le> 2 ^ 63" using le by simp
  define bits1 where "bits1 = (if bits < 64 then 64 else bits)"
  have b1: "64 \<le> unat bits1" "unat bits1 \<le> 2 ^ 63" using bits by (auto simp: bits1_def word_less_nat_alt)
  then have "unat (bits1 + 7) = unat bits1 + 7" by (simp add: unat_word_ariths)
  then have "unat (bloom_bytes b n) = (unat bits1 + 7) div 8"
    by (simp add: bloom_bytes_def bits_def [symmetric] bits1_def [symmetric] unat_div)
  then show "8 \<le> unat (bloom_bytes b n)" "8 * unat (bloom_bytes b n) < 2 ^ 64"
    using b1 by simp_all
qed

lemma bloom_k_bounds: "1 \<le> unat (bloom_k b)" "unat (bloom_k b) \<le> 30"
  by (auto simp: bloom_k_def Let_def word_less_nat_alt)

lemma scast_small:
  fixes k :: "64 word"
  assumes "unat k < 128"
  shows "scast (ucast k :: byte) = k"
proof -
  have "k = take_bit 7 k"
    using assms by (intro unat_word_inject) (subst unsigned_take_bit_eq, simp add: take_bit_eq_mod)
  then have b: "bit k n \<Longrightarrow> n < 7" for n by (metis bit_take_bit_iff)
  show ?thesis by (rule bit_word_eqI) (auto simp: bit_simps min_def dest: b)
qed

lemma bloom_no_false_negative:
  assumes "key \<in> set keys" "length keys < 2 ^ 31"
  shows "bloom_KeyMayMatch key (bloom_CreateFilter b keys [])"
proof -
  let ?bytes = "bloom_bytes b (length keys)" and ?k = "bloom_k b"
  let ?n = "unat ?bytes" and ?bits = "bloom_bytes b (length keys) * 8"
  let ?arr = "fold (bloom_add ?k ?bits) keys (replicate ?n 0)"
  note n = bloom_bytes_bounds [OF assms(2), of b]
  have bits: "?bits = of_nat (8 * ?n)" by (simp add: mult.commute)
  have "unat ?bits = 8 * ?n" using n(2) unfolding bits by (simp add: unat_of_nat del: of_nat_mult)
  then have pos: "0 < ?bits" using n(1) by (simp add: word_less_nat_alt)
  note less = bitpos_less [OF pos bits n(2)]
  have len: "length ?arr = ?n" using bloom_fold_bits [OF less] by simp
  have set: "bloom_bit ?arr q" if "q \<in> set (probes (unat ?k) (BloomHash key) (bloom_delta (BloomHash key)) ?bits)" for q
    using bloom_fold_bits [OF less, of "replicate ?n 0" ?k keys q] assms(1) that by auto
  have inside: "q div 8 < ?n" if "q \<in> set (probes j h d ?bits)" for q j h d
    using that less by (induction j arbitrary: h) auto
  let ?f = "?arr @ [ucast ?k]"
  have f: "bloom_CreateFilter b keys [] = ?f" by (simp add: bloom_CreateFilter_def Let_def)
  have "bloom_bit ?f q" if "q \<in> set (probes (unat ?k) (BloomHash key) (bloom_delta (BloomHash key)) ?bits)" for q
    using set [OF that] inside [OF that] len by (simp add: bloom_bit_def nth_append)
  moreover have "(of_nat (length ?f) - 1) * 8 = ?bits" by (simp add: len)
  moreover have "scast (?f ! (length ?f - 1)) = ?k"
    using bloom_k_bounds(2) [of b] by (simp add: nth_append scast_small)
  moreover have "\<not> ?k > 30" using bloom_k_bounds(2) [of b] by (simp add: word_less_nat_alt)
  moreover have "\<not> length ?f < 2" using n(1) len by simp
  ultimately show ?thesis
    unfolding f bloom_KeyMayMatch_def Let_def by (simp only: probe_iff if_False simp_thms) blast
qed

interpretation bloom: filter_policy "NewBloomFilterPolicy b" "2 ^ 31" for b
proof
  show "CreateFilter (NewBloomFilterPolicy b) keys dst = dst @ CreateFilter (NewBloomFilterPolicy b) keys []" for keys dst
    by (simp add: NewBloomFilterPolicy_def bloom_CreateFilter_def Let_def)
  show "KeyMayMatch (NewBloomFilterPolicy b) key (CreateFilter (NewBloomFilterPolicy b) keys [])"
    if "key \<in> set keys" "length keys < 2 ^ 31" for key keys
    using bloom_no_false_negative [OF that] by (simp add: NewBloomFilterPolicy_def)
qed

section \<open>Filter blocks\<close>

definition kFilterBaseLg :: nat where
  "kFilterBaseLg = 11"

definition kFilterBase :: "64 word" where
  "kFilterBase = push_bit kFilterBaseLg 1"

record FilterBlockBuilder =
  fb_keys :: "byte list"
  fb_start :: "nat list"
  fb_result :: "byte list"
  fb_filter_offsets :: "32 word list"

definition new_FilterBlockBuilder :: FilterBlockBuilder where
  "new_FilterBlockBuilder = \<lparr>fb_keys = [], fb_start = [], fb_result = [], fb_filter_offsets = []\<rparr>"

definition AddKey :: "slice \<Rightarrow> FilterBlockBuilder \<Rightarrow> FilterBlockBuilder" where
  "AddKey key b = b\<lparr>fb_start := fb_start b @ [length (fb_keys b)], fb_keys := fb_keys b @ key\<rparr>"

definition GenerateFilter :: "FilterPolicy \<Rightarrow> FilterBlockBuilder \<Rightarrow> FilterBlockBuilder" where
  "GenerateFilter policy b =
     (let num_keys = length (fb_start b);
          offset = of_nat (length (fb_result b)) in
      if num_keys = 0 then b\<lparr>fb_filter_offsets := fb_filter_offsets b @ [offset]\<rparr>
      else
        let start = fb_start b @ [length (fb_keys b)];
            tmp_keys = map (\<lambda>i. take (start ! (i + 1) - start ! i) (drop (start ! i) (fb_keys b))) [0..<num_keys]
        in b\<lparr>fb_filter_offsets := fb_filter_offsets b @ [offset],
             fb_result := CreateFilter policy tmp_keys (fb_result b), fb_keys := [], fb_start := []\<rparr>)"

lemma length_offsets_Generate [simp]:
  "length (fb_filter_offsets (GenerateFilter policy b)) = Suc (length (fb_filter_offsets b))"
  by (simp add: GenerateFilter_def Let_def)

function StartBlock_loop :: "FilterPolicy \<Rightarrow> 64 word \<Rightarrow> FilterBlockBuilder \<Rightarrow> FilterBlockBuilder" where
  "StartBlock_loop policy filter_index b =
     (if unat filter_index > length (fb_filter_offsets b)
      then StartBlock_loop policy filter_index (GenerateFilter policy b) else b)"
  by pat_completeness auto

termination StartBlock_loop
  by (relation "measure (\<lambda>(_, i, b). unat i - length (fb_filter_offsets b))") auto

declare StartBlock_loop.simps [simp del]

definition StartBlock :: "FilterPolicy \<Rightarrow> 64 word \<Rightarrow> FilterBlockBuilder \<Rightarrow> FilterBlockBuilder" where
  "StartBlock policy block_offset b = StartBlock_loop policy (block_offset div kFilterBase) b"

definition Finish :: "FilterPolicy \<Rightarrow> FilterBlockBuilder \<Rightarrow> byte list" where
  "Finish policy b =
     (let b1 = (if fb_start b \<noteq> [] then GenerateFilter policy b else b);
          array_offset = of_nat (length (fb_result b1)) :: 32 word;
          result = foldl PutFixed32 (fb_result b1) (fb_filter_offsets b1)
      in PutFixed32 result array_offset @ [of_nat kFilterBaseLg])"

text \<open>The reader of a filter block: \<open>fr_data\<close> is empty, and \<open>fr_num\<close> is 0, when the contents are malformed.\<close>

record FilterBlockReader =
  fr_data :: "byte list"
  fr_offset :: nat
  fr_num :: nat
  fr_base_lg :: "64 word"

definition new_FilterBlockReader :: "slice \<Rightarrow> FilterBlockReader" where
  "new_FilterBlockReader contents =
     (let n = length contents; none = \<lparr>fr_data = [], fr_offset = 0, fr_num = 0, fr_base_lg = 0\<rparr> in
      if n < 5 then none
      else
        let base_lg = scast (contents ! (n - 1)); last_word = unat (DecodeFixed32 (drop (n - 5) contents)) in
        if last_word > n - 5 then none\<lparr>fr_base_lg := base_lg\<rparr>
        else \<lparr>fr_data = contents, fr_offset = last_word, fr_num = (n - 5 - last_word) div 4, fr_base_lg = base_lg\<rparr>)"

text \<open>\<open>None\<close> is a shift by 64 bits or more, which is undefined behaviour.\<close>

definition FilterBlockReader_KeyMayMatch :: "FilterPolicy \<Rightarrow> FilterBlockReader \<Rightarrow> 64 word \<Rightarrow> slice \<Rightarrow> bool option" where
  "FilterBlockReader_KeyMayMatch policy fr block_offset key =
     (if fr_base_lg fr \<ge> 64 then None
      else
        let index = unat (drop_bit (unat (fr_base_lg fr)) block_offset) in
        Some
          (if index < fr_num fr then
             let start = unat (DecodeFixed32 (drop (fr_offset fr + index * 4) (fr_data fr)));
                 limit = unat (DecodeFixed32 (drop (fr_offset fr + index * 4 + 4) (fr_data fr))) in
             if start \<le> limit \<and> limit \<le> fr_offset fr
             then KeyMayMatch policy key (take (limit - start) (drop start (fr_data fr)))
             else if start = limit then False
             else True
           else True))"

section \<open>The filter block never denies a key\<close>

text \<open>
  The abstract state of a builder: the keys of each filter that is finished, and the keys of the current one. The
  filter of no keys is empty.
\<close>

definition filter_of :: "FilterPolicy \<Rightarrow> slice list \<Rightarrow> byte list" where
  "filter_of policy keys = (if keys = [] then [] else CreateFilter policy keys [])"

definition starts :: "'a list list \<Rightarrow> nat list" where
  "starts xs = map (\<lambda>i. length (concat (take i xs))) [0..<length xs]"

definition represents :: "FilterPolicy \<Rightarrow> FilterBlockBuilder \<Rightarrow> slice list list \<Rightarrow> slice list \<Rightarrow> bool" where
  "represents policy b groups pending \<longleftrightarrow>
     fb_result b = concat (map (filter_of policy) groups) \<and>
     fb_filter_offsets b = map of_nat (starts (map (filter_of policy) groups)) \<and>
     fb_keys b = concat pending \<and> fb_start b = starts pending"

definition located :: "slice list list \<Rightarrow> slice list \<Rightarrow> nat \<Rightarrow> slice \<Rightarrow> bool" where
  "located groups pending i key \<longleftrightarrow>
     (i < length groups \<and> key \<in> set (groups ! i)) \<or> (i = length groups \<and> key \<in> set pending)"

fun add_blocks :: "FilterPolicy \<Rightarrow> (64 word \<times> slice list) list \<Rightarrow> FilterBlockBuilder \<Rightarrow> FilterBlockBuilder" where
  "add_blocks policy [] b = b"
| "add_blocks policy ((offset, keys) # blocks) b = add_blocks policy blocks (fold AddKey keys (StartBlock policy offset b))"

lemma starts_snoc: "starts (xs @ [x]) = starts xs @ [length (concat xs)]"
  by (simp add: starts_def)

lemma starts_nth: "i < length xs \<Longrightarrow> starts xs ! i = length (concat (take i xs))"
  by (simp add: starts_def)

lemma length_starts [simp]: "length (starts xs) = length xs"
  by (simp add: starts_def)

lemma unflatten:
  "map (\<lambda>i. take ((starts xs @ [length (concat xs)]) ! (i + 1) - (starts xs @ [length (concat xs)]) ! i)
      (drop ((starts xs @ [length (concat xs)]) ! i) (concat xs))) [0..<length xs] = xs"
proof (rule nth_equalityI)
  fix i assume "i < length (map (\<lambda>i. take ((starts xs @ [length (concat xs)]) ! (i + 1) - (starts xs @ [length (concat xs)]) ! i)
      (drop ((starts xs @ [length (concat xs)]) ! i) (concat xs))) [0..<length xs])"
  then have i: "i < length xs" by simp
  let ?s = "starts xs @ [length (concat xs)]"
  have "?s ! (i + 1) = length (concat (take (Suc i) xs))"
    using i by (cases "Suc i < length xs") (simp_all add: nth_append starts_nth)
  moreover have "?s ! i = length (concat (take i xs))" using i by (simp add: nth_append starts_nth)
  ultimately show "map (\<lambda>i. take (?s ! (i + 1) - ?s ! i) (drop (?s ! i) (concat xs))) [0..<length xs] ! i = xs ! i"
    using i concat_slice [OF i, of "[]"] by (simp add: length_concat_take_Suc)
qed simp

lemma represents_new: "represents policy new_FilterBlockBuilder [] []"
  by (simp add: represents_def new_FilterBlockBuilder_def starts_def)

lemma represents_AddKey: "represents policy b gs pend \<Longrightarrow> represents policy (AddKey key b) gs (pend @ [key])"
  by (simp add: represents_def AddKey_def starts_snoc)

lemma represents_AddKeys: "represents policy b gs pend \<Longrightarrow> represents policy (fold AddKey keys b) gs (pend @ keys)"
  by (induction keys arbitrary: b pend) (simp_all, metis append.assoc append_Cons append_Nil represents_AddKey)

lemma located_gen: "located gs pend i key \<Longrightarrow> located (gs @ [pend]) [] i key"
  by (auto simp: located_def nth_append)

context filter_policy
begin

lemma represents_Generate:
  assumes "represents policy b gs pend"
  shows "represents policy (GenerateFilter policy b) (gs @ [pend]) []"
proof (cases "pend = []")
  case True
  then show ?thesis
    using assms by (simp add: represents_def GenerateFilter_def starts_snoc starts_def [of "[]"] filter_of_def)
next
  case False
  then have "fb_start b \<noteq> []" using assms by (metis length_0_conv length_starts represents_def)
  moreover have "CreateFilter policy pend (fb_result b) = fb_result b @ filter_of policy pend"
    using False creates [of pend "fb_result b"] by (simp add: filter_of_def)
  ultimately show ?thesis
    using assms unflatten [of pend]
    by (simp add: represents_def GenerateFilter_def Let_def starts_snoc) (simp add: starts_def)
qed

lemma represents_StartBlock:
  "represents policy b gs pend \<Longrightarrow>
   \<exists>gs' pend'. represents policy (StartBlock_loop policy idx b) gs' pend' \<and>
     length gs' = max (length gs) (unat idx) \<and> (\<forall>i key. located gs pend i key \<longrightarrow> located gs' pend' i key) \<and>
     length (concat gs') + length pend' = length (concat gs) + length pend"
proof (induction "unat idx - length gs" arbitrary: b gs pend)
  case 0
  then have "StartBlock_loop policy idx b = b"
    by (subst StartBlock_loop.simps) (simp add: represents_def)
  then show ?case using 0 by (intro exI [of _ gs] exI [of _ pend]) simp
next
  case (Suc n)
  have "StartBlock_loop policy idx b = StartBlock_loop policy idx (GenerateFilter policy b)"
    using Suc by (subst StartBlock_loop.simps) (simp add: represents_def)
  moreover have "n = unat idx - length (gs @ [pend])" using Suc.hyps(2) by simp
  from Suc.hyps(1) [OF this represents_Generate [OF Suc.prems]]
  obtain gs' pend' where "represents policy (StartBlock_loop policy idx (GenerateFilter policy b)) gs' pend'"
    "length gs' = max (length (gs @ [pend])) (unat idx)" "\<forall>i key. located (gs @ [pend]) [] i key \<longrightarrow> located gs' pend' i key"
    "length (concat gs') + length pend' = length (concat (gs @ [pend])) + 0" by auto
  ultimately show ?case
    using Suc.hyps(2) by (intro exI [of _ gs'] exI [of _ pend']) (auto dest: located_gen)
qed

lemma add_blocks_located:
  "represents policy b gs pend \<Longrightarrow> sorted (map fst blocks) \<Longrightarrow> (\<forall>(off, _) \<in> set blocks. length gs \<le> unat (off div kFilterBase)) \<Longrightarrow>
   \<exists>gs' pend'. represents policy (add_blocks policy blocks b) gs' pend' \<and>
     (\<forall>i key. located gs pend i key \<longrightarrow> located gs' pend' i key) \<and>
     (\<forall>(off, keys) \<in> set blocks. \<forall>key \<in> set keys. located gs' pend' (unat (off div kFilterBase)) key) \<and>
     length (concat gs') + length pend' = length (concat gs) + length pend + length (concat (map snd blocks))"
proof (induction blocks arbitrary: b gs pend)
  case Nil
  then show ?case by (intro exI [of _ gs] exI [of _ pend]) simp
next
  case (Cons block blocks)
  obtain off keys where blk: "block = (off, keys)" by (cases block)
  let ?idx = "off div kFilterBase"
  obtain gs1 pend1 where 1: "represents policy (StartBlock policy off b) gs1 pend1" "length gs1 = unat ?idx"
    "\<forall>i key. located gs pend i key \<longrightarrow> located gs1 pend1 i key"
    "length (concat gs1) + length pend1 = length (concat gs) + length pend"
    using represents_StartBlock [OF Cons.prems(1), of ?idx] Cons.prems(3) by (auto simp: blk StartBlock_def)
  let ?b2 = "fold AddKey keys (StartBlock policy off b)"
  have 2: "represents policy ?b2 gs1 (pend1 @ keys)" by (rule represents_AddKeys [OF 1(1)])
  have mono: "unat ?idx \<le> unat (off' div kFilterBase)" if "(off', keys') \<in> set blocks" for off' keys'
  proof -
    have "off \<le> off'" using that Cons.prems(2) by (auto simp: blk)
    then show ?thesis by (simp add: unat_div word_le_nat_alt div_le_mono)
  qed
  have pre: "\<forall>(off', _) \<in> set blocks. length gs1 \<le> unat (off' div kFilterBase)" using mono 1(2) by auto
  have so: "sorted (map fst blocks)" using Cons.prems(2) by simp
  obtain gs' pend' where 3: "represents policy (add_blocks policy blocks ?b2) gs' pend'"
    "\<forall>i key. located gs1 (pend1 @ keys) i key \<longrightarrow> located gs' pend' i key"
    "\<forall>(off, keys) \<in> set blocks. \<forall>key \<in> set keys. located gs' pend' (unat (off div kFilterBase)) key"
    "length (concat gs') + length pend' = length (concat gs1) + length (pend1 @ keys) + length (concat (map snd blocks))"
    using Cons.IH [OF 2 so pre] by blast
  have "located gs1 (pend1 @ keys) i key" if "located gs pend i key" for i key
    using 1(3) that by (auto simp: located_def)
  moreover have "located gs1 (pend1 @ keys) (unat ?idx) key" if "key \<in> set keys" for key
    using that by (simp add: located_def 1(2))
  ultimately show ?case
    using 3 1(4) by (intro exI [of _ gs'] exI [of _ pend']) (auto simp: blk)
qed

end

text \<open>A finished block: the filters, their offsets and the end of the last, and the parameter.\<close>

definition block_of :: "byte list list \<Rightarrow> byte list" where
  "block_of filters =
     concat filters @ concat (map EncodeFixed32 (map of_nat (starts filters @ [length (concat filters)]))) @ [11]"

lemma shift_by_base: "drop_bit 11 off = off div kFilterBase" for off :: "64 word"
  by (simp add: kFilterBase_def kFilterBaseLg_def drop_bit_eq_div)

lemma reader_of_block:
  assumes "length (concat filters) < 2 ^ 32" "i < length filters" "unat (off div kFilterBase) = i"
  shows "FilterBlockReader_KeyMayMatch policy (new_FilterBlockReader (block_of filters)) off key =
     Some (KeyMayMatch policy key (filters ! i))"
proof -
  let ?R = "concat filters" and ?m = "length filters"
  let ?W = "map of_nat (starts filters @ [length ?R]) :: 32 word list" and ?c = "block_of filters"
  let ?A = "concat (map EncodeFixed32 ?W)"
  have c: "?c = ?R @ ?A @ [11]" by (simp add: block_of_def)
  have W: "length ?W = Suc ?m" by simp
  have n: "length ?c = length ?R + 4 * ?m + 5" by (simp only: c length_append length_fixed32_array W) simp
  have at: "DecodeFixed32 (drop (length ?R + j * 4) ?c) = of_nat (length (concat (take j filters)))" if "j \<le> ?m" for j
  proof -
    have "DecodeFixed32 (drop (length ?R + j * 4) ?c) = ?W ! j"
      using fixed32_array [of j ?W "[11]"] W that by (simp add: c drop_append)
    also have "\<dots> = of_nat (length (concat (take j filters)))"
      using that by (cases "j = ?m") (simp_all add: nth_append starts_nth)
    finally show ?thesis .
  qed
  have u: "unat (of_nat (length (concat (take j filters))) :: 32 word) = length (concat (take j filters))" if "j \<le> ?m" for j
  proof -
    have "length (concat (take j filters)) \<le> length ?R" by (metis append_take_drop_id concat_append le_add1 length_append)
    then show ?thesis using assms(1) by (simp add: unat_of_nat)
  qed
  have "drop (length ?c - 5) ?c = drop (length ?R + ?m * 4) ?c" by (simp add: n mult.commute)
  then have last: "unat (DecodeFixed32 (drop (length ?c - 5) ?c)) = length ?R"
    using at [of ?m] u [of ?m] by simp
  have lg: "?c ! (length ?c - 1) = 11" by (simp add: c nth_append)
  have "scast (?c ! (length ?c - 1)) = (11 :: 64 word)" unfolding lg by simp
  then have fr: "new_FilterBlockReader ?c = \<lparr>fr_data = ?c, fr_offset = length ?R, fr_num = ?m, fr_base_lg = 11\<rparr>"
    using n last by (simp add: new_FilterBlockReader_def Let_def)
  let ?s = "length (concat (take i filters))"
  have lim: "length (concat (take (Suc i) filters)) = ?s + length (filters ! i)"
    by (rule length_concat_take_Suc [OF assms(2)])
  have "length (concat (take (Suc i) filters)) \<le> length ?R" by (metis append_take_drop_id concat_append le_add1 length_append)
  moreover have "DecodeFixed32 (drop (length ?R + i * 4 + 4) ?c) = of_nat (length (concat (take (Suc i) filters)))"
    using at [of "Suc i"] assms(2) by (simp add: ac_simps)
  moreover have "take (length (filters ! i)) (drop ?s ?c) = filters ! i"
    using concat_slice [OF assms(2)] by (simp only: c)
  ultimately show ?thesis
    using at [of i] u [of i] u [of "Suc i"] assms(2,3) lim
    by (simp add: FilterBlockReader_KeyMayMatch_def fr shift_by_base Let_def)
qed

context filter_policy
begin

lemma Finish_block:
  assumes "represents policy b gs pend"
  shows "Finish policy b = block_of (map (filter_of policy) (if pend = [] then gs else gs @ [pend]))"
proof -
  have *: "PutFixed32 (foldl PutFixed32 (fb_result b1) (fb_filter_offsets b1)) (of_nat (length (fb_result b1))) @ [of_nat kFilterBaseLg] =
      block_of (map (filter_of policy) gs1)" if "represents policy b1 gs1 []" for b1 gs1
    using that by (simp add: represents_def block_of_def foldl_PutFixed32 PutFixed32_def kFilterBaseLg_def)
  show ?thesis
  proof (cases "pend = []")
    case True
    then show ?thesis using assms * [of b gs] by (simp add: Finish_def Let_def represents_def starts_def)
  next
    case False
    then have "fb_start b \<noteq> []" using assms by (metis length_0_conv length_starts represents_def)
    then show ?thesis using False * [OF represents_Generate [OF assms]] by (simp add: Finish_def Let_def)
  qed
qed

lemma filter_block_matches:
  assumes "sorted (map fst blocks)" "length (concat (map snd blocks)) < capacity"
    and "length (Finish policy (add_blocks policy blocks new_FilterBlockBuilder)) < 2 ^ 32"
    and "(off, keys) \<in> set blocks" "key \<in> set keys"
  shows "FilterBlockReader_KeyMayMatch policy
     (new_FilterBlockReader (Finish policy (add_blocks policy blocks new_FilterBlockBuilder))) off key = Some True"
proof -
  let ?b = "add_blocks policy blocks new_FilterBlockBuilder" and ?i = "unat (off div kFilterBase)"
  obtain gs pend where r: "represents policy ?b gs pend" "located gs pend ?i key"
    "length (concat gs) + length pend = length (concat (map snd blocks))"
    using add_blocks_located [OF represents_new assms(1)] assms(4,5) by fastforce
  define G where "G = (if pend = [] then gs else gs @ [pend])"
  have i: "?i < length G" "key \<in> set (G ! ?i)"
    using r(2) by (auto simp: located_def G_def nth_append)
  have fin: "Finish policy ?b = block_of (map (filter_of policy) G)"
    using Finish_block [OF r(1)] by (simp add: G_def)
  have "length (G ! ?i) \<le> length (concat G)"
    using i(1) by (auto simp: length_concat intro!: member_le_sum_list)
  also have "\<dots> = length (concat gs) + length pend" by (simp add: G_def)
  finally have cap: "length (G ! ?i) < capacity" using r(3) assms(2) by simp
  have "length (concat (map (filter_of policy) G)) < 2 ^ 32" using assms(3) unfolding fin block_of_def by simp
  from reader_of_block [OF this, of ?i off policy key] i
  have "FilterBlockReader_KeyMayMatch policy (new_FilterBlockReader (Finish policy ?b)) off key =
      Some (KeyMayMatch policy key (filter_of policy (G ! ?i)))" by (simp add: fin)
  moreover have "filter_of policy (G ! ?i) = CreateFilter policy (G ! ?i) []"
    using i(2) by (auto simp: filter_of_def)
  ultimately show ?thesis using matches [OF i(2) cap] by simp
qed

end

text \<open>The finished block of blocks with their keys, with Bloom filters.\<close>

definition bloom_block :: "32 word \<Rightarrow> (64 word \<times> slice list) list \<Rightarrow> byte list" where
  "bloom_block b blocks =
     Finish (NewBloomFilterPolicy b) (add_blocks (NewBloomFilterPolicy b) blocks new_FilterBlockBuilder)"

end
