(* ===== verification/Ldb_Key.thy ===== *)
theory Ldb_Key
  imports Ldb_Filter
begin

text \<open>
  The keys of the key-value store: the order of byte strings (\<^verbatim>\<open>leveldb-library/include/leveldb/slice.h\<close>, \<^verbatim>\<open>util/comparator.cc\<close>) and internal
  keys, a user key with a sequence number and a type (\<^verbatim>\<open>db/dbformat.h\<close>, \<^verbatim>\<open>db/dbformat.cc\<close>).

  A comparator is an interface of virtual functions, here a record; the locale \<open>comparator\<close> is its contract, a total order with
  separators and successors. The bytewise comparator meets it, and the comparator of internal keys meets it over
  every user comparator that does (a \<open>sublocale\<close>). The contract has one law that the documentation in
  \<^verbatim>\<open>leveldb/comparator.h\<close> does not state and the internal comparator needs: \<open>separator_same\<close>, that
  \<open>FindShortestSeparator\<close> leaves a string alone that is not below the limit. The filter policy of internal keys likewise meets the
  contract of the policy it wraps.
\<close>

section \<open>Comparators\<close>

record Comparator =
  Compare :: "slice \<Rightarrow> slice \<Rightarrow> int"
  FindShortestSeparator :: "slice \<Rightarrow> slice \<Rightarrow> slice"
  FindShortSuccessor :: "slice \<Rightarrow> slice"

text \<open>The sign of \<^verbatim>\<open>memcmp\<close> on two strings of the same length; the standard promises no more than the sign.\<close>

fun memcmp :: "byte list \<Rightarrow> byte list \<Rightarrow> int" where
  "memcmp (a # as) (b # bs) = (if a < b then - 1 else if b < a then 1 else memcmp as bs)"
| "memcmp _ _ = 0"

definition Slice_compare :: "slice \<Rightarrow> slice \<Rightarrow> int" where
  "Slice_compare a b =
     (let min_len = (if length a < length b then length a else length b);
          r = memcmp (take min_len a) (take min_len b) in
      if r = 0 then if length a < length b then - 1 else if length a > length b then 1 else r else r)"

text \<open>The loop that finds the length of the common prefix, from \<open>diff_index\<close> on.\<close>

function diff_loop :: "nat \<Rightarrow> slice \<Rightarrow> slice \<Rightarrow> nat" where
  "diff_loop diff_index start limit =
     (if diff_index < min (length start) (length limit) \<and> start ! diff_index = limit ! diff_index
      then diff_loop (Suc diff_index) start limit else diff_index)"
  by pat_completeness auto

termination diff_loop
  by (relation "measure (\<lambda>(i, start, limit). length start - i)") auto

declare diff_loop.simps [simp del]

definition bytewise_separator :: "slice \<Rightarrow> slice \<Rightarrow> slice" where
  "bytewise_separator start limit =
     (let min_length = min (length start) (length limit); diff_index = diff_loop 0 start limit in
      if diff_index \<ge> min_length then start
      else
        let diff_byte = start ! diff_index in
        if diff_byte < 0xFF \<and> unat diff_byte + 1 < unat (limit ! diff_index)
        then take (diff_index + 1) (start[diff_index := start ! diff_index + 1])
        else start)"

function successor_loop :: "nat \<Rightarrow> slice \<Rightarrow> slice" where
  "successor_loop i key =
     (if i < length key then
        if key ! i \<noteq> 0xFF then take (i + 1) (key[i := key ! i + 1]) else successor_loop (Suc i) key
      else key)"
  by pat_completeness auto

termination successor_loop
  by (relation "measure (\<lambda>(i, key). length key - i)") auto

declare successor_loop.simps [simp del]

definition BytewiseComparator :: Comparator where
  "BytewiseComparator =
     \<lparr>Compare = Slice_compare, FindShortestSeparator = bytewise_separator, FindShortSuccessor = successor_loop 0\<rparr>"

section \<open>Internal keys\<close>

datatype ValueType = kTypeDeletion | kTypeValue

fun type_code :: "ValueType \<Rightarrow> 64 word" where
  "type_code kTypeDeletion = 0"
| "type_code kTypeValue = 1"

definition kValueTypeForSeek :: ValueType where
  "kValueTypeForSeek = kTypeValue"

definition kMaxSequenceNumber :: "64 word" where
  "kMaxSequenceNumber = push_bit 56 1 - 1"

record ParsedInternalKey =
  pk_user_key :: slice
  pk_sequence :: "64 word"
  pk_type :: ValueType

definition PackSequenceAndType :: "64 word \<Rightarrow> ValueType \<Rightarrow> 64 word" where
  "PackSequenceAndType seq t = push_bit 8 seq OR type_code t"

definition AppendInternalKey :: "byte list \<Rightarrow> ParsedInternalKey \<Rightarrow> byte list" where
  "AppendInternalKey result key =
     PutFixed64 (result @ pk_user_key key) (PackSequenceAndType (pk_sequence key) (pk_type key))"

definition InternalKeyEncodingLength :: "ParsedInternalKey \<Rightarrow> nat" where
  "InternalKeyEncodingLength key = length (pk_user_key key) + 8"

definition ExtractUserKey :: "slice \<Rightarrow> slice" where
  "ExtractUserKey internal_key = take (length internal_key - 8) internal_key"

text \<open>The number in the last eight bytes of an internal key.\<close>

definition key_number :: "slice \<Rightarrow> 64 word" where
  "key_number k = DecodeFixed64 (drop (length k - 8) k)"

definition ParseInternalKey :: "slice \<Rightarrow> ParsedInternalKey option" where
  "ParseInternalKey internal_key =
     (let n = length internal_key in
      if n < 8 then None
      else
        let num = key_number internal_key; c = ucast (num AND 0xFF) :: byte in
        if c \<le> 1 then
          Some \<lparr>pk_user_key = take (n - 8) internal_key, pk_sequence = drop_bit 8 num,
                pk_type = (if c = 0 then kTypeDeletion else kTypeValue)\<rparr>
        else None)"

definition internal_Compare :: "Comparator \<Rightarrow> slice \<Rightarrow> slice \<Rightarrow> int" where
  "internal_Compare user akey bkey =
     (let r = Compare user (ExtractUserKey akey) (ExtractUserKey bkey) in
      if r = 0 then
        let anum = key_number akey; bnum = key_number bkey in
        if anum > bnum then - 1 else if anum < bnum then 1 else r
      else r)"

definition earliest_number :: "64 word" where
  "earliest_number = PackSequenceAndType kMaxSequenceNumber kValueTypeForSeek"

definition internal_separator :: "Comparator \<Rightarrow> slice \<Rightarrow> slice \<Rightarrow> slice" where
  "internal_separator user start limit =
     (let user_start = ExtractUserKey start; user_limit = ExtractUserKey limit;
          tmp = FindShortestSeparator user user_start user_limit in
      if length tmp < length user_start \<and> Compare user user_start tmp < 0 then PutFixed64 tmp earliest_number else start)"

definition internal_successor :: "Comparator \<Rightarrow> slice \<Rightarrow> slice" where
  "internal_successor user key =
     (let user_key = ExtractUserKey key; tmp = FindShortSuccessor user user_key in
      if length tmp < length user_key \<and> Compare user user_key tmp < 0 then PutFixed64 tmp earliest_number else key)"

definition InternalKeyComparator :: "Comparator \<Rightarrow> Comparator" where
  "InternalKeyComparator user =
     \<lparr>Compare = internal_Compare user, FindShortestSeparator = internal_separator user,
      FindShortSuccessor = internal_successor user\<rparr>"

definition InternalFilterPolicy :: "FilterPolicy \<Rightarrow> FilterPolicy" where
  "InternalFilterPolicy user =
     \<lparr>CreateFilter = \<lambda>keys. CreateFilter user (map ExtractUserKey keys),
      KeyMayMatch = \<lambda>key. KeyMayMatch user (ExtractUserKey key)\<rparr>"

text \<open>A lookup key is its array of characters and the offset \<^verbatim>\<open>kstart_\<close> of the internal key in it.\<close>

record LookupKey =
  lk_start :: "byte list"
  lk_kstart :: nat

definition new_LookupKey :: "slice \<Rightarrow> 64 word \<Rightarrow> LookupKey" where
  "new_LookupKey user_key s =
     (let prefix = EncodeVarint32 (of_nat (length user_key + 8)) in
      \<lparr>lk_start = prefix @ user_key @ EncodeFixed64 (PackSequenceAndType s kValueTypeForSeek), lk_kstart = length prefix\<rparr>)"

definition memtable_key :: "LookupKey \<Rightarrow> slice" where
  "memtable_key k = lk_start k"

definition lookup_internal_key :: "LookupKey \<Rightarrow> slice" where
  "lookup_internal_key k = drop (lk_kstart k) (lk_start k)"

definition lookup_user_key :: "LookupKey \<Rightarrow> slice" where
  "lookup_user_key k = take (length (lk_start k) - lk_kstart k - 8) (drop (lk_kstart k) (lk_start k))"

section \<open>The contract of a comparator\<close>

locale comparator =
  fixes cmp :: Comparator
    and valid :: "slice \<Rightarrow> bool"
  assumes compare_eq: "valid a \<Longrightarrow> valid b \<Longrightarrow> Compare cmp a b = 0 \<longleftrightarrow> a = b"
    and compare_sym: "valid a \<Longrightarrow> valid b \<Longrightarrow> Compare cmp a b < 0 \<longleftrightarrow> Compare cmp b a > 0"
    and compare_trans: "valid a \<Longrightarrow> valid b \<Longrightarrow> valid c \<Longrightarrow> Compare cmp a b < 0 \<Longrightarrow> Compare cmp b c < 0 \<Longrightarrow> Compare cmp a c < 0"
    and separator_valid: "valid a \<Longrightarrow> valid b \<Longrightarrow> valid (FindShortestSeparator cmp a b)"
    and separator_between: "valid a \<Longrightarrow> valid b \<Longrightarrow> Compare cmp a b < 0 \<Longrightarrow>
      Compare cmp a (FindShortestSeparator cmp a b) \<le> 0 \<and> Compare cmp (FindShortestSeparator cmp a b) b < 0"
    and separator_same: "valid a \<Longrightarrow> valid b \<Longrightarrow> Compare cmp a b \<ge> 0 \<Longrightarrow> FindShortestSeparator cmp a b = a"
    and successor_valid: "valid a \<Longrightarrow> valid (FindShortSuccessor cmp a)"
    and successor_above: "valid a \<Longrightarrow> Compare cmp a (FindShortSuccessor cmp a) \<le> 0"
begin

lemma compare_refl: "valid a \<Longrightarrow> Compare cmp a a = 0"
  by (simp add: compare_eq)

lemma compare_le_less_trans:
  "valid a \<Longrightarrow> valid b \<Longrightarrow> valid c \<Longrightarrow> Compare cmp a b \<le> 0 \<Longrightarrow> Compare cmp b c < 0 \<Longrightarrow> Compare cmp a c < 0"
  using compare_trans compare_eq by (metis order_le_less)

lemma compare_less_le_trans:
  "valid a \<Longrightarrow> valid b \<Longrightarrow> valid c \<Longrightarrow> Compare cmp a b < 0 \<Longrightarrow> Compare cmp b c \<le> 0 \<Longrightarrow> Compare cmp a c < 0"
  using compare_trans compare_eq by (metis order_le_less)

lemma compare_ge: "valid a \<Longrightarrow> valid b \<Longrightarrow> Compare cmp a b \<ge> 0 \<longleftrightarrow> Compare cmp b a \<le> 0"
  using compare_sym [of a b] compare_sym [of b a] by linarith

end

locale user_comparator = comparator cmp "\<lambda>_. True" for cmp

section \<open>The bytewise order\<close>

text \<open>The order of byte strings is the lexicographic order.\<close>

fun bytes_less :: "byte list \<Rightarrow> byte list \<Rightarrow> bool" where
  "bytes_less _ [] = False"
| "bytes_less [] (b # bs) = True"
| "bytes_less (a # as) (b # bs) = (a < b \<or> a = b \<and> bytes_less as bs)"

lemma Slice_compare_Cons:
  "Slice_compare (a # as) (b # bs) = (if a < b then - 1 else if b < a then 1 else Slice_compare as bs)"
  by (auto simp: Slice_compare_def Let_def)

lemma Slice_compare_Nil:
  "Slice_compare [] [] = 0" "Slice_compare [] (b # bs) = - 1" "Slice_compare (a # as) [] = 1"
  by (simp_all add: Slice_compare_def)

lemma Slice_compare_less: "Slice_compare a b = (if bytes_less a b then - 1 else if a = b then 0 else 1)"
proof (induction a b rule: bytes_less.induct)
  case (1 as) then show ?case by (cases as) (simp_all add: Slice_compare_Nil)
next
  case (2 b bs) then show ?case by (simp add: Slice_compare_Nil)
next
  case (3 a as b bs) then show ?case by (auto simp: Slice_compare_Cons)
qed

lemma bytes_less_irrefl [simp]: "\<not> bytes_less a a"
  by (induction a) auto

lemma bytes_less_trans: "bytes_less a b \<Longrightarrow> bytes_less b c \<Longrightarrow> bytes_less a c"
proof (induction a b arbitrary: c rule: bytes_less.induct)
  case (2 b bs) then show ?case by (cases c) auto
next
  case (3 a as b bs) then show ?case by (cases c) auto
qed simp

lemma bytes_less_Nil [simp]: "bytes_less [] b \<longleftrightarrow> b \<noteq> []"
  by (cases b) auto

lemma bytes_less_total: "bytes_less a b \<or> a = b \<or> bytes_less b a"
  by (induction a b rule: bytes_less.induct) auto

lemma Slice_compare_signs [simp]:
  "Slice_compare a b = 0 \<longleftrightarrow> a = b" "Slice_compare a b < 0 \<longleftrightarrow> bytes_less a b" "0 < Slice_compare a b \<longleftrightarrow> bytes_less b a"
  "Slice_compare a b \<le> 0 \<longleftrightarrow> \<not> bytes_less b a" "0 \<le> Slice_compare a b \<longleftrightarrow> \<not> bytes_less a b"
  using bytes_less_total [of a b] bytes_less_trans [of a b a] by (auto simp: Slice_compare_less)

lemma bytes_less_append [simp]: "bytes_less (p @ a) (p @ b) = bytes_less a b"
  by (induction p) auto

lemma bytes_less_prefix [simp]: "bytes_less a (a @ b) \<longleftrightarrow> b \<noteq> []"
  using bytes_less_append [of a "[]" b] by (cases b) simp_all

lemma diff_loop_spec:
  assumes "i \<le> min (length start) (length limit)" "take i start = take i limit"
  shows "diff_loop i start limit \<le> min (length start) (length limit) \<and>
    take (diff_loop i start limit) start = take (diff_loop i start limit) limit \<and>
    (diff_loop i start limit < min (length start) (length limit) \<longrightarrow>
      start ! diff_loop i start limit \<noteq> limit ! diff_loop i start limit)"
  using assms
proof (induction i start limit rule: diff_loop.induct)
  case (1 i start limit)
  show ?case
  proof (cases "i < min (length start) (length limit) \<and> start ! i = limit ! i")
    case True
    then have "diff_loop i start limit = diff_loop (Suc i) start limit" by (simp add: diff_loop.simps [of i])
    then show ?thesis using 1 True by (simp add: take_Suc_conv_app_nth)
  next
    case False
    then have "diff_loop i start limit = i" by (subst diff_loop.simps) auto
    then show ?thesis using 1 False by auto
  qed
qed

text \<open>The separator is the start, or the common prefix with the differing byte of the start incremented.\<close>

lemma bytewise_separator_cases:
  obtains "bytewise_separator start limit = start"
  | p a as b bs where "start = p @ a # as" "limit = p @ b # bs" "unat a + 1 < unat b"
      "bytewise_separator start limit = p @ [a + 1]"
proof -
  let ?d = "diff_loop 0 start limit"
  note d = diff_loop_spec [of 0 start limit, simplified]
  show ?thesis
  proof (cases "?d < min (length start) (length limit) \<and> unat (start ! ?d) + 1 < unat (limit ! ?d)")
    case True
    then have s: "start = take ?d start @ start ! ?d # drop (Suc ?d) start" by (simp add: id_take_nth_drop)
    moreover have "limit = take ?d start @ limit ! ?d # drop (Suc ?d) limit"
      using True d by (simp add: id_take_nth_drop)
    moreover have "start ! ?d < 0xFF"
    proof -
      have "unat (limit ! ?d) < 256" using unsigned_less [of "limit ! ?d"] by simp
      then show ?thesis using True by (simp add: word_less_nat_alt)
    qed
    then have "bytewise_separator start limit = take (?d + 1) (start[?d := start ! ?d + 1])"
      using True by (auto simp: bytewise_separator_def Let_def)
    moreover have "\<dots> = take ?d start @ [start ! ?d + 1]"
      using True by (simp add: take_Suc_conv_app_nth)
    ultimately show ?thesis using True that(2) by metis
  next
    case False
    then have "bytewise_separator start limit = start" by (auto simp: bytewise_separator_def Let_def)
    then show ?thesis by (rule that(1))
  qed
qed

lemma byte_succ: "Suc (unat a) < unat b \<Longrightarrow> a < a + 1 \<and> a + 1 < b" for a b :: byte
proof -
  assume ab: "Suc (unat a) < unat b"
  have "unat b < 256" using unsigned_less [of b, where ?'a = nat] by simp
  then have "unat (a + 1) = unat a + 1" using ab by (simp add: unat_word_ariths)
  then show ?thesis using ab by (simp add: word_less_nat_alt)
qed

lemma successor_loop_spec:
  "i \<le> length key \<Longrightarrow> successor_loop i key = key \<or> (\<exists>p a as. key = p @ a # as \<and> a < a + 1 \<and> successor_loop i key = p @ [a + 1])"
proof (induction i key rule: successor_loop.induct)
  case (1 i key)
  consider "i = length key" | "i < length key" "key ! i = 0xFF" | "i < length key" "key ! i \<noteq> 0xFF"
    using "1.prems" by fastforce
  then show ?case
  proof cases
    case 1 then show ?thesis by (simp add: successor_loop.simps)
  next
    case 2
    then have "successor_loop i key = successor_loop (Suc i) key" by (simp add: successor_loop.simps [of i])
    then show ?thesis using "1.IH" 2 by simp
  next
    case 3
    then have "successor_loop i key = take i key @ [key ! i + 1]"
      by (subst successor_loop.simps) (simp add: take_Suc_conv_app_nth)
    moreover have "key = take i key @ key ! i # drop (Suc i) key" using 3 by (simp add: id_take_nth_drop)
    moreover have "key ! i < key ! i + 1"
    proof -
      have "unat (key ! i) \<noteq> 255" using 3(2) unat_word_inject [of "key ! i" "0xFF"] by auto
      moreover have "unat (key ! i) < 256" using unsigned_less [of "key ! i", where ?'a = nat] by simp
      ultimately show ?thesis by (simp add: word_less_nat_alt unat_word_ariths)
    qed
    ultimately show ?thesis by metis
  qed
qed

interpretation bytewise: user_comparator BytewiseComparator
proof
  fix a b c :: slice
  show "Compare BytewiseComparator a b = 0 \<longleftrightarrow> a = b"
    "Compare BytewiseComparator a b < 0 \<longleftrightarrow> Compare BytewiseComparator b a > 0"
    by (simp_all add: BytewiseComparator_def)
  show "Compare BytewiseComparator a b < 0 \<Longrightarrow> Compare BytewiseComparator b c < 0 \<Longrightarrow> Compare BytewiseComparator a c < 0"
    by (simp add: BytewiseComparator_def bytes_less_trans)
  let ?s = "bytewise_separator a b"
  show "Compare BytewiseComparator a (FindShortestSeparator BytewiseComparator a b) \<le> 0 \<and>
      Compare BytewiseComparator (FindShortestSeparator BytewiseComparator a b) b < 0" if "Compare BytewiseComparator a b < 0"
    using that by (cases rule: bytewise_separator_cases [of a b]) (auto simp: BytewiseComparator_def dest!: byte_succ)
  show "FindShortestSeparator BytewiseComparator a b = a" if "Compare BytewiseComparator a b \<ge> 0"
    using that by (cases rule: bytewise_separator_cases [of a b]) (auto simp: BytewiseComparator_def dest!: byte_succ)
  show "Compare BytewiseComparator a (FindShortSuccessor BytewiseComparator a) \<le> 0"
    using successor_loop_spec [of 0 a] by (auto simp: BytewiseComparator_def)
qed simp_all

section \<open>The order of internal keys\<close>

lemma length_PutFixed64 [simp]: "length (PutFixed64 dst v) = length dst + 8"
  by (simp add: PutFixed64_def)

lemma internal_key_parts [simp]:
  "ExtractUserKey (PutFixed64 u num) = u" "key_number (PutFixed64 u num) = num"
  by (simp_all add: ExtractUserKey_def key_number_def PutFixed64_def)

text \<open>Eight bytes are the encoding of the number they decode to.\<close>

lemma word_of_le_bound:
  "8 * length bs \<le> LENGTH('a) \<Longrightarrow>
   unat (word_of_le bs :: 'a::len word) < 256 ^ length bs \<and> le_of_word (length bs) (word_of_le bs :: 'a word) = bs"
proof (induction bs)
  case Nil then show ?case by simp
next
  case (Cons b bs)
  let ?W = "word_of_le bs :: 'a word" and ?n = "length bs"
  have IH: "unat ?W < 256 ^ ?n" "le_of_word ?n ?W = bs" using Cons by simp_all
  have b: "unat b < 256" using unsigned_less [of b, where ?'a = nat] by simp
  have L: "8 + 8 * ?n \<le> LENGTH('a)" using Cons.prems by simp
  have sum: "unat b + 256 * unat ?W < 256 ^ Suc ?n" using b IH(1) by simp
  have "(256 :: nat) ^ Suc ?n = 2 ^ (8 * Suc ?n)" by (simp only: power_mult) simp
  also have "\<dots> \<le> 2 ^ LENGTH('a)" using L by (intro power_increasing) simp_all
  finally have fit: "unat b + 256 * unat ?W < 2 ^ LENGTH('a)" using sum by linarith
  have w: "word_of_le (b # bs) = (of_nat (unat b + 256 * unat ?W) :: 'a word)" by simp
  have u: "unat (word_of_le (b # bs) :: 'a word) = unat b + 256 * unat ?W"
    unfolding w using fit by (simp add: unat_of_nat del: of_nat_add of_nat_mult)
  have "unat (drop_bit 8 (word_of_le (b # bs) :: 'a word)) = unat ?W"
    unfolding unat_drop_bit_eq u using b by (simp add: drop_bit_eq_div)
  then have d: "drop_bit 8 (word_of_le (b # bs) :: 'a word) = ?W" by (rule unat_word_inject)
  have "unat (ucast (word_of_le (b # bs) :: 'a word) :: byte) = unat b"
    using b by (simp add: unsigned_ucast_eq u take_bit_eq_mod del: word_of_le.simps)
  then have "ucast (word_of_le (b # bs) :: 'a word) = b" by (rule unat_word_inject)
  then show ?case using IH d u sum by (simp del: word_of_le.simps)
qed

lemma DecodeFixed64_inj:
  assumes "length a = 8" "length b = 8" "DecodeFixed64 a = DecodeFixed64 b"
  shows "a = b"
proof -
  have inv: "EncodeFixed64 (DecodeFixed64 x) = x" if "length x = 8" for x
    using word_of_le_bound [of x, where ?'a = 64] that unfolding DecodeFixed64_def EncodeFixed64_def by simp
  show ?thesis using inv [OF assms(1)] inv [OF assms(2)] unfolding assms(3) by (rule trans [OF sym])
qed

lemma internal_key_eqI:
  assumes "8 \<le> length a" "8 \<le> length b" "ExtractUserKey a = ExtractUserKey b" "key_number a = key_number b"
  shows "a = b"
proof -
  have "drop (length a - 8) a = drop (length b - 8) b"
    using assms by (intro DecodeFixed64_inj) (simp_all add: key_number_def)
  then have "ExtractUserKey a @ drop (length a - 8) a = ExtractUserKey b @ drop (length b - 8) b" using assms(3) by simp
  then show ?thesis by (simp add: ExtractUserKey_def)
qed

lemma pack_number:
  assumes "seq \<le> kMaxSequenceNumber"
  shows "drop_bit 8 (PackSequenceAndType seq t) = seq" "PackSequenceAndType seq t AND 0xFF = type_code t"
    "unat (PackSequenceAndType seq t) = 256 * unat seq + unat (type_code t)"
proof -
  have s: "unat seq < 2 ^ 56" using assms by (simp add: kMaxSequenceNumber_def word_le_nat_alt)
  have t: "unat (type_code t) < 2" by (cases t) simp_all
  have "push_bit 8 seq AND type_code t = 0" by (rule bit_word_eqI, cases t) (auto simp: bit_simps)
  then have p: "PackSequenceAndType seq t = 256 * seq + type_code t"
    by (simp add: PackSequenceAndType_def disjunctive_add_eq_or [symmetric] push_bit_eq_mult)
  have fit: "256 * unat seq + unat (type_code t) < 2 ^ 64" using s t by simp
  then show u: "unat (PackSequenceAndType seq t) = 256 * unat seq + unat (type_code t)"
    unfolding p by (simp add: unat_word_ariths)
  show "drop_bit 8 (PackSequenceAndType seq t) = seq"
    by (rule unat_word_inject) (unfold unat_drop_bit_eq u, use t in \<open>simp add: drop_bit_eq_div\<close>)
  show "PackSequenceAndType seq t AND 0xFF = type_code t"
  proof -
    have "take_bit 8 (PackSequenceAndType seq t) = type_code t"
      unfolding PackSequenceAndType_def by (rule bit_word_eqI) (cases t, auto simp: bit_simps)
    then show ?thesis by (simp add: take_bit_eq_mask mask_eq_exp_minus_1)
  qed
qed

lemma ParseInternalKey_Append:
  assumes "pk_sequence key \<le> kMaxSequenceNumber"
  shows "ParseInternalKey (AppendInternalKey [] key) = Some key"
  using pack_number [OF assms, of "pk_type key"]
  by (cases key; cases "pk_type key")
    (simp_all add: ParseInternalKey_def AppendInternalKey_def Let_def, simp_all add: PutFixed64_def)

text \<open>Internal keys are ordered by the user key, then by decreasing number.\<close>

context user_comparator
begin

lemma user_order:
  "Compare cmp a b = 0 \<longleftrightarrow> a = b" "Compare cmp a a = 0" "Compare cmp a b > 0 \<longleftrightarrow> Compare cmp b a < 0"
  using compare_eq [of a b] compare_refl [of a] compare_sym [of b a] by simp_all

lemma user_less_not: "Compare cmp a b < 0 \<Longrightarrow> \<not> Compare cmp b a < 0 \<and> a \<noteq> b"
  using compare_trans [of a b a] user_order(2) [of a] by auto

lemma internal_signs:
  "Compare (InternalKeyComparator cmp) x y < 0 \<longleftrightarrow>
     Compare cmp (ExtractUserKey x) (ExtractUserKey y) < 0 \<or> ExtractUserKey x = ExtractUserKey y \<and> key_number y < key_number x"
  "Compare (InternalKeyComparator cmp) x y > 0 \<longleftrightarrow>
     Compare cmp (ExtractUserKey y) (ExtractUserKey x) < 0 \<or> ExtractUserKey x = ExtractUserKey y \<and> key_number x < key_number y"
  "Compare (InternalKeyComparator cmp) x y = 0 \<longleftrightarrow> ExtractUserKey x = ExtractUserKey y \<and> key_number x = key_number y"
  using user_order(3) [of "ExtractUserKey x" "ExtractUserKey y"]
  by (auto simp: InternalKeyComparator_def internal_Compare_def Let_def user_order(1,2))

lemma internal_le:
  "Compare (InternalKeyComparator cmp) x y \<le> 0 \<longleftrightarrow> \<not> Compare (InternalKeyComparator cmp) x y > 0"
  by linarith

lemma internal_separator_cases:
  obtains "internal_separator cmp start limit = start"
  | tmp where "tmp = FindShortestSeparator cmp (ExtractUserKey start) (ExtractUserKey limit)"
      "Compare cmp (ExtractUserKey start) tmp < 0" "Compare cmp tmp (ExtractUserKey limit) < 0"
      "internal_separator cmp start limit = PutFixed64 tmp earliest_number"
proof -
  let ?a = "ExtractUserKey start" and ?b = "ExtractUserKey limit"
  let ?t = "FindShortestSeparator cmp ?a ?b"
  show ?thesis
  proof (cases "length ?t < length ?a \<and> Compare cmp ?a ?t < 0")
    case True
    then have "Compare cmp ?a ?b < 0" using separator_same [of ?a ?b] by force
    then have "Compare cmp ?t ?b < 0" using separator_between [of ?a ?b] by simp
    then show ?thesis using True that(2) by (simp add: internal_separator_def Let_def)
  next
    case False
    then show ?thesis by (intro that(1)) (auto simp: internal_separator_def Let_def)
  qed
qed

lemma internal_successor_cases:
  obtains "internal_successor cmp key = key"
  | tmp where "Compare cmp (ExtractUserKey key) tmp < 0" "internal_successor cmp key = PutFixed64 tmp earliest_number"
proof (cases "internal_successor cmp key = key")
  case False
  then show ?thesis
    by (intro that(2) [of "FindShortSuccessor cmp (ExtractUserKey key)"])
      (auto simp: internal_successor_def Let_def split: if_splits)
qed (rule that(1))

end

sublocale user_comparator \<subseteq> internal: comparator "InternalKeyComparator cmp" "\<lambda>k. 8 \<le> length k"
proof
  fix a b c :: slice
  assume a: "8 \<le> length a"
  let ?I = "InternalKeyComparator cmp"
  have refl: "\<not> Compare ?I x x > 0" "\<not> Compare ?I x x < 0" for x by (simp_all add: internal_signs user_order)
  have sep: "FindShortestSeparator ?I = internal_separator cmp" "FindShortSuccessor ?I = internal_successor cmp"
    by (simp_all add: InternalKeyComparator_def)
  show "Compare ?I a (FindShortSuccessor ?I a) \<le> 0" "8 \<le> length (FindShortSuccessor ?I a)"
    unfolding sep internal_le
    by (cases rule: internal_successor_cases [of a]; use a refl(1) user_less_not in \<open>simp add: internal_signs\<close>)+
  assume b: "8 \<le> length b"
  show "Compare ?I a b = 0 \<longleftrightarrow> a = b" using internal_key_eqI [OF a b] by (auto simp: internal_signs)
  show "Compare ?I a b < 0 \<longleftrightarrow> Compare ?I b a > 0" by (auto simp: internal_signs)
  show "8 \<le> length (FindShortestSeparator ?I a b)"
    unfolding sep by (cases rule: internal_separator_cases [of a b]) (use a in simp_all)
  show "Compare ?I a (FindShortestSeparator ?I a b) \<le> 0 \<and> Compare ?I (FindShortestSeparator ?I a b) b < 0"
    if "Compare ?I a b < 0"
    unfolding sep internal_le
    by (cases rule: internal_separator_cases [of a b]) (use that refl(1) user_less_not in \<open>simp_all add: internal_signs\<close>)
  show "FindShortestSeparator ?I a b = a" if "Compare ?I a b \<ge> 0"
  proof (cases rule: internal_separator_cases [of a b])
    case (2 tmp)
    then have "Compare ?I a b < 0" using compare_trans by (simp add: internal_signs)
    then show ?thesis using that by simp
  qed (simp add: sep)
  assume c: "8 \<le> length c"
  show "Compare ?I a c < 0" if "Compare ?I a b < 0" "Compare ?I b c < 0"
    using that compare_trans by (auto simp: internal_signs)
qed

text \<open>An encoded key compares with another by user key, sequence number and type; a lookup key comes before what it may see.\<close>

lemma encoded_key [simp]:
  "8 \<le> length (AppendInternalKey [] key)" "ExtractUserKey (AppendInternalKey [] key) = pk_user_key key"
  "key_number (AppendInternalKey [] key) = PackSequenceAndType (pk_sequence key) (pk_type key)"
  by (simp_all add: AppendInternalKey_def)

lemma pack_less:
  assumes "s1 \<le> kMaxSequenceNumber" "s2 \<le> kMaxSequenceNumber"
  shows "PackSequenceAndType s1 t1 < PackSequenceAndType s2 t2 \<longleftrightarrow> s1 < s2 \<or> s1 = s2 \<and> type_code t1 < type_code t2"
proof -
  have t: "unat (type_code t) < 2" for t by (cases t) simp_all
  have "s1 = s2 \<longleftrightarrow> unat s1 = unat s2" by (auto intro: unat_word_inject)
  then show ?thesis
    using pack_number(3) [OF assms(1), of t1] pack_number(3) [OF assms(2), of t2] t [of t1] t [of t2]
    by (auto simp: word_less_nat_alt)
qed

lemma lookup_key_parts:
  "lookup_internal_key (new_LookupKey u s) =
     AppendInternalKey [] \<lparr>pk_user_key = u, pk_sequence = s, pk_type = kValueTypeForSeek\<rparr>"
  "lookup_user_key (new_LookupKey u s) = u"
  by (simp_all add: lookup_internal_key_def lookup_user_key_def new_LookupKey_def Let_def AppendInternalKey_def PutFixed64_def)

lemma lookup_not_above:
  assumes "s \<le> kMaxSequenceNumber" "s' \<le> kMaxSequenceNumber"
  shows "PackSequenceAndType s kValueTypeForSeek < PackSequenceAndType s' t \<longleftrightarrow> s < s'"
  unfolding pack_less [OF assms] kValueTypeForSeek_def by (cases t) auto

context filter_policy
begin

lemma internal_policy: "filter_policy (InternalFilterPolicy policy) capacity"
proof
  show "CreateFilter (InternalFilterPolicy policy) keys dst = dst @ CreateFilter (InternalFilterPolicy policy) keys []" for keys dst
    using creates [of "map ExtractUserKey keys" dst] by (simp add: InternalFilterPolicy_def)
  show "KeyMayMatch (InternalFilterPolicy policy) key (CreateFilter (InternalFilterPolicy policy) keys [])"
    if "key \<in> set keys" "length keys < capacity" for key keys
    using matches [of "ExtractUserKey key" "map ExtractUserKey keys"] that by (simp add: InternalFilterPolicy_def)
qed

end

interpretation internal_bloom: filter_policy "InternalFilterPolicy (NewBloomFilterPolicy b)" "2 ^ 31" for b
  by (rule bloom.internal_policy)

text \<open>Separators and successors never make a key longer.\<close>

lemma bytewise_separator_length: "length (bytewise_separator a b) \<le> length a"
  by (cases rule: bytewise_separator_cases [of a b]) simp_all

lemma internal_separator_length: "8 \<le> length a \<Longrightarrow> length (internal_separator user a b) \<le> length a"
  by (auto simp: internal_separator_def Let_def ExtractUserKey_def)

end
