(* ===== verification/Ldb_Block.thy ===== *)
theory Ldb_Block
  imports Ldb_Key
begin

text \<open>
  The blocks of the key-value store's tables: the builder (\<^verbatim>\<open>leveldb-library/table/block_builder.cc\<close>) and the reader with its iterator
  (\<^verbatim>\<open>table/block.cc\<close>). Keys are stored as what differs from the key before; every few entries a key is stored in full, and the
  offsets of these entries follow the entries as an array, over which \<open>Seek\<close> does a binary search.

  A slice of the block is a pair of offset and length in the block's bytes. The iterator's operations return \<open>None\<close> for undefined
  behaviour: a read past the end of the block (which a damaged block can cause, since \<open>DecodeEntry\<close> adds two
  lengths in 32 bits) or the use of a value that was cleared. The loops that follow the contents of a block take fuel; a
  round per byte of the block is enough for the blocks of the builder.

  The specification is a layout: the entries, how much of each key is shared, and which entries start afresh.
\<close>

section \<open>Builder\<close>

record BlockBuilder =
  bb_buffer :: "byte list"
  bb_restarts :: "32 word list"
  bb_counter :: int
  bb_finished :: bool
  bb_last_key :: "byte list"

definition new_BlockBuilder :: BlockBuilder where
  "new_BlockBuilder = \<lparr>bb_buffer = [], bb_restarts = [0], bb_counter = 0, bb_finished = False, bb_last_key = []\<rparr>"

definition BlockBuilder_Reset :: "BlockBuilder \<Rightarrow> BlockBuilder" where
  "BlockBuilder_Reset b =
     b\<lparr>bb_buffer := [], bb_restarts := [0], bb_counter := 0, bb_finished := False, bb_last_key := []\<rparr>"

definition CurrentSizeEstimate :: "BlockBuilder \<Rightarrow> nat" where
  "CurrentSizeEstimate b = length (bb_buffer b) + length (bb_restarts b) * 4 + 4"

definition BlockBuilder_Finish :: "BlockBuilder \<Rightarrow> BlockBuilder" where
  "BlockBuilder_Finish b =
     b\<lparr>bb_buffer := PutFixed32 (foldl PutFixed32 (bb_buffer b) (bb_restarts b)) (of_nat (length (bb_restarts b))),
       bb_finished := True\<rparr>"

definition BlockBuilder_Add :: "int \<Rightarrow> slice \<Rightarrow> slice \<Rightarrow> BlockBuilder \<Rightarrow> BlockBuilder" where
  "BlockBuilder_Add block_restart_interval key value b =
     (let (shared, b1) =
            (if bb_counter b < block_restart_interval then (diff_loop 0 (bb_last_key b) key, b)
             else (0, b\<lparr>bb_restarts := bb_restarts b @ [of_nat (length (bb_buffer b))], bb_counter := 0\<rparr>));
          non_shared = length key - shared;
          buffer = PutVarint32 (PutVarint32 (PutVarint32 (bb_buffer b1) (of_nat shared)) (of_nat non_shared))
                     (of_nat (length value))
      in b1\<lparr>bb_buffer := buffer @ drop shared key @ value, bb_last_key := take shared (bb_last_key b1) @ drop shared key,
            bb_counter := bb_counter b1 + 1\<rparr>)"

section \<open>Reader\<close>

text \<open>A block is its contents, its size, which is 0 for malformed contents, and the offset of the restart array.\<close>

record block =
  bl_data :: "byte list"
  bl_size :: nat
  bl_restart_offset :: "32 word"

definition NumRestarts :: "byte list \<Rightarrow> 32 word" where
  "NumRestarts data = DecodeFixed32 (drop (length data - 4) data)"

definition new_Block :: "byte list \<Rightarrow> block" where
  "new_Block contents =
     (let size = length contents in
      if size < 4 then \<lparr>bl_data = contents, bl_size = 0, bl_restart_offset = 0\<rparr>
      else if unat (NumRestarts contents) > (size - 4) div 4
      then \<lparr>bl_data = contents, bl_size = 0, bl_restart_offset = 0\<rparr>
      else \<lparr>bl_data = contents, bl_size = size,
             bl_restart_offset = of_nat size - ucast (1 + NumRestarts contents) * 4\<rparr>)"

text \<open>The bytes from \<open>p\<close> to the limit; the result has the three numbers and the bytes behind them.\<close>

definition DecodeEntry :: "byte list \<Rightarrow> (32 word \<times> 32 word \<times> 32 word \<times> byte list) option" where
  "DecodeEntry p =
     (if length p < 3 then None
      else
        let shared = ucast (p ! 0); non_shared = ucast (p ! 1); value_length = ucast (p ! 2) :: 32 word;
            parsed =
              (if shared OR non_shared OR value_length < 128 then Some (shared, non_shared, value_length, drop 3 p)
               else
                 case GetVarint32Ptr p of None \<Rightarrow> None | Some (shared, p1) \<Rightarrow>
                 (case GetVarint32Ptr p1 of None \<Rightarrow> None | Some (non_shared, p2) \<Rightarrow>
                 (case GetVarint32Ptr p2 of None \<Rightarrow> None | Some (value_length, p3) \<Rightarrow>
                    Some (shared, non_shared, value_length, p3))))
        in case parsed of
             None \<Rightarrow> None
           | Some (shared, non_shared, value_length, q) \<Rightarrow>
               if of_nat (length q) < non_shared + value_length then None
               else Some (shared, non_shared, value_length, q))"

record block_iter =
  it_data :: "byte list"
  it_restarts :: "32 word"
  it_num_restarts :: "32 word"
  it_current :: "32 word"
  it_restart_index :: "32 word"
  it_key :: "byte list"
  it_value :: "(nat \<times> nat) option"
  it_status :: status

definition new_Iter :: "byte list \<Rightarrow> 32 word \<Rightarrow> 32 word \<Rightarrow> block_iter" where
  "new_Iter data restarts num_restarts =
     \<lparr>it_data = data, it_restarts = restarts, it_num_restarts = num_restarts, it_current = restarts,
      it_restart_index = num_restarts, it_key = [], it_value = None, it_status = OK\<rparr>"

text \<open>What \<open>NewIterator\<close> returns: an iterator with an error and no entries, an empty one, or one over the block.\<close>

datatype block_iterator = Error_iterator status | Empty_iterator | Block_iterator block_iter

definition NewIterator :: "block \<Rightarrow> block_iterator" where
  "NewIterator b =
     (if bl_size b < 4 then Error_iterator (Corruption ''bad block contents'')
      else if NumRestarts (bl_data b) = 0 then Empty_iterator
      else Block_iterator (new_Iter (bl_data b) (bl_restart_offset b) (NumRestarts (bl_data b))))"

definition Valid :: "block_iter \<Rightarrow> bool" where
  "Valid it \<longleftrightarrow> it_current it < it_restarts it"

definition it_value_bytes :: "block_iter \<Rightarrow> byte list" where
  "it_value_bytes it = (case it_value it of None \<Rightarrow> [] | Some (off, len) \<Rightarrow> take len (drop off (it_data it)))"

definition NextEntryOffset :: "block_iter \<Rightarrow> 32 word option" where
  "NextEntryOffset it = map_option (\<lambda>(off, len). of_nat (off + len)) (it_value it)"

definition GetRestartPoint :: "block_iter \<Rightarrow> 32 word \<Rightarrow> 32 word" where
  "GetRestartPoint it index = DecodeFixed32 (drop (unat (it_restarts it) + unat index * 4) (it_data it))"

definition SeekToRestartPoint :: "32 word \<Rightarrow> block_iter \<Rightarrow> block_iter" where
  "SeekToRestartPoint index it =
     it\<lparr>it_key := [], it_restart_index := index, it_value := Some (unat (GetRestartPoint it index), 0)\<rparr>"

definition CorruptionError :: "block_iter \<Rightarrow> block_iter" where
  "CorruptionError it =
     it\<lparr>it_current := it_restarts it, it_restart_index := it_num_restarts it,
        it_status := Corruption ''bad entry in block'', it_key := [], it_value := None\<rparr>"

text \<open>The loop at the end of \<open>ParseNextKey\<close> that moves the restart index along.\<close>

function advance_restart :: "block_iter \<Rightarrow> 32 word \<Rightarrow> 32 word" where
  "advance_restart it index =
     (if index + 1 < it_num_restarts it \<and> GetRestartPoint it (index + 1) < it_current it
      then advance_restart it (index + 1) else index)"
  by pat_completeness auto

termination advance_restart
proof (relation "measure (\<lambda>(it, index). unat (it_num_restarts it - 1 - index))")
  fix it :: block_iter and index :: "32 word"
  assume "index + 1 < it_num_restarts it \<and> GetRestartPoint it (index + 1) < it_current it"
  then have d: "it_num_restarts it - 1 - index \<noteq> 0" by auto
  have e: "it_num_restarts it - 1 - (index + 1) = (it_num_restarts it - 1 - index) - 1" by simp
  have "unat (it_num_restarts it - 1 - (index + 1)) < unat (it_num_restarts it - 1 - index)"
    unfolding e unat_minus_one [OF d] using d by (metis diff_less unat_gt_0 word_neq_0_conv zero_less_one)
  then show "((it, index + 1), (it, index)) \<in> measure (\<lambda>(it, index). unat (it_num_restarts it - 1 - index))" by simp
qed simp

declare advance_restart.simps [simp del]

definition ParseNextKey :: "block_iter \<Rightarrow> (bool \<times> block_iter) option" where
  "ParseNextKey it =
     (case NextEntryOffset it of
        None \<Rightarrow> None
      | Some current \<Rightarrow>
          let it1 = it\<lparr>it_current := current\<rparr>; p = unat current; limit = unat (it_restarts it) in
          if p \<ge> limit
          then Some (False, it1\<lparr>it_current := it_restarts it, it_restart_index := it_num_restarts it\<rparr>)
          else
            case DecodeEntry (take (limit - p) (drop p (it_data it))) of
              None \<Rightarrow> Some (False, CorruptionError it1)
            | Some (shared, non_shared, value_length, q) \<Rightarrow>
                if length (it_key it) < unat shared then Some (False, CorruptionError it1)
                else
                  let pos = limit - length q in
                  if pos + unat non_shared > length (it_data it) then None
                  else
                    let it2 = it1\<lparr>it_key := take (unat shared) (it_key it) @ take (unat non_shared) (drop pos (it_data it)),
                                  it_value := Some (pos + unat non_shared, unat value_length)\<rparr>
                    in Some (True, it2\<lparr>it_restart_index := advance_restart it2 (it_restart_index it2)\<rparr>))"

text \<open>
  The three loops over entries: parse until there is no entry or the condition \<open>stop\<close> holds. The outer option is fuel, the inner one
  undefined behaviour.
\<close>

fun scan :: "nat \<Rightarrow> (block_iter \<Rightarrow> bool) \<Rightarrow> block_iter \<Rightarrow> block_iter option option" where
  "scan 0 stop it = None"
| "scan (Suc k) stop it =
     (case ParseNextKey it of
        None \<Rightarrow> Some None
      | Some (False, it1) \<Rightarrow> Some (Some it1)
      | Some (True, it1) \<Rightarrow> if stop it1 then Some (Some it1) else scan k stop it1)"

definition ends_by :: "32 word \<Rightarrow> block_iter \<Rightarrow> bool" where
  "ends_by limit it = (case NextEntryOffset it of None \<Rightarrow> True | Some offset \<Rightarrow> \<not> offset < limit)"

definition Next :: "block_iter \<Rightarrow> block_iter option" where
  "Next it = map_option snd (ParseNextKey it)"

definition SeekToFirst :: "block_iter \<Rightarrow> block_iter option" where
  "SeekToFirst it = map_option snd (ParseNextKey (SeekToRestartPoint 0 it))"

definition SeekToLast :: "nat \<Rightarrow> block_iter \<Rightarrow> block_iter option option" where
  "SeekToLast k it = scan k (ends_by (it_restarts it)) (SeekToRestartPoint (it_num_restarts it - 1) it)"

text \<open>The scan back of \<open>Prev\<close> for a restart point before \<open>original\<close>.\<close>

function prev_restart :: "32 word \<Rightarrow> block_iter \<Rightarrow> 32 word \<Rightarrow> 32 word option" where
  "prev_restart original it index =
     (if GetRestartPoint it index \<ge> original then if index = 0 then None else prev_restart original it (index - 1)
      else Some index)"
  by pat_completeness auto

termination prev_restart
  by (relation "measure (\<lambda>(_, _, index). unat index)") (auto simp: unat_minus_one unat_gt_0)

declare prev_restart.simps [simp del]

definition Prev :: "nat \<Rightarrow> block_iter \<Rightarrow> block_iter option option" where
  "Prev k it =
     (let original = it_current it in
      case prev_restart original it (it_restart_index it) of
        None \<Rightarrow> Some (Some (it\<lparr>it_current := it_restarts it, it_restart_index := it_num_restarts it\<rparr>))
      | Some index \<Rightarrow> scan k (ends_by original) (SeekToRestartPoint index it))"

text \<open>The binary search of \<open>Seek\<close>: \<open>Inl\<close> for a damaged block, \<open>Inr\<close> the index of a restart point; \<open>None\<close> inside is a read past the end.\<close>

fun seek_search :: "nat \<Rightarrow> Comparator \<Rightarrow> slice \<Rightarrow> block_iter \<Rightarrow> 32 word \<Rightarrow> 32 word \<Rightarrow> (unit + 32 word) option option" where
  "seek_search 0 cmp target it left right = None"
| "seek_search (Suc k) cmp target it left right =
     (if left < right then
        let mid = (left + right + 1) div 2; region_offset = unat (GetRestartPoint it mid); limit = unat (it_restarts it) in
        case DecodeEntry (take (limit - region_offset) (drop region_offset (it_data it))) of
          None \<Rightarrow> Some (Some (Inl ()))
        | Some (shared, non_shared, value_length, q) \<Rightarrow>
            if shared \<noteq> 0 then Some (Some (Inl ()))
            else
              let pos = limit - length q in
              if pos + unat non_shared > length (it_data it) then Some None
              else if Compare cmp (take (unat non_shared) (drop pos (it_data it))) target < 0
              then seek_search k cmp target it mid right
              else seek_search k cmp target it left (mid - 1)
      else Some (Some (Inr left)))"

definition Seek :: "nat \<Rightarrow> Comparator \<Rightarrow> slice \<Rightarrow> block_iter \<Rightarrow> block_iter option option" where
  "Seek k cmp target it =
     (case seek_search k cmp target it 0 (it_num_restarts it - 1) of
        None \<Rightarrow> None
      | Some None \<Rightarrow> Some None
      | Some (Some (Inl _)) \<Rightarrow> Some (Some (CorruptionError it))
      | Some (Some (Inr left)) \<Rightarrow> scan k (\<lambda>it. Compare cmp (it_key it) target \<ge> 0) (SeekToRestartPoint left it))"

section \<open>Layout\<close>

text \<open>
  The entries \<open>es\<close> of a block, with the number of bytes \<open>shs\<close> that each key shares with the key before it and the indices \<open>ris\<close> of the
  entries that the restart array lists.
\<close>

definition entry_bytes :: "nat \<Rightarrow> slice \<Rightarrow> slice \<Rightarrow> byte list" where
  "entry_bytes sh key value =
     EncodeVarint32 (of_nat sh) @ EncodeVarint32 (of_nat (length key - sh)) @ EncodeVarint32 (of_nat (length value)) @
     drop sh key @ value"

definition chunk :: "(slice \<times> slice) list \<Rightarrow> nat list \<Rightarrow> nat \<Rightarrow> byte list" where
  "chunk es shs i = entry_bytes (shs ! i) (fst (es ! i)) (snd (es ! i))"

definition chunks :: "(slice \<times> slice) list \<Rightarrow> nat list \<Rightarrow> nat \<Rightarrow> byte list" where
  "chunks es shs n = concat (map (chunk es shs) [0..<n])"

definition prev_key :: "(slice \<times> slice) list \<Rightarrow> nat \<Rightarrow> slice" where
  "prev_key es i = (if i = 0 then [] else fst (es ! (i - 1)))"

definition layout :: "(slice \<times> slice) list \<Rightarrow> nat list \<Rightarrow> nat list \<Rightarrow> bool" where
  "layout es shs ris \<longleftrightarrow>
     length shs = length es \<and>
     (\<forall>i < length es. shs ! i \<le> length (fst (es ! i)) \<and> shs ! i \<le> length (prev_key es i) \<and>
        take (shs ! i) (fst (es ! i)) = take (shs ! i) (prev_key es i) \<and> (i \<in> set ris \<longrightarrow> shs ! i = 0)) \<and>
     ris \<noteq> [] \<and> hd ris = 0 \<and> (\<forall>r \<in> set (tl ris). r < length es)"

lemma layout_restarts: "layout es shs ris \<Longrightarrow> r \<in> set ris \<Longrightarrow> r = 0 \<or> r < length es"
  by (cases ris) (auto simp: layout_def)

lemma layout_restarts_le: "layout es shs ris \<Longrightarrow> r \<in> set ris \<Longrightarrow> r \<le> length es"
  using layout_restarts by fastforce

definition restart_offsets :: "(slice \<times> slice) list \<Rightarrow> nat list \<Rightarrow> nat list \<Rightarrow> 32 word list" where
  "restart_offsets es shs ris = map (\<lambda>r. of_nat (length (chunks es shs r))) ris"

definition layout_bytes :: "(slice \<times> slice) list \<Rightarrow> nat list \<Rightarrow> nat list \<Rightarrow> byte list" where
  "layout_bytes es shs ris =
     chunks es shs (length es) @ concat (map EncodeFixed32 (restart_offsets es shs ris @ [of_nat (length ris)]))"

section \<open>The builder makes a layout\<close>

definition builds :: "BlockBuilder \<Rightarrow> (slice \<times> slice) list \<Rightarrow> nat list \<Rightarrow> nat list \<Rightarrow> bool" where
  "builds b es shs ris \<longleftrightarrow>
     layout es shs ris \<and> bb_buffer b = chunks es shs (length es) \<and> bb_restarts b = restart_offsets es shs ris \<and>
     bb_last_key b = prev_key es (length es) \<and> \<not> bb_finished b"

lemma chunks_snoc: "length shs = length es \<Longrightarrow> n \<le> length es \<Longrightarrow> chunks (es @ [e]) (shs @ [sh]) n = chunks es shs n"
  unfolding chunks_def chunk_def by (intro arg_cong [where f = concat] map_cong) (auto simp: nth_append)

lemma chunks_Suc: "chunks es shs (Suc n) = chunks es shs n @ chunk es shs n"
  by (simp add: chunks_def)

lemma prev_key_snoc: "n \<le> length es \<Longrightarrow> prev_key (es @ [e]) n = prev_key es n"
  by (auto simp: prev_key_def nth_append)

lemma builds_new: "builds new_BlockBuilder [] [] [0]"
  by (simp add: builds_def new_BlockBuilder_def layout_def chunks_def restart_offsets_def prev_key_def)

lemma diff_loop_prefix:
  "diff_loop 0 a b \<le> length a" "diff_loop 0 a b \<le> length b" "take (diff_loop 0 a b) b = take (diff_loop 0 a b) a"
  using diff_loop_spec [of 0 a b] by simp_all

lemma layout_snoc:
  assumes "layout es shs ris" "sh \<le> length key" "sh \<le> length (prev_key es (length es))"
    "take sh key = take sh (prev_key es (length es))" "ris' = ris \<or> ris' = ris @ [length es] \<and> sh = 0"
  shows "layout (es @ [(key, value)]) (shs @ [sh]) ris'"
  unfolding layout_def
proof (intro conjI allI impI ballI)
  fix i assume i: "i < length (es @ [(key, value)])"
  have len: "length shs = length es" using assms(1) by (simp add: layout_def)
  have "shs ! i \<le> length (fst (es ! i)) \<and> shs ! i \<le> length (prev_key es i) \<and>
      take (shs ! i) (fst (es ! i)) = take (shs ! i) (prev_key es i) \<and> (i \<in> set ris \<longrightarrow> shs ! i = 0)" if "i < length es"
    using assms(1) that unfolding layout_def by blast
  moreover have "sh = 0" if "length es \<in> set ris'"
  proof -
    have "length es \<in> set ris \<Longrightarrow> length es = 0" using layout_restarts [OF assms(1)] by auto
    then show ?thesis using that assms(3,5) by (auto simp: prev_key_def)
  qed
  ultimately show "(shs @ [sh]) ! i \<le> length (fst ((es @ [(key, value)]) ! i))"
    "(shs @ [sh]) ! i \<le> length (prev_key (es @ [(key, value)]) i)"
    "take ((shs @ [sh]) ! i) (fst ((es @ [(key, value)]) ! i)) = take ((shs @ [sh]) ! i) (prev_key (es @ [(key, value)]) i)"
    "i \<in> set ris' \<Longrightarrow> (shs @ [sh]) ! i = 0"
    using assms i len by (auto simp: nth_append prev_key_snoc less_Suc_eq)
qed (use assms in \<open>auto simp: layout_def less_Suc_eq\<close>)

lemma builds_Add:
  assumes "builds b es shs ris"
  shows "\<exists>sh ris'. builds (BlockBuilder_Add interval key value b) (es @ [(key, value)]) (shs @ [sh]) ris'"
proof -
  let ?last = "prev_key es (length es)"
  have lay: "layout es shs ris" and len: "length shs = length es" using assms by (simp_all add: builds_def layout_def)
  define sh where "sh = (if bb_counter b < interval then diff_loop 0 ?last key else 0)"
  define ris' where "ris' = (if bb_counter b < interval then ris else ris @ [length es])"
  have sh: "sh \<le> length key" "sh \<le> length ?last" "take sh key = take sh ?last"
    using diff_loop_prefix [of ?last key] by (auto simp: sh_def)
  have lay': "layout (es @ [(key, value)]) (shs @ [sh]) ris'"
    by (rule layout_snoc [OF lay sh]) (simp add: ris'_def sh_def)
  have off: "restart_offsets (es @ [(key, value)]) (shs @ [sh]) ris' =
      restart_offsets es shs ris @ (if bb_counter b < interval then [] else [of_nat (length (chunks es shs (length es)))])"
    using layout_restarts_le [OF lay] len
    by (auto simp: restart_offsets_def ris'_def chunks_snoc intro!: arg_cong [where f = "\<lambda>n. of_nat n"] arg_cong [where f = length] chunks_snoc)
  have "builds (BlockBuilder_Add interval key value b) (es @ [(key, value)]) (shs @ [sh]) ris'"
    unfolding builds_def
  proof (intro conjI lay')
    show "bb_buffer (BlockBuilder_Add interval key value b) = chunks (es @ [(key, value)]) (shs @ [sh]) (length (es @ [(key, value)]))"
      using assms len
      by (auto simp: BlockBuilder_Add_def builds_def chunks_Suc chunks_snoc chunk_def nth_append entry_bytes_def PutVarint32_def sh_def Let_def)
    show "bb_restarts (BlockBuilder_Add interval key value b) = restart_offsets (es @ [(key, value)]) (shs @ [sh]) ris'"
      using assms unfolding off by (auto simp: BlockBuilder_Add_def builds_def Let_def)
    show "bb_last_key (BlockBuilder_Add interval key value b) = prev_key (es @ [(key, value)]) (length (es @ [(key, value)]))"
    proof -
      have "take sh ?last @ drop sh key = key" by (simp flip: sh(3))
      then show ?thesis using assms by (auto simp: BlockBuilder_Add_def builds_def Let_def prev_key_def [of "es @ _"] sh_def)
    qed
    show "\<not> bb_finished (BlockBuilder_Add interval key value b)"
      using assms by (auto simp: BlockBuilder_Add_def builds_def Let_def)
  qed
  then show ?thesis by blast
qed

lemma builds_Finish: "builds b es shs ris \<Longrightarrow> bb_buffer (BlockBuilder_Finish b) = layout_bytes es shs ris"
  by (simp add: BlockBuilder_Finish_def builds_def layout_bytes_def foldl_PutFixed32 PutFixed32_def restart_offsets_def)

fun add_entries :: "int \<Rightarrow> (slice \<times> slice) list \<Rightarrow> BlockBuilder \<Rightarrow> BlockBuilder" where
  "add_entries interval [] b = b"
| "add_entries interval ((key, value) # es) b = add_entries interval es (BlockBuilder_Add interval key value b)"

lemma builds_add_entries: "builds b es shs ris \<Longrightarrow> \<exists>shs' ris'. builds (add_entries interval es' b) (es @ es') shs' ris'"
proof (induction es' arbitrary: b es shs ris)
  case Nil then show ?case by auto
next
  case (Cons e es')
  obtain k v where e: "e = (k, v)" by (cases e)
  obtain sh ris' where "builds (BlockBuilder_Add interval k v b) (es @ [e]) (shs @ [sh]) ris'"
    using builds_Add [OF Cons.prems] unfolding e by blast
  from Cons.IH [OF this] show ?case by (simp add: e)
qed

definition build_block :: "int \<Rightarrow> (slice \<times> slice) list \<Rightarrow> byte list" where
  "build_block interval es = bb_buffer (BlockBuilder_Finish (add_entries interval es new_BlockBuilder))"

lemma build_block_layout: obtains shs ris where "layout es shs ris" "build_block interval es = layout_bytes es shs ris"
proof -
  obtain shs ris where "builds (add_entries interval es new_BlockBuilder) es shs ris"
    using builds_add_entries [OF builds_new, of interval es] by auto
  then show ?thesis using that [of shs ris] by (simp add: build_block_def builds_Finish) (simp add: builds_def)
qed

section \<open>The iterator on a layout\<close>

lemma unat_of_nat_32: "n < 2 ^ 32 \<Longrightarrow> unat (of_nat n :: 32 word) = n"
  by (simp add: unat_of_nat)

lemma EncodeVarint32_small: "EncodeVarint32 v = b # bs \<Longrightarrow> b < 128 \<Longrightarrow> bs = [] \<and> v = ucast b"
proof -
  assume b: "EncodeVarint32 v = b # bs" "b < 128"
  show ?thesis
  proof (cases "v < 128")
    case True
    then have "unat v < 128" by (simp add: word_less_nat_alt)
    then have "ucast (ucast v :: byte) = v"
      by (intro unat_word_inject) (simp only: unsigned_ucast_eq, simp add: unsigned_take_bit_eq take_bit_eq_mod [of _ "unat v"] )
    then show ?thesis using b(1) True by (auto simp: EncodeVarint32_def)
  next
    case False
    then have "b = ucast (v OR 128)" using b(1) by (auto simp: EncodeVarint32_def split: if_splits)
    then have "bit b 7" by (simp add: bit_simps)
    moreover have "drop_bit 7 b = 0"
      using b(2) by (intro unat_word_inject) (simp only: unat_drop_bit_eq, simp add: drop_bit_eq_div word_less_nat_alt)
    moreover have "bit (drop_bit 7 b) 0 \<longleftrightarrow> bit b 7" by (simp only: bit_drop_bit_eq comp_apply) simp
    ultimately show ?thesis by simp
  qed
qed

lemma or_less_128: "a OR b < 128 \<Longrightarrow> a < 128 \<and> b < 128" for a b :: "32 word"
proof -
  have less: "x < 128 \<longleftrightarrow> drop_bit 7 x = 0" for x :: "32 word"
  proof -
    have "unat x < 128 \<longleftrightarrow> unat x div 128 = 0" by (simp add: div_eq_0_iff)
    moreover have "drop_bit 7 x = 0 \<longleftrightarrow> unat (drop_bit 7 x) = 0" by (simp add: unat_eq_0)
    ultimately show ?thesis unfolding unat_drop_bit_eq by (simp add: word_less_nat_alt drop_bit_eq_div)
  qed
  show "a OR b < 128 \<Longrightarrow> a < 128 \<and> b < 128" by (simp add: less drop_bit_or or_eq_0_iff)
qed

lemma DecodeEntry_entry:
  assumes "sh \<le> length key" "length key < 2 ^ 32" "length value < 2 ^ 32"
    "length key - sh + length value + length rest < 2 ^ 32"
  shows "DecodeEntry (entry_bytes sh key value @ rest) =
     Some (of_nat sh, of_nat (length key - sh), of_nat (length value), drop sh key @ value @ rest)"
proof -
  let ?p = "entry_bytes sh key value @ rest" and ?q = "drop sh key @ value @ rest"
  let ?a = "of_nat sh :: 32 word" and ?b = "of_nat (length key - sh) :: 32 word" and ?c = "of_nat (length value) :: 32 word"
  obtain a as where a: "EncodeVarint32 ?a = a # as" by (metis neq_Nil_conv v32.put_nonempty)
  obtain b bs where b: "EncodeVarint32 ?b = b # bs" by (metis neq_Nil_conv v32.put_nonempty)
  obtain c cs where c: "EncodeVarint32 ?c = c # cs" by (metis neq_Nil_conv v32.put_nonempty)
  have p: "?p = (a # as) @ (b # bs) @ (c # cs) @ ?q" by (simp add: entry_bytes_def a b c)
  have len: "\<not> length ?p < 3" unfolding p by simp
  have fits: "\<not> of_nat (length ?q) < ?b + ?c"
  proof -
    have "unat (of_nat (length ?q) :: 32 word) = length ?q" "unat ?b = length key - sh" "unat ?c = length value"
      by (rule unat_of_nat_32, use assms in simp)+
    moreover have "unat (?b + ?c) \<le> unat ?b + unat ?c" by (simp only: unat_word_ariths mod_less_eq_dividend)
    ultimately show ?thesis unfolding word_less_nat_alt by simp
  qed
  have slow: "GetVarint32Ptr ?p = Some (?a, EncodeVarint32 ?b @ EncodeVarint32 ?c @ ?q)"
    "GetVarint32Ptr (EncodeVarint32 ?b @ EncodeVarint32 ?c @ ?q) = Some (?b, EncodeVarint32 ?c @ ?q)"
    "GetVarint32Ptr (EncodeVarint32 ?c @ ?q) = Some (?c, ?q)"
    by (simp_all add: entry_bytes_def v32.get_put)
  show ?thesis
  proof (cases "ucast (?p ! 0) OR ucast (?p ! 1) OR ucast (?p ! 2) < (128 :: 32 word)")
    case True
    have u: "ucast x < (128 :: 32 word) \<Longrightarrow> x < 128" for x :: byte
      using unsigned_less [of x, where ?'a = nat] by (simp add: word_less_nat_alt unsigned_ucast_eq take_bit_eq_mod)
    have 0: "?p ! 0 < 128" "?p ! 1 < 128" "?p ! 2 < 128" using or_less_128 True u by blast+
    have A: "as = []" "?a = ucast a" using EncodeVarint32_small [OF a] 0(1) unfolding p by simp_all
    have B: "bs = []" "?b = ucast b" using EncodeVarint32_small [OF b] 0(2) unfolding p by (simp_all add: A)
    have C: "cs = []" "?c = ucast c" using EncodeVarint32_small [OF c] 0(3) unfolding p by (simp_all add: A B)
    have q: "?p = a # b # c # ?q" using p by (simp add: A B C)
    show ?thesis
      using True fits unfolding DecodeEntry_def q by (simp add: A(2) B(2) C(2) Let_def)
  next
    case False
    show ?thesis
      unfolding DecodeEntry_def Let_def if_not_P [OF len] if_not_P [OF False] slow option.case prod.case if_not_P [OF fits] ..
  qed
qed

text \<open>
  An iterator over the bytes of a layout, and its two kinds of position: \<open>before it i\<close>, where \<open>ParseNextKey\<close> will parse entry \<open>i\<close>, and
  \<open>positioned it i\<close>, at entry \<open>i\<close> or, for the number of entries, at the end.
\<close>

definition reads :: "(slice \<times> slice) list \<Rightarrow> nat list \<Rightarrow> nat list \<Rightarrow> block_iter \<Rightarrow> bool" where
  "reads es shs ris it \<longleftrightarrow>
     layout es shs ris \<and> length (layout_bytes es shs ris) < 2 ^ 32 \<and> it_data it = layout_bytes es shs ris \<and>
     it_restarts it = of_nat (length (chunks es shs (length es))) \<and> it_num_restarts it = of_nat (length ris) \<and> it_status it = OK"

definition before :: "(slice \<times> slice) list \<Rightarrow> nat list \<Rightarrow> block_iter \<Rightarrow> nat \<Rightarrow> bool" where
  "before es shs it i \<longleftrightarrow>
     i \<le> length es \<and> NextEntryOffset it = Some (of_nat (length (chunks es shs i))) \<and> it_restart_index it < it_num_restarts it \<and>
     (i < length es \<longrightarrow> shs ! i \<le> length (it_key it) \<and> take (shs ! i) (it_key it) = take (shs ! i) (fst (es ! i)))"

definition positioned :: "(slice \<times> slice) list \<Rightarrow> nat list \<Rightarrow> block_iter \<Rightarrow> nat \<Rightarrow> bool" where
  "positioned es shs it i \<longleftrightarrow>
     (if i < length es
      then it_current it = of_nat (length (chunks es shs i)) \<and> it_key it = fst (es ! i) \<and> it_value_bytes it = snd (es ! i) \<and>
        before es shs it (Suc i)
      else it_current it = it_restarts it)"

lemma chunks_mono: "i \<le> j \<Longrightarrow> length (chunks es shs i) \<le> length (chunks es shs j)"
  by (induction j) (auto simp: chunks_Suc le_Suc_eq)

lemma entry_bytes_pos: "3 \<le> length (entry_bytes sh k v)"
  using length_EncodeVarint32(1) [of "of_nat sh"] length_EncodeVarint32(1) [of "of_nat (length k - sh)"]
    length_EncodeVarint32(1) [of "of_nat (length v)"] by (simp add: entry_bytes_def)

lemma chunks_le_iff: "length (chunks es shs i) \<le> length (chunks es shs j) \<longleftrightarrow> i \<le> j"
proof -
  have "length (chunks es shs j) < length (chunks es shs (Suc j))"
    using entry_bytes_pos [of "shs ! j" "fst (es ! j)" "snd (es ! j)"] by (auto simp: chunks_Suc chunk_def)
  then show ?thesis using chunks_mono [of "Suc j" i es shs] chunks_mono [of i j es shs] by (cases "i \<le> j") auto
qed

lemma chunks_size: "n \<le> length (chunks es shs n)"
proof (induction n)
  case (Suc n)
  then show ?case
    using entry_bytes_pos [of "shs ! n" "fst (es ! n)" "snd (es ! n)"] by (simp add: chunks_Suc chunk_def)
qed simp

lemma chunk_at:
  assumes "i < length es"
  shows "drop (length (chunks es shs i)) (layout_bytes es shs ris) =
    chunk es shs i @ drop (length (chunks es shs (Suc i))) (layout_bytes es shs ris)"
proof -
  have "chunks es shs n = chunks es shs (Suc i) @ concat (map (chunk es shs) [Suc i..<n])" if "Suc i \<le> n" for n
    using that unfolding chunks_def by (metis concat_append le_add_diff_inverse map_append plus_nat.add_0 upt_add_eq_append zero_le)
  from this [of "length es"] assms show ?thesis by (simp add: layout_bytes_def chunks_Suc)
qed

lemma reads_sizes:
  assumes "reads es shs ris it"
  shows "i \<le> length es \<Longrightarrow> length (chunks es shs i) < 2 ^ 32" "unat (it_restarts it) = length (chunks es shs (length es))"
    "unat (it_num_restarts it) = length ris" "length ris < 2 ^ 32" "0 < it_num_restarts it"
proof -
  have total: "length (chunks es shs (length es)) + 4 * length ris < 2 ^ 32"
  proof -
    have "length (concat (map EncodeFixed32 (restart_offsets es shs ris))) = 4 * length ris"
      by (simp only: length_fixed32_array) (simp add: restart_offsets_def)
    then show ?thesis using assms by (simp add: reads_def layout_bytes_def)
  qed
  show "i \<le> length es \<Longrightarrow> length (chunks es shs i) < 2 ^ 32" using total chunks_mono [of i "length es" es shs] by simp
  show r: "length ris < 2 ^ 32" using total by simp
  show "unat (it_restarts it) = length (chunks es shs (length es))" "unat (it_num_restarts it) = length ris"
    using assms total r by (simp_all add: reads_def unat_of_nat_32)
  then show "0 < it_num_restarts it" using assms by (simp add: reads_def layout_def word_less_nat_alt)
qed

lemma GetRestartPoint_layout:
  assumes "reads es shs ris it" "j < length ris"
  shows "GetRestartPoint it (of_nat j) = of_nat (length (chunks es shs (ris ! j)))"
proof -
  let ?W = "restart_offsets es shs ris @ [of_nat (length ris)]"
  have "unat (of_nat j :: 32 word) = j" using assms(2) reads_sizes(4) [OF assms(1)] by (intro unat_of_nat_32) simp
  then have "GetRestartPoint it (of_nat j) = DecodeFixed32 (drop (j * 4) (concat (map EncodeFixed32 ?W)))"
    using reads_sizes(2) [OF assms(1)] assms(1) by (simp add: GetRestartPoint_def reads_def layout_bytes_def)
  also have "\<dots> = ?W ! j" using fixed32_array [of j ?W "[]"] assms(2) by (simp add: restart_offsets_def)
  finally show ?thesis using assms(2) by (simp add: restart_offsets_def nth_append)
qed

lemma advance_restart_bound: "index < it_num_restarts it \<Longrightarrow> advance_restart it index < it_num_restarts it"
  by (induction it index rule: advance_restart.induct) (subst advance_restart.simps, simp)

lemma reads_cong: "reads es shs ris it \<Longrightarrow> it_data it' = it_data it \<Longrightarrow> it_restarts it' = it_restarts it \<Longrightarrow>
    it_num_restarts it' = it_num_restarts it \<Longrightarrow> it_status it' = it_status it \<Longrightarrow> reads es shs ris it'"
  by (simp add: reads_def)

text \<open>Parsing the next entry. Keys are not longer than what is stored up to their entry.\<close>

lemma key_length_bound:
  assumes "layout es shs ris"
  shows "i < length es \<Longrightarrow> length (fst (es ! i)) \<le> length (chunks es shs (Suc i))"
proof (induction i)
  case 0
  then show ?case using assms by (auto simp: layout_def prev_key_def chunks_def chunk_def entry_bytes_def)
next
  case (Suc i)
  have "shs ! Suc i \<le> length (fst (es ! i))" using assms Suc.prems by (auto simp: layout_def prev_key_def)
  moreover have "length (chunks es shs (Suc (Suc i))) \<ge> length (chunks es shs (Suc i)) + (length (fst (es ! Suc i)) - shs ! Suc i)"
    by (simp add: chunks_Suc [of _ _ "Suc i"] chunk_def entry_bytes_def)
  ultimately show ?case using Suc by simp
qed

lemma DecodeEntry_layout:
  assumes "reads es shs ris it" "i < length es"
  defines "p \<equiv> length (chunks es shs i)" and "limit \<equiv> length (chunks es shs (length es))"
    and "k \<equiv> fst (es ! i)" and "v \<equiv> snd (es ! i)" and "sh \<equiv> shs ! i"
  obtains q where "DecodeEntry (take (limit - p) (drop p (it_data it))) =
      Some (of_nat sh, of_nat (length k - sh), of_nat (length v), q)"
    "p < limit" "drop (limit - length q) (it_data it) = drop sh k @ v @ drop (length (chunks es shs (Suc i))) (it_data it)"
    "limit - length q + length (drop sh k @ v) = length (chunks es shs (Suc i))"
    "sh \<le> length k" "length k < 2 ^ 32" "length v < 2 ^ 32"
proof
  let ?s = "length (chunks es shs (Suc i))"
  let ?rest = "take (limit - ?s) (drop ?s (it_data it))"
  let ?q = "drop sh k @ v @ ?rest" and ?e = "entry_bytes sh k v"
  have d: "it_data it = layout_bytes es shs ris" and lay: "layout es shs ris" using assms(1) by (simp_all add: reads_def)
  show sh: "sh \<le> length k" using lay assms(2) by (auto simp: layout_def sh_def k_def)
  have c: "chunk es shs i = ?e" by (simp add: chunk_def sh_def k_def v_def)
  have suc: "?s = p + length ?e" by (simp add: chunks_Suc p_def c)
  have le: "?s \<le> limit" using chunks_mono [of "Suc i" "length es"] assms(2) by (simp add: limit_def)
  have dp: "drop p (it_data it) = ?e @ drop ?s (it_data it)" using chunk_at [OF assms(2)] by (simp add: d p_def c)
  have lim: "limit < 2 ^ 32" using reads_sizes(1) [OF assms(1)] by (simp add: limit_def)
  have rest: "length ?rest = limit - ?s" by (simp add: d limit_def layout_bytes_def)
  show k: "length k < 2 ^ 32" using key_length_bound [OF lay assms(2)] le lim by (simp add: k_def)
  have e: "length ?e \<ge> length (drop sh k @ v)" by (simp add: entry_bytes_def)
  show v: "length v < 2 ^ 32" using e suc le lim by simp
  show "p < limit" using suc le entry_bytes_pos [of sh k v] by linarith
  have "take (limit - p) (drop p (it_data it)) = ?e @ ?rest" using le by (simp add: dp suc)
  then show "DecodeEntry (take (limit - p) (drop p (it_data it))) = Some (of_nat sh, of_nat (length k - sh), of_nat (length v), ?q)"
    using DecodeEntry_entry [OF sh k v, of ?rest] e suc le lim rest by simp
  have pos: "limit - length ?q = p + (length ?e - length (drop sh k @ v))" using e suc le rest by simp
  show "limit - length ?q + length (drop sh k @ v) = ?s" using pos e suc by linarith
  have "drop (limit - length ?q) (it_data it) = drop (length ?e - length (drop sh k @ v)) (drop p (it_data it))"
    by (simp only: pos drop_drop add.commute)
  also have "\<dots> = (drop sh k @ v) @ drop ?s (it_data it)" unfolding dp by (simp add: entry_bytes_def)
  finally show "drop (limit - length ?q) (it_data it) = drop sh k @ v @ drop ?s (it_data it)" by simp
qed

lemma ParseNextKey_entry:
  assumes "reads es shs ris it" "before es shs it i"
  obtains it' where "ParseNextKey it = Some (i < length es, it')" "reads es shs ris it'" "positioned es shs it' i"
proof (cases "i < length es")
  case True
  let ?p = "length (chunks es shs i)" and ?limit = "length (chunks es shs (length es))"
  let ?k = "fst (es ! i)" and ?v = "snd (es ! i)" and ?sh = "shs ! i"
  obtain q where q: "DecodeEntry (take (?limit - ?p) (drop ?p (it_data it))) =
      Some (of_nat ?sh, of_nat (length ?k - ?sh), of_nat (length ?v), q)"
    "?p < ?limit" "drop (?limit - length q) (it_data it) = drop ?sh ?k @ ?v @ drop (length (chunks es shs (Suc i))) (it_data it)"
    "?limit - length q + length (drop ?sh ?k @ ?v) = length (chunks es shs (Suc i))"
    "?sh \<le> length ?k" "length ?k < 2 ^ 32" "length ?v < 2 ^ 32"
    using DecodeEntry_layout [OF assms(1) True] by blast
  let ?pos = "?limit - length q"
  have u: "unat (of_nat ?sh :: 32 word) = ?sh" "unat (of_nat (length ?k - ?sh) :: 32 word) = length ?k - ?sh"
    "unat (of_nat (length ?v) :: 32 word) = length ?v" "unat (of_nat ?p :: 32 word) = ?p"
    by (rule unat_of_nat_32, use q(5-7) reads_sizes(1) [OF assms(1), of i] True in simp)+
  have b: "NextEntryOffset it = Some (of_nat ?p)" "it_restart_index it < it_num_restarts it" "?sh \<le> length (it_key it)"
    "take ?sh (it_key it) = take ?sh ?k" using assms(2) True by (simp_all add: before_def)
  have "length (chunks es shs (Suc i)) \<le> length (it_data it)"
    using chunks_mono [of "Suc i" "length es" es shs] True assms(1) by (simp add: reads_def layout_bytes_def)
  then have inside: "\<not> ?pos + (length ?k - ?sh) > length (it_data it)" using q(4) by simp
  have key: "take ?sh (it_key it) @ take (length ?k - ?sh) (drop ?pos (it_data it)) = ?k"
    unfolding b(4) q(3) by simp
  have val: "take (length ?v) (drop (?pos + (length ?k - ?sh)) (it_data it)) = ?v"
  proof -
    have "drop (?pos + (length ?k - ?sh)) (it_data it) = drop (length ?k - ?sh) (drop ?pos (it_data it))"
      by (simp only: drop_drop add.commute)
    then show ?thesis unfolding q(3) by simp
  qed
  define it2 where "it2 = it\<lparr>it_current := of_nat ?p, it_key := ?k, it_value := Some (?pos + (length ?k - ?sh), length ?v)\<rparr>"
  define it' where "it' = it2\<lparr>it_restart_index := advance_restart it2 (it_restart_index it2)\<rparr>"
  have not_le_p: "\<not> ?limit \<le> ?p" using q(2) by simp
  have "ParseNextKey it = Some (True, it')"
    unfolding ParseNextKey_def b(1) option.case Let_def reads_sizes(2) [OF assms(1)] u(4) if_not_P [OF not_le_p] q(1)
      prod.case u(1-3) if_not_P [OF inside]
    using b(3) key by (simp add: it'_def it2_def)
  moreover have "reads es shs ris it'" using assms(1) by (rule reads_cong) (simp_all add: it'_def it2_def)
  moreover have "positioned es shs it' i"
  proof -
    have "NextEntryOffset it' = Some (of_nat (length (chunks es shs (Suc i))))"
      using q(4) by (simp add: it'_def it2_def NextEntryOffset_def flip: of_nat_add) (simp add: add.assoc)
    moreover have "it_restart_index it' < it_num_restarts it'"
      using advance_restart_bound [of "it_restart_index it2" it2] b(2) by (simp add: it'_def it2_def)
    moreover have "shs ! Suc i \<le> length ?k \<and> take (shs ! Suc i) ?k = take (shs ! Suc i) (fst (es ! Suc i))" if "Suc i < length es"
      using assms(1) that unfolding reads_def layout_def prev_key_def by fastforce
    ultimately show ?thesis
      using True val by (simp add: positioned_def before_def it_value_bytes_def it'_def it2_def)
  qed
  ultimately show ?thesis using True that by simp
next
  case False
  let ?it = "it\<lparr>it_current := it_restarts it, it_restart_index := it_num_restarts it\<rparr>"
  have "i = length es" using assms(2) False by (simp add: before_def)
  then have "NextEntryOffset it = Some (it_restarts it)" using assms by (simp add: before_def reads_def)
  then have "ParseNextKey it = Some (False, ?it)" by (simp add: ParseNextKey_def Let_def)
  moreover have "reads es shs ris ?it" using assms(1) by (rule reads_cong) simp_all
  ultimately show ?thesis using False that by (simp add: positioned_def)
qed

lemma positioned_before: "positioned es shs it i \<Longrightarrow> i < length es \<Longrightarrow> before es shs it (Suc i)"
  by (simp add: positioned_def)

text \<open>A scan stops at the first entry where its condition holds, or at the end.\<close>

lemma scan_layout:
  assumes "\<And>m it'. reads es shs ris it' \<Longrightarrow> m < length es \<Longrightarrow> positioned es shs it' m \<Longrightarrow> stop it' \<longleftrightarrow> P m"
    and "j \<le> length es" "j < length es \<Longrightarrow> P j"
  shows "reads es shs ris it \<Longrightarrow> before es shs it i \<Longrightarrow> i \<le> j \<Longrightarrow> (\<forall>m. i \<le> m \<and> m < j \<longrightarrow> \<not> P m) \<Longrightarrow> length es - i < k \<Longrightarrow>
    \<exists>it'. scan k stop it = Some (Some it') \<and> reads es shs ris it' \<and> positioned es shs it' j"
proof (induction k arbitrary: i it)
  case 0 then show ?case by simp
next
  case (Suc k)
  obtain it1 where it1: "ParseNextKey it = Some (i < length es, it1)" "reads es shs ris it1" "positioned es shs it1 i"
    by (rule ParseNextKey_entry [OF Suc.prems(1,2)])
  show ?case
  proof (cases "i < length es")
    case False
    then have "i = j" using Suc.prems(3) assms(2) by simp
    then show ?thesis using it1 False by (auto simp: Suc)
  next
    case True
    note stop = assms(1) [OF it1(2) True it1(3)]
    show ?thesis
    proof (cases "i = j")
      case True
      then show ?thesis using it1 stop \<open>i < length es\<close> assms(3) by simp
    next
      case False
      then have "\<not> P i" "Suc i \<le> j" using Suc.prems(3,4) by auto
      have k: "length es - Suc i < k" using Suc.prems(5) True by simp
      then obtain it' where "scan k stop it1 = Some (Some it')" "reads es shs ris it'" "positioned es shs it' j"
        using Suc.IH [OF it1(2) positioned_before [OF it1(3) True] \<open>Suc i \<le> j\<close> _ k] Suc.prems(4) by auto
      then show ?thesis using it1(1) True stop \<open>\<not> P i\<close> by simp
    qed
  qed
qed

lemma restart_before:
  assumes "reads es shs ris it" "j < length ris"
  shows "before es shs (SeekToRestartPoint (of_nat j) it) (ris ! j)" "reads es shs ris (SeekToRestartPoint (of_nat j) it)"
proof -
  have lay: "layout es shs ris" using assms(1) by (simp add: reads_def)
  have r: "ris ! j \<le> length es" "ris ! j < length es \<Longrightarrow> shs ! (ris ! j) = 0"
    using lay nth_mem [OF assms(2)] layout_restarts_le [OF lay] by (simp_all add: layout_def)
  have "unat (of_nat (length (chunks es shs (ris ! j))) :: 32 word) = length (chunks es shs (ris ! j))"
    using reads_sizes(1) [OF assms(1) r(1)] by (rule unat_of_nat_32)
  moreover have "of_nat j < it_num_restarts it"
    using assms(2) reads_sizes(3,4) [OF assms(1)] by (simp add: word_less_nat_alt unat_of_nat_32)
  ultimately show "before es shs (SeekToRestartPoint (of_nat j) it) (ris ! j)"
    using r GetRestartPoint_layout [OF assms] by (simp add: before_def SeekToRestartPoint_def NextEntryOffset_def)
  show "reads es shs ris (SeekToRestartPoint (of_nat j) it)"
    using assms(1) by (rule reads_cong) (simp_all add: SeekToRestartPoint_def)
qed

text \<open>The operations of the iterator, on a layout.\<close>

lemma SeekToFirst_layout:
  assumes "reads es shs ris it"
  obtains it' where "SeekToFirst it = Some it'" "reads es shs ris it'" "positioned es shs it' 0"
proof -
  have r: "0 < length ris" "ris ! 0 = 0" using assms by (cases ris; simp add: reads_def layout_def)+
  obtain it' where "ParseNextKey (SeekToRestartPoint 0 it) = Some (0 < length es, it')" "reads es shs ris it'" "positioned es shs it' 0"
    using ParseNextKey_entry [of es shs ris "SeekToRestartPoint 0 it" 0] restart_before [OF assms r(1)] r(2) by auto
  then show ?thesis using that by (simp add: SeekToFirst_def)
qed

lemma Next_layout:
  assumes "reads es shs ris it" "positioned es shs it i" "i < length es"
  obtains it' where "Next it = Some it'" "reads es shs ris it'" "positioned es shs it' (Suc i)"
proof -
  obtain it' where "ParseNextKey it = Some (Suc i < length es, it')" "reads es shs ris it'" "positioned es shs it' (Suc i)"
    by (rule ParseNextKey_entry [OF assms(1) positioned_before [OF assms(2,3)]])
  then show ?thesis using that by (simp add: Next_def)
qed

lemma ends_by_layout:
  assumes "reads es shs ris it" "m < length es" "positioned es shs it m" "i \<le> length es"
  shows "ends_by (of_nat (length (chunks es shs i))) it \<longleftrightarrow> i \<le> Suc m"
proof -
  have "unat (of_nat (length (chunks es shs j)) :: 32 word) = length (chunks es shs j)" if "j \<le> length es" for j
    using reads_sizes(1) [OF assms(1) that] by (rule unat_of_nat_32)
  then show ?thesis
    using assms(2,4) positioned_before [OF assms(3,2)]
    by (simp add: ends_by_def before_def word_less_nat_alt not_less chunks_le_iff)
qed

lemma SeekToLast_layout:
  assumes "reads es shs ris it" "length es < k"
  obtains it' where "SeekToLast k it = Some (Some it')" "reads es shs ris it'" "positioned es shs it' (length es - 1)"
proof -
  let ?j = "length ris - 1"
  have lay: "layout es shs ris" and r: "?j < length ris" using assms(1) by (simp_all add: reads_def layout_def)
  have num: "it_num_restarts it - 1 = of_nat ?j" using assms(1) r by (simp add: reads_def of_nat_diff Suc_leI)
  have i: "ris ! ?j \<le> length es - 1" using layout_restarts [OF lay nth_mem [OF r]] by auto
  have "\<exists>it'. scan k (ends_by (it_restarts it)) (SeekToRestartPoint (of_nat ?j) it) = Some (Some it') \<and>
      reads es shs ris it' \<and> positioned es shs it' (length es - 1)"
  proof (rule scan_layout [where P = "\<lambda>m. length es \<le> Suc m"])
    show "ends_by (it_restarts it) it' \<longleftrightarrow> length es \<le> Suc m" if "reads es shs ris it'" "m < length es" "positioned es shs it' m" for m it'
      using ends_by_layout [OF that order_refl] assms(1) by (simp add: reads_def)
  qed (use i assms(2) restart_before [OF assms(1) r] in auto)
  then show ?thesis using that by (auto simp: SeekToLast_def num)
qed

lemma restart_ge_layout:
  assumes "reads es shs ris it" "i \<le> length es" "j < length ris"
  shows "GetRestartPoint it (of_nat j) \<ge> of_nat (length (chunks es shs i)) \<longleftrightarrow> i \<le> ris ! j"
proof -
  have "ris ! j \<le> length es" using assms(1) nth_mem [OF assms(3)] layout_restarts_le by (auto simp: reads_def)
  then show ?thesis
    unfolding GetRestartPoint_layout [OF assms(1,3)]
    using reads_sizes(1) [OF assms(1)] assms(2) by (simp add: word_le_nat_alt unat_of_nat_32 chunks_le_iff)
qed

lemma prev_restart_layout:
  assumes "reads es shs ris it" "i \<le> length es"
  shows "j < length ris \<Longrightarrow> prev_restart (of_nat (length (chunks es shs i))) it (of_nat j) = None \<and> i = 0 \<or>
    (\<exists>j'. prev_restart (of_nat (length (chunks es shs i))) it (of_nat j) = Some (of_nat j') \<and> j' < length ris \<and> ris ! j' < i)"
proof (induction j)
  case 0
  then have "ris ! 0 = 0" using assms(1) by (cases ris) (auto simp: reads_def layout_def)
  then show ?case using restart_ge_layout [OF assms 0] 0 by (auto simp: prev_restart.simps [of _ _ 0] intro!: exI [of _ 0])
next
  case (Suc j)
  have nz: "(of_nat (Suc j) :: 32 word) \<noteq> 0" "of_nat (Suc j) - 1 = (of_nat j :: 32 word)"
  proof -
    have "unat (of_nat (Suc j) :: 32 word) = Suc j"
      using Suc.prems reads_sizes(4) [OF assms(1)] by (intro unat_of_nat_32) linarith
    then show "(of_nat (Suc j) :: 32 word) \<noteq> 0" by (metis nat.simps(3) unat_0)
  qed simp
  show ?case
  proof (cases "i \<le> ris ! Suc j")
    case True
    then have "prev_restart (of_nat (length (chunks es shs i))) it (of_nat (Suc j)) =
        prev_restart (of_nat (length (chunks es shs i))) it (of_nat j)"
      using restart_ge_layout [OF assms Suc.prems] nz by (subst prev_restart.simps) simp
    then show ?thesis using Suc by simp
  next
    case False
    then have "prev_restart (of_nat (length (chunks es shs i))) it (of_nat (Suc j)) = Some (of_nat (Suc j))"
      using restart_ge_layout [OF assms Suc.prems] by (subst prev_restart.simps) (simp del: of_nat_Suc)
    then show ?thesis using False Suc.prems by (intro disjI2 exI [of _ "Suc j"]) simp
  qed
qed

lemma Prev_layout:
  assumes "reads es shs ris it" "positioned es shs it i" "i < length es" "length es < k"
  obtains it' where "Prev k it = Some (Some it')" "reads es shs ris it'"
    "positioned es shs it' (if i = 0 then length es else i - 1)"
proof -
  let ?c = "of_nat (length (chunks es shs i)) :: 32 word"
  have cur: "it_current it = ?c" and idx: "it_restart_index it < it_num_restarts it"
    using assms(2,3) positioned_before [OF assms(2,3)] by (simp_all add: positioned_def before_def)
  define j where "j = unat (it_restart_index it)"
  have j: "it_restart_index it = of_nat j" "j < length ris"
    using idx reads_sizes(3) [OF assms(1)] by (simp_all add: j_def word_less_nat_alt)
  have i: "i \<le> length es" using assms(3) by simp
  from prev_restart_layout [OF assms(1) i j(2)] show ?thesis
  proof (elim disjE exE conjE)
    assume none: "prev_restart ?c it (of_nat j) = None" "i = 0"
    let ?it = "it\<lparr>it_current := it_restarts it, it_restart_index := it_num_restarts it\<rparr>"
    have "reads es shs ris ?it" using assms(1) by (rule reads_cong) simp_all
    then show ?thesis using none j(1) cur that [of ?it] by (simp add: Prev_def positioned_def)
  next
    fix j' assume j': "prev_restart ?c it (of_nat j) = Some (of_nat j')" "j' < length ris" "ris ! j' < i"
    have "\<exists>it'. scan k (ends_by ?c) (SeekToRestartPoint (of_nat j') it) = Some (Some it') \<and> reads es shs ris it' \<and>
        positioned es shs it' (i - 1)"
    proof (rule scan_layout [where P = "\<lambda>m. i \<le> Suc m"])
      show "ends_by ?c it' \<longleftrightarrow> i \<le> Suc m" if "reads es shs ris it'" "m < length es" "positioned es shs it' m" for m it'
        using ends_by_layout [OF that i] .
    qed (use j'(3) assms(3,4) restart_before [OF assms(1) j'(2)] in auto)
    then show ?thesis using j' j(1) cur that by (auto simp: Prev_def Let_def)
  qed
qed

text \<open>
  The binary search ends at the first restart point or at one whose key is below the target. It reads the keys of restart
  points from the block.
\<close>

lemma mid_between:
  fixes l r :: nat
  assumes "l < r" "r < 2 ^ 31"
  shows "(of_nat l + of_nat r + 1) div 2 = (of_nat ((l + r + 1) div 2) :: 32 word)" "l < (l + r + 1) div 2" "(l + r + 1) div 2 \<le> r"
proof -
  have "unat (of_nat (l + r + 1) :: 32 word) = l + r + 1" using assms by (intro unat_of_nat_32) simp
  moreover have "(of_nat l + of_nat r + 1 :: 32 word) = of_nat (l + r + 1)" by simp
  ultimately have "unat ((of_nat l + of_nat r + 1 :: 32 word) div 2) = (l + r + 1) div 2" by (simp only: unat_div) simp
  also have "\<dots> = unat (of_nat ((l + r + 1) div 2) :: 32 word)" using assms by (intro unat_of_nat_32 [symmetric]) simp
  finally show "(of_nat l + of_nat r + 1) div 2 = (of_nat ((l + r + 1) div 2) :: 32 word)" by (rule unat_word_inject)
qed (use assms in auto)

lemma restart_key_layout:
  assumes "reads es shs ris it" "0 < m" "m < length ris"
  obtains q where "DecodeEntry (take (unat (it_restarts it) - unat (GetRestartPoint it (of_nat m))) (drop (unat (GetRestartPoint it (of_nat m))) (it_data it))) =
      Some (0, of_nat (length (fst (es ! (ris ! m)))), of_nat (length (snd (es ! (ris ! m)))), q)"
    "unat (it_restarts it) - length q + length (fst (es ! (ris ! m))) \<le> length (it_data it)"
    "take (length (fst (es ! (ris ! m)))) (drop (unat (it_restarts it) - length q) (it_data it)) = fst (es ! (ris ! m))"
    "length (fst (es ! (ris ! m))) < 2 ^ 32"
proof -
  let ?r = "ris ! m"
  have lay: "layout es shs ris" using assms(1) by (simp add: reads_def)
  have "?r = tl ris ! (m - 1)" "m - 1 < length (tl ris)" using assms(2,3) by (simp_all add: nth_tl)
  then have r: "?r < length es" using lay unfolding layout_def by (metis nth_mem)
  have sh: "shs ! ?r = 0" using lay r nth_mem [OF assms(3)] by (simp add: layout_def)
  have off: "unat (GetRestartPoint it (of_nat m)) = length (chunks es shs ?r)"
    unfolding GetRestartPoint_layout [OF assms(1,3)] using reads_sizes(1) [OF assms(1), of ?r] r by (simp add: unat_of_nat_32)
  obtain q where q: "DecodeEntry (take (length (chunks es shs (length es)) - length (chunks es shs ?r)) (drop (length (chunks es shs ?r)) (it_data it))) =
      Some (of_nat (shs ! ?r), of_nat (length (fst (es ! ?r)) - shs ! ?r), of_nat (length (snd (es ! ?r))), q)"
    "drop (length (chunks es shs (length es)) - length q) (it_data it) =
      drop (shs ! ?r) (fst (es ! ?r)) @ snd (es ! ?r) @ drop (length (chunks es shs (Suc ?r))) (it_data it)"
    "length (chunks es shs (length es)) - length q + length (drop (shs ! ?r) (fst (es ! ?r)) @ snd (es ! ?r)) = length (chunks es shs (Suc ?r))"
    "length (fst (es ! ?r)) < 2 ^ 32"
    using DecodeEntry_layout [OF assms(1) r] by blast
  have "length (chunks es shs (Suc ?r)) \<le> length (it_data it)"
    using chunks_mono [of "Suc ?r" "length es" es shs] r assms(1) by (simp add: reads_def layout_bytes_def)
  then show ?thesis
    using that [of q] q unfolding off reads_sizes(2) [OF assms(1)] sh by simp
qed

context comparator
begin

lemma seek_search_layout:
  assumes "reads es shs ris it"
  shows "l \<le> r \<Longrightarrow> r < length ris \<Longrightarrow> l = 0 \<or> Compare cmp (fst (es ! (ris ! l))) target < 0 \<Longrightarrow> r - l < k \<Longrightarrow>
    \<exists>j < length ris. seek_search k cmp target it (of_nat l) (of_nat r) = Some (Some (Inr (of_nat j))) \<and>
      (j = 0 \<or> Compare cmp (fst (es ! (ris ! j))) target < 0)"
proof (induction k arbitrary: l r)
  case 0 then show ?case by simp
next
  case (Suc k)
  have "4 * length ris + 4 \<le> length (layout_bytes es shs ris)"
    unfolding layout_bytes_def length_append length_fixed32_array by (simp add: restart_offsets_def)
  then have r31: "r < 2 ^ 31" using Suc.prems(2) assms by (simp add: reads_def)
  have lr: "(of_nat l :: 32 word) < of_nat r \<longleftrightarrow> l < r"
    using r31 Suc.prems(1) by (simp add: word_less_nat_alt unat_of_nat_32)
  show ?case
  proof (cases "l < r")
    case False
    then show ?thesis using Suc.prems lr by (intro exI [of _ l]) auto
  next
    case True
    define mid where "mid = (l + r + 1) div 2"
    note m = mid_between [OF True r31, folded mid_def]
    have "0 < mid" "mid < length ris" using m Suc.prems(2) by linarith+
    then obtain q where q: "DecodeEntry (take (unat (it_restarts it) - unat (GetRestartPoint it (of_nat mid)))
        (drop (unat (GetRestartPoint it (of_nat mid))) (it_data it))) =
          Some (0, of_nat (length (fst (es ! (ris ! mid)))), of_nat (length (snd (es ! (ris ! mid)))), q)"
      "unat (it_restarts it) - length q + length (fst (es ! (ris ! mid))) \<le> length (it_data it)"
      "take (length (fst (es ! (ris ! mid)))) (drop (unat (it_restarts it) - length q) (it_data it)) = fst (es ! (ris ! mid))"
      "length (fst (es ! (ris ! mid))) < 2 ^ 32"
      by (rule restart_key_layout [OF assms])
    have m1: "of_nat mid - 1 = (of_nat (mid - 1) :: 32 word)" using m(2) by (simp add: of_nat_diff)
    have step: "seek_search (Suc k) cmp target it (of_nat l) (of_nat r) =
        (if Compare cmp (fst (es ! (ris ! mid))) target < 0 then seek_search k cmp target it (of_nat mid) (of_nat r)
         else seek_search k cmp target it (of_nat l) (of_nat (mid - 1)))"
      using True lr q by (simp add: m(1) Let_def unat_of_nat_32 [OF q(4)] m1)
    show ?thesis
    proof (cases "Compare cmp (fst (es ! (ris ! mid))) target < 0")
      case True
      have "r - mid < k" using Suc.prems(4) m(2,3) by linarith
      then show ?thesis using Suc.IH [OF m(3) Suc.prems(2)] True step by simp
    next
      case False
      have "l \<le> mid - 1" "mid - 1 < length ris" "mid - 1 - l < k" using Suc.prems(2,4) m(2,3) by linarith+
      then show ?thesis using Suc.IH [OF _ _ Suc.prems(3)] False step by simp
    qed
  qed
qed

definition ordered :: "(slice \<times> slice) list \<Rightarrow> bool" where
  "ordered es \<longleftrightarrow> sorted_wrt (\<lambda>a b. Compare cmp (fst a) (fst b) < 0) es \<and> (\<forall>e \<in> set es. valid (fst e))"

lemma Seek_layout:
  assumes "reads es shs ris it" "ordered es" "valid target" "length es + length ris < k"
  obtains it' where "Seek k cmp target it = Some (Some it')" "reads es shs ris it'"
    "positioned es shs it' (length (takeWhile (\<lambda>e. Compare cmp (fst e) target < 0) es))"
proof -
  let ?P = "\<lambda>e. Compare cmp (fst e) target < 0"
  let ?j = "length (takeWhile ?P es)"
  have lay: "layout es shs ris" and ne: "ris \<noteq> []" using assms(1) by (simp_all add: reads_def layout_def)
  have num: "it_num_restarts it - 1 = of_nat (length ris - 1)"
    using assms(1) ne by (simp add: reads_def of_nat_diff Suc_leI)
  obtain l where l: "l < length ris" "seek_search k cmp target it 0 (it_num_restarts it - 1) = Some (Some (Inr (of_nat l)))"
    "l = 0 \<or> ?P (es ! (ris ! l))"
  proof -
    have "length ris - 1 - 0 < k" "length ris - 1 < length ris" using ne assms(4) by (auto simp: less_diff_conv)
    then show ?thesis using seek_search_layout [OF assms(1), of 0 "length ris - 1" target k] that by (auto simp: num)
  qed
  have start: "ris ! l \<le> length es" "ris ! l = 0 \<or> ris ! l < length es"
    using layout_restarts [OF lay nth_mem [OF l(1)]] by auto
  have below: "?P (es ! m)" if "m < ris ! l" for m
  proof -
    have "ris ! 0 = 0" using lay by (cases ris) (auto simp: layout_def)
    then have "l \<noteq> 0" using that by (cases l) auto
    then have P: "?P (es ! (ris ! l))" using l(3) by simp
    have i: "ris ! l < length es" using start that by auto
    have "Compare cmp (fst (es ! m)) (fst (es ! (ris ! l))) < 0"
      using assms(2) i that by (simp add: ordered_def sorted_wrt_iff_nth_less)
    then show ?thesis using P assms(2,3) i that compare_trans [of "fst (es ! m)" "fst (es ! (ris ! l))" target] by (simp add: ordered_def)
  qed
  have "\<exists>it'. scan k (\<lambda>it. Compare cmp (it_key it) target \<ge> 0) (SeekToRestartPoint (of_nat l) it) = Some (Some it') \<and>
      reads es shs ris it' \<and> positioned es shs it' ?j"
  proof (rule scan_layout [where P = "\<lambda>m. \<not> ?P (es ! m)" and i = "ris ! l"])
    show "Compare cmp (it_key it') target \<ge> 0 \<longleftrightarrow> \<not> ?P (es ! m)" if "m < length es" "positioned es shs it' m" for m it'
      using that by (simp add: positioned_def not_less)
    show "?j \<le> length es" by (rule length_takeWhile_le)
    show "\<not> ?P (es ! ?j)" if "?j < length es" using nth_length_takeWhile [OF that] .
    show "ris ! l \<le> ?j" using length_takeWhile_less_P_nth [of "ris ! l" ?P es] below start(1) by simp
    show "\<forall>m. ris ! l \<le> m \<and> m < ?j \<longrightarrow> \<not> \<not> ?P (es ! m)"
      by (metis nth_mem set_takeWhileD takeWhile_nth)
  qed (use restart_before [OF assms(1) l(1)] assms(4) in auto)
  then show ?thesis using that l(2) by (auto simp: Seek_def)
qed

end

section \<open>Reading what was built\<close>

text \<open>The entries from the position of the iterator on, and back.\<close>

fun drain :: "nat \<Rightarrow> block_iter \<Rightarrow> (slice \<times> slice) list option" where
  "drain 0 it = None"
| "drain (Suc k) it =
     (if Valid it then
        case Next it of None \<Rightarrow> None | Some it1 \<Rightarrow> map_option (Cons (it_key it, it_value_bytes it)) (drain k it1)
      else if is_ok (it_status it) then Some [] else None)"

fun drain_back :: "nat \<Rightarrow> nat \<Rightarrow> block_iter \<Rightarrow> (slice \<times> slice) list option" where
  "drain_back 0 fuel it = None"
| "drain_back (Suc k) fuel it =
     (if Valid it then
        case Prev fuel it of
          Some (Some it1) \<Rightarrow> map_option (Cons (it_key it, it_value_bytes it)) (drain_back k fuel it1)
        | _ \<Rightarrow> None
      else if is_ok (it_status it) then Some [] else None)"

lemma Valid_layout:
  assumes "reads es shs ris it" "positioned es shs it i" "i \<le> length es"
  shows "Valid it \<longleftrightarrow> i < length es" "is_ok (it_status it)"
proof -
  have "length (chunks es shs i) < length (chunks es shs (length es))" if "i < length es"
    using chunks_le_iff [of es shs "length es" i] that by simp
  then show "Valid it \<longleftrightarrow> i < length es"
    using assms reads_sizes(1) [OF assms(1), of i] reads_sizes(2) [OF assms(1)]
    by (cases "i < length es") (simp_all add: Valid_def positioned_def word_less_nat_alt unat_of_nat_32)
  show "is_ok (it_status it)" using assms(1) by (simp add: reads_def)
qed

lemma drain_layout:
  "reads es shs ris it \<Longrightarrow> positioned es shs it i \<Longrightarrow> i \<le> length es \<Longrightarrow> length es - i < k \<Longrightarrow> drain k it = Some (drop i es)"
proof (induction k arbitrary: i it)
  case 0 then show ?case by simp
next
  case (Suc k)
  note valid = Valid_layout [OF Suc.prems(1-3)]
  show ?case
  proof (cases "i < length es")
    case True
    then obtain it1 where it1: "Next it = Some it1" "reads es shs ris it1" "positioned es shs it1 (Suc i)"
      using Next_layout [OF Suc.prems(1,2)] by blast
    have "drain k it1 = Some (drop (Suc i) es)" using Suc.IH [OF it1(2,3)] True Suc.prems(4) by simp
    then show ?thesis using True valid it1(1) Suc.prems(2) by (simp add: positioned_def flip: Cons_nth_drop_Suc)
  next
    case False
    then show ?thesis using valid by simp
  qed
qed

lemma drain_back_layout:
  "reads es shs ris it \<Longrightarrow> positioned es shs it i \<Longrightarrow> i < length es \<Longrightarrow> Suc i < k \<Longrightarrow> length es < fuel \<Longrightarrow>
   drain_back k fuel it = Some (rev (take (Suc i) es))"
proof (induction i arbitrary: it k)
  case 0
  obtain k' where k: "k = Suc (Suc k')" using 0(4) by (cases k; cases "k - 1") auto
  obtain it1 where it1: "Prev fuel it = Some (Some it1)" "reads es shs ris it1" "positioned es shs it1 (length es)"
    using Prev_layout [OF 0(1,2,3,5)] by auto
  have v: "Valid it" "\<not> Valid it1" "is_ok (it_status it1)" using Valid_layout [OF 0(1,2)] Valid_layout [OF it1(2,3)] 0(3) by auto
  have e: "(it_key it, it_value_bytes it) = es ! 0" using 0(2,3) by (simp add: positioned_def)
  have "take (Suc 0) es = [es ! 0]" using 0(3) by (cases es) auto
  then show ?case using v it1(1) by (simp add: k e)
next
  case (Suc i)
  obtain k' where k: "k = Suc k'" using Suc.prems(4) by (cases k) auto
  obtain it1 where it1: "Prev fuel it = Some (Some it1)" "reads es shs ris it1" "positioned es shs it1 i"
    using Prev_layout [OF Suc.prems(1,2,3,5)] by auto
  have "drain_back k' fuel it1 = Some (rev (take (Suc i) es))"
    using Suc.IH [OF it1(2,3)] Suc.prems k by simp
  then show ?case
    using Valid_layout [OF Suc.prems(1,2)] Suc.prems(2,3) it1(1) by (simp add: k positioned_def take_Suc_conv_app_nth [of "Suc i"])
qed

lemma NewIterator_built:
  assumes "length (build_block interval es) < 2 ^ 32"
  obtains shs ris it where "NewIterator (new_Block (build_block interval es)) = Block_iterator it" "reads es shs ris it"
    "length es + length ris < length (build_block interval es)"
proof -
  obtain shs ris where lay: "layout es shs ris" and b: "build_block interval es = layout_bytes es shs ris"
    by (rule build_block_layout)
  let ?C = "chunks es shs (length es)" and ?n = "length ris" and ?d = "layout_bytes es shs ris"
  have len: "length ?d = length ?C + 4 * ?n + 4"
    unfolding layout_bytes_def length_append length_fixed32_array by (simp add: restart_offsets_def)
  have d: "?d = (?C @ concat (map EncodeFixed32 (restart_offsets es shs ris))) @ EncodeFixed32 (of_nat ?n)" by (simp add: layout_bytes_def)
  have "drop (length ?d - 4) ?d = EncodeFixed32 (of_nat ?n)"
    unfolding d by (simp only: length_append length_EncodeFixed add_diff_cancel_right' drop_append diff_self_eq_0) simp
  then have num: "NumRestarts ?d = of_nat ?n" by (simp add: NumRestarts_def)
  have n: "unat (of_nat ?n :: 32 word) = ?n" using assms b len by (intro unat_of_nat_32) simp
  have pos: "0 < ?n" using lay by (simp add: layout_def)
  define it where "it = new_Iter ?d (of_nat (length ?C)) (of_nat ?n)"
  have "NewIterator (new_Block ?d) = Block_iterator it"
  proof -
    have "(of_nat ?n :: 32 word) \<noteq> 0" using n pos by (metis less_numeral_extra(3) unat_0)
    moreover have "of_nat (length ?d) - ucast (1 + of_nat ?n :: 32 word) * 4 = (of_nat (length ?C) :: 32 word)"
      unfolding len by (simp add: algebra_simps)
    ultimately show ?thesis using n len by (simp add: NewIterator_def new_Block_def num it_def Let_def)
  qed
  moreover have "reads es shs ris it" using lay assms b by (simp add: reads_def it_def new_Iter_def)
  moreover have "length es \<le> length ?C" using chunks_size by auto
  ultimately show ?thesis using that [of it shs ris] b len by simp
qed

end
