(* ===== verification/Ldb_Format.thy ===== *)
theory Ldb_Format
  imports Ldb_Block Ldb_Crc
begin

text \<open>
  The file format of the key-value store's tables (\<^verbatim>\<open>leveldb-library/table/format.h\<close>, \<^verbatim>\<open>table/format.cc\<close>): handles of blocks, the footer, and reading a
  block with its trailer of type and checksum.

  A file for random reading is a function from offset and length to a status, the bytes read, and whether they are in the
  caller's buffer (\<^verbatim>\<open>leveldb/env.h\<close>). Compression is not part of the build (\<^verbatim>\<open>HAVE_SNAPPY\<close> is not set), so the functions of
  \<^verbatim>\<open>port/port_stdcxx.h\<close> for it always fail, and a compressed block is reported as damaged. \<open>None\<close> is undefined behaviour: a footer of fewer than 48
  bytes, or a handle whose size overflows with the trailer.
\<close>

section \<open>Handles and footer\<close>

record BlockHandle =
  bh_offset :: "64 word"
  bh_size :: "64 word"

definition new_BlockHandle :: BlockHandle where
  "new_BlockHandle = \<lparr>bh_offset = NOT 0, bh_size = NOT 0\<rparr>"

definition BlockHandle_EncodeTo :: "byte list \<Rightarrow> BlockHandle \<Rightarrow> byte list" where
  "BlockHandle_EncodeTo dst h = PutVarint64 (PutVarint64 dst (bh_offset h)) (bh_size h)"

definition BlockHandle_DecodeFrom :: "slice \<Rightarrow> BlockHandle \<Rightarrow> status \<times> BlockHandle \<times> slice" where
  "BlockHandle_DecodeFrom input h =
     (case GetVarint64 input of
        (None, input1) \<Rightarrow> (Corruption ''bad block handle'', h, input1)
      | (Some off, input1) \<Rightarrow>
          (case GetVarint64 input1 of
             (None, input2) \<Rightarrow> (Corruption ''bad block handle'', h\<lparr>bh_offset := off\<rparr>, input2)
           | (Some sz, input2) \<Rightarrow> (OK, \<lparr>bh_offset = off, bh_size = sz\<rparr>, input2)))"

record Footer =
  ft_metaindex_handle :: BlockHandle
  ft_index_handle :: BlockHandle

definition kTableMagicNumber :: "64 word" where
  "kTableMagicNumber = 0xDB4775248B80FB57"

definition kMaxEncodedLength :: nat where
  "kMaxEncodedLength = 10 + 10"

definition kEncodedLength :: nat where
  "kEncodedLength = 2 * kMaxEncodedLength + 8"

definition kBlockTrailerSize :: nat where
  "kBlockTrailerSize = 5"

text \<open>The \<^verbatim>\<open>resize\<close> of a string.\<close>

definition string_resize :: "nat \<Rightarrow> byte list \<Rightarrow> byte list" where
  "string_resize n s = take n s @ replicate (n - length s) 0"

definition Footer_EncodeTo :: "byte list \<Rightarrow> Footer \<Rightarrow> byte list" where
  "Footer_EncodeTo dst f =
     (let handles = BlockHandle_EncodeTo (BlockHandle_EncodeTo dst (ft_metaindex_handle f)) (ft_index_handle f);
          padded = string_resize (2 * kMaxEncodedLength) handles
      in PutFixed32 (PutFixed32 padded (ucast (kTableMagicNumber AND 0xFFFFFFFF))) (ucast (drop_bit 32 kTableMagicNumber)))"

definition Footer_DecodeFrom :: "slice \<Rightarrow> Footer \<Rightarrow> (status \<times> Footer \<times> slice) option" where
  "Footer_DecodeFrom input f =
     (if length input < kEncodedLength then None
      else Some
        (let magic_ptr = drop (kEncodedLength - 8) input;
             magic_lo = DecodeFixed32 magic_ptr; magic_hi = DecodeFixed32 (drop 4 magic_ptr);
             magic = push_bit 32 (ucast magic_hi) OR ucast magic_lo :: 64 word in
         if magic \<noteq> kTableMagicNumber then (Corruption ''not an sstable (bad magic number)'', f, input)
         else
           case BlockHandle_DecodeFrom input (ft_metaindex_handle f) of
             (s1, meta, input1) \<Rightarrow>
               if \<not> is_ok s1 then (s1, f\<lparr>ft_metaindex_handle := meta\<rparr>, input1)
               else
                 case BlockHandle_DecodeFrom input1 (ft_index_handle f) of
                   (s2, index, input2) \<Rightarrow>
                     (s2, \<lparr>ft_metaindex_handle = meta, ft_index_handle = index\<rparr>,
                      if is_ok s2 then drop kEncodedLength input else input2)))"

section \<open>Reading a block\<close>

type_synonym RandomAccessFile = "64 word \<Rightarrow> nat \<Rightarrow> status \<times> slice \<times> bool"

datatype CompressionType = kNoCompression | kSnappyCompression

fun compression_code :: "CompressionType \<Rightarrow> byte" where
  "compression_code kNoCompression = 0"
| "compression_code kSnappyCompression = 1"

record BlockContents =
  bc_data :: slice
  bc_cachable :: bool
  bc_heap_allocated :: bool

definition Snappy_Compress :: "byte list \<Rightarrow> byte list option" where
  "Snappy_Compress input = None"

definition Snappy_GetUncompressedLength :: "byte list \<Rightarrow> nat option" where
  "Snappy_GetUncompressedLength input = None"

definition ReadBlock :: "RandomAccessFile \<Rightarrow> nat \<Rightarrow> bool \<Rightarrow> BlockHandle \<Rightarrow> (status \<times> BlockContents) option" where
  "ReadBlock file address verify_checksums handle =
     (let none = \<lparr>bc_data = [], bc_cachable = False, bc_heap_allocated = False\<rparr>;
          n = unat (bh_size handle); want = unat (bh_size handle + of_nat kBlockTrailerSize) in
      case file (bh_offset handle) want of
        (s, contents, in_buf) \<Rightarrow>
          if \<not> is_ok s then Some (s, none)
          else if length contents \<noteq> want then Some (Corruption ''truncated block read'', none)
          else if want \<noteq> n + kBlockTrailerSize then None
          else if verify_checksums \<and> Value address (take (n + 1) contents) \<noteq> Unmask (DecodeFixed32 (drop (n + 1) contents))
          then Some (Corruption ''block checksum mismatch'', none)
          else if contents ! n = compression_code kNoCompression
          then Some (OK, \<lparr>bc_data = take n contents, bc_cachable = in_buf, bc_heap_allocated = in_buf\<rparr>)
          else if contents ! n = compression_code kSnappyCompression then
            (case Snappy_GetUncompressedLength (take n contents) of
               None \<Rightarrow> Some (Corruption ''corrupted compressed block contents'', none)
             | Some _ \<Rightarrow> None)
          else Some (Corruption ''bad block type'', none))"

section \<open>Round trips\<close>

text \<open>A handle as an instance of the contract of encodings: the two numbers one after the other.\<close>

definition get_handle :: "byte list \<Rightarrow> (BlockHandle \<times> byte list) option" where
  "get_handle xs =
     (case BlockHandle_DecodeFrom xs new_BlockHandle of (s, h, rest) \<Rightarrow> if is_ok s then Some (h, rest) else None)"

lemma BlockHandle_Encode: "BlockHandle_EncodeTo dst h = dst @ EncodeVarint64 (bh_offset h) @ EncodeVarint64 (bh_size h)"
  by (simp add: BlockHandle_EncodeTo_def PutVarint64_def)

lemma BlockHandle_Decode_Encode [simp]:
  "BlockHandle_DecodeFrom (BlockHandle_EncodeTo [] h @ rest) h0 = (OK, h, rest)"
proof -
  have "GetVarint64 (EncodeVarint64 v @ ys) = (Some v, ys)" for v ys by (simp add: GetVarint_slices v64.get_put)
  then show ?thesis by (simp add: BlockHandle_DecodeFrom_def BlockHandle_Encode)
qed

interpretation handle: codec "BlockHandle_EncodeTo []" get_handle "\<lambda>_. True"
proof
  show "get_handle (BlockHandle_EncodeTo [] h @ rest) = Some (h, rest)" for h rest by (simp add: get_handle_def)
  show "suffix ys xs \<and> length ys < length xs" if got: "get_handle xs = Some (h, ys)" for xs ys h
  proof -
    obtain off in1 sz where "GetVarint64Ptr xs = Some (off, in1)" "GetVarint64Ptr in1 = Some (sz, ys)"
      using got by (auto simp: get_handle_def BlockHandle_DecodeFrom_def GetVarint_slices split: prod.splits option.splits if_splits)
    then show ?thesis using v64.get_consumes by (meson less_trans suffix_order.trans)
  qed
qed

lemma length_handle: "length (BlockHandle_EncodeTo [] h) \<le> kMaxEncodedLength"
  using length_EncodeVarint64(2) [of "bh_offset h"] length_EncodeVarint64(2) [of "bh_size h"]
  by (simp add: BlockHandle_Encode kMaxEncodedLength_def)

lemma magic_halves:
  "push_bit 32 (ucast (ucast (drop_bit 32 m) :: 32 word)) OR ucast (ucast (m AND 0xFFFFFFFF) :: 32 word) = m" for m :: "64 word"
proof -
  have m: "m AND 0xFFFFFFFF = take_bit 32 m" by (simp add: take_bit_eq_mask mask_eq_exp_minus_1)
  show ?thesis unfolding m by (rule bit_word_eqI) (auto simp: bit_simps)
qed

lemma Footer_bytes:
  "\<exists>pad. Footer_EncodeTo [] f =
     BlockHandle_EncodeTo [] (ft_metaindex_handle f) @ BlockHandle_EncodeTo [] (ft_index_handle f) @ pad @
     EncodeFixed32 (ucast (kTableMagicNumber AND 0xFFFFFFFF)) @ EncodeFixed32 (ucast (drop_bit 32 kTableMagicNumber)) \<and>
   length (Footer_EncodeTo [] f) = kEncodedLength"
proof -
  let ?h = "BlockHandle_EncodeTo [] (ft_metaindex_handle f) @ BlockHandle_EncodeTo [] (ft_index_handle f)"
  have "length ?h \<le> 2 * kMaxEncodedLength"
    using length_handle [of "ft_metaindex_handle f"] length_handle [of "ft_index_handle f"] by simp
  then show ?thesis
    by (intro exI [of _ "replicate (2 * kMaxEncodedLength - length ?h) 0"])
      (simp add: Footer_EncodeTo_def Let_def PutFixed32_def string_resize_def BlockHandle_Encode kEncodedLength_def)
qed

lemma Footer_Decode_Encode:
  "Footer_DecodeFrom (Footer_EncodeTo [] f @ rest) f0 = Some (OK, f, rest)"
proof -
  let ?m = kTableMagicNumber
  let ?lo = "EncodeFixed32 (ucast (?m AND 0xFFFFFFFF))" and ?hi = "EncodeFixed32 (ucast (drop_bit 32 ?m))"
  obtain pad where p: "Footer_EncodeTo [] f =
      BlockHandle_EncodeTo [] (ft_metaindex_handle f) @ BlockHandle_EncodeTo [] (ft_index_handle f) @ pad @ ?lo @ ?hi"
    and len: "length (Footer_EncodeTo [] f) = kEncodedLength" using Footer_bytes by blast
  let ?front = "BlockHandle_EncodeTo [] (ft_metaindex_handle f) @ BlockHandle_EncodeTo [] (ft_index_handle f) @ pad"
  have front: "length ?front = kEncodedLength - 8" using len unfolding p by simp
  have d: "drop (kEncodedLength - 8) (Footer_EncodeTo [] f @ rest) = ?lo @ ?hi @ rest"
    unfolding p front [symmetric] by simp
  have magic: "push_bit 32 (ucast (DecodeFixed32 (drop 4 (?lo @ ?hi @ rest)))) OR ucast (DecodeFixed32 (?lo @ ?hi @ rest)) = ?m"
    using magic_halves [of ?m] by (simp only: drop_append length_EncodeFixed DecodeFixed_Encode diff_self_eq_0) simp
  have "BlockHandle_DecodeFrom (Footer_EncodeTo [] f @ rest) h0 = (OK, ft_metaindex_handle f,
      BlockHandle_EncodeTo [] (ft_index_handle f) @ pad @ ?lo @ ?hi @ rest)" for h0
    unfolding p by simp
  then show ?thesis
    using len unfolding Footer_DecodeFrom_def Let_def d magic by simp
qed

text \<open>A file with known bytes, and a block in it with its trailer.\<close>

definition file_holds :: "RandomAccessFile \<Rightarrow> byte list \<Rightarrow> bool" where
  "file_holds file bytes \<longleftrightarrow> (\<forall>off n. \<exists>in_buf. file off n = (OK, take n (drop (unat off) bytes), in_buf))"

definition framed :: "byte list \<Rightarrow> byte list" where
  "framed contents = contents @ [0] @ EncodeFixed32 (Mask (crc32c 0 (contents @ [0])))"

lemma length_framed [simp]: "length (framed contents) = length contents + kBlockTrailerSize"
  by (simp add: framed_def kBlockTrailerSize_def)

lemma framed_parts:
  "take (length contents + 1) (framed contents) = contents @ [0]" "framed contents ! length contents = 0"
  "DecodeFixed32 (drop (length contents + 1) (framed contents)) = Mask (crc32c 0 (contents @ [0]))"
  "take (length contents) (framed contents) = contents"
  by (simp_all add: framed_def nth_append)

lemma ReadBlock_framed:
  assumes "file_holds file (pre @ framed contents @ suf)" "length pre < 2 ^ 64" "length contents + kBlockTrailerSize < 2 ^ 64"
  shows "\<exists>b. ReadBlock file address verify \<lparr>bh_offset = of_nat (length pre), bh_size = of_nat (length contents)\<rparr> =
    Some (OK, \<lparr>bc_data = contents, bc_cachable = b, bc_heap_allocated = b\<rparr>)"
proof -
  let ?n = "length contents"
  have n: "unat (of_nat ?n :: 64 word) = ?n" "unat (of_nat (length pre) :: 64 word) = length pre"
    using assms(2,3) by (simp_all add: unat_of_nat)
  have w: "unat (of_nat ?n + of_nat kBlockTrailerSize :: 64 word) = ?n + kBlockTrailerSize"
  proof -
    have "of_nat ?n + of_nat kBlockTrailerSize = (of_nat (?n + kBlockTrailerSize) :: 64 word)" by simp
    then show ?thesis using assms(3) by (simp only: unat_of_nat) simp
  qed
  obtain in_buf where "file (of_nat (length pre)) (?n + kBlockTrailerSize) =
      (OK, take (?n + kBlockTrailerSize) (drop (length pre) (pre @ framed contents @ suf)), in_buf)"
    using assms(1) n(2) unfolding file_holds_def by metis
  then have f: "file (of_nat (length pre)) (?n + kBlockTrailerSize) = (OK, framed contents, in_buf)" by simp
  have crc: "Value address (contents @ [0]) = Unmask (Mask (crc32c 0 (contents @ [0])))"
    by (simp add: Value_def Extend_crc32c Unmask_Mask)
  show ?thesis
    unfolding ReadBlock_def Let_def BlockHandle.simps n(1) w f prod.case framed_parts by (simp add: crc)
qed

end
