(* ===== verification/Ldb_Table.thy ===== *)
theory Ldb_Table
  imports Ldb_Format "HOL-Library.Multiset"
begin

text \<open>
  The tables of the key-value store: the builder (\<^verbatim>\<open>leveldb-library/table/table_builder.cc\<close>) and the reader (\<^verbatim>\<open>table/table.cc\<close>). A table is a
  sequence of data blocks, a filter block, a metaindex block that names the filter, an index block with a key and a handle
  for each data block, and the footer.

  The options are a record of the members that the two use. The file for writing, the file for reading and the block cache are
  parameters, records of functions on a state. \<open>address\<close> stands for the position of data in memory, on which only the speed of the
  checksum depends. A result of type \<open>run\<close> is \<open>None\<close> when the fuel of a block's loops does not suffice and \<open>Some None\<close> for undefined behaviour.
\<close>

section \<open>Options\<close>

record Options =
  op_comparator :: Comparator
  op_paranoid_checks :: bool
  op_block_size :: nat
  op_block_restart_interval :: int
  op_compression :: CompressionType
  op_filter_policy :: "(byte list \<times> FilterPolicy) option"

section \<open>Builder\<close>

record 'f TableBuilder =
  tb_options :: Options
  tb_index_block_options :: Options
  tb_file :: 'f
  tb_offset :: "64 word"
  tb_status :: status
  tb_data_block :: BlockBuilder
  tb_index_block :: BlockBuilder
  tb_last_key :: "byte list"
  tb_num_entries :: "64 word"
  tb_closed :: bool
  tb_filter_block :: "FilterBlockBuilder option"
  tb_pending_index_entry :: bool
  tb_pending_handle :: BlockHandle

definition tb_start_filter :: "64 word \<Rightarrow> 'f TableBuilder \<Rightarrow> 'f TableBuilder" where
  "tb_start_filter offset r =
     (case (op_filter_policy (tb_options r), tb_filter_block r) of
        (Some (_, policy), Some fb) \<Rightarrow> r\<lparr>tb_filter_block := Some (StartBlock policy offset fb)\<rparr>
      | _ \<Rightarrow> r)"

definition new_TableBuilder :: "Options \<Rightarrow> 'f \<Rightarrow> 'f TableBuilder" where
  "new_TableBuilder options file =
     tb_start_filter 0
       \<lparr>tb_options = options, tb_index_block_options = options\<lparr>op_block_restart_interval := 1\<rparr>, tb_file = file, tb_offset = 0,
        tb_status = OK, tb_data_block = new_BlockBuilder, tb_index_block = new_BlockBuilder, tb_last_key = [],
        tb_num_entries = 0, tb_closed = False,
        tb_filter_block = (case op_filter_policy options of None \<Rightarrow> None | Some _ \<Rightarrow> Some new_FilterBlockBuilder),
        tb_pending_index_entry = False, tb_pending_handle = new_BlockHandle\<rparr>"

text \<open>Whether the two options have the same comparator is a comparison of pointers, here an argument.\<close>

definition ChangeOptions :: "bool \<Rightarrow> Options \<Rightarrow> 'f TableBuilder \<Rightarrow> status \<times> 'f TableBuilder" where
  "ChangeOptions same_comparator options r =
     (if \<not> same_comparator then (InvalidArgument ''changing comparator while building table'', r)
      else (OK, r\<lparr>tb_options := options, tb_index_block_options := options\<lparr>op_block_restart_interval := 1\<rparr>\<rparr>))"

definition WriteRawBlock ::
    "'f WritableFile \<Rightarrow> nat \<Rightarrow> slice \<Rightarrow> CompressionType \<Rightarrow> 'f TableBuilder \<Rightarrow> BlockHandle \<times> 'f TableBuilder" where
  "WriteRawBlock ops address contents type r =
     (let handle = \<lparr>bh_offset = tb_offset r, bh_size = of_nat (length contents)\<rparr>;
          (s1, f1) = Append ops (tb_file r) contents;
          r1 = r\<lparr>tb_file := f1, tb_status := s1\<rparr> in
      if is_ok s1 then
        let crc = Extend address (Value address contents) [compression_code type];
            trailer = compression_code type # EncodeFixed32 (Mask crc);
            (s2, f2) = Append ops f1 trailer;
            r2 = r1\<lparr>tb_file := f2, tb_status := s2\<rparr>
        in (handle, if is_ok s2 then r2\<lparr>tb_offset := tb_offset r + of_nat (length contents + kBlockTrailerSize)\<rparr> else r2)
      else (handle, r1))"

definition block_contents :: "CompressionType \<Rightarrow> slice \<Rightarrow> slice \<times> CompressionType" where
  "block_contents type raw =
     (case type of
        kNoCompression \<Rightarrow> (raw, kNoCompression)
      | kSnappyCompression \<Rightarrow>
          (case Snappy_Compress raw of
             None \<Rightarrow> (raw, kNoCompression)
           | Some compressed \<Rightarrow>
               if length compressed < length raw - length raw div 8 then (compressed, kSnappyCompression)
               else (raw, kNoCompression)))"

definition WriteBlock ::
    "'f WritableFile \<Rightarrow> nat \<Rightarrow> BlockBuilder \<Rightarrow> 'f TableBuilder \<Rightarrow> BlockBuilder \<times> BlockHandle \<times> 'f TableBuilder" where
  "WriteBlock ops address block r =
     (let block1 = BlockBuilder_Finish block;
          (contents, type) = block_contents (op_compression (tb_options r)) (bb_buffer block1);
          (handle, r1) = WriteRawBlock ops address contents type r
      in (BlockBuilder_Reset block1, handle, r1))"

definition TableBuilder_Flush :: "'f WritableFile \<Rightarrow> nat \<Rightarrow> 'f TableBuilder \<Rightarrow> 'f TableBuilder" where
  "TableBuilder_Flush ops address r =
     (if \<not> is_ok (tb_status r) \<or> bb_buffer (tb_data_block r) = [] then r
      else
        let (data_block, handle, r1) = WriteBlock ops address (tb_data_block r) r;
            r2 = r1\<lparr>tb_data_block := data_block, tb_pending_handle := handle\<rparr>;
            r3 = (if is_ok (tb_status r2) then
                    let (s, f) = Flush ops (tb_file r2) in r2\<lparr>tb_pending_index_entry := True, tb_status := s, tb_file := f\<rparr>
                  else r2)
        in tb_start_filter (tb_offset r3) r3)"

text \<open>The entry of the index block for the last data block, with the given key.\<close>

definition add_index_entry :: "slice \<Rightarrow> 'f TableBuilder \<Rightarrow> 'f TableBuilder" where
  "add_index_entry key r =
     r\<lparr>tb_last_key := key,
       tb_index_block := BlockBuilder_Add (op_block_restart_interval (tb_index_block_options r)) key
         (BlockHandle_EncodeTo [] (tb_pending_handle r)) (tb_index_block r),
       tb_pending_index_entry := False\<rparr>"

definition TableBuilder_Add :: "'f WritableFile \<Rightarrow> nat \<Rightarrow> slice \<Rightarrow> slice \<Rightarrow> 'f TableBuilder \<Rightarrow> 'f TableBuilder" where
  "TableBuilder_Add ops address key value r =
     (if \<not> is_ok (tb_status r) then r
      else
        let r1 = (if tb_pending_index_entry r
                  then add_index_entry (FindShortestSeparator (op_comparator (tb_options r)) (tb_last_key r) key) r else r);
            r2 = (case tb_filter_block r1 of None \<Rightarrow> r1 | Some fb \<Rightarrow> r1\<lparr>tb_filter_block := Some (AddKey key fb)\<rparr>);
            r3 = r2\<lparr>tb_last_key := key, tb_num_entries := tb_num_entries r2 + 1,
                    tb_data_block := BlockBuilder_Add (op_block_restart_interval (tb_options r2)) key value (tb_data_block r2)\<rparr>
        in if CurrentSizeEstimate (tb_data_block r3) \<ge> op_block_size (tb_options r3) then TableBuilder_Flush ops address r3 else r3)"

text \<open>The four parts that \<open>Finish\<close> writes after the last data block; each is left out after an error.\<close>

definition finish_filter :: "'f WritableFile \<Rightarrow> nat \<Rightarrow> 'f TableBuilder \<Rightarrow> BlockHandle \<times> 'f TableBuilder" where
  "finish_filter ops address r =
     (case (op_filter_policy (tb_options r), tb_filter_block r) of
        (Some (_, policy), Some fb) \<Rightarrow>
          if is_ok (tb_status r) then WriteRawBlock ops address (Finish policy fb) kNoCompression r else (new_BlockHandle, r)
      | _ \<Rightarrow> (new_BlockHandle, r))"

text \<open>The characters of \<^verbatim>\<open>filter.\<close> before the policy's name.\<close>

definition filter_key :: "byte list \<Rightarrow> byte list" where
  "filter_key name = [102, 105, 108, 116, 101, 114, 46] @ name"

definition finish_metaindex ::
    "'f WritableFile \<Rightarrow> nat \<Rightarrow> BlockHandle \<Rightarrow> 'f TableBuilder \<Rightarrow> BlockHandle \<times> 'f TableBuilder" where
  "finish_metaindex ops address filter_block_handle r =
     (if \<not> is_ok (tb_status r) then (new_BlockHandle, r)
      else
        let meta =
              (case (op_filter_policy (tb_options r), tb_filter_block r) of
                 (Some (name, _), Some _) \<Rightarrow>
                   BlockBuilder_Add (op_block_restart_interval (tb_options r)) (filter_key name)
                     (BlockHandle_EncodeTo [] filter_block_handle) new_BlockBuilder
               | _ \<Rightarrow> new_BlockBuilder);
            (_, handle, r1) = WriteBlock ops address meta r
        in (handle, r1))"

definition finish_index :: "'f WritableFile \<Rightarrow> nat \<Rightarrow> 'f TableBuilder \<Rightarrow> BlockHandle \<times> 'f TableBuilder" where
  "finish_index ops address r =
     (if \<not> is_ok (tb_status r) then (new_BlockHandle, r)
      else
        let r1 = (if tb_pending_index_entry r
                  then add_index_entry (FindShortSuccessor (op_comparator (tb_options r)) (tb_last_key r)) r else r);
            (index_block, handle, r2) = WriteBlock ops address (tb_index_block r1) r1
        in (handle, r2\<lparr>tb_index_block := index_block\<rparr>))"

definition finish_footer :: "'f WritableFile \<Rightarrow> BlockHandle \<Rightarrow> BlockHandle \<Rightarrow> 'f TableBuilder \<Rightarrow> 'f TableBuilder" where
  "finish_footer ops metaindex_block_handle index_block_handle r =
     (if \<not> is_ok (tb_status r) then r
      else
        let footer_encoding =
              Footer_EncodeTo [] \<lparr>ft_metaindex_handle = metaindex_block_handle, ft_index_handle = index_block_handle\<rparr>;
            (s, f) = Append ops (tb_file r) footer_encoding;
            r1 = r\<lparr>tb_file := f, tb_status := s\<rparr>
        in if is_ok s then r1\<lparr>tb_offset := tb_offset r1 + of_nat (length footer_encoding)\<rparr> else r1)"

definition TableBuilder_Finish :: "'f WritableFile \<Rightarrow> nat \<Rightarrow> 'f TableBuilder \<Rightarrow> status \<times> 'f TableBuilder" where
  "TableBuilder_Finish ops address r =
     (let r1 = (TableBuilder_Flush ops address r)\<lparr>tb_closed := True\<rparr>;
          (filter_block_handle, r2) = finish_filter ops address r1;
          (metaindex_block_handle, r3) = finish_metaindex ops address filter_block_handle r2;
          (index_block_handle, r4) = finish_index ops address r3;
          r5 = finish_footer ops metaindex_block_handle index_block_handle r4
      in (tb_status r5, r5))"

definition Abandon :: "'f TableBuilder \<Rightarrow> 'f TableBuilder" where
  "Abandon r = r\<lparr>tb_closed := True\<rparr>"

definition NumEntries :: "'f TableBuilder \<Rightarrow> 64 word" where
  "NumEntries r = tb_num_entries r"

definition FileSize :: "'f TableBuilder \<Rightarrow> 64 word" where
  "FileSize r = tb_offset r"

section \<open>Reader\<close>

type_synonym 'a run = "'a option option"

definition run_bind :: "'a run \<Rightarrow> ('a \<Rightarrow> 'b run) \<Rightarrow> 'b run" where
  "run_bind x f = (case x of None \<Rightarrow> None | Some None \<Rightarrow> Some None | Some (Some y) \<Rightarrow> f y)"

lemma run_bind_simps [simp]: "run_bind (Some (Some y)) f = f y" "run_bind None f = None" "run_bind (Some None) f = Some None"
  by (simp_all add: run_bind_def)

text \<open>The virtual functions of a block's iterator: of the iterator over a block, or of the empty one.\<close>

fun iterator_Seek :: "nat \<Rightarrow> Comparator \<Rightarrow> slice \<Rightarrow> block_iterator \<Rightarrow> block_iterator run" where
  "iterator_Seek k cmp target (Block_iterator it) = run_bind (Seek k cmp target it) (\<lambda>it1. Some (Some (Block_iterator it1)))"
| "iterator_Seek k cmp target it = Some (Some it)"

fun iterator_Valid :: "block_iterator \<Rightarrow> bool" where
  "iterator_Valid (Block_iterator it) = Valid it"
| "iterator_Valid _ = False"

fun iterator_entry :: "block_iterator \<Rightarrow> slice \<times> slice" where
  "iterator_entry (Block_iterator it) = (it_key it, it_value_bytes it)"
| "iterator_entry _ = ([], [])"

fun iterator_status :: "block_iterator \<Rightarrow> status" where
  "iterator_status (Block_iterator it) = it_status it"
| "iterator_status Empty_iterator = OK"
| "iterator_status (Error_iterator s) = s"

record ('c, 'h) BlockCache =
  ca_Lookup :: "slice \<Rightarrow> 'c \<Rightarrow> ('h option \<times> 'c) option"
  ca_Value :: "'h \<Rightarrow> 'c \<Rightarrow> block option"
  ca_Insert :: "slice \<Rightarrow> block \<Rightarrow> nat \<Rightarrow> 'c \<Rightarrow> ('h \<times> 'c) option"
  ca_Release :: "'h \<Rightarrow> 'c \<Rightarrow> 'c option"
  ca_NewId :: "'c \<Rightarrow> 64 word \<times> 'c"

text \<open>
  The contract of a cache. \<open>ok c H\<close> is its invariant when its clients have the handles \<open>H\<close>, and \<open>room c H\<close> that it can take one more;
  \<open>holds c key b\<close> says that the cache has the block \<open>b\<close> under the key. No operation fails, a lookup returns a handle on such a block, and
  nothing but an insertion adds one.
\<close>

locale block_cache =
  fixes ca :: "('c, 'h) BlockCache"
    and holds :: "'c \<Rightarrow> slice \<Rightarrow> block \<Rightarrow> bool"
    and ok room :: "'c \<Rightarrow> 'h multiset \<Rightarrow> bool"
  assumes lookup: "ok c H \<Longrightarrow> room c H \<Longrightarrow> ca_Lookup ca key c = Some (None, c) \<or>
      (\<exists>h b c'. ca_Lookup ca key c = Some (Some h, c') \<and> ca_Value ca h c' = Some b \<and> holds c key b \<and> ok c' (add_mset h H) \<and>
        (\<forall>k b. holds c' k b \<longrightarrow> holds c k b))"
    and insertion: "ok c H \<Longrightarrow> room c H \<Longrightarrow> \<exists>h c'. ca_Insert ca key b n c = Some (h, c') \<and> ok c' (add_mset h H) \<and>
        (\<forall>k b'. holds c' k b' \<longrightarrow> holds c k b' \<or> k = key \<and> b' = b)"
    and release: "ok c (add_mset h H) \<Longrightarrow> \<exists>c'. ca_Release ca h c = Some c' \<and> ok c' H \<and> (\<forall>k b. holds c' k b \<longrightarrow> holds c k b)"
    and new_id: "ok c H \<Longrightarrow> ok (snd (ca_NewId ca c)) H \<and> (\<forall>k b. holds (snd (ca_NewId ca c)) k b \<longrightarrow> holds c k b)"

record ReadOptions =
  ro_verify_checksums :: bool
  ro_fill_cache :: bool

record Table =
  ta_options :: Options
  ta_file :: RandomAccessFile
  ta_cache_id :: "64 word"
  ta_filter :: "FilterBlockReader option"
  ta_metaindex_handle :: BlockHandle
  ta_index_block :: block

definition ReadFilter :: "nat \<Rightarrow> slice \<Rightarrow> Table \<Rightarrow> Table option" where
  "ReadFilter address filter_handle_value t =
     (case BlockHandle_DecodeFrom filter_handle_value new_BlockHandle of
        (s, filter_handle, _) \<Rightarrow>
          if \<not> is_ok s then Some t
          else
            case ReadBlock (ta_file t) address (op_paranoid_checks (ta_options t)) filter_handle of
              None \<Rightarrow> None
            | Some (s, contents) \<Rightarrow>
                if \<not> is_ok s then Some t else Some (t\<lparr>ta_filter := Some (new_FilterBlockReader (bc_data contents))\<rparr>))"

definition ReadMeta :: "nat \<Rightarrow> nat \<Rightarrow> Footer \<Rightarrow> Table \<Rightarrow> Table run" where
  "ReadMeta k address footer t =
     (case op_filter_policy (ta_options t) of
        None \<Rightarrow> Some (Some t)
      | Some (name, policy) \<Rightarrow>
          (case ReadBlock (ta_file t) address (op_paranoid_checks (ta_options t)) (ft_metaindex_handle footer) of
             None \<Rightarrow> Some None
           | Some (s, contents) \<Rightarrow>
               if \<not> is_ok s then Some (Some t)
               else
                 run_bind (iterator_Seek k BytewiseComparator (filter_key name) (NewIterator (new_Block (bc_data contents))))
                   (\<lambda>iter. if iterator_Valid iter \<and> fst (iterator_entry iter) = filter_key name
                           then Some (ReadFilter address (snd (iterator_entry iter)) t) else Some (Some t))))"

definition Open ::
    "nat \<Rightarrow> nat \<Rightarrow> ('c, 'h) BlockCache option \<Rightarrow> Options \<Rightarrow> RandomAccessFile \<Rightarrow> 64 word \<Rightarrow> 'c \<Rightarrow> (status \<times> Table option \<times> 'c) run" where
  "Open k address cache options file file_size c =
     (if file_size < of_nat kEncodedLength then Some (Some (Corruption ''file is too short to be an sstable'', None, c))
      else
        case file (file_size - of_nat kEncodedLength) kEncodedLength of
          (s, footer_input, _) \<Rightarrow>
            if \<not> is_ok s then Some (Some (s, None, c))
            else
              case Footer_DecodeFrom footer_input \<lparr>ft_metaindex_handle = new_BlockHandle, ft_index_handle = new_BlockHandle\<rparr> of
                None \<Rightarrow> Some None
              | Some (s, footer, _) \<Rightarrow>
                  if \<not> is_ok s then Some (Some (s, None, c))
                  else
                    case ReadBlock file address (op_paranoid_checks options) (ft_index_handle footer) of
                      None \<Rightarrow> Some None
                    | Some (s, contents) \<Rightarrow>
                        if \<not> is_ok s then Some (Some (s, None, c))
                        else
                          let (cache_id, c1) = (case cache of None \<Rightarrow> (0, c) | Some ca \<Rightarrow> ca_NewId ca c);
                              t = \<lparr>ta_options = options, ta_file = file, ta_cache_id = cache_id, ta_filter = None,
                                   ta_metaindex_handle = ft_metaindex_handle footer, ta_index_block = new_Block (bc_data contents)\<rparr>
                          in run_bind (ReadMeta k address footer t) (\<lambda>t1. Some (Some (s, Some t1, c1))))"

text \<open>
  The iterator over a data block. The handle in the cache, if there is one, is released when the iterator is deleted.
\<close>

definition BlockReader ::
    "nat \<Rightarrow> ('c, 'h) BlockCache option \<Rightarrow> Table \<Rightarrow> ReadOptions \<Rightarrow> slice \<Rightarrow> 'c \<Rightarrow> (block_iterator \<times> 'h option \<times> 'c) option" where
  "BlockReader address cache t options index_value c =
     (case BlockHandle_DecodeFrom index_value new_BlockHandle of
        (s, handle, _) \<Rightarrow>
          if \<not> is_ok s then Some (Error_iterator s, None, c)
          else
            case cache of
              Some ca \<Rightarrow>
                let key = EncodeFixed64 (ta_cache_id t) @ EncodeFixed64 (bh_offset handle) in
                (case ca_Lookup ca key c of
                   None \<Rightarrow> None
                 | Some (Some h, c1) \<Rightarrow> map_option (\<lambda>block. (NewIterator block, Some h, c1)) (ca_Value ca h c1)
                 | Some (None, c1) \<Rightarrow>
                     (case ReadBlock (ta_file t) address (ro_verify_checksums options) handle of
                        None \<Rightarrow> None
                      | Some (s, contents) \<Rightarrow>
                          if \<not> is_ok s then Some (Error_iterator s, None, c1)
                          else
                            let block = new_Block (bc_data contents) in
                            if bc_cachable contents \<and> ro_fill_cache options then
                              map_option (\<lambda>(h, c2). (NewIterator block, Some h, c2)) (ca_Insert ca key block (bl_size block) c1)
                            else Some (NewIterator block, None, c1)))
            | None \<Rightarrow>
                (case ReadBlock (ta_file t) address (ro_verify_checksums options) handle of
                   None \<Rightarrow> None
                 | Some (s, contents) \<Rightarrow>
                     if \<not> is_ok s then Some (Error_iterator s, None, c)
                     else Some (NewIterator (new_Block (bc_data contents)), None, c)))"

definition release_block :: "('c, 'h) BlockCache option \<Rightarrow> 'h option \<Rightarrow> 'c \<Rightarrow> 'c option" where
  "release_block cache h c = (case (cache, h) of (Some ca, Some h) \<Rightarrow> ca_Release ca h c | _ \<Rightarrow> Some c)"

text \<open>Whether the filter denies the key for the block of an index entry.\<close>

definition filter_denies :: "Table \<Rightarrow> slice \<Rightarrow> slice \<Rightarrow> bool option" where
  "filter_denies t handle_value k =
     (case (ta_filter t, op_filter_policy (ta_options t)) of
        (Some fr, Some (_, policy)) \<Rightarrow>
          (case BlockHandle_DecodeFrom handle_value new_BlockHandle of
             (s, handle, _) \<Rightarrow>
               if is_ok s then map_option Not (FilterBlockReader_KeyMayMatch policy fr (bh_offset handle) k) else Some False)
      | _ \<Rightarrow> Some False)"

text \<open>The call of \<^verbatim>\<open>handle_result\<close> is the second component: the entry it is called with, if it is called.\<close>

definition InternalGet ::
    "nat \<Rightarrow> nat \<Rightarrow> ('c, 'h) BlockCache option \<Rightarrow> Table \<Rightarrow> ReadOptions \<Rightarrow> slice \<Rightarrow> 'c \<Rightarrow> (status \<times> (slice \<times> slice) option \<times> 'c) run" where
  "InternalGet fuel address cache t options k c =
     (let cmp = op_comparator (ta_options t) in
      run_bind (iterator_Seek fuel cmp k (NewIterator (ta_index_block t)))
        (\<lambda>iiter.
           let finish = (\<lambda>s result c1. Some (Some (if is_ok s then iterator_status iiter else s, result, c1))) in
           if iterator_Valid iiter then
             case filter_denies t (snd (iterator_entry iiter)) k of
               None \<Rightarrow> Some None
             | Some True \<Rightarrow> finish OK None c
             | Some False \<Rightarrow>
                 (case BlockReader address cache t options (snd (iterator_entry iiter)) c of
                    None \<Rightarrow> Some None
                  | Some (block_iter, h, c1) \<Rightarrow>
                      run_bind (iterator_Seek fuel cmp k block_iter)
                        (\<lambda>block_iter1.
                           case release_block cache h c1 of
                             None \<Rightarrow> Some None
                           | Some c2 \<Rightarrow>
                               finish (iterator_status block_iter1)
                                 (if iterator_Valid block_iter1 then Some (iterator_entry block_iter1) else None) c2))
           else finish OK None c))"

definition ApproximateOffsetOf :: "nat \<Rightarrow> Table \<Rightarrow> slice \<Rightarrow> 64 word run" where
  "ApproximateOffsetOf fuel t key =
     run_bind (iterator_Seek fuel (op_comparator (ta_options t)) key (NewIterator (ta_index_block t)))
       (\<lambda>index_iter.
          Some (Some
            (if iterator_Valid index_iter then
               case BlockHandle_DecodeFrom (snd (iterator_entry index_iter)) new_BlockHandle of
                 (s, handle, _) \<Rightarrow> if is_ok s then bh_offset handle else bh_offset (ta_metaindex_handle t)
             else bh_offset (ta_metaindex_handle t))))"

end
