(* ===== verification/Ldb_Table_Build.thy ===== *)
theory Ldb_Table_Build
  imports Ldb_Table
begin

text \<open>
  What the table builder writes to a file that does not fail: the data blocks, the filter block, the metaindex block, the index block and
  the footer, for some division of the entries into blocks with separators between them.
\<close>

section \<open>Blocks in the file\<close>

lemma block_contents_raw [simp]: "block_contents type raw = (raw, kNoCompression)"
  by (cases type) (simp_all add: block_contents_def Snappy_Compress_def)

lemma Reset_new [simp]: "BlockBuilder_Reset b = new_BlockBuilder"
  by (cases b) (simp add: BlockBuilder_Reset_def new_BlockBuilder_def)

lemma add_entries_snoc: "add_entries I (es @ [(k, v)]) b = BlockBuilder_Add I k v (add_entries I es b)"
  by (induction es arbitrary: b) auto

lemma add_entries_empty: "bb_buffer (add_entries I es new_BlockBuilder) = [] \<longleftrightarrow> es = []"
proof -
  obtain shs ris where "builds (add_entries I es new_BlockBuilder) es shs ris"
    using builds_add_entries [OF builds_new, of I es] by auto
  then have b: "bb_buffer (add_entries I es new_BlockBuilder) = chunks es shs (length es)" by (simp add: builds_def)
  show ?thesis
  proof (cases "es = []")
    case False
    then have "chunks es shs (length es) \<noteq> []" using chunks_size [of "length es" es shs] by auto
    then show ?thesis using False b by simp
  qed (simp add: new_BlockBuilder_def)
qed

lemma add_blocks_snoc:
  "add_blocks policy (xs @ [(off, ks)]) b = fold AddKey ks (StartBlock policy off (add_blocks policy xs b))"
  by (induction policy xs b rule: add_blocks.induct) auto

lemma tb_start_filter_simps:
  "tb_options (tb_start_filter off r) = tb_options r" "tb_index_block_options (tb_start_filter off r) = tb_index_block_options r"
  "tb_file (tb_start_filter off r) = tb_file r" "tb_offset (tb_start_filter off r) = tb_offset r"
  "tb_status (tb_start_filter off r) = tb_status r" "tb_data_block (tb_start_filter off r) = tb_data_block r"
  "tb_index_block (tb_start_filter off r) = tb_index_block r" "tb_last_key (tb_start_filter off r) = tb_last_key r"
  "tb_pending_index_entry (tb_start_filter off r) = tb_pending_index_entry r" "tb_pending_handle (tb_start_filter off r) = tb_pending_handle r"
  by (simp_all add: tb_start_filter_def split: option.split prod.split)

text \<open>Writing a block appends it with its trailer.\<close>

lemma WriteRawBlock_appends:
  assumes "file_appends ops cont"
  obtains f where "WriteRawBlock ops a b kNoCompression r =
      (\<lparr>bh_offset = tb_offset r, bh_size = of_nat (length b)\<rparr>,
       r\<lparr>tb_file := f, tb_status := OK, tb_offset := tb_offset r + of_nat (length (framed b))\<rparr>)"
    "cont f = cont (tb_file r) @ framed b"
proof -
  obtain f1 where f1: "Append ops (tb_file r) b = (OK, f1)" "cont f1 = cont (tb_file r) @ b"
    by (rule file_appendsD [OF assms])
  let ?t = "compression_code kNoCompression # EncodeFixed32 (Mask (Extend a (Value a b) [compression_code kNoCompression]))"
  obtain f2 where f2: "Append ops f1 ?t = (OK, f2)" "cont f2 = cont f1 @ ?t" by (rule file_appendsD [OF assms])
  have "?t = [0] @ EncodeFixed32 (Mask (crc32c 0 (b @ [0])))"
    by (simp add: Value_def Extend_crc32c crc32c_append)
  then have "cont f2 = cont (tb_file r) @ framed b" using f1(2) f2(2) by (simp add: framed_def)
  then show ?thesis using that f1(1) f2(1) by (simp add: WriteRawBlock_def Let_def)
qed

lemma WriteBlock_appends:
  assumes "file_appends ops cont"
  obtains f where "WriteBlock ops a (add_entries I es new_BlockBuilder) r =
      (new_BlockBuilder, \<lparr>bh_offset = tb_offset r, bh_size = of_nat (length (build_block I es))\<rparr>,
       r\<lparr>tb_file := f, tb_status := OK, tb_offset := tb_offset r + of_nat (length (framed (build_block I es)))\<rparr>)"
    "cont f = cont (tb_file r) @ framed (build_block I es)"
proof -
  obtain f where "WriteRawBlock ops a (build_block I es) kNoCompression r =
      (\<lparr>bh_offset = tb_offset r, bh_size = of_nat (length (build_block I es))\<rparr>,
       r\<lparr>tb_file := f, tb_status := OK, tb_offset := tb_offset r + of_nat (length (framed (build_block I es)))\<rparr>)"
    "cont f = cont (tb_file r) @ framed (build_block I es)"
    by (rule WriteRawBlock_appends [OF assms])
  then show ?thesis using that by (simp add: WriteBlock_def build_block_def)
qed

section \<open>The state of the builder\<close>

text \<open>
  \<open>gs\<close> are the entries of the data blocks written so far, \<open>cur\<close> those of the current one and \<open>seps\<close> the keys of the index entries.
\<close>

definition data_part :: "Options \<Rightarrow> (slice \<times> slice) list list \<Rightarrow> byte list" where
  "data_part opt gs = concat (map (\<lambda>g. framed (build_block (op_block_restart_interval opt) g)) gs)"

definition data_handle :: "Options \<Rightarrow> (slice \<times> slice) list list \<Rightarrow> nat \<Rightarrow> BlockHandle" where
  "data_handle opt gs i =
     \<lparr>bh_offset = of_nat (length (data_part opt (take i gs))), bh_size = of_nat (length (build_block (op_block_restart_interval opt) (gs ! i)))\<rparr>"

definition index_entries :: "Options \<Rightarrow> (slice \<times> slice) list list \<Rightarrow> slice list \<Rightarrow> (slice \<times> slice) list" where
  "index_entries opt gs seps = map (\<lambda>i. (seps ! i, BlockHandle_EncodeTo [] (data_handle opt gs i))) [0..<length seps]"

definition filter_blocks :: "Options \<Rightarrow> (slice \<times> slice) list list \<Rightarrow> (64 word \<times> slice list) list" where
  "filter_blocks opt gs = map (\<lambda>i. (of_nat (length (data_part opt (take i gs))), map fst (gs ! i))) [0..<length gs]"

definition filter_state :: "Options \<Rightarrow> (slice \<times> slice) list list \<Rightarrow> (slice \<times> slice) list \<Rightarrow> FilterBlockBuilder option" where
  "filter_state opt gs cur =
     map_option (\<lambda>(_, policy). add_blocks policy (filter_blocks opt (gs @ [cur])) new_FilterBlockBuilder) (op_filter_policy opt)"

definition separator_after :: "Options \<Rightarrow> (slice \<times> slice) list list \<Rightarrow> nat \<Rightarrow> slice" where
  "separator_after opt gs i = FindShortestSeparator (op_comparator opt) (fst (last (gs ! i))) (fst (hd (gs ! Suc i)))"

definition building ::
    "('f \<Rightarrow> byte list) \<Rightarrow> Options \<Rightarrow> (slice \<times> slice) list list \<Rightarrow> (slice \<times> slice) list \<Rightarrow> 'f TableBuilder \<Rightarrow> bool" where
  "building cont opt gs cur r \<longleftrightarrow>
     tb_options r = opt \<and> tb_index_block_options r = opt\<lparr>op_block_restart_interval := 1\<rparr> \<and> tb_status r = OK \<and>
     cont (tb_file r) = data_part opt gs \<and> tb_offset r = of_nat (length (data_part opt gs)) \<and>
     tb_data_block r = add_entries (op_block_restart_interval opt) cur new_BlockBuilder \<and>
     tb_index_block r =
       add_entries 1 (index_entries opt gs (map (separator_after opt (gs @ [cur])) [0..<length gs - (if cur = [] then 1 else 0)])) new_BlockBuilder \<and>
     (cur \<noteq> [] \<longrightarrow> tb_last_key r = fst (last cur)) \<and> (cur = [] \<and> gs \<noteq> [] \<longrightarrow> tb_last_key r = fst (last (last gs))) \<and>
     tb_pending_index_entry r = (gs \<noteq> [] \<and> cur = []) \<and>
     (gs \<noteq> [] \<and> cur = [] \<longrightarrow> tb_pending_handle r = data_handle opt gs (length gs - 1)) \<and>
     tb_filter_block r = filter_state opt gs cur \<and> [] \<notin> set gs"

lemma data_part_snoc [simp]: "data_part opt (gs @ [g]) = data_part opt gs @ framed (build_block (op_block_restart_interval opt) g)"
  by (simp add: data_part_def)

lemma data_handle_append: "i < length gs \<Longrightarrow> data_handle opt (gs @ gs') i = data_handle opt gs i"
  by (simp add: data_handle_def nth_append)

lemma index_entries_snoc:
  "index_entries opt gs (xs @ [x]) = index_entries opt gs xs @ [(x, BlockHandle_EncodeTo [] (data_handle opt gs (length xs)))]"
  unfolding index_entries_def by (auto simp: nth_append)

lemma filter_blocks_snoc:
  "filter_blocks opt (gs @ [g]) = filter_blocks opt gs @ [(of_nat (length (data_part opt gs)), map fst g)]"
  unfolding filter_blocks_def by (auto simp: nth_append)

lemma building_new: "cont f = [] \<Longrightarrow> building cont opt [] [] (new_TableBuilder opt f)"
  by (cases "op_filter_policy opt")
    (auto simp: building_def new_TableBuilder_def tb_start_filter_def data_part_def index_entries_def filter_state_def filter_blocks_def)

lemma building_Flush:
  assumes "building cont opt gs cur r" "file_appends ops cont" "cur \<noteq> []"
  shows "building cont opt (gs @ [cur]) [] (TableBuilder_Flush ops a r)"
proof -
  let ?I = "op_block_restart_interval opt"
  let ?h = "\<lparr>bh_offset = tb_offset r, bh_size = of_nat (length (build_block ?I cur))\<rparr>"
  let ?off = "tb_offset r + of_nat (length (framed (build_block ?I cur)))"
  have data: "tb_data_block r = add_entries ?I cur new_BlockBuilder" "tb_status r = OK"
    using assms(1) by (simp_all add: building_def)
  obtain f where f: "WriteBlock ops a (tb_data_block r) r = (new_BlockBuilder, ?h, r\<lparr>tb_file := f, tb_status := OK, tb_offset := ?off\<rparr>)"
    "cont f = cont (tb_file r) @ framed (build_block ?I cur)"
    unfolding data(1) by (rule WriteBlock_appends [OF assms(2)])
  obtain f' where f': "Flush ops f = (OK, f')" "cont f' = cont f" by (rule file_flushD [OF assms(2)])
  let ?r = "r\<lparr>tb_file := f', tb_status := OK, tb_offset := ?off, tb_data_block := new_BlockBuilder, tb_pending_handle := ?h,
      tb_pending_index_entry := True\<rparr>"
  have fl: "TableBuilder_Flush ops a r = tb_start_filter ?off ?r"
  proof -
    have "bb_buffer (tb_data_block r) \<noteq> []" using data(1) assms(3) by (simp add: add_entries_empty)
    then show ?thesis unfolding TableBuilder_Flush_def Let_def f(1) prod.case using data(2) f'(1) by (cases r) simp
  qed
  have seps: "map (separator_after opt (gs @ [cur, []])) [0..<length gs] = map (separator_after opt (gs @ [cur])) [0..<length gs]"
    by (auto simp: separator_after_def nth_append)
  have idx: "index_entries opt (gs @ [cur]) (map s [0..<length gs]) = index_entries opt gs (map s [0..<length gs])" for s
    by (auto simp: index_entries_def data_handle_append)
  have off: "?off = of_nat (length (data_part opt (gs @ [cur])))" using assms(1) by (simp add: building_def)
  have h: "?h = data_handle opt (gs @ [cur]) (length gs)" using assms(1) by (simp add: building_def data_handle_def)
  have filt: "tb_filter_block (tb_start_filter ?off ?r) = filter_state opt (gs @ [cur]) []"
  proof (cases "op_filter_policy opt")
    case (Some p)
    obtain name policy where p: "p = (name, policy)" by (cases p)
    have r: "op_filter_policy (tb_options r) = Some (name, policy)" "tb_filter_block r = filter_state opt gs cur"
      using assms(1) Some p by (simp_all add: building_def)
    show ?thesis
      unfolding filter_state_def filter_blocks_snoc [of opt "gs @ [cur]"] Some p add_blocks_snoc off
      by (simp add: tb_start_filter_def r filter_state_def Some p)
  qed (use assms(1) in \<open>simp add: building_def tb_start_filter_def filter_state_def\<close>)
  show ?thesis
    unfolding building_def fl filt tb_start_filter_simps
    using assms(1,3) f(2) f'(2) off h by (simp add: building_def seps idx)
qed

lemma building_Add:
  assumes "building cont opt gs cur r" "file_appends ops cont"
  shows "building cont opt gs (cur @ [(k, v)]) (TableBuilder_Add ops a k v r) \<or>
    building cont opt (gs @ [cur @ [(k, v)]]) [] (TableBuilder_Add ops a k v r)"
proof -
  let ?I = "op_block_restart_interval opt"
  have ok: "tb_status r = OK" "tb_options r = opt" "tb_index_block_options r = opt\<lparr>op_block_restart_interval := 1\<rparr>"
    using assms(1) by (simp_all add: building_def)
  define r1 where "r1 = (if tb_pending_index_entry r
      then add_index_entry (FindShortestSeparator (op_comparator opt) (tb_last_key r) k) r else r)"
  define r3 where "r3 = r1\<lparr>tb_filter_block := map_option (AddKey k) (tb_filter_block r1), tb_last_key := k,
      tb_num_entries := tb_num_entries r1 + 1, tb_data_block := BlockBuilder_Add ?I k v (tb_data_block r1)\<rparr>"
  have opt1: "tb_options r1 = opt" using ok by (simp add: r1_def add_index_entry_def)
  have step: "TableBuilder_Add ops a k v r =
      (if CurrentSizeEstimate (tb_data_block r3) \<ge> op_block_size (tb_options r3) then TableBuilder_Flush ops a r3 else r3)"
  proof -
    have c: "(case tb_filter_block r1 of None \<Rightarrow> r1 | Some fb \<Rightarrow> r1\<lparr>tb_filter_block := Some (AddKey k fb)\<rparr>) =
        r1\<lparr>tb_filter_block := map_option (AddKey k) (tb_filter_block r1)\<rparr>" by (cases "tb_filter_block r1") simp_all
    show ?thesis
      unfolding TableBuilder_Add_def Let_def ok(2) r1_def [symmetric] c using ok(1) opt1 by (simp add: r3_def)
  qed
  have "building cont opt gs (cur @ [(k, v)]) r3"
  proof -
    have filt: "map_option (AddKey k) (filter_state opt gs cur) = filter_state opt gs (cur @ [(k, v)])"
      by (cases "op_filter_policy opt") (auto simp: filter_state_def filter_blocks_snoc add_blocks_snoc)
    have idx: "tb_index_block r1 = add_entries 1 (index_entries opt gs (map (separator_after opt (gs @ [cur @ [(k, v)]])) [0..<length gs])) new_BlockBuilder"
    proof (cases "gs \<noteq> [] \<and> cur = []")
      case True
      then obtain n where n: "length gs = Suc n" by (cases gs) auto
      have m: "map (separator_after opt (gs @ [[]])) [0..<n] = map (separator_after opt (gs @ [[(k, v)]])) [0..<n]"
        using n by (auto simp: separator_after_def nth_append)
      have "separator_after opt (gs @ [[(k, v)]]) n = FindShortestSeparator (op_comparator opt) (fst (last (last gs))) k"
        using n True by (simp add: separator_after_def nth_append last_conv_nth)
      then show ?thesis
        using True n assms(1) ok(3) by (simp add: building_def r1_def add_index_entry_def add_entries_snoc index_entries_snoc m)
    next
      case False
      have m: "map (separator_after opt (gs @ [cur])) [0..<length gs] = map (separator_after opt (gs @ [cur @ [(k, v)]])) [0..<length gs]" if "cur \<noteq> []"
        using that by (auto simp: separator_after_def nth_append)
      have "tb_index_block r1 = tb_index_block r" using False assms(1) by (auto simp: building_def r1_def)
      then show ?thesis using False assms(1) m by (cases "cur = []") (simp_all add: building_def index_entries_def)
    qed
    have same: "tb_file r1 = tb_file r" "tb_offset r1 = tb_offset r" "tb_data_block r1 = tb_data_block r" "tb_status r1 = tb_status r"
      "tb_filter_block r1 = tb_filter_block r" "tb_index_block_options r1 = tb_index_block_options r" "\<not> tb_pending_index_entry r1"
      by (simp_all add: r1_def add_index_entry_def)
    show ?thesis
      using assms(1) opt1 same filt idx by (simp add: building_def r3_def add_entries_snoc)
  qed
  then show ?thesis using building_Flush [OF _ assms(2), of opt gs "cur @ [(k, v)]" r3] step by auto
qed

fun table_adds :: "'f WritableFile \<Rightarrow> nat \<Rightarrow> (slice \<times> slice) list \<Rightarrow> 'f TableBuilder \<Rightarrow> 'f TableBuilder" where
  "table_adds ops a [] r = r"
| "table_adds ops a ((k, v) # es) r = table_adds ops a es (TableBuilder_Add ops a k v r)"

lemma building_adds:
  "building cont opt gs cur r \<Longrightarrow> file_appends ops cont \<Longrightarrow>
   \<exists>gs' cur'. building cont opt gs' cur' (table_adds ops a es r) \<and> concat gs' @ cur' = concat gs @ cur @ es"
proof (induction ops a es r arbitrary: gs cur rule: table_adds.induct)
  case (1 ops a r) then show ?case by auto
next
  case (2 ops a k v es r)
  from building_Add [OF "2.prems", of k v a] show ?case
  proof
    assume "building cont opt gs (cur @ [(k, v)]) (TableBuilder_Add ops a k v r)"
    from "2.IH" [OF this "2.prems"(2)] show ?thesis by simp
  next
    assume "building cont opt (gs @ [cur @ [(k, v)]]) [] (TableBuilder_Add ops a k v r)"
    from "2.IH" [OF this "2.prems"(2)] show ?thesis by simp
  qed
qed

section \<open>The finished file\<close>

definition index_keys :: "Options \<Rightarrow> (slice \<times> slice) list list \<Rightarrow> slice list" where
  "index_keys opt gs =
     map (\<lambda>i. if Suc i < length gs then separator_after opt gs i else FindShortSuccessor (op_comparator opt) (fst (last (last gs)))) [0..<length gs]"

definition filter_part :: "Options \<Rightarrow> (slice \<times> slice) list list \<Rightarrow> byte list option" where
  "filter_part opt gs =
     map_option (\<lambda>(_, policy). Finish policy (add_blocks policy (filter_blocks opt (gs @ [[]])) new_FilterBlockBuilder)) (op_filter_policy opt)"

definition filter_bytes :: "Options \<Rightarrow> (slice \<times> slice) list list \<Rightarrow> byte list" where
  "filter_bytes opt gs = (case filter_part opt gs of None \<Rightarrow> [] | Some b \<Rightarrow> framed b)"

definition meta_entries :: "Options \<Rightarrow> (slice \<times> slice) list list \<Rightarrow> (slice \<times> slice) list" where
  "meta_entries opt gs =
     (case (op_filter_policy opt, filter_part opt gs) of
        (Some (name, _), Some b) \<Rightarrow>
          [(filter_key name, BlockHandle_EncodeTo [] \<lparr>bh_offset = of_nat (length (data_part opt gs)), bh_size = of_nat (length b)\<rparr>)]
      | _ \<Rightarrow> [])"

definition meta_block :: "Options \<Rightarrow> (slice \<times> slice) list list \<Rightarrow> byte list" where
  "meta_block opt gs = build_block (op_block_restart_interval opt) (meta_entries opt gs)"

definition index_block :: "Options \<Rightarrow> (slice \<times> slice) list list \<Rightarrow> byte list" where
  "index_block opt gs = build_block 1 (index_entries opt gs (index_keys opt gs))"

definition table_footer :: "Options \<Rightarrow> (slice \<times> slice) list list \<Rightarrow> Footer" where
  "table_footer opt gs =
     \<lparr>ft_metaindex_handle = \<lparr>bh_offset = of_nat (length (data_part opt gs @ filter_bytes opt gs)), bh_size = of_nat (length (meta_block opt gs))\<rparr>,
      ft_index_handle = \<lparr>bh_offset = of_nat (length (data_part opt gs @ filter_bytes opt gs @ framed (meta_block opt gs))),
                         bh_size = of_nat (length (index_block opt gs))\<rparr>\<rparr>"

definition table_bytes :: "Options \<Rightarrow> (slice \<times> slice) list list \<Rightarrow> byte list" where
  "table_bytes opt gs =
     data_part opt gs @ filter_bytes opt gs @ framed (meta_block opt gs) @ framed (index_block opt gs) @ Footer_EncodeTo [] (table_footer opt gs)"

lemma filter_state_part: "op_filter_policy opt = Some (name, policy) \<Longrightarrow>
    \<exists>fb. filter_state opt gs [] = Some fb \<and> filter_part opt gs = Some (Finish policy fb)"
  by (simp add: filter_state_def filter_part_def)

lemma finish_filter_appends:
  assumes "file_appends ops cont" "tb_options r = opt" "tb_filter_block r = filter_state opt gs []" "tb_status r = OK"
    "cont (tb_file r) = data_part opt gs" "tb_offset r = of_nat (length (data_part opt gs))"
  obtains f h where "finish_filter ops a r =
      (h, r\<lparr>tb_file := f, tb_status := OK, tb_offset := of_nat (length (data_part opt gs @ filter_bytes opt gs))\<rparr>)"
    "cont f = data_part opt gs @ filter_bytes opt gs"
    "\<And>b. filter_part opt gs = Some b \<Longrightarrow> h = \<lparr>bh_offset = of_nat (length (data_part opt gs)), bh_size = of_nat (length b)\<rparr>"
proof (cases "op_filter_policy opt")
  case None
  then have "filter_part opt gs = None" "filter_bytes opt gs = []" by (simp_all add: filter_part_def filter_bytes_def)
  moreover have "r = r\<lparr>tb_file := tb_file r, tb_status := OK, tb_offset := of_nat (length (data_part opt gs))\<rparr>"
    using assms by (cases r) simp
  ultimately show ?thesis using that [of new_BlockHandle "tb_file r"] None assms by (simp add: finish_filter_def)
next
  case (Some p)
  obtain name policy where p: "p = (name, policy)" by (cases p)
  obtain fb where fb: "filter_state opt gs [] = Some fb" "filter_part opt gs = Some (Finish policy fb)"
    using filter_state_part Some p by blast
  obtain f where f: "WriteRawBlock ops a (Finish policy fb) kNoCompression r =
      (\<lparr>bh_offset = tb_offset r, bh_size = of_nat (length (Finish policy fb))\<rparr>,
       r\<lparr>tb_file := f, tb_status := OK, tb_offset := tb_offset r + of_nat (length (framed (Finish policy fb)))\<rparr>)"
    "cont f = cont (tb_file r) @ framed (Finish policy fb)" by (rule WriteRawBlock_appends [OF assms(1)])
  have "finish_filter ops a r = WriteRawBlock ops a (Finish policy fb) kNoCompression r"
    using assms(2-4) Some p fb by (simp add: finish_filter_def)
  then show ?thesis using that f fb(2) assms(5,6) by (simp add: filter_bytes_def)
qed

lemma finish_metaindex_appends:
  assumes "file_appends ops cont" "tb_options r = opt" "tb_filter_block r = filter_state opt gs []" "tb_status r = OK"
    "cont (tb_file r) = pre" "tb_offset r = of_nat (length pre)"
    "\<And>b. filter_part opt gs = Some b \<Longrightarrow> h = \<lparr>bh_offset = of_nat (length (data_part opt gs)), bh_size = of_nat (length b)\<rparr>"
  obtains f where "finish_metaindex ops a h r =
      (\<lparr>bh_offset = of_nat (length pre), bh_size = of_nat (length (meta_block opt gs))\<rparr>,
       r\<lparr>tb_file := f, tb_status := OK, tb_offset := of_nat (length (pre @ framed (meta_block opt gs)))\<rparr>)"
    "cont f = pre @ framed (meta_block opt gs)"
proof -
  have meta: "(case (op_filter_policy (tb_options r), tb_filter_block r) of
      (Some (name, _), Some _) \<Rightarrow> BlockBuilder_Add (op_block_restart_interval (tb_options r)) (filter_key name) (BlockHandle_EncodeTo [] h) new_BlockBuilder
    | _ \<Rightarrow> new_BlockBuilder) = add_entries (op_block_restart_interval opt) (meta_entries opt gs) new_BlockBuilder"
  proof (cases "op_filter_policy opt")
    case (Some p)
    obtain name policy where p: "p = (name, policy)" by (cases p)
    obtain fb where "filter_state opt gs [] = Some fb" "filter_part opt gs = Some (Finish policy fb)"
      using filter_state_part Some p by blast
    then show ?thesis using assms(2,3,7) Some p by (simp add: meta_entries_def)
  qed (use assms(2) in \<open>simp add: meta_entries_def\<close>)
  obtain f where f: "WriteBlock ops a (add_entries (op_block_restart_interval opt) (meta_entries opt gs) new_BlockBuilder) r =
      (new_BlockBuilder, \<lparr>bh_offset = tb_offset r, bh_size = of_nat (length (meta_block opt gs))\<rparr>,
       r\<lparr>tb_file := f, tb_status := OK, tb_offset := tb_offset r + of_nat (length (framed (meta_block opt gs)))\<rparr>)"
    "cont f = cont (tb_file r) @ framed (meta_block opt gs)"
    unfolding meta_block_def by (rule WriteBlock_appends [OF assms(1)])
  have "finish_metaindex ops a h r = (\<lparr>bh_offset = of_nat (length pre), bh_size = of_nat (length (meta_block opt gs))\<rparr>,
       r\<lparr>tb_file := f, tb_status := OK, tb_offset := of_nat (length (pre @ framed (meta_block opt gs)))\<rparr>)"
    unfolding finish_metaindex_def Let_def meta f(1) using assms(4,6) by simp
  then show ?thesis using that f(2) assms(5) by simp
qed

lemma finish_index_appends:
  assumes "file_appends ops cont" "tb_options r = opt" "tb_status r = OK" "cont (tb_file r) = pre" "tb_offset r = of_nat (length pre)"
    "tb_index_block_options r = opt\<lparr>op_block_restart_interval := 1\<rparr>"
    "tb_index_block r = add_entries 1 (index_entries opt gs (map (separator_after opt (gs @ [[]])) [0..<length gs - 1])) new_BlockBuilder"
    "tb_pending_index_entry r = (gs \<noteq> [])" "gs \<noteq> [] \<Longrightarrow> tb_last_key r = fst (last (last gs))"
    "gs \<noteq> [] \<Longrightarrow> tb_pending_handle r = data_handle opt gs (length gs - 1)"
  obtains r' where "finish_index ops a r = (\<lparr>bh_offset = of_nat (length pre), bh_size = of_nat (length (index_block opt gs))\<rparr>, r')"
    "tb_status r' = OK" "cont (tb_file r') = pre @ framed (index_block opt gs)" "tb_offset r' = of_nat (length (pre @ framed (index_block opt gs)))"
proof -
  define r1 where "r1 = (if tb_pending_index_entry r
      then add_index_entry (FindShortSuccessor (op_comparator opt) (tb_last_key r)) r else r)"
  have r1: "tb_file r1 = tb_file r" "tb_offset r1 = tb_offset r" by (simp_all add: r1_def add_index_entry_def)
  have idx: "tb_index_block r1 = add_entries 1 (index_entries opt gs (index_keys opt gs)) new_BlockBuilder"
  proof (cases "gs = []")
    case False
    then obtain n where n: "length gs = Suc n" by (cases gs) auto
    have m: "map (separator_after opt (gs @ [[]])) [0..<n] = map (separator_after opt gs) [0..<n]"
      using n by (auto simp: separator_after_def nth_append)
    have "index_keys opt gs = map (separator_after opt gs) [0..<n] @ [FindShortSuccessor (op_comparator opt) (fst (last (last gs)))]"
      by (auto simp: index_keys_def n)
    then show ?thesis using assms(6-10) False n by (simp add: r1_def add_index_entry_def add_entries_snoc index_entries_snoc m)
  qed (use assms(7,8) in \<open>simp add: r1_def index_keys_def index_entries_def\<close>)
  obtain f where f: "WriteBlock ops a (add_entries 1 (index_entries opt gs (index_keys opt gs)) new_BlockBuilder) r1 =
      (new_BlockBuilder, \<lparr>bh_offset = tb_offset r1, bh_size = of_nat (length (index_block opt gs))\<rparr>,
       r1\<lparr>tb_file := f, tb_status := OK, tb_offset := tb_offset r1 + of_nat (length (framed (index_block opt gs)))\<rparr>)"
    "cont f = cont (tb_file r1) @ framed (index_block opt gs)"
    unfolding index_block_def by (rule WriteBlock_appends [OF assms(1)])
  let ?r = "r1\<lparr>tb_file := f, tb_status := OK, tb_offset := tb_offset r1 + of_nat (length (framed (index_block opt gs))), tb_index_block := new_BlockBuilder\<rparr>"
  have "finish_index ops a r = (\<lparr>bh_offset = of_nat (length pre), bh_size = of_nat (length (index_block opt gs))\<rparr>, ?r)"
    unfolding finish_index_def Let_def assms(2) r1_def [symmetric] idx f(1) using assms(3,5) r1 by simp
  then show ?thesis using that [of ?r] f(2) r1 assms(4,5) by simp
qed

lemma building_Finish:
  assumes "building cont opt gs cur r" "file_appends ops cont"
  shows "\<exists>gs'. concat gs' = concat gs @ cur \<and> [] \<notin> set gs' \<and> fst (TableBuilder_Finish ops a r) = OK \<and>
    cont (tb_file (snd (TableBuilder_Finish ops a r))) = table_bytes opt gs'"
proof -
  obtain gs' where gs': "building cont opt gs' [] (TableBuilder_Flush ops a r)" "concat gs' = concat gs @ cur"
  proof (cases "cur = []")
    case True
    then have "TableBuilder_Flush ops a r = r" using assms(1) by (simp add: TableBuilder_Flush_def building_def add_entries_empty new_BlockBuilder_def)
    then show ?thesis using that [of gs] True assms(1) by simp
  next
    case False
    then show ?thesis using that [of "gs @ [cur]"] building_Flush [OF assms] by simp
  qed
  define r1 where "r1 = (TableBuilder_Flush ops a r)\<lparr>tb_closed := True\<rparr>"
  have b: "building cont opt gs' [] r1" using gs'(1) by (simp add: r1_def building_def)
  note bd = b [unfolded building_def]
  let ?p2 = "data_part opt gs' @ filter_bytes opt gs'"
  obtain f2 h2 where s2: "finish_filter ops a r1 = (h2, r1\<lparr>tb_file := f2, tb_status := OK, tb_offset := of_nat (length ?p2)\<rparr>)"
    "cont f2 = ?p2"
    "\<And>b. filter_part opt gs' = Some b \<Longrightarrow> h2 = \<lparr>bh_offset = of_nat (length (data_part opt gs')), bh_size = of_nat (length b)\<rparr>"
    by (rule finish_filter_appends [OF assms(2), of r1 opt gs' a]) (use bd in auto)
  define r2 where "r2 = r1\<lparr>tb_file := f2, tb_status := OK, tb_offset := of_nat (length ?p2)\<rparr>"
  let ?p3 = "?p2 @ framed (meta_block opt gs')"
  obtain f3 where s3: "finish_metaindex ops a h2 r2 = (ft_metaindex_handle (table_footer opt gs'),
       r2\<lparr>tb_file := f3, tb_status := OK, tb_offset := of_nat (length ?p3)\<rparr>)" "cont f3 = ?p3"
    by (rule finish_metaindex_appends [OF assms(2), of r2 opt gs' ?p2 h2 a]) (use bd s2(2,3) in \<open>auto simp: r2_def table_footer_def\<close>)
  define r3 where "r3 = r2\<lparr>tb_file := f3, tb_status := OK, tb_offset := of_nat (length ?p3)\<rparr>"
  let ?p4 = "?p3 @ framed (index_block opt gs')"
  obtain r4 where s4: "finish_index ops a r3 = (\<lparr>bh_offset = of_nat (length ?p3), bh_size = of_nat (length (index_block opt gs'))\<rparr>, r4)"
    "tb_status r4 = OK" "cont (tb_file r4) = ?p4" "tb_offset r4 = of_nat (length ?p4)"
    by (rule finish_index_appends [OF assms(2), of r3 opt ?p3 gs' a]) (use bd s3(2) in \<open>auto simp: r3_def r2_def\<close>)
  have idx: "\<lparr>bh_offset = of_nat (length ?p3), bh_size = of_nat (length (index_block opt gs'))\<rparr> = ft_index_handle (table_footer opt gs')"
    by (simp add: table_footer_def)
  obtain f5 where f5: "Append ops (tb_file r4) (Footer_EncodeTo [] (table_footer opt gs')) = (OK, f5)"
    "cont f5 = cont (tb_file r4) @ Footer_EncodeTo [] (table_footer opt gs')" by (rule file_appendsD [OF assms(2)])
  have foot: "\<lparr>ft_metaindex_handle = ft_metaindex_handle F, ft_index_handle = ft_index_handle F\<rparr> = F" for F :: Footer by simp
  have "TableBuilder_Finish ops a r = (let r5 = finish_footer ops (ft_metaindex_handle (table_footer opt gs')) (ft_index_handle (table_footer opt gs')) r4 in (tb_status r5, r5))"
    unfolding TableBuilder_Finish_def Let_def r1_def [symmetric] s2(1) prod.case r2_def [symmetric] s3(1) r3_def [symmetric] s4(1) idx ..
  then have "fst (TableBuilder_Finish ops a r) = OK" "tb_file (snd (TableBuilder_Finish ops a r)) = f5"
    using s4(2) f5(1) by (simp_all add: Let_def finish_footer_def foot)
  then show ?thesis using gs'(2) bd f5(2) s4(3) by (intro exI [of _ gs']) (simp add: table_bytes_def)
qed

lemma table_built:
  assumes "file_appends ops cont" "cont f = []"
  obtains gs r where "TableBuilder_Finish ops a (table_adds ops a es (new_TableBuilder opt f)) = (OK, r)"
    "cont (tb_file r) = table_bytes opt gs" "concat gs = es" "[] \<notin> set gs"
proof -
  obtain gs cur where b: "building cont opt gs cur (table_adds ops a es (new_TableBuilder opt f))" "concat gs @ cur = es"
    using building_adds [of cont opt "[]" "[]" "new_TableBuilder opt f" ops a es, OF building_new [where cont = cont and f = f, OF assms(2)] assms(1)] by auto
  then show ?thesis using building_Finish [OF b(1) assms(1), of a] that by (metis prod.collapse)
qed

end
