(* ===== verification/Ldb_Table_Read.thy ===== *)
theory Ldb_Table_Read
  imports Ldb_Table_Build
begin

text \<open>
  Reading the table that the builder wrote: \<open>Open\<close> succeeds and finds the index and the filter, and \<open>InternalGet\<close> finds the first entry at or
  after a key whenever it belongs to the same user key.
\<close>

section \<open>Seeking in a block that was built\<close>

context comparator
begin

lemma built_Seek:
  assumes "ordered es" "valid target" "length (build_block I es) < 2 ^ 32" "length (build_block I es) \<le> k"
  obtains it where "iterator_Seek k cmp target (NewIterator (new_Block (build_block I es))) = Some (Some (Block_iterator it))"
    "it_status it = OK" "Valid it \<longleftrightarrow> dropWhile (\<lambda>e. Compare cmp (fst e) target < 0) es \<noteq> []"
    "Valid it \<longrightarrow> (it_key it, it_value_bytes it) = hd (dropWhile (\<lambda>e. Compare cmp (fst e) target < 0) es)"
proof -
  let ?P = "\<lambda>e. Compare cmp (fst e) target < 0"
  let ?j = "length (takeWhile ?P es)"
  obtain shs ris it0 where it0: "NewIterator (new_Block (build_block I es)) = Block_iterator it0" "reads es shs ris it0"
    "length es + length ris < length (build_block I es)" by (rule NewIterator_built [OF assms(3)])
  have k: "length es + length ris < k" using it0(3) assms(4) by simp
  obtain it where it: "Seek k cmp target it0 = Some (Some it)" "reads es shs ris it" "positioned es shs it ?j"
    by (rule Seek_layout [OF it0(2) assms(1,2) k])
  have valid: "Valid it \<longleftrightarrow> ?j < length es" using Valid_layout [OF it(2,3) length_takeWhile_le] by simp
  have rest: "dropWhile ?P es = drop ?j es" by (rule dropWhile_eq_drop)
  show ?thesis
  proof (rule that [of it])
    show "it_status it = OK" using it(2) by (simp add: reads_def)
    show "Valid it \<longleftrightarrow> dropWhile ?P es \<noteq> []" unfolding rest using valid by (simp add: not_le)
    show "Valid it \<longrightarrow> (it_key it, it_value_bytes it) = hd (dropWhile ?P es)"
      using valid it(3) unfolding rest by (simp add: positioned_def hd_drop_conv_nth)
  qed (use it0(1) it(1) in simp)
qed

end

section \<open>Opening the table\<close>

definition opened :: "Options \<Rightarrow> (slice \<times> slice) list list \<Rightarrow> RandomAccessFile \<Rightarrow> Table \<Rightarrow> bool" where
  "opened opt gs file t \<longleftrightarrow>
     ta_options t = opt \<and> ta_file t = file \<and> ta_index_block t = new_Block (index_block opt gs) \<and>
     ta_metaindex_handle t = ft_metaindex_handle (table_footer opt gs) \<and>
     ta_filter t = map_option new_FilterBlockReader (filter_part opt gs)"

lemma table_sizes:
  assumes "length (table_bytes opt gs) < 2 ^ 32"
  shows "length (data_part opt gs @ filter_bytes opt gs @ framed (meta_block opt gs)) < 2 ^ 32"
    "length (index_block opt gs) < 2 ^ 32" "length (meta_block opt gs) < 2 ^ 32"
    "length (data_part opt gs) < 2 ^ 32"
    "length (index_block opt gs) + kBlockTrailerSize < 2 ^ 64" "length (meta_block opt gs) + kBlockTrailerSize < 2 ^ 64"
  using assms by (auto simp: table_bytes_def kBlockTrailerSize_def)

lemma ReadMeta_built:
  assumes "file_holds file (table_bytes opt gs)" "length (table_bytes opt gs) < 2 ^ 32" "length (table_bytes opt gs) \<le> k"
    "ta_options t = opt" "ta_file t = file" "ta_filter t = None"
  shows "ReadMeta k a (table_footer opt gs) t = Some (Some (t\<lparr>ta_filter := map_option new_FilterBlockReader (filter_part opt gs)\<rparr>))"
proof (cases "op_filter_policy opt")
  case None
  then have "filter_part opt gs = None" by (simp add: filter_part_def)
  then show ?thesis using None assms(4,6) by (cases t) (simp add: ReadMeta_def)
next
  case (Some p)
  obtain name policy where p: "p = (name, policy)" by (cases p)
  obtain b where b: "filter_part opt gs = Some b" using Some p by (simp add: filter_part_def)
  let ?h = "\<lparr>bh_offset = of_nat (length (data_part opt gs)), bh_size = of_nat (length b)\<rparr>"
  have me: "meta_entries opt gs = [(filter_key name, BlockHandle_EncodeTo [] ?h)]" using Some p b by (simp add: meta_entries_def)
  note sz = table_sizes [OF assms(2)]
  have fb: "filter_bytes opt gs = framed b" using b by (simp add: filter_bytes_def)
  have fh: "file_holds file ((data_part opt gs @ filter_bytes opt gs) @ framed (meta_block opt gs) @
      framed (index_block opt gs) @ Footer_EncodeTo [] (table_footer opt gs))" using assms(1) by (simp add: table_bytes_def)
  then obtain c where c: "ReadBlock file a (op_paranoid_checks opt) (ft_metaindex_handle (table_footer opt gs)) =
      Some (OK, \<lparr>bc_data = meta_block opt gs, bc_cachable = c, bc_heap_allocated = c\<rparr>)"
    using ReadBlock_framed [OF fh, where address = a and verify = "op_paranoid_checks opt"] sz
    by (auto simp: table_footer_def)
  have fh: "file_holds file (data_part opt gs @ framed b @ framed (meta_block opt gs) @
      framed (index_block opt gs) @ Footer_EncodeTo [] (table_footer opt gs))" using assms(1) by (simp add: table_bytes_def fb)
  then obtain d where d: "ReadBlock file a (op_paranoid_checks opt) ?h = Some (OK, \<lparr>bc_data = b, bc_cachable = d, bc_heap_allocated = d\<rparr>)"
    using ReadBlock_framed [OF fh, where address = a and verify = "op_paranoid_checks opt"] sz
    by (auto simp: fb)
  let ?es = "meta_entries opt gs" and ?I = "op_block_restart_interval opt"
  have o: "bytewise.ordered ?es" by (simp add: bytewise.ordered_def me)
  have m: "meta_block opt gs = build_block ?I ?es" by (simp add: meta_block_def)
  have rest: "dropWhile (\<lambda>e. Compare BytewiseComparator (fst e) (filter_key name) < 0) ?es = ?es"
    using bytewise.user_order(2) [of "filter_key name"] by (simp add: me)
  have "length (build_block ?I ?es) \<le> k" using assms(3) by (simp add: table_bytes_def m)
  then obtain it where it: "iterator_Seek k BytewiseComparator (filter_key name) (NewIterator (new_Block (build_block ?I ?es))) = Some (Some (Block_iterator it))"
    "Valid it" "(it_key it, it_value_bytes it) = hd ?es"
    using bytewise.built_Seek [OF o, where target = "filter_key name" and I = ?I and k = k] sz(3) rest me by (auto simp: m)
  have dec: "BlockHandle_DecodeFrom (BlockHandle_EncodeTo [] ?h) new_BlockHandle = (OK, ?h, [])"
    using BlockHandle_Decode_Encode [of ?h "[]"] by simp
  have "ReadFilter a (BlockHandle_EncodeTo [] ?h) t = Some (t\<lparr>ta_filter := Some (new_FilterBlockReader b)\<rparr>)"
    using d assms(4,5) by (simp add: ReadFilter_def dec)
  then show ?thesis
    unfolding ReadMeta_def using assms(4,5) Some p c it b by (simp add: m me)
qed

lemma Open_built:
  assumes "file_holds file (table_bytes opt gs)" "length (table_bytes opt gs) < 2 ^ 32" "length (table_bytes opt gs) \<le> k"
  obtains t where "Open k a cache opt file (of_nat (length (table_bytes opt gs))) c =
      Some (Some (OK, Some t, (case cache of None \<Rightarrow> c | Some ca \<Rightarrow> snd (ca_NewId ca c))))" "opened opt gs file t"
    "ta_cache_id t = (case cache of None \<Rightarrow> 0 | Some ca \<Rightarrow> fst (ca_NewId ca c))"
proof -
  let ?n = "length (table_bytes opt gs)" and ?F = "Footer_EncodeTo [] (table_footer opt gs)"
  note sz = table_sizes [OF assms(2)]
  obtain pre where pre: "table_bytes opt gs = pre @ ?F" "pre = data_part opt gs @ filter_bytes opt gs @ framed (meta_block opt gs) @ framed (index_block opt gs)"
    by (simp add: table_bytes_def)
  have F: "length ?F = kEncodedLength" using Footer_bytes by blast
  have n: "?n = length pre + kEncodedLength" by (simp add: pre(1) F)
  have u: "of_nat ?n - of_nat kEncodedLength = (of_nat (length pre) :: 64 word)" by (simp add: n)
  have un: "unat (of_nat (length pre) :: 64 word) = length pre" using assms(2) n by (simp add: unat_of_nat)
  have "unat (of_nat ?n :: 64 word) = ?n" using assms(2) by (simp add: unat_of_nat)
  then have long: "\<not> (of_nat ?n :: 64 word) < of_nat kEncodedLength"
    using n unfolding word_less_nat_alt by (simp add: kEncodedLength_def kMaxEncodedLength_def)
  obtain x where x: "file (of_nat (length pre)) kEncodedLength = (OK, ?F, x)"
  proof -
    obtain x where "file (of_nat (length pre)) kEncodedLength = (OK, take kEncodedLength (drop (length pre) (pre @ ?F)), x)"
      using assms(1) un unfolding file_holds_def pre(1) by metis
    then show ?thesis using that F by simp
  qed
  have foot: "Footer_DecodeFrom ?F f0 = Some (OK, table_footer opt gs, [])" for f0
    using Footer_Decode_Encode [of "table_footer opt gs" "[]"] by simp
  have fh: "file_holds file ((data_part opt gs @ filter_bytes opt gs @ framed (meta_block opt gs)) @ framed (index_block opt gs) @ ?F)"
    using assms(1) by (simp add: table_bytes_def)
  then obtain d where d: "ReadBlock file a (op_paranoid_checks opt) (ft_index_handle (table_footer opt gs)) =
      Some (OK, \<lparr>bc_data = index_block opt gs, bc_cachable = d, bc_heap_allocated = d\<rparr>)"
    using ReadBlock_framed [OF fh, where address = a and verify = "op_paranoid_checks opt"] sz
    by (auto simp: table_footer_def)
  obtain id c1 where idc: "(case cache of None \<Rightarrow> (0, c) | Some ca \<Rightarrow> ca_NewId ca c) = (id, c1)" by fastforce
  have ids: "id = (case cache of None \<Rightarrow> 0 | Some ca \<Rightarrow> fst (ca_NewId ca c))" "c1 = (case cache of None \<Rightarrow> c | Some ca \<Rightarrow> snd (ca_NewId ca c))"
    using idc by (cases cache; simp)+
  define t0 where "t0 = \<lparr>ta_options = opt, ta_file = file, ta_cache_id = id, ta_filter = None,
      ta_metaindex_handle = ft_metaindex_handle (table_footer opt gs), ta_index_block = new_Block (index_block opt gs)\<rparr>"
  have meta: "ReadMeta k a (table_footer opt gs) t0 = Some (Some (t0\<lparr>ta_filter := map_option new_FilterBlockReader (filter_part opt gs)\<rparr>))"
    by (rule ReadMeta_built [OF assms]) (simp_all add: t0_def)
  show ?thesis
  proof (rule that [of "t0\<lparr>ta_filter := map_option new_FilterBlockReader (filter_part opt gs)\<rparr>"])
    show "Open k a cache opt file (of_nat ?n) c =
        Some (Some (OK, Some (t0\<lparr>ta_filter := map_option new_FilterBlockReader (filter_part opt gs)\<rparr>), (case cache of None \<Rightarrow> c | Some ca \<Rightarrow> snd (ca_NewId ca c))))"
      unfolding Open_def if_not_P [OF long] u x prod.case foot option.case d idc Let_def using meta
      by (simp add: t0_def ids(2))
  qed (simp_all add: opened_def t0_def ids(1))
qed

section \<open>The order of blocks and index keys\<close>

lemma groups_sorted:
  assumes "sorted_wrt P (concat gs)" "i < length gs"
  shows "sorted_wrt P (gs ! i)" "i < j \<Longrightarrow> j < length gs \<Longrightarrow> x \<in> set (gs ! i) \<Longrightarrow> y \<in> set (gs ! j) \<Longrightarrow> P x y"
proof -
  have split: "concat gs = concat (take i gs) @ gs ! i @ concat (drop (Suc i) gs)"
    using assms(2) by (metis concat.simps(2) concat_append id_take_nth_drop)
  show "sorted_wrt P (gs ! i)" using assms(1) unfolding split by (simp add: sorted_wrt_append)
  assume j: "i < j" "j < length gs" "x \<in> set (gs ! i)" "y \<in> set (gs ! j)"
  have "gs ! j \<in> set (drop (Suc i) gs)" using j(1,2) by (auto simp: in_set_conv_nth intro!: exI [of _ "j - Suc i"])
  then have "y \<in> set (concat (drop (Suc i) gs))" using j(4) by auto
  then show "P x y" using assms(1) j(3) unfolding split sorted_wrt_append by auto
qed

lemma last_greatest: "sorted_wrt P g \<Longrightarrow> x \<in> set g \<Longrightarrow> x = last g \<or> P x (last g)"
  by (induction g) auto

lemma hd_least: "sorted_wrt P g \<Longrightarrow> x \<in> set g \<Longrightarrow> x = hd g \<or> P (hd g) x"
  by (cases g) auto

lemma dropWhile_concat_drop:
  assumes "j \<le> length gs" "\<And>i x. i < j \<Longrightarrow> x \<in> set (gs ! i) \<Longrightarrow> P x"
  shows "dropWhile P (concat gs) = dropWhile P (concat (drop j gs))"
proof -
  have "\<forall>x \<in> set (concat (take j gs)). P x" using assms by (fastforce simp: in_set_conv_nth)
  then show ?thesis using dropWhile_append2 [of "concat (take j gs)" P "concat (drop j gs)"] by (metis append_take_drop_id concat_append)
qed

context comparator
begin

lemma index_key_bounds:
  assumes "ordered (concat gs)" "[] \<notin> set gs" "op_comparator opt = cmp" "i < length gs"
  shows "valid (index_keys opt gs ! i)" "e \<in> set (gs ! i) \<Longrightarrow> Compare cmp (fst e) (index_keys opt gs ! i) \<le> 0"
    "i < j \<Longrightarrow> j < length gs \<Longrightarrow> e \<in> set (gs ! j) \<Longrightarrow> Compare cmp (index_keys opt gs ! i) (fst e) < 0"
proof -
  let ?P = "\<lambda>a b. Compare cmp (fst a) (fst b) < 0" and ?s = "index_keys opt gs ! i" and ?l = "last (gs ! i)"
  have P: "sorted_wrt ?P (concat gs)" and v: "e \<in> set (gs ! i) \<Longrightarrow> i < length gs \<Longrightarrow> valid (fst e)" for e i
    using assms(1) by (auto simp: ordered_def)
  have ne: "gs ! i \<noteq> []" if "i < length gs" for i using assms(2) nth_mem [OF that] by metis
  have "?l \<in> set (gs ! i)" using ne [OF assms(4)] by simp
  note l = this v [OF this assms(4)]
  have key: "?s = (if Suc i < length gs then FindShortestSeparator cmp (fst ?l) (fst (hd (gs ! Suc i)))
      else FindShortSuccessor cmp (fst ?l))"
  proof -
    have "last (last gs) = ?l" if "\<not> Suc i < length gs" using that assms(4) by (metis last_conv_nth diff_Suc_1 length_0_conv less_SucE not_less_zero Suc_lessI)
    then show ?thesis using assms(3,4) by (simp add: index_keys_def separator_after_def)
  qed
  have nxt: "hd (gs ! Suc i) \<in> set (gs ! Suc i)" "?P ?l (hd (gs ! Suc i))" "valid (fst (hd (gs ! Suc i)))" if "Suc i < length gs"
    using ne [OF that] groups_sorted(2) [OF P assms(4) _ that l(1)] v [of "hd (gs ! Suc i)" "Suc i"] that by auto
  show vs: "valid ?s" using key nxt(3) l(2) separator_valid successor_valid by auto
  have ls: "Compare cmp (fst ?l) ?s \<le> 0"
    using key nxt separator_between [OF l(2)] successor_above [OF l(2)] by auto
  show "Compare cmp (fst e) ?s \<le> 0" if "e \<in> set (gs ! i)"
    using last_greatest [OF groups_sorted(1) [OF P assms(4)] that] ls v [OF that assms(4)] l(2) vs
      compare_less_le_trans [of "fst e" "fst ?l" ?s] by auto
  show "Compare cmp ?s (fst e) < 0" if j: "i < j" "j < length gs" "e \<in> set (gs ! j)"
  proof -
    have n: "Suc i < length gs" using j(1,2) by simp
    have s: "Compare cmp ?s (fst (hd (gs ! Suc i))) < 0" using key n separator_between [OF l(2) nxt(3) [OF n] nxt(2) [OF n]] by simp
    have "e = hd (gs ! Suc i) \<or> ?P (hd (gs ! Suc i)) e"
    proof (cases "j = Suc i")
      case True
      then show ?thesis using hd_least [OF groups_sorted(1) [OF P n]] j(3) by simp
    next
      case False
      then show ?thesis using groups_sorted(2) [OF P n _ j(2) nxt(1) [OF n] j(3)] j(1) by simp
    qed
    then show ?thesis using s compare_trans [OF vs nxt(3) [OF n] v [OF j(3,2)]] by auto
  qed
qed

lemma index_ordered:
  assumes "ordered (concat gs)" "[] \<notin> set gs" "op_comparator opt = cmp"
  shows "ordered (index_entries opt gs (index_keys opt gs))"
proof -
  let ?s = "index_keys opt gs"
  have len: "length ?s = length gs" by (simp add: index_keys_def)
  have "Compare cmp (?s ! i) (?s ! j) < 0" if "i < j" "j < length gs" for i j
  proof -
    have "gs ! j \<noteq> []" using assms(2) nth_mem [OF that(2)] by metis
    then have l: "last (gs ! j) \<in> set (gs ! j)" by simp
    then have "valid (fst (last (gs ! j)))" using assms(1) nth_mem [OF that(2)] by (auto simp: ordered_def)
    then show ?thesis
      using index_key_bounds [OF assms, of i] index_key_bounds [OF assms that(2)] that l
        compare_less_le_trans [of "?s ! i" "fst (last (gs ! j))" "?s ! j"] by simp
  qed
  then show ?thesis
    using index_key_bounds(1) [OF assms] by (auto simp: ordered_def index_entries_def sorted_wrt_iff_nth_less len)
qed

end

section \<open>Reading a data block\<close>

lemma data_part_append: "data_part opt (xs @ ys) = data_part opt xs @ data_part opt ys"
  by (simp add: data_part_def)

lemma data_part_split:
  assumes "i < length gs"
  shows "data_part opt gs = data_part opt (take i gs) @ framed (build_block (op_block_restart_interval opt) (gs ! i)) @ data_part opt (drop (Suc i) gs)"
proof -
  have "data_part opt gs = data_part opt (take i gs @ gs ! i # drop (Suc i) gs)" using id_take_nth_drop [OF assms] by simp
  then show ?thesis by (simp add: data_part_def)
qed

lemma data_offsets:
  assumes "length (table_bytes opt gs) < 2 ^ 32" "i \<le> length gs"
  shows "unat (of_nat (length (data_part opt (take i gs))) :: 64 word) = length (data_part opt (take i gs))"
proof -
  have "data_part opt gs = data_part opt (take i gs) @ data_part opt (drop i gs)"
    unfolding data_part_append [symmetric] by simp
  then have "length (data_part opt (take i gs)) \<le> length (data_part opt gs)" by simp
  then show ?thesis using table_sizes(4) [OF assms(1)] by (simp add: unat_of_nat)
qed

lemma data_offsets_mono: "i \<le> j \<Longrightarrow> length (data_part opt (take i gs)) \<le> length (data_part opt (take j gs))"
proof -
  assume "i \<le> j"
  then have "take j gs = take i gs @ drop i (take j gs)" using append_take_drop_id [of i "take j gs"] by (simp add: min_def)
  then have "data_part opt (take j gs) = data_part opt (take i gs) @ data_part opt (drop i (take j gs))"
    by (simp only: flip: data_part_append)
  then show ?thesis by simp
qed

lemma data_offsets_strict:
  assumes "i < j" "j \<le> length gs"
  shows "length (data_part opt (take i gs)) < length (data_part opt (take j gs))"
proof -
  have "take (Suc i) gs = take i gs @ [gs ! i]" using assms by (simp add: take_Suc_conv_app_nth)
  then have "length (data_part opt (take i gs)) < length (data_part opt (take (Suc i) gs))" by (simp add: kBlockTrailerSize_def)
  then show ?thesis using data_offsets_mono [of "Suc i" j opt gs] assms(1) by simp
qed

lemma ReadBlock_data:
  assumes "file_holds file (table_bytes opt gs)" "length (table_bytes opt gs) < 2 ^ 32" "i < length gs"
  obtains d where "ReadBlock file a v (data_handle opt gs i) =
      Some (OK, \<lparr>bc_data = build_block (op_block_restart_interval opt) (gs ! i), bc_cachable = d, bc_heap_allocated = d\<rparr>)"
    "length (build_block (op_block_restart_interval opt) (gs ! i)) < 2 ^ 32"
    "length (build_block (op_block_restart_interval opt) (gs ! i)) < length (table_bytes opt gs)"
proof -
  let ?b = "build_block (op_block_restart_interval opt) (gs ! i)"
  have bytes: "table_bytes opt gs = data_part opt (take i gs) @ framed ?b @ (data_part opt (drop (Suc i) gs) @ filter_bytes opt gs @
      framed (meta_block opt gs) @ framed (index_block opt gs) @ Footer_EncodeTo [] (table_footer opt gs))"
    unfolding table_bytes_def using data_part_split [OF assms(3), of opt] by simp
  have len: "length ?b < length (table_bytes opt gs)" unfolding bytes by (simp add: kBlockTrailerSize_def)
  have "length (data_part opt (take i gs)) < 2 ^ 64" using assms(2) unfolding bytes by simp
  moreover have "length ?b + kBlockTrailerSize < 2 ^ 64" using len assms(2) by (simp add: kBlockTrailerSize_def)
  ultimately show ?thesis
    using ReadBlock_framed [OF assms(1) [unfolded bytes], where address = a and verify = v] that len assms(2)
    by (auto simp: data_handle_def)
qed

text \<open>A cache that has no other block under the keys of the table's blocks.\<close>

definition cache_key :: "Table \<Rightarrow> Options \<Rightarrow> (slice \<times> slice) list list \<Rightarrow> nat \<Rightarrow> slice" where
  "cache_key t opt gs i = EncodeFixed64 (ta_cache_id t) @ EncodeFixed64 (bh_offset (data_handle opt gs i))"

type_synonym ('c, 'h) cache_contract = "('c \<Rightarrow> slice \<Rightarrow> block \<Rightarrow> bool) \<times> ('c \<Rightarrow> 'h multiset \<Rightarrow> bool) \<times> ('c \<Rightarrow> 'h multiset \<Rightarrow> bool)"

definition cache_agrees ::
    "('c, 'h) BlockCache option \<Rightarrow> ('c, 'h) cache_contract \<Rightarrow> Table \<Rightarrow> Options \<Rightarrow> (slice \<times> slice) list list \<Rightarrow> 'h multiset \<Rightarrow> 'c \<Rightarrow> bool" where
  "cache_agrees cache laws t opt gs H c \<longleftrightarrow>
     (\<forall>ca. cache = Some ca \<longrightarrow> (case laws of (holds, ok, room) \<Rightarrow>
        block_cache ca holds ok room \<and> ok c H \<and>
        (\<forall>i < length gs. \<forall>b. holds c (cache_key t opt gs i) b \<longrightarrow> b = new_Block (build_block (op_block_restart_interval opt) (gs ! i)))))"

definition cache_room :: "('c, 'h) BlockCache option \<Rightarrow> ('c, 'h) cache_contract \<Rightarrow> 'h multiset \<Rightarrow> 'c \<Rightarrow> bool" where
  "cache_room cache laws H c \<longleftrightarrow> (cache \<noteq> None \<longrightarrow> (case laws of (_, _, room) \<Rightarrow> room c H))"

definition handles :: "'h option \<Rightarrow> 'h multiset" where
  "handles h = (case h of None \<Rightarrow> {#} | Some x \<Rightarrow> {#x#})"

lemma cache_agrees_step:
  assumes "cache_agrees (Some ca) (holds, ok, room) t opt gs H c" "ok c' H'"
    "\<And>i b. i < length gs \<Longrightarrow> holds c' (cache_key t opt gs i) b \<Longrightarrow> holds c (cache_key t opt gs i) b \<or>
       b = new_Block (build_block (op_block_restart_interval opt) (gs ! i))"
  shows "cache_agrees (Some ca) (holds, ok, room) t opt gs H' c'"
  using assms unfolding cache_agrees_def by auto

lemma cache_key_inj:
  assumes "length (table_bytes opt gs) < 2 ^ 32" "i < length gs" "j < length gs" "cache_key t opt gs i = cache_key t opt gs j"
  shows "i = j"
proof -
  have "EncodeFixed64 (bh_offset (data_handle opt gs i)) = EncodeFixed64 (bh_offset (data_handle opt gs j))"
    using assms(4) by (simp add: cache_key_def)
  then have "bh_offset (data_handle opt gs i) = bh_offset (data_handle opt gs j)"
    using DecodeFixed_Encode(4) [of "bh_offset (data_handle opt gs i)"] by simp
  then have "(of_nat (length (data_part opt (take i gs))) :: 64 word) = of_nat (length (data_part opt (take j gs)))"
    by (simp only: data_handle_def BlockHandle.select_convs)
  from arg_cong [where f = unat, OF this] have "length (data_part opt (take i gs)) = length (data_part opt (take j gs))"
    unfolding data_offsets [OF assms(1) less_imp_le [OF assms(2)]] data_offsets [OF assms(1) less_imp_le [OF assms(3)]] .
  moreover have "i < j \<Longrightarrow> length (data_part opt (take i gs)) < length (data_part opt (take j gs))"
    "j < i \<Longrightarrow> length (data_part opt (take j gs)) < length (data_part opt (take i gs))"
    using data_offsets_strict [of i j gs opt] data_offsets_strict [of j i gs opt] assms(2,3) by simp_all
  ultimately show ?thesis by (cases i j rule: linorder_cases) simp_all
qed

lemma BlockReader_built:
  assumes "opened opt gs file t" "file_holds file (table_bytes opt gs)" "length (table_bytes opt gs) < 2 ^ 32" "i < length gs"
    "cache_agrees cache laws t opt gs H c" "cache_room cache laws H c"
  obtains h c' where "BlockReader a cache t ro (BlockHandle_EncodeTo [] (data_handle opt gs i)) c =
      Some (NewIterator (new_Block (build_block (op_block_restart_interval opt) (gs ! i))), h, c')"
    "cache_agrees cache laws t opt gs (handles h + H) c'" "cache = None \<longrightarrow> h = None"
proof -
  let ?b = "build_block (op_block_restart_interval opt) (gs ! i)" and ?h = "data_handle opt gs i"
  have dec: "BlockHandle_DecodeFrom (BlockHandle_EncodeTo [] ?h) h0 = (OK, ?h, [])" for h0
    using BlockHandle_Decode_Encode [of ?h "[]"] by simp
  obtain d where d: "ReadBlock file a (ro_verify_checksums ro) ?h = Some (OK, \<lparr>bc_data = ?b, bc_cachable = d, bc_heap_allocated = d\<rparr>)"
    by (rule ReadBlock_data [OF assms(2-4)])
  have tf: "ta_file t = file" using assms(1) by (simp add: opened_def)
  show ?thesis
  proof (cases cache)
    case None
    then show ?thesis using that [of None c] assms(5) d tf by (simp add: BlockReader_def dec handles_def)
  next
    case (Some ca)
    obtain holds ok room where laws: "laws = (holds, ok, room)" by (cases laws)
    have ca: "block_cache ca holds ok room" and okc: "ok c H" "room c H" and
      ag: "holds c (cache_key t opt gs i) b \<Longrightarrow> b = new_Block ?b" for b
      using assms(4-6) Some by (auto simp: cache_agrees_def cache_room_def laws)
    note agree = cache_agrees_step [OF assms(5) [unfolded Some laws]]
    let ?key = "cache_key t opt gs i"
    show ?thesis
      using block_cache.lookup [OF ca okc, of ?key]
    proof (elim disjE exE conjE)
      fix h b c1 assume look: "ca_Lookup ca ?key c = Some (Some h, c1)" "ca_Value ca h c1 = Some b" "holds c ?key b"
        "ok c1 (add_mset h H)" "\<forall>k b. holds c1 k b \<longrightarrow> holds c k b"
      have "cache_agrees cache laws t opt gs (handles (Some h) + H) c1"
        unfolding Some laws using agree [of c1 "handles (Some h) + H"] look(4,5) by (simp add: handles_def)
      then show ?thesis
        using that [of "Some h" c1] look(1,2) ag [OF look(3)] Some by (simp add: BlockReader_def dec cache_key_def)
    next
      assume look: "ca_Lookup ca ?key c = Some (None, c)"
      obtain h c2 where ins: "ca_Insert ca ?key (new_Block ?b) (bl_size (new_Block ?b)) c = Some (h, c2)" "ok c2 (add_mset h H)"
        "\<forall>k b'. holds c2 k b' \<longrightarrow> holds c k b' \<or> k = ?key \<and> b' = new_Block ?b"
        using block_cache.insertion [OF ca okc] by blast
      have "cache_agrees cache laws t opt gs (handles (Some h) + H) c2"
        unfolding Some laws using agree [of c2 "handles (Some h) + H"] ins(2,3) cache_key_inj [OF assms(3) _ assms(4)]
        by (auto simp: handles_def)
      then show ?thesis
        using that [of "Some h" c2] that [of None c] assms(5) ins look d tf Some
        by (cases "d \<and> ro_fill_cache ro") (auto simp: BlockReader_def dec cache_key_def handles_def)
    qed
  qed
qed

lemma release_agrees:
  assumes "cache_agrees cache laws t opt gs (handles h + H) c" "cache = None \<longrightarrow> h = None"
  obtains c' where "release_block cache h c = Some c'" "cache_agrees cache laws t opt gs H c'"
proof (cases cache)
  case None
  then show ?thesis using that assms by (simp add: release_block_def cache_agrees_def)
next
  case (Some ca)
  obtain holds ok room where laws: "laws = (holds, ok, room)" by (cases laws)
  show ?thesis
  proof (cases h)
    case None
    then show ?thesis using that [of c] assms(1) Some by (simp add: release_block_def handles_def)
  next
    case (Some x)
    have ca: "block_cache ca holds ok room" and okc: "ok c (add_mset x H)"
      using assms(1) Some \<open>cache = Some ca\<close> by (auto simp: cache_agrees_def laws handles_def)
    obtain c' where "ca_Release ca x c = Some c'" "ok c' H" "\<forall>k b. holds c' k b \<longrightarrow> holds c k b"
      using block_cache.release [OF ca okc] by blast
    then show ?thesis
      using that [of c'] cache_agrees_step [OF assms(1) [unfolded \<open>cache = Some ca\<close> laws], of c' H] Some \<open>cache = Some ca\<close> laws
      by (simp add: release_block_def)
  qed
qed

section \<open>The filter\<close>

lemma built_filter_base: "fr_base_lg (new_FilterBlockReader (Finish policy b)) = 11"
proof -
  obtain X where X: "Finish policy b = X @ [11]" "4 \<le> length X"
    by (simp add: Finish_def Let_def PutFixed32_def kFilterBaseLg_def)
  have "scast (11 :: byte) = (11 :: 64 word)" by simp
  then show ?thesis using X by (simp add: new_FilterBlockReader_def Let_def nth_append)
qed

lemma KeyMayMatch_defined: "fr_base_lg fr < 64 \<Longrightarrow> \<exists>d. FilterBlockReader_KeyMayMatch policy fr off key = Some d"
  by (simp add: FilterBlockReader_KeyMayMatch_def not_le Let_def)

lemma filter_defined:
  assumes "opened opt gs file t"
  obtains d where "filter_denies t (BlockHandle_EncodeTo [] h) k = Some d"
proof -
  have dec: "BlockHandle_DecodeFrom (BlockHandle_EncodeTo [] h) h0 = (OK, h, [])" for h0
    using BlockHandle_Decode_Encode [of h "[]"] by simp
  have "\<exists>d. filter_denies t (BlockHandle_EncodeTo [] h) k = Some d"
  proof (cases "op_filter_policy opt")
    case (Some p)
    obtain name policy where p: "p = (name, policy)" by (cases p)
    obtain fb where "filter_part opt gs = Some (Finish policy fb)" using Some p by (simp add: filter_part_def)
    moreover obtain d where "FilterBlockReader_KeyMayMatch policy (new_FilterBlockReader (Finish policy fb)) (bh_offset h) k = Some d"
      using KeyMayMatch_defined [of "new_FilterBlockReader (Finish policy fb)" policy "bh_offset h" k] by (auto simp: built_filter_base)
    ultimately show ?thesis using assms Some p by (simp add: filter_denies_def opened_def dec)
  qed (use assms in \<open>auto simp: filter_denies_def opened_def filter_part_def\<close>)
  then show ?thesis using that by blast
qed

lemma filter_admits:
  assumes "opened opt gs file t" "op_filter_policy opt = Some (name, InternalFilterPolicy up)"
    and "filter_policy (InternalFilterPolicy up) capacity" "length (concat gs) < capacity"
    and "length (table_bytes opt gs) < 2 ^ 32" "i < length gs" "e \<in> set (gs ! i)" "ExtractUserKey (fst e) = ExtractUserKey k"
  shows "filter_denies t (BlockHandle_EncodeTo [] (data_handle opt gs i)) k = Some False"
proof -
  let ?p = "InternalFilterPolicy up" and ?blocks = "filter_blocks opt (gs @ [[]])"
  let ?f = "Finish ?p (add_blocks ?p ?blocks new_FilterBlockBuilder)" and ?off = "bh_offset (data_handle opt gs i)"
  have fp: "filter_part opt gs = Some ?f" using assms(2) by (simp add: filter_part_def)
  have off: "fst (?blocks ! j) = of_nat (length (data_part opt (take j gs)))" if "j \<le> length gs" for j
    using that by (simp add: filter_blocks_def nth_append)
  have "sorted (map fst ?blocks)"
    unfolding sorted_iff_nth_mono
  proof (intro allI impI)
    fix i j assume ij: "i \<le> j" "j < length (map fst ?blocks)"
    have len: "length ?blocks = Suc (length gs)" by (simp add: filter_blocks_def)
    then have "i \<le> length gs" "j \<le> length gs" using ij by auto
    then show "map fst ?blocks ! i \<le> map fst ?blocks ! j"
      using off data_offsets [OF assms(5)] data_offsets_mono [OF ij(1)] ij len by (simp add: word_le_nat_alt)
  qed
  moreover have "length (concat (map snd ?blocks)) < capacity"
  proof -
    have "map snd (filter_blocks opt xs) = map (map fst) xs" for xs
      unfolding filter_blocks_def by (rule nth_equalityI) simp_all
    then have "length (concat (map snd ?blocks)) = length (concat gs)" by (simp add: length_concat comp_def)
    then show ?thesis using assms(4) by simp
  qed
  moreover have "length ?f < 2 ^ 32" using assms(5) by (simp add: table_bytes_def filter_bytes_def fp)
  moreover have "(?off, map fst (gs ! i)) \<in> set ?blocks"
    using assms(6) by (force simp: filter_blocks_def data_handle_def nth_append intro!: image_eqI [where x = i])
  moreover have "fst e \<in> set (map fst (gs ! i))" using assms(7) by simp
  ultimately have "FilterBlockReader_KeyMayMatch ?p (new_FilterBlockReader ?f) ?off (fst e) = Some True"
    by (rule filter_policy.filter_block_matches [OF assms(3)])
  moreover have "FilterBlockReader_KeyMayMatch ?p fr off (fst e) = FilterBlockReader_KeyMayMatch ?p fr off k" for fr off
  proof -
    have "KeyMayMatch ?p (fst e) = KeyMayMatch ?p k" using assms(8) by (simp add: InternalFilterPolicy_def)
    then show ?thesis unfolding FilterBlockReader_KeyMayMatch_def by (simp only:)
  qed
  moreover have "BlockHandle_DecodeFrom (BlockHandle_EncodeTo [] h) h0 = (OK, h, [])" for h h0
    using BlockHandle_Decode_Encode [of h "[]"] by simp
  ultimately show ?thesis using assms(1,2) fp by (simp add: filter_denies_def opened_def)
qed

section \<open>Looking up a key\<close>

text \<open>
  The result of a lookup among the entries: nothing, or the first entry at or after the key; certainly that entry if it has
  the user key of the lookup.
\<close>

definition get_result :: "Comparator \<Rightarrow> slice \<Rightarrow> (slice \<times> slice) list \<Rightarrow> (slice \<times> slice) option \<Rightarrow> bool" where
  "get_result cmp k es res \<longleftrightarrow>
     (let rest = dropWhile (\<lambda>e. Compare cmp (fst e) k < 0) es in
      (res = None \<or> rest \<noteq> [] \<and> res = Some (hd rest)) \<and>
      (rest \<noteq> [] \<and> ExtractUserKey (fst (hd rest)) = ExtractUserKey k \<longrightarrow> res = Some (hd rest)))"

context user_comparator
begin

text \<open>
  An entry of a later block has another user key than a lookup key that is above the block but not above its index key: the index
  key was shortened, and its user part lies strictly between.
\<close>

lemma later_user_key:
  assumes "internal.ordered (concat gs)" "[] \<notin> set gs" "op_comparator opt = InternalKeyComparator cmp" "i < j" "j < length gs"
    "e \<in> set (gs ! j)" "8 \<le> length k" "Compare (InternalKeyComparator cmp) (fst (last (gs ! i))) k < 0"
    "Compare (InternalKeyComparator cmp) k (index_keys opt gs ! i) \<le> 0"
  shows "ExtractUserKey (fst e) \<noteq> ExtractUserKey k"
proof -
  let ?I = "InternalKeyComparator cmp" and ?l = "fst (last (gs ! i))" and ?f = "fst (hd (gs ! Suc i))"
  have n: "Suc i < length gs" using assms(4,5) by simp
  have sorted: "sorted_wrt (\<lambda>a b. Compare ?I (fst a) (fst b) < 0) (concat gs)" using assms(1) by (simp add: internal.ordered_def)
  have fe: "e = hd (gs ! Suc i) \<or> Compare ?I ?f (fst e) < 0"
  proof (cases "j = Suc i")
    case True
    then show ?thesis using hd_least [OF groups_sorted(1) [OF sorted n]] assms(6) by simp
  next
    case False
    have "hd (gs ! Suc i) \<in> set (gs ! Suc i)" using assms(2) nth_mem [OF n] by (metis list.set_sel(1))
    then show ?thesis using groups_sorted(2) [OF sorted n _ assms(5) _ assms(6)] False assms(4) by simp
  qed
  have key: "index_keys opt gs ! i = internal_separator cmp ?l ?f"
    using n assms(3) by (simp add: index_keys_def separator_after_def InternalKeyComparator_def)
  show ?thesis
  proof (cases rule: internal_separator_cases [of ?l ?f])
    case 1
    then have "Compare ?I k ?l \<le> 0" using assms(9) key by simp
    then show ?thesis using assms(8) by (auto simp: internal_le internal_signs dest: user_less_not)
  next
    case (2 tmp)
    have kt: "Compare cmp (ExtractUserKey k) tmp < 0 \<or> ExtractUserKey k = tmp"
      using assms(9) user_order(1) [of "ExtractUserKey k" tmp] user_order(3) [of "ExtractUserKey k" tmp] unfolding key 2(4) internal_le
      by (auto simp: internal_signs)
    have "Compare cmp tmp (ExtractUserKey (fst e)) < 0"
      using fe 2(3) compare_trans [of tmp "ExtractUserKey ?f" "ExtractUserKey (fst e)"] by (auto simp: internal_signs)
    then show ?thesis using kt compare_trans [of "ExtractUserKey k" tmp "ExtractUserKey (fst e)"] user_less_not by metis
  qed
qed

lemma InternalGet_built:
  assumes "opened opt gs file t" "file_holds file (table_bytes opt gs)" "length (table_bytes opt gs) < 2 ^ 32"
    "length (table_bytes opt gs) \<le> fuel" "[] \<notin> set gs" "internal.ordered (concat gs)" "8 \<le> length k"
    "op_comparator opt = InternalKeyComparator cmp" "cache_agrees cache laws t opt gs H c" "cache_room cache laws H c"
    "\<And>name p. op_filter_policy opt = Some (name, p) \<Longrightarrow>
      \<exists>up capacity. p = InternalFilterPolicy up \<and> filter_policy p capacity \<and> length (concat gs) < capacity"
  shows "\<exists>res c'. InternalGet fuel a cache t ro k c = Some (Some (OK, res, c')) \<and> cache_agrees cache laws t opt gs H c' \<and>
    get_result (InternalKeyComparator cmp) k (concat gs) res"
proof -
  let ?I = "InternalKeyComparator cmp" and ?P = "\<lambda>e. Compare (InternalKeyComparator cmp) (fst e) k < 0"
  let ?ie = "index_entries opt gs (index_keys opt gs)" and ?s = "index_keys opt gs"
  have len: "length ?s = length gs" by (simp add: index_keys_def)
  have top: "ta_options t = opt" "ta_index_block t = new_Block (build_block 1 ?ie)"
    using assms(1) by (simp_all add: opened_def index_block_def)
  have bi: "length (build_block 1 ?ie) < 2 ^ 32" "length (build_block 1 ?ie) \<le> fuel"
    using table_sizes(2) [OF assms(3)] assms(4) by (simp_all add: index_block_def table_bytes_def)
  note bounds = internal.index_key_bounds [OF assms(6,5,8)]
  obtain it where it: "iterator_Seek fuel ?I k (NewIterator (new_Block (build_block 1 ?ie))) = Some (Some (Block_iterator it))"
    "it_status it = OK" "Valid it \<longleftrightarrow> dropWhile ?P ?ie \<noteq> []" "Valid it \<longrightarrow> (it_key it, it_value_bytes it) = hd (dropWhile ?P ?ie)"
    by (rule internal.built_Seek [OF internal.index_ordered [OF assms(6,5,8)] assms(7) bi])
  define j where "j = length (takeWhile ?P ?ie)"
  have dw: "dropWhile ?P ?ie = drop j ?ie" by (simp add: j_def dropWhile_eq_drop)
  have lie: "length ?ie = length gs" by (simp add: index_entries_def len)
  have jle: "j \<le> length gs" using length_takeWhile_le [of ?P ?ie] lie by (simp add: j_def)
  have below: "?P e" if "i < j" "e \<in> set (gs ! i)" for i e
  proof -
    have i: "i < length gs" using that(1) jle by simp
    have "?ie ! i \<in> set (takeWhile ?P ?ie)" using that(1) by (metis j_def nth_mem takeWhile_nth)
    then have "Compare ?I (?s ! i) k < 0" using i len by (auto simp: index_entries_def dest!: set_takeWhileD)
    moreover have "8 \<le> length (fst e)" using assms(6) that(2) nth_mem [OF i] by (auto simp: internal.ordered_def)
    ultimately show ?thesis
      using bounds(1,2) [OF i] that(2) internal.compare_le_less_trans [of "fst e" "?s ! i" k] assms(7) by auto
  qed
  have rest: "dropWhile ?P (concat gs) = dropWhile ?P (concat (drop j gs))" by (rule dropWhile_concat_drop [OF jle below])
  show ?thesis
  proof (cases "j < length gs")
    case False
    then have nv: "\<not> Valid it" using it(3) dw lie by simp
    have "get_result ?I k (concat gs) None" using False rest by (simp add: get_result_def)
    then show ?thesis using nv it(1,2) top assms(8,9) by (simp add: InternalGet_def Let_def)
  next
    case True
    let ?g = "gs ! j" and ?b = "build_block (op_block_restart_interval opt) (gs ! j)"
    let ?rest = "dropWhile ?P (concat gs)"
    have iej: "?ie ! j = (?s ! j, BlockHandle_EncodeTo [] (data_handle opt gs j))" using True len by (simp add: index_entries_def)
    have v: "Valid it" "it_value_bytes it = BlockHandle_EncodeTo [] (data_handle opt gs j)"
      using it(3,4) dw lie True iej by (simp_all add: hd_drop_conv_nth)
    obtain h c1 where br: "BlockReader a cache t ro (BlockHandle_EncodeTo [] (data_handle opt gs j)) c = Some (NewIterator (new_Block ?b), h, c1)"
      "cache_agrees cache laws t opt gs (handles h + H) c1" "cache = None \<longrightarrow> h = None"
      by (rule BlockReader_built [OF assms(1-3) True assms(9,10)])
    obtain sz: "length ?b < 2 ^ 32" "length ?b < length (table_bytes opt gs)" using ReadBlock_data [OF assms(2,3) True] by blast
    have og: "internal.ordered ?g"
      using assms(6) groups_sorted(1) [OF _ True] nth_mem [OF True] by (auto simp: internal.ordered_def)
    have fuel: "length ?b \<le> fuel" using sz(2) assms(4) by simp
    obtain it2 where it2: "iterator_Seek fuel ?I k (NewIterator (new_Block ?b)) = Some (Some (Block_iterator it2))"
      "it_status it2 = OK" "Valid it2 \<longleftrightarrow> dropWhile ?P ?g \<noteq> []" "Valid it2 \<longrightarrow> (it_key it2, it_value_bytes it2) = hd (dropWhile ?P ?g)"
      by (rule internal.built_Seek [OF og assms(7) sz(1) fuel])
    have split: "drop j gs = ?g # drop (Suc j) gs" using True by (simp add: Cons_nth_drop_Suc)
    have inside: "?rest \<noteq> []" "hd ?rest = hd (dropWhile ?P ?g)" "hd ?rest \<in> set ?g" if "dropWhile ?P ?g \<noteq> []"
    proof -
      have "?rest = dropWhile ?P ?g @ concat (drop (Suc j) gs)" unfolding rest split using that by (auto simp: dropWhile_append)
      then show "?rest \<noteq> []" "hd ?rest = hd (dropWhile ?P ?g)" using that by simp_all
      then show "hd ?rest \<in> set ?g" using that by (metis list.set_sel(1) set_dropWhileD)
    qed
    have outside: "ExtractUserKey (fst (hd ?rest)) \<noteq> ExtractUserKey k" if none: "dropWhile ?P ?g = []" and some: "?rest \<noteq> []"
    proof -
      have all: "\<forall>e \<in> set ?g. ?P e" using none by simp
      have "?rest = dropWhile ?P (concat (drop (Suc j) gs))" unfolding rest split using all by (simp add: dropWhile_append2)
      then have "hd ?rest \<in> set (concat (drop (Suc j) gs))" using some by (metis list.set_sel(1) set_dropWhileD)
      then obtain i where i: "Suc j + i < length gs" "hd ?rest \<in> set (gs ! (Suc j + i))"
        by (auto simp: in_set_conv_nth [of _ "drop _ _"] less_diff_conv add.commute)
      have "?g \<noteq> []" using assms(5) nth_mem [OF True] by metis
      then have l: "?P (last ?g)" using all by simp
      have "\<not> ?P (?ie ! j)" using nth_length_takeWhile [of ?P ?ie] True lie by (simp add: j_def)
      then have "Compare ?I k (?s ! j) \<le> 0"
        using internal.compare_ge [OF bounds(1) [OF True] assms(7)] by (simp add: iej not_less)
      then show ?thesis using later_user_key [OF assms(6,5,8) _ i(1) i(2) assms(7) l] by simp
    qed
    obtain denied where fd: "filter_denies t (BlockHandle_EncodeTo [] (data_handle opt gs j)) k = Some denied" by (rule filter_defined [OF assms(1)])
    have sound: "\<not> (?rest \<noteq> [] \<and> ExtractUserKey (fst (hd ?rest)) = ExtractUserKey k)" if d: denied
    proof
      assume r: "?rest \<noteq> [] \<and> ExtractUserKey (fst (hd ?rest)) = ExtractUserKey k"
      then have e: "hd ?rest \<in> set ?g" using inside(3) outside by blast
      obtain name p where p: "op_filter_policy opt = Some (name, p)"
        using fd d assms(1) by (cases "op_filter_policy opt") (auto simp: filter_denies_def opened_def filter_part_def)
      obtain up capacity where "p = InternalFilterPolicy up" "filter_policy p capacity" "length (concat gs) < capacity"
        using assms(11) [OF p] by blast
      then have "filter_denies t (BlockHandle_EncodeTo [] (data_handle opt gs j)) k = Some False"
        using filter_admits [OF assms(1), of name up capacity j "hd ?rest" k] p assms(3) True e r by simp
      then show False using fd d by simp
    qed
    show ?thesis
    proof (cases denied)
      case True
      have "get_result ?I k (concat gs) None" using sound [OF True] by (simp add: get_result_def Let_def)
      then show ?thesis using v it(1,2) top fd True assms(8,9) by (simp add: InternalGet_def Let_def)
    next
      case False
      define res where "res = (if Valid it2 then Some (it_key it2, it_value_bytes it2) else None)"
      obtain c2 where c2: "release_block cache h c1 = Some c2" "cache_agrees cache laws t opt gs H c2" by (rule release_agrees [OF br(2,3)])
      have "InternalGet fuel a cache t ro k c = Some (Some (OK, res, c2))"
        using v it(1,2) top fd False assms(8) br(1) it2(1,2) c2(1) by (simp add: InternalGet_def Let_def res_def)
      moreover have "get_result ?I k (concat gs) res"
        using inside outside it2(3,4) by (auto simp: get_result_def Let_def res_def)
      ultimately show ?thesis using c2(2) by blast
    qed
  qed
qed

end

end
