(* ===== verification/Ldb_Cache.thy ===== *)
theory Ldb_Cache
  imports Ldb_Table "HOL-Library.Multiset" "HOL-Library.Monad_Syntax"
begin

text \<open>
  The block cache (\<^verbatim>\<open>util/cache.cc\<close>). Entries are in a store indexed by address, with one store for the entries that a shard
  allocates; an address is the number of the allocation. The chains of the hash table and the two circular lists of a shard,
  which the code threads through the entries, are lists of addresses: the entry before the head of a circular list is the
  last of the list. \<open>None\<close> is the outcome of an access to an entry that was freed, of an access outside the bucket array, and of a loop that does not end.

  The client's handles are counted beside the state, so that the invariant says whose references an entry's counter counts; it
  gives that no operation touches a freed entry, and that the entries in the store are exactly those in the cache or in use.
\<close>

section \<open>The hash table\<close>

record 'v LRUHandle =
  lh_value :: 'v
  lh_charge :: "64 word"
  lh_key :: slice
  lh_in_cache :: bool
  lh_refs :: "32 word"
  lh_hash :: "32 word"

type_synonym 'v entries = "nat \<rightharpoonup> 'v LRUHandle"

record HandleTable =
  ht_length :: "32 word"
  ht_elems :: "32 word"
  ht_list :: "nat list list"

fun chain_search :: "'v entries \<Rightarrow> slice \<Rightarrow> 32 word \<Rightarrow> nat list \<Rightarrow> nat option" where
  "chain_search m key hash [] = Some 0"
| "chain_search m key hash (p # ps) =
     do {
       e \<leftarrow> m p;
       if lh_hash e \<noteq> hash \<or> key \<noteq> lh_key e then map_option Suc (chain_search m key hash ps) else Some 0
     }"

text \<open>A slot is a bucket and a position in its chain; the position after the last entry is the trailing slot.\<close>

definition FindPointer :: "'v entries \<Rightarrow> slice \<Rightarrow> 32 word \<Rightarrow> HandleTable \<Rightarrow> (nat \<times> nat) option" where
  "FindPointer m key hash t =
     (let b = unat (hash AND (ht_length t - 1)) in
      if b < length (ht_list t) then map_option (Pair b) (chain_search m key hash (ht_list t ! b)) else None)"

definition slot_entry :: "HandleTable \<Rightarrow> nat \<times> nat \<Rightarrow> nat option" where
  "slot_entry t s = (case s of (b, i) \<Rightarrow> if i < length (ht_list t ! b) then Some (ht_list t ! b ! i) else None)"

definition HandleTable_Lookup :: "'v entries \<Rightarrow> slice \<Rightarrow> 32 word \<Rightarrow> HandleTable \<Rightarrow> nat option option" where
  "HandleTable_Lookup m key hash t = map_option (slot_entry t) (FindPointer m key hash t)"

text \<open>Doubling wraps around to 0 for more than \<open>2 ^ 31\<close> elements, and then the loop does not end.\<close>

partial_function (option) resize_length :: "32 word \<Rightarrow> 32 word \<Rightarrow> 32 word option" where
  "resize_length new_length elems = (if new_length < elems then resize_length (new_length * 2) elems else Some new_length)"

fun rehash :: "'v entries \<Rightarrow> 32 word \<Rightarrow> nat list \<Rightarrow> nat list list \<Rightarrow> nat list list option" where
  "rehash m new_length [] new_list = Some new_list"
| "rehash m new_length (p # ps) new_list =
     do {
       e \<leftarrow> m p;
       let b = unat (lh_hash e AND (new_length - 1));
       if b < length new_list then rehash m new_length ps (new_list[b := p # new_list ! b]) else None
     }"

definition Resize :: "'v entries \<Rightarrow> HandleTable \<Rightarrow> HandleTable option" where
  "Resize m t =
     do {
       new_length \<leftarrow> resize_length 4 (ht_elems t);
       new_list \<leftarrow> rehash m new_length (concat (ht_list t)) (replicate (unat new_length) []);
       Some (t\<lparr>ht_length := new_length, ht_list := new_list\<rparr>)
     }"

definition new_HandleTable :: HandleTable where
  "new_HandleTable = \<lparr>ht_length = 4, ht_elems = 0, ht_list = replicate 4 []\<rparr>"

definition HandleTable_Insert :: "'v entries \<Rightarrow> nat \<Rightarrow> HandleTable \<Rightarrow> (nat option \<times> HandleTable) option" where
  "HandleTable_Insert m h t =
     do {
       e \<leftarrow> m h;
       (b, i) \<leftarrow> FindPointer m (lh_key e) (lh_hash e) t;
       let chain = ht_list t ! b;
       let old = slot_entry t (b, i);
       let t1 = t\<lparr>ht_list := (ht_list t)[b := take i chain @ h # drop (Suc i) chain]\<rparr>;
       case old of
         Some _ \<Rightarrow> Some (old, t1)
       | None \<Rightarrow>
           let t2 = t1\<lparr>ht_elems := ht_elems t + 1\<rparr>
           in if ht_length t2 < ht_elems t2 then map_option (Pair old) (Resize m t2) else Some (old, t2)
     }"

definition HandleTable_Remove :: "'v entries \<Rightarrow> slice \<Rightarrow> 32 word \<Rightarrow> HandleTable \<Rightarrow> (nat option \<times> HandleTable) option" where
  "HandleTable_Remove m key hash t =
     do {
       (b, i) \<leftarrow> FindPointer m key hash t;
       let chain = ht_list t ! b;
       let result = slot_entry t (b, i);
       Some (result,
         case result of
           None \<Rightarrow> t
         | Some _ \<Rightarrow> t\<lparr>ht_elems := ht_elems t - 1, ht_list := (ht_list t)[b := take i chain @ drop (Suc i) chain]\<rparr>)
     }"

section \<open>A shard\<close>

text \<open>\<open>lc_deleted\<close> records the calls of the entries' deleters.\<close>

record 'v LRUCache =
  lc_capacity :: "64 word"
  lc_usage :: "64 word"
  lc_lru :: "nat list"
  lc_in_use :: "nat list"
  lc_table :: HandleTable
  lc_entries :: "'v entries"
  lc_fresh :: nat
  lc_deleted :: "(slice \<times> 'v) list"

definition new_LRUCache :: "64 word \<Rightarrow> 'v LRUCache" where
  "new_LRUCache capacity = \<lparr>lc_capacity = capacity, lc_usage = 0, lc_lru = [], lc_in_use = [], lc_table = new_HandleTable,
     lc_entries = Map.empty, lc_fresh = 0, lc_deleted = []\<rparr>"

datatype list_head = Lru | In_use

definition LRU_Remove :: "nat \<Rightarrow> 'v LRUCache \<Rightarrow> 'v LRUCache" where
  "LRU_Remove p c = c\<lparr>lc_lru := remove1 p (lc_lru c), lc_in_use := remove1 p (lc_in_use c)\<rparr>"

fun LRU_Append :: "list_head \<Rightarrow> nat \<Rightarrow> 'v LRUCache \<Rightarrow> 'v LRUCache" where
  "LRU_Append Lru p c = c\<lparr>lc_lru := lc_lru c @ [p]\<rparr>"
| "LRU_Append In_use p c = c\<lparr>lc_in_use := lc_in_use c @ [p]\<rparr>"

definition Ref :: "nat \<Rightarrow> 'v LRUCache \<Rightarrow> 'v LRUCache option" where
  "Ref p c =
     do {
       e \<leftarrow> lc_entries c p;
       let c1 = (if lh_refs e = 1 \<and> lh_in_cache e then LRU_Append In_use p (LRU_Remove p c) else c);
       Some (c1\<lparr>lc_entries := (lc_entries c)(p \<mapsto> e\<lparr>lh_refs := lh_refs e + 1\<rparr>)\<rparr>)
     }"

definition Unref :: "nat \<Rightarrow> 'v LRUCache \<Rightarrow> 'v LRUCache option" where
  "Unref p c =
     do {
       e \<leftarrow> lc_entries c p;
       let refs = lh_refs e - 1;
       let c1 = c\<lparr>lc_entries := (lc_entries c)(p \<mapsto> e\<lparr>lh_refs := refs\<rparr>)\<rparr>;
       Some
         (if refs = 0
          then c1\<lparr>lc_deleted := lc_deleted c @ [(lh_key e, lh_value e)], lc_entries := (lc_entries c)(p := None)\<rparr>
          else if lh_in_cache e \<and> refs = 1 then LRU_Append Lru p (LRU_Remove p c1)
          else c1)
     }"

fun FinishErase :: "nat option \<Rightarrow> 'v LRUCache \<Rightarrow> 'v LRUCache option" where
  "FinishErase None c = Some c"
| "FinishErase (Some p) c =
     do {
       e \<leftarrow> lc_entries c p;
       let c1 = LRU_Remove p c;
       Unref p (c1\<lparr>lc_entries := (lc_entries c)(p \<mapsto> e\<lparr>lh_in_cache := False\<rparr>), lc_usage := lc_usage c - lh_charge e\<rparr>)
     }"

definition LRUCache_Lookup :: "slice \<Rightarrow> 32 word \<Rightarrow> 'v LRUCache \<Rightarrow> (nat option \<times> 'v LRUCache) option" where
  "LRUCache_Lookup key hash c =
     do {
       e \<leftarrow> HandleTable_Lookup (lc_entries c) key hash (lc_table c);
       case e of
         None \<Rightarrow> Some (None, c)
       | Some p \<Rightarrow> map_option (Pair (Some p)) (Ref p c)
     }"

definition LRUCache_Release :: "nat \<Rightarrow> 'v LRUCache \<Rightarrow> 'v LRUCache option" where
  "LRUCache_Release handle c = Unref handle c"

definition LRUCache_Erase :: "slice \<Rightarrow> 32 word \<Rightarrow> 'v LRUCache \<Rightarrow> 'v LRUCache option" where
  "LRUCache_Erase key hash c =
     do {
       (e, t) \<leftarrow> HandleTable_Remove (lc_entries c) key hash (lc_table c);
       FinishErase e (c\<lparr>lc_table := t\<rparr>)
     }"

text \<open>One round of the loops that remove the oldest entry.\<close>

definition erase_oldest :: "'v LRUCache \<Rightarrow> 'v LRUCache option" where
  "erase_oldest c =
     do {
       old \<leftarrow> lc_entries c (hd (lc_lru c));
       LRUCache_Erase (lh_key old) (lh_hash old) c
     }"

partial_function (option) evict :: "'v LRUCache \<Rightarrow> 'v LRUCache option" where
  "evict c = (if lc_capacity c < lc_usage c \<and> lc_lru c \<noteq> [] then do { c1 \<leftarrow> erase_oldest c; evict c1 } else Some c)"

partial_function (option) LRUCache_Prune :: "'v LRUCache \<Rightarrow> 'v LRUCache option" where
  "LRUCache_Prune c = (if lc_lru c \<noteq> [] then do { c1 \<leftarrow> erase_oldest c; LRUCache_Prune c1 } else Some c)"

definition LRUCache_Insert :: "slice \<Rightarrow> 32 word \<Rightarrow> 'v \<Rightarrow> 64 word \<Rightarrow> 'v LRUCache \<Rightarrow> (nat \<times> 'v LRUCache) option" where
  "LRUCache_Insert key hash v charge c =
     (let p = lc_fresh c;
          e = \<lparr>lh_value = v, lh_charge = charge, lh_key = key, lh_in_cache = False, lh_refs = 1, lh_hash = hash\<rparr>;
          c0 = c\<lparr>lc_fresh := Suc p\<rparr>
      in do {
        c1 \<leftarrow>
          (if 0 < lc_capacity c then
             let c1 = LRU_Append In_use p
                        (c0\<lparr>lc_entries := (lc_entries c)(p \<mapsto> e\<lparr>lh_refs := 2, lh_in_cache := True\<rparr>), lc_usage := lc_usage c + charge\<rparr>)
             in do {
               (old, t) \<leftarrow> HandleTable_Insert (lc_entries c1) p (lc_table c1);
               FinishErase old (c1\<lparr>lc_table := t\<rparr>)
             }
           else Some (c0\<lparr>lc_entries := (lc_entries c)(p \<mapsto> e)\<rparr>));
        c2 \<leftarrow> evict c1;
        Some (p, c2)
      })"

text \<open>The destructor, on the entries of the LRU list.\<close>

fun delete_entries :: "nat list \<Rightarrow> 'v LRUCache \<Rightarrow> 'v LRUCache option" where
  "delete_entries [] c = Some c"
| "delete_entries (p # ps) c =
     do {
       e \<leftarrow> lc_entries c p;
       c1 \<leftarrow> Unref p (c\<lparr>lc_entries := (lc_entries c)(p \<mapsto> e\<lparr>lh_in_cache := False\<rparr>)\<rparr>);
       delete_entries ps c1
     }"

definition delete_LRUCache :: "'v LRUCache \<Rightarrow> 'v LRUCache option" where
  "delete_LRUCache c = delete_entries (lc_lru c) c"

definition LRUCache_TotalCharge :: "'v LRUCache \<Rightarrow> 64 word" where
  "LRUCache_TotalCharge c = lc_usage c"

section \<open>The sharded cache\<close>

text \<open>A handle is the shard whose store has the entry, and the address there; \<open>Release\<close> finds the shard by the entry's hash.\<close>

definition kNumShardBits :: nat where
  "kNumShardBits = 4"

definition kNumShards :: nat where
  "kNumShards = 2 ^ kNumShardBits"

record 'v ShardedLRUCache =
  sc_shard :: "'v LRUCache list"
  sc_last_id :: "64 word"

type_synonym handle = "nat \<times> nat"

definition HashSlice :: "slice \<Rightarrow> 32 word" where
  "HashSlice s = Hash s 0"

definition Shard :: "32 word \<Rightarrow> nat" where
  "Shard hash = unat (drop_bit (32 - kNumShardBits) hash)"

definition NewLRUCache :: "64 word \<Rightarrow> 'v ShardedLRUCache" where
  "NewLRUCache capacity =
     \<lparr>sc_shard = replicate kNumShards (new_LRUCache ((capacity + (of_nat kNumShards - 1)) div of_nat kNumShards)), sc_last_id = 0\<rparr>"

definition Cache_Insert :: "slice \<Rightarrow> 'v \<Rightarrow> 64 word \<Rightarrow> 'v ShardedLRUCache \<Rightarrow> (handle \<times> 'v ShardedLRUCache) option" where
  "Cache_Insert key v charge sc =
     (let hash = HashSlice key; s = Shard hash
      in do {
        (p, c) \<leftarrow> LRUCache_Insert key hash v charge (sc_shard sc ! s);
        Some ((s, p), sc\<lparr>sc_shard := (sc_shard sc)[s := c]\<rparr>)
      })"

definition Cache_Lookup :: "slice \<Rightarrow> 'v ShardedLRUCache \<Rightarrow> (handle option \<times> 'v ShardedLRUCache) option" where
  "Cache_Lookup key sc =
     (let hash = HashSlice key; s = Shard hash
      in do {
        (p, c) \<leftarrow> LRUCache_Lookup key hash (sc_shard sc ! s);
        Some (map_option (Pair s) p, sc\<lparr>sc_shard := (sc_shard sc)[s := c]\<rparr>)
      })"

definition Cache_Release :: "handle \<Rightarrow> 'v ShardedLRUCache \<Rightarrow> 'v ShardedLRUCache option" where
  "Cache_Release h sc =
     do {
       e \<leftarrow> lc_entries (sc_shard sc ! fst h) (snd h);
       let s = Shard (lh_hash e);
       if s = fst h then map_option (\<lambda>c. sc\<lparr>sc_shard := (sc_shard sc)[s := c]\<rparr>) (LRUCache_Release (snd h) (sc_shard sc ! s)) else None
     }"

definition Cache_Erase :: "slice \<Rightarrow> 'v ShardedLRUCache \<Rightarrow> 'v ShardedLRUCache option" where
  "Cache_Erase key sc =
     (let hash = HashSlice key; s = Shard hash
      in map_option (\<lambda>c. sc\<lparr>sc_shard := (sc_shard sc)[s := c]\<rparr>) (LRUCache_Erase key hash (sc_shard sc ! s)))"

definition Cache_Value :: "handle \<Rightarrow> 'v ShardedLRUCache \<Rightarrow> 'v option" where
  "Cache_Value h sc = map_option lh_value (lc_entries (sc_shard sc ! fst h) (snd h))"

definition NewId :: "'v ShardedLRUCache \<Rightarrow> 64 word \<times> 'v ShardedLRUCache" where
  "NewId sc = (sc_last_id sc + 1, sc\<lparr>sc_last_id := sc_last_id sc + 1\<rparr>)"

fun prune_shards :: "'v LRUCache list \<Rightarrow> 'v LRUCache list option" where
  "prune_shards [] = Some []"
| "prune_shards (c # cs) = do { c1 \<leftarrow> LRUCache_Prune c; cs1 \<leftarrow> prune_shards cs; Some (c1 # cs1) }"

definition Cache_Prune :: "'v ShardedLRUCache \<Rightarrow> 'v ShardedLRUCache option" where
  "Cache_Prune sc = map_option (\<lambda>cs. sc\<lparr>sc_shard := cs\<rparr>) (prune_shards (sc_shard sc))"

definition Cache_TotalCharge :: "'v ShardedLRUCache \<Rightarrow> 64 word" where
  "Cache_TotalCharge sc = sum_list (map LRUCache_TotalCharge (sc_shard sc))"

section \<open>What the hash table keeps\<close>

definition in_table :: "HandleTable \<Rightarrow> nat set" where
  "in_table t = set (concat (ht_list t))"

definition matches :: "'v entries \<Rightarrow> slice \<Rightarrow> 32 word \<Rightarrow> nat \<Rightarrow> bool" where
  "matches m key hash p \<longleftrightarrow> (\<exists>e. m p = Some e \<and> lh_key e = key \<and> lh_hash e = hash)"

text \<open>Each entry is in the bucket of its hash, and no two entries have the same key and hash.\<close>

definition buckets_ok :: "'v entries \<Rightarrow> 32 word \<Rightarrow> nat list list \<Rightarrow> bool" where
  "buckets_ok m n l \<longleftrightarrow> (\<forall>b < length l. \<forall>p \<in> set (l ! b). \<exists>e. m p = Some e \<and> unat (lh_hash e AND (n - 1)) = b)"

definition keys_distinct :: "'v entries \<Rightarrow> nat set \<Rightarrow> bool" where
  "keys_distinct m S \<longleftrightarrow> (\<forall>p \<in> S. \<forall>q \<in> S. \<forall>key hash. matches m key hash p \<and> matches m key hash q \<longrightarrow> p = q)"

definition table_ok :: "'v entries \<Rightarrow> HandleTable \<Rightarrow> bool" where
  "table_ok m t \<longleftrightarrow>
     0 < unat (ht_length t) \<and> length (ht_list t) = unat (ht_length t) \<and>
     distinct (concat (ht_list t)) \<and> unat (ht_elems t) = length (concat (ht_list t)) \<and>
     buckets_ok m (ht_length t) (ht_list t) \<and> keys_distinct m (in_table t)"

lemma bucket_less: "0 < unat n \<Longrightarrow> unat (h AND (n - 1)) < unat n" for n h :: "32 word"
proof -
  assume n: "0 < unat n"
  then have "unat (n - 1) = unat n - 1" by (subst unat_sub) (auto simp: word_le_nat_alt)
  moreover have "h AND (n - 1) \<le> n - 1" by (rule word_and_le1)
  ultimately show ?thesis using n by (simp add: word_le_nat_alt)
qed

lemma chain_search_matches:
  assumes "\<forall>p \<in> set ps. m p \<noteq> None"
  obtains i where "chain_search m key hash ps = Some i" "i \<le> length ps" "\<forall>j < i. \<not> matches m key hash (ps ! j)"
    "i < length ps \<longrightarrow> matches m key hash (ps ! i)"
proof -
  have "\<exists>i. chain_search m key hash ps = Some i \<and> i \<le> length ps \<and> (\<forall>j < i. \<not> matches m key hash (ps ! j)) \<and>
      (i < length ps \<longrightarrow> matches m key hash (ps ! i))"
    using assms
  proof (induction ps)
    case (Cons p ps)
    then obtain e i where e: "m p = Some e" and i: "chain_search m key hash ps = Some i" "i \<le> length ps"
      "\<forall>j < i. \<not> matches m key hash (ps ! j)" "i < length ps \<longrightarrow> matches m key hash (ps ! i)" by auto
    show ?case
    proof (cases "lh_hash e \<noteq> hash \<or> key \<noteq> lh_key e")
      case True
      then have "\<not> matches m key hash p" using e by (auto simp: matches_def)
      then show ?thesis using True e i by (intro exI [of _ "Suc i"]) (auto simp: nth_Cons split: nat.splits)
    next
      case False
      then show ?thesis using e by (intro exI [of _ 0]) (auto simp: matches_def)
    qed
  qed simp
  then show ?thesis using that by blast
qed

text \<open>
  The slot that \<open>FindPointer\<close> returns: the chain is \<open>xs @ p # ys\<close> with the entry of the key, or \<open>xs\<close> if there is none.
\<close>

lemma in_table_iff: "p \<in> in_table t \<longleftrightarrow> (\<exists>b < length (ht_list t). p \<in> set (ht_list t ! b))"
  unfolding in_table_def set_concat by (auto simp: in_set_conv_nth [of _ "ht_list t"]) (use nth_mem in blast)

lemma FindPointer_cases:
  assumes ok: "table_ok m t"
  obtains (found) b p xs ys where "FindPointer m key hash t = Some (b, length xs)" "b < length (ht_list t)"
      "ht_list t ! b = xs @ p # ys" "matches m key hash p" "slot_entry t (b, length xs) = Some p" "p \<in> in_table t"
  | (missing) b where "FindPointer m key hash t = Some (b, length (ht_list t ! b))" "b = unat (hash AND (ht_length t - 1))"
      "b < length (ht_list t)" "slot_entry t (b, length (ht_list t ! b)) = None" "\<forall>p \<in> in_table t. \<not> matches m key hash p"
proof -
  define b where "b = unat (hash AND (ht_length t - 1))"
  have b: "b < length (ht_list t)" using ok bucket_less [of "ht_length t" hash] by (simp add: table_ok_def b_def)
  have "\<forall>p \<in> set (ht_list t ! b). m p \<noteq> None" using ok b unfolding table_ok_def buckets_ok_def by blast
  then obtain i where i: "chain_search m key hash (ht_list t ! b) = Some i" "i \<le> length (ht_list t ! b)"
    "\<forall>j < i. \<not> matches m key hash (ht_list t ! b ! j)" "i < length (ht_list t ! b) \<longrightarrow> matches m key hash (ht_list t ! b ! i)"
    by (rule chain_search_matches)
  have fp: "FindPointer m key hash t = Some (b, i)" using i(1) b by (simp add: FindPointer_def Let_def flip: b_def)
  show ?thesis
  proof (cases "i < length (ht_list t ! b)")
    case True
    have len: "length (take i (ht_list t ! b)) = i" using True by simp
    have "ht_list t ! b ! i \<in> in_table t" using b True nth_mem unfolding in_table_iff by blast
    then show ?thesis
      using fp b i(4) True by (intro found [OF _ b id_take_nth_drop [OF True]]) (simp_all add: len slot_entry_def)
  next
    case False
    then have len: "i = length (ht_list t ! b)" using i(2) by simp
    have "\<not> matches m key hash p" if mem: "p \<in> in_table t" for p
    proof
      assume p: "matches m key hash p"
      then obtain e where e: "m p = Some e" "lh_hash e = hash" by (auto simp: matches_def)
      obtain b' where b': "b' < length (ht_list t)" "p \<in> set (ht_list t ! b')" using mem in_table_iff by blast
      then obtain e' where "m p = Some e'" "unat (lh_hash e' AND (ht_length t - 1)) = b'" using ok unfolding table_ok_def buckets_ok_def by blast
      then have "b' = b" using e by (simp add: b_def)
      then show False using b'(2) p i(3) len by (metis in_set_conv_nth)
    qed
    then show ?thesis using missing [of b] fp b len by (simp add: b_def slot_entry_def)
  qed
qed

lemma HandleTable_Lookup_ok:
  assumes "table_ok m t"
  shows "(\<exists>p. HandleTable_Lookup m key hash t = Some (Some p) \<and> p \<in> in_table t \<and> matches m key hash p) \<or>
    HandleTable_Lookup m key hash t = Some None \<and> (\<forall>p \<in> in_table t. \<not> matches m key hash p)"
  using FindPointer_cases [OF assms, of key hash] by cases (auto simp: HandleTable_Lookup_def)

lemma concat_update: "b < length l \<Longrightarrow> mset (concat (l[b := c])) + mset (l ! b) = mset (concat l) + mset c"
  by (subst (2) id_take_nth_drop [of b l], assumption) (simp add: upd_conv_take_nth_drop)

lemma buckets_update:
  assumes "buckets_ok m n l" "\<And>p. b < length l \<Longrightarrow> p \<in> set c \<Longrightarrow> \<exists>e. m p = Some e \<and> unat (lh_hash e AND (n - 1)) = b"
  shows "buckets_ok m n (l[b := c])"
  unfolding buckets_ok_def
proof (intro allI impI ballI)
  fix i p assume i: "i < length (l[b := c])" "p \<in> set (l[b := c] ! i)"
  show "\<exists>e. m p = Some e \<and> unat (lh_hash e AND (n - 1)) = i"
    using assms(1) assms(2) [of p] i by (cases "i = b") (auto simp: buckets_ok_def)
qed

lemma mset_set_eq: "mset xs = add_mset p (mset ys) \<Longrightarrow> distinct xs \<Longrightarrow> distinct ys \<and> set ys = set xs - {p} \<and> p \<in> set xs"
proof -
  assume m: "mset xs = add_mset p (mset ys)" and d: "distinct xs"
  then have "mset xs = mset (p # ys)" by simp
  from mset_eq_imp_distinct_iff [OF this] mset_eq_setD [OF this] show ?thesis using d by auto
qed

lemma HandleTable_Remove_ok:
  assumes ok: "table_ok m t"
  shows "(\<exists>p t'. HandleTable_Remove m key hash t = Some (Some p, t') \<and> matches m key hash p \<and> p \<in> in_table t \<and>
      in_table t' = in_table t - {p} \<and> table_ok m t') \<or>
    HandleTable_Remove m key hash t = Some (None, t) \<and> (\<forall>p \<in> in_table t. \<not> matches m key hash p)"
  using ok
proof (cases rule: FindPointer_cases [where key = key and hash = hash])
  case (found b p xs ys)
  let ?t = "t\<lparr>ht_elems := ht_elems t - 1, ht_list := (ht_list t)[b := xs @ ys]\<rparr>"
  have rm: "HandleTable_Remove m key hash t = Some (Some p, ?t)" using found by (simp add: HandleTable_Remove_def)
  have ms: "mset (concat (ht_list t)) = add_mset p (mset (concat (ht_list ?t)))"
    using concat_update [OF found(2), of "xs @ ys"] found(3) by simp
  have d: "distinct (concat (ht_list ?t))" and it: "in_table ?t = in_table t - {p}"
    using mset_set_eq [OF ms] ok unfolding in_table_def table_ok_def by blast+
  have len: "length (concat (ht_list t)) = Suc (length (concat (ht_list ?t)))" using arg_cong [OF ms, of size] by simp
  have "unat (ht_elems t - 1) = unat (ht_elems t) - 1"
    using ok len by (subst unat_sub) (auto simp: table_ok_def word_le_nat_alt)
  moreover have "buckets_ok m (ht_length t) ((ht_list t)[b := xs @ ys])"
    using ok found(2,3) unfolding table_ok_def by (intro buckets_update) (auto simp: buckets_ok_def)
  moreover have "keys_distinct m (in_table ?t)" using ok unfolding it by (auto simp: table_ok_def keys_distinct_def)
  ultimately have "table_ok m ?t" using ok d len by (simp add: table_ok_def)
  then show ?thesis using rm it found(4,6) by blast
next
  case (missing b)
  then show ?thesis by (simp add: HandleTable_Remove_def)
qed

lemma resize_length_returns:
  assumes "unat elems \<le> 2 ^ 31" "k \<le> 31"
  shows "\<exists>n. resize_length (2 ^ k) elems = Some n \<and> 0 < unat n"
  using assms(2)
proof (induction "31 - k" arbitrary: k)
  case 0
  then have "\<not> (2 ^ k :: 32 word) < elems" using assms(1) by (simp add: word_less_nat_alt)
  then show ?case using 0 by (subst resize_length.simps) simp
next
  case (Suc d)
  have "(2 ^ k :: nat) < 2 ^ 32" using Suc by (intro power_strict_increasing) simp_all
  then have "unat (2 ^ k :: 32 word) = 2 ^ k" using unat_of_nat [where 'a = 32, of "2 ^ k"] by simp
  moreover have "\<exists>n. resize_length (2 ^ k * 2) elems = Some n \<and> 0 < unat n" using Suc(1) [of "Suc k"] Suc(2) by (simp add: mult.commute)
  ultimately show ?case by (subst resize_length.simps) simp
qed

lemma rehash_ok:
  assumes "\<forall>p \<in> set ps. m p \<noteq> None" "0 < unat n" "length l = unat n" "buckets_ok m n l"
  shows "\<exists>l'. rehash m n ps l = Some l' \<and> length l' = length l \<and> buckets_ok m n l' \<and> mset (concat l') = mset ps + mset (concat l)"
  using assms(1,3,4)
proof (induction ps arbitrary: l)
  case (Cons p ps)
  obtain e where e: "m p = Some e" using Cons(2) by auto
  let ?b = "unat (lh_hash e AND (n - 1))" and ?l = "l[unat (lh_hash e AND (n - 1)) := p # l ! unat (lh_hash e AND (n - 1))]"
  have b: "?b < length l" using bucket_less [OF assms(2)] Cons(3) by simp
  have "buckets_ok m n ?l" using Cons(4) e by (intro buckets_update) (auto simp: buckets_ok_def)
  then obtain l' where "rehash m n ps ?l = Some l'" "length l' = length l" "buckets_ok m n l'"
    "mset (concat l') = mset ps + mset (concat ?l)"
    using Cons.IH [of ?l] Cons(2,3) by auto
  moreover have "mset (concat ?l) = add_mset p (mset (concat l))" using concat_update [OF b, of "p # l ! ?b"] by simp
  ultimately show ?case using e b by simp
qed simp

lemma Resize_ok:
  assumes ok: "table_ok m t" and small: "unat (ht_elems t) \<le> 2 ^ 31"
  obtains t' where "Resize m t = Some t'" "table_ok m t'" "in_table t' = in_table t" "ht_elems t' = ht_elems t"
proof -
  obtain n where n: "resize_length 4 (ht_elems t) = Some n" "0 < unat n"
    using resize_length_returns [OF small, of 2] by auto
  have "\<forall>p \<in> set (concat (ht_list t)). m p \<noteq> None"
    using ok in_table_iff [of _ t] unfolding table_ok_def buckets_ok_def in_table_def by blast
  moreover have "buckets_ok m n (replicate (unat n) [])" by (simp add: buckets_ok_def)
  ultimately obtain l where l: "rehash m n (concat (ht_list t)) (replicate (unat n) []) = Some l" "length l = unat n" "buckets_ok m n l"
    "mset (concat l) = mset (concat (ht_list t))"
    using rehash_ok [of "concat (ht_list t)" m n "replicate (unat n) []"] n(2) by auto
  let ?t = "t\<lparr>ht_length := n, ht_list := l\<rparr>"
  have "Resize m t = Some ?t" using n(1) l(1) by (simp add: Resize_def)
  moreover have it: "in_table ?t = in_table t" using mset_eq_setD [OF l(4)] by (simp add: in_table_def)
  moreover have "table_ok m ?t"
    using ok it n(2) l(2,3) mset_eq_imp_distinct_iff [OF l(4)] mset_eq_length [OF l(4)] by (simp add: table_ok_def)
  ultimately show ?thesis using that by simp
qed

lemma HandleTable_Insert_ok:
  assumes ok: "table_ok m t" and h: "m h = Some e" "h \<notin> in_table t" and small: "unat (ht_elems t) < 2 ^ 31"
  shows "\<exists>t' old. HandleTable_Insert m h t = Some (old, t') \<and> table_ok m t' \<and>
    (case old of
       None \<Rightarrow> in_table t' = insert h (in_table t) \<and> (\<forall>p \<in> in_table t. \<not> matches m (lh_key e) (lh_hash e) p)
     | Some p \<Rightarrow> p \<in> in_table t \<and> matches m (lh_key e) (lh_hash e) p \<and> in_table t' = insert h (in_table t - {p}))"
  using ok
proof (cases rule: FindPointer_cases [where key = "lh_key e" and hash = "lh_hash e"])
  case (found b p xs ys)
  let ?t = "t\<lparr>ht_list := (ht_list t)[b := xs @ h # ys]\<rparr>"
  have ins: "HandleTable_Insert m h t = Some (Some p, ?t)" using found h(1) by (simp add: HandleTable_Insert_def)
  have ms: "mset (h # concat (ht_list t)) = add_mset p (mset (concat (ht_list ?t)))"
    using concat_update [OF found(2), of "xs @ h # ys"] found(3) by simp
  have "h \<noteq> p" using h(2) found(6) by blast
  then have d: "distinct (concat (ht_list ?t))" and it: "in_table ?t = insert h (in_table t - {p})"
    using mset_set_eq [OF ms] ok h(2) unfolding in_table_def table_ok_def by auto
  have len: "length (concat (ht_list t)) = length (concat (ht_list ?t))" using arg_cong [OF ms, of size] by simp
  have p: "unat (lh_hash e AND (ht_length t - 1)) = b"
    using ok found(2,3,4) by (auto simp: table_ok_def buckets_ok_def matches_def)
  then have "buckets_ok m (ht_length t) ((ht_list t)[b := xs @ h # ys])"
    using ok found(2,3) h(1) unfolding table_ok_def by (intro buckets_update) (auto simp: buckets_ok_def)
  moreover have "matches m k hs h \<Longrightarrow> matches m k hs p" for k hs using found(4) h(1) by (auto simp: matches_def)
  then have "keys_distinct m (in_table ?t)"
    using ok found(6) unfolding it table_ok_def keys_distinct_def by blast
  ultimately have "table_ok m ?t" using ok d len by (simp add: table_ok_def)
  then show ?thesis using ins it found(4,6) by auto
next
  case (missing b)
  let ?t = "t\<lparr>ht_list := (ht_list t)[b := ht_list t ! b @ [h]], ht_elems := ht_elems t + 1\<rparr>"
  have ins: "HandleTable_Insert m h t = (if ht_length t < ht_elems t + 1 then map_option (Pair None) (Resize m ?t) else Some (None, ?t))"
    using missing h(1) by (simp add: HandleTable_Insert_def)
  have ms: "mset (concat (ht_list ?t)) = add_mset h (mset (concat (ht_list t)))"
    using concat_update [OF missing(3), of "ht_list t ! b @ [h]"] by simp
  then have ms': "mset (concat (ht_list ?t)) = mset (h # concat (ht_list t))" by simp
  have d: "distinct (concat (ht_list ?t))" and it: "in_table ?t = insert h (in_table t)"
    using mset_eq_imp_distinct_iff [OF ms'] mset_eq_setD [OF ms'] ok h(2) unfolding in_table_def table_ok_def by auto
  have len: "length (concat (ht_list ?t)) = Suc (length (concat (ht_list t)))" using mset_eq_length [OF ms'] by simp
  have el: "unat (ht_elems t + 1) = Suc (unat (ht_elems t))" using small by (simp add: unat_word_ariths)
  have "buckets_ok m (ht_length t) ((ht_list t)[b := ht_list t ! b @ [h]])"
    using ok missing(2,3) h(1) unfolding table_ok_def by (intro buckets_update) (auto simp: buckets_ok_def)
  moreover have "matches m k hs h \<Longrightarrow> k = lh_key e \<and> hs = lh_hash e" for k hs using h(1) by (auto simp: matches_def)
  then have "keys_distinct m (in_table ?t)"
    using ok missing(5) unfolding it table_ok_def keys_distinct_def by blast
  ultimately have tok: "table_ok m ?t" using ok d len el by (simp add: table_ok_def)
  have "unat (ht_elems ?t) \<le> 2 ^ 31" using el small by simp
  then obtain t' where "Resize m ?t = Some t'" "table_ok m t'" "in_table t' = in_table ?t" by (rule Resize_ok [OF tok])
  then show ?thesis using ins tok it missing(5) by auto
qed

section \<open>What a shard keeps\<close>

text \<open>
  \<open>H p\<close> is the number of handles that the clients have on the entry at \<open>p\<close>, and \<open>S\<close> the set of the entries in the cache. An entry is in the
  store as long as one of the two refers to it, its counter counts both, and the two lists split the cache by whether a client uses the entry.
\<close>

definition refs_ok :: "(nat \<Rightarrow> nat) \<Rightarrow> nat set \<Rightarrow> 'v LRUCache \<Rightarrow> bool" where
  "refs_ok H S c \<longleftrightarrow>
     distinct (lc_lru c) \<and> distinct (lc_in_use c) \<and>
     set (lc_lru c) = {p \<in> S. H p = 0} \<and> set (lc_in_use c) = {p \<in> S. 0 < H p} \<and>
     (\<forall>p. lc_entries c p \<noteq> None \<longleftrightarrow> p \<in> S \<or> 0 < H p) \<and>
     (\<forall>p e. lc_entries c p = Some e \<longrightarrow>
        p < lc_fresh c \<and> (lh_in_cache e \<longleftrightarrow> p \<in> S) \<and> unat (lh_refs e) = H p + of_bool (p \<in> S)) \<and>
     lc_usage c = (\<Sum>p \<in> S. lh_charge (the (lc_entries c p)))"

definition cached :: "'v LRUCache \<Rightarrow> nat set" where
  "cached c = in_table (lc_table c)"

definition shard_ok :: "(nat \<Rightarrow> nat) \<Rightarrow> 'v LRUCache \<Rightarrow> bool" where
  "shard_ok H c \<longleftrightarrow> refs_ok H (cached c) c \<and> table_ok (lc_entries c) (lc_table c)"

text \<open>What never changes in an entry.\<close>

definition content :: "'v LRUCache \<Rightarrow> nat \<Rightarrow> (slice \<times> 32 word \<times> 'v \<times> 64 word) option" where
  "content c p = map_option (\<lambda>e. (lh_key e, lh_hash e, lh_value e, lh_charge e)) (lc_entries c p)"

definition keeps :: "'v LRUCache \<Rightarrow> 'v LRUCache \<Rightarrow> bool" where
  "keeps c c' \<longleftrightarrow> lc_capacity c' = lc_capacity c \<and> (\<forall>p. lc_entries c' p \<noteq> None \<longrightarrow> content c' p = content c p)"

lemma keeps_refl [simp]: "keeps c c"
  by (simp add: keeps_def)

lemma content_Some:
  "content c p = Some (k, hs, v, n) \<longleftrightarrow> (\<exists>e. lc_entries c p = Some e \<and> lh_key e = k \<and> lh_hash e = hs \<and> lh_value e = v \<and> lh_charge e = n)"
  by (auto simp: content_def)

lemma keepsD:
  assumes "keeps c c'" "lc_entries c' p = Some e'"
  obtains e where "lc_entries c p = Some e" "lh_key e' = lh_key e" "lh_hash e' = lh_hash e" "lh_value e' = lh_value e"
    "lh_charge e' = lh_charge e"
proof -
  have "content c' p = content c p" using assms by (simp add: keeps_def)
  then show ?thesis using that assms(2) by (cases "lc_entries c p") (simp_all add: content_def)
qed

lemma keeps_trans [trans]:
  assumes "keeps c c1" "keeps c1 c2"
  shows "keeps c c2"
proof -
  have "content c2 p = content c p" if p: "lc_entries c2 p \<noteq> None" for p
  proof -
    obtain e where "lc_entries c2 p = Some e" using p by blast
    then have "lc_entries c1 p \<noteq> None" using keepsD [OF assms(2)] by blast
    then show ?thesis using assms p by (simp add: keeps_def)
  qed
  then show ?thesis using assms by (simp add: keeps_def)
qed

lemma content_matches: "content c' p = content c p \<Longrightarrow> matches (lc_entries c') k hs p \<longleftrightarrow> matches (lc_entries c) k hs p"
  by (cases "lc_entries c p"; cases "lc_entries c' p") (auto simp: matches_def content_def)

lemma table_ok_content:
  assumes "table_ok (lc_entries c) t" "\<forall>p \<in> in_table t. content c' p = content c p"
  shows "table_ok (lc_entries c') t"
proof -
  have "\<exists>e. lc_entries c' p = Some e \<and> unat (lh_hash e AND (ht_length t - 1)) = b"
    if b: "b < length (ht_list t)" "p \<in> set (ht_list t ! b)" for b p
  proof -
    obtain e where e: "lc_entries c p = Some e" "unat (lh_hash e AND (ht_length t - 1)) = b"
      using assms(1) b unfolding table_ok_def buckets_ok_def by blast
    have "content c' p = content c p" using assms(2) b in_table_iff by blast
    then show ?thesis using e by (cases "lc_entries c' p") (auto simp: content_def)
  qed
  moreover have "keys_distinct (lc_entries c') (in_table t)"
    using assms content_matches unfolding table_ok_def keys_distinct_def by metis
  ultimately show ?thesis using assms(1) unfolding table_ok_def buckets_ok_def by blast
qed

lemma table_ok_keeps:
  "table_ok (lc_entries c) t \<Longrightarrow> keeps c c' \<Longrightarrow> \<forall>p \<in> in_table t. lc_entries c' p \<noteq> None \<Longrightarrow> table_ok (lc_entries c') t"
  by (rule table_ok_content) (auto simp: keeps_def)

lemma refs_ok_finite: "refs_ok H S c \<Longrightarrow> finite S"
proof -
  assume "refs_ok H S c"
  then have "S = set (lc_lru c) \<union> set (lc_in_use c)" by (auto simp: refs_ok_def)
  then show ?thesis by (metis List.finite_set finite_Un)
qed

lemma refs_ok_charges:
  assumes "refs_ok H S c" "keeps c c'" "\<forall>p \<in> S. lc_entries c' p \<noteq> None"
  shows "(\<Sum>p \<in> S. lh_charge (the (lc_entries c' p))) = lc_usage c"
proof -
  have "lh_charge (the (lc_entries c' p)) = lh_charge (the (lc_entries c p))" if "p \<in> S" for p
    using assms(3) that keepsD [OF assms(2), of p] by (metis option.exhaust_sel option.sel)
  then show ?thesis using assms(1) by (simp add: refs_ok_def)
qed

lemma refs_okD:
  assumes "refs_ok H S c"
  shows "distinct (lc_lru c)" "distinct (lc_in_use c)" "set (lc_lru c) = {p \<in> S. H p = 0}" "set (lc_in_use c) = {p \<in> S. 0 < H p}"
    "lc_entries c p \<noteq> None \<longleftrightarrow> p \<in> S \<or> 0 < H p"
    "lc_entries c p = Some e \<Longrightarrow> p < lc_fresh c" "lc_entries c p = Some e \<Longrightarrow> lh_in_cache e \<longleftrightarrow> p \<in> S"
    "lc_entries c p = Some e \<Longrightarrow> unat (lh_refs e) = H p + of_bool (p \<in> S)"
    "lc_usage c = (\<Sum>p \<in> S. lh_charge (the (lc_entries c p)))"
  using assms by (simp_all add: refs_ok_def)

text \<open>
  One entry's references change: the others keep theirs, so it is enough to look at the lists and at that entry.
\<close>

lemma refs_ok_change:
  assumes ok: "refs_ok H S c" and S': "S' - {p} = S - {p}" and H': "\<forall>q. q \<noteq> p \<longrightarrow> H' q = H q"
    and others: "\<forall>q. q \<noteq> p \<longrightarrow> lc_entries c' q = lc_entries c q" and fresh: "lc_fresh c \<le> lc_fresh c'"
    and lists: "distinct (lc_lru c')" "distinct (lc_in_use c')"
      "set (lc_lru c') = {q \<in> S'. H' q = 0}" "set (lc_in_use c') = {q \<in> S'. 0 < H' q}"
    and this_one: "lc_entries c' p \<noteq> None \<longleftrightarrow> p \<in> S' \<or> 0 < H' p"
      "\<And>e. lc_entries c' p = Some e \<Longrightarrow> p < lc_fresh c' \<and> (lh_in_cache e \<longleftrightarrow> p \<in> S') \<and> unat (lh_refs e) = H' p + of_bool (p \<in> S')"
    and usage: "lc_usage c' = (\<Sum>q \<in> S'. lh_charge (the (lc_entries c' q)))"
  shows "refs_ok H' S' c'"
proof -
  have mem: "q \<in> S' \<longleftrightarrow> q \<in> S" if "q \<noteq> p" for q using S' that by blast
  have "lc_entries c' q \<noteq> None \<longleftrightarrow> q \<in> S' \<or> 0 < H' q" for q
    using this_one(1) refs_okD(5) [OF ok, of q] others H' mem by (cases "q = p") auto
  moreover have "q < lc_fresh c' \<and> (lh_in_cache e \<longleftrightarrow> q \<in> S') \<and> unat (lh_refs e) = H' q + of_bool (q \<in> S')"
    if "lc_entries c' q = Some e" for q e
    using that this_one(2) refs_okD(6-8) [OF ok, of q e] others H' mem fresh by (cases "q = p") (auto intro: less_le_trans)
  ultimately show ?thesis using lists usage by (simp add: refs_ok_def)
qed

lemma Ref_ok:
  assumes ok: "refs_ok H S c" and p: "p \<in> S" and room: "H p + 2 < 2 ^ 32"
  obtains c' where "Ref p c = Some c'" "refs_ok (H(p := Suc (H p))) S c'" "keeps c c'" "lc_table c' = lc_table c"
    "lc_fresh c' = lc_fresh c"
proof -
  obtain e where e: "lc_entries c p = Some e" using refs_okD(5) [OF ok, of p] p by auto
  note D = refs_okD [OF ok]
  have r: "unat (lh_refs e) = Suc (H p)" "lh_in_cache e" using D(7,8) [OF e] p by simp_all
  then have one: "lh_refs e = 1 \<longleftrightarrow> H p = 0" by (simp add: word_unat_eq_iff)
  have r1: "unat (lh_refs e + 1) = Suc (Suc (H p))" using r(1) room by (simp add: unat_word_ariths)
  define c' where "c' = (if H p = 0 then LRU_Append In_use p (LRU_Remove p c) else c)
    \<lparr>lc_entries := (lc_entries c)(p \<mapsto> e\<lparr>lh_refs := lh_refs e + 1\<rparr>)\<rparr>"
  have ref: "Ref p c = Some c'" using e one r(2) by (simp add: Ref_def c'_def)
  have fields: "lc_table c' = lc_table c" "lc_fresh c' = lc_fresh c" "lc_usage c' = lc_usage c" "lc_capacity c' = lc_capacity c"
    "lc_entries c' = (lc_entries c)(p \<mapsto> e\<lparr>lh_refs := lh_refs e + 1\<rparr>)"
    "lc_lru c' = (if H p = 0 then remove1 p (lc_lru c) else lc_lru c)"
    "lc_in_use c' = (if H p = 0 then remove1 p (lc_in_use c) @ [p] else lc_in_use c)"
    by (simp_all add: c'_def LRU_Remove_def)
  have k: "keeps c c'" using e by (simp add: keeps_def content_def fields)
  have "refs_ok (H(p := Suc (H p))) S c'"
  proof (rule refs_ok_change [OF ok, where p = p])
    show "distinct (lc_lru c')" "distinct (lc_in_use c')" using D(1,2) by (simp_all add: fields)
    show "set (lc_lru c') = {q \<in> S. (H(p := Suc (H p))) q = 0}" "set (lc_in_use c') = {q \<in> S. 0 < (H(p := Suc (H p))) q}"
      using D(1-4) p by (auto simp: fields)
    show "lc_usage c' = (\<Sum>q \<in> S. lh_charge (the (lc_entries c' q)))"
      using refs_ok_charges [OF ok k] D(5) by (simp add: fields)
  qed (use e p r r1 D(6) in \<open>auto simp: fields\<close>)
  then show ?thesis using that ref k fields(1,2) by blast
qed

lemma Unref_ok:
  assumes ok: "refs_ok H S c" and p: "0 < H p"
  obtains c' where "Unref p c = Some c'" "refs_ok (H(p := H p - 1)) S c'" "keeps c c'" "lc_table c' = lc_table c"
    "lc_fresh c' = lc_fresh c"
proof -
  obtain e where e: "lc_entries c p = Some e" using refs_okD(5) [OF ok, of p] p by auto
  note D = refs_okD [OF ok]
  have r: "unat (lh_refs e) = H p + of_bool (p \<in> S)" "lh_in_cache e \<longleftrightarrow> p \<in> S" using D(7,8) [OF e] by simp_all
  have r1: "unat (lh_refs e - 1) = H p - 1 + of_bool (p \<in> S)" using r(1) p by (subst unat_sub) (auto simp: word_le_nat_alt)
  have zero: "lh_refs e - 1 = 0 \<longleftrightarrow> H p = 1 \<and> p \<notin> S" using r1 p by (auto simp: word_unat_eq_iff)
  have one: "lh_in_cache e \<and> lh_refs e - 1 = 1 \<longleftrightarrow> H p = 1 \<and> p \<in> S" using r1 r(2) p by (auto simp: word_unat_eq_iff)
  define c' where "c' =
    (if H p = 1 \<and> p \<notin> S then c\<lparr>lc_deleted := lc_deleted c @ [(lh_key e, lh_value e)], lc_entries := (lc_entries c)(p := None)\<rparr>
     else (if H p = 1 \<and> p \<in> S then LRU_Append Lru p (LRU_Remove p c) else c)
       \<lparr>lc_entries := (lc_entries c)(p \<mapsto> e\<lparr>lh_refs := lh_refs e - 1\<rparr>)\<rparr>)"
  have unref: "Unref p c = Some c'" unfolding Unref_def e Option.bind.simps Let_def zero one c'_def
    by (cases c) (simp add: LRU_Remove_def)
  have fields: "lc_table c' = lc_table c" "lc_fresh c' = lc_fresh c" "lc_usage c' = lc_usage c" "lc_capacity c' = lc_capacity c"
    "lc_entries c' = (lc_entries c)(p := if H p = 1 \<and> p \<notin> S then None else Some (e\<lparr>lh_refs := lh_refs e - 1\<rparr>))"
    "lc_lru c' = (if H p = 1 \<and> p \<in> S then remove1 p (lc_lru c) @ [p] else lc_lru c)"
    "lc_in_use c' = (if H p = 1 \<and> p \<in> S then remove1 p (lc_in_use c) else lc_in_use c)"
    by (simp_all add: c'_def LRU_Remove_def)
  have k: "keeps c c'" using e by (simp add: keeps_def content_def fields)
  have "refs_ok (H(p := H p - 1)) S c'"
  proof (rule refs_ok_change [OF ok, where p = p])
    show "distinct (lc_lru c')" "distinct (lc_in_use c')" using D(1,2) by (simp_all add: fields)
    show "set (lc_lru c') = {q \<in> S. (H(p := H p - 1)) q = 0}" "set (lc_in_use c') = {q \<in> S. 0 < (H(p := H p - 1)) q}"
      using D(1-4) p by (auto simp: fields)
    show "lc_usage c' = (\<Sum>q \<in> S. lh_charge (the (lc_entries c' q)))"
    proof -
      have "\<forall>q \<in> S. lc_entries c' q \<noteq> None" using D(5) by (auto simp: fields)
      from refs_ok_charges [OF ok k this] show ?thesis using fields(3) by simp
    qed
  qed (use e p r r1 D(6) in \<open>auto simp: fields split: if_splits\<close>)
  then show ?thesis using that unref k fields(1,2) by blast
qed

lemma FinishErase_ok:
  assumes ok: "refs_ok H S c" and p: "p \<in> S"
  obtains c' where "FinishErase (Some p) c = Some c'" "refs_ok H (S - {p}) c'" "keeps c c'" "lc_table c' = lc_table c"
    "lc_lru c' = remove1 p (lc_lru c)"
proof -
  obtain e where e: "lc_entries c p = Some e" using refs_okD(5) [OF ok, of p] p by auto
  note D = refs_okD [OF ok]
  have r: "unat (lh_refs e) = Suc (H p)" using D(8) [OF e] p by simp
  have r1: "unat (lh_refs e - 1) = H p" using r by (subst unat_sub) (auto simp: word_le_nat_alt)
  have zero: "lh_refs e - 1 = 0 \<longleftrightarrow> H p = 0" using r1 by (auto simp: word_unat_eq_iff)
  define c1 where "c1 = (LRU_Remove p c)\<lparr>lc_usage := lc_usage c - lh_charge e\<rparr>"
  define c' where "c' =
    (if H p = 0 then c1\<lparr>lc_deleted := lc_deleted c @ [(lh_key e, lh_value e)], lc_entries := (lc_entries c)(p := None)\<rparr>
     else c1\<lparr>lc_entries := (lc_entries c)(p \<mapsto> e\<lparr>lh_in_cache := False, lh_refs := lh_refs e - 1\<rparr>)\<rparr>)"
  have erase: "FinishErase (Some p) c = Some c'"
    unfolding FinishErase.simps Unref_def e Option.bind.simps Let_def c'_def c1_def zero [symmetric]
    by (cases c) (simp add: LRU_Remove_def)
  have fields: "lc_table c' = lc_table c" "lc_fresh c' = lc_fresh c" "lc_usage c' = lc_usage c - lh_charge e" "lc_capacity c' = lc_capacity c"
    "lc_entries c' = (lc_entries c)(p := if H p = 0 then None else Some (e\<lparr>lh_in_cache := False, lh_refs := lh_refs e - 1\<rparr>))"
    "lc_lru c' = remove1 p (lc_lru c)" "lc_in_use c' = remove1 p (lc_in_use c)"
    by (simp_all add: c'_def c1_def LRU_Remove_def)
  have k: "keeps c c'" using e by (simp add: keeps_def content_def fields)
  have "refs_ok H (S - {p}) c'"
  proof (rule refs_ok_change [OF ok, where p = p])
    show "distinct (lc_lru c')" "distinct (lc_in_use c')" using D(1,2) by (simp_all add: fields)
    show "set (lc_lru c') = {q \<in> S - {p}. H q = 0}" "set (lc_in_use c') = {q \<in> S - {p}. 0 < H q}"
      using D(1-4) by (auto simp: fields)
    have "(\<Sum>q \<in> S - {p}. lh_charge (the (lc_entries c' q))) = (\<Sum>q \<in> S - {p}. lh_charge (the (lc_entries c q)))"
      by (rule sum.cong) (auto simp: fields)
    moreover have "lc_usage c = lh_charge e + (\<Sum>q \<in> S - {p}. lh_charge (the (lc_entries c q)))"
      using sum.remove [OF refs_ok_finite [OF ok] p, of "\<lambda>q. lh_charge (the (lc_entries c q))"] D(9) e by simp
    ultimately show "lc_usage c' = (\<Sum>q \<in> S - {p}. lh_charge (the (lc_entries c' q)))" by (simp add: fields)
  qed (use e p r1 D(6) in \<open>auto simp: fields split: if_splits\<close>)
  then show ?thesis using that erase k fields(1,6) by blast
qed

lemma Erase_ok:
  assumes ok: "shard_ok H c"
  obtains c' where "LRUCache_Erase key hash c = Some c'" "shard_ok H c'" "keeps c c'"
    "cached c' = cached c - {p. matches (lc_entries c) key hash p}"
    "lc_lru c' = filter (\<lambda>p. \<not> matches (lc_entries c) key hash p) (lc_lru c)"
proof -
  have r: "refs_ok H (cached c) c" and t: "table_ok (lc_entries c) (lc_table c)" using ok by (simp_all add: shard_ok_def)
  have lru: "set (lc_lru c) \<subseteq> cached c" "distinct (lc_lru c)" using refs_okD(1,3) [OF r] by auto
  show ?thesis
    using HandleTable_Remove_ok [OF t, of key hash]
  proof (elim disjE exE conjE)
    fix p t' assume rm: "HandleTable_Remove (lc_entries c) key hash (lc_table c) = Some (Some p, t')"
      "matches (lc_entries c) key hash p" "p \<in> in_table (lc_table c)" "in_table t' = in_table (lc_table c) - {p}" "table_ok (lc_entries c) t'"
    let ?c = "c\<lparr>lc_table := t'\<rparr>"
    have "refs_ok H (cached c) ?c" using r by (simp add: refs_ok_def)
    then obtain c' where c': "FinishErase (Some p) ?c = Some c'" "refs_ok H (cached c - {p}) c'" "keeps ?c c'" "lc_table c' = t'"
      "lc_lru c' = remove1 p (lc_lru c)" using FinishErase_ok [of H "cached c" ?c p] rm(3) by (auto simp: cached_def)
    have k: "keeps c c'" using c'(3) by (simp add: keeps_def content_def)
    have only: "matches (lc_entries c) key hash q \<longleftrightarrow> q = p" if "q \<in> cached c" for q
      using t rm(2,3) that unfolding table_ok_def keys_distinct_def cached_def by blast
    have ca: "cached c' = cached c - {p}" using rm(4) c'(4) by (simp add: cached_def)
    then have "table_ok (lc_entries c') t'"
      using table_ok_keeps [OF rm(5) k] refs_okD(5) [OF c'(2)] c'(4) by (simp add: cached_def)
    then have "shard_ok H c'" using c'(2,4) ca by (simp add: shard_ok_def)
    moreover have "remove1 p (lc_lru c) = filter (\<lambda>q. \<not> matches (lc_entries c) key hash q) (lc_lru c)"
      using lru only by (simp add: distinct_remove1_removeAll removeAll_filter_not_eq) (rule filter_cong; auto)
    ultimately show ?thesis using that [of c'] c'(1,5) k ca only rm(1) by (auto simp: LRUCache_Erase_def)
  next
    assume none: "HandleTable_Remove (lc_entries c) key hash (lc_table c) = Some (None, lc_table c)"
      "\<forall>p \<in> in_table (lc_table c). \<not> matches (lc_entries c) key hash p"
    then have "filter (\<lambda>p. \<not> matches (lc_entries c) key hash p) (lc_lru c) = lc_lru c"
      using lru(1) by (intro filter_True) (auto simp: cached_def)
    then show ?thesis using that [of c] none ok by (auto simp: LRUCache_Erase_def cached_def)
  qed
qed

lemma erase_oldest_ok:
  assumes ok: "shard_ok H c" and lru: "lc_lru c = p # ps"
  obtains c' where "erase_oldest c = Some c'" "shard_ok H c'" "keeps c c'" "cached c' = cached c - {p}" "lc_lru c' = ps" "H p = 0"
proof -
  have r: "refs_ok H (cached c) c" and t: "table_ok (lc_entries c) (lc_table c)" using ok by (simp_all add: shard_ok_def)
  have p: "p \<in> cached c" "H p = 0" and d: "p \<notin> set ps" "set ps \<subseteq> cached c" using refs_okD(1,3) [OF r] lru by auto
  obtain e where e: "lc_entries c p = Some e" using refs_okD(5) [OF r, of p] p by auto
  then have m: "matches (lc_entries c) (lh_key e) (lh_hash e) p" by (simp add: matches_def)
  then have only: "matches (lc_entries c) (lh_key e) (lh_hash e) q \<longleftrightarrow> q = p" if "q \<in> cached c" for q
    using t p(1) that unfolding table_ok_def keys_distinct_def cached_def by blast
  obtain c' where c': "LRUCache_Erase (lh_key e) (lh_hash e) c = Some c'" "shard_ok H c'" "keeps c c'"
    "cached c' = cached c - {q. matches (lc_entries c) (lh_key e) (lh_hash e) q}"
    "lc_lru c' = filter (\<lambda>q. \<not> matches (lc_entries c) (lh_key e) (lh_hash e) q) (lc_lru c)"
    by (rule Erase_ok [OF ok])
  have "filter (\<lambda>q. \<not> matches (lc_entries c) (lh_key e) (lh_hash e) q) ps = ps" using d only by (intro filter_True) auto
  then have "lc_lru c' = ps" using c'(5) lru m by simp
  moreover have "cached c' = cached c - {p}" using c'(4) only by auto
  moreover have "erase_oldest c = Some c'" using e c'(1) lru by (simp add: erase_oldest_def)
  ultimately show ?thesis using that c'(2,3) p(2) by blast
qed

lemma evict_ok:
  assumes "shard_ok H c"
  shows "\<exists>c'. evict c = Some c' \<and> shard_ok H c' \<and> keeps c c' \<and> cached c' \<subseteq> cached c \<and>
    {p \<in> cached c. 0 < H p} \<subseteq> cached c' \<and> (lc_usage c' \<le> lc_capacity c \<or> lc_lru c' = [])"
  using assms
proof (induction "length (lc_lru c)" arbitrary: c rule: less_induct)
  case less
  show ?case
  proof (cases "lc_capacity c < lc_usage c \<and> lc_lru c \<noteq> []")
    case True
    obtain p ps where lru: "lc_lru c = p # ps" using True by (cases "lc_lru c") auto
    obtain c1 where c1: "erase_oldest c = Some c1" "shard_ok H c1" "keeps c c1" "cached c1 = cached c - {p}" "lc_lru c1 = ps" "H p = 0"
      by (rule erase_oldest_ok [OF less(2) lru])
    have "length (lc_lru c1) < length (lc_lru c)" using lru c1(5) by simp
    from less(1) [OF this c1(2)] obtain c' where c': "evict c1 = Some c'" "shard_ok H c'" "keeps c1 c'" "cached c' \<subseteq> cached c1"
      "{p \<in> cached c1. 0 < H p} \<subseteq> cached c'" "lc_usage c' \<le> lc_capacity c1 \<or> lc_lru c' = []" by blast
    have "evict c = Some c'" using c1(1) c'(1) True by (subst evict.simps) simp
    moreover have "keeps c c'" using keeps_trans [OF c1(3) c'(3)] .
    moreover have "lc_capacity c1 = lc_capacity c" using c1(3) by (simp add: keeps_def)
    ultimately show ?thesis using c'(2,4,5,6) c1(4,6) by (intro exI [of _ c']) auto
  next
    case False
    then show ?thesis using less(2) by (subst evict.simps) auto
  qed
qed

lemma Prune_ok:
  assumes "shard_ok H c"
  shows "\<exists>c'. LRUCache_Prune c = Some c' \<and> shard_ok H c' \<and> keeps c c' \<and> cached c' = {p \<in> cached c. 0 < H p} \<and> lc_lru c' = []"
  using assms
proof (induction "lc_lru c" arbitrary: c)
  case Nil
  then have "{p \<in> cached c. H p = 0} = {}" using refs_okD(3) [of H "cached c" c] by (simp add: shard_ok_def)
  then have "cached c = {p \<in> cached c. 0 < H p}" using Nil(1) by auto
  then show ?case using Nil by (subst LRUCache_Prune.simps) auto
next
  case (Cons p ps)
  obtain c1 where c1: "erase_oldest c = Some c1" "shard_ok H c1" "keeps c c1" "cached c1 = cached c - {p}" "lc_lru c1 = ps" "H p = 0"
    by (rule erase_oldest_ok [OF Cons(3) Cons(2) [symmetric]])
  obtain c' where c': "LRUCache_Prune c1 = Some c'" "shard_ok H c'" "keeps c1 c'" "cached c' = {p \<in> cached c1. 0 < H p}" "lc_lru c' = []"
    using Cons(1) [OF c1(5) [symmetric] c1(2)] by blast
  have "LRUCache_Prune c = Some c'" using c1(1) c'(1) Cons(2) by (subst LRUCache_Prune.simps) auto
  moreover have "cached c' = {p \<in> cached c. 0 < H p}" unfolding c'(4) c1(4) using c1(6) by auto
  ultimately show ?case using c'(2,5) keeps_trans [OF c1(3) c'(3)] by blast
qed

lemma Lookup_ok:
  assumes ok: "shard_ok H c" and room: "\<forall>p. H p + 2 < 2 ^ 32"
  shows "(\<exists>p c'. LRUCache_Lookup key hash c = Some (Some p, c') \<and> p \<in> cached c \<and> matches (lc_entries c) key hash p \<and>
      shard_ok (H(p := Suc (H p))) c' \<and> keeps c c' \<and> cached c' = cached c) \<or>
    LRUCache_Lookup key hash c = Some (None, c) \<and> (\<forall>p \<in> cached c. \<not> matches (lc_entries c) key hash p)"
proof -
  have r: "refs_ok H (cached c) c" and t: "table_ok (lc_entries c) (lc_table c)" using ok by (simp_all add: shard_ok_def)
  show ?thesis
    using HandleTable_Lookup_ok [OF t, of key hash]
  proof (elim disjE exE conjE)
    fix p assume p: "HandleTable_Lookup (lc_entries c) key hash (lc_table c) = Some (Some p)" "p \<in> in_table (lc_table c)"
      "matches (lc_entries c) key hash p"
    have pc: "p \<in> cached c" using p(2) by (simp add: cached_def)
    obtain c' where c': "Ref p c = Some c'" "refs_ok (H(p := Suc (H p))) (cached c) c'" "keeps c c'" "lc_table c' = lc_table c"
      by (rule Ref_ok [OF r pc]) (use room in auto)
    have ca: "cached c' = cached c" using c'(4) by (simp add: cached_def)
    have "table_ok (lc_entries c') (lc_table c)"
      using table_ok_keeps [OF t c'(3)] refs_okD(5) [OF c'(2)] by (simp add: cached_def)
    then have "shard_ok (H(p := Suc (H p))) c'" using c'(2,4) ca by (simp add: shard_ok_def)
    then show ?thesis using p pc c'(1,3) ca by (simp add: LRUCache_Lookup_def)
  qed (simp add: LRUCache_Lookup_def cached_def)
qed

lemma Release_ok:
  assumes ok: "shard_ok H c" and p: "0 < H p"
  obtains c' where "LRUCache_Release p c = Some c'" "shard_ok (H(p := H p - 1)) c'" "keeps c c'" "cached c' = cached c"
proof -
  have r: "refs_ok H (cached c) c" and t: "table_ok (lc_entries c) (lc_table c)" using ok by (simp_all add: shard_ok_def)
  obtain c' where c': "Unref p c = Some c'" "refs_ok (H(p := H p - 1)) (cached c) c'" "keeps c c'" "lc_table c' = lc_table c"
    by (rule Unref_ok [OF r p])
  have ca: "cached c' = cached c" using c'(4) by (simp add: cached_def)
  have "table_ok (lc_entries c') (lc_table c)"
    using table_ok_keeps [OF t c'(3)] refs_okD(5) [OF c'(2)] by (simp add: cached_def)
  then have "shard_ok (H(p := H p - 1)) c'" using c'(2,4) ca by (simp add: shard_ok_def)
  then show ?thesis using that c'(1,3) ca by (simp add: LRUCache_Release_def)
qed

definition new_entry :: "slice \<Rightarrow> 32 word \<Rightarrow> 'v \<Rightarrow> 64 word \<Rightarrow> bool \<Rightarrow> 'v LRUHandle" where
  "new_entry key hash v charge caching =
     \<lparr>lh_value = v, lh_charge = charge, lh_key = key, lh_in_cache = caching, lh_refs = (if caching then 2 else 1), lh_hash = hash\<rparr>"

lemma alloc_ok:
  assumes ok: "refs_ok H S c"
    and c1: "c1 = (if caching then LRU_Append In_use (lc_fresh c) (c\<lparr>lc_usage := lc_usage c + charge\<rparr>) else c)
      \<lparr>lc_fresh := Suc (lc_fresh c), lc_entries := (lc_entries c)(lc_fresh c \<mapsto> new_entry key hash v charge caching)\<rparr>"
  shows "refs_ok (H(lc_fresh c := 1)) (if caching then insert (lc_fresh c) S else S) c1" "lc_fresh c \<notin> S" "H (lc_fresh c) = 0"
proof -
  let ?p = "lc_fresh c"
  note D = refs_okD [OF ok]
  have none: "lc_entries c ?p = None" using D(6) [of ?p] by fastforce
  then show p: "?p \<notin> S" "H ?p = 0" using D(5) [of ?p] by simp_all
  have same: "(\<Sum>q \<in> S. lh_charge (the (lc_entries c1 q))) = lc_usage c"
    unfolding D(9) by (rule sum.cong) (use p c1 in auto)
  show "refs_ok (H(?p := 1)) (if caching then insert ?p S else S) c1"
  proof (rule refs_ok_change [OF ok, where p = ?p])
    show "distinct (lc_lru c1)" "distinct (lc_in_use c1)" using D(1,2,4) p by (simp_all add: c1)
    show "set (lc_lru c1) = {q \<in> if caching then insert ?p S else S. (H(?p := 1)) q = 0}"
      "set (lc_in_use c1) = {q \<in> if caching then insert ?p S else S. 0 < (H(?p := 1)) q}"
      using D(3,4) p by (auto simp: c1)
    show "lc_usage c1 = (\<Sum>q \<in> (if caching then insert ?p S else S). lh_charge (the (lc_entries c1 q)))"
      using same p refs_ok_finite [OF ok] by (cases caching) (simp_all add: c1 new_entry_def)
  qed (auto simp: c1 new_entry_def p)
qed

lemma Insert_ok:
  assumes ok: "shard_ok H c" and room: "unat (ht_elems (lc_table c)) < 2 ^ 31"
  obtains c' where "LRUCache_Insert key hash v charge c = Some (lc_fresh c, c')" "shard_ok (H(lc_fresh c := 1)) c'"
    "content c' (lc_fresh c) = Some (key, hash, v, charge)"
    "\<forall>q. q \<noteq> lc_fresh c \<longrightarrow> lc_entries c' q \<noteq> None \<longrightarrow> content c' q = content c q"
    "cached c' \<subseteq> insert (lc_fresh c) (cached c)" "0 < lc_capacity c \<longrightarrow> lc_fresh c \<in> cached c'"
    "lc_capacity c' = lc_capacity c" "lc_usage c' \<le> lc_capacity c \<or> lc_lru c' = []"
    "\<forall>q \<in> cached c. 0 < H q \<and> \<not> matches (lc_entries c) key hash q \<longrightarrow> q \<in> cached c'" "H (lc_fresh c) = 0"
proof -
  have r: "refs_ok H (cached c) c" and t: "table_ok (lc_entries c) (lc_table c)" using ok by (simp_all add: shard_ok_def)
  let ?p = "lc_fresh c" and ?H = "H(lc_fresh c := 1)" and ?caching = "0 < lc_capacity c"
  let ?e = "new_entry key hash v charge ?caching"
  define c1 where "c1 = (if ?caching then LRU_Append In_use ?p (c\<lparr>lc_usage := lc_usage c + charge\<rparr>) else c)
      \<lparr>lc_fresh := Suc ?p, lc_entries := (lc_entries c)(?p \<mapsto> ?e)\<rparr>"
  note alloc = alloc_ok [OF r c1_def]
  have f1: "lc_table c1 = lc_table c" "lc_entries c1 = (lc_entries c)(?p \<mapsto> ?e)" "lc_capacity c1 = lc_capacity c"
    by (simp_all add: c1_def)
  have cont1: "content c1 q = (if q = ?p then Some (key, hash, v, charge) else content c q)" for q
    by (simp add: content_def f1 new_entry_def)
  have t1: "table_ok (lc_entries c1) (lc_table c)"
    by (rule table_ok_content [OF t]) (use alloc(2) cont1 in \<open>auto simp: cached_def\<close>)
  have "\<exists>c2. (if ?caching
        then do { (old, t') \<leftarrow> HandleTable_Insert (lc_entries c1) ?p (lc_table c1); FinishErase old (c1\<lparr>lc_table := t'\<rparr>) }
        else Some c1) = Some c2 \<and> shard_ok ?H c2 \<and> keeps c1 c2 \<and> cached c2 \<subseteq> insert ?p (cached c) \<and> (?caching \<longrightarrow> ?p \<in> cached c2) \<and>
      (\<forall>q \<in> cached c. \<not> matches (lc_entries c) key hash q \<longrightarrow> q \<in> cached c2)"
  proof (cases ?caching)
    case False
    have "cached c1 = cached c" by (simp add: cached_def f1)
    then have "shard_ok ?H c1" using alloc(1) t1 False by (simp add: shard_ok_def f1)
    then show ?thesis using False \<open>cached c1 = cached c\<close> by auto
  next
    case True
    have e1: "lc_entries c1 ?p = Some ?e" and new: "?p \<notin> in_table (lc_table c)" using alloc(2) by (simp_all add: f1 cached_def)
    have ke: "lh_key ?e = key" "lh_hash ?e = hash" by (simp_all add: new_entry_def)
    obtain t' old where ins: "HandleTable_Insert (lc_entries c1) ?p (lc_table c) = Some (old, t')" "table_ok (lc_entries c1) t'"
      "case old of None \<Rightarrow> in_table t' = insert ?p (in_table (lc_table c)) \<and> (\<forall>q \<in> in_table (lc_table c). \<not> matches (lc_entries c1) key hash q)
       | Some q \<Rightarrow> q \<in> in_table (lc_table c) \<and> matches (lc_entries c1) key hash q \<and> in_table t' = insert ?p (in_table (lc_table c) - {q})"
      using HandleTable_Insert_ok [OF t1 e1 new room] unfolding ke by blast
    let ?c = "c1\<lparr>lc_table := t'\<rparr>"
    have rc: "refs_ok ?H (insert ?p (cached c)) ?c" using alloc(1) True by (simp add: refs_ok_def)
    show ?thesis
    proof (cases old)
      case None
      have "cached ?c = insert ?p (cached c)" using ins(3) None by (simp add: cached_def)
      moreover have "shard_ok ?H ?c" using rc ins(2) calculation by (simp add: shard_ok_def)
      moreover have "keeps c1 ?c" by (simp add: keeps_def content_def)
      ultimately show ?thesis using True ins(1) None by (intro exI [of _ ?c]) (auto simp: f1(1))
    next
      case (Some q)
      have q: "q \<in> cached c" "matches (lc_entries c1) key hash q" "in_table t' = insert ?p (cached c - {q})" using ins(3) Some by (simp_all add: cached_def)
      have qp: "q \<noteq> ?p" using q(1) alloc(2) by blast
      obtain c2 where c2: "FinishErase (Some q) ?c = Some c2" "refs_ok ?H (insert ?p (cached c) - {q}) c2" "keeps ?c c2" "lc_table c2 = t'"
        using FinishErase_ok [OF rc, of q] q(1) by auto
      have k: "keeps c1 c2" using c2(3) by (simp add: keeps_def content_def)
      have ca: "cached c2 = insert ?p (cached c) - {q}" using c2(4) q(3) qp by (auto simp: cached_def)
      have "table_ok (lc_entries c2) t'"
        using table_ok_keeps [OF ins(2) k] refs_okD(5) [OF c2(2)] ca c2(4) by (simp add: cached_def)
      then have "shard_ok ?H c2" using c2(2,4) ca by (simp add: shard_ok_def)
      moreover have "matches (lc_entries c) key hash q" using q(2) content_matches [of c1 q c] cont1 qp by simp
      ultimately show ?thesis using True ins(1) Some c2(1) k ca qp by (intro exI [of _ c2]) (auto simp: f1(1))
    qed
  qed
  then obtain c2 where c2: "(if ?caching
        then do { (old, t') \<leftarrow> HandleTable_Insert (lc_entries c1) ?p (lc_table c1); FinishErase old (c1\<lparr>lc_table := t'\<rparr>) }
        else Some c1) = Some c2" "shard_ok ?H c2" "keeps c1 c2" "cached c2 \<subseteq> insert ?p (cached c)" "?caching \<longrightarrow> ?p \<in> cached c2"
      "\<forall>q \<in> cached c. \<not> matches (lc_entries c) key hash q \<longrightarrow> q \<in> cached c2" by blast
  obtain c' where c': "evict c2 = Some c'" "shard_ok ?H c'" "keeps c2 c'" "cached c' \<subseteq> cached c2"
    "{p \<in> cached c2. 0 < ?H p} \<subseteq> cached c'" "lc_usage c' \<le> lc_capacity c2 \<or> lc_lru c' = []"
    using evict_ok [OF c2(2)] by blast
  have k: "keeps c1 c'" by (rule keeps_trans [OF c2(3) c'(3)])
  have ins: "LRUCache_Insert key hash v charge c = Some (?p, c')"
  proof -
    have "LRUCache_Insert key hash v charge c =
      do {
        c2 \<leftarrow> (if ?caching
          then do { (old, t') \<leftarrow> HandleTable_Insert (lc_entries c1) ?p (lc_table c1); FinishErase old (c1\<lparr>lc_table := t'\<rparr>) }
          else Some c1);
        c3 \<leftarrow> evict c2;
        Some (?p, c3)
      }"
      unfolding c1_def LRUCache_Insert_def Let_def new_entry_def by (cases c) simp
    then show ?thesis unfolding c2(1) using c'(1) by simp
  qed
  have present: "lc_entries c' ?p \<noteq> None" using c'(2) refs_okD(5) [of ?H "cached c'" c' ?p] by (simp add: shard_ok_def)
  show ?thesis
  proof (rule that [of c'])
    show "cached c' \<subseteq> insert ?p (cached c)" using c'(4) c2(4) by blast
    show "?caching \<longrightarrow> ?p \<in> cached c'" using c'(5) c2(5) by auto
    show "\<forall>q \<in> cached c. 0 < H q \<and> \<not> matches (lc_entries c) key hash q \<longrightarrow> q \<in> cached c'" using c'(5) c2(6) by (auto simp: subset_iff)
  qed (use ins present c'(2,6) k cont1 alloc(3) f1(3) c2(3) in \<open>auto simp: keeps_def\<close>)
qed

section \<open>What the sharded cache keeps\<close>

text \<open>The clients' handles are a multiset of shards and addresses; every entry is in the shard of its key's hash.\<close>

definition placed :: "nat \<Rightarrow> 'v LRUCache \<Rightarrow> bool" where
  "placed s c \<longleftrightarrow> (\<forall>p e. lc_entries c p = Some e \<longrightarrow> lh_hash e = HashSlice (lh_key e) \<and> Shard (lh_hash e) = s)"

definition cache_ok :: "'v ShardedLRUCache \<Rightarrow> handle multiset \<Rightarrow> bool" where
  "cache_ok sc M \<longleftrightarrow>
     length (sc_shard sc) = kNumShards \<and> (\<forall>h \<in># M. fst h < kNumShards) \<and>
     (\<forall>s < kNumShards. shard_ok (\<lambda>p. count M (s, p)) (sc_shard sc ! s) \<and> placed s (sc_shard sc ! s))"

definition cache_takes :: "'v ShardedLRUCache \<Rightarrow> handle multiset \<Rightarrow> bool" where
  "cache_takes sc M \<longleftrightarrow> size M + 2 < 2 ^ 32 \<and> (\<forall>c \<in> set (sc_shard sc). unat (ht_elems (lc_table c)) < 2 ^ 31)"

text \<open>The association that the cache implements.\<close>

definition cache_holds :: "'v ShardedLRUCache \<Rightarrow> slice \<Rightarrow> 'v \<Rightarrow> bool" where
  "cache_holds sc k v \<longleftrightarrow>
     (\<exists>s < kNumShards. \<exists>p \<in> cached (sc_shard sc ! s). \<exists>e. lc_entries (sc_shard sc ! s) p = Some e \<and> lh_key e = k \<and> lh_value e = v)"

lemma Shard_less: "Shard hash < kNumShards"
proof -
  have "unat (drop_bit 28 hash) = unat hash div 2 ^ 28" unfolding unat_drop_bit_eq by (rule drop_bit_eq_div)
  moreover have "unat hash < 2 ^ 32" by (rule unat_less_2p)
  ultimately show ?thesis by (simp add: Shard_def kNumShards_def kNumShardBits_def)
qed

lemma cache_okD:
  assumes "cache_ok sc M" "s < kNumShards"
  shows "shard_ok (\<lambda>p. count M (s, p)) (sc_shard sc ! s)" "placed s (sc_shard sc ! s)" "length (sc_shard sc) = kNumShards"
  using assms by (simp_all add: cache_ok_def)

lemma placed_keeps: "placed s c \<Longrightarrow> keeps c c' \<Longrightarrow> placed s c'"
  unfolding placed_def by (metis keepsD)

lemma cache_ok_update:
  assumes "cache_ok sc M" "s < kNumShards" "shard_ok (\<lambda>p. count M' (s, p)) c'" "placed s c'"
    "\<And>r p. r \<noteq> s \<Longrightarrow> count M' (r, p) = count M (r, p)"
  shows "cache_ok (sc\<lparr>sc_shard := (sc_shard sc)[s := c']\<rparr>) M'"
proof -
  have len: "length (sc_shard sc) = kNumShards" using assms(1) by (simp add: cache_ok_def)
  have "fst h < kNumShards" if "h \<in># M'" for h
  proof (cases "fst h = s")
    case False
    then have "h \<in># M" using that assms(5) [of "fst h" "snd h"] by (metis count_eq_zero_iff prod.collapse)
    then show ?thesis using assms(1) by (simp add: cache_ok_def)
  qed (use assms(2) in simp)
  moreover have "shard_ok (\<lambda>p. count M' (r, p)) ((sc_shard sc)[s := c'] ! r) \<and> placed r ((sc_shard sc)[s := c'] ! r)"
    if "r < kNumShards" for r
    using that assms(3,4,5) cache_okD [OF assms(1) that] len by (cases "r = s") simp_all
  ultimately show ?thesis using len by (simp add: cache_ok_def)
qed

lemma count_add: "(\<lambda>q. count (add_mset (s, p) M) (s, q)) = (\<lambda>q. count M (s, q))(p := Suc (count M (s, p)))"
  by auto

lemma cache_holds_update:
  assumes "length (sc_shard sc) = kNumShards" "cache_holds (sc\<lparr>sc_shard := (sc_shard sc)[s := c']\<rparr>) k v"
    "\<And>p e. p \<in> cached c' \<Longrightarrow> lc_entries c' p = Some e \<Longrightarrow> lh_key e = k \<Longrightarrow> lh_value e = v \<Longrightarrow>
      p \<in> cached (sc_shard sc ! s) \<and> content (sc_shard sc ! s) p = content c' p \<or> P"
  shows "cache_holds sc k v \<or> P"
proof -
  obtain r p e where r: "r < kNumShards" "p \<in> cached ((sc_shard sc)[s := c'] ! r)" "lc_entries ((sc_shard sc)[s := c'] ! r) p = Some e"
    "lh_key e = k" "lh_value e = v" using assms(2) by (auto simp: cache_holds_def)
  show ?thesis
  proof (cases "r = s")
    case True
    then have c': "p \<in> cached c'" "lc_entries c' p = Some e" using r(1-3) assms(1) by simp_all
    then have "content c' p = Some (k, lh_hash e, v, lh_charge e)" using r(4,5) by (simp add: content_def)
    then have "p \<in> cached (sc_shard sc ! s) \<and> content (sc_shard sc ! s) p = Some (k, lh_hash e, v, lh_charge e) \<or> P"
      using assms(3) [OF c' r(4,5)] by simp
    then show ?thesis using r(1) True unfolding cache_holds_def content_Some by blast
  next
    case False
    then show ?thesis using r by (auto simp: cache_holds_def)
  qed
qed

lemma shards_id: "s < length xs \<Longrightarrow> sc_shard sc = xs \<Longrightarrow> sc\<lparr>sc_shard := xs[s := xs ! s]\<rparr> = sc"
  by (cases sc) simp

lemma Cache_Lookup_ok:
  assumes ok: "cache_ok sc M" and room: "size M + 2 < 2 ^ 32"
  shows "Cache_Lookup key sc = Some (None, sc) \<and> (\<nexists>v. cache_holds sc key v) \<or>
    (\<exists>h v sc'. Cache_Lookup key sc = Some (Some h, sc') \<and> Cache_Value h sc' = Some v \<and> cache_holds sc key v \<and> cache_ok sc' (add_mset h M) \<and>
      (\<forall>k v. cache_holds sc' k v \<longrightarrow> cache_holds sc k v))"
proof -
  let ?hs = "HashSlice key"
  let ?s = "Shard ?hs"
  let ?c = "sc_shard sc ! ?s"
  note D = cache_okD [OF ok Shard_less [of ?hs]]
  have room: "\<forall>p. count M (?s, p) + 2 < 2 ^ 32" using room count_le_size [of M] by (metis add_le_cancel_right order_le_less_trans)
  show ?thesis
    using Lookup_ok [OF D(1) room, of key ?hs]
  proof (elim disjE exE conjE)
    fix p c' assume c': "LRUCache_Lookup key ?hs ?c = Some (Some p, c')" "p \<in> cached ?c" "matches (lc_entries ?c) key ?hs p"
      "shard_ok ((\<lambda>p. count M (?s, p))(p := Suc (count M (?s, p)))) c'" "keeps ?c c'" "cached c' = cached ?c"
    let ?sc = "sc\<lparr>sc_shard := (sc_shard sc)[?s := c']\<rparr>"
    have look: "Cache_Lookup key sc = Some (Some (?s, p), ?sc)" using c'(1) by (simp add: Cache_Lookup_def Let_def)
    have "shard_ok (\<lambda>q. count (add_mset (?s, p) M) (?s, q)) c'" using c'(4) unfolding count_add .
    then have "cache_ok ?sc (add_mset (?s, p) M)" by (rule cache_ok_update [OF ok Shard_less _ placed_keeps [OF D(2) c'(5)]]) simp
    moreover obtain e where e: "lc_entries ?c p = Some e" "lh_key e = key" using c'(3) by (auto simp: matches_def)
    have "lc_entries c' p \<noteq> None" using c'(2,4,6) refs_okD(5) [of _ "cached c'" c' p] by (auto simp: shard_ok_def)
    then obtain e' where "lc_entries c' p = Some e'" by blast
    then have "Cache_Value (?s, p) ?sc = Some (lh_value e)" using e keepsD [OF c'(5)] D(3) Shard_less [of ?hs] by (force simp: Cache_Value_def)
    moreover have "cache_holds sc key (lh_value e)" using e c'(2) Shard_less [of ?hs] by (auto simp: cache_holds_def)
    moreover have "cache_holds sc k v" if h: "cache_holds ?sc k v" for k v
      using cache_holds_update [OF D(3) h, where P = False] c'(5,6) by (auto simp: keeps_def)
    ultimately show ?thesis using look by blast
  next
    assume none: "LRUCache_Lookup key ?hs ?c = Some (None, ?c)" "\<forall>p \<in> cached ?c. \<not> matches (lc_entries ?c) key ?hs p"
    have "Cache_Lookup key sc = Some (None, sc)" using none(1) shards_id [of ?s] D(3) Shard_less by (simp add: Cache_Lookup_def Let_def)
    moreover have "\<not> cache_holds sc key v" for v
    proof
      assume "cache_holds sc key v"
      then obtain r p e where r: "r < kNumShards" "p \<in> cached (sc_shard sc ! r)" "lc_entries (sc_shard sc ! r) p = Some e" "lh_key e = key"
        by (auto simp: cache_holds_def)
      then have "r = ?s" "lh_hash e = ?hs" using cache_okD(2) [OF ok r(1)] r(3,4) unfolding placed_def by metis+
      then show False using none(2) r by (auto simp: matches_def)
    qed
    ultimately show ?thesis by blast
  qed
qed

lemma Cache_Release_ok:
  assumes ok: "cache_ok sc (add_mset h M)"
  obtains sc' where "Cache_Release h sc = Some sc'" "cache_ok sc' M" "\<forall>k v. cache_holds sc' k v \<longrightarrow> cache_holds sc k v"
proof -
  obtain s p where h: "h = (s, p)" by (cases h)
  have s: "s < kNumShards" using ok by (simp add: cache_ok_def h)
  let ?c = "sc_shard sc ! s" and ?H = "\<lambda>q. count (add_mset h M) (s, q)"
  note D = cache_okD [OF ok s]
  have pos: "0 < ?H p" by (simp add: h)
  have H: "?H(p := ?H p - 1) = (\<lambda>q. count M (s, q))" by (auto simp: h)
  obtain c' where c': "LRUCache_Release p ?c = Some c'" "shard_ok (\<lambda>q. count M (s, q)) c'" "keeps ?c c'" "cached c' = cached ?c"
    by (rule Release_ok [OF D(1) pos]) (simp only: H)
  let ?sc = "sc\<lparr>sc_shard := (sc_shard sc)[s := c']\<rparr>"
  obtain e where e: "lc_entries ?c p = Some e" using D(1) refs_okD(5) [of ?H "cached ?c" ?c p] pos by (auto simp: shard_ok_def)
  then have "Shard (lh_hash e) = s" using D(2) unfolding placed_def by blast
  then have "Cache_Release h sc = Some ?sc" using e c'(1) by (simp add: Cache_Release_def h)
  moreover have "cache_ok ?sc M"
    by (rule cache_ok_update [OF ok s c'(2) placed_keeps [OF D(2) c'(3)]]) (simp add: h)
  moreover have "cache_holds sc k v" if hd: "cache_holds ?sc k v" for k v
    using cache_holds_update [OF D(3) hd, where P = False] c'(3,4) by (auto simp: keeps_def)
  ultimately show ?thesis using that by blast
qed

lemma Cache_Insert_ok:
  assumes ok: "cache_ok sc M" and room: "cache_takes sc M"
  obtains h sc' where "Cache_Insert key v charge sc = Some (h, sc')" "cache_ok sc' (add_mset h M)" "Cache_Value h sc' = Some v"
    "\<forall>k v'. cache_holds sc' k v' \<longrightarrow> cache_holds sc k v' \<or> k = key \<and> v' = v"
    "0 < lc_capacity (sc_shard sc ! Shard (HashSlice key)) \<longrightarrow> cache_holds sc' key v"
    "map lc_capacity (sc_shard sc') = map lc_capacity (sc_shard sc)"
    "lc_usage (sc_shard sc' ! Shard (HashSlice key)) \<le> lc_capacity (sc_shard sc ! Shard (HashSlice key)) \<or>
      lc_lru (sc_shard sc' ! Shard (HashSlice key)) = []"
proof -
  let ?hs = "HashSlice key"
  let ?s = "Shard ?hs"
  let ?c = "sc_shard sc ! ?s" and ?H = "\<lambda>q. count M (Shard (HashSlice key), q)"
  let ?p = "lc_fresh ?c"
  note D = cache_okD [OF ok Shard_less [of ?hs]]
  have small: "unat (ht_elems (lc_table ?c)) < 2 ^ 31" using room D(3) Shard_less [of ?hs] by (simp add: cache_takes_def)
  obtain c' where c': "LRUCache_Insert key ?hs v charge ?c = Some (?p, c')" "shard_ok (?H(?p := 1)) c'"
    "content c' ?p = Some (key, ?hs, v, charge)" "\<forall>q. q \<noteq> ?p \<longrightarrow> lc_entries c' q \<noteq> None \<longrightarrow> content c' q = content ?c q"
    "cached c' \<subseteq> insert ?p (cached ?c)" "0 < lc_capacity ?c \<longrightarrow> ?p \<in> cached c'" "lc_capacity c' = lc_capacity ?c"
    "lc_usage c' \<le> lc_capacity ?c \<or> lc_lru c' = []" "?H ?p = 0"
    by (rule Insert_ok [OF D(1) small, of key ?hs v charge])
  let ?sc = "sc\<lparr>sc_shard := (sc_shard sc)[?s := c']\<rparr>"
  have nth: "sc_shard ?sc ! ?s = c'" using D(3) Shard_less [of ?hs] by simp
  have pl: "placed ?s c'"
    unfolding placed_def
  proof (intro allI impI)
    fix q e assume e: "lc_entries c' q = Some e"
    then have ct: "content c' q = Some (lh_key e, lh_hash e, lh_value e, lh_charge e)" by (simp add: content_def)
    show "lh_hash e = HashSlice (lh_key e) \<and> Shard (lh_hash e) = ?s"
    proof (cases "q = ?p")
      case False
      then have "content ?c q = Some (lh_key e, lh_hash e, lh_value e, lh_charge e)" using c'(4) e ct by simp
      then obtain e0 where "lc_entries ?c q = Some e0" "lh_key e0 = lh_key e" "lh_hash e0 = lh_hash e" by (auto simp: content_Some)
      then show ?thesis using D(2) unfolding placed_def by metis
    qed (use c'(3) ct in auto)
  qed
  have "shard_ok (\<lambda>q. count (add_mset (?s, ?p) M) (?s, q)) c'" using c'(2) unfolding count_add c'(9) by simp
  then have "cache_ok ?sc (add_mset (?s, ?p) M)" by (rule cache_ok_update [OF ok Shard_less _ pl]) simp
  moreover have "Cache_Insert key v charge sc = Some ((?s, ?p), ?sc)" using c'(1) by (simp add: Cache_Insert_def Let_def)
  moreover obtain e where e: "lc_entries c' ?p = Some e" "lh_key e = key" "lh_value e = v" using c'(3) by (auto simp: content_Some)
  then have "Cache_Value (?s, ?p) ?sc = Some v" using nth by (simp add: Cache_Value_def)
  moreover have "cache_holds sc k v' \<or> k = key \<and> v' = v" if hd: "cache_holds ?sc k v'" for k v'
  proof (rule cache_holds_update [OF D(3) hd])
    fix q e' assume q: "q \<in> cached c'" "lc_entries c' q = Some e'" "lh_key e' = k" "lh_value e' = v'"
    show "q \<in> cached ?c \<and> content ?c q = content c' q \<or> k = key \<and> v' = v"
    proof (cases "q = ?p")
      case False
      then have "q \<in> cached ?c" using q(1) c'(5) by blast
      then show ?thesis using c'(4) False q(2) by simp
    qed (use q e in simp)
  qed
  moreover have "0 < lc_capacity ?c \<longrightarrow> cache_holds ?sc key v"
    using c'(6) e nth Shard_less [of ?hs] unfolding cache_holds_def by metis
  moreover have "map lc_capacity (sc_shard ?sc) = map lc_capacity (sc_shard sc)"
    using c'(7) D(3) Shard_less [of ?hs] by (simp add: map_update list_update_same_conv)
  ultimately show ?thesis using that c'(8) nth by metis
qed

lemma Cache_Erase_ok:
  assumes ok: "cache_ok sc M"
  obtains sc' where "Cache_Erase key sc = Some sc'" "cache_ok sc' M" "\<forall>k v. cache_holds sc' k v \<longleftrightarrow> cache_holds sc k v \<and> k \<noteq> key"
    "map lc_capacity (sc_shard sc') = map lc_capacity (sc_shard sc)"
proof -
  let ?hs = "HashSlice key"
  let ?s = "Shard ?hs"
  let ?c = "sc_shard sc ! ?s"
  note D = cache_okD [OF ok Shard_less [of ?hs]]
  obtain c' where c': "LRUCache_Erase key ?hs ?c = Some c'" "shard_ok (\<lambda>p. count M (?s, p)) c'" "keeps ?c c'"
    "cached c' = cached ?c - {p. matches (lc_entries ?c) key ?hs p}" by (rule Erase_ok [OF D(1)])
  let ?sc = "sc\<lparr>sc_shard := (sc_shard sc)[?s := c']\<rparr>"
  have nth: "sc_shard ?sc ! r = (if r = ?s then c' else sc_shard sc ! r)" for r using D(3) Shard_less [of ?hs] by simp
  have ok': "cache_ok ?sc M" by (rule cache_ok_update [OF ok Shard_less c'(2) placed_keeps [OF D(2) c'(3)]]) simp
  have iff: "cache_holds ?sc k v \<longleftrightarrow> cache_holds sc k v \<and> k \<noteq> key" for k v
  proof
    assume hd: "cache_holds ?sc k v"
    have "cache_holds sc k v" using cache_holds_update [OF D(3) hd, where P = False] c'(3,4) by (auto simp: keeps_def)
    moreover have False if "k = key"
    proof -
      obtain r p e where r: "r < kNumShards" "p \<in> cached (sc_shard ?sc ! r)" "lc_entries (sc_shard ?sc ! r) p = Some e" "lh_key e = key"
        using hd \<open>k = key\<close> by (auto simp: cache_holds_def)
      then have rs: "r = ?s" "lh_hash e = ?hs" using cache_okD(2) [OF ok' r(1)] unfolding placed_def by metis+
      then have "matches (lc_entries c') key ?hs p" using r(3,4) nth by (simp add: matches_def)
      then show False using c'(3,4) r(2,3) rs(1) nth content_matches [of c' p ?c] by (auto simp: keeps_def)
    qed
    ultimately show "cache_holds sc k v \<and> k \<noteq> key" by blast
  next
    assume "cache_holds sc k v \<and> k \<noteq> key"
    then obtain r p e where r: "r < kNumShards" "p \<in> cached (sc_shard sc ! r)" "lc_entries (sc_shard sc ! r) p = Some e" "lh_key e = k"
      "lh_value e = v" "k \<noteq> key" by (auto simp: cache_holds_def)
    show "cache_holds ?sc k v"
    proof (cases "r = ?s")
      case True
      then have "p \<in> cached c'" using c'(4) r(2,3,4,6) by (auto simp: matches_def)
      moreover have "lc_entries c' p \<noteq> None" using c'(2) refs_okD(5) [of _ "cached c'" c' p] calculation by (auto simp: shard_ok_def)
      then obtain e' where "lc_entries c' p = Some e'" "lh_key e' = k" "lh_value e' = v"
        using keepsD [OF c'(3), of p] r(3,4,5) True by force
      ultimately show ?thesis using r(1) nth [of r] True unfolding cache_holds_def by metis
    next
      case False
      then show ?thesis using r nth [of r] unfolding cache_holds_def by metis
    qed
  qed
  have "map lc_capacity (sc_shard ?sc) = map lc_capacity (sc_shard sc)"
    using c'(3) D(3) Shard_less [of ?hs] by (simp add: map_update list_update_same_conv keeps_def)
  moreover have "Cache_Erase key sc = Some ?sc" using c'(1) by (simp add: Cache_Erase_def Let_def)
  ultimately show ?thesis using that ok' iff by blast
qed

lemma prune_shards_ok:
  assumes "\<forall>i < length cs. shard_ok (H i) (cs ! i)"
  obtains cs' where "prune_shards cs = Some cs'" "length cs' = length cs"
    "\<And>i. i < length cs \<Longrightarrow> shard_ok (H i) (cs' ! i) \<and> keeps (cs ! i) (cs' ! i) \<and> cached (cs' ! i) = {p \<in> cached (cs ! i). 0 < H i p} \<and>
      lc_lru (cs' ! i) = []"
proof -
  have "\<exists>cs'. prune_shards cs = Some cs' \<and> length cs' = length cs \<and>
    (\<forall>i < length cs. shard_ok (H i) (cs' ! i) \<and> keeps (cs ! i) (cs' ! i) \<and> cached (cs' ! i) = {p \<in> cached (cs ! i). 0 < H i p} \<and>
      lc_lru (cs' ! i) = [])"
    using assms
  proof (induction cs arbitrary: H)
    case (Cons c cs)
    obtain c' where c': "LRUCache_Prune c = Some c'" "shard_ok (H 0) c' \<and> keeps c c' \<and> cached c' = {p \<in> cached c. 0 < H 0 p} \<and> lc_lru c' = []"
      using Prune_ok [of "H 0" c] spec [OF Cons(2), of 0] by auto
    have "\<forall>i < length cs. shard_ok (H (Suc i)) (cs ! i)" using Cons(2) by auto
    from Cons(1) [OF this] obtain cs' where cs': "prune_shards cs = Some cs'" "length cs' = length cs"
      "\<forall>i < length cs. shard_ok (H (Suc i)) (cs' ! i) \<and> keeps (cs ! i) (cs' ! i) \<and> cached (cs' ! i) = {p \<in> cached (cs ! i). 0 < H (Suc i) p} \<and>
        lc_lru (cs' ! i) = []" by blast
    show ?case using c' cs' by (intro exI [of _ "c' # cs'"]) (auto simp: nth_Cons split: nat.splits)
  qed simp
  then show ?thesis using that by blast
qed

lemma Cache_Prune_ok:
  assumes ok: "cache_ok sc M"
  obtains sc' where "Cache_Prune sc = Some sc'" "cache_ok sc' M" "\<forall>c \<in> set (sc_shard sc'). lc_lru c = []"
    "\<forall>k v. cache_holds sc' k v \<longrightarrow> cache_holds sc k v" "map lc_capacity (sc_shard sc') = map lc_capacity (sc_shard sc)"
proof -
  have len: "length (sc_shard sc) = kNumShards" using ok by (simp add: cache_ok_def)
  obtain cs where cs: "prune_shards (sc_shard sc) = Some cs" "length cs = kNumShards"
    "\<And>i. i < kNumShards \<Longrightarrow> shard_ok (\<lambda>p. count M (i, p)) (cs ! i) \<and> keeps (sc_shard sc ! i) (cs ! i) \<and>
      cached (cs ! i) = {p \<in> cached (sc_shard sc ! i). 0 < count M (i, p)} \<and> lc_lru (cs ! i) = []"
    using prune_shards_ok [of "sc_shard sc" "\<lambda>i p. count M (i, p)"] ok len unfolding cache_ok_def by auto
  let ?sc = "sc\<lparr>sc_shard := cs\<rparr>"
  have "placed i (cs ! i)" if "i < kNumShards" for i using placed_keeps cache_okD(2) [OF ok that] cs(3) [OF that] by blast
  then have "cache_ok ?sc M" using ok cs(2,3) by (simp add: cache_ok_def)
  moreover have "Cache_Prune sc = Some ?sc" using cs(1) by (simp add: Cache_Prune_def)
  moreover have "\<forall>c \<in> set (sc_shard ?sc). lc_lru c = []" using cs(2,3) by (auto simp: in_set_conv_nth)
  moreover have "cache_holds sc k v" if hd: "cache_holds ?sc k v" for k v
  proof -
    obtain r p e where r: "r < kNumShards" "p \<in> cached (cs ! r)" "lc_entries (cs ! r) p = Some e" "lh_key e = k" "lh_value e = v"
      using hd by (auto simp: cache_holds_def)
    have k: "keeps (sc_shard sc ! r) (cs ! r)" and p: "p \<in> cached (sc_shard sc ! r)" using cs(3) [OF r(1)] r(2) by auto
    obtain e0 where "lc_entries (sc_shard sc ! r) p = Some e0" "lh_key e = lh_key e0" "lh_value e = lh_value e0" by (rule keepsD [OF k r(3)])
    then show ?thesis using r p unfolding cache_holds_def by metis
  qed
  moreover have "map lc_capacity cs = map lc_capacity (sc_shard sc)"
    using cs(2,3) len by (intro nth_equalityI) (simp_all add: keeps_def)
  ultimately show ?thesis using that by simp
qed

lemma NewLRUCache_ok: "cache_ok (NewLRUCache capacity :: 'v ShardedLRUCache) {#}"
proof -
  let ?c = "new_LRUCache ((capacity + (of_nat kNumShards - 1)) div of_nat kNumShards) :: 'v LRUCache"
  have "table_ok (Map.empty :: 'v entries) new_HandleTable"
    by (simp add: table_ok_def new_HandleTable_def buckets_ok_def keys_distinct_def in_table_def)
  then have "shard_ok (\<lambda>p. 0) ?c"
    by (simp add: shard_ok_def refs_ok_def new_LRUCache_def cached_def in_table_def new_HandleTable_def)
  moreover have "placed s ?c" for s by (simp add: placed_def new_LRUCache_def)
  ultimately show ?thesis by (simp add: cache_ok_def NewLRUCache_def)
qed

lemma NewId_ok: "cache_ok sc M \<Longrightarrow> cache_ok (snd (NewId sc)) M" "cache_holds (snd (NewId sc)) k v \<longleftrightarrow> cache_holds sc k v"
  by (simp_all add: NewId_def cache_ok_def cache_holds_def)

text \<open>The table constructor resizes an empty table.\<close>

lemma new_HandleTable_Resize: "Resize Map.empty \<lparr>ht_length = 0, ht_elems = 0, ht_list = []\<rparr> = Some new_HandleTable"
  by (simp add: Resize_def new_HandleTable_def resize_length.simps)

section \<open>The cache as the reader of tables uses it\<close>

definition lru_block_cache :: "(block ShardedLRUCache, handle) BlockCache" where
  "lru_block_cache = \<lparr>ca_Lookup = Cache_Lookup, ca_Value = Cache_Value, ca_Insert = \<lambda>key b n. Cache_Insert key b (of_nat n),
     ca_Release = Cache_Release, ca_NewId = NewId\<rparr>"

interpretation lru: block_cache lru_block_cache cache_holds cache_ok cache_takes
proof
  fix c :: "block ShardedLRUCache" and M :: "handle multiset" and key :: slice
  assume ok: "cache_ok c M" and room: "cache_takes c M"
  then have "size M + 2 < 2 ^ 32" by (simp add: cache_takes_def)
  then show "ca_Lookup lru_block_cache key c = Some (None, c) \<or>
      (\<exists>h b c'. ca_Lookup lru_block_cache key c = Some (Some h, c') \<and> ca_Value lru_block_cache h c' = Some b \<and> cache_holds c key b \<and>
        cache_ok c' (add_mset h M) \<and> (\<forall>k b. cache_holds c' k b \<longrightarrow> cache_holds c k b))"
    using Cache_Lookup_ok [OF ok, of key] unfolding lru_block_cache_def BlockCache.select_convs by blast
  show "\<exists>h c'. ca_Insert lru_block_cache key b n c = Some (h, c') \<and> cache_ok c' (add_mset h M) \<and>
      (\<forall>k b'. cache_holds c' k b' \<longrightarrow> cache_holds c k b' \<or> k = key \<and> b' = b)" for b n
    unfolding lru_block_cache_def BlockCache.select_convs by (rule Cache_Insert_ok [OF ok room, of key b "of_nat n"]) blast
next
  fix c :: "block ShardedLRUCache" and M :: "handle multiset" and h
  assume "cache_ok c (add_mset h M)"
  then show "\<exists>c'. ca_Release lru_block_cache h c = Some c' \<and> cache_ok c' M \<and> (\<forall>k b. cache_holds c' k b \<longrightarrow> cache_holds c k b)"
    unfolding lru_block_cache_def BlockCache.select_convs by (rule Cache_Release_ok) blast
qed (simp_all add: lru_block_cache_def NewId_ok)

section \<open>What the comments of the code promise\<close>

text \<open>
  Every entry in the cache is in exactly one of the two lists, by whether a client has a handle on it. An entry lives as long
  as the cache or a client refers to it, its counter counts these references, and \<open>lc_usage\<close> is the sum of the charges.
\<close>

definition counted :: "(nat \<Rightarrow> nat) \<Rightarrow> 'v LRUCache \<Rightarrow> bool" where
  "counted H c \<longleftrightarrow>
     (let items = lc_lru c @ lc_in_use c in
      distinct items \<and> (\<forall>p \<in> set (lc_lru c). H p = 0) \<and> (\<forall>p \<in> set (lc_in_use c). 0 < H p) \<and>
      (\<forall>p. lc_entries c p \<noteq> None \<longleftrightarrow> p \<in> set items \<or> 0 < H p) \<and>
      (\<forall>p e. lc_entries c p = Some e \<longrightarrow> unat (lh_refs e) = H p + of_bool (p \<in> set items)) \<and>
      lc_usage c = (\<Sum>p \<leftarrow> items. lh_charge (the (lc_entries c p))))"

lemma shard_ok_counted: "shard_ok H c \<Longrightarrow> counted H c"
proof -
  assume "shard_ok H c"
  then have r: "refs_ok H (cached c) c" by (simp add: shard_ok_def)
  note D = refs_okD [OF r]
  have items: "set (lc_lru c @ lc_in_use c) = cached c" using D(3,4) by auto
  moreover have "distinct (lc_lru c @ lc_in_use c)" using D(1-4) by auto
  moreover have "lc_usage c = (\<Sum>p \<leftarrow> lc_lru c @ lc_in_use c. lh_charge (the (lc_entries c p)))"
    unfolding sum_list_distinct_conv_sum_set [OF calculation(2)] items by (rule D(9))
  ultimately show ?thesis using D(3-5,8) unfolding counted_def Let_def by (simp only:) auto
qed

text \<open>Deleting a shard on which no client has a handle frees every entry.\<close>

lemma delete_entries_frees:
  assumes "distinct ps" "\<And>p. p \<in> set ps \<Longrightarrow> \<exists>e. lc_entries c p = Some e \<and> lh_refs e = 1"
  shows "\<exists>c'. delete_entries ps c = Some c' \<and> lc_entries c' = (\<lambda>p. if p \<in> set ps then None else lc_entries c p)"
  using assms
proof (induction ps arbitrary: c)
  case (Cons p ps)
  obtain e where e: "lc_entries c p = Some e" "lh_refs e = 1" using Cons(3) by auto
  define c1 where "c1 = c\<lparr>lc_deleted := lc_deleted c @ [(lh_key e, lh_value e)], lc_entries := (lc_entries c)(p := None)\<rparr>"
  have "\<exists>c'. delete_entries ps c1 = Some c' \<and> lc_entries c' = (\<lambda>q. if q \<in> set ps then None else lc_entries c1 q)"
    by (rule Cons.IH) (use Cons(2,3) in \<open>auto simp: c1_def\<close>)
  moreover have "delete_entries (p # ps) c = delete_entries ps c1" using e by (simp add: Unref_def c1_def)
  moreover have "(\<lambda>q. if q \<in> set ps then None else lc_entries c1 q) = (\<lambda>q. if q \<in> set (p # ps) then None else lc_entries c q)"
    by (auto simp: c1_def)
  ultimately show ?case by simp
qed simp

lemma delete_LRUCache_frees:
  assumes "shard_ok (\<lambda>p. 0) c"
  obtains c' where "delete_LRUCache c = Some c'" "lc_entries c' = Map.empty"
proof -
  have r: "refs_ok (\<lambda>p. 0) (cached c) c" using assms by (simp add: shard_ok_def)
  note D = refs_okD [OF r]
  have "\<exists>e. lc_entries c p = Some e \<and> lh_refs e = 1" if p: "p \<in> set (lc_lru c)" for p
  proof -
    have pc: "p \<in> cached c" using p D(3) by simp
    then obtain e where e: "lc_entries c p = Some e" using D(5) [of p] by auto
    then show ?thesis using D(8) [OF e] pc by (simp add: word_unat_eq_iff)
  qed
  from delete_entries_frees [OF D(1) this] obtain c' where c': "delete_LRUCache c = Some c'"
    "lc_entries c' = (\<lambda>p. if p \<in> set (lc_lru c) then None else lc_entries c p)" by (auto simp: delete_LRUCache_def)
  moreover have "lc_entries c p = None" if "p \<notin> set (lc_lru c)" for p using D(3) D(5) [of p] that by auto
  ultimately show ?thesis using that by (auto simp: fun_eq_iff)
qed

section \<open>The client's protocol\<close>

text \<open>A client releases only handles that it has, and inserts or looks up only while counters and table can take it.\<close>

inductive cache_client :: "64 word \<Rightarrow> 'v ShardedLRUCache \<Rightarrow> handle multiset \<Rightarrow> bool" for capacity where
  client_new: "cache_client capacity (NewLRUCache capacity) {#}"
| client_Insert: "cache_client capacity sc M \<Longrightarrow> cache_takes sc M \<Longrightarrow> Cache_Insert key v charge sc = Some (h, sc') \<Longrightarrow>
    cache_client capacity sc' (add_mset h M)"
| client_Lookup: "cache_client capacity sc M \<Longrightarrow> cache_takes sc M \<Longrightarrow> Cache_Lookup key sc = Some (Some h, sc') \<Longrightarrow>
    cache_client capacity sc' (add_mset h M)"
| client_miss: "cache_client capacity sc M \<Longrightarrow> cache_takes sc M \<Longrightarrow> Cache_Lookup key sc = Some (None, sc') \<Longrightarrow> cache_client capacity sc' M"
| client_Release: "cache_client capacity sc (add_mset h M) \<Longrightarrow> Cache_Release h sc = Some sc' \<Longrightarrow> cache_client capacity sc' M"
| client_Erase: "cache_client capacity sc M \<Longrightarrow> Cache_Erase key sc = Some sc' \<Longrightarrow> cache_client capacity sc' M"
| client_Prune: "cache_client capacity sc M \<Longrightarrow> Cache_Prune sc = Some sc' \<Longrightarrow> cache_client capacity sc' M"
| client_NewId: "cache_client capacity sc M \<Longrightarrow> NewId sc = (i, sc') \<Longrightarrow> cache_client capacity sc' M"

lemma cache_client_ok: "cache_client capacity sc M \<Longrightarrow> cache_ok sc M"
proof (induction rule: cache_client.induct)
  case client_new
  show ?case by (rule NewLRUCache_ok)
next
  case (client_Insert sc M key v charge h sc')
  then show ?case using Cache_Insert_ok [OF client_Insert(4,2), of key v charge] by force
next
  case (client_Lookup sc M key h sc')
  then show ?case using Cache_Lookup_ok [OF client_Lookup(4), of key] by (auto simp: cache_takes_def)
next
  case (client_miss sc M key sc')
  then show ?case using Cache_Lookup_ok [OF client_miss(4), of key] by (auto simp: cache_takes_def)
next
  case (client_Release sc h M sc')
  then show ?case using Cache_Release_ok [OF client_Release(3)] by force
next
  case (client_Erase sc M key sc')
  then show ?case using Cache_Erase_ok [OF client_Erase(3), of key] by force
next
  case (client_Prune sc M sc')
  then show ?case using Cache_Prune_ok [OF client_Prune(3)] by force
next
  case (client_NewId sc M i sc')
  then show ?case using NewId_ok(1) [OF client_NewId(3)] by simp
qed

end
