(* ===== verification/Ldb_Example.thy ===== *)
theory Ldb_Example
  imports Ldb_Table_Read Ldb_Cache
begin

text \<open>
  A small table, with a Bloom filter and one entry, on which the properties of tables are evaluated.
\<close>

definition example_options :: Options where
  "example_options = \<lparr>op_comparator = InternalKeyComparator BytewiseComparator, op_paranoid_checks = True, op_block_size = 4096,
     op_block_restart_interval = 16, op_compression = kNoCompression, op_filter_policy = Some ([98], InternalFilterPolicy (NewBloomFilterPolicy 10))\<rparr>"

definition example_entries :: "(slice \<times> slice) list" where
  "example_entries = [([97, 1, 0, 0, 0, 0, 0, 0, 0], [7])]"

lemma example_table_size: "length (table_bytes example_options [example_entries]) \<le> 1000"
proof -
  let ?p = "InternalFilterPolicy (NewBloomFilterPolicy 10)"
  have opt: "op_filter_policy example_options = Some ([98], ?p)" "op_block_restart_interval example_options = 16"
    "op_comparator example_options = InternalKeyComparator BytewiseComparator" by (simp_all add: example_options_def)
  have b: "length (build_block 16 example_entries) = 21" by code_simp
  have d: "length (data_part example_options [example_entries]) = 26" "data_part example_options [] = []"
    by (simp_all add: data_part_def b opt kBlockTrailerSize_def)
  have "filter_blocks example_options ([example_entries] @ [[]]) = [(0, [[97, 1, 0, 0, 0, 0, 0, 0, 0]]), (26, [])]"
    by (simp add: filter_blocks_def d) (simp add: example_entries_def)
  moreover have "length (Finish ?p (add_blocks ?p [(0, [[97, 1, 0, 0, 0, 0, 0, 0, 0]]), (26, [])] new_FilterBlockBuilder)) = 18"
    by code_simp
  ultimately have f: "\<exists>x. filter_part example_options [example_entries] = Some x \<and> length x = 18"
    by (simp add: filter_part_def opt)
  then have "meta_entries example_options [example_entries] = [(filter_key [98], BlockHandle_EncodeTo [] \<lparr>bh_offset = 26, bh_size = 18\<rparr>)]"
    by (auto simp: meta_entries_def d opt)
  moreover have "length (build_block 16 [(filter_key [98], BlockHandle_EncodeTo [] \<lparr>bh_offset = 26, bh_size = 18\<rparr>)]) \<le> 100"
    by code_simp
  ultimately have m: "length (meta_block example_options [example_entries]) \<le> 100" by (simp add: meta_block_def opt)
  have "index_entries example_options [example_entries] (index_keys example_options [example_entries]) =
      [(FindShortSuccessor (InternalKeyComparator BytewiseComparator) [97, 1, 0, 0, 0, 0, 0, 0, 0],
        BlockHandle_EncodeTo [] \<lparr>bh_offset = 0, bh_size = 21\<rparr>)]"
    by (simp add: index_entries_def index_keys_def data_handle_def d opt b) (simp add: example_entries_def)
  moreover have "length (build_block 1 [(FindShortSuccessor (InternalKeyComparator BytewiseComparator) [97, 1, 0, 0, 0, 0, 0, 0, 0],
        BlockHandle_EncodeTo [] \<lparr>bh_offset = 0, bh_size = 21\<rparr>)]) \<le> 100" by code_simp
  ultimately have i: "length (index_block example_options [example_entries]) \<le> 100" by (simp add: index_block_def)
  have "length (Footer_EncodeTo [] (table_footer example_options [example_entries])) = kEncodedLength" using Footer_bytes by blast
  then show ?thesis using f m i by (auto simp: table_bytes_def filter_bytes_def d kBlockTrailerSize_def kEncodedLength_def kMaxEncodedLength_def)
qed

lemma singleton_groups: "concat gs = [x] \<Longrightarrow> [] \<notin> set gs \<Longrightarrow> gs = [[x]]"
proof (induction gs)
  case (Cons g gs)
  then show ?case by (cases g; cases gs) auto
qed simp

end
