(* ===== verification/Ldb_Skiplist.thy ===== *)
theory Ldb_Skiplist
  imports Ldb_Key "HOL-Library.Monad_Syntax"
begin

text \<open>
  The skip list of the memory table (\<^verbatim>\<open>db/skiplist.h\<close>) and its random numbers (\<^verbatim>\<open>util/random.h\<close>). A node is an index into the list of
  allocated nodes, the head is node 0; a null pointer is \<open>None\<close>. A result \<open>None\<close> of an operation is an access outside a
  node's array of links, or a search that does not end. Readers that run beside a writer are not modelled.

  The specification is the list of the nodes in key order: at each level the links run through those of its nodes that are
  high enough.
\<close>

section \<open>Random numbers\<close>

definition new_Random :: "32 word \<Rightarrow> 32 word" where
  "new_Random s = (let seed = s AND 0x7FFFFFFF in if seed = 0 \<or> seed = 2147483647 then 1 else seed)"

definition Random_Next :: "32 word \<Rightarrow> 32 word" where
  "Random_Next seed =
     (let M = 2147483647 :: 32 word;
          product = ucast seed * 16807 :: 64 word;
          seed1 = ucast (drop_bit 31 product + (product AND ucast M)) :: 32 word
      in if M < seed1 then seed1 - M else seed1)"

section \<open>The list\<close>

definition kMaxHeight :: nat where
  "kMaxHeight = 12"

record Node =
  nd_key :: slice
  nd_next :: "nat option list"

record SkipList =
  sl_nodes :: "Node list"
  sl_max_height :: nat
  sl_rnd :: "32 word"

definition new_SkipList :: SkipList where
  "new_SkipList = \<lparr>sl_nodes = [\<lparr>nd_key = [], nd_next = replicate kMaxHeight None\<rparr>], sl_max_height = 1, sl_rnd = new_Random 0xDEADBEEF\<rparr>"

definition Node_Next :: "SkipList \<Rightarrow> nat \<Rightarrow> nat \<Rightarrow> nat option option" where
  "Node_Next s x n =
     (if x < length (sl_nodes s) \<and> n < length (nd_next (sl_nodes s ! x)) then Some (nd_next (sl_nodes s ! x) ! n) else None)"

definition SetNext :: "nat \<Rightarrow> nat \<Rightarrow> nat option \<Rightarrow> SkipList \<Rightarrow> SkipList option" where
  "SetNext x n y s =
     (if x < length (sl_nodes s) \<and> n < length (nd_next (sl_nodes s ! x))
      then Some (s\<lparr>sl_nodes := (sl_nodes s)[x := (sl_nodes s ! x)\<lparr>nd_next := (nd_next (sl_nodes s ! x))[n := y]\<rparr>]\<rparr>)
      else None)"

definition Node_key :: "SkipList \<Rightarrow> nat \<Rightarrow> slice option" where
  "Node_key s x = (if x < length (sl_nodes s) then Some (nd_key (sl_nodes s ! x)) else None)"

function RandomHeight_loop :: "nat \<Rightarrow> 32 word \<Rightarrow> nat \<times> 32 word" where
  "RandomHeight_loop height seed =
     (if height < kMaxHeight then
        let seed1 = Random_Next seed
        in if seed1 mod 4 = 0 then RandomHeight_loop (height + 1) seed1 else (height, seed1)
      else (height, seed))"
  by pat_completeness auto

termination RandomHeight_loop
  by (relation "measure (\<lambda>(h, _). kMaxHeight - h)") auto

declare RandomHeight_loop.simps [simp del]

definition RandomHeight :: "32 word \<Rightarrow> nat \<times> 32 word" where
  "RandomHeight seed = RandomHeight_loop 1 seed"

definition KeyIsAfterNode :: "(slice \<Rightarrow> slice \<Rightarrow> int) \<Rightarrow> SkipList \<Rightarrow> slice \<Rightarrow> nat option \<Rightarrow> bool option" where
  "KeyIsAfterNode compare s key n =
     (case n of None \<Rightarrow> Some False | Some x \<Rightarrow> map_option (\<lambda>k. compare k key < 0) (Node_key s x))"

text \<open>The search fills \<open>prev\<close>, an array of \<open>kMaxHeight\<close> pointers; \<open>None\<close> is an entry that was not set.\<close>

partial_function (option) search_ge ::
    "(slice \<Rightarrow> slice \<Rightarrow> int) \<Rightarrow> SkipList \<Rightarrow> slice \<Rightarrow> nat \<Rightarrow> nat \<Rightarrow> nat option list \<Rightarrow> (nat option \<times> nat option list) option" where
  "search_ge compare s key x level prev =
     do {
       nxt \<leftarrow> Node_Next s x level;
       after \<leftarrow> KeyIsAfterNode compare s key nxt;
       if after then search_ge compare s key (the nxt) level prev
       else
         let prev1 = prev[level := Some x]
         in if level = 0 then Some (nxt, prev1) else search_ge compare s key x (level - 1) prev1
     }"

definition FindGreaterOrEqual :: "(slice \<Rightarrow> slice \<Rightarrow> int) \<Rightarrow> SkipList \<Rightarrow> slice \<Rightarrow> (nat option \<times> nat option list) option" where
  "FindGreaterOrEqual compare s key = search_ge compare s key 0 (sl_max_height s - 1) (replicate kMaxHeight None)"

partial_function (option) search_lt :: "(slice \<Rightarrow> slice \<Rightarrow> int) \<Rightarrow> SkipList \<Rightarrow> slice \<Rightarrow> nat \<Rightarrow> nat \<Rightarrow> nat option" where
  "search_lt compare s key x level =
     do {
       nxt \<leftarrow> Node_Next s x level;
       stop \<leftarrow> (case nxt of None \<Rightarrow> Some True | Some y \<Rightarrow> map_option (\<lambda>k. compare k key \<ge> 0) (Node_key s y));
       if stop then if level = 0 then Some x else search_lt compare s key x (level - 1)
       else search_lt compare s key (the nxt) level
     }"

definition FindLessThan :: "(slice \<Rightarrow> slice \<Rightarrow> int) \<Rightarrow> SkipList \<Rightarrow> slice \<Rightarrow> nat option" where
  "FindLessThan compare s key = search_lt compare s key 0 (sl_max_height s - 1)"

partial_function (option) search_last :: "SkipList \<Rightarrow> nat \<Rightarrow> nat \<Rightarrow> nat option" where
  "search_last s x level =
     do {
       nxt \<leftarrow> Node_Next s x level;
       case nxt of
         None \<Rightarrow> if level = 0 then Some x else search_last s x (level - 1)
       | Some y \<Rightarrow> search_last s y level
     }"

definition FindLast :: "SkipList \<Rightarrow> nat option" where
  "FindLast s = search_last s 0 (sl_max_height s - 1)"

text \<open>The loop that links node \<open>x\<close> in after the nodes \<open>prev\<close>, for the levels in the list.\<close>

fun link_levels :: "nat \<Rightarrow> nat option list \<Rightarrow> nat list \<Rightarrow> SkipList \<Rightarrow> SkipList option" where
  "link_levels x prev [] s = Some s"
| "link_levels x prev (i # is) s =
     do {
       p \<leftarrow> (if i < length prev then prev ! i else None);
       nxt \<leftarrow> Node_Next s p i;
       s1 \<leftarrow> SetNext x i nxt s;
       s2 \<leftarrow> SetNext p i (Some x) s1;
       link_levels x prev is s2
     }"

definition SkipList_Insert :: "(slice \<Rightarrow> slice \<Rightarrow> int) \<Rightarrow> slice \<Rightarrow> SkipList \<Rightarrow> SkipList option" where
  "SkipList_Insert compare key s =
     do {
       (_, prev) \<leftarrow> FindGreaterOrEqual compare s key;
       let (height, rnd) = RandomHeight (sl_rnd s);
       let prev1 = (if height > sl_max_height s
                    then fold (\<lambda>i p. p[i := Some 0]) [sl_max_height s..<height] prev else prev);
       let x = length (sl_nodes s);
       let s1 = s\<lparr>sl_nodes := sl_nodes s @ [\<lparr>nd_key = key, nd_next = replicate height None\<rparr>],
                  sl_max_height := max height (sl_max_height s), sl_rnd := rnd\<rparr>;
       link_levels x prev1 [0..<height] s1
     }"

definition SkipList_Contains :: "(slice \<Rightarrow> slice \<Rightarrow> int) \<Rightarrow> slice \<Rightarrow> SkipList \<Rightarrow> bool option" where
  "SkipList_Contains compare key s =
     do {
       (x, _) \<leftarrow> FindGreaterOrEqual compare s key;
       case x of None \<Rightarrow> Some False | Some y \<Rightarrow> map_option (\<lambda>k. compare key k = 0) (Node_key s y)
     }"

text \<open>An iterator is its node.\<close>

definition sl_Seek :: "(slice \<Rightarrow> slice \<Rightarrow> int) \<Rightarrow> SkipList \<Rightarrow> slice \<Rightarrow> nat option option" where
  "sl_Seek compare s target = map_option fst (FindGreaterOrEqual compare s target)"

definition sl_SeekToFirst :: "SkipList \<Rightarrow> nat option option" where
  "sl_SeekToFirst s = Node_Next s 0 0"

definition not_head :: "nat \<Rightarrow> nat option" where
  "not_head x = (if x = 0 then None else Some x)"

definition sl_SeekToLast :: "SkipList \<Rightarrow> nat option option" where
  "sl_SeekToLast s = map_option not_head (FindLast s)"

definition sl_Next :: "SkipList \<Rightarrow> nat \<Rightarrow> nat option option" where
  "sl_Next s x = Node_Next s x 0"

definition sl_Prev :: "(slice \<Rightarrow> slice \<Rightarrow> int) \<Rightarrow> SkipList \<Rightarrow> nat \<Rightarrow> nat option option" where
  "sl_Prev compare s x =
     do {
       k \<leftarrow> Node_key s x;
       map_option not_head (FindLessThan compare s k)
     }"

section \<open>Chains\<close>

text \<open>\<open>link_path\<close> follows the links of a level from a node through the nodes of a list, \<open>linked\<close> up to the end of the level.\<close>

fun link_path :: "SkipList \<Rightarrow> nat \<Rightarrow> nat \<Rightarrow> nat list \<Rightarrow> bool" where
  "link_path s l x [] \<longleftrightarrow> True"
| "link_path s l x (y # ys) \<longleftrightarrow> Node_Next s x l = Some (Some y) \<and> link_path s l y ys"

definition linked :: "SkipList \<Rightarrow> nat \<Rightarrow> nat \<Rightarrow> nat list \<Rightarrow> bool" where
  "linked s l x xs \<longleftrightarrow> link_path s l x xs \<and> Node_Next s (last (x # xs)) l = Some None"

definition node_height :: "SkipList \<Rightarrow> nat \<Rightarrow> nat" where
  "node_height s x = length (nd_next (sl_nodes s ! x))"

definition level_nodes :: "SkipList \<Rightarrow> nat \<Rightarrow> nat list \<Rightarrow> nat list" where
  "level_nodes s l xs = filter (\<lambda>x. l < node_height s x) xs"

definition key_of :: "SkipList \<Rightarrow> nat \<Rightarrow> slice" where
  "key_of s x = nd_key (sl_nodes s ! x)"

lemma link_path_append: "link_path s l x (xs @ ys) \<longleftrightarrow> link_path s l x xs \<and> link_path s l (last (x # xs)) ys"
  by (induction xs arbitrary: x) auto

lemma linked_append: "linked s l x (xs @ ys) \<longleftrightarrow> link_path s l x xs \<and> linked s l (last (x # xs)) ys"
  by (auto simp: linked_def link_path_append)

lemma linked_Cons: "linked s l x (y # ys) \<longleftrightarrow> Node_Next s x l = Some (Some y) \<and> linked s l y ys"
  by (auto simp: linked_def)

lemma linked_next: "linked s l x ys \<Longrightarrow> Node_Next s x l = Some (case ys of [] \<Rightarrow> None | y # _ \<Rightarrow> Some y)"
  by (cases ys) (auto simp: linked_def)

lemma link_path_cong: "\<forall>y \<in> set (butlast (x # xs)). Node_Next s' y l = Node_Next s y l \<Longrightarrow> link_path s' l x xs \<longleftrightarrow> link_path s l x xs"
  by (induction xs arbitrary: x) auto

lemma linked_cong: "\<forall>y \<in> set (x # xs). Node_Next s' y l = Node_Next s y l \<Longrightarrow> linked s' l x xs \<longleftrightarrow> linked s l x xs"
proof -
  assume h: "\<forall>y \<in> set (x # xs). Node_Next s' y l = Node_Next s y l"
  then have "link_path s' l x xs \<longleftrightarrow> link_path s l x xs" by (intro link_path_cong) (auto dest: in_set_butlastD)
  then show ?thesis using h by (simp add: linked_def)
qed

text \<open>The representation: \<open>ids\<close> are the nodes in key order.\<close>

definition represents_list :: "(slice \<Rightarrow> slice \<Rightarrow> int) \<Rightarrow> (slice \<Rightarrow> bool) \<Rightarrow> SkipList \<Rightarrow> nat list \<Rightarrow> bool" where
  "represents_list compare valid s ids \<longleftrightarrow>
     0 < length (sl_nodes s) \<and> distinct ids \<and> set ids = {1..<length (sl_nodes s)} \<and>
     sorted_wrt (\<lambda>x y. compare (key_of s x) (key_of s y) < 0) ids \<and> (\<forall>x \<in> set ids. valid (key_of s x)) \<and>
     node_height s 0 = kMaxHeight \<and> (\<forall>x \<in> set ids. 1 \<le> node_height s x \<and> node_height s x \<le> sl_max_height s) \<and>
     1 \<le> sl_max_height s \<and> sl_max_height s \<le> kMaxHeight \<and>
     (\<forall>l < kMaxHeight. linked s l 0 (level_nodes s l ids))"

lemma RandomHeight_bounds: "fst (RandomHeight seed) \<in> {1..kMaxHeight}"
proof -
  have "1 \<le> h \<Longrightarrow> h \<le> kMaxHeight \<Longrightarrow> fst (RandomHeight_loop h sd) \<in> {1..kMaxHeight}" for h sd
  proof (induction h sd rule: RandomHeight_loop.induct)
    case (1 h sd)
    then show ?case by (subst RandomHeight_loop.simps) (auto simp: Let_def)
  qed
  then show ?thesis by (simp add: RandomHeight_def kMaxHeight_def)
qed

lemma new_SkipList_represents: "represents_list compare valid new_SkipList []"
  by (simp add: represents_list_def new_SkipList_def node_height_def level_nodes_def linked_def Node_Next_def kMaxHeight_def)

lemma Node_key_represents: "represents_list compare valid s ids \<Longrightarrow> x \<in> set ids \<Longrightarrow> Node_key s x = Some (key_of s x)"
  by (simp add: represents_list_def Node_key_def key_of_def)

section \<open>Searching\<close>

definition first_of :: "nat list \<Rightarrow> nat option" where
  "first_of xs = (case xs of [] \<Rightarrow> None | x # _ \<Rightarrow> Some x)"

lemma linked_suffix: "linked s l h t \<Longrightarrow> h # t = pre @ x # suf \<Longrightarrow> linked s l x suf"
proof (cases pre)
  case (Cons a pre')
  assume "linked s l h t" "h # t = pre @ x # suf"
  then have "linked s l h ((pre' @ [x]) @ suf)" using Cons by simp
  then show ?thesis unfolding linked_append by simp
qed auto

text \<open>What a search meets: inside the nodes before the key, and behind the last of them.\<close>

lemma walk_next:
  assumes "represents_list compare valid s (low @ high)" "l < kMaxHeight"
  shows "0 # level_nodes s l low = pre @ x # y # post \<Longrightarrow> Node_Next s x l = Some (Some y) \<and> y \<in> set low"
    "Node_Next s (last (0 # level_nodes s l low)) l = Some (first_of (level_nodes s l high))"
proof -
  have lk: "linked s l 0 (level_nodes s l low @ level_nodes s l high)" using assms by (simp add: represents_list_def level_nodes_def)
  show "Node_Next s x l = Some (Some y) \<and> y \<in> set low" if eq: "0 # level_nodes s l low = pre @ x # y # post"
  proof -
    have "0 # level_nodes s l low @ level_nodes s l high = pre @ x # (y # post @ level_nodes s l high)" using eq by simp
    from linked_next [OF linked_suffix [OF lk this]] have "Node_Next s x l = Some (Some y)" by simp
    moreover have "y \<in> set (level_nodes s l low)"
    proof (cases pre)
      case Nil
      then show ?thesis using eq by simp
    next
      case (Cons a pre')
      then have "level_nodes s l low = pre' @ x # y # post" using eq by simp
      then show ?thesis by simp
    qed
    ultimately show ?thesis by (simp add: level_nodes_def)
  qed
  show "Node_Next s (last (0 # level_nodes s l low)) l = Some (first_of (level_nodes s l high))"
    using linked_next [of s l "last (0 # level_nodes s l low)" "level_nodes s l high"] lk unfolding linked_append first_of_def by simp
qed

lemma level_nodes_mono: "set (level_nodes s (Suc l) xs) \<subseteq> set (level_nodes s l xs)"
  by (auto simp: level_nodes_def)

text \<open>The induction that all searches share: along a level, then down.\<close>

lemma walk_induct [consumes 1, case_names step down stop]:
  assumes "x \<in> set (0 # level_nodes s l low)"
    and step: "\<And>l pre x y post. 0 # level_nodes s l low = pre @ x # y # post \<Longrightarrow> P l y \<Longrightarrow> P l x"
    and down: "\<And>l. P l (last (0 # level_nodes s (Suc l) low)) \<Longrightarrow> P (Suc l) (last (0 # level_nodes s (Suc l) low))"
    and stop: "P 0 (last (0 # level_nodes s 0 low))"
  shows "P l x"
proof -
  have along: "P l x" if "P l (last (0 # level_nodes s l low))" "0 # level_nodes s l low = pre @ x # post" for l pre x post
    using that
  proof (induction post arbitrary: pre x)
    case Nil
    then show ?case by simp
  next
    case (Cons y post)
    have "P l y" by (rule Cons.IH [of "pre @ [x]"]) (use Cons.prems in simp_all)
    then show ?case by (rule step [OF Cons.prems(2)])
  qed
  have "P l (last (0 # level_nodes s l low))" for l
  proof (induction l)
    case (Suc l)
    have "last (0 # level_nodes s (Suc l) low) \<in> set (0 # level_nodes s l low)"
      using last_in_set [of "0 # level_nodes s (Suc l) low"] level_nodes_mono [of s l low] by auto
    then obtain pre post where "0 # level_nodes s l low = pre @ last (0 # level_nodes s (Suc l) low) # post" by (meson split_list)
    from down [OF along [OF Suc this]] show ?case .
  qed (rule stop)
  moreover obtain pre post where "0 # level_nodes s l low = pre @ x # post" using assms(1) by (meson split_list)
  ultimately show ?thesis using along by blast
qed

lemma represents_height: "represents_list compare valid s ids \<Longrightarrow> x \<in> set ids \<Longrightarrow> 1 \<le> node_height s x \<and> node_height s x \<le> sl_max_height s"
  unfolding represents_list_def by blast

lemma level_0: "represents_list compare valid s (low @ high) \<Longrightarrow> level_nodes s 0 high = high" "represents_list compare valid s (low @ high) \<Longrightarrow> level_nodes s 0 low = low"
  using represents_height [of compare valid s "low @ high"] by (fastforce simp: level_nodes_def intro!: filter_True)+

lemma high_behind:
  assumes "represents_list compare valid s (low @ high)" "\<forall>x \<in> set high. \<not> compare (key_of s x) key < 0"
  shows "KeyIsAfterNode compare s key (first_of (level_nodes s l high)) = Some False"
proof (cases "level_nodes s l high")
  case (Cons y ys)
  then have "y \<in> set (level_nodes s l high)" by simp
  then have "y \<in> set high" by (simp add: level_nodes_def)
  then show ?thesis using Cons assms Node_key_represents [OF assms(1), of y] by (simp add: KeyIsAfterNode_def first_of_def)
qed (simp add: KeyIsAfterNode_def first_of_def)

lemma search_ge_ok:
  assumes rep: "represents_list compare valid s (low @ high)"
    and before: "\<forall>x \<in> set low. compare (key_of s x) key < 0" and behind: "\<forall>x \<in> set high. \<not> compare (key_of s x) key < 0"
  shows "x \<in> set (0 # level_nodes s l low) \<Longrightarrow> l < length prev \<Longrightarrow> l < kMaxHeight \<Longrightarrow>
    \<exists>prev'. search_ge compare s key x l prev = Some (first_of high, prev') \<and> length prev' = length prev \<and>
      (\<forall>i \<le> l. prev' ! i = Some (last (0 # level_nodes s i low))) \<and> (\<forall>i > l. i < length prev \<longrightarrow> prev' ! i = prev ! i)"
proof (induction l x arbitrary: prev rule: walk_induct [consumes 1])
  case (step l pre x y post)
  have n: "Node_Next s x l = Some (Some y)" "y \<in> set low" using walk_next(1) [OF rep step(4) step(1)] by simp_all
  then have "Node_key s y = Some (key_of s y)" using Node_key_represents [OF rep] by simp
  then have "search_ge compare s key x l prev = search_ge compare s key y l prev"
    using n before by (subst search_ge.simps) (simp add: KeyIsAfterNode_def)
  then show ?case using step(2) [OF step(3,4)] by simp
next
  case (down l)
  let ?x = "last (0 # level_nodes s (Suc l) low)"
  obtain prev' where prev': "search_ge compare s key ?x l (prev[Suc l := Some ?x]) = Some (first_of high, prev')" "length prev' = length prev"
    "\<forall>i \<le> l. prev' ! i = Some (last (0 # level_nodes s i low))"
    "\<forall>i > l. i < length prev \<longrightarrow> prev' ! i = prev[Suc l := Some ?x] ! i"
    using down(1) [of "prev[Suc l := Some ?x]"] down(2,3) by auto
  have "search_ge compare s key ?x (Suc l) prev = Some (first_of high, prev')"
    using walk_next(2) [OF rep down(3)] high_behind [OF rep behind] prev'(1) by (subst search_ge.simps) simp
  moreover have "\<forall>i \<le> Suc l. prev' ! i = Some (last (0 # level_nodes s i low))"
    using prev'(3,4) down(2) by (auto simp: le_Suc_eq)
  moreover have "\<forall>i > Suc l. i < length prev \<longrightarrow> prev' ! i = prev ! i" using prev'(4) by auto
  ultimately show ?case using prev'(2) by blast
next
  case stop
  have "level_nodes s 0 high = high" by (rule level_0 [OF rep])
  then show ?case using walk_next(2) [OF rep stop(2)] high_behind [OF rep behind, of 0] stop(1)
    by (subst search_ge.simps) simp
qed

lemma search_lt_ok:
  assumes rep: "represents_list compare valid s (low @ high)"
    and before: "\<forall>x \<in> set low. compare (key_of s x) key < 0" and behind: "\<forall>x \<in> set high. \<not> compare (key_of s x) key < 0"
  shows "x \<in> set (0 # level_nodes s l low) \<Longrightarrow> l < kMaxHeight \<Longrightarrow> search_lt compare s key x l = Some (last (0 # low))"
proof (induction l x rule: walk_induct [consumes 1])
  case (step l pre x y post)
  have n: "Node_Next s x l = Some (Some y)" "y \<in> set low" using walk_next(1) [OF rep step(3) step(1)] by simp_all
  then have "Node_key s y = Some (key_of s y)" using Node_key_represents [OF rep] by simp
  moreover have "compare (key_of s y) key < 0" using before n(2) by blast
  ultimately have "search_lt compare s key x l = search_lt compare s key y l" using n by (subst search_lt.simps) simp
  then show ?case using step(2) [OF step(3)] by simp
next
  case (down l)
  let ?x = "last (0 # level_nodes s (Suc l) low)"
  have "search_lt compare s key ?x (Suc l) = search_lt compare s key ?x l"
    using walk_next(2) [OF rep down(2)] high_behind [OF rep behind, of "Suc l"]
    by (subst search_lt.simps) (auto simp: KeyIsAfterNode_def not_less split: option.splits)
  then show ?case using down by simp
next
  case stop
  have "search_lt compare s key (last (0 # level_nodes s 0 low)) 0 = Some (last (0 # level_nodes s 0 low))"
    using walk_next(2) [OF rep stop] high_behind [OF rep behind, of 0]
    by (subst search_lt.simps) (auto simp: KeyIsAfterNode_def not_less split: option.splits)
  then show ?case unfolding level_0(2) [OF rep] .
qed

lemma search_last_ok:
  assumes rep: "represents_list compare valid s ids"
  shows "x \<in> set (0 # level_nodes s l ids) \<Longrightarrow> l < kMaxHeight \<Longrightarrow> search_last s x l = Some (last (0 # ids))"
proof (induction l x rule: walk_induct [consumes 1])
  case (step l pre x y post)
  have "Node_Next s x l = Some (Some y)" using walk_next(1) [of compare valid s ids "[]" l] rep step(1,3) by simp
  then have "search_last s x l = search_last s y l" by (subst search_last.simps) simp
  then show ?case using step(2) [OF step(3)] by simp
next
  case (down l)
  have "Node_Next s (last (0 # level_nodes s (Suc l) ids)) (Suc l) = Some None"
    using walk_next(2) [of compare valid s ids "[]" "Suc l"] rep down(2) by (simp add: level_nodes_def first_of_def)
  then show ?case using down by (subst search_last.simps) simp
next
  case stop
  have "Node_Next s (last (0 # level_nodes s 0 ids)) 0 = Some None"
    using walk_next(2) [of compare valid s ids "[]" 0] rep stop by (simp add: level_nodes_def first_of_def)
  moreover have "level_nodes s 0 ids = ids" using level_0(2) [of compare valid s ids "[]"] rep by simp
  ultimately show ?case by (subst search_last.simps) simp
qed

section \<open>Inserting\<close>

text \<open>Setting a link changes that link only.\<close>

definition same_shape :: "SkipList \<Rightarrow> SkipList \<Rightarrow> bool" where
  "same_shape s s' \<longleftrightarrow> length (sl_nodes s') = length (sl_nodes s) \<and> sl_max_height s' = sl_max_height s \<and> sl_rnd s' = sl_rnd s \<and>
     (\<forall>y < length (sl_nodes s). key_of s' y = key_of s y \<and> node_height s' y = node_height s y)"

lemma same_shape_trans: "same_shape s s1 \<Longrightarrow> same_shape s1 s2 \<Longrightarrow> same_shape s s2"
  by (simp add: same_shape_def)

lemma SetNext_ok:
  assumes "x < length (sl_nodes s)" "n < node_height s x"
  obtains s' where "SetNext x n v s = Some s'" "same_shape s s'"
    "\<forall>y l. Node_Next s' y l = (if y = x \<and> l = n then Some v else Node_Next s y l)"
proof -
  obtain s' where s': "SetNext x n v s = Some s'" using assms by (simp add: SetNext_def node_height_def)
  have "same_shape s s'"
    using s' by (auto simp: SetNext_def same_shape_def key_of_def node_height_def nth_list_update split: if_splits)
  moreover have "Node_Next s' y l = (if y = x \<and> l = n then Some v else Node_Next s y l)" for y l
    using s' by (auto simp: SetNext_def Node_Next_def nth_list_update split: if_splits)
  ultimately show ?thesis using that s' by blast
qed

lemma link_levels_ok:
  assumes "distinct is" "x < length (sl_nodes s)"
    "\<And>i. i \<in> set is \<Longrightarrow> i < length prev \<and> prev ! i = Some (p i) \<and> p i < x \<and> i < node_height s (p i) \<and> i < node_height s x"
  shows "\<exists>s'. link_levels x prev is s = Some s' \<and> same_shape s s' \<and>
    (\<forall>y l. Node_Next s' y l =
       (if l \<in> set is then if y = x then Node_Next s (p l) l else if y = p l then Some (Some x) else Node_Next s y l else Node_Next s y l))"
  using assms
proof (induction "is" arbitrary: s)
  case Nil
  then show ?case by (simp add: same_shape_def)
next
  case (Cons i "is")
  have i: "i < length prev" "prev ! i = Some (p i)" "p i < x" "i < node_height s (p i)" "i < node_height s x" "p i < length (sl_nodes s)"
    using Cons.prems(3) [of i] Cons.prems(2) by auto
  obtain nxt where nxt: "Node_Next s (p i) i = Some nxt" using i by (simp add: Node_Next_def node_height_def)
  obtain s1 where s1: "SetNext x i nxt s = Some s1" "same_shape s s1"
    "\<forall>y l. Node_Next s1 y l = (if y = x \<and> l = i then Some nxt else Node_Next s y l)"
    by (rule SetNext_ok [OF Cons.prems(2) i(5)])
  have "p i < length (sl_nodes s1)" "i < node_height s1 (p i)" using s1(2) i by (simp_all add: same_shape_def)
  then obtain s2 where s2: "SetNext (p i) i (Some x) s1 = Some s2" "same_shape s1 s2"
    "\<forall>y l. Node_Next s2 y l = (if y = p i \<and> l = i then Some (Some x) else Node_Next s1 y l)"
    by (rule SetNext_ok)
  have sh: "same_shape s s2" by (rule same_shape_trans [OF s1(2) s2(2)])
  have "\<exists>s'. link_levels x prev is s2 = Some s' \<and> same_shape s2 s' \<and>
    (\<forall>y l. Node_Next s' y l =
       (if l \<in> set is then if y = x then Node_Next s2 (p l) l else if y = p l then Some (Some x) else Node_Next s2 y l else Node_Next s2 y l))"
  proof (rule Cons.IH)
    show "distinct is" "x < length (sl_nodes s2)" using Cons.prems(1,2) sh by (simp_all add: same_shape_def)
    fix j assume "j \<in> set is"
    then have j: "j < length prev \<and> prev ! j = Some (p j) \<and> p j < x \<and> j < node_height s (p j) \<and> j < node_height s x"
      using Cons.prems(3) by simp
    then have "p j < length (sl_nodes s)" using Cons.prems(2) by simp
    then show "j < length prev \<and> prev ! j = Some (p j) \<and> p j < x \<and> j < node_height s2 (p j) \<and> j < node_height s2 x"
      using j sh Cons.prems(2) by (simp add: same_shape_def)
  qed
  then obtain s' where s': "link_levels x prev is s2 = Some s'" "same_shape s2 s'"
    "\<And>y l. Node_Next s' y l =
       (if l \<in> set is then if y = x then Node_Next s2 (p l) l else if y = p l then Some (Some x) else Node_Next s2 y l else Node_Next s2 y l)"
    by blast
  have "link_levels x prev (i # is) s = Some s'" using i nxt s1(1) s2(1) s'(1) by simp
  moreover have "Node_Next s' y l =
       (if l \<in> set (i # is) then if y = x then Node_Next s (p l) l else if y = p l then Some (Some x) else Node_Next s y l else Node_Next s y l)" for y l
    using Cons.prems(1) i(3) nxt unfolding s'(3) s2(3) [rule_format] s1(3) [rule_format] by auto
  ultimately show ?case using same_shape_trans [OF sh s'(2)] by blast
qed

lemma linked_insert:
  assumes lk: "linked s l h (xs @ ys)" and d: "distinct (h # xs @ ys)" "x \<notin> set (h # xs @ ys)"
    and p: "Node_Next s' (last (h # xs)) l = Some (Some x)" "Node_Next s' x l = Node_Next s (last (h # xs)) l"
    and others: "\<And>y. y \<noteq> x \<Longrightarrow> y \<noteq> last (h # xs) \<Longrightarrow> Node_Next s' y l = Node_Next s y l"
  shows "linked s' l h (xs @ x # ys)"
proof -
  have xs: "link_path s l h xs" and ys: "linked s l (last (h # xs)) ys" using lk by (simp_all only: linked_append)
  have dl: "distinct (h # xs)" using d(1) by simp
  have "y \<noteq> last (h # xs)" if "y \<in> set (butlast (h # xs))" for y
    using that dl append_butlast_last_id [of "h # xs"] by (metis distinct_append disjoint_iff list.distinct(1) list.set_intros(1))
  then have "Node_Next s' y l = Node_Next s y l" if "y \<in> set (butlast (h # xs))" for y
    using others [of y] in_set_butlastD [OF that] d(2) that by auto
  then have "link_path s' l h xs" using xs link_path_cong [of h xs s' l s] by blast
  moreover have "linked s' l x ys"
  proof (cases ys)
    case Nil
    then show ?thesis using ys p(2) by (simp add: linked_def)
  next
    case (Cons y ys')
    have "linked s l y ys'" "Node_Next s (last (h # xs)) l = Some (Some y)" using ys Cons by (simp_all add: linked_def)
    moreover have "\<forall>z \<in> set (y # ys'). Node_Next s' z l = Node_Next s z l"
    proof
      fix z assume z: "z \<in> set (y # ys')"
      have "last (h # xs) \<in> set (h # xs)" by (rule last_in_set) simp
      then have "z \<noteq> last (h # xs)" "z \<noteq> x" using z d Cons by auto
      then show "Node_Next s' z l = Node_Next s z l" using others by blast
    qed
    ultimately have "linked s' l y ys'" "Node_Next s' x l = Some (Some y)" using linked_cong [of y ys' s' l s] p(2) by simp_all
    then show ?thesis using Cons by (simp add: linked_def)
  qed
  ultimately show ?thesis using p(1) unfolding linked_append linked_Cons by blast
qed

lemma fold_update: "i < length xs \<Longrightarrow> fold (\<lambda>i p. p[i := v]) [a..<b] xs ! i = (if a \<le> i \<and> i < b then v else xs ! i)"
  "length (fold (\<lambda>i p. p[i := v]) [a..<b] xs) = length xs"
proof -
  show len: "length (fold (\<lambda>i p. p[i := v]) [a..<b] xs) = length xs" for b by (induction b) auto
  show "i < length xs \<Longrightarrow> fold (\<lambda>i p. p[i := v]) [a..<b] xs ! i = (if a \<le> i \<and> i < b then v else xs ! i)"
    by (induction b) (auto simp: nth_list_update len less_Suc_eq)
qed

lemma FindGreaterOrEqual_ok:
  assumes rep: "represents_list compare valid s (low @ high)"
    and before: "\<forall>x \<in> set low. compare (key_of s x) key < 0" and behind: "\<forall>x \<in> set high. \<not> compare (key_of s x) key < 0"
  obtains prev where "FindGreaterOrEqual compare s key = Some (first_of high, prev)" "length prev = kMaxHeight"
    "\<forall>i < sl_max_height s. prev ! i = Some (last (0 # level_nodes s i low))"
proof -
  have m: "1 \<le> sl_max_height s" "sl_max_height s \<le> kMaxHeight" using rep by (simp_all add: represents_list_def)
  have "sl_max_height s - 1 < kMaxHeight" using m by simp
  then obtain prev where "search_ge compare s key 0 (sl_max_height s - 1) (replicate kMaxHeight None) = Some (first_of high, prev)"
    "length prev = kMaxHeight" "\<forall>i \<le> sl_max_height s - 1. prev ! i = Some (last (0 # level_nodes s i low))"
    using search_ge_ok [OF assms, of 0 "sl_max_height s - 1" "replicate kMaxHeight None"] by auto
  then show ?thesis using that [of prev] m(1) by (auto simp: FindGreaterOrEqual_def)
qed

lemma SkipList_Insert_ok:
  assumes rep: "represents_list compare valid s (low @ high)" and key: "valid key"
    and before: "\<forall>x \<in> set low. compare (key_of s x) key < 0"
    and behind: "\<forall>x \<in> set high. \<not> compare (key_of s x) key < 0 \<and> compare key (key_of s x) < 0"
  obtains s' where "SkipList_Insert compare key s = Some s'" "represents_list compare valid s' (low @ length (sl_nodes s) # high)"
    "\<forall>y < length (sl_nodes s). key_of s' y = key_of s y" "key_of s' (length (sl_nodes s)) = key"
    "length (sl_nodes s') = Suc (length (sl_nodes s))"
proof -
  let ?x = "length (sl_nodes s)" and ?p = "\<lambda>i. last (0 # level_nodes s i low)"
  obtain prev where prev: "FindGreaterOrEqual compare s key = Some (first_of high, prev)" "length prev = kMaxHeight"
    "\<forall>i < sl_max_height s. prev ! i = Some (?p i)"
    using FindGreaterOrEqual_ok [OF rep before] behind by blast
  obtain h rnd where hr: "RandomHeight (sl_rnd s) = (h, rnd)" by fastforce
  have h: "1 \<le> h" "h \<le> kMaxHeight" using RandomHeight_bounds [of "sl_rnd s"] hr by auto
  define prev1 where "prev1 = (if h > sl_max_height s then fold (\<lambda>i p. p[i := Some 0]) [sl_max_height s..<h] prev else prev)"
  define s1 where "s1 = s\<lparr>sl_nodes := sl_nodes s @ [\<lparr>nd_key = key, nd_next = replicate h None\<rparr>],
      sl_max_height := max h (sl_max_height s), sl_rnd := rnd\<rparr>"
  have ids: "set (low @ high) = {1..<?x}" "distinct (low @ high)" "0 < ?x" "sl_max_height s \<le> kMaxHeight" "1 \<le> sl_max_height s"
    "node_height s 0 = kMaxHeight" using rep by (auto simp: represents_list_def)
  have hmax: "node_height s y \<le> sl_max_height s" "1 \<le> node_height s y" if "y \<in> set (low @ high)" for y
    using represents_height [OF rep that] by simp_all
  have old: "key_of s1 y = key_of s y" "node_height s1 y = node_height s y" "Node_Next s1 y l = Node_Next s y l" if "y < ?x" for y l
    using that by (simp_all add: s1_def key_of_def node_height_def Node_Next_def nth_append)
  have new: "key_of s1 ?x = key" "node_height s1 ?x = h" "length (sl_nodes s1) = Suc ?x"
    by (simp_all add: s1_def key_of_def node_height_def nth_append)
  have prev1: "prev1 ! i = Some (?p i)" "length prev1 = kMaxHeight" if "i < h" for i
  proof -
    have "level_nodes s i low = []" if "sl_max_height s \<le> i" using hmax that by (force simp: level_nodes_def filter_empty_conv)
    then show "prev1 ! i = Some (?p i)" "length prev1 = kMaxHeight"
      using prev(2,3) that h(2) by (auto simp: prev1_def fold_update not_le)
  qed
  have p: "?p i < ?x \<and> i < node_height s1 (?p i)" if "i < h" for i
  proof -
    have "?p i = 0 \<or> ?p i \<in> set (level_nodes s i low)" using last_in_set [of "0 # level_nodes s i low"] by auto
    then show ?thesis
    proof
      assume z: "?p i = 0"
      show ?thesis unfolding z using old(2) [OF ids(3)] ids(3,6) h(2) that by simp
    next
      assume m: "?p i \<in> set (level_nodes s i low)"
      then have "?p i \<in> set (low @ high)" by (simp add: level_nodes_def)
      then have "?p i \<in> {1..<?x}" by (simp only: ids(1))
      then have "?p i < ?x" by (simp only: atLeastLessThan_iff)
      then show ?thesis using old(2) [of "?p i"] m by (simp add: level_nodes_def)
    qed
  qed
  have "\<exists>s'. link_levels ?x prev1 [0..<h] s1 = Some s' \<and> same_shape s1 s' \<and>
    (\<forall>y l. Node_Next s' y l = (if l \<in> set [0..<h] then
       if y = ?x then Node_Next s1 (?p l) l else if y = ?p l then Some (Some ?x) else Node_Next s1 y l else Node_Next s1 y l))"
    by (rule link_levels_ok) (use new p prev1 h in auto)
  then obtain s' where s': "link_levels ?x prev1 [0..<h] s1 = Some s'" "same_shape s1 s'"
    "\<And>y l. Node_Next s' y l = (if l < h then if y = ?x then Node_Next s1 (?p l) l else if y = ?p l then Some (Some ?x) else Node_Next s1 y l
       else Node_Next s1 y l)" by auto
  have ins: "SkipList_Insert compare key s = Some s'"
    using prev(1) hr s'(1) by (simp add: SkipList_Insert_def s1_def prev1_def Let_def)
  have key': "key_of s' y = key_of s y" "node_height s' y = node_height s y" if "y < ?x" for y
    using s'(2) old [OF that] that new(3) by (simp_all add: same_shape_def)
  have x': "key_of s' ?x = key" "node_height s' ?x = h" "length (sl_nodes s') = Suc ?x" using s'(2) new by (simp_all add: same_shape_def)
  have m': "sl_max_height s' = max h (sl_max_height s)" using s'(2) by (simp add: same_shape_def s1_def)
  have lev: "level_nodes s' l (low @ ?x # high) = level_nodes s l low @ (if l < h then [?x] else []) @ level_nodes s l high" for l
  proof -
    have "node_height s' y = node_height s y" if "y \<in> set (low @ high)" for y using key'(2) [of y] ids(1) that by auto
    then have "filter (\<lambda>y. l < node_height s' y) low = filter (\<lambda>y. l < node_height s y) low"
      "filter (\<lambda>y. l < node_height s' y) high = filter (\<lambda>y. l < node_height s y) high" by (auto intro!: filter_cong)
    then show ?thesis by (simp add: level_nodes_def x'(2))
  qed
  have lk: "linked s' l 0 (level_nodes s' l (low @ ?x # high))" if l: "l < kMaxHeight" for l
  proof -
    have o: "linked s l 0 (level_nodes s l low @ level_nodes s l high)" using rep l by (simp add: represents_list_def level_nodes_def)
    have sub: "set (0 # level_nodes s l low @ level_nodes s l high) \<subseteq> {0..<?x}" using ids(1,3) by (auto simp: level_nodes_def)
    have zero: "0 \<notin> set (low @ high)" unfolding ids(1) by simp
    have dd: "distinct (0 # level_nodes s l low @ level_nodes s l high)" using ids(2) zero by (auto simp: level_nodes_def)
    show ?thesis
    proof (cases "l < h")
      case True
      have pl: "?p l < ?x" using p [OF True] by simp
      have "linked s' l 0 (level_nodes s l low @ ?x # level_nodes s l high)"
      proof (rule linked_insert [OF o dd])
        show "?x \<notin> set (0 # level_nodes s l low @ level_nodes s l high)" using sub by auto
        show "Node_Next s' (?p l) l = Some (Some ?x)" using s'(3) [of "?p l" l] True pl by simp
        show "Node_Next s' ?x l = Node_Next s (?p l) l" using s'(3) [of ?x l] True old(3) [OF pl] by simp
        show "Node_Next s' y l = Node_Next s y l" if "y \<noteq> ?x" "y \<noteq> ?p l" for y
          using s'(3) [of y l] that True old(3) [of y l] by (cases "y < ?x") (auto simp: Node_Next_def s1_def)
      qed
      then show ?thesis using lev True by simp
    next
      case False
      have "\<forall>y \<in> set (0 # level_nodes s l low @ level_nodes s l high). Node_Next s' y l = Node_Next s y l"
        using sub s'(3) False old(3) by fastforce
      from linked_cong [OF this] show ?thesis using o False unfolding lev by simp
    qed
  qed
  have "represents_list compare valid s' (low @ ?x # high)"
    unfolding represents_list_def
  proof (intro conjI ballI allI impI)
    have "1 \<le> ?x" using ids(3) by linarith
    moreover have "set (low @ ?x # high) = insert ?x {1..<?x}" using ids(1) by auto
    ultimately show "set (low @ ?x # high) = {1..<length (sl_nodes s')}" unfolding x'(3) by (simp only: atLeastLessThanSuc if_True)
    show "distinct (low @ ?x # high)" using ids(1,2) by auto
    have ko: "key_of s' y = key_of s y" if "y \<in> set (low @ high)" for y using key'(1) [of y] ids(1) that by auto
    have "sorted_wrt (\<lambda>x y. compare (key_of s x) (key_of s y) < 0) (low @ high)" using rep by (simp add: represents_list_def)
    then show "sorted_wrt (\<lambda>x y. compare (key_of s' x) (key_of s' y) < 0) (low @ ?x # high)"
      using before behind ko x'(1) by (auto simp: sorted_wrt_append intro: sorted_wrt_mono_rel [rotated])
    show "valid (key_of s' y)" if "y \<in> set (low @ ?x # high)" for y
      using that ko x'(1) key rep by (auto simp: represents_list_def)
    show "node_height s' 0 = kMaxHeight" using key'(2) [of 0] ids(3,6) by simp
    show "1 \<le> node_height s' y" "node_height s' y \<le> sl_max_height s'" if "y \<in> set (low @ ?x # high)" for y
    proof -
      have "1 \<le> node_height s' y \<and> node_height s' y \<le> sl_max_height s'"
      proof (cases "y = ?x")
        case False
        then have m: "y \<in> set (low @ high)" using that by simp
        then have "y \<in> {1..<?x}" by (simp only: ids(1))
        then have "y < ?x" by (simp only: atLeastLessThan_iff)
        then show ?thesis using hmax [OF m] key'(2) m' by simp
      qed (use x'(2) h(1) m' in simp)
      then show "1 \<le> node_height s' y" "node_height s' y \<le> sl_max_height s'" by simp_all
    qed
    show "1 \<le> sl_max_height s'" "sl_max_height s' \<le> kMaxHeight" using m' h(2) ids(4,5) by simp_all
    show "0 < length (sl_nodes s')" using x'(3) by simp
  qed (rule lk)
  then show ?thesis using that ins key'(1) x'(1,3) by blast
qed

section \<open>The contract\<close>

text \<open>
  For an order on the keys, the skip list implements a sorted list: the contract of its comparator, and the operations on the list of
  keys. \<open>represents_list compare valid s ids\<close> is the abstraction, \<open>ids\<close> the nodes in order.
\<close>

locale key_order =
  fixes compare :: "slice \<Rightarrow> slice \<Rightarrow> int" and valid :: "slice \<Rightarrow> bool"
  assumes key_trans: "valid a \<Longrightarrow> valid b \<Longrightarrow> valid c \<Longrightarrow> compare a b < 0 \<Longrightarrow> compare b c < 0 \<Longrightarrow> compare a c < 0"
    and key_sym: "valid a \<Longrightarrow> valid b \<Longrightarrow> compare a b < 0 \<longleftrightarrow> compare b a > 0"
begin

lemma represents_split:
  assumes rep: "represents_list compare valid s ids" and key: "valid key"
  defines "low \<equiv> takeWhile (\<lambda>x. compare (key_of s x) key < 0) ids" and "high \<equiv> dropWhile (\<lambda>x. compare (key_of s x) key < 0) ids"
  shows "represents_list compare valid s (low @ high)" "\<forall>x \<in> set low. compare (key_of s x) key < 0"
    "\<forall>x \<in> set high. \<not> compare (key_of s x) key < 0"
proof -
  show "represents_list compare valid s (low @ high)" using rep by (simp add: low_def high_def)
  show "\<forall>x \<in> set low. compare (key_of s x) key < 0" by (auto simp: low_def dest: set_takeWhileD)
  show "\<forall>x \<in> set high. \<not> compare (key_of s x) key < 0"
  proof (cases high)
    case (Cons y ys)
    have y: "\<not> compare (key_of s y) key < 0" using Cons hd_dropWhile [of "\<lambda>x. compare (key_of s x) key < 0" ids] by (auto simp: high_def)
    have "sorted_wrt (\<lambda>x y. compare (key_of s x) (key_of s y) < 0) (low @ high)" and v: "\<forall>x \<in> set (low @ high). valid (key_of s x)"
      using rep by (simp_all add: low_def high_def represents_list_def)
    then have "compare (key_of s y) (key_of s x) < 0" if "x \<in> set ys" for x using that Cons by (simp add: sorted_wrt_append)
    then have "\<not> compare (key_of s x) key < 0" if "x \<in> set ys" for x
      using that y v Cons key_trans [of "key_of s y" "key_of s x" key] key by auto
    then show ?thesis using Cons y by auto
  qed simp
qed

lemma Seek_first:
  assumes "represents_list compare valid s ids" "valid key"
  shows "sl_Seek compare s key = Some (first_of (dropWhile (\<lambda>x. compare (key_of s x) key < 0) ids))"
  using FindGreaterOrEqual_ok [OF represents_split [OF assms]] by (auto simp: sl_Seek_def)

lemma Insert_sorted:
  assumes rep: "represents_list compare valid s ids" and key: "valid key" "\<forall>x \<in> set ids. compare (key_of s x) key \<noteq> 0"
  obtains s' where "SkipList_Insert compare key s = Some s'"
    "represents_list compare valid s' (takeWhile (\<lambda>x. compare (key_of s x) key < 0) ids @ length (sl_nodes s) #
      dropWhile (\<lambda>x. compare (key_of s x) key < 0) ids)"
    "\<forall>y < length (sl_nodes s). key_of s' y = key_of s y" "key_of s' (length (sl_nodes s)) = key"
proof -
  let ?low = "takeWhile (\<lambda>x. compare (key_of s x) key < 0) ids" and ?high = "dropWhile (\<lambda>x. compare (key_of s x) key < 0) ids"
  note split = represents_split [OF rep key(1)]
  have "compare key (key_of s x) < 0" if "x \<in> set ?high" for x
  proof -
    have "x \<in> set ids" using that by (rule set_dropWhileD)
    then have "valid (key_of s x)" "compare (key_of s x) key \<noteq> 0" using rep key(2) by (auto simp: represents_list_def)
    moreover have "\<not> compare (key_of s x) key < 0" using split(3) that by blast
    ultimately show ?thesis using key_sym [OF key(1), of "key_of s x"] by simp
  qed
  then have "\<forall>x \<in> set ?high. \<not> compare (key_of s x) key < 0 \<and> compare key (key_of s x) < 0" using split(3) by blast
  then show ?thesis using SkipList_Insert_ok [OF split(1) key(1) split(2)] that by blast
qed

lemma iterate_positions:
  assumes rep: "represents_list compare valid s ids" and i: "i < length ids"
  shows "sl_Next s (ids ! i) = Some (if Suc i < length ids then Some (ids ! Suc i) else None)"
    "sl_Prev compare s (ids ! i) = Some (if i = 0 then None else Some (ids ! (i - 1)))"
    "sl_SeekToFirst s = Some (Some (ids ! 0))" "sl_SeekToLast s = Some (Some (last ids))"
proof -
  let ?low = "take i ids" and ?high = "drop (Suc i) ids" and ?x = "ids ! i"
  have ids: "ids = ?low @ ?x # ?high" by (rule id_take_nth_drop [OF i])
  have m: "1 \<le> sl_max_height s" "sl_max_height s \<le> kMaxHeight" and all: "\<forall>l < kMaxHeight. linked s l 0 (level_nodes s l ids)"
    using rep by (simp_all add: represents_list_def)
  have "level_nodes s 0 ids = ids" using level_0(2) [of compare valid s ids "[]"] rep by simp
  then have lk: "linked s 0 0 ids" using all by (metis kMaxHeight_def zero_less_numeral)
  have nz: "0 \<notin> set ids" and st: "sorted_wrt (\<lambda>x y. compare (key_of s x) (key_of s y) < 0) ids" "\<forall>x \<in> set ids. valid (key_of s x)"
    using rep by (simp_all add: represents_list_def)
  have "linked s 0 ?x ?high" by (rule linked_suffix [OF lk, where pre = "0 # ?low"]) (use ids in simp)
  then show "sl_Next s ?x = Some (if Suc i < length ids then Some (ids ! Suc i) else None)"
  proof (cases "Suc i < length ids")
    case True
    have "?high = ids ! Suc i # drop (Suc (Suc i)) ids" by (rule Cons_nth_drop_Suc [OF True, symmetric])
    then show ?thesis using linked_next [OF \<open>linked s 0 ?x ?high\<close>] True by (simp add: sl_Next_def)
  next
    case False
    then show ?thesis using linked_next [OF \<open>linked s 0 ?x ?high\<close>] by (simp add: sl_Next_def)
  qed
  show "sl_SeekToFirst s = Some (Some (ids ! 0))"
    using linked_next [OF lk] i by (cases ids) (simp_all add: sl_SeekToFirst_def)
  have "sl_max_height s - 1 < kMaxHeight" using m by simp
  then have "FindLast s = Some (last (0 # ids))" using search_last_ok [OF rep, of 0] by (simp add: FindLast_def)
  moreover have ne: "ids \<noteq> []" using i by auto
  moreover have "last ids \<noteq> 0" using last_in_set [OF ne] nz by metis
  ultimately show "sl_SeekToLast s = Some (Some (last ids))" by (simp add: sl_SeekToLast_def not_head_def)
  have v: "valid (key_of s ?x)" using st(2) i by simp
  have lows: "\<forall>y \<in> set ?low. compare (key_of s y) (key_of s ?x) < 0"
    using st(1) i by (auto simp: sorted_wrt_iff_nth_less in_set_conv_nth)
  have irrefl: "\<not> compare (key_of s ?x) (key_of s ?x) < 0" using key_sym [OF v v] by linarith
  have highs: "\<forall>y \<in> set (?x # ?high). \<not> compare (key_of s y) (key_of s ?x) < 0"
  proof
    fix y assume "y \<in> set (?x # ?high)"
    then consider "y = ?x" | "y \<in> set ?high" by auto
    then show "\<not> compare (key_of s y) (key_of s ?x) < 0"
    proof cases
      case 2
      then have "compare (key_of s ?x) (key_of s y) < 0" using st(1) by (subst (asm) ids) (simp add: sorted_wrt_append)
      then show ?thesis using key_sym [of "key_of s y" "key_of s ?x"] st(2) in_set_dropD [OF 2] v by force
    qed (use irrefl in simp)
  qed
  have rep': "represents_list compare valid s (?low @ ?x # ?high)" using rep by (simp flip: ids)
  have "FindLessThan compare s (key_of s ?x) = Some (last (0 # ?low))"
    using search_lt_ok [OF rep' lows highs, of 0] \<open>sl_max_height s - 1 < kMaxHeight\<close> by (simp add: FindLessThan_def)
  moreover have "not_head (last (0 # ?low)) = (if i = 0 then None else Some (ids ! (i - 1)))"
  proof (cases "i = 0")
    case False
    then have "last (0 # ?low) = ids ! (i - 1)" using i ne by (simp add: last_conv_nth min_def)
    moreover have "ids ! (i - 1) \<in> set ids" using i by simp
    then have "ids ! (i - 1) \<noteq> 0" using nz by metis
    ultimately show ?thesis using False unfolding not_head_def by simp
  qed (simp add: not_head_def)
  ultimately show "sl_Prev compare s ?x = Some (if i = 0 then None else Some (ids ! (i - 1)))"
    using Node_key_represents [OF rep, of ?x] i by (simp add: sl_Prev_def)
qed

end

end
