(* ===== verification/Ldb_Memtable.thy ===== *)
theory Ldb_Memtable
  imports Ldb_Skiplist Ldb_Env
begin

text \<open>
  The memory table (\<^verbatim>\<open>db/memtable.cc\<close>): a skip list of entries, each the internal key and the value as length-prefixed strings. A
  pointer to an entry is the memory from there on, as a list of bytes. \<open>None\<close> is an access outside of it, and what the skip list
  returns \<open>None\<close> for. Reference counts and the arena's accounting are not modelled.
\<close>

section \<open>Model\<close>

text \<open>The string at a pointer, with what follows it: the length is in the five bytes from the pointer on.\<close>

definition prefixed_at :: "byte list \<Rightarrow> (slice \<times> byte list) option" where
  "prefixed_at data =
     (case GetVarint32Ptr (take 5 data) of
        None \<Rightarrow> None
      | Some (len, q) \<Rightarrow>
          let p = drop (length (take 5 data) - length q) data
          in if unat len \<le> length p then Some (take (unat len) p, drop (unat len) p) else None)"

text \<open>For a pointer that is not at an entry the comparator is undefined, here 0; the table has entries only.\<close>

definition KeyComparator :: "Comparator \<Rightarrow> byte list \<Rightarrow> byte list \<Rightarrow> int" where
  "KeyComparator user aptr bptr =
     (case (prefixed_at aptr, prefixed_at bptr) of
        (Some (a, _), Some (b, _)) \<Rightarrow> Compare (InternalKeyComparator user) a b
      | _ \<Rightarrow> 0)"

definition EncodeKey :: "slice \<Rightarrow> byte list" where
  "EncodeKey target = PutVarint32 [] (of_nat (length target)) @ target"

definition memtable_entry :: "64 word \<Rightarrow> ValueType \<Rightarrow> slice \<Rightarrow> slice \<Rightarrow> byte list" where
  "memtable_entry s type key v =
     EncodeVarint32 (of_nat (length key + 8)) @ key @ EncodeFixed64 (push_bit 8 s OR type_code type) @ EncodeVarint32 (of_nat (length v)) @ v"

definition MemTable_Add :: "Comparator \<Rightarrow> 64 word \<Rightarrow> ValueType \<Rightarrow> slice \<Rightarrow> slice \<Rightarrow> SkipList \<Rightarrow> SkipList option" where
  "MemTable_Add user s type key v table = SkipList_Insert (KeyComparator user) (memtable_entry s type key v) table"

text \<open>The result of \<open>Get\<close>: what it returns, the value and the status if it sets them.\<close>

definition MemTable_Get :: "Comparator \<Rightarrow> LookupKey \<Rightarrow> SkipList \<Rightarrow> (bool \<times> slice option \<times> status option) option" where
  "MemTable_Get user key table =
     do {
       iter \<leftarrow> sl_Seek (KeyComparator user) table (memtable_key key);
       case iter of
         None \<Rightarrow> Some (False, None, None)
       | Some node \<Rightarrow>
           do {
             entry \<leftarrow> Node_key table node;
             (ikey, rest) \<leftarrow> prefixed_at entry;
             if Compare user (take (length ikey - 8) ikey) (lookup_user_key key) = 0 then
               let tag = DecodeFixed64 (drop (length ikey - 8) ikey)
               in if tag AND 0xFF = type_code kTypeValue then map_option (\<lambda>(v, _). (True, Some v, None)) (prefixed_at rest)
                  else if tag AND 0xFF = type_code kTypeDeletion then Some (True, None, Some (NotFound ''''))
                  else Some (False, None, None)
             else Some (False, None, None)
           }
     }"

text \<open>The table's iterator.\<close>

definition mem_Seek :: "Comparator \<Rightarrow> SkipList \<Rightarrow> slice \<Rightarrow> nat option option" where
  "mem_Seek user table k = sl_Seek (KeyComparator user) table (EncodeKey k)"

definition mem_key :: "SkipList \<Rightarrow> nat \<Rightarrow> slice option" where
  "mem_key table node = Option.bind (Node_key table node) (\<lambda>e. map_option fst (prefixed_at e))"

definition mem_value :: "SkipList \<Rightarrow> nat \<Rightarrow> slice option" where
  "mem_value table node =
     do {
       e \<leftarrow> Node_key table node;
       (_, rest) \<leftarrow> prefixed_at e;
       map_option fst (prefixed_at rest)
     }"

section \<open>Entries\<close>

definition entry_of :: "slice \<times> slice \<Rightarrow> byte list" where
  "entry_of e = PutLengthPrefixedSlice [] (fst e) @ PutLengthPrefixedSlice [] (snd e)"

definition entry_valid :: "byte list \<Rightarrow> bool" where
  "entry_valid x \<longleftrightarrow> (\<exists>k rest. x = PutLengthPrefixedSlice [] k @ rest \<and> 8 \<le> length k \<and> length k < 2 ^ 32)"

lemma prefixed_at_put: "length k < 2 ^ 32 \<Longrightarrow> prefixed_at (PutLengthPrefixedSlice [] k @ rest) = Some (k, rest)"
proof -
  assume k: "length k < 2 ^ 32"
  let ?V = "EncodeVarint32 (of_nat (length k))"
  have V: "length ?V \<le> 5" by (rule length_EncodeVarint32)
  have t: "take 5 (?V @ k @ rest) = ?V @ take (5 - length ?V) (k @ rest)" using V by simp
  have g: "GetVarint32Ptr (take 5 (?V @ k @ rest)) = Some (of_nat (length k), take (5 - length ?V) (k @ rest))"
    unfolding t by (rule v32.get_put) simp
  have d: "length (take 5 (?V @ k @ rest)) - length (take (5 - length ?V) (k @ rest)) = length ?V" unfolding t by simp
  have u: "unat (of_nat (length k) :: 32 word) = length k" using k by (simp add: unat_of_nat)
  have p: "PutLengthPrefixedSlice [] k @ rest = ?V @ k @ rest" by (simp add: PutLengthPrefixedSlice_def PutVarint32_def)
  show ?thesis unfolding prefixed_at_def p g option.case prod.case d by (simp add: u Let_def)
qed

lemma memtable_entry_of:
  "memtable_entry s t k v = entry_of (AppendInternalKey [] \<lparr>pk_user_key = k, pk_sequence = s, pk_type = t\<rparr>, v)"
  by (simp add: memtable_entry_def entry_of_def AppendInternalKey_def PutFixed64_def PutLengthPrefixedSlice_def PutVarint32_def
      PackSequenceAndType_def)

text \<open>The buffer that \<open>Add\<close> allocates has exactly the entry's size.\<close>

lemma memtable_entry_length:
  assumes "length k + 8 < 2 ^ 32" "length v < 2 ^ 32"
  shows "length (memtable_entry s t k v) = VarintLength (of_nat (length k + 8)) + (length k + 8) + VarintLength (of_nat (length v)) + length v"
proof -
  have len: "length (EncodeVarint32 (of_nat n)) = VarintLength (of_nat n)" if "n < 2 ^ 32" for n
    using that by (simp add: VarintLength_exact EncodeVarint32_wire EncodeVarint64_wire unat_of_nat)
  show ?thesis using len [OF assms(1)] len [OF assms(2)] by (simp add: memtable_entry_def)
qed

lemma lookup_entry: "memtable_key (new_LookupKey u s) = PutLengthPrefixedSlice [] (lookup_internal_key (new_LookupKey u s))"
  unfolding lookup_key_parts by (simp add: memtable_key_def new_LookupKey_def PutLengthPrefixedSlice_def PutVarint32_def AppendInternalKey_def
      PutFixed64_def Let_def)

section \<open>The table as a sorted list of entries\<close>

lemma KeyComparator_entries:
  assumes "length a < 2 ^ 32" "length b < 2 ^ 32"
  shows "KeyComparator user (PutLengthPrefixedSlice [] a @ x) (PutLengthPrefixedSlice [] b @ y) = Compare (InternalKeyComparator user) a b"
  using assms by (simp add: KeyComparator_def prefixed_at_put)

sublocale user_comparator \<subseteq> mem: key_order "KeyComparator cmp" entry_valid
proof
  fix a b c assume "entry_valid a" "entry_valid b"
  then obtain k l x y where a: "a = PutLengthPrefixedSlice [] k @ x" "8 \<le> length k" "length k < 2 ^ 32"
    and b: "b = PutLengthPrefixedSlice [] l @ y" "8 \<le> length l" "length l < 2 ^ 32" by (auto simp: entry_valid_def)
  show "KeyComparator cmp a b < 0 \<longleftrightarrow> KeyComparator cmp b a > 0"
    using internal.compare_sym [OF a(2) b(2)] a b by (simp add: KeyComparator_entries)
  assume "entry_valid c" and less: "KeyComparator cmp a b < 0" "KeyComparator cmp b c < 0"
  then obtain m z where c: "c = PutLengthPrefixedSlice [] m @ z" "8 \<le> length m" "length m < 2 ^ 32" by (auto simp: entry_valid_def)
  show "KeyComparator cmp a c < 0"
    using internal.compare_trans [OF a(2) b(2) c(2)] less a b c by (simp add: KeyComparator_entries)
qed

definition mem_holds :: "Comparator \<Rightarrow> SkipList \<Rightarrow> (slice \<times> slice) list \<Rightarrow> bool" where
  "mem_holds user table es \<longleftrightarrow>
     (\<exists>ids. represents_list (KeyComparator user) entry_valid table ids \<and> map (key_of table) ids = map entry_of es) \<and>
     (\<forall>e \<in> set es. 8 \<le> length (fst e) \<and> length (fst e) < 2 ^ 32 \<and> length (snd e) < 2 ^ 32)"

lemma mem_holds_new: "mem_holds user new_SkipList []"
  using new_SkipList_represents by (simp add: mem_holds_def)

lemma entry_compare:
  "length (fst e) < 2 ^ 32 \<Longrightarrow> length k < 2 ^ 32 \<Longrightarrow>
   KeyComparator user (entry_of e) (PutLengthPrefixedSlice [] k @ x) = Compare (InternalKeyComparator user) (fst e) k"
  using KeyComparator_entries [of "fst e" k user "PutLengthPrefixedSlice [] (snd e)" x] by (simp add: entry_of_def)

text \<open>A search splits the nodes as it splits the entries.\<close>

lemma split_nodes:
  assumes "map f ids = map g es" "\<And>e. e \<in> set es \<Longrightarrow> P (g e) \<longleftrightarrow> Q e"
  shows "map f (takeWhile (\<lambda>x. P (f x)) ids) = map g (takeWhile Q es)" "map f (dropWhile (\<lambda>x. P (f x)) ids) = map g (dropWhile Q es)"
proof -
  have "takeWhile (\<lambda>e. P (g e)) es = takeWhile Q es" "dropWhile (\<lambda>e. P (g e)) es = dropWhile Q es"
    using assms(2) by (auto intro!: takeWhile_cong dropWhile_cong)
  then show "map f (takeWhile (\<lambda>x. P (f x)) ids) = map g (takeWhile Q es)" "map f (dropWhile (\<lambda>x. P (f x)) ids) = map g (dropWhile Q es)"
    using assms(1) takeWhile_map [of P f ids] takeWhile_map [of P g es] dropWhile_map [of P f ids] dropWhile_map [of P g es]
    by (simp_all add: comp_def)
qed

context user_comparator
begin

lemma Add_holds:
  assumes holds: "mem_holds cmp table es" and len: "length k + 8 < 2 ^ 32" "length v < 2 ^ 32"
    and ik: "ik = AppendInternalKey [] \<lparr>pk_user_key = k, pk_sequence = s, pk_type = t\<rparr>"
    and fresh: "\<forall>e \<in> set es. Compare (InternalKeyComparator cmp) (fst e) ik \<noteq> 0"
  obtains table' where "MemTable_Add cmp s t k v table = Some table'"
    "mem_holds cmp table' (takeWhile (\<lambda>e. Compare (InternalKeyComparator cmp) (fst e) ik < 0) es @ (ik, v) #
       dropWhile (\<lambda>e. Compare (InternalKeyComparator cmp) (fst e) ik < 0) es)"
proof -
  let ?Q = "\<lambda>e. Compare (InternalKeyComparator cmp) (fst e) ik < 0"
  obtain ids where ids: "represents_list (KeyComparator cmp) entry_valid table ids" "map (key_of table) ids = map entry_of es"
    and es: "\<forall>e \<in> set es. 8 \<le> length (fst e) \<and> length (fst e) < 2 ^ 32 \<and> length (snd e) < 2 ^ 32" using holds by (auto simp: mem_holds_def)
  have l: "8 \<le> length ik" "length ik < 2 ^ 32" using len(1) by (simp_all add: ik AppendInternalKey_def PutFixed64_def)
  let ?key = "entry_of (ik, v)"
  have key: "memtable_entry s t k v = ?key" by (simp add: memtable_entry_of ik)
  have cmp_key: "KeyComparator cmp (entry_of e) ?key = Compare (InternalKeyComparator cmp) (fst e) ik" if "e \<in> set es" for e
    using entry_compare [of e ik cmp] es l(2) that by (simp add: entry_of_def [of "(ik, v)"])
  have valid: "entry_valid ?key" using l by (auto simp: entry_valid_def entry_of_def)
  have ne: "\<forall>x \<in> set ids. KeyComparator cmp (key_of table x) ?key \<noteq> 0"
  proof
    fix x assume "x \<in> set ids"
    then have "key_of table x \<in> set (map entry_of es)" by (simp flip: ids(2))
    then obtain e where "e \<in> set es" "key_of table x = entry_of e" by auto
    then show "KeyComparator cmp (key_of table x) ?key \<noteq> 0" using fresh cmp_key by simp
  qed
  let ?P = "\<lambda>x. KeyComparator cmp x ?key < 0"
  obtain table' where t': "SkipList_Insert (KeyComparator cmp) ?key table = Some table'"
    "represents_list (KeyComparator cmp) entry_valid table' (takeWhile (\<lambda>x. ?P (key_of table x)) ids @ length (sl_nodes table) #
      dropWhile (\<lambda>x. ?P (key_of table x)) ids)"
    "\<forall>y < length (sl_nodes table). key_of table' y = key_of table y" "key_of table' (length (sl_nodes table)) = ?key"
    by (rule mem.Insert_sorted [OF ids(1) valid ne])
  have small: "x < length (sl_nodes table)" if "x \<in> set ids" for x using ids(1) that by (simp add: represents_list_def)
  have same: "map (key_of table') xs = map (key_of table) xs" if "set xs \<subseteq> set ids" for xs using that t'(3) small by auto
  note split = split_nodes [where P = ?P and Q = ?Q, OF ids(2)]
  have sub: "set (takeWhile (\<lambda>x. ?P (key_of table x)) ids) \<subseteq> set ids" "set (dropWhile (\<lambda>x. ?P (key_of table x)) ids) \<subseteq> set ids"
    by (auto dest: set_takeWhileD set_dropWhileD)
  have "map (key_of table') (takeWhile (\<lambda>x. ?P (key_of table x)) ids @ length (sl_nodes table) # dropWhile (\<lambda>x. ?P (key_of table x)) ids) =
      map entry_of (takeWhile ?Q es @ (ik, v) # dropWhile ?Q es)"
    unfolding map_append list.map same [OF sub(1)] same [OF sub(2)] t'(4) using split cmp_key by simp
  moreover have "\<forall>e \<in> set (takeWhile ?Q es @ (ik, v) # dropWhile ?Q es). 8 \<le> length (fst e) \<and> length (fst e) < 2 ^ 32 \<and> length (snd e) < 2 ^ 32"
    using es l len(2) by (auto dest: set_takeWhileD set_dropWhileD)
  ultimately have "mem_holds cmp table' (takeWhile ?Q es @ (ik, v) # dropWhile ?Q es)" using t'(2) unfolding mem_holds_def by blast
  then show ?thesis using that t'(1) by (simp add: MemTable_Add_def key)
qed

lemma Get_holds:
  assumes holds: "mem_holds cmp table es" and len: "length u + 8 < 2 ^ 32" and lk_def: "lk = lookup_internal_key (new_LookupKey u s)"
  shows "MemTable_Get cmp (new_LookupKey u s) table =
    Some (case dropWhile (\<lambda>e. Compare (InternalKeyComparator cmp) (fst e) lk < 0) es of
        [] \<Rightarrow> (False, None, None)
      | (k, v) # _ \<Rightarrow>
          if ExtractUserKey k = u then
            if key_number k AND 0xFF = type_code kTypeValue then (True, Some v, None)
            else if key_number k AND 0xFF = type_code kTypeDeletion then (True, None, Some (NotFound '''')) else (False, None, None)
          else (False, None, None))"
proof -
  let ?Q = "\<lambda>e. Compare (InternalKeyComparator cmp) (fst e) lk < 0"
  obtain ids where ids: "represents_list (KeyComparator cmp) entry_valid table ids" "map (key_of table) ids = map entry_of es"
    and es: "\<forall>e \<in> set es. 8 \<le> length (fst e) \<and> length (fst e) < 2 ^ 32 \<and> length (snd e) < 2 ^ 32" using holds by (auto simp: mem_holds_def)
  have l: "8 \<le> length lk" "length lk < 2 ^ 32" using len by (simp_all add: lk_def lookup_key_parts AppendInternalKey_def PutFixed64_def)
  let ?key = "PutLengthPrefixedSlice [] lk"
  have key: "memtable_key (new_LookupKey u s) = ?key" by (simp add: lookup_entry lk_def)
  let ?P = "\<lambda>x. KeyComparator cmp x ?key < 0"
  have pq: "?P (entry_of e) \<longleftrightarrow> ?Q e" if "e \<in> set es" for e using entry_compare [of e lk cmp "[]"] es l(2) that by simp
  have valid: "entry_valid ?key" using l unfolding entry_valid_def by (metis append_Nil2)
  have seek: "sl_Seek (KeyComparator cmp) table ?key = Some (first_of (dropWhile (\<lambda>x. ?P (key_of table x)) ids))"
    by (rule mem.Seek_first [OF ids(1) valid])
  have m: "map (key_of table) (dropWhile (\<lambda>x. ?P (key_of table x)) ids) = map entry_of (dropWhile ?Q es)"
    by (rule split_nodes(2) [where P = ?P and Q = ?Q, OF ids(2)]) (rule pq)
  show ?thesis
  proof (cases "dropWhile ?Q es")
    case Nil
    have nil: "dropWhile (\<lambda>x. ?P (key_of table x)) ids = []" using m unfolding Nil list.map map_is_Nil_conv .
    show ?thesis unfolding MemTable_Get_def key seek Nil nil first_of_def by simp
  next
    case (Cons e rest)
    obtain k v where e: "e = (k, v)" by (cases e)
    obtain x xs where x: "dropWhile (\<lambda>x. ?P (key_of table x)) ids = x # xs" using m Cons by (cases "dropWhile (\<lambda>x. ?P (key_of table x)) ids") auto
    have "x \<in> set (dropWhile (\<lambda>x. ?P (key_of table x)) ids)" using x by simp
    then have "x \<in> set ids" by (rule set_dropWhileD)
    then have nk: "Node_key table x = Some (entry_of e)" using Node_key_represents [OF ids(1)] m x Cons by simp
    have "e \<in> set (dropWhile ?Q es)" using Cons by simp
    then have "e \<in> set es" by (rule set_dropWhileD)
    then have lens: "length k < 2 ^ 32" "length v < 2 ^ 32" using es e by auto
    have at: "prefixed_at (entry_of e) = Some (k, PutLengthPrefixedSlice [] v)" "prefixed_at (PutLengthPrefixedSlice [] v) = Some (v, [])"
      using prefixed_at_put [OF lens(1)] prefixed_at_put [OF lens(2), of "[]"] by (simp_all add: entry_of_def e)
    have uk: "Compare cmp (take (length k - 8) k) (lookup_user_key (new_LookupKey u s)) = 0 \<longleftrightarrow> ExtractUserKey k = u"
      by (simp add: user_order(1) lookup_key_parts ExtractUserKey_def)
    show ?thesis
      unfolding MemTable_Get_def key seek Cons e
      using nk at uk by (simp add: x first_of_def key_number_def Let_def e)
  qed
qed

end

section \<open>What a lookup sees\<close>

type_synonym mem_op = "64 word \<times> ValueType \<times> slice \<times> slice"

fun mem_adds :: "Comparator \<Rightarrow> mem_op list \<Rightarrow> SkipList \<Rightarrow> SkipList option" where
  "mem_adds user [] table = Some table"
| "mem_adds user ((s, t, k, v) # ops) table = Option.bind (MemTable_Add user s t k v table) (mem_adds user ops)"

text \<open>The last operation on the key that the snapshot includes, and what \<open>Get\<close> answers for it.\<close>

definition newest :: "slice \<Rightarrow> 64 word \<Rightarrow> mem_op list \<Rightarrow> mem_op option" where
  "newest u s ops = (let xs = filter (\<lambda>(q, t, k, v). k = u \<and> q \<le> s) ops in if xs = [] then None else Some (last xs))"

fun get_answer :: "mem_op option \<Rightarrow> bool \<times> slice option \<times> status option" where
  "get_answer None = (False, None, None)"
| "get_answer (Some (q, kTypeValue, k, v)) = (True, Some v, None)"
| "get_answer (Some (q, kTypeDeletion, k, v)) = (True, None, Some (NotFound ''''))"

definition op_entry :: "mem_op \<Rightarrow> slice \<times> slice" where
  "op_entry op = (case op of (s, t, k, v) \<Rightarrow> (AppendInternalKey [] \<lparr>pk_user_key = k, pk_sequence = s, pk_type = t\<rparr>, v))"

definition op_fits :: "mem_op \<Rightarrow> bool" where
  "op_fits op \<longleftrightarrow> (case op of (s, t, k, v) \<Rightarrow> s \<le> kMaxSequenceNumber \<and> length k + 8 < 2 ^ 32 \<and> length v < 2 ^ 32)"

lemma mem_adds_append: "mem_adds user (xs @ ys) table = Option.bind (mem_adds user xs table) (mem_adds user ys)"
  by (induction user xs table rule: mem_adds.induct) (auto split: Option.bind_splits)

lemma newest_cases:
  assumes "sorted_wrt (\<lambda>x y. fst x < fst y) ops"
  obtains (none) "newest u s ops = None" "\<forall>(q, t, k, v) \<in> set ops. k = u \<longrightarrow> s < q"
  | (found) q t v where "newest u s ops = Some (q, t, u, v)" "(q, t, u, v) \<in> set ops" "q \<le> s"
      "\<forall>(q', t', k', v') \<in> set ops. k' = u \<and> q' \<le> s \<longrightarrow> (q', t', k', v') = (q, t, u, v) \<or> q' < q"
proof -
  let ?P = "\<lambda>(q, t, k, v). k = u \<and> q \<le> s"
  define xs where "xs = filter ?P ops"
  show ?thesis
  proof (cases "xs = []")
    case True
    then have "\<forall>(q, t, k, v) \<in> set ops. k = u \<longrightarrow> s < q" by (auto simp: xs_def filter_empty_conv not_le)
    then show ?thesis using none True by (simp add: newest_def xs_def)
  next
    case False
    have xs: "xs = butlast xs @ [last xs]" using False by simp
    have sorted: "sorted_wrt (\<lambda>x y. fst x < fst y) xs" unfolding xs_def by (rule sorted_wrt_filter [OF assms])
    obtain q t k v where l: "last xs = (q, t, k, v)" by (cases "last xs")
    have "last xs \<in> set xs" using False by simp
    then have m: "(q, t, k, v) \<in> set ops" "k = u" "q \<le> s" unfolding l by (auto simp: xs_def)
    have "(q', t', k', v') = (q, t, u, v) \<or> q' < q" if "(q', t', k', v') \<in> set ops" "k' = u \<and> q' \<le> s" for q' t' k' v'
    proof -
      have "(q', t', k', v') \<in> set xs" using that by (simp add: xs_def)
      then have "(q', t', k', v') \<in> set (butlast xs @ [last xs])" by (subst (asm) xs)
      then consider "(q', t', k', v') \<in> set (butlast xs)" | "(q', t', k', v') = last xs" by auto
      then show ?thesis
      proof cases
        case 1
        have "sorted_wrt (\<lambda>x y. fst x < fst y) (butlast xs @ [last xs])" using sorted by (simp flip: xs)
        then show ?thesis using 1 l by (auto simp: sorted_wrt_append)
      next
        case 2
        then show ?thesis using l m(2) by simp
      qed
    qed
    moreover have "newest u s ops = Some (q, t, u, v)" using False l m(2) by (simp add: newest_def xs_def [symmetric])
    ultimately show ?thesis using found m by blast
  qed
qed

lemma first_of_sorted:
  assumes "sorted_wrt R es" "e \<in> set es" "\<not> L e" "\<And>x. x \<in> set es \<Longrightarrow> \<not> L x \<Longrightarrow> x = e \<or> R e x" "\<And>x y. R x y \<Longrightarrow> \<not> R y x"
  obtains rest where "dropWhile L es = e # rest"
proof -
  have "e \<in> set (takeWhile L es) \<or> e \<in> set (dropWhile L es)" using assms(2) takeWhile_dropWhile_id [of L es] by (metis Un_iff set_append)
  then have mem: "e \<in> set (dropWhile L es)" using assms(3) by (auto dest: set_takeWhileD)
  then obtain d ds where d: "dropWhile L es = d # ds" by (cases "dropWhile L es") auto
  have "\<not> L d" using hd_dropWhile [of L es] d by simp
  moreover have "d \<in> set es" using set_dropWhileD [of d L es] d by simp
  ultimately have de: "d = e \<or> R e d" using assms(4) by blast
  have "sorted_wrt R (takeWhile L es @ d # ds)" using assms(1) by (simp flip: d)
  then have "R d e" if "e \<in> set ds" using that by (simp add: sorted_wrt_append)
  then show ?thesis using that d de mem assms(5) by auto
qed

context user_comparator
begin

lemma holds_sorted:
  assumes "mem_holds cmp table es"
  shows "sorted_wrt (\<lambda>a b. Compare (InternalKeyComparator cmp) (fst a) (fst b) < 0) es"
proof -
  obtain ids where ids: "represents_list (KeyComparator cmp) entry_valid table ids" "map (key_of table) ids = map entry_of es"
    and es: "\<forall>e \<in> set es. 8 \<le> length (fst e) \<and> length (fst e) < 2 ^ 32 \<and> length (snd e) < 2 ^ 32" using assms by (auto simp: mem_holds_def)
  have "sorted_wrt (\<lambda>x y. KeyComparator cmp (key_of table x) (key_of table y) < 0) ids" using ids(1) by (simp add: represents_list_def)
  then have "sorted_wrt (\<lambda>x y. KeyComparator cmp x y < 0) (map entry_of es)" by (simp add: sorted_wrt_map flip: ids(2))
  then have "sorted_wrt (\<lambda>x y. KeyComparator cmp (entry_of x) (entry_of y) < 0) es" by (simp add: sorted_wrt_map)
  then show ?thesis
  proof (rule sorted_wrt_mono_rel [rotated])
    fix a b assume ab: "a \<in> set es" "b \<in> set es" "KeyComparator cmp (entry_of a) (entry_of b) < 0"
    then show "Compare (InternalKeyComparator cmp) (fst a) (fst b) < 0"
      using entry_compare [of a "fst b" cmp "PutLengthPrefixedSlice [] (snd b)"] es by (simp add: entry_of_def [of b])
  qed
qed

lemma op_compare:
  assumes "op_fits (q, t, k, v)" "op_fits (q', t', k', v')"
  shows "Compare (InternalKeyComparator cmp) (fst (op_entry (q, t, k, v))) (fst (op_entry (q', t', k', v'))) < 0 \<longleftrightarrow>
      Compare cmp k k' < 0 \<or> k = k' \<and> (q' < q \<or> q' = q \<and> type_code t' < type_code t)"
    "q \<noteq> q' \<Longrightarrow> Compare (InternalKeyComparator cmp) (fst (op_entry (q, t, k, v))) (fst (op_entry (q', t', k', v'))) \<noteq> 0"
proof -
  have max: "q \<le> kMaxSequenceNumber" "q' \<le> kMaxSequenceNumber" using assms by (simp_all add: op_fits_def)
  show "Compare (InternalKeyComparator cmp) (fst (op_entry (q, t, k, v))) (fst (op_entry (q', t', k', v'))) < 0 \<longleftrightarrow>
      Compare cmp k k' < 0 \<or> k = k' \<and> (q' < q \<or> q' = q \<and> type_code t' < type_code t)"
    using pack_less [OF max(2,1), of t' t] by (simp add: op_entry_def internal_signs)
  show "Compare (InternalKeyComparator cmp) (fst (op_entry (q, t, k, v))) (fst (op_entry (q', t', k', v'))) \<noteq> 0" if "q \<noteq> q'"
  proof -
    have "PackSequenceAndType q t \<noteq> PackSequenceAndType q' t'"
      using pack_less [OF max, of t t'] pack_less [OF max(2,1), of t' t] that by (metis less_irrefl linorder_neqE)
    then show ?thesis by (simp add: op_entry_def internal_signs)
  qed
qed

lemma adds_hold:
  assumes "distinct (map fst ops)" "\<forall>op \<in> set ops. op_fits op"
  obtains table es where "mem_adds cmp ops new_SkipList = Some table" "mem_holds cmp table es" "set es = op_entry ` set ops"
proof -
  have "\<exists>table es. mem_adds cmp ops new_SkipList = Some table \<and> mem_holds cmp table es \<and> set es = op_entry ` set ops"
    using assms
  proof (induction ops rule: rev_induct)
    case Nil
    then show ?case using mem_holds_new by auto
  next
    case (snoc op ops)
    then obtain table es where t: "mem_adds cmp ops new_SkipList = Some table" "mem_holds cmp table es" "set es = op_entry ` set ops" by auto
    obtain q ty k v where op: "op = (q, ty, k, v)" by (cases op)
    have fits: "op_fits op" and len: "length k + 8 < 2 ^ 32" "length v < 2 ^ 32" using snoc.prems(2) by (auto simp: op op_fits_def)
    define ik where "ik = AppendInternalKey [] \<lparr>pk_user_key = k, pk_sequence = q, pk_type = ty\<rparr>"
    have e: "op_entry op = (ik, v)" by (simp add: op_entry_def op ik_def)
    have "\<forall>e \<in> set es. Compare (InternalKeyComparator cmp) (fst e) ik \<noteq> 0"
    proof
      fix x assume "x \<in> set es"
      then obtain q' ty' k' v' where o: "(q', ty', k', v') \<in> set ops" "x = op_entry (q', ty', k', v')" using t(3) by fastforce
      then have "q' \<noteq> q" "op_fits (q', ty', k', v')" using snoc.prems op by force+
      then show "Compare (InternalKeyComparator cmp) (fst x) ik \<noteq> 0" using op_compare(2) [of q' ty' k' v' q ty k v] fits o(2) e op by simp
    qed
    then obtain table' where "MemTable_Add cmp q ty k v table = Some table'"
      "mem_holds cmp table' (takeWhile (\<lambda>e. Compare (InternalKeyComparator cmp) (fst e) ik < 0) es @ (ik, v) #
         dropWhile (\<lambda>e. Compare (InternalKeyComparator cmp) (fst e) ik < 0) es)" by (rule Add_holds [OF t(2) len ik_def])
    moreover have "set (takeWhile (\<lambda>e. Compare (InternalKeyComparator cmp) (fst e) ik < 0) es @ (ik, v) #
         dropWhile (\<lambda>e. Compare (InternalKeyComparator cmp) (fst e) ik < 0) es) = op_entry ` set (ops @ [op])"
    proof -
      have "set es = set (takeWhile (\<lambda>e. Compare (InternalKeyComparator cmp) (fst e) ik < 0) es) \<union>
          set (dropWhile (\<lambda>e. Compare (InternalKeyComparator cmp) (fst e) ik < 0) es)" by (metis set_append takeWhile_dropWhile_id)
      then show ?thesis using t(3) e by auto
    qed
    ultimately show ?case using t(1) op by (auto simp: mem_adds_append)
  qed
  then show ?thesis using that by blast
qed

lemma Get_newest:
  assumes ops: "sorted_wrt (\<lambda>x y. fst x < fst y) ops" "\<forall>op \<in> set ops. op_fits op" and u: "length u + 8 < 2 ^ 32" "s \<le> kMaxSequenceNumber"
  shows "Option.bind (mem_adds cmp ops new_SkipList) (MemTable_Get cmp (new_LookupKey u s)) = Some (get_answer (newest u s ops))"
proof -
  let ?I = "InternalKeyComparator cmp"
  have "distinct (map fst ops)" using ops(1) by (induction ops) auto
  then obtain table es where t: "mem_adds cmp ops new_SkipList = Some table" "mem_holds cmp table es" "set es = op_entry ` set ops"
    by (rule adds_hold [OF _ ops(2)])
  define lk where "lk = lookup_internal_key (new_LookupKey u s)"
  let ?L = "\<lambda>e. Compare ?I (fst e) lk < 0"
  have below: "?L (op_entry (q, ty, k, v)) \<longleftrightarrow> Compare cmp k u < 0 \<or> k = u \<and> s < q" if "op_fits (q, ty, k, v)" for q ty k v
  proof -
    have "q \<le> kMaxSequenceNumber" using that by (simp add: op_fits_def)
    from pack_less [OF u(2) this, of kValueTypeForSeek ty] show ?thesis
      by (cases ty) (auto simp: lk_def lookup_key_parts op_entry_def internal_signs kValueTypeForSeek_def)
  qed
  have get: "MemTable_Get cmp (new_LookupKey u s) table =
    Some (case dropWhile ?L es of
        [] \<Rightarrow> (False, None, None)
      | (k, v) # _ \<Rightarrow>
          if ExtractUserKey k = u then
            if key_number k AND 0xFF = type_code kTypeValue then (True, Some v, None)
            else if key_number k AND 0xFF = type_code kTypeDeletion then (True, None, Some (NotFound '''')) else (False, None, None)
          else (False, None, None))"
    by (rule Get_holds [OF t(2) u(1) lk_def])
  show ?thesis
  proof (cases rule: newest_cases [OF ops(1), of u s])
    case 1
    show ?thesis
    proof (cases "dropWhile ?L es")
      case Nil
      then show ?thesis using get 1(1) t(1) by (simp del: dropWhile_eq_Nil_conv)
    next
      case (Cons e rest)
      then have "\<not> ?L e" "e \<in> set es" using hd_dropWhile [of ?L es] set_dropWhileD [of e ?L es] by simp_all
      then obtain q ty k v where o: "(q, ty, k, v) \<in> set ops" "e = op_entry (q, ty, k, v)" using t(3) by fastforce
      then have "k \<noteq> u" using \<open>\<not> ?L e\<close> below [of q ty k v] ops(2) 1(2) by auto
      then have "ExtractUserKey (fst e) \<noteq> u" by (simp add: o(2) op_entry_def)
      then show ?thesis using get 1(1) t(1) Cons by (cases e) simp
    qed
  next
    case (2 q ty v)
    let ?e = "op_entry (q, ty, u, v)"
    have fits: "op_fits (q, ty, u, v)" using 2(2) ops(2) by blast
    obtain rest where rest: "dropWhile ?L es = ?e # rest"
    proof (rule first_of_sorted [OF holds_sorted [OF t(2)], of ?e ?L])
      show "?e \<in> set es" using 2(2) t(3) by simp
      show "\<not> ?L ?e" using below [OF fits] user_order(2) [of u] 2(3) by simp
      show "x = ?e \<or> Compare ?I (fst ?e) (fst x) < 0" if x: "x \<in> set es" "\<not> ?L x" for x
      proof -
        obtain q' ty' k' v' where o: "(q', ty', k', v') \<in> set ops" "x = op_entry (q', ty', k', v')" using t(3) x(1) by fastforce
        then have f: "op_fits (q', ty', k', v')" using ops(2) by blast
        have nb: "\<not> Compare cmp k' u < 0" "k' = u \<longrightarrow> q' \<le> s" using x(2) below [OF f] o(2) by (auto simp: not_less)
        show ?thesis
        proof (cases "k' = u")
          case True
          then show ?thesis using 2(4) o nb(2) op_compare(1) [OF fits f] by fastforce
        next
          case False
          then have "Compare cmp u k' < 0" using nb(1) user_order(1) [of k' u] user_order(3) [of k' u] by linarith
          then show ?thesis using op_compare(1) [OF fits f] o(2) by simp
        qed
      qed
      show "\<not> Compare ?I (fst y) (fst x) < 0" if "Compare ?I (fst x) (fst y) < 0" for x y
        using that user_less_not user_order(2) by (auto simp: internal_signs)
    qed
    have "key_number (fst ?e) AND 0xFF = type_code ty" "ExtractUserKey (fst ?e) = u"
      using pack_number fits by (simp_all add: op_entry_def op_fits_def)
    moreover have "snd ?e = v" by (simp add: op_entry_def)
    ultimately show ?thesis using get 2(1) t(1) rest by (cases ?e; cases ty) simp_all
  qed
qed

end

end
