(* ===== verification/Ldb_Batch.thy ===== *)
theory Ldb_Batch
  imports Ldb_Memtable
begin

text \<open>
  Write batches (\<^verbatim>\<open>db/write_batch.cc\<close>): a batch is a string with the sequence number, the number of records, and the records. The records
  are what the log stores; applying a batch to a memory table numbers them from the sequence number on. A handler is a state and two
  functions on it, \<open>None\<close> where they do not return.
\<close>

section \<open>Model\<close>

definition kHeader :: nat where
  "kHeader = 12"

definition WriteBatch_Clear :: "byte list" where
  "WriteBatch_Clear = replicate kHeader 0"

definition ApproximateSize :: "byte list \<Rightarrow> nat" where
  "ApproximateSize rep = length rep"

definition batch_Count :: "byte list \<Rightarrow> 32 word" where
  "batch_Count rep = DecodeFixed32 (drop 8 rep)"

definition batch_SetCount :: "32 word \<Rightarrow> byte list \<Rightarrow> byte list" where
  "batch_SetCount n rep = take 8 rep @ EncodeFixed32 n @ drop 12 rep"

definition batch_Sequence :: "byte list \<Rightarrow> 64 word" where
  "batch_Sequence rep = DecodeFixed64 rep"

definition batch_SetSequence :: "64 word \<Rightarrow> byte list \<Rightarrow> byte list" where
  "batch_SetSequence seq rep = EncodeFixed64 seq @ drop 8 rep"

definition WriteBatch_Put :: "slice \<Rightarrow> slice \<Rightarrow> byte list \<Rightarrow> byte list" where
  "WriteBatch_Put key v rep =
     (let rep1 = batch_SetCount (batch_Count rep + 1) rep
      in PutLengthPrefixedSlice (PutLengthPrefixedSlice (rep1 @ [ucast (type_code kTypeValue)]) key) v)"

definition WriteBatch_Delete :: "slice \<Rightarrow> byte list \<Rightarrow> byte list" where
  "WriteBatch_Delete key rep =
     (let rep1 = batch_SetCount (batch_Count rep + 1) rep
      in PutLengthPrefixedSlice (rep1 @ [ucast (type_code kTypeDeletion)]) key)"

definition batch_SetContents :: "slice \<Rightarrow> byte list" where
  "batch_SetContents contents = contents"

definition batch_Append :: "byte list \<Rightarrow> byte list \<Rightarrow> byte list" where
  "batch_Append dst src = batch_SetCount (batch_Count dst + batch_Count src) dst @ drop kHeader src"

lemma GetLengthPrefixed_shorter: "GetLengthPrefixedSlice xs = (Some s, ys) \<Longrightarrow> length ys < length xs"
  using lps.get_consumes [of xs s ys] by (simp add: GetLengthPrefixed_slice)

text \<open>The loop over the records, with the number of records found.\<close>

function iterate_records ::
    "(slice \<Rightarrow> slice \<Rightarrow> 'a \<Rightarrow> 'a option) \<Rightarrow> (slice \<Rightarrow> 'a \<Rightarrow> 'a option) \<Rightarrow> 32 word \<Rightarrow> slice \<Rightarrow> 'a \<Rightarrow> (status \<times> 32 word \<times> 'a) option" where
  "iterate_records put del found [] handler = Some (OK, found, handler)"
| "iterate_records put del found (tag # input) handler =
     (if tag = ucast (type_code kTypeValue) then
        case GetLengthPrefixedSlice input of
          (None, _) \<Rightarrow> Some (Corruption ''bad WriteBatch Put'', found + 1, handler)
        | (Some key, input1) \<Rightarrow>
            (case GetLengthPrefixedSlice input1 of
               (None, _) \<Rightarrow> Some (Corruption ''bad WriteBatch Put'', found + 1, handler)
             | (Some v, input2) \<Rightarrow>
                 (case put key v handler of
                    None \<Rightarrow> None
                  | Some handler1 \<Rightarrow> iterate_records put del (found + 1) input2 handler1))
      else if tag = ucast (type_code kTypeDeletion) then
        case GetLengthPrefixedSlice input of
          (None, _) \<Rightarrow> Some (Corruption ''bad WriteBatch Delete'', found + 1, handler)
        | (Some key, input1) \<Rightarrow>
            (case del key handler of
               None \<Rightarrow> None
             | Some handler1 \<Rightarrow> iterate_records put del (found + 1) input1 handler1)
      else Some (Corruption ''unknown WriteBatch tag'', found + 1, handler))"
  by pat_completeness auto

termination iterate_records
proof (relation "measure (\<lambda>(_, _, _, input, _). length input)")
qed (auto dest!: GetLengthPrefixed_shorter [OF sym] GetLengthPrefixed_shorter)

definition WriteBatch_Iterate ::
    "(slice \<Rightarrow> slice \<Rightarrow> 'a \<Rightarrow> 'a option) \<Rightarrow> (slice \<Rightarrow> 'a \<Rightarrow> 'a option) \<Rightarrow> byte list \<Rightarrow> 'a \<Rightarrow> (status \<times> 'a) option" where
  "WriteBatch_Iterate put del rep handler =
     (if length rep < kHeader then Some (Corruption ''malformed WriteBatch (too small)'', handler)
      else
        case iterate_records put del 0 (drop kHeader rep) handler of
          None \<Rightarrow> None
        | Some (s, found, handler1) \<Rightarrow>
            Some (if \<not> is_ok s then s else if found \<noteq> batch_Count rep then Corruption ''WriteBatch has wrong count'' else OK, handler1))"

text \<open>The handler that inserts into a memory table: the next sequence number and the table.\<close>

definition MemTableInserter_Put :: "Comparator \<Rightarrow> slice \<Rightarrow> slice \<Rightarrow> 64 word \<times> SkipList \<Rightarrow> (64 word \<times> SkipList) option" where
  "MemTableInserter_Put user key v h = map_option (Pair (fst h + 1)) (MemTable_Add user (fst h) kTypeValue key v (snd h))"

definition MemTableInserter_Delete :: "Comparator \<Rightarrow> slice \<Rightarrow> 64 word \<times> SkipList \<Rightarrow> (64 word \<times> SkipList) option" where
  "MemTableInserter_Delete user key h = map_option (Pair (fst h + 1)) (MemTable_Add user (fst h) kTypeDeletion key [] (snd h))"

definition InsertInto :: "Comparator \<Rightarrow> byte list \<Rightarrow> SkipList \<Rightarrow> (status \<times> SkipList) option" where
  "InsertInto user rep table =
     map_option (\<lambda>(s, h). (s, snd h))
       (WriteBatch_Iterate (MemTableInserter_Put user) (MemTableInserter_Delete user) rep (batch_Sequence rep, table))"

section \<open>The records of a batch\<close>

datatype batch_op = Put slice slice | Delete slice

fun batch_apply :: "batch_op \<Rightarrow> byte list \<Rightarrow> byte list" where
  "batch_apply (Put k v) rep = WriteBatch_Put k v rep"
| "batch_apply (Delete k) rep = WriteBatch_Delete k rep"

fun record_bytes :: "batch_op \<Rightarrow> byte list" where
  "record_bytes (Put k v) = 1 # PutLengthPrefixedSlice [] k @ PutLengthPrefixedSlice [] v"
| "record_bytes (Delete k) = 0 # PutLengthPrefixedSlice [] k"

fun record_fits :: "batch_op \<Rightarrow> bool" where
  "record_fits (Put k v) \<longleftrightarrow> length k < 2 ^ 32 \<and> length v < 2 ^ 32"
| "record_fits (Delete k) \<longleftrightarrow> length k < 2 ^ 32"

fun handle :: "(slice \<Rightarrow> slice \<Rightarrow> 'a \<Rightarrow> 'a option) \<Rightarrow> (slice \<Rightarrow> 'a \<Rightarrow> 'a option) \<Rightarrow> batch_op list \<Rightarrow> 'a \<Rightarrow> 'a option" where
  "handle put del [] h = Some h"
| "handle put del (Put k v # ops) h = Option.bind (put k v h) (handle put del ops)"
| "handle put del (Delete k # ops) h = Option.bind (del k h) (handle put del ops)"

text \<open>The operations with their sequence numbers, as the memory table gets them.\<close>

fun numbered :: "64 word \<Rightarrow> batch_op list \<Rightarrow> mem_op list" where
  "numbered seq [] = []"
| "numbered seq (Put k v # ops) = (seq, kTypeValue, k, v) # numbered (seq + 1) ops"
| "numbered seq (Delete k # ops) = (seq, kTypeDeletion, k, []) # numbered (seq + 1) ops"

definition batch_rep :: "64 word \<Rightarrow> batch_op list \<Rightarrow> byte list" where
  "batch_rep seq ops = EncodeFixed64 seq @ EncodeFixed32 (of_nat (length ops)) @ concat (map record_bytes ops)"

lemma put_prefixed: "PutLengthPrefixedSlice dst s = dst @ PutLengthPrefixedSlice [] s"
  by (simp add: PutLengthPrefixedSlice_def PutVarint32_def)

lemma batch_rep_parts:
  "batch_Count (batch_rep seq ops) = of_nat (length ops)" "batch_Sequence (batch_rep seq ops) = seq"
  "drop kHeader (batch_rep seq ops) = concat (map record_bytes ops)"
  "batch_SetCount n (batch_rep seq ops) = EncodeFixed64 seq @ EncodeFixed32 n @ concat (map record_bytes ops)"
  "batch_SetSequence q (batch_rep seq ops) = batch_rep q ops" "kHeader \<le> length (batch_rep seq ops)"
  by (simp_all add: batch_rep_def batch_Count_def batch_Sequence_def batch_SetCount_def batch_SetSequence_def kHeader_def)

lemma WriteBatch_Clear_rep: "WriteBatch_Clear = batch_rep 0 []"
  by (simp add: WriteBatch_Clear_def batch_rep_def EncodeFixed64_def EncodeFixed32_def kHeader_def numeral_eq_Suc)

lemma batch_apply_rep: "batch_apply op (batch_rep seq ops) = batch_rep seq (ops @ [op])"
  by (cases op) (simp_all add: WriteBatch_Put_def WriteBatch_Delete_def Let_def batch_rep_parts(1,4) put_prefixed [of "_ @ _"],
      simp_all add: batch_rep_def add.commute)

lemma batch_built: "fold batch_apply ops (batch_rep seq []) = batch_rep seq ops"
  by (induction ops rule: rev_induct) (simp_all add: batch_apply_rep)

lemma batch_Append_rep: "batch_Append (batch_rep seq xs) (batch_rep seq' ys) = batch_rep seq (xs @ ys)"
  unfolding batch_Append_def batch_rep_parts by (simp add: batch_rep_def)

lemma iterate_records_ok:
  assumes "\<forall>op \<in> set ops. record_fits op"
  shows "iterate_records put del found (concat (map record_bytes ops)) h =
    map_option (\<lambda>h'. (OK, found + of_nat (length ops), h')) (handle put del ops h)"
  using assms
proof (induction put del ops h arbitrary: found rule: handle.induct)
  case (2 put del k v ops h)
  have "GetLengthPrefixedSlice (PutLengthPrefixedSlice [] k @ PutLengthPrefixedSlice [] v @ r) = (Some k, PutLengthPrefixedSlice [] v @ r)"
    "GetLengthPrefixedSlice (PutLengthPrefixedSlice [] v @ r) = (Some v, r)" for r
    using 2(2) lps.get_put by (simp_all add: GetLengthPrefixed_slice)
  then show ?case using 2 by (cases "put k v h") (simp_all add: ac_simps)
next
  case (3 put del k ops h)
  have "GetLengthPrefixedSlice (PutLengthPrefixedSlice [] k @ r) = (Some k, r)" for r
    using 3(2) lps.get_put by (simp add: GetLengthPrefixed_slice)
  then show ?case using 3 by (cases "del k h") (simp_all add: ac_simps)
qed simp

lemma WriteBatch_Iterate_rep:
  assumes "\<forall>op \<in> set ops. record_fits op"
  shows "WriteBatch_Iterate put del (batch_rep seq ops) h = map_option (Pair OK) (handle put del ops h)"
  by (cases "handle put del ops h")
    (simp_all add: WriteBatch_Iterate_def batch_rep_parts iterate_records_ok [OF assms] not_less)

lemma handle_inserts:
  "map_option snd (handle (MemTableInserter_Put user) (MemTableInserter_Delete user) ops (seq, table)) = mem_adds user (numbered seq ops) table"
proof (induction seq ops arbitrary: table rule: numbered.induct)
  case (2 seq k v ops)
  then show ?case by (cases "MemTable_Add user seq kTypeValue k v table") (simp_all add: MemTableInserter_Put_def)
next
  case (3 seq k ops)
  then show ?case by (cases "MemTable_Add user seq kTypeDeletion k [] table") (simp_all add: MemTableInserter_Delete_def)
qed simp

lemma InsertInto_rep:
  assumes "\<forall>op \<in> set ops. record_fits op"
  shows "InsertInto user (batch_rep seq ops) table = map_option (Pair OK) (mem_adds user (numbered seq ops) table)"
  unfolding InsertInto_def WriteBatch_Iterate_rep [OF assms] batch_rep_parts handle_inserts [of user ops seq table, symmetric]
  by (simp add: option.map_comp comp_def)

end
