(* ===== verification/Ldb_Iterator.thy ===== *)
theory Ldb_Iterator
  imports Ldb_Skiplist Ldb_Env
begin

text \<open>
  Iterators: the interface (\<^verbatim>\<open>include/leveldb/iterator.h\<close>) as a record of functions on a state, and the wrapper that caches whether an
  iterator is valid and its key (\<^verbatim>\<open>table/iterator_wrapper.h\<close>). An operation that moves the iterator returns the moved iterator, \<open>None\<close>
  where it does not return.

  The locale \<open>sorted_iterator\<close> is the contract: an iterator over a sorted list of entries is at a position of the list, the length
  of the list when it is not valid.
\<close>

section \<open>The interface and the wrapper\<close>

record 'i Iterator =
  i_Valid :: "'i \<Rightarrow> bool"
  i_key :: "'i \<Rightarrow> slice"
  i_value :: "'i \<Rightarrow> slice"
  i_status :: "'i \<Rightarrow> status"
  i_Seek :: "slice \<Rightarrow> 'i \<Rightarrow> 'i option"
  i_SeekToFirst :: "'i \<Rightarrow> 'i option"
  i_SeekToLast :: "'i \<Rightarrow> 'i option"
  i_Next :: "'i \<Rightarrow> 'i option"
  i_Prev :: "'i \<Rightarrow> 'i option"

record 'i IteratorWrapper =
  iw_iter :: 'i
  iw_valid :: bool
  iw_key :: slice

definition iw_Update :: "'i Iterator \<Rightarrow> 'i \<Rightarrow> 'i IteratorWrapper \<Rightarrow> 'i IteratorWrapper" where
  "iw_Update it x w =
     (let w1 = w\<lparr>iw_iter := x, iw_valid := i_Valid it x\<rparr> in if i_Valid it x then w1\<lparr>iw_key := i_key it x\<rparr> else w1)"

definition iw_new :: "'i Iterator \<Rightarrow> 'i \<Rightarrow> 'i IteratorWrapper" where
  "iw_new it x = iw_Update it x \<lparr>iw_iter = x, iw_valid = False, iw_key = []\<rparr>"

definition iw_Next :: "'i Iterator \<Rightarrow> 'i IteratorWrapper \<Rightarrow> 'i IteratorWrapper option" where
  "iw_Next it w = map_option (\<lambda>x. iw_Update it x w) (i_Next it (iw_iter w))"

definition iw_Prev :: "'i Iterator \<Rightarrow> 'i IteratorWrapper \<Rightarrow> 'i IteratorWrapper option" where
  "iw_Prev it w = map_option (\<lambda>x. iw_Update it x w) (i_Prev it (iw_iter w))"

definition iw_Seek :: "'i Iterator \<Rightarrow> slice \<Rightarrow> 'i IteratorWrapper \<Rightarrow> 'i IteratorWrapper option" where
  "iw_Seek it k w = map_option (\<lambda>x. iw_Update it x w) (i_Seek it k (iw_iter w))"

definition iw_SeekToFirst :: "'i Iterator \<Rightarrow> 'i IteratorWrapper \<Rightarrow> 'i IteratorWrapper option" where
  "iw_SeekToFirst it w = map_option (\<lambda>x. iw_Update it x w) (i_SeekToFirst it (iw_iter w))"

definition iw_SeekToLast :: "'i Iterator \<Rightarrow> 'i IteratorWrapper \<Rightarrow> 'i IteratorWrapper option" where
  "iw_SeekToLast it w = map_option (\<lambda>x. iw_Update it x w) (i_SeekToLast it (iw_iter w))"

section \<open>The contract\<close>

definition entry_less :: "Comparator \<Rightarrow> slice \<times> slice \<Rightarrow> slice \<times> slice \<Rightarrow> bool" where
  "entry_less cmp a b \<longleftrightarrow> Compare cmp (fst a) (fst b) < 0"

definition lower :: "Comparator \<Rightarrow> slice \<Rightarrow> (slice \<times> slice) list \<Rightarrow> nat" where
  "lower cmp k es = length (takeWhile (\<lambda>e. Compare cmp (fst e) k < 0) es)"

text \<open>The position before one, the length of the list before the first.\<close>

definition step_back :: "nat \<Rightarrow> (slice \<times> slice) list \<Rightarrow> nat" where
  "step_back n es = (if n = 0 then length es else n - 1)"

locale sorted_iterator = key_order "Compare cmp" valid for cmp valid +
  fixes it :: "'i Iterator" and at :: "'i \<Rightarrow> (slice \<times> slice) list \<Rightarrow> nat \<Rightarrow> bool"
  assumes at_entries: "at x es n \<Longrightarrow> n \<le> length es \<and> (\<forall>e \<in> set es. valid (fst e)) \<and> sorted_wrt (entry_less cmp) es"
    and at_Valid: "at x es n \<Longrightarrow> i_Valid it x \<longleftrightarrow> n < length es"
    and at_key: "at x es n \<Longrightarrow> n < length es \<Longrightarrow> (i_key it x, i_value it x) = es ! n"
    and at_status: "at x es n \<Longrightarrow> i_status it x = OK"
    and at_Seek: "at x es n \<Longrightarrow> valid k \<Longrightarrow> \<exists>y. i_Seek it k x = Some y \<and> at y es (lower cmp k es)"
    and at_SeekToFirst: "at x es n \<Longrightarrow> \<exists>y. i_SeekToFirst it x = Some y \<and> at y es 0"
    and at_SeekToLast: "at x es n \<Longrightarrow> \<exists>y. i_SeekToLast it x = Some y \<and> at y es (step_back (length es) es)"
    and at_Next: "at x es n \<Longrightarrow> n < length es \<Longrightarrow> \<exists>y. i_Next it x = Some y \<and> at y es (Suc n)"
    and at_Prev: "at x es n \<Longrightarrow> n < length es \<Longrightarrow> \<exists>y. i_Prev it x = Some y \<and> at y es (step_back n es)"

text \<open>
  A client's use of an iterator as a list of calls, and what it observes after each: the entry, or that the iterator is not valid. \<open>Next\<close> and
  \<open>Prev\<close> require a valid iterator. The same calls on a position of a list are the specification.
\<close>

datatype iter_call = CallSeek slice | CallSeekToFirst | CallSeekToLast | CallNext | CallPrev

fun iter_step :: "'i Iterator \<Rightarrow> iter_call \<Rightarrow> 'i \<Rightarrow> 'i option" where
  "iter_step it (CallSeek k) x = i_Seek it k x"
| "iter_step it CallSeekToFirst x = i_SeekToFirst it x"
| "iter_step it CallSeekToLast x = i_SeekToLast it x"
| "iter_step it CallNext x = (if i_Valid it x then i_Next it x else None)"
| "iter_step it CallPrev x = (if i_Valid it x then i_Prev it x else None)"

fun iter_run :: "'i Iterator \<Rightarrow> iter_call list \<Rightarrow> 'i \<Rightarrow> (slice \<times> slice) option list option" where
  "iter_run it [] x = Some []"
| "iter_run it (c # cs) x =
     do {
       y \<leftarrow> iter_step it c x;
       seen \<leftarrow> iter_run it cs y;
       Some ((if i_Valid it y then Some (i_key it y, i_value it y) else None) # seen)
     }"

fun list_step :: "Comparator \<Rightarrow> (slice \<times> slice) list \<Rightarrow> iter_call \<Rightarrow> nat \<Rightarrow> nat option" where
  "list_step cmp es (CallSeek k) n = Some (lower cmp k es)"
| "list_step cmp es CallSeekToFirst n = Some 0"
| "list_step cmp es CallSeekToLast n = Some (step_back (length es) es)"
| "list_step cmp es CallNext n = (if n < length es then Some (Suc n) else None)"
| "list_step cmp es CallPrev n = (if n < length es then Some (step_back n es) else None)"

fun list_run :: "Comparator \<Rightarrow> (slice \<times> slice) list \<Rightarrow> iter_call list \<Rightarrow> nat \<Rightarrow> (slice \<times> slice) option list option" where
  "list_run cmp es [] n = Some []"
| "list_run cmp es (c # cs) n =
     do {
       m \<leftarrow> list_step cmp es c n;
       seen \<leftarrow> list_run cmp es cs m;
       Some ((if m < length es then Some (es ! m) else None) # seen)
     }"

text \<open>A wrapper at a position has the validity and the key of the position cached.\<close>

definition wrapper_at :: "('i \<Rightarrow> (slice \<times> slice) list \<Rightarrow> nat \<Rightarrow> bool) \<Rightarrow> 'i IteratorWrapper \<Rightarrow> (slice \<times> slice) list \<Rightarrow> nat \<Rightarrow> bool" where
  "wrapper_at at w es n \<longleftrightarrow>
     at (iw_iter w) es n \<and> (iw_valid w \<longleftrightarrow> n < length es) \<and> (n < length es \<longrightarrow> iw_key w = fst (es ! n))"

context sorted_iterator
begin

lemma lower_iff:
  assumes M: "sorted_wrt (entry_less cmp) M" "\<forall>e \<in> set M. valid (fst e)" and k: "valid k" and i: "i < length M"
  shows "Compare cmp (fst (M ! i)) k < 0 \<longleftrightarrow> i < lower cmp k M"
proof
  let ?P = "\<lambda>e. Compare cmp (fst e) k < 0"
  assume P: "?P (M ! i)"
  show "i < lower cmp k M"
  proof (rule ccontr)
    assume n: "\<not> i < lower cmp k M"
    then have q: "lower cmp k M < length M" using i by linarith
    then have out: "\<not> ?P (M ! lower cmp k M)" using nth_length_takeWhile [of ?P M] unfolding lower_def by simp
    then have "lower cmp k M < i" using n P by (metis linorder_neqE_nat)
    then have "Compare cmp (fst (M ! lower cmp k M)) (fst (M ! i)) < 0"
      using sorted_wrt_nth_less [OF M(1)] i by (simp add: entry_less_def)
    then show False using key_trans [OF _ _ k _ P] out M(2) q i by auto
  qed
next
  assume "i < lower cmp k M"
  then show "Compare cmp (fst (M ! i)) k < 0"
    unfolding lower_def using set_takeWhileD [of "M ! i" "\<lambda>e. Compare cmp (fst e) k < 0" M] takeWhile_nth [of i "\<lambda>e. Compare cmp (fst e) k < 0" M]
    by (metis nth_mem)
qed

lemma at_parts:
  assumes "at x es n" "n < length es"
  shows "i_key it x = fst (es ! n)" "i_value it x = snd (es ! n)"
  by (simp_all flip: at_key [OF assms])

lemma step_refines:
  assumes "at x es n" "\<forall>k. c = CallSeek k \<longrightarrow> valid k"
  shows "case list_step cmp es c n of None \<Rightarrow> iter_step it c x = None | Some m \<Rightarrow> \<exists>y. iter_step it c x = Some y \<and> at y es m"
  using assms at_Valid [OF assms(1)] at_Seek [OF assms(1)] at_SeekToFirst [OF assms(1)] at_SeekToLast [OF assms(1)] at_Next [OF assms(1)] at_Prev [OF assms(1)]
  by (cases c) auto

lemma run_refines:
  "at x es n \<Longrightarrow> \<forall>k. CallSeek k \<in> set cs \<longrightarrow> valid k \<Longrightarrow> iter_run it cs x = list_run cmp es cs n"
proof (induction cs arbitrary: x n)
  case (Cons c cs)
  have step: "case list_step cmp es c n of None \<Rightarrow> iter_step it c x = None | Some m \<Rightarrow> \<exists>y. iter_step it c x = Some y \<and> at y es m"
    by (rule step_refines [OF Cons.prems(1)]) (use Cons.prems(2) in auto)
  show ?case
  proof (cases "list_step cmp es c n")
    case None
    then show ?thesis using step by simp
  next
    case (Some m)
    then obtain y where y: "iter_step it c x = Some y" "at y es m" using step by auto
    have "iter_run it cs y = list_run cmp es cs m" by (rule Cons.IH [OF y(2)]) (use Cons.prems(2) in simp)
    moreover have "(if i_Valid it y then Some (i_key it y, i_value it y) else None) = (if m < length es then Some (es ! m) else None)"
      using at_Valid [OF y(2)] at_key [OF y(2)] by simp
    ultimately show ?thesis using Some y(1) by simp
  qed
qed simp

lemma Update_at: "at x es n \<Longrightarrow> wrapper_at at (iw_Update it x w) es n"
  using at_Valid [of x es n] at_parts [of x es n] by (simp add: wrapper_at_def iw_Update_def Let_def)

lemma new_at: "at x es n \<Longrightarrow> wrapper_at at (iw_new it x) es n"
  by (simp add: iw_new_def Update_at)

lemma wrapper_Seek: "wrapper_at at w es n \<Longrightarrow> valid k \<Longrightarrow> \<exists>w'. iw_Seek it k w = Some w' \<and> wrapper_at at w' es (lower cmp k es)"
  using at_Seek [of "iw_iter w" es n k] by (auto simp: wrapper_at_def [of _ w] iw_Seek_def Update_at)

lemma wrapper_SeekToFirst: "wrapper_at at w es n \<Longrightarrow> \<exists>w'. iw_SeekToFirst it w = Some w' \<and> wrapper_at at w' es 0"
  using at_SeekToFirst [of "iw_iter w" es n] by (auto simp: wrapper_at_def [of _ w] iw_SeekToFirst_def Update_at)

lemma wrapper_SeekToLast: "wrapper_at at w es n \<Longrightarrow> \<exists>w'. iw_SeekToLast it w = Some w' \<and> wrapper_at at w' es (step_back (length es) es)"
  using at_SeekToLast [of "iw_iter w" es n] by (auto simp: wrapper_at_def [of _ w] iw_SeekToLast_def Update_at)

lemma wrapper_Next: "wrapper_at at w es n \<Longrightarrow> n < length es \<Longrightarrow> \<exists>w'. iw_Next it w = Some w' \<and> wrapper_at at w' es (Suc n)"
  using at_Next [of "iw_iter w" es n] by (auto simp: wrapper_at_def [of _ w] iw_Next_def Update_at)

lemma wrapper_Prev: "wrapper_at at w es n \<Longrightarrow> n < length es \<Longrightarrow> \<exists>w'. iw_Prev it w = Some w' \<and> wrapper_at at w' es (step_back n es)"
  using at_Prev [of "iw_iter w" es n] by (auto simp: wrapper_at_def [of _ w] iw_Prev_def Update_at)

lemma wrapper_entries: "wrapper_at at w es n \<Longrightarrow> n \<le> length es \<and> (\<forall>e \<in> set es. valid (fst e)) \<and> sorted_wrt (entry_less cmp) es"
  using at_entries by (auto simp: wrapper_at_def)

lemma wrapper_entry: "wrapper_at at w es n \<Longrightarrow> n < length es \<Longrightarrow> (iw_key w, i_value it (iw_iter w)) = es ! n"
  using at_parts [of "iw_iter w" es n] by (simp add: wrapper_at_def)

end

end
