(* ===== verification/Ldb_Merger.thy ===== *)
theory Ldb_Merger
  imports Ldb_Iterator
begin

text \<open>
  The iterator that merges several (\<^verbatim>\<open>table/merger.cc\<close>). It relies on the contract \<open>sorted_iterator\<close> for its children and meets it for the
  merged list. A child is its index; null is \<open>None\<close>.

  The invariant: the entries that were passed are a prefix of the merged list. Moving forward each child is at its first entry that was not
  passed, moving backward at its last entry that was.
\<close>

section \<open>The merging iterator\<close>

datatype direction = kForward | kReverse

record 'i MergingIterator =
  mi_children :: "'i IteratorWrapper list"
  mi_current :: "nat option"
  mi_direction :: direction

definition new_MergingIterator :: "'i Iterator \<Rightarrow> 'i list \<Rightarrow> 'i MergingIterator" where
  "new_MergingIterator it children = \<lparr>mi_children = map (iw_new it) children, mi_current = None, mi_direction = kForward\<rparr>"

fun each_child :: "(nat \<Rightarrow> 'i IteratorWrapper \<Rightarrow> 'i IteratorWrapper option) \<Rightarrow> nat \<Rightarrow> 'i IteratorWrapper list \<Rightarrow> 'i IteratorWrapper list option" where
  "each_child f i [] = Some []"
| "each_child f i (w # ws) = do { w1 \<leftarrow> f i w; ws1 \<leftarrow> each_child f (Suc i) ws; Some (w1 # ws1) }"

definition smaller_child :: "Comparator \<Rightarrow> 'i IteratorWrapper list \<Rightarrow> nat \<Rightarrow> nat option \<Rightarrow> nat option" where
  "smaller_child cmp ws i smallest =
     (if iw_valid (ws ! i) then
        case smallest of
          None \<Rightarrow> Some i
        | Some j \<Rightarrow> if Compare cmp (iw_key (ws ! i)) (iw_key (ws ! j)) < 0 then Some i else smallest
      else smallest)"

definition FindSmallest :: "Comparator \<Rightarrow> 'i MergingIterator \<Rightarrow> 'i MergingIterator" where
  "FindSmallest cmp m = m\<lparr>mi_current := fold (smaller_child cmp (mi_children m)) [0..<length (mi_children m)] None\<rparr>"

definition larger_child :: "Comparator \<Rightarrow> 'i IteratorWrapper list \<Rightarrow> nat \<Rightarrow> nat option \<Rightarrow> nat option" where
  "larger_child cmp ws i largest =
     (if iw_valid (ws ! i) then
        case largest of
          None \<Rightarrow> Some i
        | Some j \<Rightarrow> if Compare cmp (iw_key (ws ! i)) (iw_key (ws ! j)) > 0 then Some i else largest
      else largest)"

definition FindLargest :: "Comparator \<Rightarrow> 'i MergingIterator \<Rightarrow> 'i MergingIterator" where
  "FindLargest cmp m = m\<lparr>mi_current := fold (larger_child cmp (mi_children m)) (rev [0..<length (mi_children m)]) None\<rparr>"

definition mi_Valid :: "'i MergingIterator \<Rightarrow> bool" where
  "mi_Valid m \<longleftrightarrow> mi_current m \<noteq> None"

definition mi_key :: "'i MergingIterator \<Rightarrow> slice" where
  "mi_key m = (case mi_current m of None \<Rightarrow> [] | Some c \<Rightarrow> iw_key (mi_children m ! c))"

definition mi_value :: "'i Iterator \<Rightarrow> 'i MergingIterator \<Rightarrow> slice" where
  "mi_value it m = (case mi_current m of None \<Rightarrow> [] | Some c \<Rightarrow> i_value it (iw_iter (mi_children m ! c)))"

fun first_error :: "status list \<Rightarrow> status \<Rightarrow> status" where
  "first_error [] s = s"
| "first_error (x # xs) s = (if is_ok x then first_error xs x else x)"

definition mi_status :: "'i Iterator \<Rightarrow> 'i MergingIterator \<Rightarrow> status" where
  "mi_status it m = first_error (map (\<lambda>w. i_status it (iw_iter w)) (mi_children m)) OK"

definition mi_SeekToFirst :: "'i Iterator \<Rightarrow> Comparator \<Rightarrow> 'i MergingIterator \<Rightarrow> 'i MergingIterator option" where
  "mi_SeekToFirst it cmp m =
     map_option (\<lambda>ws. (FindSmallest cmp (m\<lparr>mi_children := ws\<rparr>))\<lparr>mi_direction := kForward\<rparr>) (each_child (\<lambda>_. iw_SeekToFirst it) 0 (mi_children m))"

definition mi_SeekToLast :: "'i Iterator \<Rightarrow> Comparator \<Rightarrow> 'i MergingIterator \<Rightarrow> 'i MergingIterator option" where
  "mi_SeekToLast it cmp m =
     map_option (\<lambda>ws. (FindLargest cmp (m\<lparr>mi_children := ws\<rparr>))\<lparr>mi_direction := kReverse\<rparr>) (each_child (\<lambda>_. iw_SeekToLast it) 0 (mi_children m))"

definition mi_Seek :: "'i Iterator \<Rightarrow> Comparator \<Rightarrow> slice \<Rightarrow> 'i MergingIterator \<Rightarrow> 'i MergingIterator option" where
  "mi_Seek it cmp target m =
     map_option (\<lambda>ws. (FindSmallest cmp (m\<lparr>mi_children := ws\<rparr>))\<lparr>mi_direction := kForward\<rparr>) (each_child (\<lambda>_. iw_Seek it target) 0 (mi_children m))"

text \<open>Positioning the children that are not current, when the direction changes.\<close>

definition after_key :: "'i Iterator \<Rightarrow> Comparator \<Rightarrow> nat \<Rightarrow> slice \<Rightarrow> nat \<Rightarrow> 'i IteratorWrapper \<Rightarrow> 'i IteratorWrapper option" where
  "after_key it cmp current key i w =
     (if i \<noteq> current then
        do {
          w1 \<leftarrow> iw_Seek it key w;
          if iw_valid w1 \<and> Compare cmp key (iw_key w1) = 0 then iw_Next it w1 else Some w1
        }
      else Some w)"

definition before_key :: "'i Iterator \<Rightarrow> nat \<Rightarrow> slice \<Rightarrow> nat \<Rightarrow> 'i IteratorWrapper \<Rightarrow> 'i IteratorWrapper option" where
  "before_key it current key i w =
     (if i \<noteq> current then
        do {
          w1 \<leftarrow> iw_Seek it key w;
          if iw_valid w1 then iw_Prev it w1 else iw_SeekToLast it w1
        }
      else Some w)"

definition mi_Next :: "'i Iterator \<Rightarrow> Comparator \<Rightarrow> 'i MergingIterator \<Rightarrow> 'i MergingIterator option" where
  "mi_Next it cmp m =
     do {
       c \<leftarrow> mi_current m;
       ws \<leftarrow> (if mi_direction m \<noteq> kForward then each_child (after_key it cmp c (mi_key m)) 0 (mi_children m) else Some (mi_children m));
       w \<leftarrow> iw_Next it (ws ! c);
       Some (FindSmallest cmp (m\<lparr>mi_children := ws[c := w], mi_direction := kForward\<rparr>))
     }"

definition mi_Prev :: "'i Iterator \<Rightarrow> Comparator \<Rightarrow> 'i MergingIterator \<Rightarrow> 'i MergingIterator option" where
  "mi_Prev it cmp m =
     do {
       c \<leftarrow> mi_current m;
       ws \<leftarrow> (if mi_direction m \<noteq> kReverse then each_child (before_key it c (mi_key m)) 0 (mi_children m) else Some (mi_children m));
       w \<leftarrow> iw_Prev it (ws ! c);
       Some (FindLargest cmp (m\<lparr>mi_children := ws[c := w], mi_direction := kReverse\<rparr>))
     }"

text \<open>What the constructor function returns: an empty iterator, the only child, or a merging iterator.\<close>

datatype 'i merged = Empty | OnlyChild 'i | Merging "'i MergingIterator"

fun NewMergingIterator :: "'i Iterator \<Rightarrow> 'i list \<Rightarrow> 'i merged" where
  "NewMergingIterator it [] = Empty"
| "NewMergingIterator it [x] = OnlyChild x"
| "NewMergingIterator it children = Merging (new_MergingIterator it children)"

fun merged_case :: "'b \<Rightarrow> ('i \<Rightarrow> 'b) \<Rightarrow> ('i MergingIterator \<Rightarrow> 'b) \<Rightarrow> 'i merged \<Rightarrow> 'b" where
  "merged_case e f g Empty = e"
| "merged_case e f g (OnlyChild x) = f x"
| "merged_case e f g (Merging m) = g m"

definition merged_move :: "('i \<Rightarrow> 'i option) \<Rightarrow> ('i MergingIterator \<Rightarrow> 'i MergingIterator option) \<Rightarrow> 'i merged \<Rightarrow> 'i merged option" where
  "merged_move f g = merged_case (Some Empty) (\<lambda>x. map_option OnlyChild (f x)) (\<lambda>m. map_option Merging (g m))"

text \<open>An empty iterator is never valid, so its \<open>Next\<close> and \<open>Prev\<close> are not called.\<close>

definition merged_ops :: "'i Iterator \<Rightarrow> Comparator \<Rightarrow> 'i merged Iterator" where
  "merged_ops it cmp =
     \<lparr>i_Valid = merged_case False (i_Valid it) mi_Valid, i_key = merged_case [] (i_key it) mi_key,
      i_value = merged_case [] (i_value it) (mi_value it), i_status = merged_case OK (i_status it) (mi_status it),
      i_Seek = (\<lambda>k. merged_move (i_Seek it k) (mi_Seek it cmp k)),
      i_SeekToFirst = merged_move (i_SeekToFirst it) (mi_SeekToFirst it cmp),
      i_SeekToLast = merged_move (i_SeekToLast it) (mi_SeekToLast it cmp),
      i_Next = merged_move (i_Next it) (mi_Next it cmp), i_Prev = merged_move (i_Prev it) (mi_Prev it cmp)\<rparr>"

section \<open>The loops\<close>

lemma each_child_map:
  "(\<And>j. j < length ws \<Longrightarrow> f (k + j) (ws ! j) = Some (g j)) \<Longrightarrow> each_child f k ws = Some (map g [0..<length ws])"
proof (induction ws arbitrary: k g)
  case (Cons w ws)
  have "each_child f (Suc k) ws = Some (map (\<lambda>j. g (Suc j)) [0..<length ws])"
    by (rule Cons.IH) (use Cons.prems [of "Suc j" for j] in simp)
  moreover have "f k w = Some (g 0)" using Cons.prems [of 0] by simp
  moreover have "map g [0..<length (w # ws)] = g 0 # map (\<lambda>j. g (Suc j)) [0..<length ws]"
    by (simp only: length_Cons upt_conv_Cons zero_less_Suc list.map map_Suc_upt [symmetric] map_map comp_def)
  ultimately show ?case by simp
qed simp

lemma each_child_ok:
  assumes "\<And>j. j < length ws \<Longrightarrow> \<exists>w. f j (ws ! j) = Some w \<and> R j w"
  obtains ws' where "each_child f 0 ws = Some ws'" "length ws' = length ws" "\<forall>j < length ws. R j (ws' ! j)"
proof -
  obtain g where g: "\<And>j. j < length ws \<Longrightarrow> f j (ws ! j) = Some (g j) \<and> R j (g j)" using assms by metis
  have "each_child f 0 ws = Some (map g [0..<length ws])" by (rule each_child_map) (simp add: g)
  then show ?thesis by (rule that) (simp_all add: g)
qed

text \<open>The loops that look for the best child.\<close>

definition better_child :: "(nat \<Rightarrow> nat \<Rightarrow> bool) \<Rightarrow> 'i IteratorWrapper list \<Rightarrow> nat \<Rightarrow> nat option \<Rightarrow> nat option" where
  "better_child better ws i best =
     (if iw_valid (ws ! i) then case best of None \<Rightarrow> Some i | Some j \<Rightarrow> if better i j then Some i else best else best)"

lemma best_child:
  assumes "\<And>i j k. {i, j, k} \<subseteq> set is \<Longrightarrow> \<forall>l \<in> {i, j, k}. iw_valid (ws ! l) \<Longrightarrow> better i j \<Longrightarrow> better j k \<Longrightarrow> better i k"
    and "\<And>i. i \<in> set is \<Longrightarrow> iw_valid (ws ! i) \<Longrightarrow> \<not> better i i"
  shows "case fold (better_child better ws) is None of
      None \<Rightarrow> \<forall>i \<in> set is. \<not> iw_valid (ws ! i)
    | Some c \<Rightarrow> c \<in> set is \<and> iw_valid (ws ! c) \<and> (\<forall>i \<in> set is. iw_valid (ws ! i) \<longrightarrow> \<not> better i c)"
  using assms
proof (induction "is" rule: rev_induct)
  case (snoc x xs)
  let ?r = "fold (better_child better ws) xs None"
  have IH: "case ?r of
      None \<Rightarrow> \<forall>i \<in> set xs. \<not> iw_valid (ws ! i)
    | Some c \<Rightarrow> c \<in> set xs \<and> iw_valid (ws ! c) \<and> (\<forall>i \<in> set xs. iw_valid (ws ! i) \<longrightarrow> \<not> better i c)"
    by (rule snoc.IH) (use snoc.prems in auto)
  have step: "fold (better_child better ws) (xs @ [x]) None = better_child better ws x ?r" by simp
  show ?case unfolding step
  proof (cases "iw_valid (ws ! x)")
    case False
    then have "better_child better ws x ?r = ?r" by (simp add: better_child_def)
    then show "case better_child better ws x ?r of
        None \<Rightarrow> \<forall>i \<in> set (xs @ [x]). \<not> iw_valid (ws ! i)
      | Some c \<Rightarrow> c \<in> set (xs @ [x]) \<and> iw_valid (ws ! c) \<and> (\<forall>i \<in> set (xs @ [x]). iw_valid (ws ! i) \<longrightarrow> \<not> better i c)"
      using IH False by (auto split: option.splits)
  next
    case True
    have irrefl: "\<not> better x x" using snoc.prems(2) [of x] True by simp
    show "case better_child better ws x ?r of
        None \<Rightarrow> \<forall>i \<in> set (xs @ [x]). \<not> iw_valid (ws ! i)
      | Some c \<Rightarrow> c \<in> set (xs @ [x]) \<and> iw_valid (ws ! c) \<and> (\<forall>i \<in> set (xs @ [x]). iw_valid (ws ! i) \<longrightarrow> \<not> better i c)"
    proof (cases ?r)
      case None
      have "better_child better ws x None = Some x" using True by (simp add: better_child_def)
      then show ?thesis using IH True irrefl None by simp
    next
      case (Some c)
      have "\<not> better i x" if "i \<in> set xs" "iw_valid (ws ! i)" "better x c" for i
        using that snoc.prems(1) [of i x c] IH Some True by auto
      moreover have "better_child better ws x (Some c) = Some (if better x c then x else c)" using True by (simp add: better_child_def)
      ultimately show ?thesis using IH Some True irrefl by auto
    qed
  qed
qed simp

lemma smaller_child_better: "smaller_child cmp ws = better_child (\<lambda>i j. Compare cmp (iw_key (ws ! i)) (iw_key (ws ! j)) < 0) ws"
  by (intro ext) (simp add: smaller_child_def better_child_def)

lemma larger_child_better: "larger_child cmp ws = better_child (\<lambda>i j. Compare cmp (iw_key (ws ! i)) (iw_key (ws ! j)) > 0) ws"
  by (intro ext) (simp add: larger_child_def better_child_def)

section \<open>Merged lists\<close>

text \<open>\<open>M\<close> merges the lists: sorted, with the entries of the lists, each in one of them.\<close>

definition merges :: "Comparator \<Rightarrow> (slice \<times> slice) list \<Rightarrow> (slice \<times> slice) list list \<Rightarrow> bool" where
  "merges cmp M ess \<longleftrightarrow>
     sorted_wrt (entry_less cmp) M \<and> set M = \<Union> (set ` set ess) \<and>
     (\<forall>i < length ess. \<forall>j < length ess. i \<noteq> j \<longrightarrow> set (ess ! i) \<inter> set (ess ! j) = {})"

text \<open>The number of entries of a list that are among the first \<open>p\<close> of the merged list.\<close>

definition passed :: "(slice \<times> slice) list \<Rightarrow> nat \<Rightarrow> (slice \<times> slice) list \<Rightarrow> nat" where
  "passed M p es = length (takeWhile (\<lambda>e. e \<in> set (take p M)) es)"

lemma passed_le: "passed M p es \<le> length es"
  by (simp add: passed_def length_takeWhile_le)

lemma passed_0 [simp]: "passed M 0 es = 0"
  by (cases es) (simp_all add: passed_def)

lemma passed_all: "set es \<subseteq> set M \<Longrightarrow> passed M (length M) es = length es"
proof -
  assume "set es \<subseteq> set M"
  then have "takeWhile (\<lambda>e. e \<in> set (take (length M) M)) es = es" by auto
  then show ?thesis unfolding passed_def by (rule arg_cong)
qed

lemma passed_Suc_out: "p < length M \<Longrightarrow> M ! p \<notin> set es \<Longrightarrow> passed M (Suc p) es = passed M p es"
  by (auto simp: passed_def take_Suc_conv_app_nth intro!: arg_cong [where f = length] takeWhile_cong)

context key_order
begin

lemma key_irrefl: "valid a \<Longrightarrow> \<not> compare a a < 0"
  using key_sym [of a a] by linarith

lemma key_asym: "valid a \<Longrightarrow> valid b \<Longrightarrow> compare a b < 0 \<Longrightarrow> \<not> compare b a < 0"
  using key_sym [of a b] by linarith

end

context sorted_iterator
begin

lemma entry_asym: "valid (fst a) \<Longrightarrow> valid (fst b) \<Longrightarrow> entry_less cmp a b \<Longrightarrow> \<not> entry_less cmp b a"
  unfolding entry_less_def by (rule key_asym)

lemma sorted_index:
  assumes "sorted_wrt (entry_less cmp) M" "\<forall>e \<in> set M. valid (fst e)" "i < length M" "j < length M"
  shows "entry_less cmp (M ! i) (M ! j) \<longleftrightarrow> i < j"
proof
  assume less: "entry_less cmp (M ! i) (M ! j)"
  show "i < j"
  proof (rule ccontr)
    assume "\<not> i < j"
    then consider "i = j" | "j < i" by linarith
    then show False
    proof cases
      case 1 then show ?thesis using less assms(2,3) entry_asym [of "M ! i" "M ! i"] by simp
    next
      case 2
      then have "entry_less cmp (M ! j) (M ! i)" using sorted_wrt_nth_less [OF assms(1)] assms(3) by simp
      then show ?thesis using less assms(2,3,4) entry_asym [of "M ! i" "M ! j"] by simp
    qed
  qed
qed (use sorted_wrt_nth_less [OF assms(1)] assms(4) in simp)

lemma sorted_distinct:
  assumes "sorted_wrt (entry_less cmp) M" "\<forall>e \<in> set M. valid (fst e)"
  shows "distinct M"
  unfolding distinct_conv_nth
proof (intro allI impI)
  fix i j assume "i < length M" "j < length M" "i \<noteq> j"
  then show "M ! i \<noteq> M ! j" using sorted_index [OF assms, of i j] sorted_index [OF assms, of j i] sorted_index [OF assms, of i i] by auto
qed

lemma in_take_iff: "distinct M \<Longrightarrow> i < length M \<Longrightarrow> M ! i \<in> set (take p M) \<longleftrightarrow> i < p"
  by (auto simp: in_set_conv_nth nth_eq_iff_index_eq)

lemma prefix_closed:
  assumes M: "sorted_wrt (entry_less cmp) M" "\<forall>e \<in> set M. valid (fst e)"
    and ab: "a \<in> set M" "entry_less cmp a b" "b \<in> set (take p M)"
  shows "a \<in> set (take p M)"
proof -
  obtain i where i: "i < length M" "a = M ! i" using ab(1) by (auto simp: in_set_conv_nth)
  obtain j where j: "j < length M" "b = M ! j" using in_set_takeD [OF ab(3)] by (auto simp: in_set_conv_nth)
  note d = sorted_distinct [OF M]
  have "i < j" using ab(2) sorted_index [OF M i(1) j(1)] i j by simp
  then show ?thesis using ab(3) in_take_iff [OF d i(1)] in_take_iff [OF d j(1)] i j by simp
qed

lemma passed_iff:
  assumes M: "sorted_wrt (entry_less cmp) M" "\<forall>e \<in> set M. valid (fst e)"
    and es: "sorted_wrt (entry_less cmp) es" "set es \<subseteq> set M" and i: "i < length es"
  shows "es ! i \<in> set (take p M) \<longleftrightarrow> i < passed M p es"
proof
  let ?P = "\<lambda>e. e \<in> set (take p M)"
  assume in_M: "es ! i \<in> set (take p M)"
  show "i < passed M p es"
  proof (rule ccontr)
    assume n: "\<not> i < passed M p es"
    then have q: "passed M p es < length es" using i by linarith
    then have out: "es ! passed M p es \<notin> set (take p M)" using nth_length_takeWhile [of ?P es] unfolding passed_def by simp
    then have "passed M p es < i" using n in_M by (metis linorder_neqE_nat)
    then have "entry_less cmp (es ! passed M p es) (es ! i)" using sorted_wrt_nth_less [OF es(1)] i by simp
    moreover have "es ! passed M p es \<in> set M" using es(2) q by auto
    ultimately show False using prefix_closed [OF M] in_M out by blast
  qed
next
  assume "i < passed M p es"
  then show "es ! i \<in> set (take p M)"
    using set_takeWhileD [of "es ! i" "\<lambda>e. e \<in> set (take p M)" es] takeWhile_nth [of i "\<lambda>e. e \<in> set (take p M)" es]
    by (metis nth_mem passed_def)
qed

lemma passed_in:
  assumes M: "sorted_wrt (entry_less cmp) M" "\<forall>e \<in> set M. valid (fst e)"
    and es: "sorted_wrt (entry_less cmp) es" "set es \<subseteq> set M" and p: "p < length M" "M ! p \<in> set es"
  shows "passed M p es < length es" "es ! passed M p es = M ! p" "passed M (Suc p) es = Suc (passed M p es)"
proof -
  obtain i where i: "i < length es" "es ! i = M ! p" using p(2) by (auto simp: in_set_conv_nth)
  note d = sorted_distinct [OF M] and iff = passed_iff [OF M es]
  have "set es \<subseteq> set M" by (rule es)
  then have ve: "\<forall>e \<in> set es. valid (fst e)" using M(2) by blast
  have Suc_p: "set (take (Suc p) M) = insert (M ! p) (set (take p M))" using p(1) by (simp add: take_Suc_conv_app_nth)
  have other: "es ! j \<noteq> M ! p" if "j < length es" "j \<noteq> i" for j
    using that i sorted_distinct [OF es(1) ve] by (metis nth_eq_iff_index_eq)
  have below: "es ! j \<in> set (take p M) \<longleftrightarrow> j < i" if j: "j < length es" for j
  proof -
    obtain l where l: "l < length M" "es ! j = M ! l" using es(2) j by (metis in_set_conv_nth nth_mem subsetD)
    have "j < i \<longleftrightarrow> l < p" using sorted_index [OF es(1) ve j i(1)] sorted_index [OF M l(1) p(1)] i(2) l(2) by simp
    then show ?thesis using in_take_iff [OF d l(1)] l(2) by simp
  qed
  have "i = passed M p es"
  proof (rule antisym)
    show "i \<le> passed M p es"
      using below [of "i - 1"] iff [of "i - 1" p] i(1) by (cases i) auto
    show "passed M p es \<le> i" using below [OF i(1)] iff [OF i(1), of p] by simp
  qed
  then show "passed M p es < length es" "es ! passed M p es = M ! p" using i by simp_all
  have "passed M (Suc p) es = Suc i"
  proof (rule antisym)
    show "Suc i \<le> passed M (Suc p) es" using iff [OF i(1), of "Suc p"] i(2) Suc_p by simp
    show "passed M (Suc p) es \<le> Suc i"
    proof (rule ccontr)
      assume "\<not> ?thesis"
      then have "Suc i < passed M (Suc p) es" "Suc i < length es" using passed_le [of M "Suc p" es] by linarith+
      then show False using iff [of "Suc i" "Suc p"] below [of "Suc i"] other [of "Suc i"] Suc_p by simp
    qed
  qed
  then show "passed M (Suc p) es = Suc (passed M p es)" using \<open>i = passed M p es\<close> by simp
qed

lemma lower_passed:
  assumes M: "sorted_wrt (entry_less cmp) M" "\<forall>e \<in> set M. valid (fst e)" and es: "set es \<subseteq> set M" and k: "valid k"
  shows "lower cmp k es = passed M (lower cmp k M) es"
proof -
  let ?P = "\<lambda>e. Compare cmp (fst e) k < 0"
  have "e \<in> set (take (lower cmp k M) M) \<longleftrightarrow> ?P e" if e: "e \<in> set M" for e
  proof -
    obtain i where i: "i < length M" "e = M ! i" using e by (auto simp: in_set_conv_nth)
    then show ?thesis using lower_iff [OF M k i(1)] in_take_iff [OF sorted_distinct [OF M] i(1)] by simp
  qed
  then have "takeWhile ?P es = takeWhile (\<lambda>e. e \<in> set (take (lower cmp k M) M)) es" using es by (intro takeWhile_cong) auto
  then show ?thesis by (simp add: passed_def lower_def)
qed

lemma lower_at:
  assumes M: "sorted_wrt (entry_less cmp) M" "\<forall>e \<in> set M. valid (fst e)" and p: "p < length M"
  shows "lower cmp (fst (M ! p)) M = p"
proof -
  have "takeWhile (\<lambda>e. Compare cmp (fst e) (fst (M ! p)) < 0) M = take p M"
  proof (rule takeWhile_eq_take_P_nth)
    show "Compare cmp (fst (M ! i)) (fst (M ! p)) < 0" if "i < p" "i < length M" for i
      using that sorted_index [OF M _ p] by (simp add: entry_less_def)
    show "\<not> Compare cmp (fst (M ! p)) (fst (M ! p)) < 0" using M(2) p key_irrefl by simp
  qed
  then show ?thesis using p by (simp add: lower_def)
qed

end

section \<open>The children\<close>

definition children_at ::
    "('i \<Rightarrow> (slice \<times> slice) list \<Rightarrow> nat \<Rightarrow> bool) \<Rightarrow> 'i IteratorWrapper list \<Rightarrow> (slice \<times> slice) list list \<Rightarrow>
     ((slice \<times> slice) list \<Rightarrow> nat) \<Rightarrow> bool" where
  "children_at at ws ess pos \<longleftrightarrow> length ws = length ess \<and> (\<forall>i < length ess. wrapper_at at (ws ! i) (ess ! i) (pos (ess ! i)))"

definition some_at ::
    "('i \<Rightarrow> (slice \<times> slice) list \<Rightarrow> nat \<Rightarrow> bool) \<Rightarrow> 'i IteratorWrapper list \<Rightarrow> (slice \<times> slice) list list \<Rightarrow> bool" where
  "some_at at ws ess \<longleftrightarrow> length ws = length ess \<and> (\<forall>i < length ess. \<exists>n. wrapper_at at (ws ! i) (ess ! i) n)"

definition retreated :: "(slice \<times> slice) list \<Rightarrow> nat \<Rightarrow> (slice \<times> slice) list \<Rightarrow> nat" where
  "retreated M p es = step_back (passed M p es) es"

fun direction_pos :: "direction \<Rightarrow> (slice \<times> slice) list \<Rightarrow> nat \<Rightarrow> (slice \<times> slice) list \<Rightarrow> nat" where
  "direction_pos kForward M n = passed M n"
| "direction_pos kReverse M n = retreated M (Suc n)"

definition at_merge ::
    "Comparator \<Rightarrow> ('i \<Rightarrow> (slice \<times> slice) list \<Rightarrow> nat \<Rightarrow> bool) \<Rightarrow> 'i MergingIterator \<Rightarrow> (slice \<times> slice) list \<Rightarrow> nat \<Rightarrow> bool" where
  "at_merge cmp at m M n \<longleftrightarrow>
     (\<exists>ess. merges cmp M ess \<and> n \<le> length M \<and> some_at at (mi_children m) ess \<and>
       (if n < length M then
          children_at at (mi_children m) ess (direction_pos (mi_direction m) M n) \<and>
          (\<exists>c < length ess. mi_current m = Some c \<and> M ! n \<in> set (ess ! c))
        else mi_current m = None))"

lemma children_some: "children_at at ws ess pos \<Longrightarrow> some_at at ws ess"
  by (auto simp: children_at_def some_at_def)

lemma merges_in: "merges cmp M ess \<Longrightarrow> i < length ess \<Longrightarrow> set (ess ! i) \<subseteq> set M"
  by (auto simp: merges_def)

lemma merges_child:
  assumes "merges cmp M ess" "e \<in> set M"
  obtains c where "c < length ess" "e \<in> set (ess ! c)" "\<forall>i < length ess. i \<noteq> c \<longrightarrow> e \<notin> set (ess ! i)"
proof -
  obtain c where c: "c < length ess" "e \<in> set (ess ! c)" using assms by (auto simp: merges_def in_set_conv_nth [of _ ess])
  moreover have "\<forall>i < length ess. i \<noteq> c \<longrightarrow> e \<notin> set (ess ! i)" using assms(1) c unfolding merges_def by blast
  ultimately show ?thesis by (rule that)
qed

context sorted_iterator
begin

lemma merged_ok:
  assumes "merges cmp M ess" "some_at at ws ess"
  shows "sorted_wrt (entry_less cmp) M" "\<forall>e \<in> set M. valid (fst e)" "i < length ess \<Longrightarrow> sorted_wrt (entry_less cmp) (ess ! i)"
proof -
  have child: "sorted_wrt (entry_less cmp) (ess ! i)" "\<forall>e \<in> set (ess ! i). valid (fst e)" if "i < length ess" for i
    using wrapper_entries [of "ws ! i" "ess ! i"] assms(2) that by (auto simp: some_at_def)
  show "sorted_wrt (entry_less cmp) M" using assms(1) by (simp add: merges_def)
  show "i < length ess \<Longrightarrow> sorted_wrt (entry_less cmp) (ess ! i)" by (rule child)
  show "\<forall>e \<in> set M. valid (fst e)" using merges_child [OF assms(1)] child(2) by metis
qed

lemma move_children:
  assumes "some_at at ws ess" "\<And>i w es n. i < length ess \<Longrightarrow> w = ws ! i \<Longrightarrow> es = ess ! i \<Longrightarrow> wrapper_at at w es n \<Longrightarrow>
      \<exists>w'. f i w = Some w' \<and> wrapper_at at w' es (pos es)"
  obtains ws' where "each_child f 0 ws = Some ws'" "children_at at ws' ess pos"
proof (rule each_child_ok [of ws f "\<lambda>i w. wrapper_at at w (ess ! i) (pos (ess ! i))"])
  show "\<exists>w. f j (ws ! j) = Some w \<and> wrapper_at at w (ess ! j) (pos (ess ! j))" if "j < length ws" for j
    using assms(1) assms(2) [of j] that by (auto simp: some_at_def)
  show thesis if "each_child f 0 ws = Some ws'" "length ws' = length ws" "\<forall>j < length ws. wrapper_at at (ws' ! j) (ess ! j) (pos (ess ! j))" for ws'
    using that(1) by (rule \<open>\<And>ws'. each_child f 0 ws = Some ws' \<Longrightarrow> children_at at ws' ess pos \<Longrightarrow> thesis\<close>)
      (use that assms(1) in \<open>simp add: children_at_def some_at_def\<close>)
qed

text \<open>The entries of the children after the prefix, and the smallest of them.\<close>

lemma child_keys:
  assumes "children_at at ws ess pos" "i < length ess" "iw_valid (ws ! i)"
  shows "iw_key (ws ! i) = fst (ess ! i ! pos (ess ! i))" "pos (ess ! i) < length (ess ! i)" "valid (iw_key (ws ! i))"
proof -
  have w: "wrapper_at at (ws ! i) (ess ! i) (pos (ess ! i))" using assms(1,2) by (simp add: children_at_def)
  then show k: "iw_key (ws ! i) = fst (ess ! i ! pos (ess ! i))" "pos (ess ! i) < length (ess ! i)" using assms(3) by (auto simp: wrapper_at_def)
  then show "valid (iw_key (ws ! i))" using wrapper_entries [OF w] by simp
qed

lemma FindSmallest_at:
  assumes m: "merges cmp M ess" and ws: "children_at at ws ess (passed M p)" and p: "p \<le> length M"
  shows "p < length M \<Longrightarrow> \<exists>c < length ess. fold (smaller_child cmp ws) [0..<length ws] None = Some c \<and> M ! p \<in> set (ess ! c)"
    and "p = length M \<Longrightarrow> fold (smaller_child cmp ws) [0..<length ws] None = None"
proof -
  let ?better = "\<lambda>i j. Compare cmp (iw_key (ws ! i)) (iw_key (ws ! j)) < 0" and ?r = "fold (smaller_child cmp ws) [0..<length ws] None"
  note ok = merged_ok [OF m children_some [OF ws]] and key = child_keys [OF ws]
  have len: "length ws = length ess" using ws by (simp add: children_at_def)
  have r: "case ?r of
      None \<Rightarrow> \<forall>i \<in> set [0..<length ws]. \<not> iw_valid (ws ! i)
    | Some c \<Rightarrow> c \<in> set [0..<length ws] \<and> iw_valid (ws ! c) \<and> (\<forall>i \<in> set [0..<length ws]. iw_valid (ws ! i) \<longrightarrow> \<not> ?better i c)"
    unfolding smaller_child_better
  proof (rule best_child)
    fix i j k assume *: "{i, j, k} \<subseteq> set [0..<length ws]" "\<forall>l \<in> {i, j, k}. iw_valid (ws ! l)" "?better i j" "?better j k"
    then show "?better i k" using key_trans [OF key(3) [of i] key(3) [of j] key(3) [of k]] len by simp
  qed (use key(3) key_irrefl len in auto)
  have rest: "ess ! i ! passed M p (ess ! i) \<in> set M \<and> ess ! i ! passed M p (ess ! i) \<notin> set (take p M)" if i: "i < length ess" "iw_valid (ws ! i)" for i
    using passed_iff [OF ok(1,2) ok(3) [OF i(1)] merges_in [OF m i(1)] key(2) [OF i], of p] merges_in [OF m i(1)] key(2) [OF i] by auto
  show "?r = None" if "p = length M"
  proof (cases ?r)
    case (Some c)
    then show ?thesis using r rest [of c] that len by simp
  qed
  show "\<exists>c < length ess. ?r = Some c \<and> M ! p \<in> set (ess ! c)" if p': "p < length M"
  proof -
    obtain d where d: "d < length ess" "M ! p \<in> set (ess ! d)" by (rule merges_child [OF m, of "M ! p"]) (use p' in auto)
    note here = passed_in [OF ok(1,2) ok(3) [OF d(1)] merges_in [OF m d(1)] p' d(2)]
    have vd: "iw_valid (ws ! d)" using ws d(1) here(1) by (auto simp: children_at_def wrapper_at_def)
    then obtain c where c: "?r = Some c" using r d(1) len by (cases ?r) auto
    then have c': "c < length ess" "iw_valid (ws ! c)" "\<not> ?better d c" using r d(1) vd len by auto
    let ?e = "ess ! c ! passed M p (ess ! c)"
    obtain l where l: "l < length M" "?e = M ! l" using rest [OF c'(1,2)] by (auto simp: in_set_conv_nth)
    have "\<not> l < p" using rest [OF c'(1,2)] in_take_iff [OF sorted_distinct [OF ok(1,2)] l(1), of p] l(2) by simp
    moreover have "\<not> entry_less cmp (M ! p) ?e" using c'(3) key(1) [OF d(1) vd] key(1) [OF c'(1,2)] here(2) by (simp add: entry_less_def)
    then have "\<not> p < l" using sorted_index [OF ok(1,2) p' l(1)] l(2) by simp
    ultimately have "?e = M ! p" using l(2) by simp
    then have "M ! p \<in> set (ess ! c)" using nth_mem [OF key(2) [OF c'(1,2)]] by simp
    then show ?thesis using c c'(1) by blast
  qed
qed

lemma FindLargest_at:
  assumes m: "merges cmp M ess" and ws: "children_at at ws ess (retreated M p)" and p: "p \<le> length M"
  shows "0 < p \<Longrightarrow> \<exists>c < length ess. fold (larger_child cmp ws) (rev [0..<length ws]) None = Some c \<and> M ! (p - 1) \<in> set (ess ! c)"
    and "p = 0 \<Longrightarrow> fold (larger_child cmp ws) (rev [0..<length ws]) None = None"
proof -
  let ?better = "\<lambda>i j. Compare cmp (iw_key (ws ! i)) (iw_key (ws ! j)) > 0" and ?is = "rev [0..<length ws]"
  let ?r = "fold (larger_child cmp ws) ?is None"
  note ok = merged_ok [OF m children_some [OF ws]] and key = child_keys [OF ws]
  have len: "length ws = length ess" using ws by (simp add: children_at_def)
  have flip: "?better i j \<longleftrightarrow> Compare cmp (iw_key (ws ! j)) (iw_key (ws ! i)) < 0"
    if "i < length ess" "iw_valid (ws ! i)" "j < length ess" "iw_valid (ws ! j)" for i j
    using key_sym [OF key(3) [OF that(3,4)] key(3) [OF that(1,2)]] by simp
  have r: "case ?r of
      None \<Rightarrow> \<forall>i \<in> set ?is. \<not> iw_valid (ws ! i)
    | Some c \<Rightarrow> c \<in> set ?is \<and> iw_valid (ws ! c) \<and> (\<forall>i \<in> set ?is. iw_valid (ws ! i) \<longrightarrow> \<not> ?better i c)"
    unfolding larger_child_better
  proof (rule best_child)
    fix i j k assume *: "{i, j, k} \<subseteq> set ?is" "\<forall>l \<in> {i, j, k}. iw_valid (ws ! l)" "?better i j" "?better j k"
    then show "?better i k" using flip [of i j] flip [of j k] flip [of i k] key_trans [OF key(3) [of k] key(3) [of j] key(3) [of i]] len by simp
  qed (use flip key(3) key_irrefl len in auto)
  have rest: "passed M p (ess ! i) \<noteq> 0 \<and> ess ! i ! (passed M p (ess ! i) - 1) \<in> set (take p M)" if i: "i < length ess" "iw_valid (ws ! i)" for i
  proof -
    have "passed M p (ess ! i) \<noteq> 0" using key(2) [OF i] by (simp add: retreated_def step_back_def split: if_splits)
    moreover then have "passed M p (ess ! i) - 1 < length (ess ! i)" using passed_le [of M p "ess ! i"] by simp
    ultimately show ?thesis using passed_iff [OF ok(1,2) ok(3) [OF i(1)] merges_in [OF m i(1)], of "passed M p (ess ! i) - 1" p] by simp
  qed
  show "?r = None" if "p = 0"
  proof (cases ?r)
    case (Some c)
    then show ?thesis using r rest [of c] that len by simp
  qed
  show "\<exists>c < length ess. ?r = Some c \<and> M ! (p - 1) \<in> set (ess ! c)" if p': "0 < p"
  proof -
    have q: "p - 1 < length M" "Suc (p - 1) = p" using p p' by simp_all
    obtain d where d: "d < length ess" "M ! (p - 1) \<in> set (ess ! d)" by (rule merges_child [OF m, of "M ! (p - 1)"]) (use q in auto)
    note here = passed_in [OF ok(1,2) ok(3) [OF d(1)] merges_in [OF m d(1)] q(1) d(2), unfolded q(2)]
    have behind: "retreated M p (ess ! d) = passed M (p - 1) (ess ! d)" using here(3) by (simp add: retreated_def step_back_def)
    then have vd: "iw_valid (ws ! d)" using ws d(1) here(1) by (auto simp: children_at_def wrapper_at_def)
    then obtain c where c: "?r = Some c" using r d(1) len by (cases ?r) auto
    then have c': "c < length ess" "iw_valid (ws ! c)" "\<not> ?better d c" using r d(1) vd len by auto
    let ?e = "ess ! c ! (passed M p (ess ! c) - 1)"
    have e: "retreated M p (ess ! c) = passed M p (ess ! c) - 1" using rest [OF c'(1,2)] by (simp add: retreated_def step_back_def)
    obtain l where l: "l < length M" "?e = M ! l" using rest [OF c'(1,2)] in_set_takeD by (metis in_set_conv_nth)
    have "l < p" using rest [OF c'(1,2)] in_take_iff [OF sorted_distinct [OF ok(1,2)] l(1), of p] l(2) by simp
    moreover have "\<not> entry_less cmp ?e (M ! (p - 1))"
      using c'(3) flip [OF d(1) vd c'(1,2)] key(1) [OF d(1) vd] key(1) [OF c'(1,2)] here(2) behind e by (simp add: entry_less_def)
    then have "\<not> l < p - 1" using sorted_index [OF ok(1,2) l(1) q(1)] l(2) by simp
    ultimately have "l = p - 1" by linarith
    then have "M ! (p - 1) \<in> set (ess ! c)" using nth_mem [OF key(2) [OF c'(1,2)]] l(2) e by simp
    then show ?thesis using c c'(1) by blast
  qed
qed

end

section \<open>The operations\<close>

context sorted_iterator
begin

lemma forward_at:
  assumes "merges cmp M ess" "children_at at (mi_children m) ess (passed M p)" "p \<le> length M" "mi_direction m = kForward"
    "mi_current m = fold (smaller_child cmp (mi_children m)) [0..<length (mi_children m)] None"
  shows "at_merge cmp at m M p"
  using FindSmallest_at [OF assms(1-3)] assms children_some [OF assms(2)] unfolding at_merge_def by (intro exI [of _ ess]) auto

lemma backward_at:
  assumes "merges cmp M ess" "children_at at (mi_children m) ess (retreated M p)" "p \<le> length M" "mi_direction m = kReverse"
    "mi_current m = fold (larger_child cmp (mi_children m)) (rev [0..<length (mi_children m)]) None"
  shows "at_merge cmp at m M (step_back p M)"
proof (cases "p = 0")
  case True
  then have "mi_current m = None" using FindLargest_at(2) [OF assms(1-3)] assms(5) by simp
  then show ?thesis using True assms(1) children_some [OF assms(2)] unfolding at_merge_def step_back_def by auto
next
  case False
  then have "\<exists>c < length ess. mi_current m = Some c \<and> M ! (p - 1) \<in> set (ess ! c)" using FindLargest_at(1) [OF assms(1-3)] assms(5) by simp
  moreover have "p - 1 < length M" "direction_pos (mi_direction m) M (p - 1) = retreated M p" using False assms(3,4) by simp_all
  ultimately show ?thesis using False assms(1,2) children_some [OF assms(2)] unfolding at_merge_def step_back_def by auto
qed

lemma lower_le: "lower cmp k es \<le> length es"
  by (simp add: lower_def length_takeWhile_le)

lemma merge_seeks:
  assumes "at_merge cmp at m M n"
  shows "valid k \<Longrightarrow> \<exists>m'. mi_Seek it cmp k m = Some m' \<and> at_merge cmp at m' M (lower cmp k M)"
    and "\<exists>m'. mi_SeekToFirst it cmp m = Some m' \<and> at_merge cmp at m' M 0"
    and "\<exists>m'. mi_SeekToLast it cmp m = Some m' \<and> at_merge cmp at m' M (step_back (length M) M)"
proof -
  obtain ess where m: "merges cmp M ess" and ws: "some_at at (mi_children m) ess" using assms by (auto simp: at_merge_def)
  note ok = merged_ok [OF m ws]
  show "\<exists>m'. mi_Seek it cmp k m = Some m' \<and> at_merge cmp at m' M (lower cmp k M)" if k: "valid k"
  proof -
    obtain ws' where ws': "each_child (\<lambda>_. iw_Seek it k) 0 (mi_children m) = Some ws'" "children_at at ws' ess (passed M (lower cmp k M))"
    proof (rule move_children [OF ws])
      show "\<exists>w'. iw_Seek it k w = Some w' \<and> wrapper_at at w' es (passed M (lower cmp k M) es)"
        if "i < length ess" "es = ess ! i" "wrapper_at at w es j" for i w es j
        using wrapper_Seek [OF that(3) k] lower_passed [OF ok(1,2) merges_in [OF m that(1)] k] that(2) by simp
    qed
    show ?thesis using ws' by (auto simp: mi_Seek_def FindSmallest_def lower_le intro!: forward_at [OF m])
  qed
  obtain ws' where ws': "each_child (\<lambda>_. iw_SeekToFirst it) 0 (mi_children m) = Some ws'" "children_at at ws' ess (passed M 0)"
  proof (rule move_children [OF ws])
    show "\<exists>w'. iw_SeekToFirst it w = Some w' \<and> wrapper_at at w' es (passed M 0 es)" if "wrapper_at at w es j" for w es j
      using wrapper_SeekToFirst [OF that] by simp
  qed
  then show "\<exists>m'. mi_SeekToFirst it cmp m = Some m' \<and> at_merge cmp at m' M 0"
    by (auto simp: mi_SeekToFirst_def FindSmallest_def intro!: forward_at [OF m])
  obtain ws' where ws': "each_child (\<lambda>_. iw_SeekToLast it) 0 (mi_children m) = Some ws'" "children_at at ws' ess (retreated M (length M))"
  proof (rule move_children [OF ws])
    show "\<exists>w'. iw_SeekToLast it w = Some w' \<and> wrapper_at at w' es (retreated M (length M) es)"
      if "i < length ess" "es = ess ! i" "wrapper_at at w es j" for i w es j
      using wrapper_SeekToLast [OF that(3)] passed_all [OF merges_in [OF m that(1)]] that(2) by (simp add: retreated_def)
  qed
  then show "\<exists>m'. mi_SeekToLast it cmp m = Some m' \<and> at_merge cmp at m' M (step_back (length M) M)"
    by (auto simp: mi_SeekToLast_def FindLargest_def intro!: backward_at [OF m])
qed

lemma at_merge_current:
  assumes "at_merge cmp at m M n" "n < length M"
  obtains ess c where "merges cmp M ess" "children_at at (mi_children m) ess (direction_pos (mi_direction m) M n)"
    "c < length ess" "mi_current m = Some c" "M ! n \<in> set (ess ! c)" "\<forall>i < length ess. i \<noteq> c \<longrightarrow> M ! n \<notin> set (ess ! i)"
    "wrapper_at at (mi_children m ! c) (ess ! c) (passed M n (ess ! c))" "passed M n (ess ! c) < length (ess ! c)"
    "ess ! c ! passed M n (ess ! c) = M ! n" "passed M (Suc n) (ess ! c) = Suc (passed M n (ess ! c))"
proof -
  obtain ess c where m: "merges cmp M ess" and ws: "children_at at (mi_children m) ess (direction_pos (mi_direction m) M n)"
    and c: "c < length ess" "mi_current m = Some c" "M ! n \<in> set (ess ! c)" using assms by (auto simp: at_merge_def)
  note ok = merged_ok [OF m children_some [OF ws]]
  note here = passed_in [OF ok(1,2) ok(3) [OF c(1)] merges_in [OF m c(1)] assms(2) c(3)]
  have "direction_pos (mi_direction m) M n (ess ! c) = passed M n (ess ! c)"
    using here(3) by (cases "mi_direction m") (simp_all add: retreated_def step_back_def)
  then have "wrapper_at at (mi_children m ! c) (ess ! c) (passed M n (ess ! c))" using ws c(1) by (auto simp: children_at_def)
  moreover have "\<forall>i < length ess. i \<noteq> c \<longrightarrow> M ! n \<notin> set (ess ! i)" using m c(1,3) unfolding merges_def by blast
  ultimately show ?thesis using m ws c here by (intro that)
qed

lemma at_merge_entry:
  assumes "at_merge cmp at m M n" "n < length M"
  shows "mi_key m = fst (M ! n)" "mi_value it m = snd (M ! n)"
proof -
  obtain ess c where c: "mi_current m = Some c" "wrapper_at at (mi_children m ! c) (ess ! c) (passed M n (ess ! c))"
    "passed M n (ess ! c) < length (ess ! c)" "ess ! c ! passed M n (ess ! c) = M ! n"
    by (rule at_merge_current [OF assms])
  have "(iw_key (mi_children m ! c), i_value it (iw_iter (mi_children m ! c))) = M ! n" using wrapper_entry [OF c(2,3)] c(4) by simp
  then show "mi_key m = fst (M ! n)" "mi_value it m = snd (M ! n)" using c(1) by (auto simp: mi_key_def mi_value_def dest: arg_cong [of _ _ fst] arg_cong [of _ _ snd])
qed

end

lemma children_update:
  assumes "length ws = length ess" "c < length ess" "wrapper_at at w (ess ! c) (pos (ess ! c))"
    and "\<forall>i < length ess. i \<noteq> c \<longrightarrow> wrapper_at at (ws ! i) (ess ! i) (pos (ess ! i))"
  shows "children_at at (ws[c := w]) ess pos"
  unfolding children_at_def
proof (intro conjI allI impI)
  fix i assume "i < length ess"
  then show "wrapper_at at (ws[c := w] ! i) (ess ! i) (pos (ess ! i))" using assms by (cases "i = c") simp_all
qed (use assms(1) in simp)

context sorted_iterator
begin

lemma other_key:
  assumes M: "sorted_wrt (entry_less cmp) M" "\<forall>e \<in> set M. valid (fst e)" and e: "e \<in> set M" "n < length M" "e \<noteq> M ! n"
  shows "Compare cmp (fst (M ! n)) (fst e) \<noteq> 0"
proof -
  obtain l where l: "l < length M" "e = M ! l" using e(1) by (auto simp: in_set_conv_nth)
  have "valid (fst e)" "valid (fst (M ! n))" using M(2) e(1,2) by simp_all
  moreover have "entry_less cmp e (M ! n) \<or> entry_less cmp (M ! n) e"
    using sorted_index [OF M l(1) e(2)] sorted_index [OF M e(2) l(1)] l e(3) by (metis linorder_neqE_nat)
  ultimately show ?thesis using key_sym [of "fst e" "fst (M ! n)"] by (auto simp: entry_less_def)
qed

lemma after_key_at:
  assumes m: "merges cmp M ess" and ws: "some_at at ws ess" and n: "n < length M" and i: "i < length ess" "M ! n \<notin> set (ess ! i)" "i \<noteq> c"
    and w: "wrapper_at at w (ess ! i) j"
  shows "\<exists>w'. after_key it cmp c (fst (M ! n)) i w = Some w' \<and> wrapper_at at w' (ess ! i) (passed M n (ess ! i))"
proof -
  note ok = merged_ok [OF m ws]
  have v: "valid (fst (M ! n))" using ok(2) n by simp
  obtain w1 where w1: "iw_Seek it (fst (M ! n)) w = Some w1" "wrapper_at at w1 (ess ! i) (passed M n (ess ! i))"
    using wrapper_Seek [OF w v] lower_passed [OF ok(1,2) merges_in [OF m i(1)] v] lower_at [OF ok(1,2) n] by auto
  have "\<not> (iw_valid w1 \<and> Compare cmp (fst (M ! n)) (iw_key w1) = 0)"
  proof
    assume valid: "iw_valid w1 \<and> Compare cmp (fst (M ! n)) (iw_key w1) = 0"
    let ?e = "ess ! i ! passed M n (ess ! i)"
    have "passed M n (ess ! i) < length (ess ! i)" "iw_key w1 = fst ?e" using w1(2) valid by (auto simp: wrapper_at_def)
    moreover then have "?e \<in> set (ess ! i)" by simp
    moreover then have "?e \<in> set M" "?e \<noteq> M ! n" using merges_in [OF m i(1)] i(2) by auto
    ultimately show False using other_key [OF ok(1,2) _ n, of ?e] valid by simp
  qed
  then show ?thesis using w1 i(3) by (auto simp: after_key_def)
qed

lemma before_key_at:
  assumes m: "merges cmp M ess" and ws: "some_at at ws ess" and n: "n < length M" and i: "i < length ess" "i \<noteq> c"
    and w: "wrapper_at at w (ess ! i) j"
  shows "\<exists>w'. before_key it c (fst (M ! n)) i w = Some w' \<and> wrapper_at at w' (ess ! i) (retreated M n (ess ! i))"
proof -
  note ok = merged_ok [OF m ws]
  have v: "valid (fst (M ! n))" using ok(2) n by simp
  obtain w1 where w1: "iw_Seek it (fst (M ! n)) w = Some w1" "wrapper_at at w1 (ess ! i) (passed M n (ess ! i))"
    using wrapper_Seek [OF w v] lower_passed [OF ok(1,2) merges_in [OF m i(1)] v] lower_at [OF ok(1,2) n] by auto
  show ?thesis
  proof (cases "iw_valid w1")
    case True
    then have "passed M n (ess ! i) < length (ess ! i)" using w1(2) by (simp add: wrapper_at_def)
    then show ?thesis using wrapper_Prev [OF w1(2)] True w1(1) i(2) by (auto simp: before_key_def retreated_def)
  next
    case False
    then have "passed M n (ess ! i) = length (ess ! i)" using w1(2) passed_le [of M n "ess ! i"] by (simp add: wrapper_at_def)
    then show ?thesis using wrapper_SeekToLast [OF w1(2)] False w1(1) i(2) by (auto simp: before_key_def retreated_def)
  qed
qed

lemma merge_Next:
  assumes m_at: "at_merge cmp at m M n" and n: "n < length M"
  shows "\<exists>m'. mi_Next it cmp m = Some m' \<and> at_merge cmp at m' M (Suc n)"
proof -
  obtain ess c where m: "merges cmp M ess" and ws: "children_at at (mi_children m) ess (direction_pos (mi_direction m) M n)"
    and c: "c < length ess" "mi_current m = Some c" and only: "\<forall>i < length ess. i \<noteq> c \<longrightarrow> M ! n \<notin> set (ess ! i)"
    and w: "wrapper_at at (mi_children m ! c) (ess ! c) (passed M n (ess ! c))"
    and next_c: "passed M n (ess ! c) < length (ess ! c)" "passed M (Suc n) (ess ! c) = Suc (passed M n (ess ! c))"
    by (rule at_merge_current [OF m_at n])
  note some = children_some [OF ws] and key = at_merge_entry(1) [OF m_at n]
  obtain ws1 where ws1: "(if mi_direction m \<noteq> kForward then each_child (after_key it cmp c (mi_key m)) 0 (mi_children m) else Some (mi_children m)) = Some ws1"
    "children_at at ws1 ess (passed M n)"
  proof (cases "mi_direction m")
    case kForward
    then show ?thesis using ws by (intro that) simp_all
  next
    case kReverse
    obtain ws1 where "each_child (after_key it cmp c (mi_key m)) 0 (mi_children m) = Some ws1" "children_at at ws1 ess (passed M n)"
    proof (rule move_children [OF some])
      show "\<exists>w'. after_key it cmp c (mi_key m) i w = Some w' \<and> wrapper_at at w' es (passed M n es)"
        if "i < length ess" "w = mi_children m ! i" "es = ess ! i" "wrapper_at at w es j" for i w es j
        using after_key_at [OF m some n that(1), of c w j] only that \<open>wrapper_at at (mi_children m ! c) (ess ! c) (passed M n (ess ! c))\<close> key
        by (cases "i = c") (auto simp: after_key_def)
    qed
    then show ?thesis using kReverse by (intro that) simp_all
  qed
  then have "wrapper_at at (ws1 ! c) (ess ! c) (passed M n (ess ! c))" and len: "length ws1 = length ess" using c(1) by (simp_all add: children_at_def)
  then obtain w' where w': "iw_Next it (ws1 ! c) = Some w'" "wrapper_at at w' (ess ! c) (passed M (Suc n) (ess ! c))"
    using wrapper_Next [of "ws1 ! c" "ess ! c" "passed M n (ess ! c)"] next_c by auto
  have "children_at at (ws1[c := w']) ess (passed M (Suc n))"
    by (rule children_update [OF len c(1)]) (use w'(2) ws1(2) passed_Suc_out [OF n] only in \<open>simp_all add: children_at_def\<close>)
  then have "at_merge cmp at (FindSmallest cmp (m\<lparr>mi_children := ws1[c := w'], mi_direction := kForward\<rparr>)) M (Suc n)"
    using n by (intro forward_at [OF m]) (simp_all add: FindSmallest_def)
  then show ?thesis using c(2) ws1(1) w'(1) by (auto simp: mi_Next_def)
qed

lemma merge_Prev:
  assumes m_at: "at_merge cmp at m M n" and n: "n < length M"
  shows "\<exists>m'. mi_Prev it cmp m = Some m' \<and> at_merge cmp at m' M (step_back n M)"
proof -
  obtain ess c where m: "merges cmp M ess" and ws: "children_at at (mi_children m) ess (direction_pos (mi_direction m) M n)"
    and c: "c < length ess" "mi_current m = Some c" and only: "\<forall>i < length ess. i \<noteq> c \<longrightarrow> M ! n \<notin> set (ess ! i)"
    and w: "wrapper_at at (mi_children m ! c) (ess ! c) (passed M n (ess ! c))"
    and next_c: "passed M n (ess ! c) < length (ess ! c)" "passed M (Suc n) (ess ! c) = Suc (passed M n (ess ! c))"
    by (rule at_merge_current [OF m_at n])
  note some = children_some [OF ws] and key = at_merge_entry(1) [OF m_at n]
  let ?pos = "\<lambda>i. if i = c then passed M n (ess ! c) else retreated M n (ess ! i)"
  obtain ws1 where ws1: "(if mi_direction m \<noteq> kReverse then each_child (before_key it c (mi_key m)) 0 (mi_children m) else Some (mi_children m)) = Some ws1"
    "length ws1 = length ess" "\<forall>i < length ess. wrapper_at at (ws1 ! i) (ess ! i) (?pos i)"
  proof (cases "mi_direction m")
    case kReverse
    have "\<forall>i < length ess. wrapper_at at (mi_children m ! i) (ess ! i) (?pos i)"
      using ws w only passed_Suc_out [OF n] kReverse by (auto simp: children_at_def retreated_def)
    then show ?thesis using ws kReverse by (intro that) (simp_all add: children_at_def)
  next
    case kForward
    obtain ws1 where "each_child (before_key it c (mi_key m)) 0 (mi_children m) = Some ws1" "length ws1 = length (mi_children m)"
      "\<forall>i < length (mi_children m). wrapper_at at (ws1 ! i) (ess ! i) (?pos i)"
    proof (rule each_child_ok)
      show "\<exists>w'. before_key it c (mi_key m) i (mi_children m ! i) = Some w' \<and> wrapper_at at w' (ess ! i) (?pos i)" if "i < length (mi_children m)" for i
        using before_key_at [OF m some n, of i c "mi_children m ! i"] some that w key
        by (cases "i = c") (auto simp: before_key_def some_at_def)
    qed
    then show ?thesis using kForward some by (intro that) (simp_all add: some_at_def)
  qed
  then have "wrapper_at at (ws1 ! c) (ess ! c) (passed M n (ess ! c))" using c(1) by auto
  then obtain w' where w': "iw_Prev it (ws1 ! c) = Some w'" "wrapper_at at w' (ess ! c) (retreated M n (ess ! c))"
    using wrapper_Prev [of "ws1 ! c" "ess ! c" "passed M n (ess ! c)"] next_c(1) by (auto simp: retreated_def)
  have "children_at at (ws1[c := w']) ess (retreated M n)"
    by (rule children_update [OF ws1(2) c(1)]) (use w'(2) ws1(3) in auto)
  then have "at_merge cmp at (FindLargest cmp (m\<lparr>mi_children := ws1[c := w'], mi_direction := kReverse\<rparr>)) M (step_back n M)"
    using n by (intro backward_at [OF m]) (simp_all add: FindLargest_def)
  then show ?thesis using c(2) ws1(1) w'(1) by (auto simp: mi_Prev_def)
qed

end

section \<open>The contract for the merged list\<close>

definition at_merged ::
    "Comparator \<Rightarrow> ('i \<Rightarrow> (slice \<times> slice) list \<Rightarrow> nat \<Rightarrow> bool) \<Rightarrow> 'i merged \<Rightarrow> (slice \<times> slice) list \<Rightarrow> nat \<Rightarrow> bool" where
  "at_merged cmp at = merged_case (\<lambda>M n. M = [] \<and> n = 0) at (at_merge cmp at)"

lemma first_error_OK: "\<forall>s \<in> set xs. s = OK \<Longrightarrow> first_error xs OK = OK"
  by (induction xs) simp_all

lemma merged_move_at:
  assumes "at_merged cmp at x M n"
    and "x = Empty \<Longrightarrow> m = 0"
    and "\<And>y. x = OnlyChild y \<Longrightarrow> at y M n \<Longrightarrow> \<exists>z. f y = Some z \<and> at z M m"
    and "\<And>y. x = Merging y \<Longrightarrow> at_merge cmp at y M n \<Longrightarrow> \<exists>z. g y = Some z \<and> at_merge cmp at z M m"
  shows "\<exists>y. merged_move f g x = Some y \<and> at_merged cmp at y M m"
proof (cases x)
  case Empty
  then show ?thesis using assms(1,2) by (simp add: merged_move_def at_merged_def)
next
  case (OnlyChild y)
  then show ?thesis using assms(1) assms(3) [OF OnlyChild] by (auto simp: merged_move_def at_merged_def)
next
  case (Merging y)
  then show ?thesis using assms(1) assms(4) [OF Merging] by (auto simp: merged_move_def at_merged_def)
qed

context sorted_iterator
begin

lemma sorted_unique:
  assumes "sorted_wrt (entry_less cmp) xs" "sorted_wrt (entry_less cmp) ys" "set xs = set ys" "\<forall>e \<in> set xs. valid (fst e)"
  shows "xs = ys"
  using assms
proof (induction xs arbitrary: ys)
  case (Cons x xs)
  then obtain y zs where ys: "ys = y # zs" by (cases ys) auto
  have "x = y"
  proof (rule ccontr)
    assume "x \<noteq> y"
    then have "x \<in> set zs" "y \<in> set xs" using Cons.prems(3) ys by auto
    then have "entry_less cmp y x" "entry_less cmp x y" using Cons.prems(1,2) ys by auto
    then show False using entry_asym [of x y] Cons.prems(3,4) ys by auto
  qed
  moreover have "x \<notin> set xs" using sorted_distinct [OF Cons.prems(1,4)] by simp
  moreover have "y \<notin> set zs" using sorted_distinct [OF Cons.prems(2)] Cons.prems(3,4) ys by simp
  ultimately have "set xs = set zs" using Cons.prems(3) ys by auto
  then have "xs = zs" using Cons.IH [of zs] Cons.prems ys by simp
  then show ?case using \<open>x = y\<close> ys by simp
qed simp

lemma at_merged_entries:
  assumes "at_merged cmp at x M n"
  shows "n \<le> length M \<and> (\<forall>e \<in> set M. valid (fst e)) \<and> sorted_wrt (entry_less cmp) M"
proof (cases x)
  case (Merging m)
  then obtain ess where "merges cmp M ess" "some_at at (mi_children m) ess" "n \<le> length M" using assms by (auto simp: at_merged_def at_merge_def)
  then show ?thesis using merged_ok(1,2) by blast
qed (use assms at_entries in \<open>auto simp: at_merged_def\<close>)

lemma at_merge_status:
  assumes "at_merge cmp at m M n"
  shows "mi_status it m = OK"
  unfolding mi_status_def
proof (rule first_error_OK)
  obtain ess where ess: "some_at at (mi_children m) ess" using assms by (auto simp: at_merge_def)
  have "i_status it (iw_iter (mi_children m ! i)) = OK" if "i < length (mi_children m)" for i
    using ess that at_status by (fastforce simp: some_at_def wrapper_at_def)
  then show "\<forall>s \<in> set (map (\<lambda>w. i_status it (iw_iter w)) (mi_children m)). s = OK" by (auto simp: in_set_conv_nth)
qed

lemma merged_iterator: "sorted_iterator cmp valid (merged_ops it cmp) (at_merged cmp at)"
proof
  fix x M n k assume x: "at_merged cmp at x M n"
  show "n \<le> length M \<and> (\<forall>e \<in> set M. valid (fst e)) \<and> sorted_wrt (entry_less cmp) M" by (rule at_merged_entries [OF x])
  show "i_Valid (merged_ops it cmp) x \<longleftrightarrow> n < length M"
    using x at_Valid by (cases x) (auto simp: merged_ops_def at_merged_def at_merge_def mi_Valid_def split: if_splits)
  show "i_status (merged_ops it cmp) x = OK"
    using x at_status at_merge_status by (cases x) (auto simp: merged_ops_def at_merged_def)
  have empty: "M = []" if "x = Empty" using x that by (simp add: at_merged_def)
  note ops = merged_ops_def Iterator.select_convs
  show "\<exists>y. i_SeekToFirst (merged_ops it cmp) x = Some y \<and> at_merged cmp at y M 0"
    unfolding ops by (rule merged_move_at [OF x]) (simp_all add: at_SeekToFirst merge_seeks)
  show "\<exists>y. i_SeekToLast (merged_ops it cmp) x = Some y \<and> at_merged cmp at y M (step_back (length M) M)"
    unfolding ops by (rule merged_move_at [OF x]) (simp_all add: empty at_SeekToLast merge_seeks step_back_def [of 0 "[]"])
  show "\<exists>y. i_Seek (merged_ops it cmp) k x = Some y \<and> at_merged cmp at y M (lower cmp k M)" if "valid k"
    unfolding ops by (rule merged_move_at [OF x]) (use that in \<open>simp_all add: empty at_Seek merge_seeks lower_def [of _ _ "[]"]\<close>)
  assume n: "n < length M"
  show "(i_key (merged_ops it cmp) x, i_value (merged_ops it cmp) x) = M ! n"
    using x n at_parts at_merge_entry by (cases x) (auto simp: merged_ops_def at_merged_def)
  show "\<exists>y. i_Next (merged_ops it cmp) x = Some y \<and> at_merged cmp at y M (Suc n)"
    unfolding ops by (rule merged_move_at [OF x]) (use n empty in \<open>simp_all add: at_Next merge_Next\<close>)
  show "\<exists>y. i_Prev (merged_ops it cmp) x = Some y \<and> at_merged cmp at y M (step_back n M)"
    unfolding ops by (rule merged_move_at [OF x]) (use n empty in \<open>simp_all add: at_Prev merge_Prev\<close>)
qed

lemma NewMergingIterator_at:
  assumes m: "merges cmp M ess" and xs: "length xs = length ess" "\<And>i. i < length ess \<Longrightarrow> \<exists>n. at (xs ! i) (ess ! i) n"
  shows "\<exists>n. at_merged cmp at (NewMergingIterator it xs) M n"
proof (cases "(it, xs)" rule: NewMergingIterator.cases)
  case 1
  then show ?thesis using m xs(1) by (simp add: at_merged_def merges_def)
next
  case (2 _ x)
  then obtain es n where es: "ess = [es]" "at x es n" using xs by (cases ess) auto
  then have "M = es" using m at_entries [OF es(2)] by (intro sorted_unique) (auto simp: merges_def)
  then show ?thesis using 2 es by (auto simp: at_merged_def)
next
  case (3 _ x y zs)
  then have new: "NewMergingIterator it xs = Merging (new_MergingIterator it xs)" by simp
  have "some_at at (map (iw_new it) xs) ess" using xs new_at by (fastforce simp: some_at_def)
  then have "at_merge cmp at (new_MergingIterator it xs) M (length M)" using m by (auto simp: at_merge_def new_MergingIterator_def)
  then show ?thesis using new by (auto simp: at_merged_def)
qed

end

end
