(* ===== verification/Ldb_Mem_Iterator.thy ===== *)
theory Ldb_Mem_Iterator
  imports Ldb_Memtable Ldb_Merger
begin

text \<open>
  The iterator of a memory table (class \<^verbatim>\<open>MemTableIterator\<close> of \<^verbatim>\<open>db/memtable.cc\<close>): the table and a node of its skip list. It meets the contract
  \<open>sorted_iterator\<close> for the entries that the table holds.
\<close>

section \<open>Model\<close>

record MemTableIterator =
  mt_table :: SkipList
  mt_node :: "nat option"

definition mem_move :: "(SkipList \<Rightarrow> nat option option) \<Rightarrow> MemTableIterator \<Rightarrow> MemTableIterator option" where
  "mem_move f x = map_option (\<lambda>node. x\<lparr>mt_node := node\<rparr>) (f (mt_table x))"

text \<open>\<open>Next\<close>, \<open>Prev\<close>, \<open>key\<close> and \<open>value\<close> read the node, which is not null where they may be called.\<close>

definition MemTable_ops :: "Comparator \<Rightarrow> MemTableIterator Iterator" where
  "MemTable_ops user =
     \<lparr>i_Valid = (\<lambda>x. mt_node x \<noteq> None),
      i_key = (\<lambda>x. case Option.bind (mt_node x) (mem_key (mt_table x)) of None \<Rightarrow> [] | Some k \<Rightarrow> k),
      i_value = (\<lambda>x. case Option.bind (mt_node x) (mem_value (mt_table x)) of None \<Rightarrow> [] | Some v \<Rightarrow> v),
      i_status = (\<lambda>_. OK),
      i_Seek = (\<lambda>k. mem_move (\<lambda>t. mem_Seek user t k)),
      i_SeekToFirst = mem_move sl_SeekToFirst,
      i_SeekToLast = mem_move sl_SeekToLast,
      i_Next = (\<lambda>x. mem_move (\<lambda>t. Option.bind (mt_node x) (sl_Next t)) x),
      i_Prev = (\<lambda>x. mem_move (\<lambda>t. Option.bind (mt_node x) (sl_Prev (KeyComparator user) t)) x)\<rparr>"

definition MemTable_NewIterator :: "SkipList \<Rightarrow> MemTableIterator" where
  "MemTable_NewIterator table = \<lparr>mt_table = table, mt_node = None\<rparr>"

section \<open>The contract\<close>

definition internal_valid :: "slice \<Rightarrow> bool" where
  "internal_valid k \<longleftrightarrow> 8 \<le> length k \<and> length k < 2 ^ 32"

definition mem_at :: "Comparator \<Rightarrow> MemTableIterator \<Rightarrow> (slice \<times> slice) list \<Rightarrow> nat \<Rightarrow> bool" where
  "mem_at user x es n \<longleftrightarrow>
     (\<forall>e \<in> set es. internal_valid (fst e) \<and> length (snd e) < 2 ^ 32) \<and> n \<le> length es \<and>
     (\<exists>ids. represents_list (KeyComparator user) entry_valid (mt_table x) ids \<and> map (key_of (mt_table x)) ids = map entry_of es \<and>
       mt_node x = (if n < length es then Some (ids ! n) else None))"

lemma mem_holds_at: "mem_holds user table es \<Longrightarrow> mem_at user (MemTable_NewIterator table) es (length es)"
  by (auto simp: mem_holds_def mem_at_def MemTable_NewIterator_def internal_valid_def)

lemma linked_empty:
  assumes "represents_list compare valid s []"
  shows "sl_SeekToFirst s = Some None" "sl_SeekToLast s = Some None"
proof -
  have m: "1 \<le> sl_max_height s" "sl_max_height s \<le> kMaxHeight" and all: "\<forall>l < kMaxHeight. linked s l 0 (level_nodes s l [])"
    using assms by (simp_all add: represents_list_def)
  have "linked s 0 0 []" using all by (simp add: level_nodes_def kMaxHeight_def)
  then show "sl_SeekToFirst s = Some None" using linked_next by (simp add: sl_SeekToFirst_def)
  have "FindLast s = Some (last [0])" using search_last_ok [OF assms, of 0 "sl_max_height s - 1"] m by (simp add: FindLast_def)
  then show "sl_SeekToLast s = Some None" by (simp add: sl_SeekToLast_def not_head_def)
qed

context user_comparator
begin

lemma mem_positions:
  assumes "mem_at cmp x es n"
  obtains ids where "represents_list (KeyComparator cmp) entry_valid (mt_table x) ids" "map (key_of (mt_table x)) ids = map entry_of es"
    "length ids = length es" "mt_node x = (if n < length es then Some (ids ! n) else None)"
    "\<forall>y m. mt_table y = mt_table x \<longrightarrow> mt_node y = (if m < length es then Some (ids ! m) else None) \<longrightarrow> m \<le> length es \<longrightarrow> mem_at cmp y es m"
proof -
  obtain ids where ids: "represents_list (KeyComparator cmp) entry_valid (mt_table x) ids" "map (key_of (mt_table x)) ids = map entry_of es"
    "mt_node x = (if n < length es then Some (ids ! n) else None)" using assms by (auto simp: mem_at_def)
  have len: "length ids = length es" using arg_cong [OF ids(2), of length] by simp
  show ?thesis by (rule that [OF ids(1,2) len ids(3)]) (use ids assms in \<open>auto simp: mem_at_def\<close>)
qed

lemma mem_at_sorted: "mem_at cmp x es n \<Longrightarrow> sorted_wrt (entry_less (InternalKeyComparator cmp)) es"
proof -
  assume x: "mem_at cmp x es n"
  then obtain ids where ids: "represents_list (KeyComparator cmp) entry_valid (mt_table x) ids" "map (key_of (mt_table x)) ids = map entry_of es"
    by (rule mem_positions)
  have "sorted_wrt (\<lambda>a b. KeyComparator cmp a b < 0) (map (key_of (mt_table x)) ids)"
    using ids(1) by (simp add: represents_list_def sorted_wrt_map)
  then have "sorted_wrt (\<lambda>a b. KeyComparator cmp (entry_of a) (entry_of b) < 0) es" by (simp add: ids(2) sorted_wrt_map)
  then show ?thesis
  proof (rule sorted_wrt_mono_rel [rotated])
    show "entry_less (InternalKeyComparator cmp) a b" if "a \<in> set es" "b \<in> set es" "KeyComparator cmp (entry_of a) (entry_of b) < 0" for a b
      using that x entry_compare [of a "fst b" cmp "PutLengthPrefixedSlice [] (snd b)"]
      by (auto simp: mem_at_def internal_valid_def entry_less_def entry_of_def [of b])
  qed
qed

lemma mem_at_entry:
  assumes x: "mem_at cmp x es n" and n: "n < length es"
  shows "(i_key (MemTable_ops cmp) x, i_value (MemTable_ops cmp) x) = es ! n"
proof -
  obtain ids where ids: "represents_list (KeyComparator cmp) entry_valid (mt_table x) ids" "map (key_of (mt_table x)) ids = map entry_of es"
    "length ids = length es" "mt_node x = (if n < length es then Some (ids ! n) else None)" by (rule mem_positions [OF x])
  have "key_of (mt_table x) (ids ! n) = entry_of (es ! n)" using arg_cong [OF ids(2), of "\<lambda>xs. xs ! n"] n ids(3) by simp
  then have key: "Node_key (mt_table x) (ids ! n) = Some (entry_of (es ! n))" using Node_key_represents [OF ids(1), of "ids ! n"] n ids(3) by simp
  have len: "length (fst (es ! n)) < 2 ^ 32" "length (snd (es ! n)) < 2 ^ 32" using x n by (simp_all add: mem_at_def internal_valid_def)
  have "prefixed_at (entry_of (es ! n)) = Some (fst (es ! n), PutLengthPrefixedSlice [] (snd (es ! n)))"
    using prefixed_at_put [OF len(1)] by (simp add: entry_of_def)
  moreover have "prefixed_at (PutLengthPrefixedSlice [] (snd (es ! n))) = Some (snd (es ! n), [])"
    using prefixed_at_put [OF len(2), of "[]"] by simp
  ultimately show ?thesis using key ids(4) n by (simp add: MemTable_ops_def mem_key_def mem_value_def)
qed

lemma mem_at_Seek:
  assumes x: "mem_at cmp x es n" and k: "internal_valid k"
  shows "\<exists>y. i_Seek (MemTable_ops cmp) k x = Some y \<and> mem_at cmp y es (lower (InternalKeyComparator cmp) k es)"
proof -
  obtain ids where ids: "represents_list (KeyComparator cmp) entry_valid (mt_table x) ids" "map (key_of (mt_table x)) ids = map entry_of es"
    "length ids = length es"
    and at: "\<forall>y m. mt_table y = mt_table x \<longrightarrow> mt_node y = (if m < length es then Some (ids ! m) else None) \<longrightarrow> m \<le> length es \<longrightarrow> mem_at cmp y es m"
    by (rule mem_positions [OF x])
  let ?key = "PutLengthPrefixedSlice [] k"
  let ?P = "\<lambda>z. KeyComparator cmp z ?key < 0" and ?Q = "\<lambda>e. Compare (InternalKeyComparator cmp) (fst e) k < 0"
  have pq: "?P (entry_of e) \<longleftrightarrow> ?Q e" if "e \<in> set es" for e
    using entry_compare [of e k cmp "[]"] x k that by (auto simp: mem_at_def internal_valid_def)
  have valid: "entry_valid ?key" using k unfolding entry_valid_def internal_valid_def by (metis append_Nil2)
  have "length (takeWhile (\<lambda>z. ?P (key_of (mt_table x) z)) ids) = lower (InternalKeyComparator cmp) k es"
    using arg_cong [OF split_nodes(1) [where P = ?P and Q = ?Q, OF ids(2) pq], of length] by (simp add: lower_def)
  then have low: "dropWhile (\<lambda>z. ?P (key_of (mt_table x) z)) ids = drop (lower (InternalKeyComparator cmp) k es) ids"
    using dropWhile_eq_drop [of "\<lambda>z. ?P (key_of (mt_table x) z)" ids] by simp
  have first: "first_of (drop m ids) = (if m < length es then Some (ids ! m) else None)" for m
    using ids(3) Cons_nth_drop_Suc [of m ids] by (auto simp: first_of_def split: list.splits)
  have key: "EncodeKey k = ?key" by (simp add: EncodeKey_def PutLengthPrefixedSlice_def)
  have "i_Seek (MemTable_ops cmp) k x =
      Some (x\<lparr>mt_node := first_of (drop (lower (InternalKeyComparator cmp) k es) ids)\<rparr>)"
    using mem.Seek_first [OF ids(1) valid] low by (simp add: MemTable_ops_def mem_move_def mem_Seek_def key)
  moreover have "lower (InternalKeyComparator cmp) k es \<le> length es" by (simp add: lower_def length_takeWhile_le)
  ultimately show ?thesis using first at by simp
qed

lemma mem_at_moves:
  assumes x: "mem_at cmp x es n"
  shows "\<exists>y. i_SeekToFirst (MemTable_ops cmp) x = Some y \<and> mem_at cmp y es 0"
    and "\<exists>y. i_SeekToLast (MemTable_ops cmp) x = Some y \<and> mem_at cmp y es (step_back (length es) es)"
    and "n < length es \<Longrightarrow> \<exists>y. i_Next (MemTable_ops cmp) x = Some y \<and> mem_at cmp y es (Suc n)"
    and "n < length es \<Longrightarrow> \<exists>y. i_Prev (MemTable_ops cmp) x = Some y \<and> mem_at cmp y es (step_back n es)"
proof -
  obtain ids where ids: "represents_list (KeyComparator cmp) entry_valid (mt_table x) ids" "length ids = length es"
    "mt_node x = (if n < length es then Some (ids ! n) else None)"
    and at: "\<forall>y m. mt_table y = mt_table x \<longrightarrow> mt_node y = (if m < length es then Some (ids ! m) else None) \<longrightarrow> m \<le> length es \<longrightarrow> mem_at cmp y es m"
    by (rule mem_positions [OF x])
  have moved: "\<exists>y. mem_move f x = Some y \<and> mem_at cmp y es m"
    if "f (mt_table x) = Some (if m < length es then Some (ids ! m) else None)" "m \<le> length es" for f m
    using that at [rule_format, of "x\<lparr>mt_node := if m < length es then Some (ids ! m) else None\<rparr>" m] by (simp add: mem_move_def)
  note pos = mem.iterate_positions [OF ids(1)]
  have ends: "sl_SeekToFirst (mt_table x) = Some (if 0 < length es then Some (ids ! 0) else None)"
    "sl_SeekToLast (mt_table x) = Some (if 0 < length es then Some (ids ! (length es - 1)) else None)"
  proof -
    consider (empty) "ids = []" "es = []" | (some) "ids \<noteq> []" "0 < length es" "0 < length ids" using ids(2) by (cases ids; cases es) auto
    then have "sl_SeekToFirst (mt_table x) = Some (if 0 < length es then Some (ids ! 0) else None) \<and>
      sl_SeekToLast (mt_table x) = Some (if 0 < length es then Some (ids ! (length es - 1)) else None)"
    proof cases
      case empty
      show ?thesis using linked_empty [OF ids(1) [unfolded empty]] empty by simp
    next
      case some
      show ?thesis using pos(3,4) [OF some(3)] last_conv_nth [OF some(1)] some(2) ids(2) by simp
    qed
    then show "sl_SeekToFirst (mt_table x) = Some (if 0 < length es then Some (ids ! 0) else None)"
      "sl_SeekToLast (mt_table x) = Some (if 0 < length es then Some (ids ! (length es - 1)) else None)" by simp_all
  qed
  show "\<exists>y. i_SeekToFirst (MemTable_ops cmp) x = Some y \<and> mem_at cmp y es 0"
    using moved [of sl_SeekToFirst 0] ends(1) by (simp add: MemTable_ops_def)
  show "\<exists>y. i_SeekToLast (MemTable_ops cmp) x = Some y \<and> mem_at cmp y es (step_back (length es) es)"
    using moved [of sl_SeekToLast "step_back (length es) es"] ends(2) by (cases es) (simp_all add: MemTable_ops_def step_back_def)
  show "\<exists>y. i_Next (MemTable_ops cmp) x = Some y \<and> mem_at cmp y es (Suc n)" if n: "n < length es"
    using moved [of "\<lambda>t. sl_Next t (ids ! n)" "Suc n"] pos(1) [of n] ids(2,3) n by (simp add: MemTable_ops_def)
  show "\<exists>y. i_Prev (MemTable_ops cmp) x = Some y \<and> mem_at cmp y es (step_back n es)" if n: "n < length es"
    using moved [of "\<lambda>t. sl_Prev (KeyComparator cmp) t (ids ! n)" "step_back n es"] pos(2) [of n] ids(2,3) n
    by (cases "n = 0") (simp_all add: MemTable_ops_def step_back_def)
qed

end

sublocale user_comparator \<subseteq> mem_iterator: sorted_iterator "InternalKeyComparator cmp" internal_valid "MemTable_ops cmp" "mem_at cmp"
proof
  show "Compare (InternalKeyComparator cmp) a c < 0"
    if "internal_valid a" "internal_valid b" "internal_valid c" "Compare (InternalKeyComparator cmp) a b < 0" "Compare (InternalKeyComparator cmp) b c < 0"
    for a b c using internal.compare_trans [of a b c] that by (simp add: internal_valid_def)
  show "Compare (InternalKeyComparator cmp) a b < 0 \<longleftrightarrow> Compare (InternalKeyComparator cmp) b a > 0" if "internal_valid a" "internal_valid b" for a b
    using internal.compare_sym [of a b] that by (simp add: internal_valid_def)
  fix x es n k assume x: "mem_at cmp x es n"
  show "n \<le> length es \<and> (\<forall>e \<in> set es. internal_valid (fst e)) \<and> sorted_wrt (entry_less (InternalKeyComparator cmp)) es"
    using x mem_at_sorted [OF x] by (simp add: mem_at_def)
  show "i_Valid (MemTable_ops cmp) x \<longleftrightarrow> n < length es" using x by (auto simp: mem_at_def MemTable_ops_def split: if_splits)
  show "i_status (MemTable_ops cmp) x = OK" by (simp add: MemTable_ops_def)
qed (simp_all add: mem_at_entry mem_at_Seek mem_at_moves)

end
