(* ===== verification/Ldb_Db_Iter.thy ===== *)
theory Ldb_Db_Iter
  imports Ldb_Mem_Iterator
begin

text \<open>
  The iterator of the database (\<^verbatim>\<open>db/db_iter.cc\<close>): over an iterator of internal entries it shows, for a sequence number, the newest value of
  each user key that was not deleted. Reading is sampled: \<open>di_samples\<close> are the keys for which \<^verbatim>\<open>RecordReadSample\<close> was called. \<open>None\<close> is a
  loop that does not end.

  The specification is the list of the values visible at the sequence number; the iterator meets the contract \<open>sorted_iterator\<close> for it.
\<close>

section \<open>Model\<close>

definition kReadBytesPeriod :: nat where
  "kReadBytesPeriod = 1048576"

definition Random_Uniform :: "nat \<Rightarrow> 32 word \<Rightarrow> nat \<times> 32 word" where
  "Random_Uniform n seed = (let seed1 = Random_Next seed in (unat (seed1 mod of_nat n), seed1))"

record 'i DBIter =
  di_iter :: 'i
  di_status :: status
  di_saved_key :: slice
  di_saved_value :: slice
  di_direction :: direction
  di_valid :: bool
  di_rnd :: "32 word"
  di_bytes_until_read_sampling :: nat
  di_samples :: "slice list"

definition RandomCompactionPeriod :: "32 word \<Rightarrow> nat \<times> 32 word" where
  "RandomCompactionPeriod rnd = Random_Uniform (2 * kReadBytesPeriod) rnd"

definition NewDBIterator :: "'i \<Rightarrow> 32 word \<Rightarrow> 'i DBIter" where
  "NewDBIterator iter seed =
     (let (period, rnd) = RandomCompactionPeriod (new_Random seed)
      in \<lparr>di_iter = iter, di_status = OK, di_saved_key = [], di_saved_value = [], di_direction = kForward, di_valid = False,
          di_rnd = rnd, di_bytes_until_read_sampling = period, di_samples = []\<rparr>)"

definition db_key :: "'i Iterator \<Rightarrow> 'i DBIter \<Rightarrow> slice" where
  "db_key it d = (if di_direction d = kForward then ExtractUserKey (i_key it (di_iter d)) else di_saved_key d)"

definition db_value :: "'i Iterator \<Rightarrow> 'i DBIter \<Rightarrow> slice" where
  "db_value it d = (if di_direction d = kForward then i_value it (di_iter d) else di_saved_value d)"

definition db_status :: "'i Iterator \<Rightarrow> 'i DBIter \<Rightarrow> status" where
  "db_status it d = (if is_ok (di_status d) then i_status it (di_iter d) else di_status d)"

definition ClearSavedValue :: "'i DBIter \<Rightarrow> 'i DBIter" where
  "ClearSavedValue d = d\<lparr>di_saved_value := []\<rparr>"

partial_function (option) sample_loop :: "slice \<Rightarrow> nat \<Rightarrow> 'i DBIter \<Rightarrow> 'i DBIter option" where
  "sample_loop k bytes_read d =
     (if di_bytes_until_read_sampling d < bytes_read then
        let (period, rnd) = RandomCompactionPeriod (di_rnd d)
        in sample_loop k bytes_read
             (d\<lparr>di_rnd := rnd, di_bytes_until_read_sampling := di_bytes_until_read_sampling d + period, di_samples := di_samples d @ [k]\<rparr>)
      else Some d)"

definition ParseKey :: "'i Iterator \<Rightarrow> 'i DBIter \<Rightarrow> (ParsedInternalKey option \<times> 'i DBIter) option" where
  "ParseKey it d =
     (let k = i_key it (di_iter d); bytes_read = length k + length (i_value it (di_iter d)) in
      do {
        d1 \<leftarrow> sample_loop k bytes_read d;
        let d2 = d1\<lparr>di_bytes_until_read_sampling := di_bytes_until_read_sampling d1 - bytes_read\<rparr>;
        case ParseInternalKey k of
          None \<Rightarrow> Some (None, d2\<lparr>di_status := Corruption ''corrupted internal key in DBIter''\<rparr>)
        | Some ikey \<Rightarrow> Some (Some ikey, d2)
      })"

text \<open>One round of the forward loop: whether it returns, whether it skips from now on, and the iterator. The parameter \<^verbatim>\<open>skip\<close> is \<open>di_saved_key\<close> in every call.\<close>

definition next_round :: "Comparator \<Rightarrow> 64 word \<Rightarrow> bool \<Rightarrow> ParsedInternalKey option \<Rightarrow> 'i DBIter \<Rightarrow> bool \<times> bool \<times> 'i DBIter" where
  "next_round user sequence skipping parsed d =
     (case parsed of
        None \<Rightarrow> (False, skipping, d)
      | Some ikey \<Rightarrow>
          if pk_sequence ikey \<le> sequence then
            case pk_type ikey of
              kTypeDeletion \<Rightarrow> (False, True, d\<lparr>di_saved_key := pk_user_key ikey\<rparr>)
            | kTypeValue \<Rightarrow>
                if skipping \<and> Compare user (pk_user_key ikey) (di_saved_key d) \<le> 0 then (False, skipping, d)
                else (True, skipping, d\<lparr>di_valid := True, di_saved_key := []\<rparr>)
          else (False, skipping, d))"

partial_function (option) FindNextUserEntry :: "'i Iterator \<Rightarrow> Comparator \<Rightarrow> 64 word \<Rightarrow> bool \<Rightarrow> 'i DBIter \<Rightarrow> 'i DBIter option" where
  "FindNextUserEntry it user sequence skipping d =
     do {
       (parsed, d1) \<leftarrow> ParseKey it d;
       let (stop, skipping1, d2) = next_round user sequence skipping parsed d1;
       if stop then Some d2
       else
         do {
           x \<leftarrow> i_Next it (di_iter d2);
           let d3 = d2\<lparr>di_iter := x\<rparr>;
           if i_Valid it x then FindNextUserEntry it user sequence skipping1 d3
           else Some (d3\<lparr>di_saved_key := [], di_valid := False\<rparr>)
         }
     }"

definition prev_round :: "'i Iterator \<Rightarrow> Comparator \<Rightarrow> 64 word \<Rightarrow> ValueType \<Rightarrow> ParsedInternalKey option \<Rightarrow> 'i DBIter \<Rightarrow> bool \<times> ValueType \<times> 'i DBIter" where
  "prev_round it user sequence value_type parsed d =
     (case parsed of
        None \<Rightarrow> (False, value_type, d)
      | Some ikey \<Rightarrow>
          if pk_sequence ikey \<le> sequence then
            if value_type \<noteq> kTypeDeletion \<and> Compare user (pk_user_key ikey) (di_saved_key d) < 0 then (True, value_type, d)
            else if pk_type ikey = kTypeDeletion then (False, kTypeDeletion, ClearSavedValue (d\<lparr>di_saved_key := []\<rparr>))
            else (False, pk_type ikey,
                  d\<lparr>di_saved_key := ExtractUserKey (i_key it (di_iter d)), di_saved_value := i_value it (di_iter d)\<rparr>)
          else (False, value_type, d))"

partial_function (option) prev_loop :: "'i Iterator \<Rightarrow> Comparator \<Rightarrow> 64 word \<Rightarrow> ValueType \<Rightarrow> 'i DBIter \<Rightarrow> (ValueType \<times> 'i DBIter) option" where
  "prev_loop it user sequence value_type d =
     do {
       (parsed, d1) \<leftarrow> ParseKey it d;
       let (stop, value_type1, d2) = prev_round it user sequence value_type parsed d1;
       if stop then Some (value_type1, d2)
       else
         do {
           x \<leftarrow> i_Prev it (di_iter d2);
           let d3 = d2\<lparr>di_iter := x\<rparr>;
           if i_Valid it x then prev_loop it user sequence value_type1 d3 else Some (value_type1, d3)
         }
     }"

definition FindPrevUserEntry :: "'i Iterator \<Rightarrow> Comparator \<Rightarrow> 64 word \<Rightarrow> 'i DBIter \<Rightarrow> 'i DBIter option" where
  "FindPrevUserEntry it user sequence d =
     do {
       (value_type, d1) \<leftarrow>
         (if i_Valid it (di_iter d) then prev_loop it user sequence kTypeDeletion d else Some (kTypeDeletion, d));
       Some (if value_type = kTypeDeletion
             then (ClearSavedValue (d1\<lparr>di_valid := False, di_saved_key := []\<rparr>))\<lparr>di_direction := kForward\<rparr>
             else d1\<lparr>di_valid := True\<rparr>)
     }"

definition db_Next :: "'i Iterator \<Rightarrow> Comparator \<Rightarrow> 64 word \<Rightarrow> 'i DBIter \<Rightarrow> 'i DBIter option" where
  "db_Next it user sequence d =
     (if di_direction d = kReverse then
        do {
          x \<leftarrow> (if \<not> i_Valid it (di_iter d) then i_SeekToFirst it (di_iter d) else i_Next it (di_iter d));
          let d1 = d\<lparr>di_direction := kForward, di_iter := x\<rparr>;
          if \<not> i_Valid it x then Some (d1\<lparr>di_valid := False, di_saved_key := []\<rparr>)
          else FindNextUserEntry it user sequence True d1
        }
      else FindNextUserEntry it user sequence True (d\<lparr>di_saved_key := ExtractUserKey (i_key it (di_iter d))\<rparr>))"

text \<open>The loop of \<open>Prev\<close> that leaves the entries of the current key: whether there are entries before them.\<close>

partial_function (option) leave_key :: "'i Iterator \<Rightarrow> Comparator \<Rightarrow> 'i DBIter \<Rightarrow> (bool \<times> 'i DBIter) option" where
  "leave_key it user d =
     do {
       x \<leftarrow> i_Prev it (di_iter d);
       let d1 = d\<lparr>di_iter := x\<rparr>;
       if \<not> i_Valid it x then Some (False, ClearSavedValue (d1\<lparr>di_valid := False, di_saved_key := []\<rparr>))
       else if Compare user (ExtractUserKey (i_key it x)) (di_saved_key d1) < 0 then Some (True, d1)
       else leave_key it user d1
     }"

definition db_Prev :: "'i Iterator \<Rightarrow> Comparator \<Rightarrow> 64 word \<Rightarrow> 'i DBIter \<Rightarrow> 'i DBIter option" where
  "db_Prev it user sequence d =
     (if di_direction d = kForward then
        do {
          (more, d1) \<leftarrow> leave_key it user (d\<lparr>di_saved_key := ExtractUserKey (i_key it (di_iter d))\<rparr>);
          if more then FindPrevUserEntry it user sequence (d1\<lparr>di_direction := kReverse\<rparr>) else Some d1
        }
      else FindPrevUserEntry it user sequence d)"

definition db_Seek :: "'i Iterator \<Rightarrow> Comparator \<Rightarrow> 64 word \<Rightarrow> slice \<Rightarrow> 'i DBIter \<Rightarrow> 'i DBIter option" where
  "db_Seek it user sequence target d =
     do {
       let d1 = (ClearSavedValue (d\<lparr>di_direction := kForward\<rparr>))
                  \<lparr>di_saved_key := AppendInternalKey [] \<lparr>pk_user_key = target, pk_sequence = sequence, pk_type = kValueTypeForSeek\<rparr>\<rparr>;
       x \<leftarrow> i_Seek it (di_saved_key d1) (di_iter d1);
       let d2 = d1\<lparr>di_iter := x\<rparr>;
       if i_Valid it x then FindNextUserEntry it user sequence False d2 else Some (d2\<lparr>di_valid := False\<rparr>)
     }"

definition db_SeekToFirst :: "'i Iterator \<Rightarrow> Comparator \<Rightarrow> 64 word \<Rightarrow> 'i DBIter \<Rightarrow> 'i DBIter option" where
  "db_SeekToFirst it user sequence d =
     do {
       let d1 = ClearSavedValue (d\<lparr>di_direction := kForward\<rparr>);
       x \<leftarrow> i_SeekToFirst it (di_iter d1);
       let d2 = d1\<lparr>di_iter := x\<rparr>;
       if i_Valid it x then FindNextUserEntry it user sequence False d2 else Some (d2\<lparr>di_valid := False\<rparr>)
     }"

definition db_SeekToLast :: "'i Iterator \<Rightarrow> Comparator \<Rightarrow> 64 word \<Rightarrow> 'i DBIter \<Rightarrow> 'i DBIter option" where
  "db_SeekToLast it user sequence d =
     do {
       let d1 = ClearSavedValue (d\<lparr>di_direction := kReverse\<rparr>);
       x \<leftarrow> i_SeekToLast it (di_iter d1);
       FindPrevUserEntry it user sequence (d1\<lparr>di_iter := x\<rparr>)
     }"

definition DBIter_ops :: "'i Iterator \<Rightarrow> Comparator \<Rightarrow> 64 word \<Rightarrow> 'i DBIter Iterator" where
  "DBIter_ops it user sequence =
     \<lparr>i_Valid = di_valid, i_key = db_key it, i_value = db_value it, i_status = db_status it, i_Seek = db_Seek it user sequence,
      i_SeekToFirst = db_SeekToFirst it user sequence, i_SeekToLast = db_SeekToLast it user sequence,
      i_Next = db_Next it user sequence, i_Prev = db_Prev it user sequence\<rparr>"

section \<open>Sampling\<close>

text \<open>The random numbers are the multiples of 16807 modulo the prime; two samples in a row are not both 0, so the loop ends.\<close>

definition seed_ok :: "32 word \<Rightarrow> bool" where
  "seed_ok seed \<longleftrightarrow> 0 < unat seed \<and> unat seed < 2147483647"

lemma unat_low_31: "unat (x AND 0x7FFFFFFF) = unat x mod 2 ^ 31" for x :: "'a :: len word"
proof -
  have e: "x AND 0x7FFFFFFF = take_bit 31 x" by (simp add: take_bit_eq_mask mask_eq_exp_minus_1)
  show ?thesis unfolding e unsigned_take_bit_eq by (rule take_bit_eq_mod)
qed

lemma new_Random_ok: "seed_ok (new_Random s)"
proof -
  have "unat (s AND 0x7FFFFFFF) = unat s mod 2 ^ 31" using unat_low_31 [of s] by simp
  then have "unat (s AND 0x7FFFFFFF) < 2 ^ 31" by simp
  moreover have "unat (s AND 0x7FFFFFFF) \<noteq> n" if "s AND 0x7FFFFFFF \<noteq> of_nat n" for n using that by auto
  note this [of 0] this [of 2147483647]
  ultimately show ?thesis unfolding seed_ok_def new_Random_def Let_def by (simp; linarith)
qed

lemma Random_Next_mod:
  assumes "seed_ok seed"
  shows "unat (Random_Next seed) = unat seed * 16807 mod 2147483647" "seed_ok (Random_Next seed)"
proof -
  let ?p = "ucast seed * 16807 :: 64 word" and ?P = "unat seed * 16807"
  have s: "0 < unat seed" "unat seed < 2147483647" using assms by (simp_all add: seed_ok_def)
  have p: "unat ?p = ?P" using s by (simp add: unat_word_ariths unat_ucast_32_64)
  have P: "?P = ?P div 2 ^ 31 * 2147483647 + (?P div 2 ^ 31 + ?P mod 2 ^ 31)" using div_mult_mod_eq [of ?P "2 ^ 31"] by simp
  have a: "?P div 2 ^ 31 < 16807" using s by (simp add: less_mult_imp_div_less)
  have b: "?P mod 2 ^ 31 < 2 ^ 31" by simp
  have nz: "?P mod 2147483647 \<noteq> 0"
  proof
    assume "?P mod 2147483647 = 0"
    then have "2147483647 dvd unat seed * 16807" by (simp add: dvd_eq_mod_eq_0)
    moreover have "coprime (2147483647 :: nat) 16807" by (simp add: coprime_iff_gcd_eq_1 gcd_non_0_nat)
    ultimately have "2147483647 dvd unat seed" by (simp add: coprime_dvd_mult_left_iff)
    then show False using s by (auto dest: dvd_imp_le)
  qed
  define t where "t = ?P div 2 ^ 31 + ?P mod 2 ^ 31"
  have mod: "?P mod 2147483647 = t mod 2147483647" unfolding t_def by (subst P) (simp only: mod_mult_self3)
  have t: "t < 2147483647 + 16808" using a b by (simp add: t_def)
  have u: "unat (drop_bit 31 ?p + (?p AND ucast (2147483647 :: 32 word))) = t"
  proof -
    have "unat (drop_bit 31 ?p) = drop_bit 31 ?P" by (simp only: unat_drop_bit_eq p)
    then have "unat (drop_bit 31 ?p) = ?P div 2 ^ 31" by (simp only: drop_bit_eq_div)
    moreover have "unat (?p AND ucast (2147483647 :: 32 word)) = ?P mod 2 ^ 31"
      using unat_low_31 [of ?p] p by simp
    ultimately show ?thesis using t by (simp add: unat_word_ariths t_def)
  qed
  define w where "w = (ucast (drop_bit 31 ?p + (?p AND ucast (2147483647 :: 32 word))) :: 32 word)"
  have w: "unat w = t" using t u by (simp add: w_def unsigned_ucast_eq take_bit_eq_mod)
  have r: "Random_Next seed = (if 2147483647 < w then w - 2147483647 else w)" unfolding Random_Next_def w_def Let_def ..
  have "unat (Random_Next seed) = t mod 2147483647"
  proof (cases "2147483647 < t")
    case True
    then have "2147483647 < w" by (simp add: word_less_nat_alt w)
    moreover then have "unat (w - 2147483647) = t - 2147483647" by (simp add: unat_sub w word_le_nat_alt word_less_nat_alt)
    moreover have "t mod 2147483647 = t - 2147483647" using True t by (simp add: mod_if)
    ultimately show ?thesis unfolding r by simp
  next
    case False
    moreover have "t \<noteq> 2147483647" using nz mod by auto
    ultimately show ?thesis unfolding r by (simp add: word_less_nat_alt w)
  qed
  then show n: "unat (Random_Next seed) = ?P mod 2147483647" using mod by simp
  show "seed_ok (Random_Next seed)" using n nz by (simp add: seed_ok_def)
qed

lemma period_progress:
  assumes "seed_ok seed" "RandomCompactionPeriod seed = (p, seed1)"
  shows "seed_ok seed1" "p = 0 \<Longrightarrow> fst (RandomCompactionPeriod seed1) \<noteq> 0"
proof -
  have period: "RandomCompactionPeriod s = (unat (Random_Next s) mod 2097152, Random_Next s)" for s
    by (simp add: RandomCompactionPeriod_def Random_Uniform_def kReadBytesPeriod_def Let_def unat_mod)
  then have s1: "seed1 = Random_Next seed" "p = unat seed1 mod 2097152" using assms(2) by auto
  then show ok: "seed_ok seed1" using Random_Next_mod(2) [OF assms(1)] by simp
  show "fst (RandomCompactionPeriod seed1) \<noteq> 0" if "p = 0"
  proof -
    have "2097152 dvd unat seed1" using that s1(2) by (simp add: dvd_eq_mod_eq_0)
    then obtain a where a: "unat seed1 = 2097152 * a" by (rule dvdE)
    have bounds: "0 < a" "a < 1024" using ok a by (auto simp: seed_ok_def)
    define u r where "u = 16807 * a div 1024" and "r = 16807 * a mod 1024"
    then have ur: "16807 * a = u * 1024 + r" "r < 1024" by (metis div_mult_mod_eq, simp)
    then have y: "u < 16807" "0 < u" using bounds by linarith+
    have "unat seed1 * 16807 = u * 2147483647 + (r * 2097152 + u)" using a ur(1) by linarith
    then have "unat seed1 * 16807 mod 2147483647 = (r * 2097152 + u) mod 2147483647" by (simp only: mod_mult_self3)
    also have "\<dots> = r * 2097152 + u" using y(1) ur(2) by (intro mod_less) linarith
    finally have "unat (Random_Next seed1) mod 2097152 = u" using Random_Next_mod(1) [OF ok] y by simp
    then show ?thesis using y(2) by (simp add: period)
  qed
qed

text \<open>Reading a key changes only what the sampling keeps.\<close>

definition same_view :: "'i DBIter \<Rightarrow> 'i DBIter \<Rightarrow> bool" where
  "same_view d d' \<longleftrightarrow>
     di_iter d' = di_iter d \<and> di_status d' = di_status d \<and> di_saved_key d' = di_saved_key d \<and> di_saved_value d' = di_saved_value d \<and>
     di_direction d' = di_direction d \<and> di_valid d' = di_valid d \<and> seed_ok (di_rnd d')"

lemma sample_loop_returns:
  "seed_ok (di_rnd d) \<Longrightarrow> \<exists>d'. sample_loop k b d = Some d' \<and> same_view d d' \<and> b \<le> di_bytes_until_read_sampling d'"
proof (induction "2 * (b - di_bytes_until_read_sampling d) + (if fst (RandomCompactionPeriod (di_rnd d)) = 0 then 1 else 0 :: nat)"
    arbitrary: d rule: less_induct)
  case less
  obtain p r where p: "RandomCompactionPeriod (di_rnd d) = (p, r)" by force
  note step = period_progress [OF less.prems p]
  show ?case
  proof (cases "di_bytes_until_read_sampling d < b")
    case True
    let ?d = "d\<lparr>di_rnd := r, di_bytes_until_read_sampling := di_bytes_until_read_sampling d + p, di_samples := di_samples d @ [k]\<rparr>"
    have "\<exists>d'. sample_loop k b ?d = Some d' \<and> same_view ?d d' \<and> b \<le> di_bytes_until_read_sampling d'"
    proof (rule less.hyps)
      show "2 * (b - di_bytes_until_read_sampling ?d) + (if fst (RandomCompactionPeriod (di_rnd ?d)) = 0 then 1 else 0) <
          2 * (b - di_bytes_until_read_sampling d) + (if fst (RandomCompactionPeriod (di_rnd d)) = 0 then 1 else 0 :: nat)"
        using True p step(2) by (cases "p = 0") auto
    qed (use step(1) in simp)
    then show ?thesis using True p by (subst sample_loop.simps) (auto simp: same_view_def)
  next
    case False
    then show ?thesis using less.prems by (subst sample_loop.simps) (simp add: same_view_def)
  qed
qed

section \<open>The visible entries\<close>

definition well_formed_entries :: "(slice \<times> slice) list \<Rightarrow> bool" where
  "well_formed_entries es \<longleftrightarrow> (\<forall>e \<in> set es. \<exists>ikey. fst e = AppendInternalKey [] ikey \<and> pk_sequence ikey \<le> kMaxSequenceNumber)"

definition ikey_of :: "slice \<times> slice \<Rightarrow> ParsedInternalKey" where
  "ikey_of e = the (ParseInternalKey (fst e))"

abbreviation user_at :: "(slice \<times> slice) list \<Rightarrow> nat \<Rightarrow> slice" where
  "user_at es i \<equiv> pk_user_key (ikey_of (es ! i))"

definition visible_at :: "64 word \<Rightarrow> (slice \<times> slice) list \<Rightarrow> nat \<Rightarrow> bool" where
  "visible_at sequence es i \<longleftrightarrow> pk_sequence (ikey_of (es ! i)) \<le> sequence"

text \<open>The entry is the newest visible one of its key (they come first) and a value.\<close>

definition newest_at :: "64 word \<Rightarrow> (slice \<times> slice) list \<Rightarrow> nat \<Rightarrow> bool" where
  "newest_at sequence es i \<longleftrightarrow>
     visible_at sequence es i \<and> pk_type (ikey_of (es ! i)) = kTypeValue \<and>
     (\<forall>j < i. visible_at sequence es j \<longrightarrow> user_at es j \<noteq> user_at es i)"

definition db_view :: "64 word \<Rightarrow> (slice \<times> slice) list \<Rightarrow> (slice \<times> slice) list" where
  "db_view sequence es = map (\<lambda>i. (user_at es i, snd (es ! i))) (filter (newest_at sequence es) [0..<length es])"

definition rank :: "64 word \<Rightarrow> (slice \<times> slice) list \<Rightarrow> nat \<Rightarrow> nat" where
  "rank sequence es c = length (filter (newest_at sequence es) [0..<c])"

lemma rank_0 [simp]: "rank sequence es 0 = 0"
  by (simp add: rank_def)

lemma rank_Suc: "rank sequence es (Suc c) = (if newest_at sequence es c then Suc (rank sequence es c) else rank sequence es c)"
  by (simp add: rank_def)

lemma rank_gap: "a \<le> b \<Longrightarrow> \<forall>i. a \<le> i \<and> i < b \<longrightarrow> \<not> newest_at sequence es i \<Longrightarrow> rank sequence es b = rank sequence es a"
proof (induction b)
  case (Suc b)
  show ?case
  proof (cases "a = Suc b")
    case False
    then show ?thesis using Suc by (simp add: rank_Suc)
  qed simp
qed simp

lemma rank_all: "rank sequence es (length es) = length (db_view sequence es)"
  by (simp add: rank_def db_view_def)

lemma view_nth:
  assumes "q < length es" "newest_at sequence es q"
  shows "rank sequence es q < length (db_view sequence es)" "db_view sequence es ! rank sequence es q = (user_at es q, snd (es ! q))"
proof -
  let ?f = "\<lambda>i. (user_at es i, snd (es ! i))" and ?N = "newest_at sequence es"
  have "[0..<length es] = [0..<q] @ q # [Suc q..<length es]" using assms(1) upt_add_eq_append [of 0 q "length es - q"] by (simp add: upt_conv_Cons)
  then have v: "db_view sequence es = map ?f (filter ?N [0..<q]) @ ?f q # map ?f (filter ?N [Suc q..<length es])"
    using assms(2) by (simp add: db_view_def)
  have r: "rank sequence es q = length (map ?f (filter ?N [0..<q]))" by (simp add: rank_def)
  show "rank sequence es q < length (db_view sequence es)" "db_view sequence es ! rank sequence es q = (user_at es q, snd (es ! q))"
    unfolding v r by (simp_all add: nth_append)
qed

lemma well_formed_parse:
  assumes "well_formed_entries es" "i < length es"
  shows "ParseInternalKey (fst (es ! i)) = Some (ikey_of (es ! i))" "ExtractUserKey (fst (es ! i)) = user_at es i"
    "fst (es ! i) = AppendInternalKey [] (ikey_of (es ! i))" "pk_sequence (ikey_of (es ! i)) \<le> kMaxSequenceNumber"
proof -
  obtain ikey where k: "fst (es ! i) = AppendInternalKey [] ikey" "pk_sequence ikey \<le> kMaxSequenceNumber"
    using assms(1) nth_mem [OF assms(2)] unfolding well_formed_entries_def by blast
  have p: "ParseInternalKey (fst (es ! i)) = Some ikey" using ParseInternalKey_Append [OF k(2)] k(1) by simp
  then have "ikey_of (es ! i) = ikey" by (simp add: ikey_of_def)
  then show "ParseInternalKey (fst (es ! i)) = Some (ikey_of (es ! i))" "ExtractUserKey (fst (es ! i)) = user_at es i"
    "fst (es ! i) = AppendInternalKey [] (ikey_of (es ! i))" "pk_sequence (ikey_of (es ! i)) \<le> kMaxSequenceNumber"
    using p k by simp_all
qed

section \<open>The loops\<close>

locale internal_iterator = user_comparator cmp + inner: sorted_iterator "InternalKeyComparator cmp" internal_valid it at
  for cmp and it :: "'i Iterator" and at
begin

lemma users_sorted:
  assumes "at x es n" "well_formed_entries es" "i \<le> j" "j < length es"
  shows "\<not> Compare cmp (user_at es j) (user_at es i) < 0"
proof (cases "i = j")
  case True
  then show ?thesis using user_order(2) by simp
next
  case False
  then have "entry_less (InternalKeyComparator cmp) (es ! i) (es ! j)"
    using inner.at_entries [OF assms(1)] assms(3,4) by (auto intro: sorted_wrt_nth_less)
  then show ?thesis
    using user_less_not user_order(2) well_formed_parse(2) [OF assms(2)] assms(3,4) by (auto simp: entry_less_def internal_signs)
qed

lemma users_le:
  assumes "at x es n" "well_formed_entries es" "i \<le> j" "j < length es"
  shows "Compare cmp (user_at es i) (user_at es j) \<le> 0"
  using users_sorted [OF assms] user_order(3) [of "user_at es i" "user_at es j"] by linarith

lemma users_between:
  assumes "at x es n" "well_formed_entries es" "i \<le> j" "j \<le> k" "k < length es" "user_at es i = user_at es k"
  shows "user_at es j = user_at es k"
proof -
  have "\<not> Compare cmp (user_at es j) (user_at es k) < 0" using users_sorted [OF assms(1-3)] assms(4,5,6) by simp
  moreover have "Compare cmp (user_at es j) (user_at es k) \<le> 0" by (rule users_le [OF assms(1,2,4,5)])
  ultimately show ?thesis using user_order(1) [of "user_at es j" "user_at es k"] by linarith
qed

lemma ParseKey_at:
  assumes "at (di_iter d) es i" "i < length es" "well_formed_entries es" "seed_ok (di_rnd d)"
  obtains d' where "ParseKey it d = Some (Some (ikey_of (es ! i)), d')" "same_view d d'"
proof -
  have k: "i_key it (di_iter d) = fst (es ! i)" by (rule inner.at_parts(1) [OF assms(1,2)])
  obtain d1 where "sample_loop (fst (es ! i)) (length (fst (es ! i)) + length (i_value it (di_iter d))) d = Some d1" "same_view d d1"
    using sample_loop_returns [OF assms(4)] by blast
  then show ?thesis using that well_formed_parse(1) [OF assms(3,2)] by (auto simp: ParseKey_def k same_view_def)
qed

lemma hides_step:
  assumes at: "at x es i" and i: "i < length es" and wf: "well_formed_entries es" and d1: "same_view d d1"
    and r: "next_round cmp seq skipping (Some (ikey_of (es ! i))) d1 = (False, skipping1, d2)"
    and hides: "\<forall>j. i \<le> j \<and> j < length es \<and> newest_at seq es j \<longrightarrow> (skipping \<and> Compare cmp (user_at es j) (di_saved_key d) \<le> 0 \<longleftrightarrow> j < lo)"
    and passed: "\<forall>h j. h < i \<and> visible_at seq es h \<and> i \<le> j \<and> j < length es \<and> user_at es j = user_at es h \<longrightarrow>
           skipping \<and> Compare cmp (user_at es j) (di_saved_key d) \<le> 0"
    and first: "\<forall>j. i \<le> j \<and> j < length es \<and> visible_at seq es j \<longrightarrow> lo \<le> Suc j"
  shows "(\<forall>j. Suc i \<le> j \<and> j < length es \<and> newest_at seq es j \<longrightarrow>
            (skipping1 \<and> Compare cmp (user_at es j) (di_saved_key d2) \<le> 0 \<longleftrightarrow> j < lo)) \<and>
    (\<forall>h j. h < Suc i \<and> visible_at seq es h \<and> Suc i \<le> j \<and> j < length es \<and> user_at es j = user_at es h \<longrightarrow>
            skipping1 \<and> Compare cmp (user_at es j) (di_saved_key d2) \<le> 0)"
proof -
  consider (invisible) "\<not> visible_at seq es i" "skipping1 = skipping" "di_saved_key d2 = di_saved_key d"
    | (deletion) "visible_at seq es i" "skipping1" "di_saved_key d2 = user_at es i"
    | (hidden) "skipping1 = skipping" "di_saved_key d2 = di_saved_key d" "skipping \<and> Compare cmp (user_at es i) (di_saved_key d) \<le> 0"
    using r d1 by (auto simp: next_round_def visible_at_def same_view_def split: if_splits ValueType.splits)
  note cases = this
  have later: "skipping \<and> Compare cmp (user_at es j) (di_saved_key d) \<le> 0"
    if "h < i" "visible_at seq es h" "Suc i \<le> j" "j < length es" "user_at es j = user_at es h" for h j
    using passed [rule_format, of h j] that by simp
  have hides': "skipping \<and> Compare cmp (user_at es j) (di_saved_key d) \<le> 0 \<longleftrightarrow> j < lo" if "Suc i \<le> j" "j < length es" "newest_at seq es j" for j
    using hides [rule_format, of j] that by simp
  show ?thesis
    using cases
  proof cases
    case invisible
    then have "h < i" if "h < Suc i" "visible_at seq es h" for h using that less_Suc_eq by blast
    then show ?thesis unfolding invisible(2,3) using later hides' by blast
  next
    case hidden
    have "skipping \<and> Compare cmp (user_at es j) (di_saved_key d) \<le> 0"
      if "h < Suc i" "visible_at seq es h" "Suc i \<le> j" "j < length es" "user_at es j = user_at es h" for h j
    proof (cases "h = i")
      case True
      then show ?thesis using hidden(3) that(5) by simp
    qed (use later [of h j] that in simp)
    then show ?thesis unfolding hidden(1,2) using hides' by blast
  next
    case deletion
    have "\<not> Compare cmp (user_at es j) (user_at es i) \<le> 0 \<and> \<not> j < lo" if j: "Suc i \<le> j" "j < length es" "newest_at seq es j" for j
    proof -
      have "user_at es i \<noteq> user_at es j" using j deletion(1) by (simp add: newest_at_def)
      moreover have "\<not> Compare cmp (user_at es j) (user_at es i) < 0" using users_sorted [OF at wf _ j(2), of i] j(1) by simp
      moreover have "lo \<le> Suc i" using first deletion(1) i by blast
      ultimately show ?thesis using user_order(1) [of "user_at es j" "user_at es i"] j(1) by auto
    qed
    moreover have "Compare cmp (user_at es j) (user_at es i) \<le> 0" if "h < Suc i" "Suc i \<le> j" "j < length es" "user_at es j = user_at es h" for h j
      using users_between [OF at wf, of h i j] that user_order(2) by simp
    ultimately show ?thesis using deletion(2,3) by auto
  qed
qed

lemma FindNext_at:
  assumes "at (di_iter d) es i" "i < length es" "well_formed_entries es" "seed_ok (di_rnd d)"
    and "\<forall>j. i \<le> j \<and> j < length es \<and> newest_at seq es j \<longrightarrow> (skipping \<and> Compare cmp (user_at es j) (di_saved_key d) \<le> 0 \<longleftrightarrow> j < lo)"
    and "\<forall>h j. h < i \<and> visible_at seq es h \<and> i \<le> j \<and> j < length es \<and> user_at es j = user_at es h \<longrightarrow>
           skipping \<and> Compare cmp (user_at es j) (di_saved_key d) \<le> 0"
    and "\<forall>j. i \<le> j \<and> j < length es \<and> visible_at seq es j \<longrightarrow> lo \<le> Suc j"
  obtains d' p where "FindNextUserEntry it cmp seq skipping d = Some d'" "at (di_iter d') es p" "di_status d' = di_status d"
    "di_direction d' = di_direction d" "seed_ok (di_rnd d')"
    "if di_valid d' then i \<le> p \<and> p < length es \<and> newest_at seq es p \<and> lo \<le> p \<and> (\<forall>j. i \<le> j \<and> j < p \<and> newest_at seq es j \<longrightarrow> j < lo)
     else \<forall>j. i \<le> j \<and> j < length es \<and> newest_at seq es j \<longrightarrow> j < lo"
  using assms
proof (induction "length es - i" arbitrary: i d skipping thesis)
  case 0
  then show ?case by simp
next
  case (Suc m)
  note at = Suc.prems(2) and i = Suc.prems(3) and wf = Suc.prems(4) and seed = Suc.prems(5) and hides = Suc.prems(6) and passed = Suc.prems(7) and first = Suc.prems(8)
  let ?k = "ikey_of (es ! i)"
  obtain d1 where d1: "ParseKey it d = Some (Some ?k, d1)" "same_view d d1" by (rule ParseKey_at [OF at i wf seed])
  obtain stop skipping1 d2 where r: "next_round cmp seq skipping (Some ?k) d1 = (stop, skipping1, d2)" by (metis prod_cases3)
  have keep: "di_iter d2 = di_iter d" "di_status d2 = di_status d" "di_direction d2 = di_direction d" "seed_ok (di_rnd d2)"
    using r d1(2) by (auto simp: next_round_def same_view_def split: if_splits ValueType.splits)
  show ?case
  proof (cases stop)
    case True
    then have s: "visible_at seq es i" "pk_type ?k = kTypeValue" "\<not> (skipping \<and> Compare cmp (user_at es i) (di_saved_key d) \<le> 0)" "di_valid d2"
      using r d1(2) by (auto simp: next_round_def same_view_def visible_at_def split: if_splits ValueType.splits)
    have "newest_at seq es i" unfolding newest_at_def using s passed i by (metis order_refl)
    moreover then have "lo \<le> i" using hides s(3) i by (meson not_le order_refl)
    moreover have run: "FindNextUserEntry it cmp seq skipping d = Some d2" using d1(1) r True by (subst FindNextUserEntry.simps) simp
    ultimately show ?thesis using s(4) i at keep by (intro Suc.prems(1) [OF run, of i]) simp_all
  next
    case False
    let ?H = "\<lambda>s d j. s \<and> Compare cmp (user_at es j) (di_saved_key d) \<le> 0"
    have not_here: "newest_at seq es i \<Longrightarrow> i < lo"
      using r False d1(2) hides i
      by (auto simp: next_round_def newest_at_def visible_at_def same_view_def split: if_splits ValueType.splits)
    obtain x where x: "i_Next it (di_iter d2) = Some x" "at x es (Suc i)" using inner.at_Next [OF at i] keep(1) by auto
    let ?d = "d2\<lparr>di_iter := x\<rparr>"
    show ?thesis
    proof (cases "Suc i < length es")
      case at_end: False
      then have "\<not> i_Valid it x" using inner.at_Valid [OF x(2)] by simp
      then have run: "FindNextUserEntry it cmp seq skipping d = Some (?d\<lparr>di_saved_key := [], di_valid := False\<rparr>)"
        using d1(1) r False x(1) by (subst FindNextUserEntry.simps) simp
      show ?thesis by (rule Suc.prems(1) [OF run]) (use x(2) keep at_end not_here i in \<open>auto dest: le_antisym\<close>)
    next
      case more: True
      then have "i_Valid it x" using inner.at_Valid [OF x(2)] by simp
      then have run: "FindNextUserEntry it cmp seq skipping d = FindNextUserEntry it cmp seq skipping1 ?d"
        using d1(1) r False x(1) by (subst FindNextUserEntry.simps) simp
      have inv: "(\<forall>j. Suc i \<le> j \<and> j < length es \<and> newest_at seq es j \<longrightarrow> (?H skipping1 ?d j \<longleftrightarrow> j < lo)) \<and>
        (\<forall>h j. h < Suc i \<and> visible_at seq es h \<and> Suc i \<le> j \<and> j < length es \<and> user_at es j = user_at es h \<longrightarrow> ?H skipping1 ?d j)"
        using hides_step [OF at i wf d1(2) _ hides passed first, of skipping1 d2] r False by simp
      show ?thesis
      proof (rule Suc.hyps(1) [where i = "Suc i" and d = ?d and skipping = skipping1])
        show "m = length es - Suc i" using Suc.hyps(2) by simp
        fix d' p
        assume post: "FindNextUserEntry it cmp seq skipping1 ?d = Some d'" "at (di_iter d') es p" "di_status d' = di_status ?d"
          "di_direction d' = di_direction ?d" "seed_ok (di_rnd d')"
          "if di_valid d' then Suc i \<le> p \<and> p < length es \<and> newest_at seq es p \<and> lo \<le> p \<and> (\<forall>j. Suc i \<le> j \<and> j < p \<and> newest_at seq es j \<longrightarrow> j < lo)
           else \<forall>j. Suc i \<le> j \<and> j < length es \<and> newest_at seq es j \<longrightarrow> j < lo"
        have "j < lo" if "i \<le> j" "newest_at seq es j" "Suc i \<le> j \<longrightarrow> j < lo" for j using that not_here by (cases "j = i") auto
        then show thesis using post keep run by (intro Suc.prems(1) [of d' p]) (auto split: if_splits)
      qed (use x(2) more wf keep(4) inv first in \<open>simp_all\<close>)
    qed
  qed
qed

end

text \<open>
  Moving backward, the entries from \<open>m\<close> to \<open>c\<close> were read: the first visible one of them is a value and saved, and no other is shown; or
  none is shown.
\<close>

definition scanned :: "64 word \<Rightarrow> (slice \<times> slice) list \<Rightarrow> nat \<Rightarrow> nat \<Rightarrow> ValueType \<Rightarrow> 'i DBIter \<Rightarrow> bool" where
  "scanned seq es m c value_type d \<longleftrightarrow>
     (if value_type = kTypeDeletion then \<forall>j. m \<le> j \<and> j < c \<longrightarrow> \<not> newest_at seq es j
      else \<exists>q. m \<le> q \<and> q < c \<and> visible_at seq es q \<and> pk_type (ikey_of (es ! q)) = kTypeValue \<and>
        di_saved_key d = user_at es q \<and> di_saved_value d = snd (es ! q) \<and>
        (\<forall>j. m \<le> j \<and> j < q \<longrightarrow> \<not> visible_at seq es j) \<and> (\<forall>j. q < j \<and> j < c \<longrightarrow> \<not> newest_at seq es j))"

text \<open>What the backward search finds: the last entry before \<open>c\<close> that is shown; no entry from \<open>b\<close> on to it is visible.\<close>

definition saved_at :: "64 word \<Rightarrow> (slice \<times> slice) list \<Rightarrow> nat \<Rightarrow> nat \<Rightarrow> 'i DBIter \<Rightarrow> bool" where
  "saved_at seq es q b d \<longleftrightarrow>
     q < length es \<and> newest_at seq es q \<and> di_saved_key d = user_at es q \<and> di_saved_value d = snd (es ! q) \<and>
     b \<le> q \<and> (\<forall>j. b \<le> j \<and> j < q \<longrightarrow> \<not> visible_at seq es j)"

definition found_before :: "64 word \<Rightarrow> (slice \<times> slice) list \<Rightarrow> nat \<Rightarrow> ValueType \<Rightarrow> 'i DBIter \<Rightarrow> nat \<Rightarrow> bool" where
  "found_before seq es c value_type d p \<longleftrightarrow>
     (if value_type = kTypeDeletion then \<forall>j < c. \<not> newest_at seq es j
      else \<exists>q b. q < c \<and> (\<forall>j. q < j \<and> j < c \<longrightarrow> \<not> newest_at seq es j) \<and> saved_at seq es q b d \<and> p = step_back b es)"

lemma scanned_value:
  assumes "scanned seq es m c value_type d" "value_type \<noteq> kTypeDeletion"
  obtains q where "m \<le> q" "q < c" "visible_at seq es q" "pk_type (ikey_of (es ! q)) = kTypeValue" "di_saved_key d = user_at es q"
    "di_saved_value d = snd (es ! q)" "\<forall>j. m \<le> j \<and> j < q \<longrightarrow> \<not> visible_at seq es j" "\<forall>j. q < j \<and> j < c \<longrightarrow> \<not> newest_at seq es j"
  using assms unfolding scanned_def by auto

lemma scanned_all:
  assumes "scanned seq es 0 c value_type d" "c \<le> length es"
  shows "found_before seq es c value_type d (length es)"
proof (cases "value_type = kTypeDeletion")
  case True
  then show ?thesis using assms(1) by (simp add: scanned_def found_before_def)
next
  case False
  then obtain q where q: "q < c" "visible_at seq es q" "pk_type (ikey_of (es ! q)) = kTypeValue" "di_saved_key d = user_at es q"
    "di_saved_value d = snd (es ! q)" "\<forall>j < q. \<not> visible_at seq es j" "\<forall>j. q < j \<and> j < c \<longrightarrow> \<not> newest_at seq es j"
    by (auto elim: scanned_value [OF assms(1)])
  then have "saved_at seq es q 0 d" using assms(2) by (simp add: saved_at_def newest_at_def)
  moreover have "length es = step_back 0 es" by (simp add: step_back_def)
  ultimately show ?thesis using False q(1,7) unfolding found_before_def by auto
qed

lemma scanned_skip:
  assumes "scanned seq es (Suc m) c value_type d" "\<not> visible_at seq es m"
  shows "scanned seq es m c value_type d"
proof (cases "value_type = kTypeDeletion")
  case True
  have "\<not> newest_at seq es j" if "m \<le> j" "j < c" for j
    using that True assms by (cases "j = m") (auto simp: scanned_def newest_at_def)
  then show ?thesis using True by (simp add: scanned_def)
next
  case False
  then obtain q where q: "Suc m \<le> q" "q < c" "visible_at seq es q" "pk_type (ikey_of (es ! q)) = kTypeValue" "di_saved_key d = user_at es q"
    "di_saved_value d = snd (es ! q)" "\<forall>j. Suc m \<le> j \<and> j < q \<longrightarrow> \<not> visible_at seq es j" "\<forall>j. q < j \<and> j < c \<longrightarrow> \<not> newest_at seq es j"
    by (rule scanned_value [OF assms(1)])
  have "\<not> visible_at seq es j" if "m \<le> j" "j < q" for j using that q(7) assms(2) by (cases "j = m") auto
  then show ?thesis using False q unfolding scanned_def by (auto intro!: exI [of _ q])
qed

context internal_iterator
begin

lemma prev_round_at:
  assumes at: "at x es m" and m: "m < length es" and wf: "well_formed_entries es" and d1: "same_view d d1" "di_iter d = x"
    and r: "prev_round it cmp seq value_type (Some (ikey_of (es ! m))) d1 = (stop, value_type1, d2)"
    and s: "scanned seq es (Suc m) c value_type d" and c: "Suc m \<le> c" "c \<le> length es"
  shows "if stop then found_before seq es c value_type1 d2 m else scanned seq es m c value_type1 d2"
proof -
  have k: "i_key it (di_iter d1) = fst (es ! m)" "i_value it (di_iter d1) = snd (es ! m)" "ExtractUserKey (fst (es ! m)) = user_at es m"
    using inner.at_parts [OF at m] well_formed_parse(2) [OF wf m] d1 by (simp_all add: same_view_def)
  have same: "scanned seq es (Suc m) c value_type d1" using s d1(1) by (simp add: scanned_def same_view_def)
  show ?thesis
  proof (cases "visible_at seq es m")
    case False
    then have "\<not> stop" "value_type1 = value_type" "d2 = d1" using r False by (simp_all add: prev_round_def visible_at_def)
    then show ?thesis using scanned_skip [OF same False] by simp
  next
    case vis: True
    show ?thesis
    proof (cases "value_type \<noteq> kTypeDeletion \<and> Compare cmp (user_at es m) (di_saved_key d1) < 0")
      case True
      then obtain q where q: "Suc m \<le> q" "q < c" "visible_at seq es q" "pk_type (ikey_of (es ! q)) = kTypeValue"
        "di_saved_key d1 = user_at es q" "di_saved_value d1 = snd (es ! q)" "\<forall>j. Suc m \<le> j \<and> j < q \<longrightarrow> \<not> visible_at seq es j"
        "\<forall>j. q < j \<and> j < c \<longrightarrow> \<not> newest_at seq es j" using scanned_value [OF same] by blast
      have "user_at es j \<noteq> user_at es q" if "j < q" "visible_at seq es j" for j
      proof
        assume eq: "user_at es j = user_at es q"
        have "j \<le> m" using q(7) that by (meson not_less_eq_eq)
        then have "user_at es m = user_at es q" using users_between [OF at wf _ _ _ eq, of m] q(1,2) c(2) by simp
        then show False using True q(5) user_order(2) by simp
      qed
      then have "newest_at seq es q" using q(3,4) by (simp add: newest_at_def)
      moreover have "stop" "value_type1 = value_type" "d2 = d1" using r True vis by (auto simp: prev_round_def visible_at_def)
      moreover then have "saved_at seq es q (Suc m) d1" using q c(2) \<open>newest_at seq es q\<close> by (simp add: saved_at_def)
      moreover have "m = step_back (Suc m) es" by (simp add: step_back_def)
      ultimately show ?thesis using True q(2,8) unfolding found_before_def by auto
    next
      case False
      have none: "\<not> newest_at seq es j" if j: "m < j" "j < c" for j
      proof (cases "value_type = kTypeDeletion")
        case True
        then show ?thesis using same j by (simp add: scanned_def)
      next
        case val: False
        then obtain q where q: "Suc m \<le> q" "q < c" "di_saved_key d1 = user_at es q" "\<forall>j. Suc m \<le> j \<and> j < q \<longrightarrow> \<not> visible_at seq es j"
          "\<forall>j. q < j \<and> j < c \<longrightarrow> \<not> newest_at seq es j" by (rule scanned_value [OF same])
        have "Compare cmp (user_at es m) (user_at es q) \<le> 0" "\<not> Compare cmp (user_at es m) (user_at es q) < 0"
          using users_le [OF at wf, of m q] q(1,2) c(2) False val q(3) by simp_all
        then have "user_at es m = user_at es q" using user_order(1) [of "user_at es m" "user_at es q"] by linarith
        then have "\<not> newest_at seq es q" using vis q(1) by (auto simp: newest_at_def intro!: exI [of _ m])
        then show ?thesis using q(4,5) j by (cases j q rule: linorder_cases) (auto simp: newest_at_def)
      qed
      have here: "newest_at seq es m \<Longrightarrow> pk_type (ikey_of (es ! m)) = kTypeValue" by (simp add: newest_at_def)
      show ?thesis
      proof (cases "pk_type (ikey_of (es ! m))")
        case kTypeDeletion
        then have "\<not> stop" "value_type1 = kTypeDeletion" using r False vis by (auto simp: prev_round_def visible_at_def)
        moreover have "\<not> newest_at seq es j" if "m \<le> j" "j < c" for j using none [of j] here kTypeDeletion that by (cases "j = m") auto
        ultimately show ?thesis by (simp add: scanned_def)
      next
        case kTypeValue
        then have "\<not> stop" "value_type1 = kTypeValue" "di_saved_key d2 = user_at es m" "di_saved_value d2 = snd (es ! m)"
          using r False vis k by (auto simp: prev_round_def visible_at_def)
        then show ?thesis using none vis kTypeValue c(1) by (auto simp: scanned_def intro!: exI [of _ m])
      qed
    qed
  qed
qed

lemma prev_loop_at:
  assumes "at (di_iter d) es m" "m < length es" "well_formed_entries es" "seed_ok (di_rnd d)" "scanned seq es (Suc m) c value_type d"
    "Suc m \<le> c" "c \<le> length es"
  obtains value_type' d' p where "prev_loop it cmp seq value_type d = Some (value_type', d')" "at (di_iter d') es p"
    "di_status d' = di_status d" "di_direction d' = di_direction d" "seed_ok (di_rnd d')" "found_before seq es c value_type' d' p"
  using assms
proof (induction m arbitrary: d value_type thesis rule: less_induct)
  case (less m)
  note at = less.prems(2) and m = less.prems(3) and wf = less.prems(4)
  obtain d1 where d1: "ParseKey it d = Some (Some (ikey_of (es ! m)), d1)" "same_view d d1" by (rule ParseKey_at [OF at m wf less.prems(5)])
  obtain stop value_type1 d2 where r: "prev_round it cmp seq value_type (Some (ikey_of (es ! m))) d1 = (stop, value_type1, d2)"
    by (metis prod_cases3)
  have keep: "di_iter d2 = di_iter d" "di_status d2 = di_status d" "di_direction d2 = di_direction d" "seed_ok (di_rnd d2)"
    using r d1(2) by (auto simp: prev_round_def same_view_def ClearSavedValue_def split: if_splits ValueType.splits)
  note step = prev_round_at [OF at m wf d1(2) refl r less.prems(6-8)]
  show ?case
  proof (cases stop)
    case True
    then have run: "prev_loop it cmp seq value_type d = Some (value_type1, d2)" using d1(1) r by (subst prev_loop.simps) simp
    show ?thesis by (rule less.prems(1) [OF run, of m]) (use at keep step True in simp_all)
  next
    case False
    then have sc: "scanned seq es m c value_type1 d2" using step by simp
    obtain x where x: "i_Prev it (di_iter d2) = Some x" "at x es (step_back m es)" using inner.at_Prev [OF at m] keep(1) by auto
    let ?d = "d2\<lparr>di_iter := x\<rparr>"
    have sc': "scanned seq es m c value_type1 ?d" using sc by (simp add: scanned_def)
    show ?thesis
    proof (cases m)
      case 0
      then have x_end: "at x es (length es)" using x(2) by (simp add: step_back_def)
      then have "\<not> i_Valid it x" using inner.at_Valid by blast
      then have run: "prev_loop it cmp seq value_type d = Some (value_type1, ?d)" using d1(1) r False x(1) by (subst prev_loop.simps) simp
      show ?thesis by (rule less.prems(1) [OF run, of "length es"]) (use x_end keep scanned_all [OF sc' [unfolded 0] less.prems(8)] in simp_all)
    next
      case (Suc n)
      then have x_n: "at x es n" "n < length es" using x(2) m by (simp_all add: step_back_def)
      then have "i_Valid it x" using inner.at_Valid by blast
      then have run: "prev_loop it cmp seq value_type d = prev_loop it cmp seq value_type1 ?d"
        using d1(1) r False x(1) by (subst prev_loop.simps) simp
      show ?thesis
      proof (rule less.IH [where y = n and d = ?d and value_type = value_type1])
        show thesis if "prev_loop it cmp seq value_type1 ?d = Some (value_type', d')" "at (di_iter d') es p" "di_status d' = di_status ?d"
          "di_direction d' = di_direction ?d" "seed_ok (di_rnd d')" "found_before seq es c value_type' d' p" for value_type' d' p
          using that keep run by (intro less.prems(1) [of value_type' d' p]) simp_all
      qed (use Suc x_n wf keep(4) sc' less.prems(7,8) in simp_all)
    qed
  qed
qed

lemma FindPrev_at:
  assumes at: "at (di_iter d) es (step_back c es)" and c: "c \<le> length es" and wf: "well_formed_entries es" and seed: "seed_ok (di_rnd d)"
  obtains d' p where "FindPrevUserEntry it cmp seq d = Some d'" "at (di_iter d') es p" "di_status d' = di_status d" "seed_ok (di_rnd d')"
    "if di_valid d' then di_direction d' = di_direction d \<and> found_before seq es c kTypeValue d' p else \<forall>j < c. \<not> newest_at seq es j"
proof (cases c)
  case 0
  then have "\<not> i_Valid it (di_iter d)" using inner.at_Valid [OF at] by (simp add: step_back_def)
  then have run: "FindPrevUserEntry it cmp seq d = Some ((ClearSavedValue (d\<lparr>di_valid := False, di_saved_key := []\<rparr>))\<lparr>di_direction := kForward\<rparr>)"
    by (simp add: FindPrevUserEntry_def)
  show ?thesis by (rule that [OF run]) (use at seed 0 in \<open>simp_all add: ClearSavedValue_def\<close>)
next
  case (Suc m)
  then have m: "at (di_iter d) es m" "m < length es" using at c by (simp_all add: step_back_def)
  then have v: "i_Valid it (di_iter d)" using inner.at_Valid by blast
  have "scanned seq es (Suc m) c kTypeDeletion d" using Suc by (auto simp: scanned_def)
  from prev_loop_at [OF m wf seed this] obtain vt d1 p where r: "prev_loop it cmp seq kTypeDeletion d = Some (vt, d1)" "at (di_iter d1) es p"
    "di_status d1 = di_status d" "di_direction d1 = di_direction d" "seed_ok (di_rnd d1)" "found_before seq es c vt d1 p"
    using Suc c by auto
  show ?thesis
  proof (cases vt)
    case kTypeDeletion
    then have run: "FindPrevUserEntry it cmp seq d = Some ((ClearSavedValue (d1\<lparr>di_valid := False, di_saved_key := []\<rparr>))\<lparr>di_direction := kForward\<rparr>)"
      using v r(1) by (simp add: FindPrevUserEntry_def)
    show ?thesis by (rule that [OF run]) (use r kTypeDeletion in \<open>simp_all add: ClearSavedValue_def found_before_def\<close>)
  next
    case kTypeValue
    then show ?thesis using v r by (intro that [of "d1\<lparr>di_valid := True\<rparr>" p]) (auto simp: FindPrevUserEntry_def found_before_def saved_at_def)
  qed
qed

lemma leave_key_at:
  assumes "at (di_iter d) es m" "m < length es" "well_formed_entries es" "m \<le> q" "q < length es" "user_at es m = user_at es q" "di_saved_key d = user_at es q"
  obtains more d' b where "leave_key it cmp d = Some (more, d')" "at (di_iter d') es (step_back b es)" "di_status d' = di_status d"
    "di_direction d' = di_direction d" "di_rnd d' = di_rnd d" "b \<le> q" "\<forall>j. b \<le> j \<and> j < q \<longrightarrow> user_at es j = user_at es q" "if more then 0 < b else b = 0 \<and> \<not> di_valid d'"
  using assms
proof (induction m arbitrary: d thesis rule: less_induct)
  case (less m)
  note wf = less.prems(4)
  obtain x where x: "i_Prev it (di_iter d) = Some x" "at x es (step_back m es)" using inner.at_Prev [OF less.prems(2,3)] by auto
  let ?d = "d\<lparr>di_iter := x\<rparr>"
  have group: "\<forall>j. m \<le> j \<and> j < q \<longrightarrow> user_at es j = user_at es q"
    using users_between [OF less.prems(2,4) _ _ less.prems(6,7)] by (metis less_imp_le)
  show ?case
  proof (cases m)
    case 0
    then have "\<not> i_Valid it x" using inner.at_Valid [OF x(2)] by (simp add: step_back_def)
    then have run: "leave_key it cmp d = Some (False, ClearSavedValue (?d\<lparr>di_valid := False, di_saved_key := []\<rparr>))"
      using x(1) by (subst leave_key.simps) simp
    show ?thesis by (rule less.prems(1) [OF run, of 0]) (use x(2) 0 group in \<open>simp_all add: ClearSavedValue_def\<close>)
  next
    case (Suc n)
    then have n: "at x es n" "n < length es" using x(2) less.prems(3) by (simp_all add: step_back_def)
    have v: "i_Valid it x" using inner.at_Valid n by blast
    have u: "ExtractUserKey (i_key it x) = user_at es n" using inner.at_parts(1) [OF n] well_formed_parse(2) [OF wf n(2)] by simp
    show ?thesis
    proof (cases "Compare cmp (user_at es n) (user_at es q) < 0")
      case True
      then have run: "leave_key it cmp d = Some (True, ?d)" using x(1) v u less.prems(8) by (subst leave_key.simps) simp
      show ?thesis by (rule less.prems(1) [OF run, of m]) (use x(2) Suc group less.prems(5) in simp_all)
    next
      case False
      moreover have "Compare cmp (user_at es n) (user_at es q) \<le> 0" using users_le [OF n(1) wf, of n q] less.prems(5,6) Suc by simp
      ultimately have same: "user_at es n = user_at es q" using user_order(1) [of "user_at es n" "user_at es q"] by linarith
      have run: "leave_key it cmp d = leave_key it cmp ?d" using x(1) v u less.prems(8) False by (subst leave_key.simps) simp
      show ?thesis
      proof (rule less.IH [where y = n and d = ?d])
        show thesis if "leave_key it cmp ?d = Some (more, d')" "at (di_iter d') es (step_back b es)" "di_status d' = di_status ?d"
          "di_direction d' = di_direction ?d" "di_rnd d' = di_rnd ?d" "b \<le> q" "\<forall>j. b \<le> j \<and> j < q \<longrightarrow> user_at es j = user_at es q"
          "if more then 0 < b else b = 0 \<and> \<not> di_valid d'" for more d' b
          using that run by (intro less.prems(1) [of more d' b]) simp_all
      qed (use Suc n wf less.prems(5,6,8) same in simp_all)
    qed
  qed
qed

end

section \<open>The contract for the visible entries\<close>

definition user_valid :: "slice \<Rightarrow> bool" where
  "user_valid u \<longleftrightarrow> length u + 8 < 2 ^ 32"

definition shown_at :: "64 word \<Rightarrow> (slice \<times> slice) list \<Rightarrow> nat \<Rightarrow> 'i DBIter \<Rightarrow> nat \<Rightarrow> bool" where
  "shown_at seq es p d n \<longleftrightarrow>
     (if di_direction d = kForward then p < length es \<and> newest_at seq es p \<and> n = rank seq es p
      else \<exists>q b. saved_at seq es q b d \<and> n = rank seq es q \<and> p = step_back b es)"

definition at_db ::
    "64 word \<Rightarrow> ('i \<Rightarrow> (slice \<times> slice) list \<Rightarrow> nat \<Rightarrow> bool) \<Rightarrow> 'i DBIter \<Rightarrow> (slice \<times> slice) list \<Rightarrow> nat \<Rightarrow> bool" where
  "at_db seq at d V n \<longleftrightarrow>
     (\<exists>es p. V = db_view seq es \<and> at (di_iter d) es p \<and> well_formed_entries es \<and> di_status d = OK \<and> seed_ok (di_rnd d) \<and>
       (if di_valid d then shown_at seq es p d n else n = length V))"

lemma at_dbI:
  assumes "at (di_iter d) es p" "well_formed_entries es" "di_status d = OK" "seed_ok (di_rnd d)"
    "if di_valid d then shown_at seq es p d n else n = length (db_view seq es)"
  shows "at_db seq at d (db_view seq es) n"
  using assms unfolding at_db_def by blast

lemma shown_less: "shown_at seq es p d n \<Longrightarrow> n < length (db_view seq es)"
  using view_nth(1) by (auto simp: shown_at_def saved_at_def split: if_splits)

lemma newest_alone:
  assumes "newest_at seq es q" "q < j" "user_at es j = user_at es q"
  shows "\<not> newest_at seq es j"
  using assms unfolding newest_at_def by metis

context internal_iterator
begin

lemma view_sorted:
  assumes "at x es n" "well_formed_entries es"
  shows "sorted_wrt (entry_less cmp) (db_view seq es)" "\<forall>e \<in> set (db_view seq es). user_valid (fst e)"
proof -
  let ?N = "filter (newest_at seq es) [0..<length es]"
  have "sorted_wrt (\<lambda>i j. i < j) ?N" by (rule sorted_wrt_filter) simp
  then have "sorted_wrt (\<lambda>i j. Compare cmp (user_at es i) (user_at es j) < 0) ?N"
  proof (rule sorted_wrt_mono_rel [rotated])
    fix i j assume "i \<in> set ?N" "j \<in> set ?N" "i < j"
    then have ij: "newest_at seq es i" "newest_at seq es j" "j < length es" "i < j" by auto
    then have "user_at es j \<noteq> user_at es i" using newest_alone by blast
    then show "Compare cmp (user_at es i) (user_at es j) < 0"
      using users_le [OF assms, of i j] ij user_order(1) [of "user_at es i" "user_at es j"] by auto
  qed
  then show "sorted_wrt (entry_less cmp) (db_view seq es)" by (simp add: db_view_def sorted_wrt_map entry_less_def)
  have "user_valid (user_at es i)" if "i < length es" for i
  proof -
    have "internal_valid (fst (es ! i))" using inner.at_entries [OF assms(1)] that by simp
    then show ?thesis using arg_cong [OF well_formed_parse(3) [OF assms(2) that], of length]
      by (simp add: internal_valid_def user_valid_def AppendInternalKey_def)
  qed
  then show "\<forall>e \<in> set (db_view seq es). user_valid (fst e)" by (auto simp: db_view_def)
qed

text \<open>The result of a search as a position of the list.\<close>

lemma forward_shown:
  assumes d': "at (di_iter d') es p" "di_status d' = OK" "di_direction d' = kForward" "seed_ok (di_rnd d')" and wf: "well_formed_entries es"
    and post: "if di_valid d' then i \<le> p \<and> p < length es \<and> newest_at seq es p \<and> lo \<le> p \<and> (\<forall>j. i \<le> j \<and> j < p \<and> newest_at seq es j \<longrightarrow> j < lo)
     else \<forall>j. i \<le> j \<and> j < length es \<and> newest_at seq es j \<longrightarrow> j < lo"
    and b: "i \<le> b" "lo \<le> b" "b \<le> length es" "\<forall>j. max i lo \<le> j \<and> j < b \<longrightarrow> \<not> newest_at seq es j"
  shows "at_db seq at d' (db_view seq es) (rank seq es b)"
proof (cases "di_valid d'")
  case True
  then have p: "i \<le> p" "p < length es" "newest_at seq es p" "lo \<le> p" "\<forall>j. i \<le> j \<and> j < p \<and> newest_at seq es j \<longrightarrow> j < lo" using post by simp_all
  have "b \<le> p" using b(4) p(1,3,4) by (meson max.boundedI not_le)
  moreover have "\<forall>j. b \<le> j \<and> j < p \<longrightarrow> \<not> newest_at seq es j" using p(5) b(1,2) by (meson le_trans not_le)
  ultimately have "rank seq es p = rank seq es b" by (rule rank_gap)
  then show ?thesis by (intro at_dbI [where at = at, OF d'(1) wf d'(2,4)]) (use True d'(3) p(2,3) in \<open>simp add: shown_at_def\<close>)
next
  case False
  then have "\<forall>j. b \<le> j \<and> j < length es \<longrightarrow> \<not> newest_at seq es j" using post b(1,2) by (meson le_trans not_le)
  then have "rank seq es (length es) = rank seq es b" by (rule rank_gap [OF b(3)])
  then show ?thesis by (intro at_dbI [where at = at, OF d'(1) wf d'(2,4)]) (use False rank_all [of seq es] in simp)
qed

lemma backward_shown:
  assumes d': "at (di_iter d') es p" "di_status d' = OK" "seed_ok (di_rnd d')" and wf: "well_formed_entries es"
    and post: "if di_valid d' then di_direction d' = kReverse \<and> found_before seq es c kTypeValue d' p else \<forall>j < c. \<not> newest_at seq es j"
  shows "at_db seq at d' (db_view seq es) (step_back (rank seq es c) (db_view seq es))"
proof (cases "di_valid d'")
  case True
  then obtain q b where q: "q < c" "\<forall>j. q < j \<and> j < c \<longrightarrow> \<not> newest_at seq es j" "saved_at seq es q b d'" "p = step_back b es"
    using post by (auto simp: found_before_def)
  have "rank seq es c = rank seq es (Suc q)" by (rule rank_gap) (use q(1,2) in auto)
  then have "rank seq es c = Suc (rank seq es q)" using q(3) by (simp add: rank_Suc saved_at_def)
  then have "shown_at seq es p d' (step_back (rank seq es c) (db_view seq es))"
    using True post q(3,4) unfolding shown_at_def by (auto simp: step_back_def [of "Suc _"])
  then show ?thesis by (intro at_dbI [where at = at, OF d'(1) wf d'(2,3)]) (use True in simp)
next
  case False
  then have "rank seq es c = rank seq es 0" using post by (intro rank_gap) auto
  then show ?thesis by (intro at_dbI [where at = at, OF d'(1) wf d'(2,3)]) (use False in \<open>simp add: step_back_def\<close>)
qed

end

context internal_iterator
begin

lemma db_parts:
  assumes "at_db seq at d V n" "n < length V"
  obtains es p where "V = db_view seq es" "at (di_iter d) es p" "well_formed_entries es" "di_status d = OK" "seed_ok (di_rnd d)" "di_valid d"
    "shown_at seq es p d n"
  using assms by (auto simp: at_db_def split: if_splits)

lemma db_entry:
  assumes "at_db seq at d V n" "n < length V"
  shows "(db_key it d, db_value it d) = V ! n"
proof -
  obtain es p where V: "V = db_view seq es" "at (di_iter d) es p" "well_formed_entries es" "shown_at seq es p d n" by (rule db_parts [OF assms])
  show ?thesis
  proof (cases "di_direction d")
    case kForward
    then have p: "p < length es" "newest_at seq es p" "n = rank seq es p" using V(4) by (simp_all add: shown_at_def)
    then show ?thesis using kForward view_nth(2) [OF p(1,2)] inner.at_parts [OF V(2) p(1)] well_formed_parse(2) [OF V(3) p(1)] V(1)
      by (simp add: db_key_def db_value_def)
  next
    case kReverse
    then obtain q b where q: "saved_at seq es q b d" "n = rank seq es q" using V(4) by (auto simp: shown_at_def)
    then show ?thesis using kReverse view_nth(2) [of q es seq] V(1) by (simp add: db_key_def db_value_def saved_at_def)
  qed
qed

text \<open>From an entry that is shown, its user key hides exactly the entries up to it.\<close>

lemma skips_current:
  assumes at: "at x es p" and wf: "well_formed_entries es" and q: "q < length es" "newest_at seq es q"
    and i: "i \<le> q" "\<forall>j. i \<le> j \<and> j < q \<longrightarrow> \<not> visible_at seq es j"
  shows "\<forall>j. i \<le> j \<and> j < length es \<and> newest_at seq es j \<longrightarrow> (True \<and> Compare cmp (user_at es j) (user_at es q) \<le> 0 \<longleftrightarrow> j < Suc q)"
    "\<forall>h j. h < i \<and> visible_at seq es h \<and> i \<le> j \<and> j < length es \<and> user_at es j = user_at es h \<longrightarrow> True \<and> Compare cmp (user_at es j) (user_at es q) \<le> 0"
    "\<forall>j. i \<le> j \<and> j < length es \<and> visible_at seq es j \<longrightarrow> Suc q \<le> Suc j"
proof -
  show "\<forall>j. i \<le> j \<and> j < length es \<and> newest_at seq es j \<longrightarrow> (True \<and> Compare cmp (user_at es j) (user_at es q) \<le> 0 \<longleftrightarrow> j < Suc q)"
  proof (intro allI impI)
    fix j assume j: "i \<le> j \<and> j < length es \<and> newest_at seq es j"
    show "True \<and> Compare cmp (user_at es j) (user_at es q) \<le> 0 \<longleftrightarrow> j < Suc q"
    proof (cases "j \<le> q")
      case True
      then show ?thesis using users_le [OF at wf True q(1)] by simp
    next
      case False
      then have "user_at es j \<noteq> user_at es q" using newest_alone [OF q(2)] j by auto
      then show ?thesis using False users_sorted [OF at wf, of q j] j user_order(1) [of "user_at es j" "user_at es q"] by auto
    qed
  qed
  show "\<forall>h j. h < i \<and> visible_at seq es h \<and> i \<le> j \<and> j < length es \<and> user_at es j = user_at es h \<longrightarrow> True \<and> Compare cmp (user_at es j) (user_at es q) \<le> 0"
  proof (intro allI impI)
    fix h j assume hj: "h < i \<and> visible_at seq es h \<and> i \<le> j \<and> j < length es \<and> user_at es j = user_at es h"
    have "j \<le> q"
    proof (rule ccontr)
      assume "\<not> j \<le> q"
      then have "user_at es q = user_at es h" using users_between [OF at wf, of h q j] hj i(1) by simp
      moreover have "h < q" using hj i(1) by simp
      ultimately show False using q(2) hj unfolding newest_at_def by metis
    qed
    then show "True \<and> Compare cmp (user_at es j) (user_at es q) \<le> 0" using users_le [OF at wf _ q(1)] by simp
  qed
  show "\<forall>j. i \<le> j \<and> j < length es \<and> visible_at seq es j \<longrightarrow> Suc q \<le> Suc j" using i(2) by (meson Suc_le_mono not_le)
qed

lemma db_Next_at:
  assumes "at_db seq at d V n" "n < length V"
  shows "\<exists>d'. db_Next it cmp seq d = Some d' \<and> at_db seq at d' V (Suc n)"
proof -
  obtain es p where V: "V = db_view seq es" and at: "at (di_iter d) es p" and wf: "well_formed_entries es" and st: "di_status d = OK" "seed_ok (di_rnd d)"
    and sh: "shown_at seq es p d n" by (rule db_parts [OF assms])
  have search: "\<exists>d'. FindNextUserEntry it cmp seq True d1 = Some d' \<and> at_db seq at d' V (Suc n)"
    if d1: "at (di_iter d1) es i" "di_status d1 = OK" "seed_ok (di_rnd d1)" "di_direction d1 = kForward" "di_saved_key d1 = user_at es q"
      and q: "q < length es" "newest_at seq es q" "n = rank seq es q" "i \<le> q" "\<forall>j. i \<le> j \<and> j < q \<longrightarrow> \<not> visible_at seq es j" for d1 i q
  proof -
    note skip = skips_current [OF at wf q(1,2,4,5)]
    have i: "i < length es" using q(1,4) by simp
    obtain d' p' where d': "FindNextUserEntry it cmp seq True d1 = Some d'" "at (di_iter d') es p'" "di_status d' = di_status d1"
      "di_direction d' = di_direction d1" "seed_ok (di_rnd d')"
      "if di_valid d' then i \<le> p' \<and> p' < length es \<and> newest_at seq es p' \<and> Suc q \<le> p' \<and> (\<forall>j. i \<le> j \<and> j < p' \<and> newest_at seq es j \<longrightarrow> j < Suc q)
       else \<forall>j. i \<le> j \<and> j < length es \<and> newest_at seq es j \<longrightarrow> j < Suc q"
      by (rule FindNext_at [OF d1(1) i wf d1(3) skip [folded d1(5)]])
    have "at_db seq at d' (db_view seq es) (rank seq es (Suc q))"
      by (rule forward_shown [OF d'(2) _ _ d'(5) wf d'(6)]) (use d'(3,4) d1(2,4) q(1,4) in auto)
    then show ?thesis using d'(1) V q(2,3) by (simp add: rank_Suc)
  qed
  show ?thesis
  proof (cases "di_direction d")
    case kForward
    then have p: "p < length es" "newest_at seq es p" "n = rank seq es p" using sh by (simp_all add: shown_at_def)
    have "ExtractUserKey (i_key it (di_iter d)) = user_at es p" using inner.at_parts(1) [OF at p(1)] well_formed_parse(2) [OF wf p(1)] by simp
    moreover have "\<forall>j. p \<le> j \<and> j < p \<longrightarrow> \<not> visible_at seq es j" by auto
    ultimately show ?thesis using search [of "d\<lparr>di_saved_key := user_at es p\<rparr>" p p] at st kForward p by (simp add: db_Next_def)
  next
    case kReverse
    then obtain q b where q: "saved_at seq es q b d" "n = rank seq es q" "p = step_back b es" using sh by (auto simp: shown_at_def)
    obtain x where x: "(if \<not> i_Valid it (di_iter d) then i_SeekToFirst it (di_iter d) else i_Next it (di_iter d)) = Some x" "at x es b"
    proof (cases "b = 0")
      case True
      then have "\<not> i_Valid it (di_iter d)" using inner.at_Valid [OF at] q(3) by (simp add: step_back_def)
      then show ?thesis using that inner.at_SeekToFirst [OF at] True by auto
    next
      case False
      then have p: "p < length es" "Suc p = b" using q(1,3) by (auto simp: step_back_def saved_at_def)
      then have "i_Valid it (di_iter d)" using inner.at_Valid [OF at] by simp
      then show ?thesis using that inner.at_Next [OF at p(1)] p(2) by auto
    qed
    have "i_Valid it x" using inner.at_Valid [OF x(2)] q(1) by (simp add: saved_at_def)
    then show ?thesis using search [of "d\<lparr>di_direction := kForward, di_iter := x\<rparr>" b q] x st kReverse q
      by (simp add: db_Next_def saved_at_def)
  qed
qed

lemma db_Prev_at:
  assumes "at_db seq at d V n" "n < length V"
  shows "\<exists>d'. db_Prev it cmp seq d = Some d' \<and> at_db seq at d' V (step_back n V)"
proof -
  obtain es p where V: "V = db_view seq es" and at: "at (di_iter d) es p" and wf: "well_formed_entries es" and st: "di_status d = OK" "seed_ok (di_rnd d)"
    and sh: "shown_at seq es p d n" by (rule db_parts [OF assms])
  have search: "\<exists>d'. FindPrevUserEntry it cmp seq d1 = Some d' \<and> at_db seq at d' V (step_back n V)"
    if d1: "at (di_iter d1) es (step_back c es)" "di_status d1 = OK" "seed_ok (di_rnd d1)" "di_direction d1 = kReverse" and c: "c \<le> length es" "n = rank seq es c" for d1 c
  proof -
    obtain d' p' where d': "FindPrevUserEntry it cmp seq d1 = Some d'" "at (di_iter d') es p'" "di_status d' = di_status d1" "seed_ok (di_rnd d')"
      "if di_valid d' then di_direction d' = di_direction d1 \<and> found_before seq es c kTypeValue d' p' else \<forall>j < c. \<not> newest_at seq es j"
      by (rule FindPrev_at [OF d1(1) c(1) wf d1(3)])
    have "at_db seq at d' (db_view seq es) (step_back (rank seq es c) (db_view seq es))"
      by (rule backward_shown [OF d'(2) _ d'(4) wf]) (use d'(3,5) d1(2,4) in auto)
    then show ?thesis using d'(1) V c(2) by simp
  qed
  show ?thesis
  proof (cases "di_direction d")
    case kReverse
    then obtain q b where q: "saved_at seq es q b d" "n = rank seq es q" "p = step_back b es" using sh by (auto simp: shown_at_def)
    then have "rank seq es q = rank seq es b" by (intro rank_gap) (auto simp: saved_at_def newest_at_def)
    then show ?thesis using search [of d b] at st kReverse q by (simp add: db_Prev_def saved_at_def)
  next
    case kForward
    then have p: "p < length es" "newest_at seq es p" "n = rank seq es p" using sh by (simp_all add: shown_at_def)
    have key: "ExtractUserKey (i_key it (di_iter d)) = user_at es p" using inner.at_parts(1) [OF at p(1)] well_formed_parse(2) [OF wf p(1)] by simp
    let ?d = "d\<lparr>di_saved_key := user_at es p\<rparr>"
    obtain more d1 b where d1: "leave_key it cmp ?d = Some (more, d1)" "at (di_iter d1) es (step_back b es)" "di_status d1 = di_status ?d"
      "di_direction d1 = di_direction ?d" "di_rnd d1 = di_rnd ?d" "b \<le> p" "\<forall>j. b \<le> j \<and> j < p \<longrightarrow> user_at es j = user_at es p"
      "if more then 0 < b else b = 0 \<and> \<not> di_valid d1"
      by (rule leave_key_at [of ?d es p p]) (use at p(1) wf in simp_all)
    have "rank seq es p = rank seq es b"
      by (rule rank_gap) (use d1(6,7) p(2) in \<open>auto simp: newest_at_def\<close>)
    then have r: "n = rank seq es b" using p(3) by simp
    show ?thesis
    proof (cases more)
      case True
      then show ?thesis using search [of "d1\<lparr>di_direction := kReverse\<rparr>" b] d1 st kForward key p(1) r by (simp add: db_Prev_def)
    next
      case False
      then have "n = 0" "\<not> di_valid d1" using r d1(8) by simp_all
      then have "at_db seq at d1 V (step_back n V)" unfolding V
        by (intro at_dbI [where at = at, OF d1(2) wf]) (use d1(3,5) st in \<open>simp_all add: step_back_def\<close>)
      then show ?thesis using d1(1) False kForward key by (simp add: db_Prev_def)
    qed
  qed
qed

end

lemma view_split:
  assumes "p \<le> length es" "\<forall>i < p. newest_at seq es i \<longrightarrow> P (user_at es i, snd (es ! i))"
    "\<forall>i. p \<le> i \<and> i < length es \<and> newest_at seq es i \<longrightarrow> \<not> P (user_at es i, snd (es ! i))"
  shows "length (takeWhile P (db_view seq es)) = rank seq es p"
proof -
  let ?f = "\<lambda>i. (user_at es i, snd (es ! i))" and ?N = "newest_at seq es"
  have "[0..<length es] = [0..<p] @ [p..<length es]" using assms(1) upt_add_eq_append [of 0 p "length es - p"] by simp
  then have v: "db_view seq es = map ?f (filter ?N [0..<p]) @ map ?f (filter ?N [p..<length es])" by (simp add: db_view_def)
  have low: "x \<in> set (map ?f (filter ?N [0..<p])) \<Longrightarrow> P x" for x using assms(2) by auto
  have high: "takeWhile P (map ?f (filter ?N [p..<length es])) = []"
  proof (cases "map ?f (filter ?N [p..<length es])")
    case (Cons x xs)
    then have "x \<in> set (map ?f (filter ?N [p..<length es]))" by simp
    then have "\<not> P x" using assms(3) by auto
    then show ?thesis using Cons by simp
  qed simp
  have "takeWhile P (db_view seq es) = map ?f (filter ?N [0..<p])" 
    unfolding v using takeWhile_append2 [of "map ?f (filter ?N [0..<p])" P "map ?f (filter ?N [p..<length es])"] low high by simp
  then show ?thesis by (simp add: rank_def)
qed

context internal_iterator
begin

lemma db_seek_run:
  assumes at: "at (di_iter d) es p" and wf: "well_formed_entries es" and st: "di_status d = OK" "seed_ok (di_rnd d)" "di_direction d = kForward"
    and before: "\<forall>h j. h < p \<and> visible_at seq es h \<and> p \<le> j \<and> j < length es \<longrightarrow> user_at es j \<noteq> user_at es h"
  shows "\<exists>d'. (if i_Valid it (di_iter d) then FindNextUserEntry it cmp seq False d else Some (d\<lparr>di_valid := False\<rparr>)) = Some d' \<and>
    at_db seq at d' (db_view seq es) (rank seq es p)"
proof (cases "p < length es")
  case True
  obtain d' p' where d': "FindNextUserEntry it cmp seq False d = Some d'" "at (di_iter d') es p'" "di_status d' = di_status d"
    "di_direction d' = di_direction d" "seed_ok (di_rnd d')"
    "if di_valid d' then p \<le> p' \<and> p' < length es \<and> newest_at seq es p' \<and> 0 \<le> p' \<and> (\<forall>j. p \<le> j \<and> j < p' \<and> newest_at seq es j \<longrightarrow> j < 0)
     else \<forall>j. p \<le> j \<and> j < length es \<and> newest_at seq es j \<longrightarrow> j < 0"
    by (rule FindNext_at [OF at True wf st(2), of seq False 0]) (use before in auto)
  have "at_db seq at d' (db_view seq es) (rank seq es p)"
    by (rule forward_shown [OF d'(2) _ _ d'(5) wf d'(6)]) (use d'(3,4) st True in auto)
  then show ?thesis using d'(1) inner.at_Valid [OF at] True by simp
next
  case False
  then have p: "p = length es" using inner.at_entries [OF at] by simp
  have "at_db seq at (d\<lparr>di_valid := False\<rparr>) (db_view seq es) (rank seq es p)"
    by (rule at_dbI [where at = at and p = p]) (use at wf st p rank_all [of seq es] in simp_all)
  then show ?thesis using inner.at_Valid [OF at] False by simp
qed

lemma db_Seek_at:
  assumes "at_db seq at d V n" "user_valid u" "seq \<le> kMaxSequenceNumber"
  shows "\<exists>d'. db_Seek it cmp seq u d = Some d' \<and> at_db seq at d' V (lower cmp u V)"
proof -
  obtain es p where V: "V = db_view seq es" "at (di_iter d) es p" "well_formed_entries es" "di_status d = OK" "seed_ok (di_rnd d)"
    using assms(1) by (auto simp: at_db_def)
  let ?k = "AppendInternalKey [] \<lparr>pk_user_key = u, pk_sequence = seq, pk_type = kValueTypeForSeek\<rparr>" and ?I = "InternalKeyComparator cmp"
  have k: "internal_valid ?k" using assms(2) by (simp add: internal_valid_def user_valid_def AppendInternalKey_def)
  let ?l = "lower ?I ?k es"
  obtain x where x: "i_Seek it ?k (di_iter d) = Some x" "at x es ?l" using inner.at_Seek [OF V(2) k] by auto
  have iff: "i < ?l \<longleftrightarrow> Compare cmp (user_at es i) u < 0 \<or> user_at es i = u \<and> \<not> visible_at seq es i" if i: "i < length es" for i
  proof -
    have "Compare ?I (fst (es ! i)) ?k < 0 \<longleftrightarrow> Compare cmp (user_at es i) u < 0 \<or> user_at es i = u \<and> seq < pk_sequence (ikey_of (es ! i))"
      using well_formed_parse(2-4) [OF V(3) i] arg_cong [OF well_formed_parse(3) [OF V(3) i], of key_number]
        lookup_not_above [OF assms(3), of "pk_sequence (ikey_of (es ! i))" "pk_type (ikey_of (es ! i))"] by (simp add: internal_signs)
    then show ?thesis using inner.lower_iff [OF _ _ k i] inner.at_entries [OF V(2)] by (auto simp: visible_at_def)
  qed
  have l: "?l \<le> length es" by (simp add: lower_def length_takeWhile_le)
  have less: "Compare cmp (user_at es i) u < 0" if "i < ?l" "visible_at seq es i" for i using iff [of i] that l by simp
  have notless: "\<not> Compare cmp (user_at es i) u < 0" if "?l \<le> i" "i < length es" for i using iff [of i] that by simp
  have "lower cmp u V = rank seq es ?l" unfolding lower_def [of cmp] V(1)
    by (rule view_split [OF l]) (use less notless in \<open>auto simp: newest_at_def\<close>)
  moreover have "user_at es j \<noteq> user_at es h" if "h < ?l" "visible_at seq es h" "?l \<le> j" "j < length es" for h j
    using less [OF that(1,2)] notless [OF that(3,4)] by auto
  then have "\<exists>d'. db_Seek it cmp seq u d = Some d' \<and> at_db seq at d' (db_view seq es) (rank seq es ?l)"
    using db_seek_run [of "d\<lparr>di_direction := kForward, di_saved_value := [], di_saved_key := ?k, di_iter := x\<rparr>" es ?l seq] x V(3-5)
    by (simp add: db_Seek_def ClearSavedValue_def Let_def)
  ultimately show ?thesis using V(1) by simp
qed

lemma db_SeekToFirst_at:
  assumes "at_db seq at d V n"
  shows "\<exists>d'. db_SeekToFirst it cmp seq d = Some d' \<and> at_db seq at d' V 0"
proof -
  obtain es p where V: "V = db_view seq es" "at (di_iter d) es p" "well_formed_entries es" "di_status d = OK" "seed_ok (di_rnd d)"
    using assms(1) by (auto simp: at_db_def)
  obtain x where x: "i_SeekToFirst it (di_iter d) = Some x" "at x es 0" using inner.at_SeekToFirst [OF V(2)] by auto
  show ?thesis
    using db_seek_run [of "d\<lparr>di_direction := kForward, di_saved_value := [], di_iter := x\<rparr>" es 0 seq] x V
    by (simp add: db_SeekToFirst_def ClearSavedValue_def Let_def)
qed

lemma db_SeekToLast_at:
  assumes "at_db seq at d V n"
  shows "\<exists>d'. db_SeekToLast it cmp seq d = Some d' \<and> at_db seq at d' V (step_back (length V) V)"
proof -
  obtain es p where V: "V = db_view seq es" "at (di_iter d) es p" "well_formed_entries es" "di_status d = OK" "seed_ok (di_rnd d)"
    using assms(1) by (auto simp: at_db_def)
  obtain x where x: "i_SeekToLast it (di_iter d) = Some x" "at x es (step_back (length es) es)" using inner.at_SeekToLast [OF V(2)] by auto
  let ?d = "d\<lparr>di_direction := kReverse, di_saved_value := [], di_iter := x\<rparr>"
  obtain d' p' where d': "FindPrevUserEntry it cmp seq ?d = Some d'" "at (di_iter d') es p'" "di_status d' = di_status ?d" "seed_ok (di_rnd d')"
    "if di_valid d' then di_direction d' = di_direction ?d \<and> found_before seq es (length es) kTypeValue d' p' else \<forall>j < length es. \<not> newest_at seq es j"
    by (rule FindPrev_at [of ?d es "length es"]) (use x V in simp_all)
  have "at_db seq at d' (db_view seq es) (step_back (rank seq es (length es)) (db_view seq es))"
    by (rule backward_shown [OF d'(2) _ d'(4) V(3)]) (use d'(3,5) V(4) in auto)
  then show ?thesis using d'(1) x(1) V(1) by (simp add: db_SeekToLast_def ClearSavedValue_def Let_def rank_all)
qed

lemma db_iterator:
  assumes "seq \<le> kMaxSequenceNumber"
  shows "sorted_iterator cmp user_valid (DBIter_ops it cmp seq) (at_db seq at)"
proof
  show "Compare cmp a c < 0" if "Compare cmp a b < 0" "Compare cmp b c < 0" for a b c using compare_trans that by blast
  show "Compare cmp a b < 0 \<longleftrightarrow> Compare cmp b a > 0" for a b using compare_sym by blast
  fix d V n assume d: "at_db seq at d V n"
  then obtain es p where V: "V = db_view seq es" "at (di_iter d) es p" "well_formed_entries es" "di_status d = OK"
    "if di_valid d then shown_at seq es p d n else n = length V" by (auto simp: at_db_def)
  have n: "di_valid d \<longleftrightarrow> n < length V" "n \<le> length V" using V(1,5) shown_less [of seq es p d n] by (auto split: if_splits)
  show "n \<le> length V \<and> (\<forall>e \<in> set V. user_valid (fst e)) \<and> sorted_wrt (entry_less cmp) V" using n(2) view_sorted [OF V(2,3)] V(1) by simp
  show "i_Valid (DBIter_ops it cmp seq) d \<longleftrightarrow> n < length V" using n(1) by (simp add: DBIter_ops_def)
  show "i_status (DBIter_ops it cmp seq) d = OK" using V(4) inner.at_status [OF V(2)] by (simp add: DBIter_ops_def db_status_def)
qed (use assms in \<open>simp_all add: DBIter_ops_def db_entry db_Seek_at db_SeekToFirst_at db_SeekToLast_at db_Next_at db_Prev_at\<close>)

lemma NewDBIterator_at:
  assumes "at x es n" "well_formed_entries es"
  shows "at_db seq at (NewDBIterator x seed) (db_view seq es) (length (db_view seq es))"
proof -
  obtain p r where p: "RandomCompactionPeriod (new_Random seed) = (p, r)" by force
  have "seed_ok r" by (rule period_progress(1) [OF new_Random_ok p])
  then show ?thesis by (intro at_dbI [where at = at and p = n]) (use assms p in \<open>simp_all add: NewDBIterator_def\<close>)
qed

end

end
