(* ===== verification/Ldb_Db_View.thy ===== *)
theory Ldb_Db_View
  imports Ldb_Db_Iter
begin

text \<open>
  The iterators composed: memory tables, the iterator that merges theirs, and the iterator of the database over it. Memory tables hold the
  operations that were added to them, so the list that the database iterator runs over is given by the operations: the newest one of
  each user key that the sequence number includes, if it is a value.
\<close>

lemma op_entry_sequence: "op_fits a \<Longrightarrow> op_fits b \<Longrightarrow> op_entry a = op_entry b \<Longrightarrow> fst a = fst b"
  by (auto simp: op_fits_def op_entry_def dest!: arg_cong [where f = ParseInternalKey] split: prod.splits) (simp add: ParseInternalKey_Append)

lemma distinct_concat_disjoint:
  assumes "distinct (concat xss)" "i < length xss" "j < length xss" "i \<noteq> j"
  shows "set (xss ! i) \<inter> set (xss ! j) = {}"
proof -
  have "set (xss ! i) \<inter> set (xss ! j) = {}" if ij: "i < j" "j < length xss" for i j
  proof -
    have "concat xss = concat (take j xss) @ xss ! j @ concat (drop (Suc j) xss)"
      by (subst id_take_nth_drop [OF ij(2)]) simp
    then have "set (concat (take j xss)) \<inter> set (xss ! j) = {}" using assms(1) by auto
    moreover have "xss ! i \<in> set (take j xss)" using ij by (auto simp: in_set_conv_nth)
    ultimately show ?thesis by auto
  qed
  then show ?thesis using assms(2-4) by (metis Int_commute linorder_neqE_nat)
qed

context user_comparator
begin

lemma view_of_ops:
  assumes sorted: "sorted_wrt (\<lambda>x y. fst x < fst y) ops" and fits: "\<forall>op \<in> set ops. op_fits op"
    and M: "sorted_wrt (entry_less (InternalKeyComparator cmp)) M" "set M = op_entry ` set ops"
  shows "(u, v) \<in> set (db_view s M) \<longleftrightarrow> (\<exists>q. newest u s ops = Some (q, kTypeValue, u, v))"
proof -
  have op_at: "\<exists>q t k w. (q, t, k, w) \<in> set ops \<and> M ! i = op_entry (q, t, k, w) \<and> op_fits (q, t, k, w) \<and>
      ikey_of (M ! i) = \<lparr>pk_user_key = k, pk_sequence = q, pk_type = t\<rparr> \<and> snd (M ! i) = w" if "i < length M" for i
  proof -
    have "M ! i \<in> op_entry ` set ops" using that M(2) by (metis nth_mem)
    then obtain q t k w where o: "(q, t, k, w) \<in> set ops" "M ! i = op_entry (q, t, k, w)" by fastforce
    moreover have f: "op_fits (q, t, k, w)" using o(1) fits by blast
    ultimately show ?thesis
      using ParseInternalKey_Append [of "\<lparr>pk_user_key = k, pk_sequence = q, pk_type = t\<rparr>"] by (auto simp: ikey_of_def op_entry_def op_fits_def)
  qed
  have before: "q' < q \<or> q' = q \<and> type_code t' < type_code t"
    if "i < j" "j < length M" "M ! i = op_entry (q, t, u, w)" "M ! j = op_entry (q', t', u, w')" "op_fits (q, t, u, w)" "op_fits (q', t', u, w')" for i j q t w q' t' w'
    using sorted_wrt_nth_less [OF M(1) that(1,2)] op_compare(1) [OF that(5,6)] that(3,4) user_order(2) [of u] by (simp add: entry_less_def)
  show ?thesis
  proof
    assume "(u, v) \<in> set (db_view s M)"
    then obtain i where i: "i < length M" "newest_at s M i" "user_at M i = u" "snd (M ! i) = v" by (auto simp: db_view_def)
    then obtain q where o: "(q, kTypeValue, u, v) \<in> set ops" "M ! i = op_entry (q, kTypeValue, u, v)" "op_fits (q, kTypeValue, u, v)" "q \<le> s"
      using op_at [OF i(1)] by (auto simp: newest_at_def visible_at_def)
    show "\<exists>q. newest u s ops = Some (q, kTypeValue, u, v)"
    proof (cases rule: newest_cases [OF sorted, of u s])
      case 1
      then show ?thesis using o(1,4) by fastforce
    next
      case (2 q' t' v')
      have "(q, kTypeValue, u, v) = (q', t', u, v') \<or> q < q'" using 2(4) o(1,4) by fastforce
      moreover have "\<not> q < q'"
      proof
        assume less: "q < q'"
        have "op_entry (q', t', u, v') \<in> set M" using M(2) 2(2) by simp
        then obtain j where j: "j < length M" "M ! j = op_entry (q', t', u, v')" by (auto simp: in_set_conv_nth)
        have f: "op_fits (q', t', u, v')" using 2(2) fits by blast
        have "ikey_of (M ! j) = \<lparr>pk_user_key = u, pk_sequence = q', pk_type = t'\<rparr>"
          using ParseInternalKey_Append [of "\<lparr>pk_user_key = u, pk_sequence = q', pk_type = t'\<rparr>"] j(2) f by (simp add: ikey_of_def op_entry_def op_fits_def)
        then have "\<not> j < i" using i(2,3) 2(3) by (auto simp: newest_at_def visible_at_def)
        moreover have "j \<noteq> i" using \<open>ikey_of (M ! j) = _\<close> less op_at [OF i(1)] o(2,3) j(2) i(3)
            ParseInternalKey_Append [of "\<lparr>pk_user_key = u, pk_sequence = q, pk_type = kTypeValue\<rparr>"] by (auto simp: ikey_of_def op_entry_def op_fits_def)
        ultimately have "i < j" by linarith
        then show False using before [OF _ j(1) o(2) j(2) o(3) f] less by auto
      qed
      ultimately show ?thesis using 2(1) by auto
    qed
  next
    assume "\<exists>q. newest u s ops = Some (q, kTypeValue, u, v)"
    then obtain q where q: "newest u s ops = Some (q, kTypeValue, u, v)" ..
    then have n: "(q, kTypeValue, u, v) \<in> set ops" "q \<le> s"
      "\<forall>(q', t', k', v') \<in> set ops. k' = u \<and> q' \<le> s \<longrightarrow> (q', t', k', v') = (q, kTypeValue, u, v) \<or> q' < q"
      by (cases rule: newest_cases [OF sorted, of u s]; simp)+
    have "op_entry (q, kTypeValue, u, v) \<in> set M" using M(2) n(1) by simp
    then obtain i where i: "i < length M" "M ! i = op_entry (q, kTypeValue, u, v)" by (auto simp: in_set_conv_nth)
    have f: "op_fits (q, kTypeValue, u, v)" using n(1) fits by blast
    have k: "ikey_of (M ! i) = \<lparr>pk_user_key = u, pk_sequence = q, pk_type = kTypeValue\<rparr>" "snd (M ! i) = v"
      using ParseInternalKey_Append [of "\<lparr>pk_user_key = u, pk_sequence = q, pk_type = kTypeValue\<rparr>"] i(2) f by (simp_all add: ikey_of_def op_entry_def op_fits_def)
    have "user_at M j \<noteq> user_at M i" if j: "j < i" "visible_at s M j" for j
    proof
      assume eq: "user_at M j = user_at M i"
      obtain q' t' w' where o: "(q', t', u, w') \<in> set ops" "M ! j = op_entry (q', t', u, w')" "op_fits (q', t', u, w')" "q' \<le> s"
        using op_at [of j] j i(1) eq k(1) by (auto simp: visible_at_def)
      have "(q', t', u, w') = (q, kTypeValue, u, v) \<or> q' < q" using n(3) o(1,4) by fastforce
      then show False using before [OF j(1) i(1) o(2) i(2) o(3) f] by auto
    qed
    then have "newest_at s M i" using k n(2) by (simp add: newest_at_def visible_at_def)
    then show "(u, v) \<in> set (db_view s M)" using i(1) k by (auto simp: db_view_def intro!: image_eqI [of _ _ i])
  qed
qed

text \<open>The tables of several lists of operations, and the list that merges their entries.\<close>

lemma tables_merge:
  assumes sorted: "sorted_wrt (\<lambda>x y. fst x < fst y) (concat opss)" and fits: "\<forall>op \<in> set (concat opss). op_fits op"
  obtains tables ess M where "list_all2 (\<lambda>ops table. mem_adds cmp ops new_SkipList = Some table) opss tables"
    "list_all2 (mem_holds cmp) tables ess" "merges (InternalKeyComparator cmp) M ess" "set M = op_entry ` set (concat opss)"
proof -
  have dist: "distinct (map fst (concat opss))"
    using sorted_wrt_map [of "(<)" fst "concat opss"] sorted strict_sorted_iff [of "map fst (concat opss)"] by simp
  have "\<exists>table es. mem_adds cmp ops new_SkipList = Some table \<and> mem_holds cmp table es \<and> set es = op_entry ` set ops" if ops: "ops \<in> set opss" for ops
  proof -
    have "distinct (map fst ops)" using dist ops by (auto simp: map_concat distinct_concat_iff)
    moreover have "\<forall>op \<in> set ops. op_fits op" using fits ops by auto
    ultimately show ?thesis by (metis adds_hold)
  qed
  then obtain T E where TE: "\<And>ops. ops \<in> set opss \<Longrightarrow> mem_adds cmp ops new_SkipList = Some (T ops) \<and> mem_holds cmp (T ops) (E ops) \<and> set (E ops) = op_entry ` set ops"
    by metis
  obtain table M where M: "mem_holds cmp table M" "set M = op_entry ` set (concat opss)" by (rule adds_hold [OF dist fits])
  have "set (map E opss ! i) \<inter> set (map E opss ! j) = {}" if ij: "i < length opss" "j < length opss" "i \<noteq> j" for i j
  proof (rule ccontr)
    assume "set (map E opss ! i) \<inter> set (map E opss ! j) \<noteq> {}"
    then obtain e where "e \<in> set (E (opss ! i))" "e \<in> set (E (opss ! j))" using ij by auto
    then obtain a b where ab: "a \<in> set (opss ! i)" "b \<in> set (opss ! j)" "op_entry a = op_entry b" using ij TE [of "opss ! i"] TE [of "opss ! j"] by auto
    have "a \<in> set (concat opss)" "b \<in> set (concat opss)" unfolding set_concat using ab(1,2) nth_mem [OF ij(1)] nth_mem [OF ij(2)] by blast+
    then have "op_fits a" "op_fits b" using fits by blast+
    then have "fst a = fst b" using ab(3) by (rule op_entry_sequence)
    moreover have "set (map fst (opss ! i)) \<inter> set (map fst (opss ! j)) = {}"
      using distinct_concat_disjoint [of "map (map fst) opss" i j] dist ij by (simp add: map_concat)
    ultimately show False using ab(1,2) by auto
  qed
  moreover have "sorted_wrt (entry_less (InternalKeyComparator cmp)) M" using holds_sorted [OF M(1)] by (simp add: entry_less_def [abs_def])
  moreover have "set M = \<Union> (set ` set (map E opss))" using M(2) TE by auto
  ultimately have "merges (InternalKeyComparator cmp) M (map E opss)" by (simp add: merges_def)
  then show ?thesis using TE M(2) by (intro that [of "map T opss" "map E opss"]) (auto simp: list_all2_conv_all_nth)
qed

end

section \<open>The iterator of the database over memory tables\<close>

interpretation merged_memory: sorted_iterator "InternalKeyComparator BytewiseComparator" internal_valid
  "merged_ops (MemTable_ops BytewiseComparator) (InternalKeyComparator BytewiseComparator)"
  "at_merged (InternalKeyComparator BytewiseComparator) (mem_at BytewiseComparator)"
  by (rule bytewise.mem_iterator.merged_iterator)

interpretation memory_db: internal_iterator BytewiseComparator
  "merged_ops (MemTable_ops BytewiseComparator) (InternalKeyComparator BytewiseComparator)"
  "at_merged (InternalKeyComparator BytewiseComparator) (mem_at BytewiseComparator)"
  by (intro internal_iterator.intro bytewise.user_comparator_axioms merged_memory.sorted_iterator_axioms)

definition memory_iterator :: "64 word \<Rightarrow> MemTableIterator merged DBIter Iterator" where
  "memory_iterator s =
     DBIter_ops (merged_ops (MemTable_ops BytewiseComparator) (InternalKeyComparator BytewiseComparator)) BytewiseComparator s"

definition new_memory_iterator :: "32 word \<Rightarrow> SkipList list \<Rightarrow> MemTableIterator merged DBIter" where
  "new_memory_iterator seed tables = NewDBIterator (NewMergingIterator (MemTable_ops BytewiseComparator) (map MemTable_NewIterator tables)) seed"

lemma memory_iterator_refines:
  assumes sorted: "sorted_wrt (\<lambda>x y. fst x < fst y) (concat opss)" and fits: "\<forall>op \<in> set (concat opss). op_fits op"
    and s: "s \<le> kMaxSequenceNumber" and calls: "\<forall>k. CallSeek k \<in> set calls \<longrightarrow> length k + 8 < 2 ^ 32"
  shows "\<exists>tables V. list_all2 (\<lambda>ops table. mem_adds BytewiseComparator ops new_SkipList = Some table) opss tables \<and>
    sorted_wrt (\<lambda>a b. Compare BytewiseComparator (fst a) (fst b) < 0) V \<and>
    (\<forall>u v. (u, v) \<in> set V \<longleftrightarrow> (\<exists>q. newest u s (concat opss) = Some (q, kTypeValue, u, v))) \<and>
    iter_run (memory_iterator s) calls (new_memory_iterator seed tables) = list_run BytewiseComparator V calls (length V)"
proof -
  let ?I = "InternalKeyComparator BytewiseComparator" and ?B = BytewiseComparator
  obtain tables ess M where t: "list_all2 (\<lambda>ops table. mem_adds ?B ops new_SkipList = Some table) opss tables"
    "list_all2 (mem_holds ?B) tables ess" "merges ?I M ess" "set M = op_entry ` set (concat opss)"
    by (rule bytewise.tables_merge [OF sorted fits])
  obtain n where n: "at_merged ?I (mem_at ?B) (NewMergingIterator (MemTable_ops ?B) (map MemTable_NewIterator tables)) M n"
    using bytewise.mem_iterator.NewMergingIterator_at [OF t(3), of "map MemTable_NewIterator tables"] t(2) mem_holds_at
    by (fastforce simp: list_all2_conv_all_nth)
  have wf: "well_formed_entries M"
    unfolding well_formed_entries_def t(4) using fits by (fastforce simp: op_entry_def op_fits_def)
  have M: "sorted_wrt (entry_less ?I) M" using t(3) by (simp add: merges_def)
  have new: "at_db s (at_merged ?I (mem_at ?B)) (new_memory_iterator seed tables) (db_view s M) (length (db_view s M))"
    unfolding new_memory_iterator_def by (rule memory_db.NewDBIterator_at [OF n wf])
  have "iter_run (memory_iterator s) calls (new_memory_iterator seed tables) = list_run ?B (db_view s M) calls (length (db_view s M))"
    unfolding memory_iterator_def
    by (rule sorted_iterator.run_refines [OF memory_db.db_iterator [OF s] new]) (use calls in \<open>simp add: user_valid_def\<close>)
  moreover have "sorted_wrt (\<lambda>a b. Compare ?B (fst a) (fst b) < 0) (db_view s M)"
    using memory_db.view_sorted(1) [OF n wf] by (simp add: entry_less_def [abs_def])
  ultimately show ?thesis using t(1) bytewise.view_of_ops [OF sorted fits M t(4)] by blast
qed

end
