(* ===== verification/Ldb_Version_Edit.thy ===== *)
theory Ldb_Version_Edit
  imports Ldb_Key Ldb_Env
begin

text \<open>
  Version edits (\<^verbatim>\<open>db/version_edit.cc\<close>, \<^verbatim>\<open>version_edit.h\<close>): the changes of the set of files that the manifest records, as a sequence of tagged
  fields. A set of pairs is the sorted list of its elements; an internal key is its string. A parser that is one of several joined by \<^verbatim>\<open>&&\<close>
  runs only if those before it succeeded.
\<close>

section \<open>Model\<close>

datatype Tag = kComparator | kLogNumber | kNextFileNumber | kLastSequence | kCompactPointer | kDeletedFile | kNewFile | kPrevLogNumber

fun tag_code :: "Tag \<Rightarrow> 32 word" where
  "tag_code kComparator = 1"
| "tag_code kLogNumber = 2"
| "tag_code kNextFileNumber = 3"
| "tag_code kLastSequence = 4"
| "tag_code kCompactPointer = 5"
| "tag_code kDeletedFile = 6"
| "tag_code kNewFile = 7"
| "tag_code kPrevLogNumber = 9"

definition kNumLevels :: "32 word" where
  "kNumLevels = 7"

record FileMetaData =
  f_refs :: int
  f_allowed_seeks :: int
  f_number :: "64 word"
  f_file_size :: "64 word"
  f_smallest :: slice
  f_largest :: slice

definition new_FileMetaData :: "64 word \<Rightarrow> 64 word \<Rightarrow> slice \<Rightarrow> slice \<Rightarrow> FileMetaData" where
  "new_FileMetaData number fsize smallest largest =
     \<lparr>f_refs = 0, f_allowed_seeks = 2 ^ 30, f_number = number, f_file_size = fsize, f_smallest = smallest, f_largest = largest\<rparr>"

record VersionEdit =
  ve_comparator :: slice
  ve_log_number :: "64 word"
  ve_prev_log_number :: "64 word"
  ve_next_file_number :: "64 word"
  ve_last_sequence :: "64 word"
  ve_has_comparator :: bool
  ve_has_log_number :: bool
  ve_has_prev_log_number :: bool
  ve_has_next_file_number :: bool
  ve_has_last_sequence :: bool
  ve_compact_pointers :: "(int \<times> slice) list"
  ve_deleted_files :: "(int \<times> 64 word) list"
  ve_new_files :: "(int \<times> FileMetaData) list"

definition VersionEdit_Clear :: "VersionEdit \<Rightarrow> VersionEdit" where
  "VersionEdit_Clear e =
     e\<lparr>ve_comparator := [], ve_log_number := 0, ve_prev_log_number := 0, ve_last_sequence := 0, ve_next_file_number := 0,
       ve_has_comparator := False, ve_has_log_number := False, ve_has_prev_log_number := False, ve_has_next_file_number := False,
       ve_has_last_sequence := False, ve_deleted_files := [], ve_new_files := []\<rparr>"

definition new_VersionEdit :: VersionEdit where
  "new_VersionEdit = VersionEdit_Clear
     \<lparr>ve_comparator = [], ve_log_number = 0, ve_prev_log_number = 0, ve_next_file_number = 0, ve_last_sequence = 0, ve_has_comparator = False,
      ve_has_log_number = False, ve_has_prev_log_number = False, ve_has_next_file_number = False, ve_has_last_sequence = False,
      ve_compact_pointers = [], ve_deleted_files = [], ve_new_files = []\<rparr>"

definition SetComparatorName :: "slice \<Rightarrow> VersionEdit \<Rightarrow> VersionEdit" where
  "SetComparatorName name e = e\<lparr>ve_has_comparator := True, ve_comparator := name\<rparr>"

definition SetLogNumber :: "64 word \<Rightarrow> VersionEdit \<Rightarrow> VersionEdit" where
  "SetLogNumber num e = e\<lparr>ve_has_log_number := True, ve_log_number := num\<rparr>"

definition SetPrevLogNumber :: "64 word \<Rightarrow> VersionEdit \<Rightarrow> VersionEdit" where
  "SetPrevLogNumber num e = e\<lparr>ve_has_prev_log_number := True, ve_prev_log_number := num\<rparr>"

definition SetNextFile :: "64 word \<Rightarrow> VersionEdit \<Rightarrow> VersionEdit" where
  "SetNextFile num e = e\<lparr>ve_has_next_file_number := True, ve_next_file_number := num\<rparr>"

definition SetLastSequence :: "64 word \<Rightarrow> VersionEdit \<Rightarrow> VersionEdit" where
  "SetLastSequence seq e = e\<lparr>ve_has_last_sequence := True, ve_last_sequence := seq\<rparr>"

definition SetCompactPointer :: "int \<Rightarrow> slice \<Rightarrow> VersionEdit \<Rightarrow> VersionEdit" where
  "SetCompactPointer level key e = e\<lparr>ve_compact_pointers := ve_compact_pointers e @ [(level, key)]\<rparr>"

definition AddFile :: "int \<Rightarrow> 64 word \<Rightarrow> 64 word \<Rightarrow> slice \<Rightarrow> slice \<Rightarrow> VersionEdit \<Rightarrow> VersionEdit" where
  "AddFile level number fsize smallest largest e =
     e\<lparr>ve_new_files := ve_new_files e @ [(level, new_FileMetaData number fsize smallest largest)]\<rparr>"

text \<open>Insertion into a set of pairs.\<close>

fun pair_insert :: "int \<times> 64 word \<Rightarrow> (int \<times> 64 word) list \<Rightarrow> (int \<times> 64 word) list" where
  "pair_insert p [] = [p]"
| "pair_insert p (q # qs) =
     (if fst p < fst q \<or> fst p = fst q \<and> snd p < snd q then p # q # qs else if p = q then q # qs else q # pair_insert p qs)"

definition DeleteFile :: "int \<Rightarrow> 64 word \<Rightarrow> VersionEdit \<Rightarrow> VersionEdit" where
  "DeleteFile level number e = e\<lparr>ve_deleted_files := pair_insert (level, number) (ve_deleted_files e)\<rparr>"

definition EncodeTo_compact :: "int \<times> slice \<Rightarrow> byte list \<Rightarrow> byte list" where
  "EncodeTo_compact p dst = PutLengthPrefixedSlice (PutVarint32 (PutVarint32 dst (tag_code kCompactPointer)) (of_int (fst p))) (snd p)"

definition EncodeTo_deleted :: "int \<times> 64 word \<Rightarrow> byte list \<Rightarrow> byte list" where
  "EncodeTo_deleted p dst = PutVarint64 (PutVarint32 (PutVarint32 dst (tag_code kDeletedFile)) (of_int (fst p))) (snd p)"

definition EncodeTo_new :: "int \<times> FileMetaData \<Rightarrow> byte list \<Rightarrow> byte list" where
  "EncodeTo_new p dst =
     (let f = snd p
      in PutLengthPrefixedSlice
           (PutLengthPrefixedSlice
              (PutVarint64 (PutVarint64 (PutVarint32 (PutVarint32 dst (tag_code kNewFile)) (of_int (fst p))) (f_number f)) (f_file_size f))
              (f_smallest f))
           (f_largest f))"

definition VersionEdit_EncodeTo :: "VersionEdit \<Rightarrow> byte list \<Rightarrow> byte list" where
  "VersionEdit_EncodeTo e dst =
     (let dst = (if ve_has_comparator e then PutLengthPrefixedSlice (PutVarint32 dst (tag_code kComparator)) (ve_comparator e) else dst);
          dst = (if ve_has_log_number e then PutVarint64 (PutVarint32 dst (tag_code kLogNumber)) (ve_log_number e) else dst);
          dst = (if ve_has_prev_log_number e then PutVarint64 (PutVarint32 dst (tag_code kPrevLogNumber)) (ve_prev_log_number e) else dst);
          dst = (if ve_has_next_file_number e then PutVarint64 (PutVarint32 dst (tag_code kNextFileNumber)) (ve_next_file_number e) else dst);
          dst = (if ve_has_last_sequence e then PutVarint64 (PutVarint32 dst (tag_code kLastSequence)) (ve_last_sequence e) else dst);
          dst = fold EncodeTo_compact (ve_compact_pointers e) dst;
          dst = fold EncodeTo_deleted (ve_deleted_files e) dst
      in fold EncodeTo_new (ve_new_files e) dst)"

definition get_then :: "(slice \<Rightarrow> 'a option \<times> slice) \<Rightarrow> ('a \<Rightarrow> slice \<Rightarrow> 'b option \<times> slice) \<Rightarrow> slice \<Rightarrow> 'b option \<times> slice" where
  "get_then f g input = (case f input of (None, input1) \<Rightarrow> (None, input1) | (Some v, input1) \<Rightarrow> g v input1)"

definition GetInternalKey :: "slice \<Rightarrow> slice option \<times> slice" where
  "GetInternalKey input = GetLengthPrefixedSlice input"

definition GetLevel :: "slice \<Rightarrow> int option \<times> slice" where
  "GetLevel input =
     (case GetVarint32 input of
        (None, input1) \<Rightarrow> (None, input1)
      | (Some v, input1) \<Rightarrow> (if v < kNumLevels then Some (uint v) else None, input1))"

text \<open>One field behind its tag: the message of an error, the rest of the input and the edit.\<close>

definition set_field :: "string \<Rightarrow> ('a \<Rightarrow> VersionEdit) \<Rightarrow> VersionEdit \<Rightarrow> 'a option \<times> slice \<Rightarrow> string option \<times> slice \<times> VersionEdit" where
  "set_field msg f e r = (case r of (None, input) \<Rightarrow> (Some msg, input, e) | (Some v, input) \<Rightarrow> (None, input, f v))"

definition edit_decode_field :: "32 word \<Rightarrow> slice \<Rightarrow> VersionEdit \<Rightarrow> string option \<times> slice \<times> VersionEdit" where
  "edit_decode_field tag input e =
     (if tag = tag_code kComparator then set_field ''comparator name'' (\<lambda>s. SetComparatorName s e) e (GetLengthPrefixedSlice input)
      else if tag = tag_code kLogNumber then set_field ''log number'' (\<lambda>n. SetLogNumber n e) e (GetVarint64 input)
      else if tag = tag_code kPrevLogNumber then set_field ''previous log number'' (\<lambda>n. SetPrevLogNumber n e) e (GetVarint64 input)
      else if tag = tag_code kNextFileNumber then set_field ''next file number'' (\<lambda>n. SetNextFile n e) e (GetVarint64 input)
      else if tag = tag_code kLastSequence then set_field ''last sequence number'' (\<lambda>n. SetLastSequence n e) e (GetVarint64 input)
      else if tag = tag_code kCompactPointer then
        set_field ''compaction pointer'' (\<lambda>(level, key). SetCompactPointer level key e) e
          (get_then GetLevel (\<lambda>level. get_then GetInternalKey (\<lambda>key input. (Some (level, key), input))) input)
      else if tag = tag_code kDeletedFile then
        set_field ''deleted file'' (\<lambda>(level, number). DeleteFile level number e) e
          (get_then GetLevel (\<lambda>level. get_then GetVarint64 (\<lambda>number input. (Some (level, number), input))) input)
      else if tag = tag_code kNewFile then
        set_field ''new-file entry'' (\<lambda>(level, number, fsize, smallest, largest). AddFile level number fsize smallest largest e) e
          (get_then GetLevel (\<lambda>level. get_then GetVarint64 (\<lambda>number. get_then GetVarint64 (\<lambda>fsize.
             get_then GetInternalKey (\<lambda>smallest. get_then GetInternalKey (\<lambda>largest input. (Some (level, number, fsize, smallest, largest), input)))))) input)
      else (Some ''unknown tag'', input, e))"

text \<open>A parser never gives back more than it got.\<close>

lemma get_shorter:
  "length (snd (GetVarint32 input)) \<le> length input" "length (snd (GetVarint64 input)) \<le> length input"
  "length (snd (GetLengthPrefixedSlice input)) \<le> length input" "length (snd (GetLevel input)) \<le> length input"
proof -
  show a: "length (snd (GetVarint32 input)) \<le> length input" for input
    using v32.get_consumes [of input] by (fastforce simp: GetVarint32_def split: option.splits)
  show "length (snd (GetVarint64 input)) \<le> length input"
    using v64.get_consumes [of input] by (fastforce simp: GetVarint64_def split: option.splits)
  show "length (snd (GetLengthPrefixedSlice input)) \<le> length input"
    using a [of input] by (auto simp: GetLengthPrefixedSlice_def split: prod.splits option.splits)
  show "length (snd (GetLevel input)) \<le> length input"
    using a [of input] by (auto simp: GetLevel_def split: prod.splits option.splits)
qed

lemma get_then_shorter:
  "(\<And>i. length (snd (f i)) \<le> length i) \<Longrightarrow> (\<And>v i. length (snd (g v i)) \<le> length i) \<Longrightarrow> length (snd (get_then f g input)) \<le> length input"
  unfolding get_then_def by (auto split: prod.splits option.splits) (metis dual_order.trans snd_conv)+

lemma set_field_rest: "fst (snd (set_field msg f e r)) = snd r"
  by (simp add: set_field_def split: prod.splits option.splits)

lemma edit_decode_field_shorter: "length (fst (snd (edit_decode_field tag input e))) \<le> length input"
  unfolding edit_decode_field_def by (auto simp: set_field_rest GetInternalKey_def get_shorter intro!: get_then_shorter)

lemma edit_decode_shorter: "GetVarint32 input = (Some tag, input1) \<Longrightarrow> edit_decode_field tag input1 e = (msg, input2, e2) \<Longrightarrow> length input2 < length input"
  using edit_decode_field_shorter [of tag input1 e] v32.get_consumes [of input tag input1] by (simp add: GetVarint_slices(1))

function edit_decode_loop :: "slice \<Rightarrow> VersionEdit \<Rightarrow> string option \<times> slice \<times> VersionEdit" where
  "edit_decode_loop input e =
     (case GetVarint32 input of
        (None, input1) \<Rightarrow> (None, input1, e)
      | (Some tag, input1) \<Rightarrow>
          (case edit_decode_field tag input1 e of
             (Some msg, input2, e2) \<Rightarrow> (Some msg, input2, e2)
           | (None, input2, e2) \<Rightarrow> edit_decode_loop input2 e2))"
  by pat_completeness auto

termination edit_decode_loop
  by (relation "measure (\<lambda>(input, _). length input)") (auto intro: edit_decode_shorter [OF sym sym])

declare edit_decode_loop.simps [simp del]

definition VersionEdit_DecodeFrom :: "slice \<Rightarrow> VersionEdit \<Rightarrow> status \<times> VersionEdit" where
  "VersionEdit_DecodeFrom src e =
     (case edit_decode_loop src (VersionEdit_Clear e) of
        (msg, input, e1) \<Rightarrow>
          let msg1 = (if msg = None \<and> input \<noteq> [] then Some ''invalid tag'' else msg)
          in (case msg1 of None \<Rightarrow> OK | Some m \<Rightarrow> Corruption (''VersionEdit: '' @ m), e1))"

section \<open>Fields\<close>

text \<open>An edit as the list of the fields that are written for it; each is a call of a setter.\<close>

datatype edit_field =
  ComparatorName slice | LogNumber "64 word" | PrevLogNumber "64 word" | NextFile "64 word" | LastSequence "64 word"
| CompactPointer int slice | DeletedFile int "64 word" | NewFile int "64 word" "64 word" slice slice

fun field_apply :: "edit_field \<Rightarrow> VersionEdit \<Rightarrow> VersionEdit" where
  "field_apply (ComparatorName s) = SetComparatorName s"
| "field_apply (LogNumber n) = SetLogNumber n"
| "field_apply (PrevLogNumber n) = SetPrevLogNumber n"
| "field_apply (NextFile n) = SetNextFile n"
| "field_apply (LastSequence n) = SetLastSequence n"
| "field_apply (CompactPointer level key) = SetCompactPointer level key"
| "field_apply (DeletedFile level n) = DeleteFile level n"
| "field_apply (NewFile level n sz smallest largest) = AddFile level n sz smallest largest"

fun level_ok :: "int \<Rightarrow> bool" where
  "level_ok level \<longleftrightarrow> 0 \<le> level \<and> level < 7"

fun edit_field_ok :: "edit_field \<Rightarrow> bool" where
  "edit_field_ok (ComparatorName s) \<longleftrightarrow> length s < 2 ^ 32"
| "edit_field_ok (CompactPointer level key) \<longleftrightarrow> level_ok level \<and> length key < 2 ^ 32"
| "edit_field_ok (DeletedFile level n) \<longleftrightarrow> level_ok level"
| "edit_field_ok (NewFile level n sz smallest largest) \<longleftrightarrow> level_ok level \<and> length smallest < 2 ^ 32 \<and> length largest < 2 ^ 32"
| "edit_field_ok _ \<longleftrightarrow> True"

fun field_tag :: "edit_field \<Rightarrow> Tag" where
  "field_tag (ComparatorName s) = kComparator"
| "field_tag (LogNumber n) = kLogNumber"
| "field_tag (PrevLogNumber n) = kPrevLogNumber"
| "field_tag (NextFile n) = kNextFileNumber"
| "field_tag (LastSequence n) = kLastSequence"
| "field_tag (CompactPointer level key) = kCompactPointer"
| "field_tag (DeletedFile level n) = kDeletedFile"
| "field_tag (NewFile level n sz smallest largest) = kNewFile"

fun field_body :: "edit_field \<Rightarrow> byte list" where
  "field_body (ComparatorName s) = PutLengthPrefixedSlice [] s"
| "field_body (LogNumber n) = EncodeVarint64 n"
| "field_body (PrevLogNumber n) = EncodeVarint64 n"
| "field_body (NextFile n) = EncodeVarint64 n"
| "field_body (LastSequence n) = EncodeVarint64 n"
| "field_body (CompactPointer level key) = EncodeVarint32 (of_int level) @ PutLengthPrefixedSlice [] key"
| "field_body (DeletedFile level n) = EncodeVarint32 (of_int level) @ EncodeVarint64 n"
| "field_body (NewFile level n sz smallest largest) =
     EncodeVarint32 (of_int level) @ EncodeVarint64 n @ EncodeVarint64 sz @ PutLengthPrefixedSlice [] smallest @ PutLengthPrefixedSlice [] largest"

definition field_bytes :: "edit_field \<Rightarrow> byte list" where
  "field_bytes f = EncodeVarint32 (tag_code (field_tag f)) @ field_body f"

definition edit_fields :: "VersionEdit \<Rightarrow> edit_field list" where
  "edit_fields e =
     (if ve_has_comparator e then [ComparatorName (ve_comparator e)] else []) @
     (if ve_has_log_number e then [LogNumber (ve_log_number e)] else []) @
     (if ve_has_prev_log_number e then [PrevLogNumber (ve_prev_log_number e)] else []) @
     (if ve_has_next_file_number e then [NextFile (ve_next_file_number e)] else []) @
     (if ve_has_last_sequence e then [LastSequence (ve_last_sequence e)] else []) @
     map (\<lambda>(level, key). CompactPointer level key) (ve_compact_pointers e) @
     map (\<lambda>(level, n). DeletedFile level n) (ve_deleted_files e) @
     map (\<lambda>(level, f). NewFile level (f_number f) (f_file_size f) (f_smallest f) (f_largest f)) (ve_new_files e)"

lemma fold_appends: "(\<And>x dst. f x dst = dst @ g x) \<Longrightarrow> fold f xs dst = dst @ concat (map g xs)"
  by (induction xs arbitrary: dst) simp_all

lemma EncodeTo_fields: "VersionEdit_EncodeTo e dst = dst @ concat (map field_bytes (edit_fields e))"
proof -
  note put = PutVarint32_def PutVarint64_def PutLengthPrefixedSlice_append [of "_ @ _"]
  have c: "fold EncodeTo_compact xs dst = dst @ concat (map (\<lambda>(l, k). field_bytes (CompactPointer l k)) xs)" for xs dst
    by (rule fold_appends) (simp add: EncodeTo_compact_def field_bytes_def put split: prod.split)
  have d: "fold EncodeTo_deleted xs dst = dst @ concat (map (\<lambda>(l, n). field_bytes (DeletedFile l n)) xs)" for xs dst
    by (rule fold_appends) (simp add: EncodeTo_deleted_def field_bytes_def put split: prod.split)
  have n: "fold EncodeTo_new xs dst =
      dst @ concat (map (\<lambda>(l, f). field_bytes (NewFile l (f_number f) (f_file_size f) (f_smallest f) (f_largest f))) xs)" for xs dst
    by (rule fold_appends) (simp add: EncodeTo_new_def field_bytes_def put Let_def split: prod.split)
  have "PutLengthPrefixedSlice (PutVarint32 dst t) s = dst @ EncodeVarint32 t @ PutLengthPrefixedSlice [] s" for dst t s
    by (simp add: put)
  then show ?thesis
    unfolding VersionEdit_EncodeTo_def edit_fields_def Let_def c d n
    by (simp add: field_bytes_def PutVarint32_def PutVarint64_def comp_def case_prod_unfold)
qed

section \<open>Reading what was written\<close>

lemma slice_parsers:
  "GetVarint32 (EncodeVarint32 v @ rest) = (Some v, rest)"
  "GetVarint64 (EncodeVarint64 n @ rest) = (Some n, rest)"
  "length s < 2 ^ 32 \<Longrightarrow> GetLengthPrefixedSlice (PutLengthPrefixedSlice [] s @ rest) = (Some s, rest)"
  by (simp_all add: GetVarint_slices GetLengthPrefixed_slice v32.get_put v64.get_put lps.get_put)

lemma GetLevel_put: "level_ok level \<Longrightarrow> GetLevel (EncodeVarint32 (of_int level) @ rest) = (Some level, rest)"
  by (auto simp: GetLevel_def slice_parsers kNumLevels_def word_less_def uint_word_of_int_eq take_bit_eq_mod)

lemma edit_decode_one:
  assumes "edit_field_ok f"
  shows "edit_decode_loop (field_bytes f @ rest) e = edit_decode_loop rest (field_apply f e)"
proof -
  have "edit_decode_field (tag_code (field_tag f)) (field_body f @ rest) e = (None, rest, field_apply f e)"
    using assms by (cases f) (simp_all add: edit_decode_field_def set_field_def slice_parsers get_then_def GetLevel_put GetInternalKey_def)
  then show ?thesis by (subst edit_decode_loop.simps) (simp add: field_bytes_def slice_parsers)
qed

lemma edit_decode_fields: "\<forall>f \<in> set fs. edit_field_ok f \<Longrightarrow> edit_decode_loop (concat (map field_bytes fs)) e = (None, [], fold field_apply fs e)"
proof (induction fs arbitrary: e)
  case Nil
  have "GetVarint32 [] = (None, [])" by (simp add: GetVarint32_def GetVarint32Ptr_def GetVarint32PtrFallback_def)
  then show ?case by (subst edit_decode_loop.simps) simp
qed (simp add: edit_decode_one)

text \<open>What the setters keep.\<close>

definition pair_less :: "int \<times> 64 word \<Rightarrow> int \<times> 64 word \<Rightarrow> bool" where
  "pair_less p q \<longleftrightarrow> fst p < fst q \<or> fst p = fst q \<and> snd p < snd q"

definition edit_ok :: "VersionEdit \<Rightarrow> bool" where
  "edit_ok e \<longleftrightarrow>
     (\<not> ve_has_comparator e \<longrightarrow> ve_comparator e = []) \<and> (\<not> ve_has_log_number e \<longrightarrow> ve_log_number e = 0) \<and>
     (\<not> ve_has_prev_log_number e \<longrightarrow> ve_prev_log_number e = 0) \<and> (\<not> ve_has_next_file_number e \<longrightarrow> ve_next_file_number e = 0) \<and>
     (\<not> ve_has_last_sequence e \<longrightarrow> ve_last_sequence e = 0) \<and> sorted_wrt pair_less (ve_deleted_files e) \<and>
     (\<forall>(level, f) \<in> set (ve_new_files e). f = new_FileMetaData (f_number f) (f_file_size f) (f_smallest f) (f_largest f)) \<and>
     (\<forall>f \<in> set (edit_fields e). edit_field_ok f)"

lemma set_pair_insert: "set (pair_insert p qs) = insert p (set qs)"
  by (induction qs) auto

lemma pair_insert_sorted: "sorted_wrt pair_less qs \<Longrightarrow> sorted_wrt pair_less (pair_insert p qs)"
proof (induction qs)
  case (Cons q qs)
  have total: "pair_less q p" if "\<not> pair_less p q" "p \<noteq> q"
    using that by (auto simp: pair_less_def prod_eq_iff)
  have trans: "pair_less p r" if "pair_less p q" "pair_less q r" for r using that by (auto simp: pair_less_def)
  show ?case using Cons total trans by (auto simp: set_pair_insert pair_less_def [symmetric])
qed simp

lemma pair_insert_last: "\<forall>q \<in> set qs. pair_less q p \<Longrightarrow> pair_insert p qs = qs @ [p]"
  by (induction qs) (auto simp: pair_less_def prod_eq_iff)

lemma edit_fields_iff:
  "g \<in> set (edit_fields e) \<longleftrightarrow>
     (case g of
        ComparatorName s \<Rightarrow> ve_has_comparator e \<and> s = ve_comparator e
      | LogNumber n \<Rightarrow> ve_has_log_number e \<and> n = ve_log_number e
      | PrevLogNumber n \<Rightarrow> ve_has_prev_log_number e \<and> n = ve_prev_log_number e
      | NextFile n \<Rightarrow> ve_has_next_file_number e \<and> n = ve_next_file_number e
      | LastSequence n \<Rightarrow> ve_has_last_sequence e \<and> n = ve_last_sequence e
      | CompactPointer level key \<Rightarrow> (level, key) \<in> set (ve_compact_pointers e)
      | DeletedFile level n \<Rightarrow> (level, n) \<in> set (ve_deleted_files e)
      | NewFile level n sz smallest largest \<Rightarrow>
          (\<exists>f. (level, f) \<in> set (ve_new_files e) \<and> f_number f = n \<and> f_file_size f = sz \<and> f_smallest f = smallest \<and> f_largest f = largest))"
  by (cases g) (auto simp: edit_fields_def split: if_splits)

lemmas setter_defs = SetComparatorName_def SetLogNumber_def SetPrevLogNumber_def SetNextFile_def SetLastSequence_def
  SetCompactPointer_def DeleteFile_def AddFile_def new_FileMetaData_def

lemma edit_fields_apply: "g \<in> set (edit_fields (field_apply f e)) \<Longrightarrow> g = f \<or> g \<in> set (edit_fields e)"
  unfolding edit_fields_iff by (cases f; cases g) (auto simp: setter_defs set_pair_insert)

lemma edit_ok_apply:
  assumes "edit_ok e" "edit_field_ok f"
  shows "edit_ok (field_apply f e)"
proof -
  have "\<forall>g \<in> set (edit_fields (field_apply f e)). edit_field_ok g" using assms edit_fields_apply by (fastforce simp: edit_ok_def)
  then show ?thesis
    using assms(1) unfolding edit_ok_def
    by (cases f) (simp_all add: setter_defs pair_insert_sorted)
qed

lemma edit_ok_built: "\<forall>f \<in> set fs. edit_field_ok f \<Longrightarrow> edit_ok (fold field_apply fs new_VersionEdit)"
proof (induction fs rule: rev_induct)
  case Nil
  then show ?case by (simp add: edit_ok_def new_VersionEdit_def VersionEdit_Clear_def edit_fields_def)
qed (simp add: edit_ok_apply)

text \<open>Applying the fields of an edit to another one rebuilds it; only the pointers of the other stay in front.\<close>

lemma fold_compact: "fold field_apply (map (\<lambda>(level, key). CompactPointer level key) xs) e = e\<lparr>ve_compact_pointers := ve_compact_pointers e @ xs\<rparr>"
  by (induction xs arbitrary: e) (auto simp: SetCompactPointer_def)

lemma fold_deleted:
  "sorted_wrt pair_less (ve_deleted_files e @ xs) \<Longrightarrow>
     fold field_apply (map (\<lambda>(level, n). DeletedFile level n) xs) e = e\<lparr>ve_deleted_files := ve_deleted_files e @ xs\<rparr>"
proof (induction xs arbitrary: e)
  case (Cons x xs)
  have "pair_insert x (ve_deleted_files e) = ve_deleted_files e @ [x]"
    by (rule pair_insert_last) (use Cons.prems in \<open>simp add: sorted_wrt_append\<close>)
  then show ?case using Cons.IH [of "e\<lparr>ve_deleted_files := ve_deleted_files e @ [x]\<rparr>"] Cons.prems
    by (cases x) (simp add: DeleteFile_def)
qed simp

lemma fold_new:
  "\<forall>(level, f) \<in> set xs. f = new_FileMetaData (f_number f) (f_file_size f) (f_smallest f) (f_largest f) \<Longrightarrow>
     fold field_apply (map (\<lambda>(level, f). NewFile level (f_number f) (f_file_size f) (f_smallest f) (f_largest f)) xs) e =
       e\<lparr>ve_new_files := ve_new_files e @ xs\<rparr>"
  by (induction xs arbitrary: e) (auto simp: AddFile_def)

lemma fold_optional:
  "\<not> ve_has_comparator e \<Longrightarrow> ve_comparator e = [] \<Longrightarrow> \<not> b \<longrightarrow> c = [] \<Longrightarrow>
     fold field_apply (if b then [ComparatorName c] else []) e = e\<lparr>ve_has_comparator := b, ve_comparator := c\<rparr>"
  "\<not> ve_has_log_number e \<Longrightarrow> ve_log_number e = 0 \<Longrightarrow> \<not> b \<longrightarrow> n = 0 \<Longrightarrow>
     fold field_apply (if b then [LogNumber n] else []) e = e\<lparr>ve_has_log_number := b, ve_log_number := n\<rparr>"
  "\<not> ve_has_prev_log_number e \<Longrightarrow> ve_prev_log_number e = 0 \<Longrightarrow> \<not> b \<longrightarrow> n = 0 \<Longrightarrow>
     fold field_apply (if b then [PrevLogNumber n] else []) e = e\<lparr>ve_has_prev_log_number := b, ve_prev_log_number := n\<rparr>"
  "\<not> ve_has_next_file_number e \<Longrightarrow> ve_next_file_number e = 0 \<Longrightarrow> \<not> b \<longrightarrow> n = 0 \<Longrightarrow>
     fold field_apply (if b then [NextFile n] else []) e = e\<lparr>ve_has_next_file_number := b, ve_next_file_number := n\<rparr>"
  "\<not> ve_has_last_sequence e \<Longrightarrow> ve_last_sequence e = 0 \<Longrightarrow> \<not> b \<longrightarrow> n = 0 \<Longrightarrow>
     fold field_apply (if b then [LastSequence n] else []) e = e\<lparr>ve_has_last_sequence := b, ve_last_sequence := n\<rparr>"
  by (simp_all add: SetComparatorName_def SetLogNumber_def SetPrevLogNumber_def SetNextFile_def SetLastSequence_def)

lemma edit_rebuilt:
  assumes "edit_ok e"
  shows "fold field_apply (edit_fields e) (VersionEdit_Clear e0) = e\<lparr>ve_compact_pointers := ve_compact_pointers e0 @ ve_compact_pointers e\<rparr>"
proof -
  have "sorted_wrt pair_less (ve_deleted_files e)" using assms by (simp add: edit_ok_def)
  moreover have "\<forall>(level, f) \<in> set (ve_new_files e). f = new_FileMetaData (f_number f) (f_file_size f) (f_smallest f) (f_largest f)"
    using assms by (simp add: edit_ok_def)
  moreover have "\<not> ve_has_comparator e \<longrightarrow> ve_comparator e = []" "\<not> ve_has_log_number e \<longrightarrow> ve_log_number e = 0"
    "\<not> ve_has_prev_log_number e \<longrightarrow> ve_prev_log_number e = 0" "\<not> ve_has_next_file_number e \<longrightarrow> ve_next_file_number e = 0"
    "\<not> ve_has_last_sequence e \<longrightarrow> ve_last_sequence e = 0"
    using assms by (simp_all add: edit_ok_def)
  ultimately show ?thesis
    unfolding edit_fields_def fold_append comp_def VersionEdit_Clear_def
    by (simp add: fold_optional fold_compact fold_deleted fold_new split del: if_split)
qed

lemma DecodeFrom_EncodeTo:
  assumes "edit_ok e"
  shows "VersionEdit_DecodeFrom (VersionEdit_EncodeTo e []) e0 = (OK, e\<lparr>ve_compact_pointers := ve_compact_pointers e0 @ ve_compact_pointers e\<rparr>)"
  using assms edit_decode_fields [of "edit_fields e" "VersionEdit_Clear e0"]
  by (simp add: VersionEdit_DecodeFrom_def EncodeTo_fields edit_rebuilt edit_ok_def)

end
