(* ===== verification/Ldb_Version.thy ===== *)
theory Ldb_Version
  imports Ldb_Version_Edit
begin

text \<open>
  The files of a version (\<^verbatim>\<open>db/version_set.cc\<close>, \<^verbatim>\<open>class Version\<close>): searching a level for a key, the files that overlap a range, the level where a new
  table is put. A vector of pointers to files is the list of the files; the operations here only read them. A key pointer that may be null is an
  option. The loops of the binary search and of \<^verbatim>\<open>GetOverlappingInputs\<close>, which end because the comparator is an order, are partial functions: None
  stands for running forever.
\<close>

section \<open>Model\<close>

definition new_InternalKey :: "slice \<Rightarrow> 64 word \<Rightarrow> ValueType \<Rightarrow> slice" where
  "new_InternalKey user_key s t = AppendInternalKey [] \<lparr>pk_user_key = user_key, pk_sequence = s, pk_type = t\<rparr>"

partial_function (option) find_file_loop :: "Comparator \<Rightarrow> FileMetaData list \<Rightarrow> slice \<Rightarrow> 32 word \<Rightarrow> 32 word \<Rightarrow> nat option" where
  "find_file_loop user files key left right =
     (if left < right then
        let mid = (left + right) div 2
        in if internal_Compare user (f_largest (files ! unat mid)) key < 0
           then find_file_loop user files key (mid + 1) right
           else find_file_loop user files key left mid
      else Some (unat right))"

definition FindFile :: "Comparator \<Rightarrow> FileMetaData list \<Rightarrow> slice \<Rightarrow> nat option" where
  "FindFile user files key = find_file_loop user files key 0 (of_nat (length files))"

definition AfterFile :: "Comparator \<Rightarrow> slice option \<Rightarrow> FileMetaData \<Rightarrow> bool" where
  "AfterFile user user_key f = (case user_key of None \<Rightarrow> False | Some k \<Rightarrow> Compare user k (ExtractUserKey (f_largest f)) > 0)"

definition BeforeFile :: "Comparator \<Rightarrow> slice option \<Rightarrow> FileMetaData \<Rightarrow> bool" where
  "BeforeFile user user_key f = (case user_key of None \<Rightarrow> False | Some k \<Rightarrow> Compare user k (ExtractUserKey (f_smallest f)) < 0)"

fun check_all_files :: "Comparator \<Rightarrow> FileMetaData list \<Rightarrow> slice option \<Rightarrow> slice option \<Rightarrow> bool" where
  "check_all_files user [] smallest largest = False"
| "check_all_files user (f # fs) smallest largest =
     (if AfterFile user smallest f \<or> BeforeFile user largest f then check_all_files user fs smallest largest else True)"

definition SomeFileOverlapsRange :: "Comparator \<Rightarrow> bool \<Rightarrow> FileMetaData list \<Rightarrow> slice option \<Rightarrow> slice option \<Rightarrow> bool option" where
  "SomeFileOverlapsRange user disjoint_sorted_files files smallest_user_key largest_user_key =
     (if \<not> disjoint_sorted_files then Some (check_all_files user files smallest_user_key largest_user_key)
      else
        map_option (\<lambda>index. if index \<ge> length files then False else \<not> BeforeFile user largest_user_key (files ! index))
          (case smallest_user_key of
             None \<Rightarrow> Some 0
           | Some k \<Rightarrow> FindFile user files (new_InternalKey k kMaxSequenceNumber kValueTypeForSeek)))"

record Version =
  v_levels :: "FileMetaData list list"

definition OverlapInLevel :: "Comparator \<Rightarrow> Version \<Rightarrow> nat \<Rightarrow> slice option \<Rightarrow> slice option \<Rightarrow> bool option" where
  "OverlapInLevel user v level smallest_user_key largest_user_key =
     SomeFileOverlapsRange user (level > 0) (v_levels v ! level) smallest_user_key largest_user_key"

text \<open>Comparisons with the bounds of a range, which are made only if the bound is not null.\<close>

definition below_begin :: "Comparator \<Rightarrow> slice \<Rightarrow> slice option \<Rightarrow> bool" where
  "below_begin user k b = (case b of None \<Rightarrow> False | Some ub \<Rightarrow> Compare user k ub < 0)"

definition above_end :: "Comparator \<Rightarrow> slice \<Rightarrow> slice option \<Rightarrow> bool" where
  "above_end user k e = (case e of None \<Rightarrow> False | Some ue \<Rightarrow> Compare user k ue > 0)"

partial_function (option) overlapping_loop ::
    "Comparator \<Rightarrow> nat \<Rightarrow> FileMetaData list \<Rightarrow> nat \<Rightarrow> slice option \<Rightarrow> slice option \<Rightarrow> FileMetaData list \<Rightarrow> FileMetaData list option" where
  "overlapping_loop user level files i user_begin user_end inputs =
     (if i < length files then
        let f = files ! i;
            file_start = ExtractUserKey (f_smallest f);
            file_limit = ExtractUserKey (f_largest f)
        in if below_begin user file_limit user_begin then overlapping_loop user level files (i + 1) user_begin user_end inputs
           else if above_end user file_start user_end then overlapping_loop user level files (i + 1) user_begin user_end inputs
           else if level = 0 \<and> below_begin user file_start user_begin then overlapping_loop user level files 0 (Some file_start) user_end []
           else if level = 0 \<and> above_end user file_limit user_end then overlapping_loop user level files 0 user_begin (Some file_limit) []
           else overlapping_loop user level files (i + 1) user_begin user_end (inputs @ [f])
      else Some inputs)"

definition GetOverlappingInputs :: "Comparator \<Rightarrow> Version \<Rightarrow> nat \<Rightarrow> slice option \<Rightarrow> slice option \<Rightarrow> FileMetaData list option" where
  "GetOverlappingInputs user v level beg en =
     overlapping_loop user level (v_levels v ! level) 0 (map_option ExtractUserKey beg) (map_option ExtractUserKey en) []"

definition TotalFileSize :: "FileMetaData list \<Rightarrow> 64 word" where
  "TotalFileSize files = foldl (\<lambda>sum f. sum + f_file_size f) 0 files"

definition MaxGrandParentOverlapBytes :: "64 word \<Rightarrow> 64 word" where
  "MaxGrandParentOverlapBytes max_file_size = 10 * max_file_size"

definition kMaxMemCompactLevel :: nat where
  "kMaxMemCompactLevel = 2"

text \<open>The loop of \<^verbatim>\<open>PickLevelForMemTableOutput\<close>, and how often it may go on.\<close>

function pick_level_loop :: "Comparator \<Rightarrow> 64 word \<Rightarrow> Version \<Rightarrow> slice \<Rightarrow> slice \<Rightarrow> nat \<Rightarrow> nat option" where
  "pick_level_loop user max_file_size v smallest largest level =
     (if level < kMaxMemCompactLevel then
        Option.bind (OverlapInLevel user v (level + 1) (Some smallest) (Some largest)) (\<lambda>overlap.
          if overlap then Some level
          else if level + 2 < unat kNumLevels then
            Option.bind (GetOverlappingInputs user v (level + 2) (Some (new_InternalKey smallest kMaxSequenceNumber kValueTypeForSeek))
                (Some (new_InternalKey largest 0 kTypeDeletion))) (\<lambda>overlaps.
              if MaxGrandParentOverlapBytes max_file_size <s TotalFileSize overlaps then Some level
              else pick_level_loop user max_file_size v smallest largest (level + 1))
          else pick_level_loop user max_file_size v smallest largest (level + 1))
      else Some level)"
  by pat_completeness auto

termination pick_level_loop
  by (relation "measure (\<lambda>(_, _, _, _, _, level). kMaxMemCompactLevel - level)") auto

declare pick_level_loop.simps [simp del]

definition PickLevelForMemTableOutput :: "Comparator \<Rightarrow> 64 word \<Rightarrow> Version \<Rightarrow> slice \<Rightarrow> slice \<Rightarrow> nat option" where
  "PickLevelForMemTableOutput user max_file_size v smallest largest =
     Option.bind (OverlapInLevel user v 0 (Some smallest) (Some largest)) (\<lambda>overlap.
       if \<not> overlap then pick_level_loop user max_file_size v smallest largest 0 else Some 0)"

section \<open>The binary search\<close>

lemma find_file_loop_returns:
  assumes "\<And>i. i < length files \<Longrightarrow> internal_Compare user (f_largest (files ! i)) key < 0 \<longleftrightarrow> i < n" "length files < 2 ^ 31"
    "l \<le> n" "n \<le> r" "r \<le> length files"
  shows "find_file_loop user files key (of_nat l) (of_nat r) = Some n"
  using assms(3-5)
proof (induction "r - l" arbitrary: l r rule: less_induct)
  case less
  have u: "unat (of_nat l :: 32 word) = l" "unat (of_nat r :: 32 word) = r" using less.prems assms(2) by (simp_all add: unat_of_nat)
  show ?case
  proof (cases "l < r")
    case False
    then have "l = r" "n = r" using less.prems by simp_all
    then show ?thesis using u by (subst find_file_loop.simps) simp
  next
    case True
    define m where "m = (l + r) div 2"
    have m: "l \<le> m" "m < r" using True by (auto simp: m_def)
    have "unat (of_nat l + of_nat r :: 32 word) = l + r"
      using less.prems(3) True assms(2) by (simp add: unat_of_nat flip: of_nat_add)
    then have "unat ((of_nat l + of_nat r) div 2 :: 32 word) = m" by (simp add: unat_div m_def)
    then have mid: "(of_nat l + of_nat r) div 2 = (of_nat m :: 32 word)" by (metis of_nat_unat ucast_id)
    have um: "unat (of_nat m :: 32 word) = m" using m u less.prems(3) assms(2) by (simp add: unat_of_nat)
    have c: "internal_Compare user (f_largest (files ! m)) key < 0 \<longleftrightarrow> m < n" using assms(1) m less.prems(3) by simp
    have lr: "(of_nat l :: 32 word) < of_nat r" using True u by (simp add: word_less_nat_alt)
    show ?thesis
    proof (cases "m < n")
      case True
      then have "find_file_loop user files key (of_nat (Suc m)) (of_nat r) = Some n"
        using less.hyps [of r "Suc m"] less.prems m by simp
      then show ?thesis using lr c mid um True by (subst find_file_loop.simps) (simp add: Let_def add.commute)
    next
      case False
      then have "find_file_loop user files key (of_nat l) (of_nat m) = Some n" using less.hyps [of m l] less.prems m by simp
      then show ?thesis using lr c mid um False by (subst find_file_loop.simps) (simp add: Let_def)
    qed
  qed
qed

lemma takeWhile_prefix_iff:
  assumes "\<And>i j. i < j \<Longrightarrow> j < length xs \<Longrightarrow> P (xs ! j) \<Longrightarrow> P (xs ! i)" "i < length xs"
  shows "P (xs ! i) \<longleftrightarrow> i < length (takeWhile P xs)"
proof
  assume "i < length (takeWhile P xs)"
  then show "P (xs ! i)" by (metis nth_mem set_takeWhileD takeWhile_nth)
next
  assume p: "P (xs ! i)"
  show "i < length (takeWhile P xs)"
  proof (rule ccontr)
    let ?n = "length (takeWhile P xs)"
    assume "\<not> i < ?n"
    then have "?n \<le> i" by simp
    then have "\<not> P (xs ! ?n)" using assms(2) by (intro nth_length_takeWhile) simp
    then show False using assms(1) [of ?n i] p assms(2) \<open>?n \<le> i\<close> by (cases "?n = i") auto
  qed
qed

text \<open>A level of disjoint files in order, with keys that can be parsed.\<close>

definition disjoint_files :: "Comparator \<Rightarrow> FileMetaData list \<Rightarrow> bool" where
  "disjoint_files user files \<longleftrightarrow>
     (\<forall>f \<in> set files. internal_Compare user (f_smallest f) (f_largest f) \<le> 0 \<and> key_number (f_largest f) \<le> earliest_number) \<and>
     sorted_wrt (\<lambda>f g. internal_Compare user (f_largest f) (f_smallest g) < 0) files"

definition range_overlaps :: "Comparator \<Rightarrow> slice option \<Rightarrow> slice option \<Rightarrow> FileMetaData \<Rightarrow> bool" where
  "range_overlaps user smallest largest f \<longleftrightarrow> \<not> AfterFile user smallest f \<and> \<not> BeforeFile user largest f"

lemma check_all_files_iff: "check_all_files user files smallest largest \<longleftrightarrow> (\<exists>f \<in> set files. range_overlaps user smallest largest f)"
  by (induction files) (auto simp: range_overlaps_def)

context user_comparator
begin

lemma internal_Compare_signs:
  "internal_Compare cmp x y < 0 \<longleftrightarrow>
     Compare cmp (ExtractUserKey x) (ExtractUserKey y) < 0 \<or> ExtractUserKey x = ExtractUserKey y \<and> key_number y < key_number x"
  "internal_Compare cmp x y \<le> 0 \<longleftrightarrow>
     Compare cmp (ExtractUserKey x) (ExtractUserKey y) < 0 \<or> ExtractUserKey x = ExtractUserKey y \<and> key_number y \<le> key_number x"
  using internal_signs(1,3) [of x y] by (auto simp: InternalKeyComparator_def order_le_less)

lemma internal_Compare_trans:
  "internal_Compare cmp x y < 0 \<Longrightarrow> internal_Compare cmp y z \<le> 0 \<Longrightarrow> internal_Compare cmp x z < 0"
  "internal_Compare cmp x y \<le> 0 \<Longrightarrow> internal_Compare cmp y z < 0 \<Longrightarrow> internal_Compare cmp x z < 0"
  "internal_Compare cmp x y < 0 \<Longrightarrow> internal_Compare cmp y z < 0 \<Longrightarrow> internal_Compare cmp x z < 0"
  unfolding internal_Compare_signs using compare_trans by auto

text \<open>\<open>FindFile\<close> finds the first file whose largest key is not below the key.\<close>

lemma FindFile_first:
  assumes "disjoint_files cmp files" "length files < 2 ^ 31"
  shows "FindFile cmp files key = Some (length (takeWhile (\<lambda>f. internal_Compare cmp (f_largest f) key < 0) files))"
    and "i < length files \<Longrightarrow> internal_Compare cmp (f_largest (files ! i)) key < 0 \<longleftrightarrow>
      i < length (takeWhile (\<lambda>f. internal_Compare cmp (f_largest f) key < 0) files)"
proof -
  let ?P = "\<lambda>f. internal_Compare cmp (f_largest f) key < 0"
  have "?P (files ! i)" if "i < j" "j < length files" "?P (files ! j)" for i j
  proof -
    have "internal_Compare cmp (f_largest (files ! i)) (f_smallest (files ! j)) < 0"
      using assms(1) that by (simp add: disjoint_files_def sorted_wrt_iff_nth_less)
    moreover have "internal_Compare cmp (f_smallest (files ! j)) (f_largest (files ! j)) \<le> 0"
      using assms(1) that by (simp add: disjoint_files_def)
    ultimately show ?thesis using that(3) internal_Compare_trans by blast
  qed
  note iff = takeWhile_prefix_iff [where P = ?P, OF this]
  then show "i < length files \<Longrightarrow> ?P (files ! i) \<longleftrightarrow> i < length (takeWhile ?P files)" .
  show "FindFile cmp files key = Some (length (takeWhile ?P files))"
    unfolding FindFile_def
    using find_file_loop_returns [where l = 0 and r = "length files" and n = "length (takeWhile ?P files)", OF iff assms(2)]
    by (simp add: length_takeWhile_le)
qed

text \<open>The earliest key of a user key comes after a file's largest key exactly if the user key does.\<close>

lemma earliest_key:
  assumes "key_number k \<le> earliest_number"
  shows "internal_Compare cmp k (new_InternalKey u kMaxSequenceNumber kValueTypeForSeek) < 0 \<longleftrightarrow> Compare cmp (ExtractUserKey k) u < 0"
  using assms by (auto simp: internal_Compare_signs new_InternalKey_def earliest_number_def)

lemma SomeFileOverlapsRange_iff:
  assumes "disjoint \<Longrightarrow> disjoint_files cmp files" "disjoint \<Longrightarrow> length files < 2 ^ 31"
  shows "SomeFileOverlapsRange cmp disjoint files smallest largest = Some (\<exists>f \<in> set files. range_overlaps cmp smallest largest f)"
proof (cases disjoint)
  case False
  then show ?thesis by (simp add: SomeFileOverlapsRange_def check_all_files_iff)
next
  case True
  note d = assms(1) [OF True] and len = assms(2) [OF True]
  define n where "n = length (takeWhile (\<lambda>f. AfterFile cmp smallest f) files)"
  have found: "(case smallest of None \<Rightarrow> Some 0 | Some k \<Rightarrow> FindFile cmp files (new_InternalKey k kMaxSequenceNumber kValueTypeForSeek)) = Some n \<and>
      (\<forall>i < length files. AfterFile cmp smallest (files ! i) \<longleftrightarrow> i < n)"
  proof (cases smallest)
    case None
    have "takeWhile (AfterFile cmp smallest) files = []" by (cases files) (simp_all add: None AfterFile_def)
    then show ?thesis unfolding n_def by (simp add: None AfterFile_def)
  next
    case (Some k)
    let ?P = "\<lambda>f. internal_Compare cmp (f_largest f) (new_InternalKey k kMaxSequenceNumber kValueTypeForSeek) < 0"
    have eq: "?P f \<longleftrightarrow> AfterFile cmp smallest f" if "f \<in> set files" for f
      using d that earliest_key [of "f_largest f" k] user_order(3) by (simp add: disjoint_files_def AfterFile_def Some)
    then have "takeWhile ?P files = takeWhile (AfterFile cmp smallest) files" by (intro takeWhile_cong) auto
    then show ?thesis using FindFile_first [where key = "new_InternalKey k kMaxSequenceNumber kValueTypeForSeek", OF d len] eq
      by (simp add: Some n_def)
  qed
  have before: "BeforeFile cmp largest (files ! j)" if "BeforeFile cmp largest (files ! n)" "n \<le> j" "j < length files" for j
  proof (cases "j = n")
    case False
    then have "internal_Compare cmp (f_largest (files ! n)) (f_smallest (files ! j)) < 0"
      using that d by (simp add: disjoint_files_def sorted_wrt_iff_nth_less)
    moreover have "internal_Compare cmp (f_smallest (files ! n)) (f_largest (files ! n)) \<le> 0"
      using d that False by (simp add: disjoint_files_def)
    ultimately have "internal_Compare cmp (f_smallest (files ! n)) (f_smallest (files ! j)) < 0" by (rule internal_Compare_trans(2) [rotated])
    then show ?thesis using that(1) compare_trans by (auto simp: BeforeFile_def internal_Compare_signs split: option.splits)
  qed (use that in simp)
  have "(\<exists>f \<in> set files. range_overlaps cmp smallest largest f) \<longleftrightarrow> n < length files \<and> \<not> BeforeFile cmp largest (files ! n)"
  proof (intro iffI conjI)
    assume "\<exists>f \<in> set files. range_overlaps cmp smallest largest f"
    then obtain i where i: "i < length files" "range_overlaps cmp smallest largest (files ! i)" by (auto simp: in_set_conv_nth)
    then have "n \<le> i" using found by (auto simp: range_overlaps_def not_less [symmetric])
    then show "n < length files" "\<not> BeforeFile cmp largest (files ! n)" using i before [of i] by (auto simp: range_overlaps_def)
  next
    assume "n < length files \<and> \<not> BeforeFile cmp largest (files ! n)"
    then show "\<exists>f \<in> set files. range_overlaps cmp smallest largest f"
      using found by (intro bexI [of _ "files ! n"]) (auto simp: range_overlaps_def)
  qed
  then show ?thesis using True found by (auto simp: SomeFileOverlapsRange_def)
qed

end

section \<open>Overlapping files\<close>

abbreviation file_start :: "FileMetaData \<Rightarrow> slice" where
  "file_start f \<equiv> ExtractUserKey (f_smallest f)"

abbreviation file_limit :: "FileMetaData \<Rightarrow> slice" where
  "file_limit f \<equiv> ExtractUserKey (f_largest f)"

text \<open>A file overlaps a range, or lies inside it; a range is closed if the files that overlap it lie inside it.\<close>

definition overlaps_range :: "Comparator \<Rightarrow> slice option \<times> slice option \<Rightarrow> FileMetaData \<Rightarrow> bool" where
  "overlaps_range user r f \<longleftrightarrow> \<not> below_begin user (file_limit f) (fst r) \<and> \<not> above_end user (file_start f) (snd r)"

definition inside_range :: "Comparator \<Rightarrow> slice option \<times> slice option \<Rightarrow> FileMetaData \<Rightarrow> bool" where
  "inside_range user r f \<longleftrightarrow> \<not> below_begin user (file_start f) (fst r) \<and> \<not> above_end user (file_limit f) (snd r)"

definition closed_range :: "Comparator \<Rightarrow> FileMetaData list \<Rightarrow> slice option \<times> slice option \<Rightarrow> bool" where
  "closed_range user files r \<longleftrightarrow> (\<forall>f \<in> set files. overlaps_range user r f \<longrightarrow> inside_range user r f)"

definition wider :: "Comparator \<Rightarrow> slice option \<times> slice option \<Rightarrow> slice option \<times> slice option \<Rightarrow> bool" where
  "wider user r q \<longleftrightarrow>
     (\<forall>k. below_begin user k (fst r) \<longrightarrow> below_begin user k (fst q)) \<and> (\<forall>k. above_end user k (snd r) \<longrightarrow> above_end user k (snd q))"

lemma wider_refl [simp]: "wider user r r"
  by (simp add: wider_def)

lemma wider_trans: "wider user r q \<Longrightarrow> wider user q p \<Longrightarrow> wider user r p"
  by (simp add: wider_def)

lemma wider_overlaps: "wider user r q \<Longrightarrow> overlaps_range user q f \<Longrightarrow> overlaps_range user r f"
  by (auto simp: wider_def overlaps_range_def)

lemma overlapping_other_level:
  assumes "level \<noteq> 0"
  shows "overlapping_loop user level files i b e inputs = Some (inputs @ filter (overlaps_range user (b, e)) (drop i files))"
proof (induction "length files - i" arbitrary: i inputs)
  case 0
  then show ?case by (subst overlapping_loop.simps) simp
next
  case (Suc n)
  then have i: "i < length files" "drop i files = files ! i # drop (i + 1) files" by (simp_all add: Cons_nth_drop_Suc)
  have "n = length files - (i + 1)" using Suc(2) by simp
  from Suc(1) [OF this] show ?case
    using i assms by (subst overlapping_loop.simps) (simp add: Let_def overlaps_range_def)
qed

lemma length_filter_strict:
  "(\<And>x. P x \<Longrightarrow> Q x) \<Longrightarrow> x \<in> set xs \<Longrightarrow> Q x \<Longrightarrow> \<not> P x \<Longrightarrow> length (filter P xs) < length (filter Q xs)"
proof (induction xs)
  case (Cons a xs)
  have "length (filter P xs) \<le> length (filter Q xs)" using Cons.prems(1) by (induction xs) auto
  then show ?case using Cons by auto
qed simp

text \<open>The number of files that can still widen a range.\<close>

definition widening :: "Comparator \<Rightarrow> FileMetaData list \<Rightarrow> slice option \<times> slice option \<Rightarrow> nat" where
  "widening user files r =
     length (filter (\<lambda>f. below_begin user (file_start f) (fst r)) files) + length (filter (\<lambda>f. above_end user (file_limit f) (snd r)) files)"

text \<open>A version: seven levels, all but the first of them in order.\<close>

definition version_ok :: "Comparator \<Rightarrow> Version \<Rightarrow> bool" where
  "version_ok user v \<longleftrightarrow>
     length (v_levels v) = 7 \<and> (\<forall>l. 0 < l \<and> l < 7 \<longrightarrow> disjoint_files user (v_levels v ! l) \<and> length (v_levels v ! l) < 2 ^ 31)"

context user_comparator
begin

lemma widen_begin:
  assumes "f \<in> set files" "overlaps_range cmp (b, e) f" "below_begin cmp (file_start f) b"
  shows "widening cmp files (Some (file_start f), e) < widening cmp files (b, e)" "wider cmp (Some (file_start f), e) (b, e)"
    "closed_range cmp files r \<Longrightarrow> wider cmp r (b, e) \<Longrightarrow> wider cmp r (Some (file_start f), e)"
proof -
  have sub: "below_begin cmp k b" if "below_begin cmp k (Some (file_start f))" for k
    using that assms(3) compare_trans by (auto simp: below_begin_def split: option.splits)
  then show "wider cmp (Some (file_start f), e) (b, e)" by (simp add: wider_def)
  show "widening cmp files (Some (file_start f), e) < widening cmp files (b, e)"
    using length_filter_strict [OF _ assms(1), of "\<lambda>g. below_begin cmp (file_start g) (Some (file_start f))" "\<lambda>g. below_begin cmp (file_start g) b"]
      sub assms(3) user_order(2) by (simp add: widening_def below_begin_def)
  assume r: "closed_range cmp files r" "wider cmp r (b, e)"
  then have "\<not> below_begin cmp (file_start f) (fst r)"
    using wider_overlaps [OF r(2) assms(2)] assms(1) by (auto simp: closed_range_def inside_range_def)
  then have "below_begin cmp k (Some (file_start f))" if "below_begin cmp k (fst r)" for k
    using that compare_less_le_trans compare_ge by (auto simp: below_begin_def not_less split: option.splits)
  then show "wider cmp r (Some (file_start f), e)" using r(2) by (simp add: wider_def)
qed

lemma widen_end:
  assumes "f \<in> set files" "overlaps_range cmp (b, e) f" "above_end cmp (file_limit f) e"
  shows "widening cmp files (b, Some (file_limit f)) < widening cmp files (b, e)" "wider cmp (b, Some (file_limit f)) (b, e)"
    "closed_range cmp files r \<Longrightarrow> wider cmp r (b, e) \<Longrightarrow> wider cmp r (b, Some (file_limit f))"
proof -
  have sub: "above_end cmp k e" if "above_end cmp k (Some (file_limit f))" for k
    using that assms(3) compare_trans by (auto simp: above_end_def user_order(3) split: option.splits)
  then show "wider cmp (b, Some (file_limit f)) (b, e)" by (simp add: wider_def)
  show "widening cmp files (b, Some (file_limit f)) < widening cmp files (b, e)"
    using length_filter_strict [OF _ assms(1), of "\<lambda>g. above_end cmp (file_limit g) (Some (file_limit f))" "\<lambda>g. above_end cmp (file_limit g) e"]
      sub assms(3) user_order(2) by (simp add: widening_def above_end_def)
  assume r: "closed_range cmp files r" "wider cmp r (b, e)"
  then have "\<not> above_end cmp (file_limit f) (snd r)"
    using wider_overlaps [OF r(2) assms(2)] assms(1) by (auto simp: closed_range_def inside_range_def)
  then have "above_end cmp k (Some (file_limit f))" if "above_end cmp k (snd r)" for k
    using that compare_le_less_trans compare_ge by (auto simp: above_end_def user_order(3) not_less split: option.splits)
  then show "wider cmp r (b, Some (file_limit f))" using r(2) by (simp add: wider_def)
qed

text \<open>At level 0 the result is that of the least closed range.\<close>

lemma overlapping_level_0:
  assumes "inputs = filter (overlaps_range cmp (b, e)) (take i files)" "\<forall>f \<in> set inputs. inside_range cmp (b, e) f"
  shows "\<exists>r. overlapping_loop cmp 0 files i b e inputs = Some (filter (overlaps_range cmp r) files) \<and> closed_range cmp files r \<and>
    wider cmp r (b, e) \<and> (\<forall>q. closed_range cmp files q \<longrightarrow> wider cmp q (b, e) \<longrightarrow> wider cmp q r)"
  using assms
proof (induction "widening cmp files (b, e) * (length files + 1) + (length files - i)" arbitrary: i b e inputs rule: less_induct)
  case less
  show ?case
  proof (cases "i < length files")
    case False
    then show ?thesis using less.prems
      by (subst overlapping_loop.simps) (intro exI [of _ "(b, e)"], auto simp: closed_range_def)
  next
    case True
    let ?f = "files ! i"
    have f: "?f \<in> set files" "take (Suc i) files = take i files @ [?f]" using True by (simp_all add: take_Suc_conv_app_nth)
    have restart: "n * (length files + 1) + (length files - 0) < widening cmp files (b, e) * (length files + 1) + (length files - i)"
      if "n < widening cmp files (b, e)" for n
    proof -
      have "(n + 1) * (length files + 1) \<le> widening cmp files (b, e) * (length files + 1)" using that by (intro mult_le_mono1) simp
      then show ?thesis by simp
    qed
    have further: "widening cmp files (b, e) * (length files + 1) + (length files - (i + 1)) <
        widening cmp files (b, e) * (length files + 1) + (length files - i)" using True by simp
    have again: ?thesis
      if eq: "overlapping_loop cmp 0 files i b e inputs = overlapping_loop cmp 0 files 0 b1 e1 []"
        and w: "widening cmp files (b1, e1) < widening cmp files (b, e)" "wider cmp (b1, e1) (b, e)"
          "\<And>q. closed_range cmp files q \<Longrightarrow> wider cmp q (b, e) \<Longrightarrow> wider cmp q (b1, e1)" for b1 e1
    proof -
      obtain r where "overlapping_loop cmp 0 files 0 b1 e1 [] = Some (filter (overlaps_range cmp r) files)" "closed_range cmp files r"
        "wider cmp r (b1, e1)" "\<And>q. closed_range cmp files q \<Longrightarrow> wider cmp q (b1, e1) \<Longrightarrow> wider cmp q r"
        using less.hyps [OF restart [OF w(1)], of "[]"] by auto
      then show ?thesis unfolding eq using w(2,3) by (intro exI [of _ r]) (auto intro: wider_trans)
    qed
    note step = overlapping_loop.simps [of cmp 0 files i b e inputs]
    show ?thesis
    proof (cases "overlaps_range cmp (b, e) ?f")
      case False
      then have "overlapping_loop cmp 0 files i b e inputs = overlapping_loop cmp 0 files (i + 1) b e inputs"
        unfolding step using True by (auto simp: Let_def overlaps_range_def)
      moreover have "inputs = filter (overlaps_range cmp (b, e)) (take (i + 1) files)" using False less.prems(1) f by simp
      ultimately show ?thesis using less.hyps [OF further _ less.prems(2)] by metis
    next
      case o: True
      consider "below_begin cmp (file_start ?f) b" | "\<not> below_begin cmp (file_start ?f) b" "above_end cmp (file_limit ?f) e"
        | "inside_range cmp (b, e) ?f" by (auto simp: inside_range_def)
      then show ?thesis
      proof cases
        case 1
        then have "overlapping_loop cmp 0 files i b e inputs = overlapping_loop cmp 0 files 0 (Some (file_start ?f)) e []"
          unfolding step using True o by (simp add: Let_def overlaps_range_def)
        then show ?thesis using widen_begin [OF f(1) o 1] by (rule again)
      next
        case 2
        then have "overlapping_loop cmp 0 files i b e inputs = overlapping_loop cmp 0 files 0 b (Some (file_limit ?f)) []"
          unfolding step using True o by (simp add: Let_def overlaps_range_def)
        then show ?thesis using widen_end [OF f(1) o 2(2)] by (rule again)
      next
        case 3
        then have "overlapping_loop cmp 0 files i b e inputs = overlapping_loop cmp 0 files (i + 1) b e (inputs @ [?f])"
          unfolding step using True o by (simp add: Let_def overlaps_range_def inside_range_def)
        moreover have "inputs @ [?f] = filter (overlaps_range cmp (b, e)) (take (i + 1) files)" using o less.prems(1) f by simp
        moreover have "\<forall>f \<in> set (inputs @ [?f]). inside_range cmp (b, e) f" using less.prems(2) 3 by simp
        ultimately show ?thesis using less.hyps [OF further] by metis
      qed
    qed
  qed
qed

text \<open>Where the files of a memory table are put.\<close>


lemma OverlapInLevel_iff:
  assumes "version_ok cmp v" "level < 7"
  shows "OverlapInLevel cmp v level smallest largest = Some (\<exists>f \<in> set (v_levels v ! level). range_overlaps cmp smallest largest f)"
  unfolding OverlapInLevel_def using assms by (intro SomeFileOverlapsRange_iff) (auto simp: version_ok_def)

lemma GetOverlappingInputs_other:
  "level \<noteq> 0 \<Longrightarrow> GetOverlappingInputs user v level b e =
     Some (filter (overlaps_range user (map_option ExtractUserKey b, map_option ExtractUserKey e)) (v_levels v ! level))"
  by (simp add: GetOverlappingInputs_def overlapping_other_level)

lemma pick_level_loop_ok:
  assumes "version_ok cmp v"
    and "\<forall>l \<le> level. \<forall>f \<in> set (v_levels v ! l). \<not> range_overlaps cmp (Some smallest) (Some largest) f" "level \<le> 2"
  shows "\<exists>n. pick_level_loop cmp sz v smallest largest level = Some n \<and> n \<le> 2 \<and>
    (\<forall>l \<le> n. \<forall>f \<in> set (v_levels v ! l). \<not> range_overlaps cmp (Some smallest) (Some largest) f)"
  using assms(2,3)
proof (induction "2 - level" arbitrary: level)
  case 0
  then show ?case by (subst pick_level_loop.simps) (simp add: kMaxMemCompactLevel_def)
next
  case (Suc k)
  have level: "level < kMaxMemCompactLevel" "level + 1 < 7" "level + 2 < unat kNumLevels"
    using Suc(2) by (simp_all add: kMaxMemCompactLevel_def kNumLevels_def)
  show ?case
  proof (cases "\<exists>f \<in> set (v_levels v ! (level + 1)). range_overlaps cmp (Some smallest) (Some largest) f")
    case True
    then show ?thesis
      using level Suc.prems by (subst pick_level_loop.simps) (simp add: OverlapInLevel_iff [OF assms(1) level(2), simplified])
  next
    case False
    then have "\<forall>l \<le> level + 1. \<forall>f \<in> set (v_levels v ! l). \<not> range_overlaps cmp (Some smallest) (Some largest) f"
      using Suc.prems(1) by (auto simp: le_Suc_eq)
    then have "\<exists>n. pick_level_loop cmp sz v smallest largest (level + 1) = Some n \<and> n \<le> 2 \<and>
        (\<forall>l \<le> n. \<forall>f \<in> set (v_levels v ! l). \<not> range_overlaps cmp (Some smallest) (Some largest) f)"
      using Suc(2) by (intro Suc(1)) simp_all
    then show ?thesis
      using level False Suc.prems
      by (subst pick_level_loop.simps) (simp add: OverlapInLevel_iff [OF assms(1) level(2), simplified] GetOverlappingInputs_other)
  qed
qed

lemma PickLevel_ok:
  assumes "version_ok cmp v"
  shows "\<exists>n. PickLevelForMemTableOutput cmp sz v smallest largest = Some n \<and> n \<le> 2 \<and>
    (0 < n \<longrightarrow> (\<forall>l \<le> n. \<forall>f \<in> set (v_levels v ! l). \<not> range_overlaps cmp (Some smallest) (Some largest) f))"
proof -
  have o: "OverlapInLevel cmp v 0 (Some smallest) (Some largest) =
      Some (\<exists>f \<in> set (v_levels v ! 0). range_overlaps cmp (Some smallest) (Some largest) f)"
    by (rule OverlapInLevel_iff [OF assms]) simp
  show ?thesis
  proof (cases "\<exists>f \<in> set (v_levels v ! 0). range_overlaps cmp (Some smallest) (Some largest) f")
    case True
    then show ?thesis by (simp add: PickLevelForMemTableOutput_def o)
  next
    case False
    then show ?thesis
      using pick_level_loop_ok [OF assms, of 0 smallest largest sz] by (simp add: PickLevelForMemTableOutput_def o) blast
  qed
qed

end

section \<open>An example\<close>

definition example_file :: "64 word \<Rightarrow> byte \<Rightarrow> byte \<Rightarrow> FileMetaData" where
  "example_file n a b = new_FileMetaData n 4096 (new_InternalKey [a] 7 kTypeValue) (new_InternalKey [b] 3 kTypeValue)"

definition example_version :: Version where
  "example_version =
     \<lparr>v_levels = [[example_file 9 97 99, example_file 8 98 102], [example_file 5 107 109, example_file 6 112 114], [], [], [], [], []]\<rparr>"

lemma example_file_keys:
  "file_start (example_file n a b) = [a]" "file_limit (example_file n a b) = [b]"
  "key_number (f_smallest (example_file n a b)) = PackSequenceAndType 7 kTypeValue"
  "key_number (f_largest (example_file n a b)) = PackSequenceAndType 3 kTypeValue"
  by (simp_all add: example_file_def new_FileMetaData_def new_InternalKey_def)

lemma example_less: "Compare BytewiseComparator [a] [b] < 0 \<longleftrightarrow> a < b"
  by (simp add: BytewiseComparator_def)

lemma example_version_ok: "version_ok BytewiseComparator example_version"
proof -
  have n: "PackSequenceAndType 3 kTypeValue \<le> earliest_number" by (simp add: earliest_number_def PackSequenceAndType_def kMaxSequenceNumber_def kValueTypeForSeek_def)
  then have "disjoint_files BytewiseComparator [example_file 5 107 109, example_file 6 112 114]"
    by (simp add: disjoint_files_def bytewise.internal_Compare_signs example_file_keys example_less)
  moreover have "disjoint_files user []" for user by (simp add: disjoint_files_def)
  ultimately show ?thesis by (auto simp: version_ok_def example_version_def nth_Cons' less_Suc_eq)
qed

end
