(* ===== verification/Ldb_Filename.thy ===== *)
theory Ldb_Filename
  imports Ldb_Env
begin

unbundle bit_operations_syntax

text \<open>
  Names of a database's files (\<^verbatim>\<open>db/filename.cc\<close>, \<^verbatim>\<open>db/filename.h\<close>) with the numbers in them (\<^verbatim>\<open>util/logging.cc\<close>), and the operations on whole
  files (\<^verbatim>\<open>util/env.cc\<close>) by which the file \<^verbatim>\<open>CURRENT\<close> is made to name another manifest. A file name is a string of characters, a file's contents is a
  string of bytes. \<^verbatim>\<open>ConsumeDecimalNumber\<close> returns None for false.

  The environment (\<^verbatim>\<open>leveldb/env.h\<close>) is a record of its functions on a state of any type: those of a file are given the file. \<open>env_atomic\<close> is what the
  documentation promises of one whose operations may fail: nothing but the named files changes, a rename that fails changes nothing.
\<close>

section \<open>Numbers\<close>

definition AppendNumberTo :: "string \<Rightarrow> 64 word \<Rightarrow> string" where
  "AppendNumberTo str num = str @ decimal (unat num)"

definition NumberToString :: "64 word \<Rightarrow> string" where
  "NumberToString num = AppendNumberTo [] num"

text \<open>\<^verbatim>\<open>snprintf\<close> with \<^verbatim>\<open>%02x\<close>.\<close>

definition hex_digit :: "nat \<Rightarrow> char" where
  "hex_digit d = char_of (if d < 10 then 48 + d else 87 + d)"

fun AppendEscapedStringTo :: "string \<Rightarrow> slice \<Rightarrow> string" where
  "AppendEscapedStringTo str [] = str"
| "AppendEscapedStringTo str (c # cs) =
     (if 32 \<le> c \<and> c \<le> 126 then AppendEscapedStringTo (str @ [char_of (unat c)]) cs
      else AppendEscapedStringTo (str @ [CHR 0x5C, CHR ''x'', hex_digit (unat c div 16), hex_digit (unat c mod 16)]) cs)"

definition EscapeString :: "slice \<Rightarrow> string" where
  "EscapeString v = AppendEscapedStringTo [] v"

definition kMaxUint64 :: "64 word" where
  "kMaxUint64 = - 1"

definition kLastDigitOfMaxUint64 :: byte where
  "kLastDigitOfMaxUint64 = 48 + ucast (kMaxUint64 mod 10)"

text \<open>The loop over the characters: None where it returns because of the overflow check, else the value and the rest from \<^verbatim>\<open>current\<close> on.\<close>

fun consume_digits :: "64 word \<Rightarrow> string \<Rightarrow> (64 word \<times> string) option" where
  "consume_digits v [] = Some (v, [])"
| "consume_digits v (c # cs) =
     (let ch = of_char c :: byte
      in if ch < 48 \<or> ch > 57 then Some (v, c # cs)
         else if v > kMaxUint64 div 10 \<or> v = kMaxUint64 div 10 \<and> ch > kLastDigitOfMaxUint64 then None
         else consume_digits (v * 10 + (ucast ch - 48)) cs)"

definition ConsumeDecimalNumber :: "string \<Rightarrow> 64 word option \<times> string" where
  "ConsumeDecimalNumber input =
     (case consume_digits 0 input of
        None \<Rightarrow> (None, input)
      | Some (v, rest) \<Rightarrow> (if length input - length rest \<noteq> 0 then Some v else None, rest))"

section \<open>Names\<close>

datatype FileType = kLogFile | kDBLockFile | kTableFile | kDescriptorFile | kCurrentFile | kTempFile | kInfoLogFile

text \<open>\<^verbatim>\<open>snprintf\<close> with \<^verbatim>\<open>%06llu\<close>.\<close>

definition decimal6 :: "64 word \<Rightarrow> string" where
  "decimal6 n = replicate (6 - length (decimal (unat n))) (CHR ''0'') @ decimal (unat n)"

definition MakeFileName :: "string \<Rightarrow> 64 word \<Rightarrow> string \<Rightarrow> string" where
  "MakeFileName dbname number sfx = dbname @ ''/'' @ decimal6 number @ ''.'' @ sfx"

definition LogFileName :: "string \<Rightarrow> 64 word \<Rightarrow> string" where
  "LogFileName dbname number = MakeFileName dbname number ''log''"

definition TableFileName :: "string \<Rightarrow> 64 word \<Rightarrow> string" where
  "TableFileName dbname number = MakeFileName dbname number ''ldb''"

definition SSTTableFileName :: "string \<Rightarrow> 64 word \<Rightarrow> string" where
  "SSTTableFileName dbname number = MakeFileName dbname number ''sst''"

definition DescriptorFileName :: "string \<Rightarrow> 64 word \<Rightarrow> string" where
  "DescriptorFileName dbname number = dbname @ ''/MANIFEST-'' @ decimal6 number"

definition CurrentFileName :: "string \<Rightarrow> string" where
  "CurrentFileName dbname = dbname @ ''/CURRENT''"

definition LockFileName :: "string \<Rightarrow> string" where
  "LockFileName dbname = dbname @ ''/LOCK''"

definition TempFileName :: "string \<Rightarrow> 64 word \<Rightarrow> string" where
  "TempFileName dbname number = MakeFileName dbname number ''dbtmp''"

definition InfoLogFileName :: "string \<Rightarrow> string" where
  "InfoLogFileName dbname = dbname @ ''/LOG''"

definition OldInfoLogFileName :: "string \<Rightarrow> string" where
  "OldInfoLogFileName dbname = dbname @ ''/LOG.old''"

definition starts_with :: "string \<Rightarrow> string \<Rightarrow> bool" where
  "starts_with s x \<longleftrightarrow> length x \<le> length s \<and> take (length x) s = x"

definition ParseFileName :: "string \<Rightarrow> (64 word \<times> FileType) option" where
  "ParseFileName filename =
     (if filename = ''CURRENT'' then Some (0, kCurrentFile)
      else if filename = ''LOCK'' then Some (0, kDBLockFile)
      else if filename = ''LOG'' \<or> filename = ''LOG.old'' then Some (0, kInfoLogFile)
      else if starts_with filename ''MANIFEST-'' then
        (case ConsumeDecimalNumber (drop (length ''MANIFEST-'') filename) of
           (None, rest) \<Rightarrow> None
         | (Some num, rest) \<Rightarrow> if rest \<noteq> [] then None else Some (num, kDescriptorFile))
      else
        (case ConsumeDecimalNumber filename of
           (None, rest) \<Rightarrow> None
         | (Some num, rest) \<Rightarrow>
             if rest = ''.log'' then Some (num, kLogFile)
             else if rest = ''.sst'' \<or> rest = ''.ldb'' then Some (num, kTableFile)
             else if rest = ''.dbtmp'' then Some (num, kTempFile)
             else None))"

section \<open>Numbers are read exactly\<close>

definition is_digit :: "char \<Rightarrow> bool" where
  "is_digit c \<longleftrightarrow> 48 \<le> (of_char c :: nat) \<and> (of_char c :: nat) \<le> 57"

definition digits_value :: "nat \<Rightarrow> string \<Rightarrow> nat" where
  "digits_value v ds = foldl (\<lambda>v c. v * 10 + (of_char c - 48)) v ds"

lemma unat_of_char: "unat (of_char c :: byte) = of_char c"
proof -
  have "(of_char c :: byte) = of_nat (of_char c)" by (simp add: of_char_def)
  moreover have "(of_char c :: nat) < 256" by simp
  ultimately show ?thesis by (simp add: unat_of_nat)
qed

lemma unat_64: "unat (v :: 64 word) < 2 ^ 64"
  using unsigned_less [of v] by simp

lemma consume_digits_step:
  "consume_digits v (c # cs) =
     (if \<not> is_digit c then Some (v, c # cs)
      else if 2 ^ 64 \<le> unat v * 10 + (of_char c - 48) then None
      else consume_digits (of_nat (unat v * 10 + (of_char c - 48))) cs)"
proof -
  let ?k = "of_char c :: nat" and ?ch = "of_char c :: byte"
  have k: "unat ?ch = ?k" by (rule unat_of_char)
  have tenth: "kMaxUint64 div 10 = 1844674407370955161" and last: "kLastDigitOfMaxUint64 = 53"
    by (simp_all add: kMaxUint64_def kLastDigitOfMaxUint64_def)
  have "?k < 2 ^ 64" by (rule less_trans [of _ 256]) simp_all
  then have "unat (ucast ?ch :: 64 word) = ?k" by (simp add: unsigned_ucast_eq k take_bit_nat_eq_self)
  then have add: "v * 10 + (ucast ?ch - 48) = of_nat (unat v * 10 + (?k - 48))" if "48 \<le> ?k"
    using that by (simp add: of_nat_diff) (metis of_nat_unat ucast_id)
  have digit: "(?ch < 48 \<or> ?ch > 57) = (\<not> is_digit c)" by (auto simp: is_digit_def word_less_nat_alt k)
  have over: "(v > kMaxUint64 div 10 \<or> v = kMaxUint64 div 10 \<and> ?ch > kLastDigitOfMaxUint64) = (2 ^ 64 \<le> unat v * 10 + (?k - 48))"
    if "is_digit c" using that unfolding tenth last is_digit_def word_less_nat_alt word_unat_eq_iff k by auto
  show ?thesis
  proof (cases "is_digit c")
    case True
    then have "48 \<le> ?k" by (simp add: is_digit_def)
    then show ?thesis unfolding consume_digits.simps Let_def digit over [OF True] add [OF \<open>48 \<le> ?k\<close>] using True by simp
  qed (simp add: digit)
qed

lemma digits_value_Cons: "digits_value v (c # cs) = digits_value (v * 10 + (of_char c - 48)) cs"
  by (simp add: digits_value_def)

lemma digits_value_ge: "v \<le> digits_value v ds"
proof (induction ds arbitrary: v)
  case (Cons d ds)
  have "v \<le> v * 10 + (of_char d - 48)" by simp
  then show ?case using Cons.IH order_trans by (simp only: digits_value_Cons) blast
qed (simp add: digits_value_def)

lemma consume_digits_exact:
  "consume_digits v s =
     (let n = digits_value (unat v) (takeWhile is_digit s) in if n < 2 ^ 64 then Some (of_nat n, dropWhile is_digit s) else None)"
proof (induction s arbitrary: v)
  case Nil
  have "unat v < 2 ^ 64" by (rule unat_64)
  then show ?case by (simp add: digits_value_def Let_def)
next
  case (Cons c cs)
  let ?n = "unat v * 10 + (of_char c - 48)"
  have v: "unat v < 2 ^ 64" by (rule unat_64)
  show ?case
  proof (cases "is_digit c")
    case False
    then show ?thesis using v by (simp add: consume_digits_step digits_value_def Let_def del: consume_digits.simps)
  next
    case True
    show ?thesis
    proof (cases "2 ^ 64 \<le> ?n")
      case True
      then show ?thesis using \<open>is_digit c\<close> digits_value_ge [of ?n "takeWhile is_digit cs"]
        by (simp add: consume_digits_step digits_value_Cons Let_def del: consume_digits.simps)
    next
      case False
      then have "unat (of_nat ?n :: 64 word) = ?n" by (simp add: unat_of_nat del: of_nat_add)
      then show ?thesis using False \<open>is_digit c\<close> Cons.IH [of "of_nat ?n"]
        by (simp add: consume_digits_step digits_value_Cons Let_def del: consume_digits.simps of_nat_add of_nat_mult)
    qed
  qed
qed

lemma ConsumeDecimalNumber_exact:
  "ConsumeDecimalNumber s =
     (let ds = takeWhile is_digit s
      in if ds = [] \<or> 2 ^ 64 \<le> digits_value 0 ds then (None, s) else (Some (of_nat (digits_value 0 ds)), dropWhile is_digit s))"
proof -
  have "length s - length (dropWhile is_digit s) = length (takeWhile is_digit s)"
    by (metis add_diff_cancel_right' length_append takeWhile_dropWhile_id)
  moreover have "dropWhile is_digit s = s" if "takeWhile is_digit s = []" using that by (cases s) (auto split: if_splits)
  ultimately show ?thesis by (auto simp: ConsumeDecimalNumber_def consume_digits_exact Let_def)
qed

text \<open>What is printed is read back.\<close>

lemma digits_value_append: "digits_value v (xs @ ys) = digits_value (digits_value v xs) ys"
  by (simp add: digits_value_def)

lemma decimal_digits: "\<forall>c \<in> set (decimal n). is_digit c" "decimal n \<noteq> []" "digits_value 0 (decimal n) = n"
proof (induction n rule: decimal.induct)
  case (1 n)
  have c: "(of_char (char_of (48 + d :: nat)) :: nat) = 48 + d" if "d < 10" for d using that by simp
  {
    case 1
    then show ?case using "1.IH"(1) c [of n] c [of "n mod 10"] by (subst decimal.simps) (auto simp: is_digit_def)
  next
    case 2
    show ?case by (subst decimal.simps) simp
  next
    case 3
    show ?case using "1.IH"(3) c [of n] c [of "n mod 10"]
      by (subst decimal.simps) (auto simp: digits_value_append digits_value_def)
  }
qed

lemma decimal6_digits: "\<forall>c \<in> set (decimal6 n). is_digit c" "decimal6 n \<noteq> []" "digits_value 0 (decimal6 n) = unat n"
proof -
  have z: "digits_value 0 (replicate k (CHR ''0'')) = 0" for k by (induction k) (simp_all add: digits_value_def)
  show "\<forall>c \<in> set (decimal6 n). is_digit c" "decimal6 n \<noteq> []" "digits_value 0 (decimal6 n) = unat n"
    using decimal_digits [of "unat n"] by (auto simp: decimal6_def digits_value_append z is_digit_def)
qed

lemma Consume_digits:
  assumes "ds \<noteq> []" "\<forall>c \<in> set ds. is_digit c" "digits_value 0 ds = unat n" "rest = [] \<or> \<not> is_digit (hd rest)"
  shows "ConsumeDecimalNumber (ds @ rest) = (Some n, rest)"
proof -
  have "takeWhile is_digit (ds @ rest) = ds" "dropWhile is_digit (ds @ rest) = rest"
    using assms(2,4) by (cases rest; auto simp: takeWhile_append dropWhile_append)+
  then show ?thesis using assms(1,3) unat_64 [of n] by (simp add: ConsumeDecimalNumber_exact Let_def)
qed

lemma Consume_Some:
  assumes "ConsumeDecimalNumber s = (Some n, rest)"
  obtains ds where "s = ds @ rest" "ds \<noteq> []" "\<forall>c \<in> set ds. is_digit c" "digits_value 0 ds = unat n"
proof (rule that [of "takeWhile is_digit s"])
  have "takeWhile is_digit s \<noteq> []" "digits_value 0 (takeWhile is_digit s) < 2 ^ 64" and
    n: "n = of_nat (digits_value 0 (takeWhile is_digit s))" and r: "rest = dropWhile is_digit s"
    using assms by (auto simp: ConsumeDecimalNumber_exact Let_def split: if_splits)
  then show "takeWhile is_digit s \<noteq> []" "digits_value 0 (takeWhile is_digit s) = unat n" by (simp_all add: unat_of_nat)
  show "s = takeWhile is_digit s @ rest" by (simp add: r)
  show "\<forall>c \<in> set (takeWhile is_digit s). is_digit c" by (auto dest: set_takeWhileD)
qed

section \<open>Names are recognised exactly\<close>

text \<open>The forms of an owned name, its number and type.\<close>

definition owned_name :: "string \<Rightarrow> 64 word \<Rightarrow> FileType \<Rightarrow> bool" where
  "owned_name s n t \<longleftrightarrow>
     n = 0 \<and> (s, t) \<in> {(''CURRENT'', kCurrentFile), (''LOCK'', kDBLockFile), (''LOG'', kInfoLogFile), (''LOG.old'', kInfoLogFile)} \<or>
     (\<exists>ds. ds \<noteq> [] \<and> (\<forall>c \<in> set ds. is_digit c) \<and> digits_value 0 ds = unat n \<and>
        (s, t) \<in> {(''MANIFEST-'' @ ds, kDescriptorFile), (ds @ ''.log'', kLogFile), (ds @ ''.sst'', kTableFile), (ds @ ''.ldb'', kTableFile),
          (ds @ ''.dbtmp'', kTempFile)})"

lemma starts_with_iff: "starts_with s x \<longleftrightarrow> (\<exists>r. s = x @ r)"
  unfolding starts_with_def by (metis append_eq_conv_conj append_take_drop_id length_append le_add1)

lemma not_digits: "\<not> is_digit (CHR ''C'')" "\<not> is_digit (CHR ''L'')" "\<not> is_digit (CHR ''M'')" "\<not> is_digit (CHR ''.'')"
  by (simp_all add: is_digit_def)

text \<open>A name that begins with a digit.\<close>

lemma Parse_digits:
  assumes "ds \<noteq> []" "\<forall>c \<in> set ds. is_digit c" "digits_value 0 ds = unat n" "r = CHR ''.'' # r'"
  shows "ParseFileName (ds @ r) =
     (if r = ''.log'' then Some (n, kLogFile) else if r = ''.sst'' \<or> r = ''.ldb'' then Some (n, kTableFile)
      else if r = ''.dbtmp'' then Some (n, kTempFile) else None)"
proof -
  obtain d ds' where ds: "ds = d # ds'" using assms(1) by (cases ds) auto
  then have "is_digit d" using assms(2) by simp
  then have "d \<noteq> CHR ''C''" "d \<noteq> CHR ''L''" "d \<noteq> CHR ''M''" using not_digits by auto
  then have "\<not> starts_with (ds @ r) ''MANIFEST-''" "ds @ r \<noteq> ''CURRENT''" "ds @ r \<noteq> ''LOCK''" "ds @ r \<noteq> ''LOG''" "ds @ r \<noteq> ''LOG.old''"
    by (auto simp: starts_with_iff ds)
  moreover have "ConsumeDecimalNumber (ds @ r) = (Some n, r)"
    by (rule Consume_digits [OF assms(1-3)]) (simp add: assms(4) not_digits)
  ultimately show ?thesis by (simp add: ParseFileName_def)
qed

lemma Parse_manifest:
  assumes "ds \<noteq> []" "\<forall>c \<in> set ds. is_digit c" "digits_value 0 ds = unat n"
  shows "ParseFileName (''MANIFEST-'' @ ds) = Some (n, kDescriptorFile)"
  using Consume_digits [OF assms, of "[]"] by (simp add: ParseFileName_def starts_with_def)

lemma ParseFileName_exact: "ParseFileName s = Some (n, t) \<longleftrightarrow> owned_name s n t"
proof
  assume p: "ParseFileName s = Some (n, t)"
  show "owned_name s n t"
  proof (cases "s \<in> {''CURRENT'', ''LOCK'', ''LOG'', ''LOG.old''}")
    case True
    then have "n = 0 \<and> (s, t) \<in> {(''CURRENT'', kCurrentFile), (''LOCK'', kDBLockFile), (''LOG'', kInfoLogFile), (''LOG.old'', kInfoLogFile)}"
      using p by (elim insertE) (simp_all add: ParseFileName_def)
    then show ?thesis unfolding owned_name_def by (rule disjI1)
  next
    case fixed: False
    show ?thesis
    proof (cases "starts_with s ''MANIFEST-''")
      case True
      then obtain r where r: "s = ''MANIFEST-'' @ r" by (auto simp: starts_with_iff)
      then have c: "ConsumeDecimalNumber r = (Some n, [])" "t = kDescriptorFile"
        using p True fixed by (auto simp: ParseFileName_def split: prod.splits option.splits if_splits)
      obtain ds where "r = ds @ []" "ds \<noteq> []" "\<forall>c \<in> set ds. is_digit c" "digits_value 0 ds = unat n" using Consume_Some [OF c(1)] .
      then show ?thesis unfolding owned_name_def r c(2) by auto
    next
      case False
      obtain num r where c: "ConsumeDecimalNumber s = (Some num, r)"
        using p fixed False by (auto simp: ParseFileName_def split: prod.splits option.splits)
      obtain ds where "s = ds @ r" "ds \<noteq> []" "\<forall>c \<in> set ds. is_digit c" "digits_value 0 ds = unat num" using Consume_Some [OF c] .
      moreover have "ParseFileName s = (if r = ''.log'' then Some (num, kLogFile) else if r = ''.sst'' \<or> r = ''.ldb'' then Some (num, kTableFile)
          else if r = ''.dbtmp'' then Some (num, kTempFile) else None)"
        using fixed False c by (simp add: ParseFileName_def)
      then have "num = n \<and> (r, t) \<in> {(''.log'', kLogFile), (''.sst'', kTableFile), (''.ldb'', kTableFile), (''.dbtmp'', kTempFile)}"
        unfolding p by (simp split: if_splits)
      ultimately show ?thesis unfolding owned_name_def by blast
    qed
  qed
next
  assume "owned_name s n t"
  then consider "n = 0" "(s, t) \<in> {(''CURRENT'', kCurrentFile), (''LOCK'', kDBLockFile), (''LOG'', kInfoLogFile), (''LOG.old'', kInfoLogFile)}"
    | ds where "ds \<noteq> []" "\<forall>c \<in> set ds. is_digit c" "digits_value 0 ds = unat n"
        "(s, t) \<in> {(''MANIFEST-'' @ ds, kDescriptorFile), (ds @ ''.log'', kLogFile), (ds @ ''.sst'', kTableFile), (ds @ ''.ldb'', kTableFile),
          (ds @ ''.dbtmp'', kTempFile)}"
    unfolding owned_name_def by blast
  then show "ParseFileName s = Some (n, t)"
  proof cases
    case 1
    then show ?thesis by (auto simp: ParseFileName_def)
  next
    case 2
    note digits = Parse_digits [OF 2(1-3) refl]
    show ?thesis
      using 2(4) Parse_manifest [OF 2(1-3)] digits [of "''log''"] digits [of "''sst''"] digits [of "''ldb''"] digits [of "''dbtmp''"]
      by (elim insertE) simp_all
  qed
qed

text \<open>The names that are made are owned names.\<close>

lemma made_names:
  "owned_name (drop (length dbname + 1) (LogFileName dbname n)) n kLogFile"
  "owned_name (drop (length dbname + 1) (TableFileName dbname n)) n kTableFile"
  "owned_name (drop (length dbname + 1) (SSTTableFileName dbname n)) n kTableFile"
  "owned_name (drop (length dbname + 1) (DescriptorFileName dbname n)) n kDescriptorFile"
  "owned_name (drop (length dbname + 1) (TempFileName dbname n)) n kTempFile"
  "owned_name (drop (length dbname + 1) (CurrentFileName dbname)) 0 kCurrentFile"
  "owned_name (drop (length dbname + 1) (LockFileName dbname)) 0 kDBLockFile"
  "owned_name (drop (length dbname + 1) (InfoLogFileName dbname)) 0 kInfoLogFile"
  "owned_name (drop (length dbname + 1) (OldInfoLogFileName dbname)) 0 kInfoLogFile"
  using decimal6_digits [of n]
  by (auto simp: owned_name_def LogFileName_def TableFileName_def SSTTableFileName_def DescriptorFileName_def TempFileName_def MakeFileName_def
      CurrentFileName_def LockFileName_def InfoLogFileName_def OldInfoLogFileName_def)

end
