(* ===== verification/Ldb_Current.thy ===== *)
theory Ldb_Current
  imports Ldb_Filename
begin

text \<open>
  Whole files (\<^verbatim>\<open>util/env.cc\<close>) and the file \<^verbatim>\<open>CURRENT\<close> that names the manifest: \<^verbatim>\<open>SetCurrentFile\<close> of \<^verbatim>\<open>db/filename.cc\<close> makes it name another one and
  the first part of \<^verbatim>\<open>VersionSet::Recover\<close> in \<^verbatim>\<open>db/version_set.cc\<close> reads it.

  The environment (\<^verbatim>\<open>leveldb/env.h\<close>) is a record of virtual functions on a state of any type; the functions of a file take the file and the state of the
  environment. \<open>env_files\<close> is what its documentation promises when any operation may fail: an operation changes no file but those it names; a new
  file is empty and an appended string is in it once the operation succeeds; a rename replaces its target if it succeeds and changes nothing
  if it fails; reads that succeed return the contents piece by piece, an empty piece only at the end.
\<close>

section \<open>Model\<close>

record ('e, 'w, 'r) Env =
  NewWritableFile :: "string \<Rightarrow> 'e \<Rightarrow> status \<times> 'w \<times> 'e"
  file_Append :: "'w \<Rightarrow> slice \<Rightarrow> 'e \<Rightarrow> status \<times> 'e"
  file_Sync :: "'w \<Rightarrow> 'e \<Rightarrow> status \<times> 'e"
  file_Close :: "'w \<Rightarrow> 'e \<Rightarrow> status \<times> 'e"
  file_delete :: "'w \<Rightarrow> 'e \<Rightarrow> 'e"
  env_DeleteFile :: "string \<Rightarrow> 'e \<Rightarrow> status \<times> 'e"
  env_RenameFile :: "string \<Rightarrow> string \<Rightarrow> 'e \<Rightarrow> status \<times> 'e"
  NewSequentialFile :: "string \<Rightarrow> 'e \<Rightarrow> status \<times> 'r \<times> 'e"
  seq_Read :: "'r \<Rightarrow> nat \<Rightarrow> 'e \<Rightarrow> status \<times> slice \<times> 'e"
  seq_delete :: "'r \<Rightarrow> 'e \<Rightarrow> 'e"

definition DoWriteStringToFile :: "('e, 'w, 'r) Env \<Rightarrow> slice \<Rightarrow> string \<Rightarrow> bool \<Rightarrow> 'e \<Rightarrow> status \<times> 'e" where
  "DoWriteStringToFile env data fname should_sync e =
     (case NewWritableFile env fname e of
        (s, f, e) \<Rightarrow>
          if \<not> is_ok s then (s, e)
          else
            (case file_Append env f data e of
               (s, e) \<Rightarrow>
                 (case if is_ok s \<and> should_sync then file_Sync env f e else (s, e) of
                    (s, e) \<Rightarrow>
                      (case if is_ok s then file_Close env f e else (s, e) of
                         (s, e) \<Rightarrow>
                           let e = file_delete env f e
                           in (s, if \<not> is_ok s then snd (env_DeleteFile env fname e) else e)))))"

definition WriteStringToFile :: "('e, 'w, 'r) Env \<Rightarrow> slice \<Rightarrow> string \<Rightarrow> 'e \<Rightarrow> status \<times> 'e" where
  "WriteStringToFile env data fname = DoWriteStringToFile env data fname False"

definition WriteStringToFileSync :: "('e, 'w, 'r) Env \<Rightarrow> slice \<Rightarrow> string \<Rightarrow> 'e \<Rightarrow> status \<times> 'e" where
  "WriteStringToFileSync env data fname = DoWriteStringToFile env data fname True"

partial_function (option) read_fragments :: "('e, 'w, 'r) Env \<Rightarrow> 'r \<Rightarrow> slice \<Rightarrow> 'e \<Rightarrow> (status \<times> slice \<times> 'e) option" where
  "read_fragments env f data e =
     (case seq_Read env f 8192 e of
        (s, fragment, e) \<Rightarrow>
          if \<not> is_ok s then Some (s, data, e)
          else if fragment = [] then Some (s, data, e)
          else read_fragments env f (data @ fragment) e)"

definition ReadFileToString :: "('e, 'w, 'r) Env \<Rightarrow> string \<Rightarrow> 'e \<Rightarrow> (status \<times> slice \<times> 'e) option" where
  "ReadFileToString env fname e =
     (case NewSequentialFile env fname e of
        (s, f, e) \<Rightarrow>
          if \<not> is_ok s then Some (s, [], e)
          else map_option (\<lambda>(s, data, e). (s, data, seq_delete env f e)) (read_fragments env f [] e))"

text \<open>A string of characters as the bytes of a slice.\<close>

definition string_bytes :: "string \<Rightarrow> slice" where
  "string_bytes s = map of_char s"

definition bytes_string :: "slice \<Rightarrow> string" where
  "bytes_string bs = map (\<lambda>b. char_of (unat b)) bs"

definition SetCurrentFile :: "('e, 'w, 'r) Env \<Rightarrow> string \<Rightarrow> 64 word \<Rightarrow> 'e \<Rightarrow> status \<times> 'e" where
  "SetCurrentFile env dbname descriptor_number e =
     (let manifest = DescriptorFileName dbname descriptor_number;
          contents = drop (length dbname + 1) manifest;
          tmp = TempFileName dbname descriptor_number
      in case WriteStringToFileSync env (string_bytes (contents @ [CHR 0x0A])) tmp e of
           (s, e) \<Rightarrow>
             (case if is_ok s then env_RenameFile env tmp (CurrentFileName dbname) e else (s, e) of
                (s, e) \<Rightarrow> (s, if \<not> is_ok s then snd (env_DeleteFile env tmp e) else e)))"

text \<open>\<^verbatim>\<open>Recover\<close> up to the name of the manifest: the error it returns, or \<^verbatim>\<open>dscname\<close>.\<close>

definition Recover_current :: "('e, 'w, 'r) Env \<Rightarrow> string \<Rightarrow> 'e \<Rightarrow> ((status + string) \<times> 'e) option" where
  "Recover_current env dbname e =
     map_option
       (\<lambda>(s, current, e).
          (if \<not> is_ok s then Inl s
           else if current = [] \<or> last current \<noteq> 10 then Inl (Corruption ''CURRENT file does not end with newline'')
           else Inr (dbname @ ''/'' @ bytes_string (butlast current)), e))
       (ReadFileToString env (CurrentFileName dbname) e)"

section \<open>What the environment promises\<close>

text \<open>The files of a state, the name of a file that is open for writing, what is left to read of one that is open for reading.\<close>

record ('e, 'w, 'r) env_view =
  v_files :: "'e \<Rightarrow> string \<rightharpoonup> slice"
  v_writes :: "'e \<Rightarrow> 'w \<Rightarrow> string option"
  v_unread :: "'e \<Rightarrow> 'r \<Rightarrow> slice"

definition changes_only :: "('e, 'w, 'r) env_view \<Rightarrow> string \<Rightarrow> 'e \<Rightarrow> 'e \<Rightarrow> bool" where
  "changes_only V f e e1 \<longleftrightarrow> (\<forall>g. g \<noteq> f \<longrightarrow> v_files V e1 g = v_files V e g)"

definition env_writes :: "('e, 'w, 'r) Env \<Rightarrow> ('e, 'w, 'r) env_view \<Rightarrow> bool" where
  "env_writes env V \<longleftrightarrow>
     (\<forall>f e s w e1. NewWritableFile env f e = (s, w, e1) \<longrightarrow>
        changes_only V f e e1 \<and> (s = OK \<longrightarrow> v_files V e1 f = Some [] \<and> v_writes V e1 w = Some f)) \<and>
     (\<forall>w d e f s e1. v_writes V e w = Some f \<longrightarrow> file_Append env w d e = (s, e1) \<longrightarrow>
        changes_only V f e e1 \<and> v_writes V e1 w = Some f \<and> (s = OK \<longrightarrow> v_files V e1 f = map_option (\<lambda>c. c @ d) (v_files V e f))) \<and>
     (\<forall>w e f s e1. v_writes V e w = Some f \<longrightarrow> file_Sync env w e = (s, e1) \<longrightarrow>
        changes_only V f e e1 \<and> v_writes V e1 w = Some f \<and> (s = OK \<longrightarrow> v_files V e1 f = v_files V e f)) \<and>
     (\<forall>w e f s e1. v_writes V e w = Some f \<longrightarrow> file_Close env w e = (s, e1) \<longrightarrow>
        changes_only V f e e1 \<and> (if s = OK then v_writes V e1 w = None \<and> v_files V e1 f = v_files V e f else v_writes V e1 w = Some f)) \<and>
     (\<forall>w e. v_writes V e w = None \<longrightarrow> v_files V (file_delete env w e) = v_files V e) \<and>
     (\<forall>w e f. v_writes V e w = Some f \<longrightarrow> changes_only V f e (file_delete env w e))"

definition env_renames :: "('e, 'w, 'r) Env \<Rightarrow> ('e, 'w, 'r) env_view \<Rightarrow> bool" where
  "env_renames env V \<longleftrightarrow>
     (\<forall>f e. changes_only V f e (snd (env_DeleteFile env f e))) \<and>
     (\<forall>f g e s e1. f \<noteq> g \<longrightarrow> env_RenameFile env f g e = (s, e1) \<longrightarrow>
        v_files V e1 = (if s = OK then (v_files V e)(g := v_files V e f, f := None) else v_files V e))"

definition env_reads :: "('e, 'w, 'r) Env \<Rightarrow> ('e, 'w, 'r) env_view \<Rightarrow> bool" where
  "env_reads env V \<longleftrightarrow>
     (\<forall>f e r e1. NewSequentialFile env f e = (OK, r, e1) \<longrightarrow> v_files V e f = Some (v_unread V e1 r)) \<and>
     (\<forall>r n e result e1. seq_Read env r n e = (OK, result, e1) \<longrightarrow>
        v_unread V e r = result @ v_unread V e1 r \<and> (result = [] \<longrightarrow> v_unread V e r = [] \<or> n = 0))"

definition env_files :: "('e, 'w, 'r) Env \<Rightarrow> ('e, 'w, 'r) env_view \<Rightarrow> bool" where
  "env_files env V \<longleftrightarrow> env_writes env V \<and> env_renames env V \<and> env_reads env V"

section \<open>The switch to another manifest\<close>

lemma changes_only_refl [simp]: "changes_only V f e e"
  by (simp add: changes_only_def)

lemma changes_only_trans: "changes_only V f e e1 \<Longrightarrow> changes_only V f e1 e2 \<Longrightarrow> changes_only V f e e2"
  by (simp add: changes_only_def)

lemma env_writesD:
  assumes "env_files env V"
  shows "NewWritableFile env f e = (s, w, e1) \<Longrightarrow> changes_only V f e e1 \<and> (s = OK \<longrightarrow> v_files V e1 f = Some [] \<and> v_writes V e1 w = Some f)"
    and "v_writes V e w = Some f \<Longrightarrow> file_Append env w d e = (s, e1) \<Longrightarrow>
      changes_only V f e e1 \<and> v_writes V e1 w = Some f \<and> (s = OK \<longrightarrow> v_files V e1 f = map_option (\<lambda>c. c @ d) (v_files V e f))"
    and "v_writes V e w = Some f \<Longrightarrow> file_Sync env w e = (s, e1) \<Longrightarrow>
      changes_only V f e e1 \<and> v_writes V e1 w = Some f \<and> (s = OK \<longrightarrow> v_files V e1 f = v_files V e f)"
    and "v_writes V e w = Some f \<Longrightarrow> file_Close env w e = (s, e1) \<Longrightarrow>
      changes_only V f e e1 \<and> (if s = OK then v_writes V e1 w = None \<and> v_files V e1 f = v_files V e f else v_writes V e1 w = Some f)"
    and "v_writes V e w = None \<Longrightarrow> v_files V (file_delete env w e) = v_files V e"
    and "v_writes V e w = Some f \<Longrightarrow> changes_only V f e (file_delete env w e)"
proof goal_cases
  note w = assms [unfolded env_files_def env_writes_def, THEN conjunct1]
  {
    case 1
    then show ?case by (rule w [THEN conjunct1, rule_format])
  next
    case 2
    then show ?case by (rule w [THEN conjunct2, THEN conjunct1, rule_format])
  next
    case 3
    then show ?case by (rule w [THEN conjunct2, THEN conjunct2, THEN conjunct1, rule_format])
  next
    case 4
    then show ?case by (rule w [THEN conjunct2, THEN conjunct2, THEN conjunct2, THEN conjunct1, rule_format])
  next
    case 5
    then show ?case by (rule w [THEN conjunct2, THEN conjunct2, THEN conjunct2, THEN conjunct2, THEN conjunct1, rule_format])
  next
    case 6
    then show ?case by (rule w [THEN conjunct2, THEN conjunct2, THEN conjunct2, THEN conjunct2, THEN conjunct2, rule_format])
  }
qed

lemma env_renamesD:
  assumes "env_files env V"
  shows "changes_only V f e (snd (env_DeleteFile env f e))"
    and "f \<noteq> g \<Longrightarrow> env_RenameFile env f g e = (s, e1) \<Longrightarrow>
      v_files V e1 = (if s = OK then (v_files V e)(g := v_files V e f, f := None) else v_files V e)"
  using assms unfolding env_files_def env_renames_def by blast+

lemma env_readsD:
  assumes "env_files env V"
  shows "NewSequentialFile env f e = (OK, r, e1) \<Longrightarrow> v_files V e f = Some (v_unread V e1 r)"
    and "seq_Read env r n e = (OK, result, e1) \<Longrightarrow> v_unread V e r = result @ v_unread V e1 r \<and> (result = [] \<longrightarrow> v_unread V e r = [] \<or> n = 0)"
  using assms unfolding env_files_def env_reads_def by blast+

text \<open>Closing a file that has been written so far, and what is left on the disk.\<close>

lemma close_written:
  assumes env: "env_files env V" and w: "v_writes V e w = Some f"
    and c: "(if is_ok s then file_Close env w e else (s, e)) = (s1, e1)"
    and r: "e2 = (let e = file_delete env w e1 in if \<not> is_ok s1 then snd (env_DeleteFile env f e) else e)"
  shows "changes_only V f e e2 \<and> (s1 = OK \<longrightarrow> s = OK \<and> v_files V e2 f = v_files V e f)"
proof (cases "s = OK")
  case True
  then have "file_Close env w e = (s1, e1)" using c by simp
  from env_writesD(4) [OF env w this] show ?thesis
    using env_writesD(5,6) [OF env] env_renamesD(1) [OF env] unfolding r Let_def
    by (cases "s1 = OK") (auto simp: is_ok_def changes_only_def True)
next
  case False
  then have "s1 = s" "e1 = e" using c by (simp_all add: is_ok_def)
  then show ?thesis using False env_writesD(6) [OF env w] env_renamesD(1) [OF env] unfolding r Let_def by (auto simp: is_ok_def changes_only_def)
qed

lemma DoWriteStringToFile_ok:
  assumes env: "env_files env V" and d: "DoWriteStringToFile env data fname should_sync e = (s, e1)"
  shows "changes_only V fname e e1 \<and> (s = OK \<longrightarrow> v_files V e1 fname = Some data)"
proof -
  obtain s1 w e2 where n: "NewWritableFile env fname e = (s1, w, e2)" by (metis prod_cases3)
  note new = env_writesD(1) [OF env n]
  show ?thesis
  proof (cases "s1 = OK")
    case False
    then show ?thesis using d n new by (simp add: DoWriteStringToFile_def is_ok_def)
  next
    case True
    with new have w: "v_writes V e2 w = Some fname" "v_files V e2 fname = Some []" by auto
    obtain s2 e3 where a: "file_Append env w data e2 = (s2, e3)" by (metis surj_pair)
    note app = env_writesD(2) [OF env w(1) a]
    obtain s3 e4 where sy: "(if is_ok s2 \<and> should_sync then file_Sync env w e3 else (s2, e3)) = (s3, e4)" by (metis surj_pair)
    have sync: "changes_only V fname e3 e4 \<and> v_writes V e4 w = Some fname \<and> (s3 = OK \<longrightarrow> s2 = OK \<and> v_files V e4 fname = v_files V e3 fname)"
      using sy env_writesD(3) [OF env, of e3 w fname] app by (auto simp: is_ok_def split: if_splits)
    obtain s4 e5 where cl: "(if is_ok s3 then file_Close env w e4 else (s3, e4)) = (s4, e5)" by (metis surj_pair)
    have e1: "s = s4" "e1 = (let e = file_delete env w e5 in if \<not> is_ok s4 then snd (env_DeleteFile env fname e) else e)"
      using d n True a sy cl unfolding DoWriteStringToFile_def Let_def by (auto split: if_splits)
    have "changes_only V fname e4 e1 \<and> (s4 = OK \<longrightarrow> s3 = OK \<and> v_files V e1 fname = v_files V e4 fname)"
      by (rule close_written [OF env _ cl e1(2)]) (use sync in blast)
    then show ?thesis using new app sync w(2) e1(1) by (auto intro: changes_only_trans)
  qed
qed

lemma tmp_not_current: "TempFileName dbname n \<noteq> CurrentFileName dbname"
proof -
  obtain d ds where d: "decimal6 n = d # ds" "is_digit d" using decimal6_digits [of n] by (cases "decimal6 n") auto
  then show ?thesis using not_digits(1) by (auto simp: TempFileName_def CurrentFileName_def MakeFileName_def)
qed

lemma SetCurrentFile_switches:
  assumes env: "env_files env V" and c: "SetCurrentFile env dbname n e = (s, e1)"
  shows "if s = OK
    then v_files V e1 = (v_files V e)(CurrentFileName dbname \<mapsto> string_bytes (drop (length dbname + 1) (DescriptorFileName dbname n) @ [CHR 0x0A]),
           TempFileName dbname n := None)
    else changes_only V (TempFileName dbname n) e e1"
proof -
  let ?tmp = "TempFileName dbname n" and ?data = "string_bytes (drop (length dbname + 1) (DescriptorFileName dbname n) @ [CHR 0x0A])"
  obtain s2 e2 where w: "DoWriteStringToFile env ?data ?tmp True e = (s2, e2)" by (metis surj_pair)
  note written = DoWriteStringToFile_ok [OF env w]
  obtain s3 e3 where r: "(if is_ok s2 then env_RenameFile env ?tmp (CurrentFileName dbname) e2 else (s2, e2)) = (s3, e3)" by (metis surj_pair)
  have s: "s = s3" "e1 = (if \<not> is_ok s3 then snd (env_DeleteFile env ?tmp e3) else e3)"
    using c w r unfolding SetCurrentFile_def WriteStringToFileSync_def Let_def by (auto split: if_splits)
  show ?thesis
  proof (cases "s2 = OK")
    case False
    then have "s3 = s2" "e3 = e2" using r by (simp_all add: is_ok_def)
    then show ?thesis using False s written env_renamesD(1) [OF env, of ?tmp e2] by (auto simp: is_ok_def intro: changes_only_trans)
  next
    case True
    then have "env_RenameFile env ?tmp (CurrentFileName dbname) e2 = (s3, e3)" using r by simp
    note renamed = env_renamesD(2) [OF env tmp_not_current this]
    show ?thesis
    proof (cases "s3 = OK")
      case True
      then have "v_files V e1 = (v_files V e2)(CurrentFileName dbname := Some ?data, ?tmp := None)"
        using renamed written \<open>s2 = OK\<close> s(2) by simp
      moreover have "v_files V e2 g = v_files V e g" if "g \<noteq> ?tmp" for g using that written by (simp add: changes_only_def)
      ultimately show ?thesis using True s(1) by (auto intro: ext)
    next
      case False
      then have "changes_only V ?tmp e2 e3" using renamed by (simp add: changes_only_def)
      then show ?thesis using False s written env_renamesD(1) [OF env, of ?tmp e3] by (auto simp: is_ok_def intro: changes_only_trans)
    qed
  qed
qed

section \<open>Reading\<close>

text \<open>Reading a file returns; if it succeeds, it returns the contents.\<close>

lemma read_fragments_returns:
  assumes "env_files env V"
  shows "\<exists>s rest e1. read_fragments env r data e = Some (s, data @ rest, e1) \<and> (s = OK \<longrightarrow> rest = v_unread V e r)"
proof (induction "length (v_unread V e r)" arbitrary: e data rule: less_induct)
  case less
  obtain s result e1 where r: "seq_Read env r 8192 e = (s, result, e1)" by (metis prod_cases3)
  show ?case
  proof (cases "s = OK \<and> result \<noteq> []")
    case False
    then show ?thesis using r env_readsD(2) [OF assms, of r 8192 e result e1]
      by (subst read_fragments.simps) (auto simp: is_ok_def)
  next
    case True
    then have u: "v_unread V e r = result @ v_unread V e1 r" using r env_readsD(2) [OF assms, of r 8192 e result e1] by simp
    then have "length (v_unread V e1 r) < length (v_unread V e r)" using True by simp
    from less [OF this, of "data @ result"] show ?thesis using True r u by (subst read_fragments.simps) auto
  qed
qed

lemma ReadFileToString_returns:
  assumes "env_files env V"
  shows "\<exists>s data e1. ReadFileToString env f e = Some (s, data, e1) \<and> (s = OK \<longrightarrow> v_files V e f = Some data)"
proof -
  obtain s r e1 where n: "NewSequentialFile env f e = (s, r, e1)" by (metis prod_cases3)
  show ?thesis
  proof (cases "s = OK")
    case True
    obtain s2 data e2 where "read_fragments env r [] e1 = Some (s2, data, e2)" "s2 = OK \<longrightarrow> data = v_unread V e1 r"
      using read_fragments_returns [OF assms, of r "[]" e1] by auto
    then show ?thesis using n True env_readsD(1) [OF assms, of f e r e1] by (simp add: ReadFileToString_def)
  qed (use n in \<open>simp add: ReadFileToString_def is_ok_def\<close>)
qed

lemma bytes_string_of: "bytes_string (string_bytes s) = s"
  by (simp add: bytes_string_def string_bytes_def comp_def unat_of_char)

lemma DescriptorFileName_parts: "dbname @ ''/'' @ drop (length dbname + 1) (DescriptorFileName dbname n) = DescriptorFileName dbname n"
  by (simp add: DescriptorFileName_def)

lemma Recover_current_finds:
  assumes env: "env_files env V"
    and f: "v_files V e (CurrentFileName dbname) = Some (string_bytes (drop (length dbname + 1) (DescriptorFileName dbname n) @ [CHR 0x0A]))"
  obtains res e1 where "Recover_current env dbname e = Some (res, e1)" "(\<exists>s. s \<noteq> OK \<and> res = Inl s) \<or> res = Inr (DescriptorFileName dbname n)"
proof -
  obtain s data e1 where r: "ReadFileToString env (CurrentFileName dbname) e = Some (s, data, e1)"
    and d: "s = OK \<longrightarrow> v_files V e (CurrentFileName dbname) = Some data" using ReadFileToString_returns [OF env] by blast
  let ?m = "drop (length dbname + 1) (DescriptorFileName dbname n)"
  have "string_bytes (?m @ [CHR 0x0A]) = string_bytes ?m @ [10]" by (simp add: string_bytes_def)
  then have "data = string_bytes ?m @ [10]" if "s = OK" using that d f by simp
  then show ?thesis
    using that r DescriptorFileName_parts [of dbname n]
    by (cases "s = OK") (auto simp: Recover_current_def is_ok_def bytes_string_of)
qed

section \<open>Files in memory\<close>

text \<open>An environment whose operations fail as a given sequence says; a name is open for writing or not, one file is open for reading.\<close>

record mem_fs =
  m_files :: "string \<rightharpoonup> slice"
  m_open :: "string \<Rightarrow> bool"
  m_reading :: slice
  m_faults :: "bool list"

definition mem_try :: "(mem_fs \<Rightarrow> mem_fs) \<Rightarrow> mem_fs \<Rightarrow> status \<times> mem_fs" where
  "mem_try f e =
     (let e1 = e\<lparr>m_faults := tl (m_faults e)\<rparr>
      in if m_faults e \<noteq> [] \<and> hd (m_faults e) then (IOError ''fault'', e1) else (OK, f e1))"

definition mem_env :: "(mem_fs, string, unit) Env" where
  "mem_env =
     \<lparr>NewWritableFile = \<lambda>f e. (case mem_try (\<lambda>e. e\<lparr>m_files := (m_files e)(f \<mapsto> []), m_open := (m_open e)(f := True)\<rparr>) e of (s, e1) \<Rightarrow> (s, f, e1)),
      file_Append = \<lambda>f d. mem_try (\<lambda>e. e\<lparr>m_files := (m_files e)(f := map_option (\<lambda>c. c @ d) (m_files e f))\<rparr>),
      file_Sync = \<lambda>f. mem_try (\<lambda>e. e),
      file_Close = \<lambda>f. mem_try (\<lambda>e. e\<lparr>m_open := (m_open e)(f := False)\<rparr>),
      file_delete = \<lambda>f e. e\<lparr>m_open := (m_open e)(f := False)\<rparr>,
      env_DeleteFile = \<lambda>f. mem_try (\<lambda>e. e\<lparr>m_files := (m_files e)(f := None)\<rparr>),
      env_RenameFile = \<lambda>f g. mem_try (\<lambda>e. e\<lparr>m_files := (m_files e)(g := m_files e f, f := None)\<rparr>),
      NewSequentialFile = \<lambda>f e.
        (case m_files e f of
           None \<Rightarrow> (NotFound f, (), e)
         | Some c \<Rightarrow> (case mem_try (\<lambda>e. e\<lparr>m_reading := c\<rparr>) e of (s, e1) \<Rightarrow> (s, (), e1))),
      seq_Read = \<lambda>r n e. (case mem_try (\<lambda>e. e\<lparr>m_reading := drop n (m_reading e)\<rparr>) e of (s, e1) \<Rightarrow> (s, take n (m_reading e), e1)),
      seq_delete = \<lambda>r e. e\<rparr>"

definition mem_view :: "(mem_fs, string, unit) env_view" where
  "mem_view = \<lparr>v_files = m_files, v_writes = \<lambda>e f. if m_open e f then Some f else None, v_unread = \<lambda>e r. m_reading e\<rparr>"

lemma mem_env_files: "env_files mem_env mem_view"
  unfolding env_files_def
proof (intro conjI)
  show "env_writes mem_env mem_view"
    unfolding env_writes_def by (auto simp: mem_env_def mem_view_def mem_try_def changes_only_def Let_def split: if_splits)
  show "env_renames mem_env mem_view"
    unfolding env_renames_def by (auto simp: mem_env_def mem_view_def mem_try_def changes_only_def Let_def split: if_splits)
  show "env_reads mem_env mem_view"
    unfolding env_reads_def
    by (auto simp: mem_env_def mem_view_def mem_try_def Let_def split: if_splits option.splits)
qed

end
