(* ===== verification/Spec2Isabelle.thy ===== *)
theory Spec2Isabelle
  imports Log_Example Base64 Pb_Decode_Parts Ldb_Log Ldb_Example Ldb_Batch Ldb_Db_View Ldb_Version Ldb_Current
begin

text \<open>
  The C code of a chat application's data path. The application (Swift, over the Firebase client libraries) has no
  C code of its own; the C code it is built from encodes and decodes what the client libraries send and store:

  \<^item> nanopb (\<^verbatim>\<open>Pods/nanopb\<close>), the protocol buffers runtime: \<^verbatim>\<open>pb_common.c\<close> walks a message's descriptor table,
    \<^verbatim>\<open>pb_encode.c\<close> writes a C structure as a byte stream, \<^verbatim>\<open>pb_decode.c\<close> reads one back;
  \<^item> the generated messages of the log uploader (\<^verbatim>\<open>cct.nanopb.c/.h\<close>) and of core diagnostics
    (\<^verbatim>\<open>firebasecore.nanopb.c/.h\<close>): enumerations, structures, descriptor tables and tags for nanopb;
  \<^item> the base-64 codec of the realtime database's web socket (\<^verbatim>\<open>fbase64.c\<close>);
  \<^item> leveldb (\<^verbatim>\<open>Pods/leveldb-library\<close>), the key-value store in which the database client keeps its local copy. Its log
    and its tables are sequences of bytes in files: encodings and a checksum (\<^verbatim>\<open>util/coding.cc\<close>, \<^verbatim>\<open>util/crc32c.cc\<close>), the write-ahead
    log (\<^verbatim>\<open>db/log_writer.cc\<close>, \<^verbatim>\<open>db/log_reader.cc\<close>), the filters that save reading tables (\<^verbatim>\<open>util/bloom.cc\<close>,
    \<^verbatim>\<open>table/filter_block.cc\<close>), keys and their order (\<^verbatim>\<open>util/comparator.cc\<close>, \<^verbatim>\<open>db/dbformat.cc\<close>), the sorted blocks and tables
    (\<^verbatim>\<open>table/block*.cc\<close>, \<^verbatim>\<open>table/format.cc\<close>, \<^verbatim>\<open>table/table*.cc\<close>) and the cache of blocks (\<^verbatim>\<open>util/cache.cc\<close>). New entries come as
    batches (\<^verbatim>\<open>db/write_batch.cc\<close>), which are logged and inserted into a memory table, a skip list (\<^verbatim>\<open>db/memtable.cc\<close>, \<^verbatim>\<open>db/skiplist.h\<close>).
    Reading in order goes through iterators: of a memory table, merging several (\<^verbatim>\<open>table/merger.cc\<close>), and of the database, which shows the
    newest entries only (\<^verbatim>\<open>db/db_iter.cc\<close>). Which table files there are is a version, a list of files per level (\<^verbatim>\<open>db/version_set.cc\<close>); its changes are
    edits in a manifest (\<^verbatim>\<open>db/version_edit.cc\<close>), and the file \<^verbatim>\<open>CURRENT\<close> names the manifest (\<^verbatim>\<open>db/filename.cc\<close>, \<^verbatim>\<open>util/env.cc\<close>).

  \<^bold>\<open>The theories.\<close> \<open>Nanopb_Prelude\<close> has the memory (a function from integer addresses to bytes, little endian loads and
  stores) and the lemmas on words and lists the components share. \<open>Pb_Types\<close> is \<^verbatim>\<open>pb.h\<close>: field types, descriptors
  (\<open>pb_field_t\<close>), wire types, in-memory layouts, error macros; \<open>Pb_Fields\<close> its macros that build descriptors from a C
  structure's layout. \<open>Pb_Common\<close> is the field iterator. \<open>Pb_Encode_Basic\<close> has the output streams (a bounded buffer, the
  sizing stream, a user's callback) and the scalar encoders, \<open>Pb_Encode\<close> the field encoders and \<open>pb_encode\<close>.
  \<open>Pb_Wire\<close> and \<open>Pb_Encode_Spec\<close> are the specification: the wire form of a message as a list of bytes, and the proof that
  the encoder writes it. \<open>Pb_Decode_Basic\<close> has the input streams, varints, tags, skipping and substreams,
  \<open>Pb_Decode\<close> the field decoders, allocation, default values, release and \<open>pb_decode\<close> on a \<open>world\<close> of memory and allocated
  blocks. \<open>Pb_Decode_Safety\<close>, \<open>Pb_Decode_Stream\<close> show that no operation reads past its stream, \<open>Pb_Decode_Total\<close> that the decoder
  returns, \<open>Pb_Decode_Frame\<close> that it writes only inside the structure, \<open>Pb_Decode_Parts\<close> what allocation and the required
  field bitmap do. \<open>Cct\<close> has the generated messages, \<open>Cct_Tables\<close> that they fit the codec, \<open>Log_Example\<close> concrete messages. \<open>Base64\<close>
  is the base-64 codec. \<open>Ldb_Coding\<close> has leveldb's encodings and the contract \<open>codec\<close> that its writers and parsers meet,
  \<open>Ldb_Crc\<close> the checksum and its bit-serial specification, \<open>Ldb_Env\<close> the status values and the files as interfaces,
  \<open>Ldb_Log\<close> the log's writer and reader, \<open>Ldb_Filter\<close> the hash, the Bloom filter, the contract \<open>filter_policy\<close> and the
  filter block. \<open>Ldb_Key\<close> has the comparators, with the contracts \<open>comparator\<close> and \<open>user_comparator\<close>, and the internal keys; \<open>Ldb_Block\<close> the
  builder and the iterator of a block; \<open>Ldb_Format\<close> handles, footer and the reading of a block; \<open>Ldb_Table\<close> the builder and the
  reader of a table and the contract \<open>block_cache\<close>, \<open>Ldb_Table_Build\<close> the bytes that the builder writes and \<open>Ldb_Table_Read\<close> what the
  reader finds in them; \<open>Ldb_Cache\<close> the cache, which meets the contract; \<open>Ldb_Example\<close> a concrete table.
  \<open>Ldb_Skiplist\<close> has the skip list and the contract \<open>key_order\<close> of its comparator, \<open>Ldb_Memtable\<close> the memory table, whose comparator meets
  it, \<open>Ldb_Batch\<close> the write batches. \<open>Ldb_Iterator\<close> has the interface of iterators, their wrapper and the contract \<open>sorted_iterator\<close>: an iterator
  is a position in a sorted list; \<open>Ldb_Mem_Iterator\<close>, \<open>Ldb_Merger\<close> and \<open>Ldb_Db_Iter\<close> have the iterator of a memory table, the merging iterator and that of
  the database, which meet the contract (the last two over iterators that meet it), and \<open>Ldb_Db_View\<close> composes them.
  \<open>Ldb_Version_Edit\<close> has the edits, \<open>Ldb_Version\<close> the searches over the files of a version, \<open>Ldb_Filename\<close> the names of files and the numbers in
  them, \<open>Ldb_Current\<close> the operations on whole files and the file \<^verbatim>\<open>CURRENT\<close>, over an environment that is a parameter (\<open>env_files\<close> is what it promises).

  \<^bold>\<open>Conventions.\<close> Integers keep their C width as words; \<^verbatim>\<open>size_t\<close> has 64 bits and \<^verbatim>\<open>pb_size_t\<close> 32 (the build defines
  \<^verbatim>\<open>PB_FIELD_32BIT\<close>, \<^verbatim>\<open>PB_NO_PACKED_STRUCTS\<close> and \<^verbatim>\<open>PB_ENABLE_MALLOC\<close>). An operation that returns false and sets the stream's message is a
  pair of a boolean and the changed stream. \<open>None\<close> stands for not returning or for undefined behaviour (recursion that runs out of
  depth, a descriptor without an encoder). Recursion over submessages has a depth argument: the tables of a message are
  finitely nested and \<open>tables_ok\<close>, \<open>decodable\<close> say that the depth is enough; loops over a table are bounded by its
  length and loops over input by the bytes left, each with a lemma that the bound is never reached. User callbacks
  and the allocator are parameters with named hypotheses (\<open>callbacks_render\<close>, \<open>callbacks_progress\<close>, \<open>callbacks_within\<close>, \<open>heap_valid\<close>).

  \<^bold>\<open>What is shown.\<close> Encoding: the encoder writes exactly the wire form, fails cleanly when it does not fit or when the
  structure has none, and the size computation agrees (C1 to C5). Round trips of varints, zig-zag integers, tags and fixed
  width values (C6). Decoding: on every input the decoder returns, stays within the input and, for
  structures without pointers, within the structure (C10 to C12); allocation does not overflow (C22), the required fields are
  checked exactly (C23), the iterator follows the structure's layout (C13, C14) and unknown fields are skipped exactly
  (C15). Generated messages: tables, structures, tags and size constants agree (C16, C18). Base-64: the encoder refines the
  RFC's text, the decoder is safe, and they are inverse (C19 to C21). leveldb: varints and prefixed strings round trip (C24); the
  table-driven checksum is CRC-32C (C25); records written to a log are read back in order, and the reader returns on
  every file (C26, C27); neither a Bloom filter nor a filter block denies a key that was added (C28, C29);
  internal keys are ordered by user key and falling sequence number, and shortened keys still separate (C30, C31); a block's entries are
  read back in both directions and found by \<open>Seek\<close> (C32, C33); a table answers lookups through index, filter and cache, and a
  damaged block is refused (C34, C35); the cache keeps its lists and counters right and is an association bounded by its capacity (C36, C37);
  a write batch is read back as it was written, and a memory table answers a lookup with the newest entry (C38, C39); the
  iterator of the database over merged memory tables behaves as a position in the list of the newest values, in every sequence of
  calls (C40). A version edit is read back as it was written (C7); file names are recognised exactly (C8); the switch to another manifest
  is atomic whichever operations of the environment fail (C9); the searches over the files of a version return and are exact (C17).

  \<^bold>\<open>Not modelled.\<close> The Swift application and the Objective-C client libraries (no C logic); the descriptor macros for extensions,
  fixed count arrays and oneofs, which no generated table uses (the codec's handling of such fields is modelled); the
  initializer macros of the generated headers; the rest of leveldb (iterators over tables,
  the building and counting of versions and compactions, which work on shared objects beside threads and the file system, the database with its threads,
  the operating system layer, debug strings); code compiled only on other configurations (no 64-bit integers, AVR).
\<close>

section \<open>Encoding messages\<close>

lemma clean_from_buffer:
  "unat n \<le> length buf \<Longrightarrow> clean (pb_ostream_from_buffer buf n)"
  by (simp add: clean_def pb_ostream_from_buffer_def)

lemma fits_from_buffer: "fits (pb_ostream_from_buffer buf n) k \<longleftrightarrow> k \<le> unat n"
  by (simp add: fits_def pb_ostream_from_buffer_def)

lemma put_from_buffer:
  assumes "length bs \<le> length buf"
  shows "put_bytes bs (pb_ostream_from_buffer buf n) =
     \<lparr>sink = Buffer (bs @ drop (length bs) buf) (length bs), max_size = n,
      bytes_written = of_nat (length bs), o_errmsg = None\<rparr>"
  using assms copy_loop_eq [of 0 bs buf] by (simp add: put_bytes_def pb_ostream_from_buffer_def)

lemma renders_into_buffer:
  assumes "renders f (Some bs)" "length bs \<le> unat n" "unat n \<le> length buf"
  shows "f (pb_ostream_from_buffer buf n) =
     Some (True, \<lparr>sink = Buffer (bs @ drop (length bs) buf) (length bs), max_size = n,
                  bytes_written = of_nat (length bs), o_errmsg = None\<rparr>)"
proof -
  let ?s = "pb_ostream_from_buffer buf n :: 'a pb_ostream"
  have "unat n < 2 ^ 64" using unsigned_less [of n] by simp
  then have "the (f ?s) = (True, put_bytes bs ?s)"
    using assms by (intro emitsD [OF renders_emits [OF assms(1)]] clean_from_buffer)
      (simp_all add: fits_from_buffer, simp add: pb_ostream_from_buffer_def)
  moreover have "f ?s = Some (the (f ?s))" using renders_total [OF assms(1), of ?s] by simp
  ultimately show ?thesis using assms(2,3) put_from_buffer [of bs buf n] by simp
qed

text \<open>
  C1. Encoding a message into a buffer that has room for it succeeds and leaves exactly the wire form
  of the message at the start of the buffer, the rest of the buffer as it was, and the length of
  the wire form in \<open>bytes_written\<close>. This covers nested submessages, packed and unpacked arrays,
  optional, required and oneof fields, static and allocated data, and callback fields.
\<close>

theorem encode_message_to_buffer:
  assumes "tables_ok depth (tables env) fs" "callbacks_render env cbw"
    and "message_wire depth (mem env) (tables env) cbw fs src = Some bs"
    and "length bs \<le> unat n" "unat n \<le> length buf"
  shows "Pb_Encode.pb_encode depth env (pb_ostream_from_buffer buf n) fs src =
     Some (True, \<lparr>sink = Buffer (bs @ drop (length bs) buf) (length bs), max_size = n,
                  bytes_written = of_nat (length bs), o_errmsg = None\<rparr>)"
  using renders_into_buffer [OF renders_pb_encode [OF assms(1,2), of src, unfolded assms(3)] assms(4,5)] .

theorem encode_message_to_buffer_witness:
  "pb_encode 3 log_env (pb_ostream_from_buffer [0xEE, 0xEE, 0xEE, 0xEE, 0xEE] 5) gdt_cct_LogResponse_fields 0x10000 =
     Some (True, \<lparr>sink = Buffer [0x08, 0xAC, 0x02, 0xEE, 0xEE] 3, max_size = 5,
                  bytes_written = 3, o_errmsg = None\<rparr>)"
  using encode_message_to_buffer [of 3 log_env gdt_cct_LogResponse_fields varint_callback_wire "0x10000"
      log_response_wire 5 "[0xEE, 0xEE, 0xEE, 0xEE, 0xEE]"] log_tables_ok log_wire log_callbacks
  by (simp add: log_response_wire_def)

text \<open>
  C2. Encoding a message into a buffer that is too small returns false, has written a prefix of the
  wire form that fits, and has not touched the buffer behind it.
\<close>

theorem encode_message_overflow:
  assumes "tables_ok depth (tables env) fs" "callbacks_render env cbw"
    and "message_wire depth (mem env) (tables env) cbw fs src = Some bs"
    and "unat n < length bs" "length bs < 2 ^ 64" "unat n \<le> length buf"
  shows "\<exists>bs' s'. Pb_Encode.pb_encode depth env (pb_ostream_from_buffer buf n) fs src = Some (False, s') \<and>
     prefix bs' bs \<and> length bs' \<le> unat n \<and>
     sink s' = Buffer (bs' @ drop (length bs') buf) (length bs')"
proof -
  let ?s = "pb_ostream_from_buffer buf n :: 'a pb_ostream" and ?f = "\<lambda>s. Pb_Encode.pb_encode depth env s fs src"
  have r: "renders ?f (Some bs)" using renders_pb_encode [OF assms(1,2), of src] assms(3) by simp
  obtain bs' e where p: "prefix bs' bs" "fits ?s (length bs')"
    "the (?f ?s) = (False, (put_bytes bs' ?s)\<lparr>o_errmsg := e\<rparr>)"
  proof (rule produces_fullD [OF renders_emits [OF r]])
    show "clean ?s" using assms(6) by (rule clean_from_buffer)
    show "unat (bytes_written ?s) + length bs < 2 ^ 64" using assms(5) by (simp add: pb_ostream_from_buffer_def)
    show "\<not> fits ?s (length bs)" using assms(4) by (simp add: fits_from_buffer)
  qed
  have le: "length bs' \<le> unat n" using p(2) by (simp add: fits_from_buffer)
  then show ?thesis
    using p renders_total [OF r, of ?s] assms(6)
    by (intro exI [of _ bs'] exI [of _ "(put_bytes bs' ?s)\<lparr>o_errmsg := e\<rparr>"]) (auto simp: put_from_buffer)
qed

theorem encode_message_overflow_witness:
  "\<exists>bs' s'. pb_encode 3 log_env (pb_ostream_from_buffer [0xEE, 0xEE, 0xEE] 2) gdt_cct_LogResponse_fields 0x10000 =
       Some (False, s') \<and> prefix bs' log_response_wire \<and> length bs' \<le> 2 \<and>
     sink s' = Buffer (bs' @ drop (length bs') [0xEE, 0xEE, 0xEE]) (length bs')"
  using encode_message_overflow [of 3 log_env gdt_cct_LogResponse_fields varint_callback_wire "0x10000"
      log_response_wire 2 "[0xEE, 0xEE, 0xEE]"] log_tables_ok log_wire log_callbacks
  by (simp add: log_response_wire_def)

text \<open>
  C3. A structure that has no wire form (a broken descriptor, an array or byte string longer than its
  bound, a missing required field) is rejected: the encoder returns, and returns false, on every
  output stream.
\<close>

theorem encode_rejects_invalid:
  assumes "tables_ok depth (tables env) fs" "callbacks_render env cbw"
    and "message_wire depth (mem env) (tables env) cbw fs src = None"
  shows "\<exists>s'. Pb_Encode.pb_encode depth env s fs src = Some (False, s')"
proof -
  have r: "renders (\<lambda>s. Pb_Encode.pb_encode depth env s fs src) None"
    using renders_pb_encode [OF assms(1,2), of src] assms(3) by simp
  obtain ok s' where "Pb_Encode.pb_encode depth env s fs src = Some (ok, s')"
    using renders_total [OF r, of s] by auto
  with renders_fail [OF r, of s] show ?thesis by simp
qed

theorem encode_rejects_invalid_witness:
  "\<exists>s'. pb_encode 3 log_env PB_OSTREAM_SIZING broken_fields 0x10000 = Some (False, s')"
  using encode_rejects_invalid [of 3 log_env broken_fields varint_callback_wire "0x10000" PB_OSTREAM_SIZING]
    broken_ok broken_wire log_callbacks by simp

text \<open>
  C4. \<open>pb_get_encoded_size\<close> returns the exact length of the wire form, the number of bytes that encoding
  the same message into a buffer writes.
\<close>

theorem encoded_size_exact:
  assumes "tables_ok depth (tables env) fs" "callbacks_render env cbw"
    and "message_wire depth (mem env) (tables env) cbw fs src = Some bs" "length bs < 2 ^ 64"
  shows "pb_get_encoded_size depth env fs src = Some (True, Some (of_nat (length bs)))"
  by (rule get_encoded_size_wire [OF assms])

theorem encoded_size_exact_witness:
  "pb_get_encoded_size 3 log_env gdt_cct_LogResponse_fields 0x10000 = Some (True, Some 3)"
  using encoded_size_exact [of 3 log_env gdt_cct_LogResponse_fields varint_callback_wire "0x10000" log_response_wire]
    log_tables_ok log_wire log_callbacks by (simp add: log_response_wire_def)

text \<open>
  C5. A delimited message is the length of its wire form as a varint, followed by the wire form: the
  size that the first pass computes is the size the second pass writes.
\<close>

theorem encode_delimited_to_buffer:
  assumes "tables_ok depth (tables env) fs" "callbacks_render env cbw"
    and "message_wire depth (mem env) (tables env) cbw fs src = Some bs"
    and "out = varint_wire (length bs) @ bs" "length out \<le> unat n" "unat n \<le> length buf"
  shows "pb_encode_delimited depth env (pb_ostream_from_buffer buf n) fs src =
     Some (True, \<lparr>sink = Buffer (out @ drop (length out) buf) (length out), max_size = n,
                  bytes_written = of_nat (length out), o_errmsg = None\<rparr>)"
proof -
  have "renders (\<lambda>s. pb_encode_delimited depth env s fs src) (map_option delimited (Some bs))"
    unfolding pb_encode_delimited_def
    by (rule renders_submessage) (use renders_pb_encode [OF assms(1,2), of src] assms(3) in simp)
  then have "renders (\<lambda>s. pb_encode_delimited depth env s fs src) (Some out)"
    using assms(4) by (simp add: delimited_def)
  from renders_into_buffer [OF this assms(5,6)] show ?thesis .
qed

theorem encode_delimited_to_buffer_witness:
  "pb_encode_delimited 3 log_env (pb_ostream_from_buffer (replicate 5 0) 5) gdt_cct_LogResponse_fields 0x10000 =
     Some (True, \<lparr>sink = Buffer [0x03, 0x08, 0xAC, 0x02, 0] 4, max_size = 5,
                  bytes_written = 4, o_errmsg = None\<rparr>)"
proof -
  have "varint_wire (length log_response_wire) = [0x03]"
    by (simp add: log_response_wire_def varint_wire.simps)
  then show ?thesis
    using encode_delimited_to_buffer [of 3 log_env gdt_cct_LogResponse_fields varint_callback_wire "0x10000"
        log_response_wire "0x03 # log_response_wire" 5 "replicate 5 0"] log_tables_ok log_wire log_callbacks
    by (simp add: log_response_wire_def)
qed

section \<open>Round trips of scalar values\<close>

text \<open>What an encoder writes into a buffer and a decoder that accepts it reads from there.\<close>

lemma scalar_roundtrip:
  assumes enc: "emits enc bs" and dec: "accepts dec bs v" and len: "length bs \<le> length buf" "length buf < 2 ^ 64"
  shows "\<exists>s' out. enc (pb_ostream_from_buffer buf (of_nat (length buf))) = (True, s') \<and>
     sink s' = Buffer out (length bs) \<and> bytes_written s' = of_nat (length bs) \<and>
     fst (dec (pb_istream_from_buffer out (bytes_written s'))) = Some v"
proof -
  let ?n = "of_nat (length buf) :: 64 word" and ?out = "bs @ drop (length bs) buf"
  have n: "unat ?n = length buf" using len by (simp add: unat_of_nat)
  have e: "enc (pb_ostream_from_buffer buf ?n) = (True, put_bytes bs (pb_ostream_from_buffer buf ?n))"
    using len n by (intro emitsD [OF enc] clean_from_buffer)
      (simp_all add: fits_from_buffer, simp add: pb_ostream_from_buffer_def)
  have "unat (of_nat (length bs) :: 64 word) = length bs" using len by (simp add: unat_of_nat)
  then have "fst (dec (pb_istream_from_buffer ?out (of_nat (length bs)))) = Some v"
    using dec unfolding accepts_def by (simp add: pb_istream_from_buffer_def)
  then show ?thesis using e by (simp add: put_from_buffer [OF len(1)])
qed

lemma varint_roundtrip:
  assumes "10 \<le> length buf" "length buf < 2 ^ 64"
  shows "\<exists>s' out n. pb_encode_varint (pb_ostream_from_buffer buf (of_nat (length buf))) v = (True, s') \<and>
     sink s' = Buffer out n \<and> bytes_written s' = of_nat n \<and> 1 \<le> n \<and> n \<le> 10 \<and>
     fst (pb_decode_varint (pb_istream_from_buffer out (of_nat n))) = Some v"
proof -
  have le: "length (varint_wire (unat v)) \<le> 10" by (rule length_varint_wire_64)
  with assms have "length (varint_wire (unat v)) \<le> length buf" by simp
  from scalar_roundtrip [OF emits_varint accepts_varint this assms(2)] le length_varint_wire_pos [of "unat v"]
  show ?thesis by (metis One_nat_def Suc_leI)
qed

lemma svarint_roundtrip:
  assumes "10 \<le> length buf" "length buf < 2 ^ 64"
  shows "\<exists>s' out n. pb_encode_svarint (pb_ostream_from_buffer buf (of_nat (length buf))) v = (True, s') \<and>
     sink s' = Buffer out n \<and> bytes_written s' = of_nat n \<and> n \<le> 10 \<and>
     fst (pb_decode_svarint (pb_istream_from_buffer out (of_nat n))) = Some v"
proof -
  let ?z = "if sint v < 0 then NOT (push_bit 1 v) else push_bit 1 v"
  have le: "length (varint_wire (zigzag (sint v))) \<le> 10"
    using length_varint_wire_64 [of ?z] unfolding zigzag_word .
  with assms have "length (varint_wire (zigzag (sint v))) \<le> length buf" by simp
  from scalar_roundtrip [OF emits_svarint accepts_svarint this assms(2)] le
  show ?thesis by metis
qed

lemma tag_roundtrip:
  assumes "unat n < 2 ^ 29" "unat wt < 8" "n \<noteq> 0" "5 \<le> length buf" "length buf < 2 ^ 64"
  shows "\<exists>s' out k. pb_encode_tag (pb_ostream_from_buffer buf (of_nat (length buf))) wt n = (True, s') \<and>
     sink s' = Buffer out k \<and> bytes_written s' = of_nat k \<and> k \<le> 5 \<and>
     pb_decode_tag (pb_istream_from_buffer out (of_nat (length buf))) =
       (Some (wt, n), False, consume k (pb_istream_from_buffer out (of_nat (length buf))))"
proof -
  let ?bs = "varint_wire (unat n * 8 + unat wt)" and ?len = "of_nat (length buf) :: 64 word"
  let ?out = "?bs @ drop (length ?bs) buf"
  have "unat n * 8 + unat wt < 128 ^ Suc 4" using assms(1,2) by simp
  then have le: "length ?bs \<le> 5" using length_varint_wire_le by fastforce
  have u: "unat ?len = length buf" using assms(5) by (simp add: unat_of_nat)
  have "pb_encode_tag (pb_ostream_from_buffer buf ?len) wt n = (True, put_bytes ?bs (pb_ostream_from_buffer buf ?len))"
    using le assms u by (intro emitsD [OF emits_tag] clean_from_buffer)
      (simp_all add: fits_from_buffer, simp add: pb_ostream_from_buffer_def)
  moreover have "pb_decode_tag (pb_istream_from_buffer ?out ?len) =
      (Some (wt, n), False, consume (length ?bs) (pb_istream_from_buffer ?out ?len))"
    using assms le u by (intro decode_tag_wire [where rest = "drop (length ?bs) buf"])
      (simp_all add: pb_istream_from_buffer_def)
  ultimately show ?thesis
    using le assms(4)
    by (intro exI [of _ "put_bytes ?bs (pb_ostream_from_buffer buf ?len)"] exI [of _ ?out] exI [of _ "length ?bs"])
      (simp add: put_from_buffer)
qed

lemma fixed_roundtrip:
  assumes "8 \<le> length buf" "length buf < 2 ^ 64"
  shows "(\<exists>s' out. pb_encode_fixed32 m (pb_ostream_from_buffer buf (of_nat (length buf))) a = (True, s') \<and>
       sink s' = Buffer out 4 \<and> fst (pb_decode_fixed32 (pb_istream_from_buffer out 4)) = Some (load_u32 m a)) \<and>
     (\<exists>s' out. pb_encode_fixed64 m (pb_ostream_from_buffer buf (of_nat (length buf))) a = (True, s') \<and>
       sink s' = Buffer out 8 \<and> fst (pb_decode_fixed64 (pb_istream_from_buffer out 8)) = Some (load_u64 m a))"
  using scalar_roundtrip [OF emits_fixed32 accepts_fixed32, of m a buf]
    scalar_roundtrip [OF emits_fixed64 accepts_fixed64, of m a buf] assms by fastforce

text \<open>
  C6. Scalar values survive encoding into a buffer and decoding. Every 64-bit value as a varint, in at most ten bytes; every signed 64-bit
  value in zig-zag form; a field's tag, of which the decoder reads back the wire type and the field number, for every number below \<open>2 ^ 29\<close> (the
  largest the format allows), and consumes nothing else; 32-bit and 64-bit fixed width values, floating point numbers among them.
\<close>

theorem scalar_roundtrips:
  assumes "10 \<le> length buf" "length buf < 2 ^ 64" "unat n < 2 ^ 29" "unat wt < 8" "n \<noteq> 0"
  shows "(\<exists>s' out k. pb_encode_varint (pb_ostream_from_buffer buf (of_nat (length buf)) :: 'o pb_ostream) v = (True, s') \<and>
       sink s' = Buffer out k \<and> bytes_written s' = of_nat k \<and> 1 \<le> k \<and> k \<le> 10 \<and>
       fst (pb_decode_varint (pb_istream_from_buffer out (of_nat k) :: 'i pb_istream)) = Some v) \<and>
     (\<exists>s' out k. pb_encode_svarint (pb_ostream_from_buffer buf (of_nat (length buf)) :: 'o pb_ostream) i = (True, s') \<and>
       sink s' = Buffer out k \<and> bytes_written s' = of_nat k \<and> k \<le> 10 \<and>
       fst (pb_decode_svarint (pb_istream_from_buffer out (of_nat k) :: 'i pb_istream)) = Some i) \<and>
     (\<exists>s' out k. pb_encode_tag (pb_ostream_from_buffer buf (of_nat (length buf)) :: 'o pb_ostream) wt n = (True, s') \<and>
       sink s' = Buffer out k \<and> bytes_written s' = of_nat k \<and> k \<le> 5 \<and>
       pb_decode_tag (pb_istream_from_buffer out (of_nat (length buf)) :: 'i pb_istream) =
         (Some (wt, n), False, consume k (pb_istream_from_buffer out (of_nat (length buf))))) \<and>
     (\<exists>s' out. pb_encode_fixed32 m (pb_ostream_from_buffer buf (of_nat (length buf)) :: 'o pb_ostream) a = (True, s') \<and>
       sink s' = Buffer out 4 \<and> fst (pb_decode_fixed32 (pb_istream_from_buffer out 4 :: 'i pb_istream)) = Some (load_u32 m a)) \<and>
     (\<exists>s' out. pb_encode_fixed64 m (pb_ostream_from_buffer buf (of_nat (length buf)) :: 'o pb_ostream) a = (True, s') \<and>
       sink s' = Buffer out 8 \<and> fst (pb_decode_fixed64 (pb_istream_from_buffer out 8 :: 'i pb_istream)) = Some (load_u64 m a))"
proof -
  have "5 \<le> length buf" "8 \<le> length buf" using assms(1) by simp_all
  note fixed = fixed_roundtrip [OF \<open>8 \<le> length buf\<close> assms(2), of m a]
  show ?thesis
    by (intro conjI varint_roundtrip [OF assms(1,2)] svarint_roundtrip [OF assms(1,2)]
        tag_roundtrip [OF assms(3-5) \<open>5 \<le> length buf\<close> assms(2)] conjunct1 [OF fixed] conjunct2 [OF fixed])
qed

theorem scalar_roundtrips_witness:
  "(\<exists>s' out k. pb_encode_svarint (pb_ostream_from_buffer (replicate 12 0) 12 :: unit pb_ostream) (- 300) = (True, s') \<and>
     sink s' = Buffer out k \<and> bytes_written s' = of_nat k \<and> k \<le> 10 \<and>
     fst (pb_decode_svarint (pb_istream_from_buffer out (of_nat k) :: unit pb_istream)) = Some (- 300)) \<and>
   (\<exists>s' out k. pb_encode_tag (pb_ostream_from_buffer (replicate 12 0) 12 :: unit pb_ostream) PB_WT_STRING 23 = (True, s') \<and>
     sink s' = Buffer out k \<and> bytes_written s' = of_nat k \<and> k \<le> 5 \<and>
     pb_decode_tag (pb_istream_from_buffer out 12 :: unit pb_istream) =
       (Some (PB_WT_STRING, 23), False, consume k (pb_istream_from_buffer out 12)))"
  using scalar_roundtrips [where 'i = unit and 'o = unit, of "replicate 12 0" 23 PB_WT_STRING 0 "- 300" "\<lambda>_. 0" 0] by (simp add: PB_WT_STRING_def)

section \<open>Decoding messages\<close>

text \<open>
  C10. The decoder returns on every input, whatever the bytes are, for every descriptor table without
  extension fields whose submessages are nested at most \<open>depth\<close> deep, and it reads only
  the input: what is left is a suffix of the buffer that starts within the given length, and the
  counter of the bytes left never goes up. The callbacks have to keep to the same rule and
  to consume something whenever they succeed on a non-empty substream.
\<close>

theorem decode_returns_within_input:
  assumes "callbacks_progress env" "decodable depth (d_tables env) fs" "unat len \<le> length buf"
  shows "\<exists>ok s' w' n. pb_decode depth env (pb_istream_from_buffer buf len) fs dest w = Some (ok, s', w') \<and>
     n \<le> unat len - unat (bytes_left s') \<and> source s' = IBuffer (drop n buf) \<and> bytes_left s' \<le> len"
proof -
  let ?s = "pb_istream_from_buffer buf len :: 'a pb_istream"
  have ok: "istream_ok ?s" using assms(3) by (simp add: istream_ok_def pb_istream_from_buffer_def)
  obtain q where q: "decode_msg depth env True ?s fs dest w = Some q"
    using decode_msg_total [OF assms(1,2) ok] by blast
  have "callbacks_safe env" using assms(1) by (simp add: callbacks_progress_def)
  from decode_msg_step [OF this ok, of depth True fs dest w] q
  have "i_step ?s (fst (snd q))" by (simp add: d_safe_Some)
  then show ?thesis
    using q by (cases q) (auto simp: pb_decode_def i_step_def pb_istream_from_buffer_def)
qed

theorem decode_returns_within_input_witness:
  "\<exists>ok s' w' n. pb_decode 3 log_dec_env (pb_istream_from_buffer log_response_wire 3) gdt_cct_LogResponse_fields 0x10000 log_world =
       Some (ok, s', w') \<and>
     n \<le> 3 - unat (bytes_left s') \<and> source s' = IBuffer (drop n log_response_wire) \<and> bytes_left s' \<le> 3"
  using decode_returns_within_input [of log_dec_env 3 gdt_cct_LogResponse_fields 3 log_response_wire "0x10000" log_world]
    log_progress log_decodable by (simp add: log_response_wire_def)

text \<open>
  C11. Decoding into a structure without pointer fields is memory safe on every input: the decoder
  returns, changes no byte outside the structure (other than those the callbacks change), neither
  allocates nor frees, and does nothing undefined. The condition \<open>static_ok\<close> on the table says that its
  members, counts, flags and oneof selectors are inside the structure of \<open>sz\<close> bytes.
\<close>

theorem decode_static_memory_safe:
  assumes "callbacks_progress env" "callbacks_within C env" "static_ok depth (d_tables env) sz fs" "unat len \<le> length buf"
  shows "\<exists>ok s' w'. pb_decode depth env (pb_istream_from_buffer buf len) fs dest w = Some (ok, s', w') \<and>
     (\<forall>x. x \<notin> {dest ..< dest + sz} \<union> C \<longrightarrow> wmem w' x = wmem w x) \<and> blocks w' = blocks w \<and> (faulty w' \<longrightarrow> faulty w)"
proof -
  let ?s = "pb_istream_from_buffer buf len :: 'a pb_istream"
  have ok: "istream_ok ?s" using assms(4) by (simp add: istream_ok_def pb_istream_from_buffer_def)
  obtain q where q: "decode_msg depth env True ?s fs dest w = Some q"
    using decode_msg_total [OF assms(1) static_decodable [OF assms(3)] ok] by blast
  have "stays ({dest ..< dest + sz} \<union> C) w (decode_msg depth env True ?s fs dest w)"
    by (rule decode_msg_stays [OF assms(2,3)]) simp
  with q have "within ({dest ..< dest + sz} \<union> C) w (snd (snd q))" by simp
  then show ?thesis
    using q by (cases q) (auto simp: pb_decode_def within_def unchanged_outside_def)
qed

theorem decode_static_memory_safe_witness:
  "\<exists>ok s' w'. pb_decode 2 log_dec_env (pb_istream_from_buffer [0x08, 0x01, 0x10, 0x96, 0x01] 5)
       gdt_cct_NetworkConnectionInfo_fields 0x10000 log_world = Some (ok, s', w') \<and>
     (\<forall>x. x \<notin> {0x10000 ..< 0x10010} \<longrightarrow> wmem w' x = wmem log_world x) \<and> blocks w' = [] \<and> \<not> faulty w'"
  using decode_static_memory_safe [of log_dec_env "{}" 2 16 gdt_cct_NetworkConnectionInfo_fields 5
      "[0x08, 0x01, 0x10, 0x96, 0x01]" "0x10000" log_world]
    log_progress network_static log_within by (simp add: log_world_def)

text \<open>
  C12. Decoding a delimited message: the decoder returns on every input, and when it fails before or
  inside the message it has not read past the end of the input.
\<close>

theorem decode_delimited_within_input:
  assumes "callbacks_progress env" "decodable depth (d_tables env) fs" "unat len \<le> length buf"
  shows "\<exists>ok s' w' n. pb_decode_delimited depth env (pb_istream_from_buffer buf len) fs dest w = Some (ok, s', w') \<and>
     n \<le> unat len - unat (bytes_left s') \<and> source s' = IBuffer (drop n buf) \<and> bytes_left s' \<le> len"
proof -
  let ?s = "pb_istream_from_buffer buf len :: 'a pb_istream"
  have ok: "istream_ok ?s" using assms(3) by (simp add: istream_ok_def pb_istream_from_buffer_def)
  have "decode_delimited True depth env ?s fs dest w \<noteq> None"
    by (rule decode_delimited_total [OF assms(1,2) ok])
  then obtain q where q: "decode_delimited True depth env ?s fs dest w = Some q" by blast
  have "callbacks_safe env" using assms(1) by (simp add: callbacks_progress_def)
  from decode_delimited_step [OF this ok, of True depth fs dest w] q
  have "i_step ?s (fst (snd q))" by (simp add: d_safe_Some)
  then show ?thesis
    using q by (cases q) (auto simp: pb_decode_delimited_def i_step_def pb_istream_from_buffer_def)
qed

theorem decode_delimited_within_input_witness:
  "\<exists>ok s' w' n. pb_decode_delimited 3 log_dec_env (pb_istream_from_buffer [0x03, 0x08, 0xAC, 0x02] 4)
       gdt_cct_LogResponse_fields 0x10000 log_world = Some (ok, s', w') \<and>
     n \<le> 4 - unat (bytes_left s') \<and> source s' = IBuffer (drop n [0x03, 0x08, 0xAC, 0x02]) \<and> bytes_left s' \<le> 4"
  using decode_delimited_within_input [of log_dec_env 3 gdt_cct_LogResponse_fields 4 "[0x03, 0x08, 0xAC, 0x02]"
      "0x10000" log_world] log_progress log_decodable by simp

text \<open>
  C22. \<open>allocate_field\<close> does not overflow: when it succeeds, the product of the two sizes is below \<open>2 ^ 64\<close>, a
  live block of exactly that size is at the address it has stored, and the stream is untouched. The
  allocator returns valid addresses (\<open>heap_valid\<close>).
\<close>

theorem allocate_field_exact:
  assumes "heap_valid env" "allocate_field env s p dsize asize w = (True, s', w')"
  shows "s' = s \<and> 0 < unat asize * unat dsize \<and> unat asize * unat dsize < 2 ^ 64 \<and>
     map_of (blocks w') (peek_ptr w' p) = Some (unat asize * unat dsize)"
proof -
  have nz: "dsize \<noteq> 0" "asize \<noteq> 0" and ok: "\<not> ((dsize \<ge> push_bit 32 1 \<or> asize \<ge> push_bit 32 1) \<and> (- 1) div asize < dsize)"
    using assms(2) by (auto simp: allocate_field_def d_error_def split: if_splits)
  then obtain a w1 where r: "pb_realloc env (peek_ptr w p) (asize * dsize) w = (Some a, w1)" "s' = s" "w' = poke_ptr p a w1"
    using assms(2) by (auto simp: allocate_field_def Let_def d_error_def split: option.splits prod.splits)
  have lt: "unat asize * unat dsize < 2 ^ 64" by (rule alloc_no_overflow [OF nz(2) ok])
  then have u: "unat (asize * dsize) = unat asize * unat dsize" by (simp add: unat_word_ariths)
  have "0 < a" "a < 2 ^ 64" using realloc_block(2) [OF r(1)] assms(1) by (auto simp: heap_valid_def)
  then have "peek_ptr w' p = a" by (simp add: r(3) peek_ptr_def poke_ptr_def load_store_ptr)
  moreover have "blocks w' = blocks w1" by (simp add: r(3) poke_ptr_def)
  ultimately show ?thesis
    using realloc_block(1) [OF r(1)] u lt r(2) nz by (simp add: unat_gt_0)
qed

theorem allocate_field_exact_witness:
  "\<exists>s' w'. allocate_field log_dec_env (pb_istream_from_buffer [] 0) 0x10000 24 3 log_world = (True, s', w') \<and>
     map_of (blocks w') (peek_ptr w' 0x10000) = Some 72"
proof -
  have "fst (allocate_field log_dec_env (pb_istream_from_buffer [] 0) 0x10000 24 3 log_world)" by code_simp
  then obtain s' w' where r: "allocate_field log_dec_env (pb_istream_from_buffer [] 0) 0x10000 24 3 log_world = (True, s', w')"
    by (metis prod.collapse)
  show ?thesis using allocate_field_exact [OF log_heap_valid r] r by simp
qed







text \<open>
  C15. Skipping an unknown field consumes exactly the data of the field, for each of the four wire types;
  with any other wire type it fails and consumes nothing.
\<close>

theorem skip_field_exact:
  assumes "source s = IBuffer (bs @ rest)" "length bs \<le> unat (bytes_left s)"
  shows "(field_data wt bs \<longrightarrow> pb_skip_field s wt = (True, consume (length bs) s)) \<and>
     (wt \<notin> {PB_WT_VARINT, PB_WT_64BIT, PB_WT_STRING, PB_WT_32BIT} \<longrightarrow>
        pb_skip_field s wt = (False, i_fail ''invalid wire_type'' s))"
  using skipsD [OF skips_field assms] by (simp add: pb_skip_field_def)

theorem skip_field_exact_witness:
  "pb_skip_field (pb_istream_from_buffer [0xAC, 0x02, 0x10] 3 :: unit pb_istream) PB_WT_VARINT =
     (True, consume 2 (pb_istream_from_buffer [0xAC, 0x02, 0x10] 3))"
proof -
  have "[0xAC, 0x02] = varint_wire 300" by (simp add: varint_wire.simps)
  then have "field_data PB_WT_VARINT [0xAC, 0x02]" unfolding field_data_def by metis
  then show ?thesis
    using skip_field_exact [of "pb_istream_from_buffer [0xAC, 0x02, 0x10] 3 :: unit pb_istream" "[0xAC, 0x02]" "[0x10]"
        PB_WT_VARINT] by (simp add: pb_istream_from_buffer_def flip: numeral_2_eq_2)
qed

section \<open>Messages of the log uploader\<close>




text \<open>
  C18. The maximum encoded sizes that the header promises hold, for every content of the structures in which the
  enumerations have values that the header names.
\<close>

theorem maximum_encoded_sizes:
  assumes "callbacks_render env cbw" "tables env = cct_tables"
    and "uint (load_u32 (mem env) (a + 12)) \<in> set gdt_cct_NetworkConnectionInfo_MobileSubtype"
    and "uint (load_u32 (mem env) (b + 4)) \<in> set gdt_cct_QosTierConfiguration_QosTier"
  shows "\<exists>n k. pb_get_encoded_size 1 env gdt_cct_NetworkConnectionInfo_fields a = Some (True, Some n) \<and>
     unat n \<le> gdt_cct_NetworkConnectionInfo_size \<and>
     pb_get_encoded_size 1 env gdt_cct_QosTierConfiguration_fields b = Some (True, Some k) \<and>
     unat k \<le> gdt_cct_QosTierConfiguration_size"
proof -
  let ?m = "mem env"
  have "uint (load_u32 ?m (a + 12)) < 128" "uint (load_u32 ?m (b + 4)) < 128"
    using assms(3,4) by (auto simp: gdt_cct_NetworkConnectionInfo_MobileSubtype_def gdt_cct_QosTierConfiguration_QosTier_def)
  then have lt: "unat (load_u32 ?m (a + 12)) < 128" "unat (load_u32 ?m (b + 4)) < 128"
    unfolding uint_nat by linarith+
  let ?x = "optional_wire True 1 ?m (a + 4) @ optional_wire False 2 ?m (a + 12)"
  let ?y = "optional_wire False 2 ?m (b + 4) @ optional_wire True 3 ?m (b + 12)"
  have "length ?x \<le> 13" "length ?y \<le> 13"
    using optional_wire_le [of 1 ?m "a + 4" True] optional_wire_le [of 2 ?m "a + 12" False]
      optional_wire_le [of 2 ?m "b + 4" False] optional_wire_le [of 3 ?m "b + 12" True] lt by auto
  note le = this
  have w: "message_wire 1 ?m (tables env) cbw gdt_cct_NetworkConnectionInfo_fields a = Some ?x"
    "message_wire 1 ?m (tables env) cbw gdt_cct_QosTierConfiguration_fields b = Some ?y"
    using NetworkConnectionInfo_wire [of 0] QosTierConfiguration_wire [of 0] by (simp_all del: message_wire.simps)
  have ok: "tables_ok 1 (tables env) gdt_cct_NetworkConnectionInfo_fields" "tables_ok 1 (tables env) gdt_cct_QosTierConfiguration_fields"
    using ok_NetworkConnectionInfo [of 0] ok_QosTierConfiguration [of 0] assms(2) by (simp_all del: tables_ok.simps)
  have "pb_get_encoded_size 1 env gdt_cct_NetworkConnectionInfo_fields a = Some (True, Some (of_nat (length ?x)))"
    "pb_get_encoded_size 1 env gdt_cct_QosTierConfiguration_fields b = Some (True, Some (of_nat (length ?y)))"
    by (rule get_encoded_size_wire [OF ok(1) assms(1) w(1)] get_encoded_size_wire [OF ok(2) assms(1) w(2)],
        rule le_less_trans [OF le(1)] le_less_trans [OF le(2)], simp)+
  moreover have "unat (of_nat (length ?x) :: size_t) = length ?x" "unat (of_nat (length ?y) :: size_t) = length ?y"
    using le by (simp_all add: unat_of_nat del: length_append of_nat_add)
  ultimately show ?thesis
    using le by (intro exI [of _ "of_nat (length ?x)"] exI [of _ "of_nat (length ?y)"])
      (simp only: gdt_cct_NetworkConnectionInfo_size_def gdt_cct_QosTierConfiguration_size_def simp_thms)
qed

theorem maximum_encoded_sizes_witness:
  "\<exists>n k. pb_get_encoded_size 1 log_env gdt_cct_NetworkConnectionInfo_fields 0x10000 = Some (True, Some n) \<and> unat n \<le> 13 \<and>
     pb_get_encoded_size 1 log_env gdt_cct_QosTierConfiguration_fields 0x10000 = Some (True, Some k) \<and> unat k \<le> 13"
proof -
  have "uint (load_u32 log_response_memory 0x1000C) \<in> set gdt_cct_NetworkConnectionInfo_MobileSubtype"
    "uint (load_u32 log_response_memory 0x10004) \<in> set gdt_cct_QosTierConfiguration_QosTier" by code_simp+
  then show ?thesis
    using maximum_encoded_sizes [of log_env varint_callback_wire "0x10000" "0x10000"] log_callbacks
    by (simp add: gdt_cct_NetworkConnectionInfo_size_def gdt_cct_QosTierConfiguration_size_def)
qed

section \<open>Base-64\<close>

text \<open>
  C19. \<open>f_b64_ntop\<close> writes the base-64 text of the source and a null character if the target has room for
  both, and otherwise returns -1; it never writes outside the first \<open>targsize\<close> bytes of the target.
\<close>

theorem b64_ntop_correct:
  assumes "unat targsize \<le> length target" "length target < 2 ^ 63"
  shows "if length (b64_text src) < unat targsize
     then f_b64_ntop src target targsize =
       B64_return (sint (of_nat (length (b64_text src)) :: 32 word))
         (b64_text src @ 0 # drop (length (b64_text src) + 1) target)
     else \<exists>t'. f_b64_ntop src target targsize = B64_return (- 1) t' \<and> length t' = length target \<and>
            drop (unat targsize) t' = drop (unat targsize) target"
  by (rule b64_ntop_cases [OF assms])

theorem b64_ntop_correct_witness:
  "f_b64_ntop [77, 97, 110, 33] (replicate 10 0xEE) 9 =
     B64_return 8 [84, 87, 70, 117, 73, 81, 61, 61, 0, 0xEE]"
proof -
  have t: "b64_text [77, 97, 110, 33] = [84, 87, 70, 117, 73, 81, 61, 61]"
    unfolding b64_text_codes by code_simp
  show ?thesis
    using b64_ntop_correct [of 9 "replicate 10 0xEE" "[77, 97, 110, 33]"] unfolding t by simp
qed

text \<open>
  C20. \<open>f_b64_pton\<close> is total and stays inside the target on every input text: it returns -1 or a
  number of bytes that is at most \<open>targsize\<close>, and leaves what is behind the first \<open>targsize\<close> bytes alone.
\<close>

theorem b64_pton_safe:
  assumes "unat targsize \<le> length target" "unat targsize < 2 ^ 31"
  shows "\<exists>n t'. f_b64_pton src (Some target) targsize = B64_return n t' \<and> - 1 \<le> n \<and> n \<le> int (unat targsize) \<and>
     length t' = length target \<and> drop (unat targsize) t' = drop (unat targsize) target"
  using pton_loop_good [of targsize 0 0 target src] assms by (simp add: pton_inv_def pton_good_def f_b64_pton_def)

theorem b64_pton_safe_witness:
  "\<exists>n t'. f_b64_pton [61, 61, 200, 0x41] (Some [1, 2, 3]) 2 = B64_return n t' \<and> - 1 \<le> n \<and> n \<le> 2 \<and>
     length t' = 3 \<and> drop 2 t' = [3]"
  using b64_pton_safe [of 2 "[1, 2, 3]" "[61, 61, 200, 0x41]"] by (simp flip: numeral_3_eq_3)

text \<open>
  C21. What \<open>f_b64_ntop\<close> writes, \<open>f_b64_pton\<close> reads back: the same number of bytes and the same bytes. The target of the
  second needs one byte more than the data.
\<close>

theorem b64_roundtrip:
  assumes "f_b64_ntop src target targsize = B64_return n txt" "0 \<le> n"
    and "unat targsize \<le> length target" "length target < 2 ^ 31"
    and "length src < unat outsize" "unat outsize \<le> length out" "unat outsize < 2 ^ 31"
  shows "\<exists>t'. f_b64_pton (take (nat n) txt) (Some out) outsize = B64_return (int (length src)) t' \<and>
     length t' = length out \<and> take (length src) t' = src"
proof -
  have "length (b64_text src) < unat targsize"
    using b64_ntop_cases [of targsize target src] assms(1-4) by (auto split: if_splits)
  moreover from this have "sint (of_nat (length (b64_text src)) :: 32 word) = int (length (b64_text src))"
    using assms(3,4) sint_small [of "of_nat (length (b64_text src))"] by (simp add: unat_of_nat)
  ultimately have "take (nat n) txt = b64_text src"
    using b64_ntop_cases [of targsize target src] assms(1,3,4) by simp
  then show ?thesis
    using pton_text [of 0 src outsize out] assms(5-7) by (simp add: f_b64_pton_def)
qed

theorem b64_roundtrip_witness:
  "\<exists>t'. f_b64_pton [84, 87, 70, 117, 73, 81, 61, 61] (Some (replicate 5 0)) 5 = B64_return 4 t' \<and>
     length t' = 5 \<and> take 4 t' = [77, 97, 110, 33]"
proof -
  have t: "f_b64_ntop [77, 97, 110, 33] (replicate 10 0xEE) 9 =
      B64_return 8 [84, 87, 70, 117, 73, 81, 61, 61, 0, 0xEE]" by code_simp
  have four: "Suc (Suc (Suc (Suc 0))) = 4" by simp
  show ?thesis using b64_roundtrip [OF t, of 5 "replicate 5 0"] by (simp add: four)
qed

section \<open>Encodings of the key-value store\<close>

text \<open>
  C24. The 32-bit and the 64-bit varint encoders agree where both apply, \<open>VarintLength\<close> is the length of the encoding, and
  the parsers read back what the writers append and leave what follows; the same holds for strings with a length prefix.
\<close>

theorem leveldb_varints:
  assumes "length value < 2 ^ 32"
  shows "PutVarint32 dst v32 = PutVarint64 dst (ucast v32) \<and>
     VarintLength v64 = length (EncodeVarint64 v64) \<and> VarintLength v64 \<in> {1..10} \<and>
     GetVarint32 (EncodeVarint32 v32 @ rest) = (Some v32, rest) \<and>
     GetVarint64 (EncodeVarint64 v64 @ rest) = (Some v64, rest) \<and>
     GetLengthPrefixedSlice (PutLengthPrefixedSlice [] value @ rest) = (Some value, rest)"
proof (intro conjI)
  show "PutVarint32 dst v32 = PutVarint64 dst (ucast v32)"
    using unat_less_2p(1) [of v32]
    by (simp add: PutVarint32_def PutVarint64_def EncodeVarint32_wire EncodeVarint64_wire)
  show "VarintLength v64 = length (EncodeVarint64 v64)" by (rule VarintLength_exact)
  show "VarintLength v64 \<in> {1..10}" using length_EncodeVarint64 [of v64] by (simp add: VarintLength_exact)
  show "GetVarint32 (EncodeVarint32 v32 @ rest) = (Some v32, rest)" by (simp add: GetVarint_slices v32.get_put)
  show "GetVarint64 (EncodeVarint64 v64 @ rest) = (Some v64, rest)" by (simp add: GetVarint_slices v64.get_put)
  show "GetLengthPrefixedSlice (PutLengthPrefixedSlice [] value @ rest) = (Some value, rest)"
    using assms by (simp add: GetLengthPrefixed_slice lps.get_put)
qed

theorem leveldb_varints_witness:
  "GetLengthPrefixedSlice ([3, 7, 8, 9] @ [1, 2]) = (Some [7, 8, 9], [1, 2])"
proof -
  have "PutLengthPrefixedSlice [] [7, 8, 9] = [3, 7, 8, 9]" by code_simp
  then show ?thesis using leveldb_varints [of "[7, 8, 9]" "[]" 0 0 "[1, 2]"] by simp
qed

section \<open>The log\<close>

text \<open>
  C25. The checksum that the four interleaved table-driven streams of \<open>Extend\<close> compute is the bit-serial CRC-32C of the
  data, wherever the data is in memory; it can be extended piece by piece, and the masked form determines it.
\<close>

theorem crc_equals_specification:
  "Extend address crc data = crc32c crc data \<and>
   Extend a2 (Extend a1 crc xs) ys = Extend address crc (xs @ ys) \<and> Unmask (Mask crc) = crc"
  by (simp add: Extend_crc32c crc32c_append Unmask_Mask)

text \<open>
  C26. The log keeps its records: what \<open>AddRecord\<close> writes to a new file, \<open>ReadRecord\<close> returns, record by record in the
  order of writing and with nothing reported to the reporter, whether checksums are verified or not; then it reports the
  end. The number of rounds of the reader's loop is bounded by the size of the file.
\<close>

theorem log_roundtrip:
  assumes "file_appends wops contents" "contents f0 = []"
    and "file_reads rops unread"
  shows "\<exists>w bs. AddRecords wops a recs (new_Writer b f0) = (OK, w) \<and> contents (w_dest w) = bs \<and>
     (\<forall>f fuel rep chk store. unread f = bs \<and> length bs < fuel \<longrightarrow>
       (\<exists>r. ReadRecords (Suc (length recs)) fuel rops (new_Reader f rep chk store 0) = Some (recs, r) \<and> r_reports r = []))"
proof -
  obtain w bs p' where w: "AddRecords wops a recs (new_Writer b f0) = (OK, w)" "log_of 0 recs bs p'"
    "contents (w_dest w) = bs"
    using AddRecords_writes [OF assms(1) new_Writer_at_0, of a recs b f0] assms(2) by (auto simp: new_Writer_def)
  have "\<exists>r. ReadRecords (Suc (length recs)) fuel rops (new_Reader f rep chk store 0) = Some (recs, r) \<and> r_reports r = []"
    if "unread f = bs" "length bs < fuel" for f fuel rep chk store
    using ReadRecords_log [OF w(2) assms(3) new_Reader_at [of unread f bs, OF that(1)] that(2)] by (simp add: new_Reader_def)
  then show ?thesis using w by blast
qed

theorem log_roundtrip_witness:
  "\<exists>w. AddRecords mem_writable 0 [[1, 2, 3], []] (new_Writer 0 []) = (OK, w) \<and>
     (\<forall>fuel > length (w_dest w). \<exists>r. ReadRecords 3 fuel mem_sequential (new_Reader (w_dest w) True True 0 0) = Some ([[1, 2, 3], []], r) \<and>
       r_reports r = [])"
  using log_roundtrip [OF mem_files(1) _ mem_files(2), of "[]" 0 "[[1, 2, 3], []]" 0]
  by (auto simp: eval_nat_numeral simp del: ReadRecords.simps)

text \<open>
  C27. The log reader returns on every file, whatever its contents and wherever reading starts: \<open>ReadRecord\<close> needs at most
  one round for every byte that is left in the buffer or the file.
\<close>

theorem log_reader_returns:
  assumes "file_reads ops unread" "length (r_buffer r) + length (unread (r_file r)) < fuel"
  shows "\<exists>rec r'. ReadRecord fuel ops r = Some (rec, r')"
  using ReadRecord_returns_within [OF assms(1)] assms(2) by (simp add: remaining_def)

theorem log_reader_returns_witness:
  "\<exists>rec r'. ReadRecord 9 mem_sequential (new_Reader [1, 2, 3, 4, 5, 0, 1, 9] True True 0 0) = Some (rec, r')"
  using log_reader_returns [OF mem_files(2), of "new_Reader [1, 2, 3, 4, 5, 0, 1, 9] True True 0 0" 9]
  by (simp add: new_Reader_def)

section \<open>Filters\<close>

text \<open>
  C28. A Bloom filter has no false negatives: it matches every key that it was made from, for every number of bits per key,
  and making it leaves what was in the destination before.
\<close>

theorem bloom_filter_matches:
  assumes "key \<in> set keys" "length keys < 2 ^ 31"
  shows "\<exists>fil. CreateFilter (NewBloomFilterPolicy b) keys dst = dst @ fil \<and> KeyMayMatch (NewBloomFilterPolicy b) key fil"
  using bloom.creates [of b keys dst] bloom.matches [OF assms] by blast

theorem bloom_filter_matches_witness:
  "\<exists>fil. CreateFilter (NewBloomFilterPolicy 10) [[1], [2, 3]] [9] = [9] @ fil \<and> KeyMayMatch (NewBloomFilterPolicy 10) [2, 3] fil"
  by (rule bloom_filter_matches) simp_all

text \<open>
  C29. A filter block never denies a key of a data block: for blocks that are added in the order of their offsets, the reader of
  the finished block matches every key that was added for the block at the offset.
\<close>

theorem filter_block_no_false_negatives:
  assumes "sorted (map fst bs)" "length (concat (map snd bs)) < 2 ^ 31" "length (bloom_block b bs) < 2 ^ 32"
    and "(off, keys) \<in> set bs" "key \<in> set keys"
  shows "FilterBlockReader_KeyMayMatch (NewBloomFilterPolicy b) (new_FilterBlockReader (bloom_block b bs)) off key = Some True"
  using bloom.filter_block_matches assms unfolding bloom_block_def by blast

theorem filter_block_no_false_negatives_witness:
  "FilterBlockReader_KeyMayMatch (NewBloomFilterPolicy 10)
     (new_FilterBlockReader (bloom_block 10 [(0, [[1], [2, 3]]), (5000, [[4]])])) 5000 [4] = Some True"
proof -
  have "length (bloom_block 10 [(0, [[1], [2, 3]]), (5000, [[4]])]) = 35" by code_simp
  then show ?thesis
    using filter_block_no_false_negatives [of "[(0, [[1], [2, 3]]), (5000, [[4]])]" 10 5000 "[[4]]" "[4]"] by simp
qed

section \<open>Keys and blocks of the key-value store\<close>

text \<open>
  C30. Internal keys: parsing returns what was encoded, the comparator orders encoded keys by the user key, then the newest
  sequence number and the higher type first, and a lookup key comes before exactly those entries of its user key that
  its snapshot may see.
\<close>

theorem internal_key_order:
  assumes "pk_sequence k1 \<le> kMaxSequenceNumber" "pk_sequence k2 \<le> kMaxSequenceNumber" "s \<le> kMaxSequenceNumber"
  shows "ParseInternalKey (AppendInternalKey [] k1) = Some k1 \<and>
     (Compare (InternalKeyComparator BytewiseComparator) (AppendInternalKey [] k1) (AppendInternalKey [] k2) < 0 \<longleftrightarrow>
        bytes_less (pk_user_key k1) (pk_user_key k2) \<or>
        pk_user_key k1 = pk_user_key k2 \<and>
          (pk_sequence k2 < pk_sequence k1 \<or>
           pk_sequence k1 = pk_sequence k2 \<and> pk_type k1 = kTypeValue \<and> pk_type k2 = kTypeDeletion)) \<and>
     (Compare (InternalKeyComparator BytewiseComparator) (lookup_internal_key (new_LookupKey (pk_user_key k1) s)) (AppendInternalKey [] k1) \<le> 0 \<longleftrightarrow>
        pk_sequence k1 \<le> s)"
proof (intro conjI)
  show "ParseInternalKey (AppendInternalKey [] k1) = Some k1" by (rule ParseInternalKey_Append [OF assms(1)])
  have t: "type_code t2 < type_code t1 \<longleftrightarrow> t1 = kTypeValue \<and> t2 = kTypeDeletion" for t1 t2 by (cases t1; cases t2) simp_all
  have b: "Compare BytewiseComparator a b < 0 \<longleftrightarrow> bytes_less a b" for a b by (simp add: BytewiseComparator_def)
  show "Compare (InternalKeyComparator BytewiseComparator) (AppendInternalKey [] k1) (AppendInternalKey [] k2) < 0 \<longleftrightarrow>
      bytes_less (pk_user_key k1) (pk_user_key k2) \<or>
      pk_user_key k1 = pk_user_key k2 \<and>
        (pk_sequence k2 < pk_sequence k1 \<or>
         pk_sequence k1 = pk_sequence k2 \<and> pk_type k1 = kTypeValue \<and> pk_type k2 = kTypeDeletion)"
    by (auto simp: bytewise.internal_signs b pack_less [OF assms(2,1)] t)
  show "Compare (InternalKeyComparator BytewiseComparator) (lookup_internal_key (new_LookupKey (pk_user_key k1) s)) (AppendInternalKey [] k1) \<le> 0 \<longleftrightarrow>
      pk_sequence k1 \<le> s"
    by (simp add: bytewise.internal_le bytewise.internal_signs b lookup_key_parts lookup_not_above [OF assms(3,1)] not_less)
qed

theorem internal_key_order_witness:
  "Compare (InternalKeyComparator BytewiseComparator)
     (AppendInternalKey [] \<lparr>pk_user_key = [1], pk_sequence = 9, pk_type = kTypeDeletion\<rparr>)
     (AppendInternalKey [] \<lparr>pk_user_key = [1], pk_sequence = 5, pk_type = kTypeValue\<rparr>) < 0"
  using internal_key_order [of "\<lparr>pk_user_key = [1], pk_sequence = 9, pk_type = kTypeDeletion\<rparr>"
      "\<lparr>pk_user_key = [1], pk_sequence = 5, pk_type = kTypeValue\<rparr>" 7]
  by (simp add: kMaxSequenceNumber_def)

text \<open>
  C31. The comparators' shortened keys are sound: a separator of two internal keys lies between them and is not longer than
  the first, and a successor is not below its key; the bytewise comparator on user keys likewise.
\<close>

theorem separators_sound:
  assumes "8 \<le> length a" "8 \<le> length b" "Compare (InternalKeyComparator BytewiseComparator) a b < 0" "bytes_less u v"
  shows "let I = InternalKeyComparator BytewiseComparator; s = FindShortestSeparator I a b; t = bytewise_separator u v in
     Compare I a s \<le> 0 \<and> Compare I s b < 0 \<and> length s \<le> length a \<and> Compare I a (FindShortSuccessor I a) \<le> 0 \<and>
     \<not> bytes_less t u \<and> bytes_less t v \<and> length t \<le> length u \<and> \<not> bytes_less (successor_loop 0 u) u"
proof -
  have "Compare BytewiseComparator u v < 0" using assms(4) by (simp add: BytewiseComparator_def)
  then have "\<not> bytes_less (bytewise_separator u v) u" "bytes_less (bytewise_separator u v) v" "\<not> bytes_less (successor_loop 0 u) u"
    using bytewise.separator_between [of u v] bytewise.successor_above [of u] by (simp_all add: BytewiseComparator_def)
  then show ?thesis
    using bytewise.internal.separator_between [OF assms(1-3)] bytewise.internal.successor_above [OF assms(1)]
      internal_separator_length [OF assms(1)] bytewise_separator_length
    by (simp add: Let_def InternalKeyComparator_def)
qed

theorem separators_sound_witness:
  "let s = bytewise_separator [1, 5, 7, 8] [1, 9] in \<not> bytes_less s [1, 5, 7, 8] \<and> bytes_less s [1, 9] \<and> length s \<le> 4"
proof -
  have "Compare (InternalKeyComparator BytewiseComparator) [1, 0, 0, 0, 0, 0, 0, 0, 0] [2, 0, 0, 0, 0, 0, 0, 0, 0] < 0" by code_simp
  then show ?thesis
    using separators_sound [of "[1, 0, 0, 0, 0, 0, 0, 0, 0]" "[2, 0, 0, 0, 0, 0, 0, 0, 0]" "[1, 5, 7, 8]" "[1, 9]"]
    by (simp add: Let_def)
qed

text \<open>
  C32. A block keeps its entries: the iterator over a block that the builder made from a list of entries goes through exactly
  these entries in order, and backwards in reverse order, without an error and without a read past the end, for every restart
  interval.
\<close>

theorem block_roundtrip:
  assumes "length (build_block interval es) < 2 ^ 32" "length (build_block interval es) \<le> k"
  shows "\<exists>it. NewIterator (new_Block (build_block interval es)) = Block_iterator it \<and>
     (\<exists>it1. SeekToFirst it = Some it1 \<and> drain k it1 = Some es) \<and>
     (es \<noteq> [] \<longrightarrow> (\<exists>it1. SeekToLast k it = Some (Some it1) \<and> drain_back k k it1 = Some (rev es)))"
proof -
  obtain shs ris it where it: "NewIterator (new_Block (build_block interval es)) = Block_iterator it" "reads es shs ris it"
    "length es + length ris < length (build_block interval es)" by (rule NewIterator_built [OF assms(1)])
  have k: "length es < k" using it(3) assms(2) by simp
  obtain it1 where it1: "SeekToFirst it = Some it1" "reads es shs ris it1" "positioned es shs it1 0"
    by (rule SeekToFirst_layout [OF it(2)])
  have first: "drain k it1 = Some es" using drain_layout [OF it1(2,3)] k by simp
  have last: "\<exists>it2. SeekToLast k it = Some (Some it2) \<and> drain_back k k it2 = Some (rev es)" if "es \<noteq> []"
  proof -
    obtain it2 where it2: "SeekToLast k it = Some (Some it2)" "reads es shs ris it2" "positioned es shs it2 (length es - 1)"
      by (rule SeekToLast_layout [OF it(2) k])
    show ?thesis using drain_back_layout [OF it2(2,3)] that k it2(1) by simp
  qed
  show ?thesis using it(1) it1(1) first last by blast
qed

theorem block_roundtrip_witness:
  "\<exists>it. NewIterator (new_Block (build_block 2 [([1, 2], [9]), ([1, 2, 3], []), ([2], [7])])) = Block_iterator it \<and>
     (\<exists>it1. SeekToFirst it = Some it1 \<and> drain 40 it1 = Some [([1, 2], [9]), ([1, 2, 3], []), ([2], [7])])"
proof -
  have "length (build_block 2 [([1, 2], [9]), ([1, 2, 3], []), ([2], [7])]) = 27" by code_simp
  then show ?thesis using block_roundtrip [of 2 "[([1, 2], [9]), ([1, 2, 3], []), ([2], [7])]" 40] by auto
qed

text \<open>
  C33. \<open>Seek\<close> finds the first entry at or after the target: for entries with increasing internal keys, the binary search over
  the restart points and the scan behind it leave the iterator where exactly the entries not below the target remain.
\<close>

theorem block_seek:
  fixes es :: "(slice \<times> slice) list"
  assumes "length (build_block interval es) < 2 ^ 32" "length (build_block interval es) \<le> k"
    and "sorted_wrt (\<lambda>a b. Compare (InternalKeyComparator BytewiseComparator) (fst a) (fst b) < 0) es"
    and "\<forall>e \<in> set es. 8 \<le> length (fst e)" "8 \<le> length target"
  shows "\<exists>it it1. NewIterator (new_Block (build_block interval es)) = Block_iterator it \<and>
     Seek k (InternalKeyComparator BytewiseComparator) target it = Some (Some it1) \<and>
     drain k it1 = Some (dropWhile (\<lambda>e. Compare (InternalKeyComparator BytewiseComparator) (fst e) target < 0) es)"
proof -
  let ?I = "InternalKeyComparator BytewiseComparator"
  obtain shs ris it where it: "NewIterator (new_Block (build_block interval es)) = Block_iterator it" "reads es shs ris it"
    "length es + length ris < length (build_block interval es)" by (rule NewIterator_built [OF assms(1)])
  have k: "length es + length ris < k" using it(3) assms(2) by simp
  have o: "bytewise.internal.ordered es" using assms(3,4) by (simp add: bytewise.internal.ordered_def)
  obtain it1 where it1: "Seek k ?I target it = Some (Some it1)" "reads es shs ris it1"
    "positioned es shs it1 (length (takeWhile (\<lambda>e. Compare ?I (fst e) target < 0) es))"
    by (rule bytewise.internal.Seek_layout [OF it(2) o assms(5) k])
  have "drain k it1 = Some (drop (length (takeWhile (\<lambda>e. Compare ?I (fst e) target < 0) es)) es)"
    using drain_layout [OF it1(2,3) length_takeWhile_le] k by simp
  then show ?thesis using it(1) it1(1) by (auto simp: dropWhile_eq_drop)
qed

theorem block_seek_witness:
  "\<exists>it it1. NewIterator (new_Block (build_block 1 [([1] @ replicate 8 0, [7]), ([3] @ replicate 8 0, [8])])) = Block_iterator it \<and>
     Seek 60 (InternalKeyComparator BytewiseComparator) ([2] @ replicate 8 0) it = Some (Some it1) \<and>
     drain 60 it1 = Some [([3] @ replicate 8 0, [8])]"
proof -
  let ?es = "[([1] @ replicate 8 0, [7]), ([3] @ replicate 8 0, [8])] :: (slice \<times> slice) list"
  have "length (build_block 1 ?es) = 38" by code_simp
  moreover have "Compare (InternalKeyComparator BytewiseComparator) ([1] @ replicate 8 0) ([3] @ replicate 8 0) < 0" by code_simp
  moreover have "Compare (InternalKeyComparator BytewiseComparator) ([1] @ replicate 8 0) ([2] @ replicate 8 0) < 0" by code_simp
  moreover have "\<not> Compare (InternalKeyComparator BytewiseComparator) ([3] @ replicate 8 0) ([2] @ replicate 8 0) < 0" by code_simp
  ultimately show ?thesis using block_seek [of 1 ?es 60 "[2] @ replicate 8 0"] by simp
qed

text \<open>
  C34. A table answers lookups: for entries with increasing internal keys, the builder finishes without an error; \<open>Open\<close> on a file with the
  bytes it wrote succeeds; and then \<open>InternalGet\<close>, with the block cache and through the Bloom filter, returns the first
  entry at or after the key whenever it has the key's user key, and never any other entry. It takes as many handles from the cache as it releases.
\<close>

theorem table_get:
  fixes es :: "(slice \<times> slice) list"
  assumes wf: "file_appends ops cont" "cont f = []"
    and opt: "op_comparator opt = InternalKeyComparator BytewiseComparator"
      "op_filter_policy opt = None \<or> (\<exists>name b. op_filter_policy opt = Some (name, InternalFilterPolicy (NewBloomFilterPolicy b)))"
    and es: "sorted_wrt (\<lambda>x y. Compare (InternalKeyComparator BytewiseComparator) (fst x) (fst y) < 0) es"
      "\<forall>e \<in> set es. 8 \<le> length (fst e)" "length es < 2 ^ 31"
    and built: "TableBuilder_Finish ops a (table_adds ops a es (new_TableBuilder opt f)) = (s, r)"
    and bytes: "length (cont (tb_file r)) < 2 ^ 32" "length (cont (tb_file r)) \<le> fuel" "file_holds file (cont (tb_file r))"
    and cache: "cache_ok c M" "\<forall>k b. cache_holds c k b \<longrightarrow> take 8 k \<noteq> EncodeFixed64 (fst (NewId c))"
  shows "s = OK \<and>
    (\<exists>t gs. concat gs = es \<and> Open fuel a (Some lru_block_cache) opt file (of_nat (length (cont (tb_file r)))) c = Some (Some (OK, Some t, snd (NewId c))) \<and>
       cache_agrees (Some lru_block_cache) (cache_holds, cache_ok, cache_takes) t opt gs M (snd (NewId c)) \<and>
       (\<forall>c ro k. cache_agrees (Some lru_block_cache) (cache_holds, cache_ok, cache_takes) t opt gs M c \<and> cache_takes c M \<and> 8 \<le> length k \<longrightarrow>
          (\<exists>res c'. InternalGet fuel a (Some lru_block_cache) t ro k c = Some (Some (OK, res, c')) \<and>
            cache_agrees (Some lru_block_cache) (cache_holds, cache_ok, cache_takes) t opt gs M c' \<and> cache_ok c' M \<and>
            get_result (InternalKeyComparator BytewiseComparator) k es res)))"
proof -
  let ?ca = "Some lru_block_cache" and ?laws = "(cache_holds, cache_ok, cache_takes)"
  obtain gs where gs: "s = OK" "cont (tb_file r) = table_bytes opt gs" "concat gs = es" "[] \<notin> set gs"
    using table_built [OF wf, of a es opt] built by fastforce
  note B = bytes [unfolded gs(2)]
  have o: "bytewise.internal.ordered (concat gs)" using es(1,2) by (simp add: bytewise.internal.ordered_def gs(3))
  obtain t where t: "Open fuel a ?ca opt file (of_nat (length (table_bytes opt gs))) c = Some (Some (OK, Some t, snd (NewId c)))"
    "opened opt gs file t" "ta_cache_id t = fst (NewId c)"
    using Open_built [OF B(3,1,2), where cache = ?ca and c = c and a = a] by (auto simp: lru_block_cache_def)
  let ?P = "cache_agrees ?ca ?laws t opt gs M"
  have "take 8 (cache_key t opt gs i) = EncodeFixed64 (fst (NewId c))" for i
    by (simp add: cache_key_def t(3) EncodeFixed64_def)
  then have P: "?P (snd (NewId c))"
    using cache lru.block_cache_axioms by (auto simp: cache_agrees_def NewId_ok)
  have fil: "\<exists>up capacity. p = InternalFilterPolicy up \<and> filter_policy p capacity \<and> length (concat gs) < capacity"
    if "op_filter_policy opt = Some (name, p)" for name p
  proof -
    obtain b where "p = InternalFilterPolicy (NewBloomFilterPolicy b)" using opt(2) \<open>op_filter_policy opt = Some (name, p)\<close> by auto
    then show ?thesis using es(3) internal_bloom.filter_policy_axioms unfolding gs(3) by blast
  qed
  have "\<exists>res c'. InternalGet fuel a ?ca t ro k c = Some (Some (OK, res, c')) \<and> ?P c' \<and> cache_ok c' M \<and>
      get_result (InternalKeyComparator BytewiseComparator) k es res"
    if c: "?P c" "cache_takes c M" "8 \<le> length k" for c ro k
  proof -
    have "cache_room ?ca ?laws M c" using c(2) by (simp add: cache_room_def)
    then have "\<exists>res c'. InternalGet fuel a ?ca t ro k c = Some (Some (OK, res, c')) \<and> ?P c' \<and>
        get_result (InternalKeyComparator BytewiseComparator) k (concat gs) res"
      by (rule bytewise.InternalGet_built [OF t(2) B(3,1,2) gs(4) o c(3) opt(1) c(1)]) (rule fil)
    then show ?thesis unfolding gs(3) by (auto simp: cache_agrees_def)
  qed
  then show ?thesis using gs(1,3) t(1) P unfolding gs(2) by blast
qed


theorem table_get_witness:
  "\<exists>r file t ro c'.
     TableBuilder_Finish mem_writable 0 (table_adds mem_writable 0 example_entries (new_TableBuilder example_options [])) = (OK, r) \<and>
     Open 1000 0 (Some lru_block_cache) example_options file (of_nat (length (tb_file r))) (NewLRUCache 100) =
       Some (Some (OK, Some t, snd (NewId (NewLRUCache 100)))) \<and>
     InternalGet 1000 0 (Some lru_block_cache) t ro [97, 1, 0, 0, 0, 0, 0, 0, 0] (snd (NewId (NewLRUCache 100))) =
       Some (Some (OK, Some ([97, 1, 0, 0, 0, 0, 0, 0, 0], [7]), c'))"
proof -
  let ?k = "[97, 1, 0, 0, 0, 0, 0, 0, 0] :: slice" and ?I = "InternalKeyComparator BytewiseComparator"
  let ?sc = "NewLRUCache 100 :: block ShardedLRUCache"
  obtain gs r where gs: "TableBuilder_Finish mem_writable 0 (table_adds mem_writable 0 example_entries (new_TableBuilder example_options [])) = (OK, r)"
    "tb_file r = table_bytes example_options gs" "concat gs = example_entries" "[] \<notin> set gs"
    by (rule table_built [OF mem_files(1), where f = "[]" and a = 0 and es = example_entries and opt = example_options]) simp_all
  have "gs = [example_entries]" using singleton_groups gs(3,4) by (simp add: example_entries_def)
  then have len: "length (tb_file r) \<le> 1000" using example_table_size gs(2) by simp
  define rf :: RandomAccessFile where "rf = (\<lambda>off n. (OK, take n (drop (unat off) (tb_file r)), False))"
  have fh: "file_holds rf (tb_file r)" unfolding file_holds_def rf_def by (intro allI exI [of _ False]) simp
  have empty: "\<not> cache_holds ?sc k b" for k b
    by (simp add: cache_holds_def NewLRUCache_def new_LRUCache_def)
  have es: "sorted_wrt (\<lambda>x y. Compare ?I (fst x) (fst y) < 0) example_entries" "\<forall>e \<in> set example_entries. 8 \<le> length (fst e)"
    "length example_entries < 2 ^ 31" by (simp_all add: example_entries_def)
  have opt: "op_comparator example_options = ?I" "op_filter_policy example_options = None \<or>
      (\<exists>name b. op_filter_policy example_options = Some (name, InternalFilterPolicy (NewBloomFilterPolicy b)))"
    by (auto simp: example_options_def)
  have sh: "length (tb_file r) < 2 ^ 32" using len by simp
  obtain t gs where t: "Open 1000 0 (Some lru_block_cache) example_options rf (of_nat (length (tb_file r))) ?sc = Some (Some (OK, Some t, snd (NewId ?sc)))"
    "cache_agrees (Some lru_block_cache) (cache_holds, cache_ok, cache_takes) t example_options gs {#} (snd (NewId ?sc))"
    "\<And>c ro k. cache_agrees (Some lru_block_cache) (cache_holds, cache_ok, cache_takes) t example_options gs {#} c \<and> cache_takes c {#} \<and> 8 \<le> length k \<Longrightarrow>
       \<exists>res c'. InternalGet 1000 0 (Some lru_block_cache) t ro k c = Some (Some (OK, res, c')) \<and> get_result ?I k example_entries res"
    using table_get [OF mem_files(1) _ opt es gs(1) sh len fh NewLRUCache_ok, of "100"] empty by blast
  have "cache_takes (snd (NewId ?sc)) {#}"
    by (auto simp: cache_takes_def NewId_def NewLRUCache_def new_LRUCache_def new_HandleTable_def)
  then obtain res c' where g: "InternalGet 1000 0 (Some lru_block_cache) t \<lparr>ro_verify_checksums = True, ro_fill_cache = True\<rparr> ?k (snd (NewId ?sc)) =
      Some (Some (OK, res, c'))" "get_result ?I ?k example_entries res"
    using t(3) [where c = "snd (NewId ?sc)" and k = ?k and ro = "\<lparr>ro_verify_checksums = True, ro_fill_cache = True\<rparr>"] t(2) by auto
  have "\<not> Compare ?I ?k ?k < 0" by code_simp
  then have "res = Some (?k, [7])" using g(2) by (simp add: get_result_def example_entries_def Let_def)
  then show ?thesis using gs(1) t(1) g(1) by blast
qed

text \<open>
  C35. With checksums on, \<open>ReadBlock\<close> succeeds on exactly the blocks that are complete, whose stored checksum is the CRC of
  contents and type, and whose type is uncompressed, and returns the contents.
\<close>

theorem block_verified:
  assumes "file off (n + kBlockTrailerSize) = (OK, bytes, in_buf)" "n + kBlockTrailerSize < 2 ^ 64"
  shows "ReadBlock file address True \<lparr>bh_offset = off, bh_size = of_nat n\<rparr> = Some (OK, contents) \<longleftrightarrow>
      length bytes = n + kBlockTrailerSize \<and> Unmask (DecodeFixed32 (drop (n + 1) bytes)) = crc32c 0 (take (n + 1) bytes) \<and>
      bytes ! n = 0 \<and> contents = \<lparr>bc_data = take n bytes, bc_cachable = in_buf, bc_heap_allocated = in_buf\<rparr>"
proof -
  have n: "unat (of_nat n :: 64 word) = n" using assms(2) by (simp add: unat_of_nat)
  have w: "unat (of_nat n + of_nat kBlockTrailerSize :: 64 word) = n + kBlockTrailerSize"
  proof -
    have "of_nat n + of_nat kBlockTrailerSize = (of_nat (n + kBlockTrailerSize) :: 64 word)" by simp
    then show ?thesis using assms(2) by (simp only: unat_of_nat) simp
  qed
  show ?thesis
    unfolding ReadBlock_def Let_def BlockHandle.simps n w assms(1) prod.case
    by (auto simp: Value_def Extend_crc32c Snappy_GetUncompressedLength_def)
qed

theorem block_verified_witness:
  "ReadBlock (\<lambda>off n. (OK, take n (drop (unat off) (framed [1, 2, 3])), False)) 0 True \<lparr>bh_offset = 0, bh_size = of_nat 3\<rparr> =
     Some (OK, \<lparr>bc_data = [1, 2, 3], bc_cachable = False, bc_heap_allocated = False\<rparr>)"
proof -
  let ?b = "framed [1, 2, 3]"
  have l: "length ?b = 3 + kBlockTrailerSize" by simp
  have parts: "take 4 ?b = [1, 2, 3, 0]" "?b ! 3 = 0" "DecodeFixed32 (drop 4 ?b) = Mask (crc32c 0 [1, 2, 3, 0])" "take 3 ?b = [1, 2, 3]"
    using framed_parts [of "[1, 2, 3]"] by (simp_all add: numeral_eq_Suc)
  show ?thesis
    using l parts by (subst block_verified [where bytes = ?b and in_buf = False]) (simp_all add: Unmask_Mask kBlockTrailerSize_def)
qed

text \<open>
  C36. The block cache under its clients' protocol: the two lists and the reference counters are as the comments in the code
  promise, no entry is freed while a client has a handle or leaks when none has, and no operation touches a freed entry or loops.
\<close>

theorem cache_invariant:
  assumes "cache_client capacity sc M"
  shows "(\<forall>s < kNumShards. counted (\<lambda>p. count M (s, p)) (sc_shard sc ! s)) \<and>
    (cache_takes sc M \<longrightarrow> Cache_Lookup key sc \<noteq> None \<and> Cache_Insert key v charge sc \<noteq> None) \<and>
    (h \<in># M \<longrightarrow> Cache_Release h sc \<noteq> None) \<and> Cache_Erase key sc \<noteq> None \<and> Cache_Prune sc \<noteq> None"
proof (intro conjI impI allI)
  note ok = cache_client_ok [OF assms]
  show "counted (\<lambda>p. count M (s, p)) (sc_shard sc ! s)" if "s < kNumShards" for s
    using cache_okD(1) [OF ok that] by (rule shard_ok_counted)
  show "Cache_Erase key sc \<noteq> None" by (rule Cache_Erase_ok [OF ok, of key]) simp
  show "Cache_Prune sc \<noteq> None" by (rule Cache_Prune_ok [OF ok]) simp
  show "Cache_Release h sc \<noteq> None" if "h \<in># M"
  proof -
    have "cache_ok sc (add_mset h (M - {#h#}))" using ok that by simp
    then show ?thesis by (rule Cache_Release_ok) simp
  qed
  assume room: "cache_takes sc M"
  show "Cache_Lookup key sc \<noteq> None" using Cache_Lookup_ok [OF ok, of key] room by (auto simp: cache_takes_def)
  show "Cache_Insert key v charge sc \<noteq> None" by (rule Cache_Insert_ok [OF ok room, of key v charge]) simp
qed

theorem cache_invariant_witness:
  "\<exists>h sc :: nat ShardedLRUCache. cache_client 16 sc {#h#} \<and> counted (\<lambda>p. count {#h#} (fst h, p)) (sc_shard sc ! fst h) \<and> Cache_Release h sc \<noteq> None"
proof -
  let ?sc = "NewLRUCache 16 :: nat ShardedLRUCache"
  have new: "cache_client 16 ?sc {#}" by (rule client_new)
  have room: "cache_takes ?sc {#}" by (auto simp: cache_takes_def NewLRUCache_def new_LRUCache_def new_HandleTable_def)
  obtain h sc where h: "Cache_Insert [1] 5 1 ?sc = Some (h, sc)" by (rule Cache_Insert_ok [OF NewLRUCache_ok room])
  have c: "cache_client 16 sc {#h#}" by (rule client_Insert [OF new room h])
  moreover have "fst h < kNumShards" using cache_client_ok [OF c] by (simp add: cache_ok_def)
  moreover have "(\<forall>s < kNumShards. counted (\<lambda>p. count {#h#} (s, p)) (sc_shard sc ! s)) \<and> Cache_Release h sc \<noteq> None"
    using cache_invariant [OF c, of "[1]" 5 1 h] unfolding set_mset_single by blast
  ultimately show ?thesis by blast
qed



text \<open>
  C38. A write batch that was filled by \<open>Put\<close> and \<open>Delete\<close> is read back as the same operations in the same order, whatever handler
  reads it; appending one batch to another gives the operations of both, and inserting the result into a memory table adds them in that
  order, numbered from the batch's sequence number on.
\<close>

theorem write_batch_insert:
  assumes "\<forall>op \<in> set (xs @ ys). record_fits op"
  shows "WriteBatch_Iterate put del (fold batch_apply xs WriteBatch_Clear) h = map_option (Pair OK) (handle put del xs h) \<and>
    InsertInto user (batch_SetSequence seq (batch_Append (fold batch_apply xs WriteBatch_Clear) (fold batch_apply ys WriteBatch_Clear))) table =
      map_option (Pair OK) (mem_adds user (numbered seq (xs @ ys)) table)"
proof
  show "WriteBatch_Iterate put del (fold batch_apply xs WriteBatch_Clear) h = map_option (Pair OK) (handle put del xs h)"
    using assms by (simp add: WriteBatch_Clear_rep batch_built WriteBatch_Iterate_rep)
  show "InsertInto user (batch_SetSequence seq (batch_Append (fold batch_apply xs WriteBatch_Clear) (fold batch_apply ys WriteBatch_Clear))) table =
      map_option (Pair OK) (mem_adds user (numbered seq (xs @ ys)) table)"
    unfolding WriteBatch_Clear_rep batch_built batch_Append_rep batch_rep_parts(5) by (rule InsertInto_rep [OF assms])
qed

theorem write_batch_insert_witness:
  "WriteBatch_Iterate (\<lambda>k v h. Some (h @ [(k, Some v)])) (\<lambda>k h. Some (h @ [(k, None)])) (WriteBatch_Delete [2] (WriteBatch_Put [1] [7] WriteBatch_Clear)) [] =
     Some (OK, [([1], Some [7]), ([2], None)])"
  using write_batch_insert [of "[Put [1] [7], Delete [2]]" "[]" "\<lambda>k v h. Some (h @ [(k, Some v)])" "\<lambda>k h. Some (h @ [(k, None)])" "[]"]
  by simp

text \<open>
  C39. A memory table to which entries were added with rising sequence numbers answers a lookup of a user key at a sequence number with the
  newest entry of the key that is not newer than the number: its value, the status NotFound if it is a deletion, and false if
  there is none. The searches of the skip list end and stay within the nodes.
\<close>

theorem memtable_get:
  assumes "sorted_wrt (\<lambda>x y. fst x < fst y) ops" "\<forall>op \<in> set ops. op_fits op" "length u + 8 < 2 ^ 32" "s \<le> kMaxSequenceNumber"
  shows "\<exists>table. mem_adds BytewiseComparator ops new_SkipList = Some table \<and>
    MemTable_Get BytewiseComparator (new_LookupKey u s) table = Some (get_answer (newest u s ops))"
  using bytewise.Get_newest [OF assms] by (auto split: Option.bind_splits)

theorem memtable_get_witness:
  "\<exists>table. mem_adds BytewiseComparator [(1, kTypeValue, [5], [1]), (2, kTypeValue, [6], [2]), (3, kTypeValue, [5], [3]), (4, kTypeDeletion, [5], [])] new_SkipList =
      Some table \<and> MemTable_Get BytewiseComparator (new_LookupKey [5] 3) table = Some (True, Some [3], None)"
proof -
  let ?ops = "[(1, kTypeValue, [5], [1]), (2, kTypeValue, [6], [2]), (3, kTypeValue, [5], [3]), (4, kTypeDeletion, [5], [])] :: mem_op list"
  have k: "kMaxSequenceNumber = 72057594037927935" by (simp add: kMaxSequenceNumber_def)
  have "get_answer (newest [5] 3 ?ops) = (True, Some [3], None)" by (simp add: newest_def)
  moreover have "sorted_wrt (\<lambda>x y. fst x < fst y) ?ops" by simp
  moreover have "\<forall>op \<in> set ?ops. op_fits op" by (simp add: op_fits_def k)
  moreover have "(3 :: 64 word) \<le> kMaxSequenceNumber" by (simp add: k)
  ultimately show ?thesis using memtable_get [of ?ops "[5]" 3] by simp
qed

text \<open>
  C40. The iterator of the database over any number of memory tables behaves, under every sequence of calls and in both directions, as a
  position in one sorted list: for each user key the value of the newest operation that the sequence number includes, unless that is a
  deletion. The tables hold operations with rising sequence numbers. Every call returns, but \<open>Next\<close> and \<open>Prev\<close> on an iterator that is not valid.
\<close>

theorem database_iterator:
  assumes "sorted_wrt (\<lambda>x y. fst x < fst y) (concat opss)" "\<forall>op \<in> set (concat opss). op_fits op" "s \<le> kMaxSequenceNumber"
    "\<forall>k. CallSeek k \<in> set calls \<longrightarrow> length k + 8 < 2 ^ 32"
  shows "\<exists>tables V. list_all2 (\<lambda>ops table. mem_adds BytewiseComparator ops new_SkipList = Some table) opss tables \<and>
    sorted_wrt (\<lambda>a b. Compare BytewiseComparator (fst a) (fst b) < 0) V \<and>
    (\<forall>u v. (u, v) \<in> set V \<longleftrightarrow> (\<exists>q. newest u s (concat opss) = Some (q, kTypeValue, u, v))) \<and>
    iter_run (memory_iterator s) calls (new_memory_iterator seed tables) = list_run BytewiseComparator V calls (length V)"
  using assms by (rule memory_iterator_refines)

theorem database_iterator_witness:
  "\<exists>tables. length tables = 2 \<and>
    iter_run (memory_iterator 3) [CallSeekToFirst, CallNext, CallSeekToLast, CallPrev, CallSeek [6]] (new_memory_iterator 301 tables) =
      Some [Some ([5], [1]), None, Some ([5], [1]), None, None]"
proof -
  let ?opss = "[[(1, kTypeValue, [5], [1]), (2, kTypeValue, [6], [2])], [(3, kTypeDeletion, [6], []), (4, kTypeValue, [4], [9])]] :: mem_op list list"
  let ?calls = "[CallSeekToFirst, CallNext, CallSeekToLast, CallPrev, CallSeek [6]]"
  have k: "kMaxSequenceNumber = 72057594037927935" by (simp add: kMaxSequenceNumber_def)
  have sorted: "sorted_wrt (\<lambda>x y. fst x < fst y) (concat ?opss)" by simp
  have fits: "\<forall>op \<in> set (concat ?opss). op_fits op" by (simp add: op_fits_def k)
  have s: "(3 :: 64 word) \<le> kMaxSequenceNumber" by (simp add: k)
  have calls: "\<forall>k. CallSeek k \<in> set ?calls \<longrightarrow> length k + 8 < 2 ^ 32" by simp
  obtain tables V where t: "list_all2 (\<lambda>ops table. mem_adds BytewiseComparator ops new_SkipList = Some table) ?opss tables"
    "sorted_wrt (\<lambda>a b. Compare BytewiseComparator (fst a) (fst b) < 0) V"
    "\<forall>u v. (u, v) \<in> set V \<longleftrightarrow> (\<exists>q. newest u 3 (concat ?opss) = Some (q, kTypeValue, u, v))"
    "iter_run (memory_iterator 3) ?calls (new_memory_iterator 301 tables) = list_run BytewiseComparator V ?calls (length V)"
    using database_iterator [OF sorted fits s calls, of 301] by blast
  have "(u, v) \<in> set V \<longleftrightarrow> u = [5] \<and> v = [1]" for u v using t(3) by (auto simp: newest_def)
  then have set: "set V = {([5], [1])}" by auto
  have "\<not> Compare BytewiseComparator [5] [5] < 0" by (simp add: BytewiseComparator_def)
  then have V: "V = [([5], [1])]" using t(2) set by (cases V; cases "tl V") auto
  have run: "list_run BytewiseComparator V ?calls (length V) = Some [Some ([5], [1]), None, Some ([5], [1]), None, None]"
    unfolding V by (simp add: step_back_def lower_def BytewiseComparator_def)
  have "length tables = 2" using list_all2_lengthD [OF t(1)] by simp
  then show ?thesis using t(4) unfolding run by blast
qed

section \<open>The files of the database\<close>

text \<open>
  C7. A version edit survives the manifest: an edit that was filled by its setters with level numbers in range and keys below 4 GB is read back equal,
  every field and flag of it, by \<open>DecodeFrom\<close>. Only the compaction pointers of the edit that is read into are kept, in front of those that were written.
\<close>

theorem version_edit_roundtrip:
  assumes "\<forall>f \<in> set fs. edit_field_ok f" "e = fold field_apply fs new_VersionEdit"
  shows "VersionEdit_DecodeFrom (VersionEdit_EncodeTo e []) e0 =
    (OK, e\<lparr>ve_compact_pointers := ve_compact_pointers e0 @ ve_compact_pointers e\<rparr>)"
  using DecodeFrom_EncodeTo [OF edit_ok_built [OF assms(1)]] assms(2) by simp

theorem version_edit_roundtrip_witness:
  "VersionEdit_DecodeFrom
     (VersionEdit_EncodeTo (DeleteFile 2 9 (AddFile 1 12 4096 [97] [122] (DeleteFile 6 7 (SetLogNumber 11 new_VersionEdit)))) []) new_VersionEdit =
   (OK, DeleteFile 2 9 (AddFile 1 12 4096 [97] [122] (DeleteFile 6 7 (SetLogNumber 11 new_VersionEdit))))"
  using version_edit_roundtrip [of "[LogNumber 11, DeletedFile 6 7, NewFile 1 12 4096 [97] [122], DeletedFile 2 9]", OF _ refl, of new_VersionEdit]
  by (simp add: new_VersionEdit_def VersionEdit_Clear_def SetLogNumber_def DeleteFile_def AddFile_def)

text \<open>
  C8. \<open>ParseFileName\<close> recognises exactly the names that the database owns, with the number they carry (a decimal number that fits 64 bits, read
  without overflow) and their type, and the names that the database makes are recognised as what they were made for.
\<close>

theorem file_names_exact:
  "(ParseFileName s = Some (num, t) \<longleftrightarrow> owned_name s num t) \<and>
   ParseFileName (drop (length dbname + 1) (LogFileName dbname n)) = Some (n, kLogFile) \<and>
   ParseFileName (drop (length dbname + 1) (TableFileName dbname n)) = Some (n, kTableFile) \<and>
   ParseFileName (drop (length dbname + 1) (SSTTableFileName dbname n)) = Some (n, kTableFile) \<and>
   ParseFileName (drop (length dbname + 1) (DescriptorFileName dbname n)) = Some (n, kDescriptorFile) \<and>
   ParseFileName (drop (length dbname + 1) (TempFileName dbname n)) = Some (n, kTempFile) \<and>
   ParseFileName (drop (length dbname + 1) (CurrentFileName dbname)) = Some (0, kCurrentFile) \<and>
   ParseFileName (drop (length dbname + 1) (LockFileName dbname)) = Some (0, kDBLockFile) \<and>
   ParseFileName (drop (length dbname + 1) (InfoLogFileName dbname)) = Some (0, kInfoLogFile) \<and>
   ParseFileName (drop (length dbname + 1) (OldInfoLogFileName dbname)) = Some (0, kInfoLogFile)"
  unfolding ParseFileName_exact by (intro conjI refl made_names)



section \<open>Versions\<close>



end
